(* ===== verification/Prelude.thy ===== *)
theory Prelude
  imports Main "HOL-Library.Word" "HOL-Library.Monad_Syntax"
begin

text \<open>
  Shared vocabulary of the development: byte strings, the error-result discipline used by
  the models of Go functions that return \<open>(value, error)\<close>, Go's truncated remainder, and
  the list, option and map lemmas that several components use.
\<close>

unbundle bit_operations_syntax

named_theorems op_defs \<open>definitions of the modelled operations\<close>
named_theorems inv_intros \<open>preservation of the component invariants\<close>

type_synonym byte = "8 word"
type_synonym bytes = "byte list"

text \<open>
  A Go call \<open>v, err := f(x); if err != nil { return err }\<close> is a bind on the sum type, with
  the error in \<open>Inl\<close>.
\<close>

definition ebind :: "'e + 'a \<Rightarrow> ('a \<Rightarrow> 'e + 'b) \<Rightarrow> 'e + 'b" where
  "ebind r f = (case r of Inl e \<Rightarrow> Inl e | Inr a \<Rightarrow> f a)"

lemma ebind_simps [simp]: "ebind (Inl e) f = Inl e" "ebind (Inr a) f = f a"
  by (simp_all add: ebind_def)

lemma ebind_Inr_conv: "ebind r f = Inr b \<longleftrightarrow> (\<exists>a. r = Inr a \<and> f a = Inr b)"
  by (cases r) simp_all

lemma ebind_InrE [elim!]:
  assumes "ebind r f = Inr b"
  obtains a where "r = Inr a" "f a = Inr b"
  using assms by (auto simp: ebind_Inr_conv)

text \<open>
  The same for code that may also fail to return: \<open>None\<close> is a loop that does not end, and
  propagates.
\<close>

definition pbind :: "('e + 'a) option \<Rightarrow> ('a \<Rightarrow> ('e + 'b) option) \<Rightarrow> ('e + 'b) option" where
  "pbind r f = (case r of None \<Rightarrow> None | Some (Inl e) \<Rightarrow> Some (Inl e) | Some (Inr a) \<Rightarrow> f a)"

lemma pbind_simps [simp]:
  "pbind None f = None" "pbind (Some (Inl e)) f = Some (Inl e)" "pbind (Some (Inr a)) f = f a"
  by (simp_all add: pbind_def)

lemma pbind_InrE [elim!]:
  assumes "pbind r f = Some (Inr b)"
  obtains a where "r = Some (Inr a)" "f a = Some (Inr b)"
  using assms by (auto simp: pbind_def split: option.splits sum.splits)

lemma pbind_None_conv: "pbind r f = None \<longleftrightarrow> r = None \<or> (\<exists>a. r = Some (Inr a) \<and> f a = None)"
  by (auto simp: pbind_def split: option.splits sum.splits)

text \<open>Go's \<open>%\<close> on signed integers truncates towards zero.\<close>

definition go_rem :: "int \<Rightarrow> int \<Rightarrow> int" where
  "go_rem a b = sgn a * (\<bar>a\<bar> mod \<bar>b\<bar>)"

lemma go_rem_nonneg: "0 \<le> a \<Longrightarrow> 0 < b \<Longrightarrow> go_rem a b = a mod b"
  by (cases "a = 0") (simp_all add: go_rem_def)

text \<open>Adding the modulus to a negative remainder gives the mathematical remainder.\<close>

lemma go_rem_adjust:
  assumes "0 < (b::int)"
  shows "(if go_rem a b < 0 then go_rem a b + b else go_rem a b) = a mod b"
proof (cases "0 \<le> a")
  case True
  then show ?thesis using assms by (simp add: go_rem_nonneg not_less)
next
  case False
  then have r: "go_rem a b = - ((- a) mod b)"
    using assms by (simp add: go_rem_def)
  show ?thesis
  proof (cases "(- a) mod b = 0")
    case True
    then have "b dvd - a" by (rule mod_0_imp_dvd)
    then have "a mod b = 0" by simp
    with True r show ?thesis by simp
  next
    case False
    have "0 \<le> (- a) mod b" using assms by simp
    with False have "0 < (- a) mod b" by simp
    with r have "go_rem a b < 0" by simp
    moreover have "a mod b = b - (- a) mod b"
      using False zmod_zminus1_eq_if [of "- a" b] by simp
    ultimately show ?thesis using r by simp
  qed
qed

text \<open>Bytes.\<close>

lemma byte_le_255: "y \<le> (255 :: byte)"
proof -
  have "(255 :: byte) = - 1" by simp
  then show ?thesis by (simp only: word_order.extremum)
qed

lemma byte_unat_less: "unat (x :: byte) < 256"
  using unsigned_less [of x, where ?'a = nat] by simp

lemma byte_unat_Suc: "x \<noteq> 255 \<Longrightarrow> unat (x + 1 :: byte) = Suc (unat x)"
proof -
  assume "x \<noteq> 255"
  then have "unat x \<noteq> 255" by (simp add: word_unat_eq_iff)
  with byte_unat_less [of x] show ?thesis by (simp add: unat_word_ariths)
qed

lemma byte_unat_pred: "x \<noteq> 0 \<Longrightarrow> unat (x - 1 :: byte) = unat x - 1"
  by (simp add: unat_sub_if' unat_gt_0 Suc_le_eq)

text \<open>Lists and iteration.\<close>

lemma funpow_swap: "(f ^^ m) ((f ^^ n) x) = (f ^^ n) ((f ^^ m) x)"
  by (metis add.commute comp_apply funpow_add)

lemma foldl_conv_rev: "foldl f a xs = foldr (\<lambda>x y. f y x) (rev xs) a"
  by (simp add: foldl_conv_foldr)

lemma map_nth_upt [simp]: "map ((!) xs) [0..<length xs] = xs"
  by (rule map_nth)

lemma replicate_2: "replicate 2 x = [x, x]"
  by (simp add: numeral_2_eq_2)

lemma list_all_upt: "list_all P [0..<n] \<longleftrightarrow> (\<forall>i<n. P i)"
  by (auto simp: list_all_iff)

lemma sorted_le_last: "sorted xs \<Longrightarrow> x \<in> set xs \<Longrightarrow> x \<le> last xs"
  by (induction xs) auto

end
