(* ===== verification/Gf256.thy ===== *)
theory Gf256
  imports Prelude
begin

text \<open>
  The field \<open>GF(2^8)\<close> of \<open>psiphon/common/sss/gf256.go\<close>: the exponential and logarithm
  tables and the table-driven \<open>mul\<close> and \<open>div\<close>, with \<open>None\<close> for the panic of a division
  by zero. The tables are shown to be the powers of the generator 3 modulo the polynomial
  \<open>0x11b\<close>, from which \<open>mul\<close> and \<open>div\<close> are shown to be field operations over \<open>XOR\<close>:
  the type \<open>gf\<close> of field elements is an instance of the library's class \<open>field\<close>.
\<close>

section \<open>The tables and the operations\<close>

definition fieldSize :: nat where
  "fieldSize = 256"

definition exp_table :: "byte list" where
  "exp_table = [
     0x01, 0x03, 0x05, 0x0f, 0x11, 0x33, 0x55, 0xff, 0x1a, 0x2e, 0x72, 0x96,
     0xa1, 0xf8, 0x13, 0x35, 0x5f, 0xe1, 0x38, 0x48, 0xd8, 0x73, 0x95, 0xa4,
     0xf7, 0x02, 0x06, 0x0a, 0x1e, 0x22, 0x66, 0xaa, 0xe5, 0x34, 0x5c, 0xe4,
     0x37, 0x59, 0xeb, 0x26, 0x6a, 0xbe, 0xd9, 0x70, 0x90, 0xab, 0xe6, 0x31,
     0x53, 0xf5, 0x04, 0x0c, 0x14, 0x3c, 0x44, 0xcc, 0x4f, 0xd1, 0x68, 0xb8,
     0xd3, 0x6e, 0xb2, 0xcd, 0x4c, 0xd4, 0x67, 0xa9, 0xe0, 0x3b, 0x4d, 0xd7,
     0x62, 0xa6, 0xf1, 0x08, 0x18, 0x28, 0x78, 0x88, 0x83, 0x9e, 0xb9, 0xd0,
     0x6b, 0xbd, 0xdc, 0x7f, 0x81, 0x98, 0xb3, 0xce, 0x49, 0xdb, 0x76, 0x9a,
     0xb5, 0xc4, 0x57, 0xf9, 0x10, 0x30, 0x50, 0xf0, 0x0b, 0x1d, 0x27, 0x69,
     0xbb, 0xd6, 0x61, 0xa3, 0xfe, 0x19, 0x2b, 0x7d, 0x87, 0x92, 0xad, 0xec,
     0x2f, 0x71, 0x93, 0xae, 0xe9, 0x20, 0x60, 0xa0, 0xfb, 0x16, 0x3a, 0x4e,
     0xd2, 0x6d, 0xb7, 0xc2, 0x5d, 0xe7, 0x32, 0x56, 0xfa, 0x15, 0x3f, 0x41,
     0xc3, 0x5e, 0xe2, 0x3d, 0x47, 0xc9, 0x40, 0xc0, 0x5b, 0xed, 0x2c, 0x74,
     0x9c, 0xbf, 0xda, 0x75, 0x9f, 0xba, 0xd5, 0x64, 0xac, 0xef, 0x2a, 0x7e,
     0x82, 0x9d, 0xbc, 0xdf, 0x7a, 0x8e, 0x89, 0x80, 0x9b, 0xb6, 0xc1, 0x58,
     0xe8, 0x23, 0x65, 0xaf, 0xea, 0x25, 0x6f, 0xb1, 0xc8, 0x43, 0xc5, 0x54,
     0xfc, 0x1f, 0x21, 0x63, 0xa5, 0xf4, 0x07, 0x09, 0x1b, 0x2d, 0x77, 0x99,
     0xb0, 0xcb, 0x46, 0xca, 0x45, 0xcf, 0x4a, 0xde, 0x79, 0x8b, 0x86, 0x91,
     0xa8, 0xe3, 0x3e, 0x42, 0xc6, 0x51, 0xf3, 0x0e, 0x12, 0x36, 0x5a, 0xee,
     0x29, 0x7b, 0x8d, 0x8c, 0x8f, 0x8a, 0x85, 0x94, 0xa7, 0xf2, 0x0d, 0x17,
     0x39, 0x4b, 0xdd, 0x7c, 0x84, 0x97, 0xa2, 0xfd, 0x1c, 0x24, 0x6c, 0xb4,
     0xc7, 0x52, 0xf6, 0x01]"

definition log_table :: "byte list" where
  "log_table = [
     0x00, 0x00, 0x19, 0x01, 0x32, 0x02, 0x1a, 0xc6, 0x4b, 0xc7, 0x1b, 0x68,
     0x33, 0xee, 0xdf, 0x03, 0x64, 0x04, 0xe0, 0x0e, 0x34, 0x8d, 0x81, 0xef,
     0x4c, 0x71, 0x08, 0xc8, 0xf8, 0x69, 0x1c, 0xc1, 0x7d, 0xc2, 0x1d, 0xb5,
     0xf9, 0xb9, 0x27, 0x6a, 0x4d, 0xe4, 0xa6, 0x72, 0x9a, 0xc9, 0x09, 0x78,
     0x65, 0x2f, 0x8a, 0x05, 0x21, 0x0f, 0xe1, 0x24, 0x12, 0xf0, 0x82, 0x45,
     0x35, 0x93, 0xda, 0x8e, 0x96, 0x8f, 0xdb, 0xbd, 0x36, 0xd0, 0xce, 0x94,
     0x13, 0x5c, 0xd2, 0xf1, 0x40, 0x46, 0x83, 0x38, 0x66, 0xdd, 0xfd, 0x30,
     0xbf, 0x06, 0x8b, 0x62, 0xb3, 0x25, 0xe2, 0x98, 0x22, 0x88, 0x91, 0x10,
     0x7e, 0x6e, 0x48, 0xc3, 0xa3, 0xb6, 0x1e, 0x42, 0x3a, 0x6b, 0x28, 0x54,
     0xfa, 0x85, 0x3d, 0xba, 0x2b, 0x79, 0x0a, 0x15, 0x9b, 0x9f, 0x5e, 0xca,
     0x4e, 0xd4, 0xac, 0xe5, 0xf3, 0x73, 0xa7, 0x57, 0xaf, 0x58, 0xa8, 0x50,
     0xf4, 0xea, 0xd6, 0x74, 0x4f, 0xae, 0xe9, 0xd5, 0xe7, 0xe6, 0xad, 0xe8,
     0x2c, 0xd7, 0x75, 0x7a, 0xeb, 0x16, 0x0b, 0xf5, 0x59, 0xcb, 0x5f, 0xb0,
     0x9c, 0xa9, 0x51, 0xa0, 0x7f, 0x0c, 0xf6, 0x6f, 0x17, 0xc4, 0x49, 0xec,
     0xd8, 0x43, 0x1f, 0x2d, 0xa4, 0x76, 0x7b, 0xb7, 0xcc, 0xbb, 0x3e, 0x5a,
     0xfb, 0x60, 0xb1, 0x86, 0x3b, 0x52, 0xa1, 0x6c, 0xaa, 0x55, 0x29, 0x9d,
     0x97, 0xb2, 0x87, 0x90, 0x61, 0xbe, 0xdc, 0xfc, 0xbc, 0x95, 0xcf, 0xcd,
     0x37, 0x3f, 0x5b, 0xd1, 0x53, 0x39, 0x84, 0x3c, 0x41, 0xa2, 0x6d, 0x47,
     0x14, 0x2a, 0x9e, 0x5d, 0x56, 0xf2, 0xd3, 0xab, 0x44, 0x11, 0x92, 0xd9,
     0x23, 0x20, 0x2e, 0x89, 0xb4, 0x7c, 0xb8, 0x26, 0x77, 0x99, 0xe3, 0xa5,
     0x67, 0x4a, 0xed, 0xde, 0xc5, 0x31, 0xfe, 0x18, 0x0d, 0x63, 0x8c, 0x80,
     0xc0, 0xf7, 0x70, 0x07]"

text \<open>\<open>int(log[e])\<close> and \<open>exp[p]\<close>: the index of a byte is always in range.\<close>

definition log_at :: "byte \<Rightarrow> int" where
  "log_at e = uint (log_table ! unat e)"

definition exp_at :: "int \<Rightarrow> byte" where
  "exp_at p = exp_table ! nat p"

definition mul :: "byte \<Rightarrow> byte \<Rightarrow> byte" where
  "mul e a = (if e = 0 \<or> a = 0 then 0 else exp_at (go_rem (log_at e + log_at a) 255))"

definition div_gf :: "byte \<Rightarrow> byte \<Rightarrow> byte option" where
  "div_gf e a =
    (if a = 0 then None
     else if e = 0 then Some 0
     else let p = go_rem (log_at e - log_at a) 255;
              p' = (if p < 0 then p + 255 else p)
          in Some (exp_at p'))"

section \<open>The tables are the powers of the generator\<close>

text \<open>
  Multiplication by \<open>x + 1\<close> modulo \<open>x^8 + x^4 + x^3 + x + 1\<close>: shift, add, and reduce when
  the top bit is shifted out.
\<close>

definition times3 :: "byte \<Rightarrow> byte" where
  "times3 x = push_bit 1 x XOR x XOR (if bit x 7 then 0x1b else 0)"

lemma times3_xor: "times3 (x XOR y) = times3 x XOR times3 y"
  unfolding times3_def by (simp add: bit_xor_iff) (simp add: xor.assoc xor.left_commute xor.commute)

lemma times3_0 [simp]: "times3 0 = 0"
  by (simp add: times3_def)

lemma funpow_times3_xor: "(times3 ^^ n) (x XOR y) = (times3 ^^ n) x XOR (times3 ^^ n) y"
  by (induction n) (simp_all add: times3_xor)

lemma funpow_times3_0 [simp]: "(times3 ^^ n) 0 = 0"
  by (induction n) simp_all

lemma exp_table_step: "map times3 (butlast exp_table) = tl exp_table"
  by (simp add: exp_table_def times3_def)

lemma length_exp_table [simp]: "length exp_table = 256"
  by (simp add: exp_table_def)

lemma length_log_table [simp]: "length log_table = 256"
  by (simp add: log_table_def)

lemma exp_table_0: "exp_table ! 0 = 1" and exp_table_255: "exp_table ! 255 = 1"
  by (simp_all add: exp_table_def)

lemma exp_table_Suc: "i < 255 \<Longrightarrow> exp_table ! Suc i = times3 (exp_table ! i)"
proof -
  assume i: "i < 255"
  then have "exp_table ! Suc i = tl exp_table ! i"
    by (simp add: nth_tl)
  also have "\<dots> = map times3 (butlast exp_table) ! i"
    by (simp only: exp_table_step)
  also have "\<dots> = times3 (exp_table ! i)"
    using i by (simp add: nth_butlast)
  finally show ?thesis .
qed

lemma exp_table_pow: "i \<le> 255 \<Longrightarrow> exp_table ! i = (times3 ^^ i) 1"
  by (induction i) (simp_all add: exp_table_0 exp_table_Suc)

lemma times3_period: "(times3 ^^ 255) 1 = 1"
  using exp_table_pow [of 255] by (simp add: exp_table_255)

lemma times3_mod: "(times3 ^^ (n mod 255)) 1 = (times3 ^^ n) 1"
proof -
  have p: "(times3 ^^ (255 * k)) 1 = 1" for k
    by (induction k) (simp_all add: funpow_add times3_period)
  have "(times3 ^^ n) 1 = (times3 ^^ (n mod 255 + 255 * (n div 255))) 1"
    by simp
  also have "\<dots> = (times3 ^^ (n mod 255)) ((times3 ^^ (255 * (n div 255))) 1)"
    by (simp only: funpow_add o_apply)
  finally show ?thesis by (simp only: p)
qed

text \<open>The logarithm table inverts the exponential table on the nonzero bytes.\<close>

lemma log_table_bound: "list_all (\<lambda>l. l < 255) (tl log_table)"
  by (simp add: log_table_def)

lemma log_table_inverse:
  "map (\<lambda>l. exp_table ! unat l) (tl log_table) = map word_of_nat [1..<256]"
  by code_simp

lemma log_facts:
  assumes "a \<noteq> 0"
  shows log_at_nonneg: "0 \<le> log_at a" and log_at_less: "log_at a < 255"
    and exp_log: "exp_table ! nat (log_at a) = a"
proof -
  let ?i = "unat a - 1"
  have pos: "0 < unat a" using assms by (simp add: unat_gt_0)
  have lt: "unat a < 256" using unsigned_less [of a] by simp
  have i: "?i < length (tl log_table)" using pos lt by simp
  have nth: "tl log_table ! ?i = log_table ! unat a" using pos i by (simp add: nth_tl)
  have "log_table ! unat a < 255"
    using log_table_bound i nth by (auto simp: list_all_length)
  then have "uint (log_table ! unat a) < 255"
    by (simp add: word_less_def)
  then show "log_at a < 255" by (simp add: log_at_def)
  show "0 \<le> log_at a" by (simp add: log_at_def)
  have "map (\<lambda>l. exp_table ! unat l) (tl log_table) ! ?i = exp_table ! unat (log_table ! unat a)"
    using i nth by simp
  moreover have "map word_of_nat [1..<256] ! ?i = a"
    using pos lt by simp
  ultimately have "exp_table ! unat (log_table ! unat a) = a"
    by (simp only: log_table_inverse)
  then show "exp_table ! nat (log_at a) = a" by (simp add: log_at_def)
qed

lemma pow_log: "a \<noteq> 0 \<Longrightarrow> (times3 ^^ nat (log_at a)) 1 = a"
  using exp_table_pow [of "nat (log_at a)"] exp_log [of a] log_at_less [of a]
  by (simp add: nat_le_iff)

text \<open>Multiplying by a nonzero byte iterates the linear map \<open>times3\<close>.\<close>

lemma exp_at_pow: "0 \<le> p \<Longrightarrow> p < 255 \<Longrightarrow> exp_at p = (times3 ^^ nat p) 1"
  by (simp add: exp_at_def exp_table_pow nat_le_iff)

lemma exp_at_mod:
  assumes "0 \<le> p"
  shows "exp_at (p mod 255) = (times3 ^^ nat p) 1"
proof -
  have "exp_at (p mod 255) = (times3 ^^ (nat p mod 255)) 1"
    using assms by (simp add: exp_at_pow nat_mod_distrib)
  then show ?thesis by (simp only: times3_mod)
qed

lemma mul_funpow:
  assumes "b \<noteq> 0"
  shows "mul a b = (times3 ^^ nat (log_at b)) a"
proof (cases "a = 0")
  case True
  then show ?thesis by (simp add: mul_def)
next
  case False
  note nn = log_at_nonneg [OF False] log_at_nonneg [OF assms]
  have "mul a b = exp_at ((log_at b + log_at a) mod 255)"
    using False assms nn by (simp add: mul_def go_rem_nonneg add.commute)
  also have "\<dots> = (times3 ^^ (nat (log_at b) + nat (log_at a))) 1"
    using nn by (simp add: exp_at_mod nat_add_distrib)
  also have "\<dots> = (times3 ^^ nat (log_at b)) a"
    using False by (simp add: funpow_add pow_log)
  finally show ?thesis .
qed

lemma mul_0 [simp]: "mul 0 a = 0" "mul a 0 = 0"
  by (simp_all add: mul_def)

lemma mul_commute: "mul a b = mul b a"
  by (simp add: mul_def add.commute disj_commute)

lemma mul_xor_left: "mul (a XOR b) c = mul a c XOR mul b c"
  by (cases "c = 0") (simp_all add: mul_funpow funpow_times3_xor)

lemma mul_1 [simp]: "mul 1 a = a" "mul a 1 = a"
proof -
  show "mul 1 a = a" by (cases "a = 0") (simp_all add: mul_funpow pow_log)
  then show "mul a 1 = a" by (simp add: mul_commute)
qed

lemma funpow_mul:
  "(times3 ^^ n) (mul a b) = mul ((times3 ^^ n) a) b"
  by (cases "b = 0") (simp_all add: mul_funpow funpow_swap [where m = n])

lemma mul_assoc: "mul (mul a b) c = mul a (mul b c)"
proof (cases "c = 0")
  case True
  then show ?thesis by simp
next
  case False
  have "mul a (mul b c) = mul (mul b c) a" by (rule mul_commute)
  also have "\<dots> = mul ((times3 ^^ nat (log_at c)) b) a"
    using False by (simp add: mul_funpow [of c])
  also have "\<dots> = (times3 ^^ nat (log_at c)) (mul b a)" by (simp add: funpow_mul)
  also have "\<dots> = mul (mul b a) c" using False by (rule mul_funpow [symmetric])
  also have "mul b a = mul a b" by (rule mul_commute)
  finally show ?thesis by simp
qed

lemma div_gf_mul:
  assumes "a \<noteq> 0"
  shows "\<exists>q. div_gf e a = Some q \<and> mul q a = e"
proof (cases "e = 0")
  case True
  then show ?thesis using assms by (simp add: div_gf_def)
next
  case False
  define p where "p = (log_at e - log_at a) mod 255"
  have p: "0 \<le> p" "p < 255" by (simp_all add: p_def)
  have d: "div_gf e a = Some (exp_at p)"
    using False assms go_rem_adjust [of 255 "log_at e - log_at a"]
    by (simp add: div_gf_def Let_def p_def)
  have "exp_at p \<noteq> 0"
  proof
    assume "exp_at p = 0"
    then have z: "(times3 ^^ nat p) 1 = 0" using p by (simp add: exp_at_pow)
    have "(times3 ^^ 255) 1 = (times3 ^^ (255 - nat p)) ((times3 ^^ nat p) 1)"
      using p by (simp add: funpow_add [symmetric, THEN fun_cong, unfolded o_apply])
    then show False using z times3_period by simp
  qed
  have na: "0 \<le> log_at a" using assms by (rule log_at_nonneg)
  have "mul (exp_at p) a = (times3 ^^ (nat (log_at a) + nat p)) 1"
    using assms p by (simp add: mul_funpow exp_at_pow funpow_add)
  also have "\<dots> = exp_at ((log_at a + p) mod 255)"
    using na p by (simp add: exp_at_mod nat_add_distrib)
  also have "(log_at a + p) mod 255 = log_at e mod 255"
    by (simp add: p_def mod_add_right_eq)
  also have "exp_at (log_at e mod 255) = e"
    using False log_at_nonneg [of e] by (simp add: exp_at_mod pow_log)
  finally show ?thesis using d by simp
qed

section \<open>The bytes as a field\<close>

typedef gf = "UNIV :: byte set"
  morphisms byte_of gf_of by simp

lemma gf_inverse_morphisms [simp]: "byte_of (gf_of b) = b" "gf_of (byte_of x) = x"
  by (simp_all add: gf_of_inverse byte_of_inverse)

lemma gf_eq_iff: "x = y \<longleftrightarrow> byte_of x = byte_of y"
  by (simp add: byte_of_inject)

lemma gf_of_eq_iff [simp]: "gf_of a = gf_of b \<longleftrightarrow> a = b"
  by (simp add: gf_eq_iff)

instantiation gf :: field
begin

definition "0 = gf_of 0"
definition "1 = gf_of 1"
definition "x + y = gf_of (byte_of x XOR byte_of y)"
definition "x - y = gf_of (byte_of x XOR byte_of y)"
definition "- x = (x :: gf)"
definition "x * y = gf_of (mul (byte_of x) (byte_of y))"
definition "inverse x = (if x = 0 then 0 else gf_of (the (div_gf 1 (byte_of x))))"
definition "x div y = x * inverse (y :: gf)"

instance
proof
  fix a b c :: gf
  show "a * b * c = a * (b * c)" by (simp add: times_gf_def mul_assoc)
  show "a * b = b * a" by (simp add: times_gf_def mul_commute)
  show "1 * a = a" by (simp add: times_gf_def one_gf_def)
  show "a + b + c = a + (b + c)" by (simp add: plus_gf_def xor.assoc)
  show "a + b = b + a" by (simp add: plus_gf_def xor.commute)
  show "0 + a = a" by (simp add: plus_gf_def zero_gf_def)
  show "- a + a = 0" by (simp add: plus_gf_def zero_gf_def uminus_gf_def)
  show "a - b = a + - b" by (simp add: plus_gf_def minus_gf_def uminus_gf_def)
  show "(a + b) * c = a * c + b * c" by (simp add: plus_gf_def times_gf_def mul_xor_left)
  show "(0 :: gf) \<noteq> 1" by (simp add: zero_gf_def one_gf_def)
  show "inverse (0 :: gf) = 0" by (simp add: inverse_gf_def)
  show "a div b = a * inverse b" by (rule divide_gf_def)
  show "inverse a * a = 1" if "a \<noteq> 0"
  proof -
    from that have "byte_of a \<noteq> 0" by (simp add: gf_eq_iff zero_gf_def)
    then obtain q where "div_gf 1 (byte_of a) = Some q" "mul q (byte_of a) = 1"
      using div_gf_mul by blast
    with that show ?thesis by (simp add: inverse_gf_def times_gf_def one_gf_def)
  qed
qed

end

lemma gf_of_0: "gf_of 0 = 0" and gf_of_1: "gf_of 1 = 1"
  by (simp_all add: zero_gf_def one_gf_def)

lemma gf_of_xor: "gf_of (a XOR b) = gf_of a + gf_of b"
  by (simp add: plus_gf_def)

lemma gf_of_xor_diff: "gf_of (a XOR b) = gf_of a - gf_of b"
  by (simp add: minus_gf_def)

lemma gf_of_mul: "gf_of (mul a b) = gf_of a * gf_of b"
  by (simp add: times_gf_def)

lemma gf_of_eq_0: "gf_of a = 0 \<longleftrightarrow> a = 0"
  by (simp flip: gf_of_0)

lemma xor_eq_0 [simp]: "a XOR b = (0 :: byte) \<longleftrightarrow> a = b"
  by (metis gf_of_eq_0 gf_of_eq_iff gf_of_xor_diff right_minus_eq)

text \<open>The code's \<open>div\<close> is the field's division, and panics exactly on zero.\<close>

lemma div_gf_Some:
  assumes "a \<noteq> 0"
  shows "div_gf e a = Some (byte_of (gf_of e / gf_of a))"
proof -
  obtain q where q: "div_gf e a = Some q" "mul q a = e"
    using div_gf_mul [OF assms] by blast
  then have "gf_of q * gf_of a = gf_of e" by (simp flip: gf_of_mul)
  then have "gf_of q = gf_of e / gf_of a"
    using assms by (simp add: field_simps gf_of_eq_0)
  then show ?thesis using q by (simp add: gf_eq_iff)
qed

lemma div_gf_None: "div_gf e a = None \<longleftrightarrow> a = 0"
  by (auto simp: div_gf_def Let_def)

lemmas gf_of_simps = gf_of_0 gf_of_1 gf_of_mul gf_of_eq_0

end
