(* ===== verification/Lagrange.thy ===== *)
theory Lagrange
  imports Prelude
begin

text \<open>
  Polynomials over a field as coefficient lists, lowest degree first: a polynomial with
  fewer coefficients than roots is zero, and the Lagrange form through \<open>n\<close> points is the
  only polynomial with \<open>n\<close> coefficients through them. These are the facts of algebra that
  the secret-sharing component rests on.
\<close>

fun horner :: "'a::field list \<Rightarrow> 'a \<Rightarrow> 'a" where
  "horner [] x = 0"
| "horner (a # p) x = a + x * horner p x"

section \<open>Roots\<close>

text \<open>Division by a linear factor keeps the leading coefficient.\<close>

lemma horner_divide_linear:
  assumes "p \<noteq> []"
  shows "\<exists>q. length q = length p - 1 \<and> (\<forall>x. horner p x = (x - a) * horner q x + horner p a)
    \<and> (q \<noteq> [] \<longrightarrow> last q = last p)"
  using assms
proof (induction p)
  case Nil
  then show ?case by simp
next
  case (Cons c p)
  show ?case
  proof (cases "p = []")
    case True
    then show ?thesis by (intro exI [of _ "[]"]) simp
  next
    case False
    with Cons.IH obtain q where q: "length q = length p - 1"
      "\<forall>x. horner p x = (x - a) * horner q x + horner p a" "q \<noteq> [] \<longrightarrow> last q = last p"
      by blast
    let ?q = "horner p a # q"
    have "horner (c # p) x = (x - a) * horner ?q x + horner (c # p) a" for x
    proof -
      have e: "horner p x = (x - a) * horner q x + horner p a" using q(2) by blast
      show ?thesis by (simp only: horner.simps e) (simp add: algebra_simps)
    qed
    moreover have "last ?q = last (c # p)"
    proof (cases "q = []")
      case True
      with q(1) False obtain d where "p = [d]" by (cases p) auto
      with True show ?thesis by simp
    qed (use q(3) False in simp)
    moreover have "length ?q = length (c # p) - 1"
      using q(1) False by (cases p) simp_all
    ultimately show ?thesis by blast
  qed
qed

lemma horner_roots:
  assumes "p \<noteq> []" "finite S" "length p \<le> card S" "\<And>x. x \<in> S \<Longrightarrow> horner p x = 0"
  shows "last p = 0 \<and> (\<forall>x. horner p x = 0)"
  using assms
proof (induction "length p" arbitrary: p S)
  case 0
  then show ?case by simp
next
  case (Suc n)
  then have "S \<noteq> {}" by auto
  then obtain a where a: "a \<in> S" by blast
  with Suc.prems have pa: "horner p a = 0" by simp
  from Suc.prems(1) obtain q where q: "length q = length p - 1"
      "\<forall>x. horner p x = (x - a) * horner q x + horner p a" "q \<noteq> [] \<longrightarrow> last q = last p"
    using horner_divide_linear by blast
  show ?case
  proof (cases "q = []")
    case True
    with q(1) Suc.prems(1) obtain d where "p = [d]" by (cases p) auto
    with pa show ?thesis by simp
  next
    case False
    have "horner q x = 0" if "x \<in> S - {a}" for x
      using that q(2) [rule_format, of x] Suc.prems(4) [of x] pa by auto
    moreover have "n = length q" "length q \<le> card (S - {a})"
      using Suc.hyps(2) q(1) Suc.prems(2,3) a by auto
    ultimately have "last q = 0 \<and> (\<forall>x. horner q x = 0)"
      using Suc.hyps(1) [of q "S - {a}"] False Suc.prems(2) by simp
    with q(2,3) False pa show ?thesis by simp
  qed
qed

section \<open>Closure of the polynomial functions\<close>

definition poly_fun :: "nat \<Rightarrow> ('a::field \<Rightarrow> 'a) \<Rightarrow> bool" where
  "poly_fun n f \<longleftrightarrow> (\<exists>p. length p = n \<and> f = horner p)"

lemma horner_map2_add:
  "length p = length q \<Longrightarrow> horner (map2 (+) p q) x = horner p x + horner q x"
  by (induction p q rule: list_induct2) (simp_all add: algebra_simps)

lemma horner_smult: "horner (map ((*) c) p) x = c * horner p x"
  by (induction p) (simp_all add: algebra_simps)

lemma horner_snoc_0: "horner (p @ [0]) x = horner p x"
  by (induction p) simp_all

lemma horner_replicate_0 [simp]: "horner (replicate n 0) x = 0"
  by (induction n) simp_all

lemma horner_pad: "horner (p @ replicate n 0) x = horner p x"
  by (induction p) simp_all

lemma poly_fun_zero: "poly_fun n (\<lambda>_. 0)"
  unfolding poly_fun_def by (intro exI [of _ "replicate n 0"]) (simp add: fun_eq_iff)

lemma poly_fun_const: "poly_fun (Suc 0) (\<lambda>_. c)"
  unfolding poly_fun_def by (intro exI [of _ "[c]"]) (simp add: fun_eq_iff)

lemma poly_fun_add: "poly_fun n f \<Longrightarrow> poly_fun n g \<Longrightarrow> poly_fun n (\<lambda>x. f x + g x)"
proof -
  assume "poly_fun n f" "poly_fun n g"
  then obtain p q where pq: "length p = n" "f = horner p" "length q = n" "g = horner q"
    by (auto simp: poly_fun_def)
  then show ?thesis unfolding poly_fun_def
    by (intro exI [of _ "map2 (+) p q"]) (simp add: horner_map2_add fun_eq_iff)
qed

lemma poly_fun_smult: "poly_fun n f \<Longrightarrow> poly_fun n (\<lambda>x. c * f x)"
proof -
  assume "poly_fun n f"
  then obtain p where p: "length p = n" "f = horner p" by (auto simp: poly_fun_def)
  then show ?thesis unfolding poly_fun_def
    by (intro exI [of _ "map ((*) c) p"]) (simp add: horner_smult fun_eq_iff)
qed

lemma poly_fun_diff: "poly_fun n f \<Longrightarrow> poly_fun n g \<Longrightarrow> poly_fun n (\<lambda>x. f x - g x)"
  using poly_fun_add [of n f "\<lambda>x. - 1 * g x"] poly_fun_smult [of n g "- 1"] by simp

lemma poly_fun_linear:
  assumes "poly_fun n f"
  shows "poly_fun (Suc n) (\<lambda>x. (x - a) * f x)"
proof -
  from assms obtain p where p: "length p = n" "f = horner p"
    by (auto simp: poly_fun_def)
  let ?q = "map2 (+) (0 # p) (map ((*) (- a)) p @ [0])"
  have "horner ?q x = (x - a) * f x" for x
    using p by (subst horner_map2_add) (simp_all add: horner_snoc_0 horner_smult algebra_simps)
  moreover have "length ?q = Suc n" using p by simp
  ultimately show ?thesis unfolding poly_fun_def by (intro exI [of _ ?q]) auto
qed

lemma poly_fun_prod_linear:
  "finite J \<Longrightarrow> poly_fun (Suc (card J)) (\<lambda>x. \<Prod>j\<in>J. (x - c j) / d j)"
proof (induction J rule: finite_induct)
  case empty
  then show ?case by (simp add: poly_fun_const)
next
  case (insert j J)
  have "poly_fun (Suc (Suc (card J))) (\<lambda>x. (1 / d j) * ((x - c j) * (\<Prod>j\<in>J. (x - c j) / d j)))"
    by (rule poly_fun_smult [OF poly_fun_linear [OF insert.IH]])
  with insert.hyps show ?case by (simp add: mult.assoc)
qed

lemma poly_fun_sum:
  "finite I \<Longrightarrow> (\<And>i. i \<in> I \<Longrightarrow> poly_fun n (f i)) \<Longrightarrow> poly_fun n (\<lambda>x. \<Sum>i\<in>I. f i x)"
  by (induction I rule: finite_induct) (simp_all add: poly_fun_zero poly_fun_add)

section \<open>Lagrange interpolation\<close>

definition lagrange_weight :: "('a::field \<times> 'a) list \<Rightarrow> nat \<Rightarrow> 'a \<Rightarrow> 'a" where
  "lagrange_weight pts i x =
    (\<Prod>j\<in>{..<length pts} - {i}. (x - fst (pts ! j)) / (fst (pts ! i) - fst (pts ! j)))"

definition lagrange :: "('a::field \<times> 'a) list \<Rightarrow> 'a \<Rightarrow> 'a" where
  "lagrange pts x = (\<Sum>i<length pts. lagrange_weight pts i x * snd (pts ! i))"

lemma poly_fun_lagrange: "poly_fun (length pts) (lagrange pts)"
proof -
  have "poly_fun (length pts) (\<lambda>x. lagrange_weight pts i x * snd (pts ! i))"
    if "i < length pts" for i
  proof -
    have c: "Suc (card ({..<length pts} - {i})) = length pts" using that by simp
    show ?thesis
      using poly_fun_smult [OF poly_fun_prod_linear [of "{..<length pts} - {i}"
            "\<lambda>j. fst (pts ! j)" "\<lambda>j. fst (pts ! i) - fst (pts ! j)"], of "snd (pts ! i)"]
      unfolding c lagrange_weight_def by (simp add: mult.commute)
  qed
  then show ?thesis unfolding lagrange_def [abs_def] by (intro poly_fun_sum) auto
qed

lemma lagrange_at_point:
  assumes d: "distinct (map fst pts)" and k: "k < length pts"
  shows "lagrange pts (fst (pts ! k)) = snd (pts ! k)"
proof -
  have w: "lagrange_weight pts i (fst (pts ! k)) = (if i = k then 1 else 0)"
    if i: "i < length pts" for i
  proof (cases "i = k")
    case True
    have "fst (pts ! k) \<noteq> fst (pts ! j)" if "j < length pts" "j \<noteq> k" for j
      using nth_eq_iff_index_eq [OF d, of k j] that k by auto
    with True show ?thesis unfolding lagrange_weight_def by (intro trans [OF prod.neutral]) auto
  next
    case False
    then have "k \<in> {..<length pts} - {i}" using k by simp
    then have "lagrange_weight pts i (fst (pts ! k)) = 0" unfolding lagrange_weight_def
      by (intro prod_zero bexI [of _ k]) simp_all
    with False show ?thesis by simp
  qed
  have "lagrange pts (fst (pts ! k)) = (\<Sum>i<length pts. if i = k then snd (pts ! k) else 0)"
    unfolding lagrange_def by (intro sum.cong) (auto simp: w)
  then show ?thesis using k by simp
qed

theorem lagrange_unique:
  assumes d: "distinct (map fst pts)"
    and on: "\<And>a y. (a, y) \<in> set pts \<Longrightarrow> horner p a = y"
    and len: "length p \<le> length pts"
  shows "lagrange pts x = horner p x"
proof (cases "pts = []")
  case True
  then show ?thesis using len by (simp add: lagrange_def)
next
  case False
  let ?n = "length pts"
  have "poly_fun ?n (horner p)"
    unfolding poly_fun_def
    by (intro exI [of _ "p @ replicate (?n - length p) 0"]) (simp add: len horner_pad fun_eq_iff)
  then have "poly_fun ?n (\<lambda>x. lagrange pts x - horner p x)"
    by (rule poly_fun_diff [OF poly_fun_lagrange])
  then obtain q where q: "length q = ?n" "\<And>x. lagrange pts x - horner p x = horner q x"
    unfolding poly_fun_def by (metis (no_types, lifting))
  have "horner q a = 0" if "a \<in> set (map fst pts)" for a
  proof -
    from that obtain k where k: "k < ?n" "a = fst (pts ! k)"
      by (auto simp: in_set_conv_nth)
    then have "horner p a = snd (pts ! k)" by (intro on) simp
    with k lagrange_at_point [OF d k(1)] show ?thesis by (simp flip: q(2))
  qed
  moreover have "length q \<le> card (set (map fst pts))"
    using d q(1) by (simp only: distinct_card length_map)
  moreover have "q \<noteq> []" using q(1) False by auto
  ultimately have "\<forall>x. horner q x = 0"
    using horner_roots [of q "set (map fst pts)"] by blast
  then show ?thesis using q(2) [of x] by simp
qed

text \<open>
  One point too few: through fewer points than the degree, the interpolant at any further
  argument differs from a polynomial whose leading coefficient is not zero.
\<close>

theorem lagrange_short:
  assumes d: "distinct (map fst pts)" and x: "x \<notin> set (map fst pts)"
    and on: "\<And>a y. (a, y) \<in> set pts \<Longrightarrow> horner p a = y"
    and len: "length p = Suc (length pts)" and lead: "last p \<noteq> 0"
  shows "lagrange pts x \<noteq> horner p x"
proof
  assume eq: "lagrange pts x = horner p x"
  obtain l where l: "length l = length pts" "\<And>y. lagrange pts y = horner l y"
    using poly_fun_lagrange [of pts] unfolding poly_fun_def by metis
  let ?q = "map2 (+) p (map ((*) (- 1)) (l @ [0]))"
  have q: "horner ?q y = horner p y - lagrange pts y" for y
    using len l by (subst horner_map2_add) (simp_all add: horner_snoc_0 horner_smult
        del: map_append)
  have "horner ?q a = 0" if "a \<in> insert x (set (map fst pts))" for a
  proof (cases "a = x")
    case True
    then show ?thesis using eq q [of x] by simp
  next
    case False
    with that obtain k where k: "k < length pts" "a = fst (pts ! k)"
      by (auto simp: in_set_conv_nth)
    then have "horner p a = snd (pts ! k)" by (intro on) simp
    with k lagrange_at_point [OF d k(1)] q [of a] show ?thesis by simp
  qed
  moreover have "length ?q \<le> card (insert x (set (map fst pts)))"
    using d x len l by (simp add: distinct_card del: set_map)
  moreover have "?q \<noteq> []" using len l by (cases p) auto
  ultimately have "last ?q = 0" using horner_roots [of ?q "insert x (set (map fst pts))"] by blast
  moreover have "last ?q = last p"
  proof -
    obtain p' c where p: "p = p' @ [c]" using len by (cases p rule: rev_cases) auto
    then show ?thesis using len l by simp
  qed
  ultimately show False using lead by simp
qed

end
