(* ===== verification/Sss.thy ===== *)
theory Sss
  imports Gf256 Lagrange
begin

text \<open>
  Shamir secret sharing, \<open>psiphon/common/sss/polynomial.go\<close> and \<open>sss.go\<close>: polynomials over
  the bytes, their random generation and interpolation, and \<open>Split\<close> and \<open>Combine\<close>.

  An \<open>io.Reader\<close> is the list of the bytes it will still deliver, and a read past its end is
  an error. A Go map is a HOL map; a \<open>range\<close> over it visits its entries in an order that Go
  leaves open, so \<open>combine\<close> takes the order of each of its loops as an argument. The loop
  \<open>for x := byte(1); x <= n; x++\<close> is a \<open>partial_function\<close>: its byte counter wraps.
\<close>

section \<open>polynomial.go\<close>

datatype sss_error = ErrInvalidCount | ErrInvalidThreshold | ErrRead | SssPanic

definition degree :: "bytes \<Rightarrow> int" where
  "degree p = int (length p) - 1"

definition eval :: "bytes \<Rightarrow> byte \<Rightarrow> byte" where
  "eval p x = foldl (\<lambda>result i. mul result x XOR p ! (length p - i)) 0 [1..<Suc (length p)]"

definition read_full :: "nat \<Rightarrow> bytes \<Rightarrow> sss_error + bytes \<times> bytes" where
  "read_full n r = (if n \<le> length r then Inr (take n r, drop n r) else Inl ErrRead)"

text \<open>The loop that draws the leading coefficient until it is not zero.\<close>

fun generate_last :: "nat \<Rightarrow> bytes \<Rightarrow> bytes \<Rightarrow> sss_error + bytes \<times> bytes" where
  "generate_last d result [] = Inl ErrRead"
| "generate_last d result (b # r) =
    (if b \<noteq> 0 then Inr (result[d := b], r) else generate_last d result r)"

definition generate :: "byte \<Rightarrow> byte \<Rightarrow> bytes \<Rightarrow> sss_error + bytes \<times> bytes" where
  "generate deg x r =
    (let result = replicate (unat (deg + 1)) 0
     in if result = [] then Inl SssPanic
        else ebind (read_full (unat (deg - 1)) r) (\<lambda>(buf, r).
          generate_last (unat deg)
            (fold (\<lambda>i res. res[i := buf ! (i - 1)]) [1..<unat deg] (result[0 := x])) r))"

type_synonym pair = "byte \<times> byte"

fun weight_loop :: "pair list \<Rightarrow> nat \<Rightarrow> byte \<Rightarrow> nat list \<Rightarrow> byte \<Rightarrow> byte option" where
  "weight_loop points i x [] weight = Some weight"
| "weight_loop points i x (j # js) weight =
    (if i \<noteq> j then
       let top = x XOR fst (points ! j); bottom = fst (points ! i) XOR fst (points ! j)
       in Option.bind (div_gf top bottom) (\<lambda>factor. weight_loop points i x js (mul weight factor))
     else weight_loop points i x js weight)"

fun interpolate_loop :: "pair list \<Rightarrow> byte \<Rightarrow> nat list \<Rightarrow> byte \<Rightarrow> byte option" where
  "interpolate_loop points x [] v = Some v"
| "interpolate_loop points x (i # is) v =
    Option.bind (weight_loop points i x [0..<length points] 1)
      (\<lambda>weight. interpolate_loop points x is (v XOR mul weight (snd (points ! i))))"

definition interpolate :: "pair list \<Rightarrow> byte \<Rightarrow> byte option" where
  "interpolate points x = interpolate_loop points x [0..<length points] 0"

section \<open>sss.go\<close>

type_synonym share_map = "byte \<rightharpoonup> bytes"

definition append_share :: "share_map \<Rightarrow> byte \<Rightarrow> byte \<Rightarrow> share_map" where
  "append_share shares x v =
    shares(x \<mapsto> (case shares x of None \<Rightarrow> [] | Some s \<Rightarrow> s) @ [v])"

partial_function (option) share_loop ::
  "bytes \<Rightarrow> byte \<Rightarrow> byte \<Rightarrow> share_map \<Rightarrow> share_map option" where
  "share_loop p n x shares =
    (if x \<le> n then share_loop p n (x + 1) (append_share shares x (eval p x))
     else Some shares)"

fun split_loop :: "byte \<Rightarrow> byte \<Rightarrow> bytes \<Rightarrow> bytes \<Rightarrow> share_map
    \<Rightarrow> (sss_error + share_map \<times> bytes) option" where
  "split_loop n k [] r shares = Some (Inr (shares, r))"
| "split_loop n k (b # secret) r shares =
    (case generate (k - 1) b r of
       Inl e \<Rightarrow> Some (Inl e)
     | Inr (p, r') \<Rightarrow>
         Option.bind (share_loop p n 1 shares) (split_loop n k secret r'))"

definition split :: "byte \<Rightarrow> byte \<Rightarrow> bytes \<Rightarrow> bytes
    \<Rightarrow> (sss_error + share_map \<times> bytes) option" where
  "split n k secret r =
    (if k \<le> 1 then Some (Inl ErrInvalidThreshold)
     else if n < k then Some (Inl ErrInvalidCount)
     else split_loop n k secret r Map.empty)"

definition SplitUsingReader :: "byte \<Rightarrow> byte \<Rightarrow> bytes \<Rightarrow> bytes
    \<Rightarrow> (sss_error + share_map \<times> bytes) option" where
  "SplitUsingReader n k secret reader = split n k secret reader"

text \<open>
  \<open>ord 0\<close> is the order of the loop that sizes the secret, \<open>ord (Suc i)\<close> that of the loop
  that collects the points of byte \<open>i\<close>. An index out of range panics.
\<close>

definition points_at :: "(byte \<times> bytes) list \<Rightarrow> nat \<Rightarrow> pair list option" where
  "points_at entries i =
    those (map (\<lambda>(k, v). if i < length v then Some (k, v ! i) else None) entries)"

definition combine :: "(nat \<Rightarrow> (byte \<times> bytes) list) \<Rightarrow> bytes option" where
  "combine ord =
    (let len = (case ord 0 of [] \<Rightarrow> 0 | (_, v) # _ \<Rightarrow> length v)
     in those (map (\<lambda>i. Option.bind (points_at (ord (Suc i)) i) (\<lambda>pts. interpolate pts 0))
          [0..<len]))"

text \<open>\<open>xs\<close> is an order in which a loop can visit the entries of the map \<open>m\<close>.\<close>

definition iteration_of :: "('k \<rightharpoonup> 'v) \<Rightarrow> ('k \<times> 'v) list \<Rightarrow> bool" where
  "iteration_of m xs \<longleftrightarrow> distinct (map fst xs) \<and> map_of xs = m"

section \<open>Evaluation and interpolation over the field\<close>

abbreviation gfs :: "bytes \<Rightarrow> gf list" where
  "gfs \<equiv> map gf_of"

abbreviation gf_pts :: "pair list \<Rightarrow> (gf \<times> gf) list" where
  "gf_pts \<equiv> map (\<lambda>(a, b). (gf_of a, gf_of b))"

lemma eval_fold: "eval p x = foldl (\<lambda>r c. mul r x XOR c) 0 (rev p)"
proof -
  have "map (\<lambda>i. p ! (length p - i)) [1..<Suc (length p)] = rev p"
    by (rule nth_equalityI) (simp_all add: rev_nth del: upt_Suc)
  moreover have "eval p x = foldl (\<lambda>r c. mul r x XOR c) 0
      (map (\<lambda>i. p ! (length p - i)) [1..<Suc (length p)])"
    by (simp add: eval_def foldl_map del: upt_Suc)
  ultimately show ?thesis by simp
qed

lemma gf_eval: "gf_of (eval p x) = horner (gfs p) (gf_of x)"
proof (induction p)
  case Nil
  then show ?case by (simp add: eval_fold gf_of_0)
next
  case (Cons a p)
  have "eval (a # p) x = mul (eval p x) x XOR a" by (simp add: eval_fold)
  with Cons show ?case by (simp add: gf_of_xor gf_of_mul algebra_simps)
qed

lemma weight_loop_correct:
  assumes "\<And>j. j \<in> set js \<Longrightarrow> j \<noteq> i \<Longrightarrow> fst (points ! i) \<noteq> fst (points ! j)"
  shows "weight_loop points i x js w = Some (byte_of (gf_of w *
    (\<Prod>j\<leftarrow>filter (\<lambda>j. j \<noteq> i) js. (gf_of x - gf_of (fst (points ! j)))
        / (gf_of (fst (points ! i)) - gf_of (fst (points ! j))))))"
  using assms
proof (induction js arbitrary: w)
  case Nil
  then show ?case by simp
next
  case (Cons j js)
  show ?case
  proof (cases "j = i")
    case True
    then show ?thesis using Cons by simp
  next
    case False
    with Cons.prems [of j] have "fst (points ! i) XOR fst (points ! j) \<noteq> 0" by simp
    then show ?thesis using False Cons
      by (simp add: Let_def div_gf_Some gf_of_mul gf_of_xor_diff mult.assoc)
  qed
qed

lemma interpolate_loop_correct:
  assumes "distinct (map fst points)" "set is \<subseteq> {..<length points}"
  shows "interpolate_loop points x is v = Some (byte_of (gf_of v +
    (\<Sum>i\<leftarrow>is. lagrange_weight (gf_pts points) i (gf_of x) * gf_of (snd (points ! i)))))"
  using assms(2)
proof (induction "is" arbitrary: v)
  case Nil
  then show ?case by simp
next
  case (Cons i "is")
  let ?n = "length points"
  have i: "i < ?n" using Cons.prems by simp
  have "fst (points ! i) \<noteq> fst (points ! j)" if "j \<in> set [0..<?n]" "j \<noteq> i" for j
    using that nth_eq_iff_index_eq [OF assms(1), of i j] i by auto
  moreover have "set (filter (\<lambda>j. j \<noteq> i) [0..<?n]) = {..<?n} - {i}" by auto
  ultimately have "weight_loop points i x [0..<?n] 1
      = Some (byte_of (lagrange_weight (gf_pts points) i (gf_of x)))"
    by (subst weight_loop_correct)
      (auto simp: gf_of_1 lagrange_weight_def prod.distinct_set_conv_list [symmetric]
        case_prod_beta i intro!: prod.cong)
  then show ?case using Cons by (simp add: gf_of_xor gf_of_mul add.assoc)
qed

lemma interpolate_lagrange:
  assumes "distinct (map fst points)"
  shows "interpolate points x = Some (byte_of (lagrange (gf_pts points) (gf_of x)))"
proof -
  have "(\<Sum>i\<leftarrow>[0..<length points]. lagrange_weight (gf_pts points) i (gf_of x)
        * gf_of (snd (points ! i))) = lagrange (gf_pts points) (gf_of x)"
    by (simp add: lagrange_def sum_list_distinct_conv_sum_set atLeast0LessThan case_prod_beta)
  then show ?thesis
    using interpolate_loop_correct [OF assms, of "[0..<length points]" x 0]
    by (simp add: interpolate_def gf_of_0 atLeast0LessThan)
qed

lemma map_fst_gf_pts [simp]: "map fst (gf_pts points) = gfs (map fst points)"
  by (simp add: o_def case_prod_beta)

lemma distinct_gfs [simp]: "distinct (gfs xs) \<longleftrightarrow> distinct xs"
  by (auto simp: distinct_map inj_on_def)

text \<open>Interpolating enough values of a polynomial evaluates it.\<close>

lemma interpolate_eval:
  assumes "distinct (map fst points)" "\<And>a y. (a, y) \<in> set points \<Longrightarrow> eval p a = y"
    and "length p \<le> length points"
  shows "interpolate points x = Some (eval p x)"
proof -
  have "lagrange (gf_pts points) (gf_of x) = horner (gfs p) (gf_of x)"
  proof (rule lagrange_unique)
    fix a y assume "(a, y) \<in> set (gf_pts points)"
    then obtain b c where "(b, c) \<in> set points" "a = gf_of b" "y = gf_of c" by auto
    with assms(2) show "horner (gfs p) a = y" by (simp flip: gf_eval)
  next
    show "distinct (map fst (gf_pts points))" using assms(1) by (simp only: map_fst_gf_pts distinct_gfs)
  qed (use assms(3) in simp)
  then show ?thesis by (simp add: interpolate_lagrange assms(1) flip: gf_eval)
qed

lemma interpolate_short:
  assumes "distinct (map fst points)" "\<And>a y. (a, y) \<in> set points \<Longrightarrow> eval p a = y"
    and "x \<notin> set (map fst points)" "length p = Suc (length points)" "last p \<noteq> 0"
  shows "interpolate points x \<noteq> Some (eval p x)"
proof -
  have "lagrange (gf_pts points) (gf_of x) \<noteq> horner (gfs p) (gf_of x)"
  proof (rule lagrange_short)
    fix a y assume "(a, y) \<in> set (gf_pts points)"
    then obtain b c where "(b, c) \<in> set points" "a = gf_of b" "y = gf_of c" by auto
    with assms(2) show "horner (gfs p) a = y" by (simp flip: gf_eval)
  next
    have "p \<noteq> []" using assms(4) by auto
    then show "last (gfs p) \<noteq> 0" using assms(5) by (simp add: last_map gf_of_eq_0)
  next
    show "distinct (map fst (gf_pts points))" using assms(1) by (simp only: map_fst_gf_pts distinct_gfs)
  next
    show "gf_of x \<notin> set (map fst (gf_pts points))"
      using assms(3) by (auto simp only: map_fst_gf_pts set_map [of gf_of] image_iff gf_of_eq_iff)
  qed (use assms(4) in simp)
  then show ?thesis
    by (simp add: interpolate_lagrange assms(1) gf_eq_iff flip: gf_eval)
qed

section \<open>Generation\<close>

lemma length_fold_update [simp]:
  "length (fold (\<lambda>i res. res[i := f i]) is xs) = length xs"
  by (induction "is" arbitrary: xs) simp_all

lemma fold_update_0:
  "0 \<notin> set is \<Longrightarrow> fold (\<lambda>i res. res[i := f i]) is xs ! 0 = xs ! 0"
  by (induction "is" arbitrary: xs) simp_all

lemma generate_last_InrE:
  assumes "generate_last d result r = Inr (p, r')"
  obtains b where "b \<noteq> 0" "p = result[d := b]"
  using assms by (induction d result r rule: generate_last.induct) (auto split: if_splits)

lemma eval_0: "p \<noteq> [] \<Longrightarrow> eval p 0 = p ! 0"
  by (cases p) (simp_all add: eval_fold)

text \<open>The generated polynomial has the requested degree and constant term.\<close>

lemma generate_poly:
  assumes g: "generate deg x r = Inr (p, r')" and deg: "0 < unat deg"
  shows "length p = Suc (unat deg)" "eval p 0 = x" "last p \<noteq> 0"
proof -
  let ?init = "(replicate (unat (deg + 1)) 0)[0 := x]"
  have ne: "unat (deg + 1) \<noteq> 0"
  proof
    assume "unat (deg + 1) = 0"
    with g show False by (simp add: generate_def Let_def)
  qed
  have len: "unat (deg + 1) = Suc (unat deg)"
    using ne by (intro byte_unat_Suc) auto
  obtain buf r1 where gl: "generate_last (unat deg)
      (fold (\<lambda>i res. res[i := buf ! (i - 1)]) [1..<unat deg] ?init) r1 = Inr (p, r')"
    using g ne by (auto simp: generate_def Let_def)
  then obtain b where b: "b \<noteq> 0"
    "p = (fold (\<lambda>i res. res[i := buf ! (i - 1)]) [1..<unat deg] ?init)[unat deg := b]"
    by (rule generate_last_InrE)
  show l: "length p = Suc (unat deg)" using b len by simp
  have "p ! 0 = x" using b deg len by (simp add: fold_update_0)
  moreover from l have "p \<noteq> []" by auto
  ultimately show "eval p 0 = x" by (simp add: eval_0)
  show "last p \<noteq> 0" using b l \<open>p \<noteq> []\<close> len by (simp add: last_conv_nth)
qed

section \<open>Splitting\<close>

definition old_share :: "share_map \<Rightarrow> byte \<Rightarrow> bytes" where
  "old_share shares y = (case shares y of None \<Rightarrow> [] | Some s \<Rightarrow> s)"

lemma share_loop_correct:
  assumes "n < 255"
  shows "share_loop p n x shares = Some (\<lambda>y. if x \<le> y \<and> y \<le> n
    then Some (old_share shares y @ [eval p y]) else shares y)"
proof (induction "256 - unat x" arbitrary: x shares rule: less_induct)
  case less
  show ?case
  proof (cases "x \<le> n")
    case False
    then have "(\<lambda>y. if x \<le> y \<and> y \<le> n then Some (old_share shares y @ [eval p y]) else shares y)
      = shares" by (intro ext) auto
    then show ?thesis using False by (simp add: share_loop.simps)
  next
    case True
    have x1: "unat (x + 1) = Suc (unat x)"
      using True assms by (intro byte_unat_Suc) auto
    have le: "x + 1 \<le> y \<longleftrightarrow> x \<le> y \<and> y \<noteq> x" for y
      using x1 by (auto simp: word_le_nat_alt word_unat_eq_iff)
    have "256 - unat (x + 1) < 256 - unat x"
      using x1 byte_unat_less [of x] by simp
    from less [OF this, of "append_share shares x (eval p x)"]
    have "share_loop p n (x + 1) (append_share shares x (eval p x))
      = Some (\<lambda>y. if x + 1 \<le> y \<and> y \<le> n
          then Some (old_share (append_share shares x (eval p x)) y @ [eval p y])
          else append_share shares x (eval p x) y)" .
    then show ?thesis using True
      by (subst share_loop.simps)
        (auto simp: le append_share_def old_share_def fun_eq_iff)
  qed
qed

text \<open>With \<open>n = 255\<close> the byte counter never exceeds \<open>n\<close>: the loop does not return.\<close>

lemma share_loop_diverges: "share_loop p 255 x shares = None"
proof (rule ccontr)
  assume "share_loop p 255 x shares \<noteq> None"
  then obtain r where ret: "share_loop p 255 x shares = Some r" by blast
  have "(255 :: byte) \<noteq> 255"
  proof (rule share_loop.raw_induct [where P = "\<lambda>p n x sh r. n \<noteq> 255"
        and xa = "(((p, 255), x), shares)" and y = r, unfolded prod.case, OF _ ret])
    fix f p n x sh r
    assume IH: "\<And>p n x sh r. f p n x sh = Some r \<Longrightarrow> n \<noteq> (255 :: byte)"
      and eq: "(if x \<le> n then f p n (x + 1) (append_share sh x (eval p x)) else Some sh) = Some r"
    show "n \<noteq> 255" using IH eq byte_le_255 by (metis (no_types, lifting))
  qed
  then show False by simp
qed

text \<open>What a successful split has done: one polynomial per secret byte, evaluated at \<open>1..n\<close>.\<close>

definition poly_for :: "byte \<Rightarrow> byte \<Rightarrow> bytes \<Rightarrow> bool" where
  "poly_for k b p \<longleftrightarrow> length p = unat k \<and> eval p 0 = b \<and> last p \<noteq> 0"

lemma split_loop_shares:
  assumes "split_loop n k secret r shares = Some (Inr (shares', r'))" and "1 < k"
  shows "\<exists>ps. list_all2 (poly_for k) secret ps \<and> (secret \<noteq> [] \<longrightarrow> n < 255) \<and>
    (\<forall>y. shares' y = (if 1 \<le> y \<and> y \<le> n \<and> secret \<noteq> []
        then Some (old_share shares y @ map (\<lambda>p. eval p y) ps) else shares y))"
  using assms(1)
proof (induction secret arbitrary: r shares)
  case Nil
  then show ?case by (intro exI [of _ "[]"]) simp
next
  case (Cons b secret)
  from Cons.prems obtain p r1 sh1 where g: "generate (k - 1) b r = Inr (p, r1)"
    and sl: "share_loop p n 1 shares = Some sh1"
    and rest: "split_loop n k secret r1 sh1 = Some (Inr (shares', r'))"
    by (auto split: sum.splits simp: bind_eq_Some_conv)
  have "n \<noteq> 255" using sl share_loop_diverges by auto
  then have n: "n < 255" using byte_le_255 [of n] by simp
  have "k \<noteq> 0" using assms(2) by auto
  then have k1: "unat (k - 1) = unat k - 1" "1 < unat k"
    using assms(2) by (auto simp: byte_unat_pred word_less_nat_alt)
  have sh1: "sh1 y = (if 1 \<le> y \<and> y \<le> n then Some (old_share shares y @ [eval p y])
      else shares y)" for y
    using sl by (simp add: share_loop_correct [OF n] fun_eq_iff)
  have p: "poly_for k b p"
    using generate_poly [OF g] k1 by (simp add: poly_for_def)
  from Cons.IH [OF rest] obtain ps where ps: "list_all2 (poly_for k) secret ps"
    "\<And>y. shares' y = (if 1 \<le> y \<and> y \<le> n \<and> secret \<noteq> []
        then Some (old_share sh1 y @ map (\<lambda>p. eval p y) ps) else sh1 y)"
    by blast
  have "shares' y = (if 1 \<le> y \<and> y \<le> n
      then Some (old_share shares y @ map (\<lambda>p. eval p y) (p # ps)) else shares y)" for y
    using ps sh1 [of y] by (auto simp: old_share_def)
  with p ps(1) n show ?case by (intro exI [of _ "p # ps"]) simp
qed

lemma split_shares:
  assumes "split n k secret r = Some (Inr (shares, r'))"
  obtains ps where "1 < k" "k \<le> n" "list_all2 (poly_for k) secret ps"
    "\<And>y v. shares y = Some v \<longleftrightarrow>
      1 \<le> y \<and> y \<le> n \<and> secret \<noteq> [] \<and> v = map (\<lambda>p. eval p y) ps"
proof -
  from assms have k: "1 < k" "k \<le> n"
    and sl: "split_loop n k secret r Map.empty = Some (Inr (shares, r'))"
    by (auto simp: split_def split: if_splits)
  from split_loop_shares [OF sl k(1)] obtain ps where ps: "list_all2 (poly_for k) secret ps"
    and sh: "\<forall>y. shares y = (if 1 \<le> y \<and> y \<le> n \<and> secret \<noteq> []
        then Some (old_share Map.empty y @ map (\<lambda>p. eval p y) ps) else None)" by blast
  have "shares y = Some v \<longleftrightarrow>
      1 \<le> y \<and> y \<le> n \<and> secret \<noteq> [] \<and> v = map (\<lambda>p. eval p y) ps" for y v
    unfolding sh [rule_format, of y] by (simp add: old_share_def eq_commute)
  with k ps show thesis by (rule that)
qed

section \<open>Combining\<close>

text \<open>Every order in which the entries of shares of one split are visited gives the points.\<close>

lemma points_at_shares:
  assumes "\<And>y v. (y, v) \<in> set entries \<Longrightarrow> v = map (\<lambda>p. eval p y) ps" "i < length ps"
  shows "points_at entries i = Some (map (\<lambda>(y, v). (y, eval (ps ! i) y)) entries)"
  using assms(1) unfolding points_at_def
proof (induction entries)
  case Nil
  then show ?case by simp
next
  case (Cons e entries)
  obtain y v where e: "e = (y, v)" by (cases e)
  then have "v = map (\<lambda>p. eval p y) ps" by (intro Cons.prems) simp
  moreover have "those (map (\<lambda>(k, v). if i < length v then Some (k, v ! i) else None) entries)
      = Some (map (\<lambda>(y, v). (y, eval (ps ! i) y)) entries)"
    by (intro Cons.IH Cons.prems) simp
  ultimately show ?case using assms(2) e by simp
qed

lemma those_map_Some: "(\<And>x. x \<in> set xs \<Longrightarrow> f x = Some (g x)) \<Longrightarrow> those (map f xs) = Some (map g xs)"
  by (induction xs) simp_all

lemma combine_shares:
  assumes it: "\<And>j. iteration_of sub (ord j)"
    and sub: "\<And>y v. sub y = Some v \<Longrightarrow> v = map (\<lambda>p. eval p y) ps" and ne: "sub \<noteq> Map.empty"
  shows "combine ord = those (map (\<lambda>i. interpolate
    (map (\<lambda>(y, v). (y, eval (ps ! i) y)) (ord (Suc i))) 0) [0..<length ps])"
proof -
  have mem: "v = map (\<lambda>p. eval p y) ps" if "(y, v) \<in> set (ord j)" for y v j
    using it [of j] that by (intro sub) (auto simp: iteration_of_def dest: map_of_is_SomeI)
  have "ord 0 \<noteq> []" using it [of 0] ne by (auto simp: iteration_of_def)
  then obtain y v es where "ord 0 = (y, v) # es" by (cases "ord 0") auto
  with mem [of y v 0] have len: "(case ord 0 of [] \<Rightarrow> 0 | (_, v) # _ \<Rightarrow> length v) = length ps" by simp
  have "points_at (ord (Suc i)) i = Some (map (\<lambda>(y, v). (y, eval (ps ! i) y)) (ord (Suc i)))"
    if "i < length ps" for i
    using that mem by (intro points_at_shares) auto
  then have "map (\<lambda>i. Option.bind (points_at (ord (Suc i)) i) (\<lambda>pts. interpolate pts 0)) [0..<length ps]
    = map (\<lambda>i. interpolate (map (\<lambda>(y, v). (y, eval (ps ! i) y)) (ord (Suc i))) 0) [0..<length ps]"
    by (intro map_cong) simp_all
  with len show ?thesis by (simp only: combine_def Let_def)
qed

lemma iteration_points:
  assumes "iteration_of sub es"
  shows "distinct (map fst (map (\<lambda>(y, v). (y, eval p y)) es))"
    "set (map fst (map (\<lambda>(y, v). (y, eval p y)) es)) = dom sub"
    "length (map (\<lambda>(y, v). (y, eval p y)) es) = card (dom sub)"
proof -
  have f: "map fst (map (\<lambda>(y, v). (y, eval p y)) es) = map fst es"
    by (simp add: o_def case_prod_beta)
  show "distinct (map fst (map (\<lambda>(y, v). (y, eval p y)) es))"
    using assms by (simp only: f iteration_of_def)
  show dom: "set (map fst (map (\<lambda>(y, v). (y, eval p y)) es)) = dom sub"
  proof -
    have "sub = map_of es" using assms by (simp add: iteration_of_def)
    then show ?thesis by (simp only: f dom_map_of_conv_image_fst set_map)
  qed
  show "length (map (\<lambda>(y, v). (y, eval p y)) es) = card (dom sub)"
    using assms dom distinct_card [of "map fst es"] by (simp add: iteration_of_def o_def case_prod_beta)
qed

text \<open>Enough consistent shares recover the constant terms.\<close>

lemma combine_recovers:
  assumes it: "\<And>j. iteration_of sub (ord j)" and ne: "sub \<noteq> Map.empty"
    and sub: "\<And>y v. sub y = Some v \<Longrightarrow> v = map (\<lambda>p. eval p y) ps"
    and ps: "list_all2 (\<lambda>b p. length p \<le> card (dom sub) \<and> eval p 0 = b) secret ps"
  shows "combine ord = Some secret"
proof -
  have len: "length ps = length secret" using ps by (simp add: list_all2_lengthD)
  have "interpolate (map (\<lambda>(y, v). (y, eval (ps ! i) y)) (ord (Suc i))) 0 = Some (secret ! i)"
    if "i < length ps" for i
  proof -
    have p: "length (ps ! i) \<le> card (dom sub) \<and> eval (ps ! i) 0 = secret ! i"
      using list_all2_nthD [OF ps, of i] that len by simp
    have "interpolate (map (\<lambda>(y, v). (y, eval (ps ! i) y)) (ord (Suc i))) 0
        = Some (eval (ps ! i) 0)"
      using iteration_points [OF it, of "ps ! i" "Suc i"] p
      by (intro interpolate_eval) auto
    with p show ?thesis by simp
  qed
  then have "combine ord = Some (map ((!) secret) [0..<length ps])"
    by (subst combine_shares [OF it sub ne]) (auto intro: those_map_Some)
  then show ?thesis by (simp add: len map_nth)
qed

text \<open>The entries in ascending order of their keys are one order a loop can use.\<close>

definition ascending :: "(byte \<rightharpoonup> 'v) \<Rightarrow> (byte \<times> 'v) list" where
  "ascending m = concat (map (\<lambda>i. case m (word_of_nat i) of None \<Rightarrow> [] | Some v \<Rightarrow> [(word_of_nat i, v)])
    [0..<256])"

lemma iteration_of_ascending: "iteration_of m (ascending m)"
proof -
  let ?es = "\<lambda>is. concat (map (\<lambda>i. case m (word_of_nat i) of None \<Rightarrow> [] | Some v \<Rightarrow> [(word_of_nat i :: byte, v)]) is)"
  have mem: "(k, v) \<in> set (?es is) \<longleftrightarrow> m k = Some v \<and> k \<in> word_of_nat ` set is" for k v "is"
    by (auto split: option.splits) (metis)
  have d: "distinct (map fst (?es [0..<n]))" if "n \<le> 256" for n
    using that
  proof (induction n)
    case (Suc n)
    have "word_of_nat n \<notin> fst ` set (?es [0..<n])"
    proof
      assume "word_of_nat n \<in> fst ` set (?es [0..<n])"
      then obtain i where "i < n" "word_of_nat n = (word_of_nat i :: byte)" by (auto simp: mem split: option.splits)
      then have "unat (word_of_nat n :: byte) = unat (word_of_nat i :: byte)" by simp
      then show False using \<open>i < n\<close> Suc.prems by (simp add: unat_of_nat)
    qed
    with Suc show ?case by (auto split: option.splits)
  qed simp
  have "k \<in> word_of_nat ` set [0..<256]" for k :: byte
    using byte_unat_less [of k] by (intro image_eqI [of _ _ "unat k"]) simp_all
  then have s: "(k, v) \<in> set (ascending m) \<longleftrightarrow> m k = Some v" for k v
    unfolding ascending_def mem by simp
  have "map_of (ascending m) k = m k" for k
  proof (cases "m k")
    case None
    then show ?thesis using s by (metis map_of_SomeD not_None_eq)
  next
    case (Some v)
    have "distinct (map fst (ascending m))" using d [of 256] unfolding ascending_def by simp
    with Some show ?thesis using s by (simp add: map_of_eq_Some_iff)
  qed
  with d [of 256] show ?thesis unfolding iteration_of_def ascending_def by (auto simp: fun_eq_iff)
qed

section \<open>Properties\<close>

text \<open>
  C1: any set of at least \<open>k\<close> of the shares that a split made recovers the secret, whatever
  the order in which \<open>Combine\<close> visits the map.
\<close>

theorem split_combine:
  assumes "split n k secret rdr = Some (Inr (shares, rdr'))"
    and "sub \<subseteq>\<^sub>m shares" and "unat k \<le> card (dom sub)" and "\<And>j. iteration_of sub (ord j)"
  shows "combine ord = Some secret"
proof -
  from assms(1) obtain ps where k: "1 < k" and ps: "list_all2 (poly_for k) secret ps"
    and sh: "\<And>y v. shares y = Some v \<longleftrightarrow>
      1 \<le> y \<and> y \<le> n \<and> secret \<noteq> [] \<and> v = map (\<lambda>p. eval p y) ps"
    by (rule split_shares) blast
  have sub: "v = map (\<lambda>p. eval p y) ps" if "sub y = Some v" for y v
    using that assms(2) sh by (metis (no_types, lifting) domI map_le_def)
  have ne: "sub \<noteq> Map.empty" using assms(3) k by (auto simp: word_less_nat_alt)
  have "list_all2 (\<lambda>b p. length p \<le> card (dom sub) \<and> eval p 0 = b) secret ps"
    using ps by (rule list_all2_mono) (use assms(3) in \<open>simp add: poly_for_def\<close>)
  from combine_recovers [OF assms(4) ne sub this] show ?thesis .
qed

lemma example_split:
  "sh = append_share (append_share Map.empty 1 (eval [7, 5] 1)) 2 (eval [7, 5] 2) \<Longrightarrow>
    split 2 2 [7] [5] = Some (Inr (sh, []))"
proof -
  assume sh: "sh = append_share (append_share Map.empty 1 (eval [7, 5] 1)) 2 (eval [7, 5] 2)"
  have "share_loop [7, 5] 2 1 Map.empty = Some sh"
    by (simp add: share_loop.simps sh)
  moreover have "generate 1 7 [5] = Inr ([7, 5], [])"
    by (simp add: generate_def read_full_def replicate_2)
  moreover have "\<not> (2 :: byte) \<le> 1" by (simp add: word_le_nat_alt)
  ultimately show ?thesis by (simp add: split_def)
qed

theorem split_combine_witness:
  "\<exists>ord. combine ord = Some [7]"
proof -
  define sh where "sh = append_share (append_share Map.empty 1 (eval [7, 5] 1)) 2 (eval [7, 5] 2)"
  have sp: "split 2 2 [7] [5] = Some (Inr (sh, []))"
    by (rule example_split [OF sh_def])
  have dom: "dom sh = {1, 2}" by (auto simp: sh_def append_share_def)
  let ?es = "[(1, [eval [7, 5] 1]), (2, [eval [7, 5] 2])]"
  have it: "iteration_of sh ?es"
    by (auto simp: iteration_of_def sh_def append_share_def fun_eq_iff)
  show ?thesis
    using split_combine [OF sp, of sh "\<lambda>_. ?es"] dom it by auto
qed

text \<open>
  C2: one share too few never gives the secret: \<open>k - 1\<close> shares of a split combine to a
  string of the right length that differs from the secret in every byte. The leading
  coefficient is drawn until it is not zero, so \<open>k - 1\<close> shares exclude one value per byte.
\<close>

theorem combine_below_threshold:
  assumes "split n k secret rdr = Some (Inr (shares, rdr'))"
    and "sub \<subseteq>\<^sub>m shares" and "card (dom sub) + 1 = unat k" and "\<And>j. iteration_of sub (ord j)"
  shows "\<exists>s. combine ord = Some s \<and> length s = length secret
    \<and> (\<forall>i<length secret. s ! i \<noteq> secret ! i)"
proof -
  from assms(1) obtain ps where k: "1 < k" and ps: "list_all2 (poly_for k) secret ps"
    and sh: "\<And>y v. shares y = Some v \<longleftrightarrow>
      1 \<le> y \<and> y \<le> n \<and> secret \<noteq> [] \<and> v = map (\<lambda>p. eval p y) ps"
    by (rule split_shares) blast
  have sub: "1 \<le> y \<and> v = map (\<lambda>p. eval p y) ps" if "sub y = Some v" for y v
    using that assms(2) sh by (metis (no_types, lifting) domI map_le_def)
  have ne: "sub \<noteq> Map.empty" using assms(3) k by (auto simp: word_less_nat_alt)
  have len: "length ps = length secret" using ps by (simp add: list_all2_lengthD)
  let ?pts = "\<lambda>i. map (\<lambda>(y, v). (y, eval (ps ! i) y)) (ord (Suc i))"
  let ?val = "\<lambda>i. byte_of (lagrange (gf_pts (?pts i)) (gf_of 0))"
  have pts: "interpolate (?pts i) 0 = Some (?val i)" for i
    using iteration_points(1) [OF assms(4)] by (rule interpolate_lagrange)
  have neq: "?val i \<noteq> secret ! i" if "i < length ps" for i
  proof -
    have p: "poly_for k (secret ! i) (ps ! i)" using ps that len by (simp add: list_all2_nthD)
    have z: "0 \<notin> dom sub" using sub by fastforce
    have "interpolate (?pts i) 0 \<noteq> Some (eval (ps ! i) 0)"
      using iteration_points [OF assms(4), of "ps ! i" "Suc i"] p assms(3) z
      by (intro interpolate_short) (auto simp: poly_for_def)
    with p pts show ?thesis by (simp add: poly_for_def)
  qed
  have "combine ord = those (map (\<lambda>i. interpolate (?pts i) 0) [0..<length ps])"
    using sub ne by (intro combine_shares [OF assms(4)]) auto
  also have "\<dots> = Some (map ?val [0..<length ps])"
    by (rule those_map_Some) (rule pts)
  finally show ?thesis using neq len by auto
qed

theorem combine_below_threshold_witness:
  "\<exists>s. combine (\<lambda>_. [(1, [eval [7, 5] 1])]) = Some s \<and> length s = 1 \<and> s ! 0 \<noteq> 7"
proof -
  define sh where "sh = append_share (append_share Map.empty 1 (eval [7, 5] 1)) 2 (eval [7, 5] 2)"
  have sp: "split 2 2 [7] [5] = Some (Inr (sh, []))"
    by (rule example_split [OF sh_def])
  have le: "[1 \<mapsto> [eval [7, 5] 1]] \<subseteq>\<^sub>m sh" by (auto simp: sh_def append_share_def map_le_def)
  show ?thesis
    using combine_below_threshold [OF sp le, of "\<lambda>_. [(1, [eval [7, 5] 1])]"]
    by (simp add: iteration_of_def)
qed

lemma generate_succeeds:
  assumes "0 < unat deg" "deg \<noteq> 255" "0 \<notin> set r" "unat deg \<le> length r"
  shows "\<exists>p. generate deg x r = Inr (p, drop (unat deg) r)"
proof -
  have len: "unat (deg + 1) = Suc (unat deg)" using assms(2) by (rule byte_unat_Suc)
  have d: "unat (deg - 1) = unat deg - 1" using assms(1) by (intro byte_unat_pred) auto
  have "drop (unat deg - 1) r = r ! (unat deg - 1) # drop (unat deg) r"
    using assms(1,4) Cons_nth_drop_Suc [of "unat deg - 1" r] by simp
  moreover have "r ! (unat deg - 1) \<noteq> 0"
  proof -
    have "unat deg - 1 < length r" using assms(1,4) by linarith
    then have "r ! (unat deg - 1) \<in> set r" by (rule nth_mem)
    with assms(3) show ?thesis by metis
  qed
  ultimately show ?thesis
    using assms(1,4) by (simp add: generate_def Let_def len d read_full_def)
qed

lemma split_loop_succeeds:
  assumes "1 < k" "n < 255" "0 \<notin> set r" "length secret * (unat k - 1) \<le> length r"
  shows "\<exists>shares'. split_loop n k secret r shares
    = Some (Inr (shares', drop (length secret * (unat k - 1)) r))"
  using assms(3,4)
proof (induction secret arbitrary: r shares)
  case Nil
  then show ?case by simp
next
  case (Cons b secret)
  have "k \<noteq> 0" using assms(1) by auto
  then have k1: "unat (k - 1) = unat k - 1" "1 < unat k"
    using assms(1) by (auto simp: byte_unat_pred word_less_nat_alt)
  have k255: "k - 1 \<noteq> 255"
  proof
    assume "k - 1 = 255"
    then have "unat (k - 1) = unat (255 :: byte)" by (rule arg_cong)
    then have "unat k - 1 = unat (255 :: byte)" by (simp only: k1(1))
    also have "unat (255 :: byte) = 255" by simp
    finally have "unat k - 1 = 255" .
    moreover have "u < 256 \<Longrightarrow> u - 1 = 255 \<Longrightarrow> False" for u :: nat by arith
    ultimately show False using byte_unat_less by blast
  qed
  have len: "unat k - 1 + length secret * (unat k - 1) \<le> length r" using Cons.prems(2) by simp
  have "0 < unat k - 1" using k1(2) by simp
  moreover have "unat k - 1 \<le> length r" using len by (rule add_leD1)
  ultimately obtain p where g: "generate (k - 1) b r = Inr (p, drop (unat k - 1) r)"
    using generate_succeeds [of "k - 1" r b, OF _ k255 Cons.prems(1)] unfolding k1(1) by blast
  obtain sh1 where sl: "share_loop p n 1 shares = Some sh1"
    using share_loop_correct [OF assms(2)] by blast
  have "0 \<notin> set (drop (unat k - 1) r)" using Cons.prems(1) by (auto dest: in_set_dropD)
  moreover have "length secret * (unat k - 1) \<le> length (drop (unat k - 1) r)" using len by simp
  ultimately have "\<exists>shares'. split_loop n k secret (drop (unat k - 1) r) sh1
      = Some (Inr (shares', drop (length secret * (unat k - 1)) (drop (unat k - 1) r)))"
    by (rule Cons.IH)
  then show ?case using g sl by (simp add: add.commute)
qed

text \<open>
  With valid parameters \<open>1 < k \<le> n < 255\<close> and enough nonzero random bytes, the split
  returns: there is one share per index \<open>1..n\<close>, each as long as the secret.
\<close>

lemma split_succeeds:
  assumes "1 < k" "k \<le> n" "n < 255" "0 \<notin> set rdr"
    and "length secret * (unat k - 1) \<le> length rdr"
  shows "\<exists>shares rdr'. split n k secret rdr = Some (Inr (shares, rdr')) \<and>
    dom shares = (if secret = [] then {} else {1..n}) \<and>
    (\<forall>s\<in>ran shares. length s = length secret)"
proof -
  have "\<not> k \<le> 1" "\<not> n < k" using assms(1,2) by auto
  then have "split n k secret rdr = split_loop n k secret rdr Map.empty"
    by (simp add: split_def)
  then obtain shares rdr' where sp: "split n k secret rdr = Some (Inr (shares, rdr'))"
    using split_loop_succeeds [OF assms(1,3-5)] by metis
  then obtain ps where ps: "list_all2 (poly_for k) secret ps"
    and sh: "\<And>y v. shares y = Some v \<longleftrightarrow>
      1 \<le> y \<and> y \<le> n \<and> secret \<noteq> [] \<and> v = map (\<lambda>p. eval p y) ps"
    by (rule split_shares) blast
  have "dom shares = (if secret = [] then {} else {1..n})" by (auto simp: dom_def sh)
  moreover have "length s = length secret" if "s \<in> ran shares" for s
    using that list_all2_lengthD [OF ps] by (auto simp: ran_def sh)
  ultimately show ?thesis using sp by blast
qed

text \<open>
  C3: with \<open>n = 255\<close>, which passes both parameter checks, the split of a nonempty secret
  does not return once its first polynomial is generated.
\<close>

theorem split_255_diverges:
  assumes "1 < k" and "generate (k - 1) b rdr = Inr (p, rdr')"
  shows "split 255 k (b # secret) rdr = None"
proof -
  have "\<not> k \<le> 1" "\<not> 255 < k" using assms(1) byte_le_255 [of k] by (auto simp: not_less)
  then show ?thesis using assms(2) by (simp add: split_def share_loop_diverges)
qed

theorem split_255_diverges_witness: "split 255 2 [7] [5] = None"
  by (rule split_255_diverges [where p = "[7, 5]" and rdr' = "[]"])
    (simp_all add: generate_def read_full_def replicate_2)

end
