(* ===== verification/Lookups.thy ===== *)
theory Lookups
  imports Prelude "HOL-Library.Multiset"
begin

unbundle bit_operations_syntax

text \<open>
  The lookup structures of \<open>psiphon/common\<close>: \<open>portlist.go\<close> (ports and port ranges),
  \<open>lookup.go\<close> (strings, and strings with values) and \<open>subnet.go\<close> (IPv4 addresses in a list of
  subnets). Each switches representation or sorts its input for speed; the lemmas show that
  the answers are those of the plain list.

  A Go map that is \<open>nil\<close> or absent is \<open>None\<close>, otherwise \<open>Some\<close> of a HOL map. \<open>sort.Sort\<close> is
  not stable, so it is a parameter known only to return a sorted permutation.
\<close>

section \<open>Membership structures\<close>

text \<open>
  The contract the clients of the lookups use: a structure built from valid items answers
  exactly for the keys one of the items denotes.
\<close>

locale membership =
  fixes build :: "'a list \<Rightarrow> 's" and member :: "'s \<Rightarrow> 'k \<Rightarrow> bool"
    and denotes :: "'a \<Rightarrow> 'k \<Rightarrow> bool" and valid :: "'a list \<Rightarrow> bool"
  assumes member_build: "valid xs \<Longrightarrow> member (build xs) k \<longleftrightarrow> (\<exists>x\<in>set xs. denotes x k)"
begin

lemma order_irrelevant:
  "valid xs \<Longrightarrow> valid ys \<Longrightarrow> set xs = set ys \<Longrightarrow> member (build xs) k = member (build ys) k"
  by (simp add: member_build)

lemma member_mono:
  "valid xs \<Longrightarrow> valid ys \<Longrightarrow> set xs \<subseteq> set ys \<Longrightarrow> member (build xs) k \<Longrightarrow> member (build ys) k"
  by (auto simp: member_build)

lemma member_append:
  "valid (xs @ ys) \<Longrightarrow> valid xs \<Longrightarrow> valid ys \<Longrightarrow>
    member (build (xs @ ys)) k \<longleftrightarrow> member (build xs) k \<or> member (build ys) k"
  by (auto simp: member_build)

lemma member_Nil: "valid [] \<Longrightarrow> \<not> member (build []) k"
  by (simp add: member_build)

end

text \<open>\<open>common.Contains\<close>\<close>

fun Contains :: "string list \<Rightarrow> string \<Rightarrow> bool" where
  "Contains [] target \<longleftrightarrow> False"
| "Contains (x # xs) target \<longleftrightarrow> (if x = target then True else Contains xs target)"

lemma Contains_iff [simp]: "Contains xs target \<longleftrightarrow> target \<in> set xs"
  by (induction xs) auto

section \<open>portlist.go\<close>

record port_list =
  portRanges :: "(int \<times> int) list"
  port_lookup :: "(int \<rightharpoonup> bool) option"

definition lookupThreshold :: nat where
  "lookupThreshold = 10"

text \<open>The loop \<open>for i := portRange[0]; i <= portRange[1]; i++\<close>\<close>

function add_range :: "int \<Rightarrow> int \<Rightarrow> (int \<rightharpoonup> bool) \<Rightarrow> (int \<rightharpoonup> bool)" where
  "add_range i last_port m = (if i \<le> last_port then add_range (i + 1) last_port (m(i \<mapsto> True)) else m)"
  by pat_completeness auto
termination by (relation "measure (\<lambda>(i, n, _). nat (n + 1 - i))") auto

declare add_range.simps [simp del]

text \<open>A nil \<open>*PortList\<close> is \<open>None\<close>.\<close>

definition OptimizeLookups :: "port_list option \<Rightarrow> port_list option" where
  "OptimizeLookups p = (case p of None \<Rightarrow> None | Some p \<Rightarrow>
    if length (portRanges p) > lookupThreshold
    then Some (p\<lparr>port_lookup := Some (foldl (\<lambda>m (a, b). add_range a b m) Map.empty (portRanges p))\<rparr>)
    else Some p)"

definition IsEmpty :: "port_list option \<Rightarrow> bool" where
  "IsEmpty p = (case p of None \<Rightarrow> True | Some p \<Rightarrow> length (portRanges p) = 0)"

fun range_search :: "(int \<times> int) list \<Rightarrow> int \<Rightarrow> bool" where
  "range_search [] port = False"
| "range_search ((a, b) # ranges) port =
    (if port \<ge> a \<and> port \<le> b then True else range_search ranges port)"

definition Lookup :: "port_list option \<Rightarrow> int \<Rightarrow> bool" where
  "Lookup p port = (case p of None \<Rightarrow> False | Some p \<Rightarrow>
    (case port_lookup p of Some m \<Rightarrow> m port = Some True | None \<Rightarrow> range_search (portRanges p) port))"

text \<open>
  \<open>UnmarshalJSON\<close> after the JSON decoder: the literal \<open>null\<close>, or an array whose elements are
  numbers (with the result of \<open>Number.Int64\<close>), arrays or anything else.
\<close>

datatype json = JNull | JNumber "int option" | JArray "json list" | JOther

datatype port_error = BadDecode | BadNumber | InvalidRangeSize | InvalidType
  | InvalidRangeStart | InvalidRangeEnd

definition int64_of :: "json \<Rightarrow> port_error + int" where
  "int64_of j = (case j of JNumber (Some n) \<Rightarrow> Inr n | JNumber None \<Rightarrow> Inl BadNumber
    | _ \<Rightarrow> Inl InvalidType)"

definition port_range :: "json \<Rightarrow> port_error + int \<times> int" where
  "port_range j = ebind (case j of
      JNumber _ \<Rightarrow> ebind (int64_of j) (\<lambda>port. Inr (port, port))
    | JArray a \<Rightarrow> (if length a \<noteq> 2 then Inl InvalidRangeSize
        else ebind (int64_of (a ! 0)) (\<lambda>startPort. ebind (int64_of (a ! 1)) (\<lambda>endPort.
          Inr (startPort, endPort))))
    | _ \<Rightarrow> Inl InvalidType)
    (\<lambda>(startPort, endPort).
      if startPort < 1 \<or> startPort > 65535 then Inl InvalidRangeStart
      else if endPort < 1 \<or> endPort > 65535 \<or> endPort < startPort then Inl InvalidRangeEnd
      else Inr (startPort, endPort))"

fun port_ranges :: "json list \<Rightarrow> port_error + (int \<times> int) list" where
  "port_ranges [] = Inr []"
| "port_ranges (j # js) = ebind (port_range j) (\<lambda>r. ebind (port_ranges js) (\<lambda>rs. Inr (r # rs)))"

definition UnmarshalJSON :: "json \<Rightarrow> port_error + port_list" where
  "UnmarshalJSON j = (case j of
      JNull \<Rightarrow> Inr \<lparr>portRanges = [], port_lookup = None\<rparr>
    | JArray a \<Rightarrow> ebind (port_ranges a) (\<lambda>rs. Inr \<lparr>portRanges = rs, port_lookup = None\<rparr>)
    | _ \<Rightarrow> Inl BadDecode)"

lemma range_search_iff: "range_search ranges port \<longleftrightarrow> (\<exists>(a, b)\<in>set ranges. a \<le> port \<and> port \<le> b)"
  by (induction ranges port rule: range_search.induct) auto

lemma add_range_apply: "add_range i n m k = (if i \<le> k \<and> k \<le> n then Some True else m k)"
proof (induction i n m rule: add_range.induct)
  case (1 i n m)
  show ?case
  proof (cases "i \<le> n")
    case True
    then have "add_range i n m k = add_range (i + 1) n (m(i \<mapsto> True)) k"
      by (subst add_range.simps) simp
    also have "\<dots> = (if i + 1 \<le> k \<and> k \<le> n then Some True else (m(i \<mapsto> True)) k)"
      by (rule 1) (rule True)
    finally show ?thesis using True by auto
  next
    case False
    then show ?thesis by (subst add_range.simps) auto
  qed
qed

lemma foldl_add_range:
  "foldl (\<lambda>m (a, b). add_range a b m) m ranges k
    = (if \<exists>(a, b)\<in>set ranges. a \<le> k \<and> k \<le> b then Some True else m k)"
  by (induction ranges arbitrary: m) (auto simp: add_range_apply split: if_splits prod.splits)

text \<open>What a port list denotes, before and after its lookup map is built.\<close>

definition port_set :: "(int \<times> int) list \<Rightarrow> int set" where
  "port_set ranges = {port. \<exists>(a, b)\<in>set ranges. a \<le> port \<and> port \<le> b}"

lemma Lookup_plain:
  "port_lookup p = None \<Longrightarrow> Lookup (Some p) port \<longleftrightarrow> port \<in> port_set (portRanges p)"
  by (simp add: Lookup_def port_set_def range_search_iff)

lemma Lookup_optimized:
  "port_lookup p = None \<Longrightarrow> Lookup (OptimizeLookups (Some p)) port \<longleftrightarrow> port \<in> port_set (portRanges p)"
  by (auto simp: OptimizeLookups_def Lookup_def foldl_add_range range_search_iff port_set_def)

interpretation ports: membership "\<lambda>rs. OptimizeLookups (Some \<lparr>portRanges = rs, port_lookup = None\<rparr>)"
    Lookup "\<lambda>(a, b) port. a \<le> port \<and> port \<le> b" "\<lambda>_. True"
  by standard (auto simp: Lookup_optimized port_set_def)

lemma port_range_valid:
  "port_range j = Inr (a, b) \<Longrightarrow> 1 \<le> a \<and> a \<le> b \<and> b \<le> 65535"
  by (auto simp: port_range_def split: if_splits)

lemma port_ranges_valid:
  "port_ranges js = Inr rs \<Longrightarrow> list_all2 (\<lambda>j r. port_range j = Inr r) js rs"
  by (induction js arbitrary: rs) auto

section \<open>lookup.go\<close>

record string_lookup =
  sl_list :: "string list"
  sl_lookup :: "(string \<rightharpoonup> unit) option"

definition stringLookupThreshold :: nat where
  "stringLookupThreshold = 5"

definition NewStringLookup :: "string list \<Rightarrow> string_lookup" where
  "NewStringLookup xs =
    (if length xs \<ge> stringLookupThreshold
     then \<lparr>sl_list = [], sl_lookup = Some (foldl (\<lambda>m item. m(item \<mapsto> ())) Map.empty xs)\<rparr>
     else \<lparr>sl_list = xs, sl_lookup = None\<rparr>)"

definition StringLookup_Len :: "string_lookup \<Rightarrow> nat" where
  "StringLookup_Len l = (case sl_lookup l of Some m \<Rightarrow> card (dom m) | None \<Rightarrow> length (sl_list l))"

definition StringLookup_Contains :: "string_lookup \<Rightarrow> string \<Rightarrow> bool" where
  "StringLookup_Contains l target = (case sl_lookup l of
      Some m \<Rightarrow> m target \<noteq> None | None \<Rightarrow> Contains (sl_list l) target)"

record 'v value_lookup =
  vl_keys :: "string list"
  vl_values :: "'v list"
  vl_lookup :: "(string \<rightharpoonup> 'v) option"

definition NewStringValueLookup :: "string list \<Rightarrow> 'v list \<Rightarrow> 'v value_lookup option" where
  "NewStringValueLookup keys values =
    (if length keys \<noteq> length values then None
     else if length keys \<ge> stringLookupThreshold
     then Some \<lparr>vl_keys = [], vl_values = [],
       vl_lookup = Some (foldl (\<lambda>m (key, v). m(key \<mapsto> v)) Map.empty (zip keys values))\<rparr>
     else Some \<lparr>vl_keys = keys, vl_values = values, vl_lookup = None\<rparr>)"

definition ValueLookup_Len :: "'v value_lookup \<Rightarrow> nat" where
  "ValueLookup_Len l = (case vl_lookup l of Some m \<Rightarrow> card (dom m) | None \<Rightarrow> length (vl_keys l))"

fun key_search :: "string list \<Rightarrow> 'v list \<Rightarrow> string \<Rightarrow> 'v option" where
  "key_search (k # ks) (v # vs) key = (if k = key then Some v else key_search ks vs key)"
| "key_search _ _ key = None"

definition ValueLookup_Get :: "'v value_lookup \<Rightarrow> string \<Rightarrow> 'v option" where
  "ValueLookup_Get l key = (case vl_lookup l of
      Some m \<Rightarrow> m key | None \<Rightarrow> key_search (vl_keys l) (vl_values l) key)"

lemma foldl_insert_unit:
  "foldl (\<lambda>m item. m(item \<mapsto> ())) m xs k = (if k \<in> set xs then Some () else m k)"
  by (induction xs arbitrary: m) auto

lemma Contains_NewStringLookup: "StringLookup_Contains (NewStringLookup xs) k \<longleftrightarrow> k \<in> set xs"
  by (simp add: NewStringLookup_def StringLookup_Contains_def foldl_insert_unit)

lemma Len_NewStringLookup: "distinct xs \<Longrightarrow> StringLookup_Len (NewStringLookup xs) = length xs"
  by (simp add: NewStringLookup_def StringLookup_Len_def dom_def foldl_insert_unit distinct_card)

interpretation strings: membership NewStringLookup StringLookup_Contains "(=)" "\<lambda>_. True"
  by standard (simp add: Contains_NewStringLookup)

lemma key_search_map_of:
  "length ks = length vs \<Longrightarrow> key_search ks vs key = map_of (zip ks vs) key"
  by (induction ks vs rule: list_induct2) auto

lemma foldl_insert_pairs:
  "foldl (\<lambda>m (k, v). m(k \<mapsto> v)) m xs key
    = (case map_of (rev xs) key of None \<Rightarrow> m key | Some v \<Rightarrow> Some v)"
  by (induction xs arbitrary: m) (auto simp: map_add_def split: option.splits)

text \<open>
  With distinct keys both representations look up the same value; with a repeated key the
  list finds its first value and the map its last.
\<close>

lemma ValueLookup_Get_distinct:
  assumes "NewStringValueLookup keys values = Some l" "distinct keys"
  shows "ValueLookup_Get l key = map_of (zip keys values) key"
proof -
  have len: "length keys = length values"
    using assms(1) by (auto simp: NewStringValueLookup_def split: if_splits)
  have "map_of (rev (zip keys values)) = map_of (zip keys values)"
    using assms(2) len by (intro map_of_inject_set [THEN iffD2]) (simp_all add: rev_map [symmetric])
  then have "foldl (\<lambda>m (k, v). m(k \<mapsto> v)) Map.empty (zip keys values) key = map_of (zip keys values) key"
    by (auto simp: foldl_insert_pairs split: option.split)
  moreover have "key_search keys values key = map_of (zip keys values) key"
    using len by (rule key_search_map_of)
  ultimately show ?thesis
    using assms(1) by (auto simp: NewStringValueLookup_def ValueLookup_Get_def split: if_splits)
qed

section \<open>subnet.go\<close>

record ip_net =
  net_IP :: bytes
  net_Mask :: bytes

text \<open>\<open>binary.BigEndian.Uint32\<close>, with \<open>None\<close> for the panic on a short slice\<close>

definition be32 :: "byte \<Rightarrow> byte \<Rightarrow> byte \<Rightarrow> byte \<Rightarrow> 32 word" where
  "be32 a b c d = push_bit 24 (ucast a) OR push_bit 16 (ucast b) OR push_bit 8 (ucast c) OR ucast d"

fun BigEndian_Uint32 :: "bytes \<Rightarrow> 32 word option" where
  "BigEndian_Uint32 (a # b # c # d # _) = Some (be32 a b c d)"
| "BigEndian_Uint32 _ = None"

definition v4InV6Prefix :: bytes where
  "v4InV6Prefix = replicate 10 0 @ [0xff, 0xff]"

text \<open>\<open>net.IP.To4\<close>, \<open>net.IP.Mask\<close> and \<open>net.IP.Equal\<close>; a nil slice is empty.\<close>

definition To4 :: "bytes \<Rightarrow> bytes option" where
  "To4 ip = (if length ip = 4 then Some ip
    else if length ip = 16 \<and> take 12 ip = v4InV6Prefix then Some (drop 12 ip) else None)"

definition IP_Mask :: "bytes \<Rightarrow> bytes \<Rightarrow> bytes" where
  "IP_Mask ip m =
    (let m = (if length m = 16 \<and> length ip = 4 \<and> take 12 m = replicate 12 0xff then drop 12 m else m);
         ip = (if length m = 4 \<and> length ip = 16 \<and> take 12 ip = v4InV6Prefix then drop 12 ip else ip)
     in if length ip \<noteq> length m then [] else map2 (AND) ip m)"

definition IP_Equal :: "bytes \<Rightarrow> bytes \<Rightarrow> bool" where
  "IP_Equal ip x =
    (if length ip = length x then ip = x
     else if length ip = 4 \<and> length x = 16 then take 12 x = v4InV6Prefix \<and> ip = drop 12 x
     else if length ip = 16 \<and> length x = 4 then take 12 ip = v4InV6Prefix \<and> drop 12 ip = x
     else False)"

definition SubnetLookup_Less :: "ip_net \<Rightarrow> ip_net \<Rightarrow> bool" where
  "SubnetLookup_Less x y \<longleftrightarrow> the (BigEndian_Uint32 (net_IP x)) < the (BigEndian_Uint32 (net_IP y))"

fun parse_all :: "(string \<Rightarrow> ip_net option) \<Rightarrow> string list \<Rightarrow> ip_net list option" where
  "parse_all parse [] = Some []"
| "parse_all parse (c # cs) = (case parse c of None \<Rightarrow> None
    | Some n \<Rightarrow> map_option ((#) n) (parse_all parse cs))"

definition NewSubnetLookup :: "(ip_net list \<Rightarrow> ip_net list) \<Rightarrow> (string \<Rightarrow> ip_net option)
    \<Rightarrow> string list \<Rightarrow> ip_net list option" where
  "NewSubnetLookup sort_Sort ParseCIDR CIDRs = map_option sort_Sort (parse_all ParseCIDR CIDRs)"

text \<open>The loop of \<open>sort.Search\<close>, between \<open>i\<close> and \<open>j\<close>\<close>

function sort_Search :: "nat \<Rightarrow> nat \<Rightarrow> (nat \<Rightarrow> bool) \<Rightarrow> nat" where
  "sort_Search i j f = (if i < j then
     let h = (i + j) div 2 in if \<not> f h then sort_Search (h + 1) j f else sort_Search i h f
   else i)"
  by pat_completeness auto
termination by (relation "measure (\<lambda>(i, j, _). j - i)") auto

declare sort_Search.simps [simp del]

definition ContainsIPAddress :: "ip_net list \<Rightarrow> bytes \<Rightarrow> bool" where
  "ContainsIPAddress lookup addr = (case To4 addr of None \<Rightarrow> False | Some ipv4 \<Rightarrow>
    let addrValue = the (BigEndian_Uint32 ipv4);
        index = sort_Search 0 (length lookup)
          (\<lambda>i. the (BigEndian_Uint32 (net_IP (lookup ! i))) > addrValue)
    in index > 0 \<and> IP_Equal (net_IP (lookup ! (index - 1))) (IP_Mask addr (net_Mask (lookup ! (index - 1)))))"

subsection \<open>Prefix networks\<close>

definition ipv4_net :: "ip_net \<Rightarrow> bool" where
  "ipv4_net n \<longleftrightarrow> length (net_IP n) = 4 \<and> length (net_Mask n) = 4 \<and>
    (\<exists>k. BigEndian_Uint32 (net_Mask n) = Some (NOT (mask k))) \<and>
    map2 (AND) (net_IP n) (net_Mask n) = net_IP n"

definition net_contains :: "ip_net \<Rightarrow> bytes \<Rightarrow> bool" where
  "net_contains n addr \<longleftrightarrow> (\<exists>ip. To4 addr = Some ip \<and> map2 (AND) ip (net_Mask n) = net_IP n)"

definition value32 :: "bytes \<Rightarrow> 32 word" where
  "value32 b = the (BigEndian_Uint32 b)"

lemma length4: "length b = 4 \<longleftrightarrow> (\<exists>x y z w. b = [x, y, z, w])"
  by (auto simp: length_Suc_conv numeral_eq_Suc)

lemma be32_bit:
  "bit (be32 a b c d) n \<longleftrightarrow> (24 \<le> n \<and> n < 32 \<and> bit a (n - 24)) \<or> (16 \<le> n \<and> n < 32 \<and> bit b (n - 16))
    \<or> (8 \<le> n \<and> n < 32 \<and> bit c (n - 8)) \<or> (n < 32 \<and> bit d n)"
  by (auto simp: be32_def bit_simps)

lemma be32_and: "be32 a b c d AND be32 a' b' c' d' = be32 (a AND a') (b AND b') (c AND c') (d AND d')"
proof (rule bit_eqI)
  fix n assume "possible_bit TYPE(32 word) n"
  have lt: "\<not> bit x n" if "8 \<le> n" for x :: byte and n
    using that bit_imp_le_length [of x n] by auto
  show "bit (be32 a b c d AND be32 a' b' c' d') n \<longleftrightarrow> bit (be32 (a AND a') (b AND b') (c AND c') (d AND d')) n"
    by (cases "n < 8"; cases "n < 16"; cases "n < 24") (auto simp: be32_bit bit_and_iff lt)
qed

lemma value32_and:
  "length a = 4 \<Longrightarrow> length b = 4 \<Longrightarrow> value32 (map2 (AND) a b) = value32 a AND value32 b"
  by (auto simp: length4 value32_def be32_and)

lemma value32_inj: "length a = 4 \<Longrightarrow> length b = 4 \<Longrightarrow> value32 a = value32 b \<longleftrightarrow> a = b"
proof
  assume len: "length a = 4" "length b = 4" and eq: "value32 a = value32 b"
  from len obtain x y z w x' y' z' w' where ab: "a = [x, y, z, w]" "b = [x', y', z', w']"
    by (auto simp: length4)
  have lt: "\<not> bit v n" if "8 \<le> n" for v :: byte and n
    using that bit_imp_le_length [of v n] by auto
  have be: "bit (be32 x y z w) n = bit (be32 x' y' z' w') n" for n
    using eq ab by (simp add: value32_def)
  have "bit x n = bit x' n" "bit y n = bit y' n" "bit z n = bit z' n" "bit w n = bit w' n"
    if "n < 8" for n
    using be [of "n + 24"] be [of "n + 16"] be [of "n + 8"] be [of n] that
    by (auto simp: be32_bit lt)
  then show "a = b" by (auto simp: ab intro!: bit_eqI)
qed simp

lemma and_prefix: "w AND NOT (mask k) = push_bit k (drop_bit k w)" for w :: "32 word"
  by (auto simp: bit_eq_iff bit_simps)

lemma prefix_convex:
  fixes v w y :: "32 word"
  assumes "w AND NOT (mask k) = v" "v \<le> y" "y \<le> w"
  shows "y AND NOT (mask k) = v"
proof -
  have bv: "bit v m \<longleftrightarrow> bit w m \<and> k \<le> m" for m
    using assms(1) bit_imp_le_length [of w m] by (auto simp: bit_simps)
  then have vv: "v AND NOT (mask k) = v" by (auto simp: bit_eq_iff bit_simps)
  have dw: "drop_bit k w = drop_bit k v" by (rule bit_eqI) (simp add: bit_simps bv)
  have "unat (drop_bit k v) \<le> unat (drop_bit k y)" "unat (drop_bit k y) \<le> unat (drop_bit k w)"
    using assms(2,3) unfolding unat_drop_bit_eq
    by (simp_all add: drop_bit_eq_div div_le_mono word_le_nat_alt)
  with dw have "drop_bit k y = drop_bit k v" by (simp add: word_unat_eq_iff)
  with vv show ?thesis by (simp add: and_prefix)
qed

lemma sort_Search_correct:
  assumes "i \<le> j" "j \<le> n" "\<And>a b. a \<le> b \<Longrightarrow> b < n \<Longrightarrow> f a \<Longrightarrow> f b"
  shows "i \<le> sort_Search i j f \<and> sort_Search i j f \<le> j
    \<and> (\<forall>h. i \<le> h \<and> h < sort_Search i j f \<longrightarrow> \<not> f h)
    \<and> (sort_Search i j f < j \<longrightarrow> f (sort_Search i j f))"
  using assms
proof (induction i j f rule: sort_Search.induct)
  case (1 i j f)
  show ?case
  proof (cases "i < j")
    case False
    then show ?thesis using 1(3) by (auto simp: sort_Search.simps)
  next
    case True
    let ?h = "(i + j) div 2"
    have h: "i \<le> ?h" "?h < j" using True by linarith+
    show ?thesis
    proof (cases "f ?h")
      case fh: True
      then have eq: "sort_Search i j f = sort_Search i ?h f"
        using True by (subst sort_Search.simps) (simp add: Let_def)
      have hn: "?h \<le> n" using h 1(4) by simp
      have "i \<le> sort_Search i ?h f \<and> sort_Search i ?h f \<le> ?h
          \<and> (\<forall>x. i \<le> x \<and> x < sort_Search i ?h f \<longrightarrow> \<not> f x)
          \<and> (sort_Search i ?h f < ?h \<longrightarrow> f (sort_Search i ?h f))"
        by (rule 1(2) [OF True refl _ h(1)]) (use fh in simp, rule hn, erule (2) 1(5))
      then show ?thesis
        unfolding eq using h fh by (cases "sort_Search i ?h f = ?h") auto
    next
      case fh: False
      then have eq: "sort_Search i j f = sort_Search (?h + 1) j f"
        using True by (subst sort_Search.simps) (simp add: Let_def)
      have lo: "\<not> f x" if "x \<le> ?h" for x
        using 1(5) [OF that] fh h 1(4) by auto
      let ?s = "sort_Search (?h + 1) j f"
      have hj: "?h + 1 \<le> j" using h by simp
      have IH: "?h + 1 \<le> ?s \<and> ?s \<le> j \<and> (\<forall>x. ?h + 1 \<le> x \<and> x < ?s \<longrightarrow> \<not> f x) \<and> (?s < j \<longrightarrow> f ?s)"
        by (rule 1(1) [OF True refl fh hj 1(4)]) (erule (2) 1(5))
      have "\<not> f x" if "i \<le> x" "x < sort_Search (?h + 1) j f" for x
        using IH lo [of x] that by (cases "x \<le> ?h") auto
      then show ?thesis unfolding eq using IH h by auto
    qed
  qed
qed

text \<open>The networks are sorted by address and no address is in two of them.\<close>

definition subnets_ok :: "ip_net list \<Rightarrow> bool" where
  "subnets_ok nets \<longleftrightarrow> list_all ipv4_net nets \<and>
    (\<forall>addr. \<forall>m\<in>set nets. \<forall>n\<in>set nets. net_contains m addr \<and> net_contains n addr \<longrightarrow> m = n)"

definition net_sorted :: "ip_net list \<Rightarrow> bool" where
  "net_sorted nets \<longleftrightarrow> sorted_wrt (\<lambda>m n. \<not> SubnetLookup_Less n m) nets"

definition sorts_nets :: "(ip_net list \<Rightarrow> ip_net list) \<Rightarrow> bool" where
  "sorts_nets sort_Sort \<longleftrightarrow> (\<forall>nets. mset (sort_Sort nets) = mset nets \<and> net_sorted (sort_Sort nets))"

lemma net_contains_value:
  assumes "ipv4_net n" "To4 addr = Some ip" "BigEndian_Uint32 (net_Mask n) = Some m"
  shows "net_contains n addr \<longleftrightarrow> value32 ip AND m = value32 (net_IP n)"
proof -
  have len: "length ip = 4" using assms(2) by (auto simp: To4_def split: if_splits)
  have "map2 (AND) ip (net_Mask n) = net_IP n
    \<longleftrightarrow> value32 (map2 (AND) ip (net_Mask n)) = value32 (net_IP n)"
    using assms(1) len by (intro value32_inj [symmetric]) (auto simp: ipv4_net_def)
  also have "\<dots> \<longleftrightarrow> value32 ip AND m = value32 (net_IP n)"
    using assms len by (simp add: value32_and ipv4_net_def) (simp add: value32_def)
  finally show ?thesis using assms(2) by (simp add: net_contains_def)
qed

lemma contains_step:
  assumes "ipv4_net n" "To4 addr = Some ip"
  shows "IP_Equal (net_IP n) (IP_Mask addr (net_Mask n)) \<longleftrightarrow> net_contains n addr"
  using assms
  by (auto simp: IP_Equal_def IP_Mask_def ipv4_net_def net_contains_def To4_def Let_def split: if_splits)

lemma BigEndian_value: "length b = 4 \<Longrightarrow> BigEndian_Uint32 b = Some (value32 b)"
  by (auto simp: length4 value32_def)

lemma ContainsIPAddress_iff:
  assumes srt: "net_sorted lookup" and ok: "subnets_ok lookup"
  shows "ContainsIPAddress lookup addr \<longleftrightarrow> (\<exists>n\<in>set lookup. net_contains n addr)"
proof (cases "To4 addr")
  case None
  then show ?thesis by (simp add: ContainsIPAddress_def net_contains_def)
next
  case (Some ip)
  let ?v = "\<lambda>i. value32 (net_IP (lookup ! i))"
  let ?x = "value32 ip"
  let ?f = "\<lambda>i. ?x < ?v i"
  let ?s = "sort_Search 0 (length lookup) ?f"
  have v4: "ipv4_net n" if "n \<in> set lookup" for n using ok that by (auto simp: subnets_ok_def list_all_iff)
  have mono: "?v i \<le> ?v j" if "i \<le> j" "j < length lookup" for i j
    using srt that by (cases "i = j")
      (auto simp: net_sorted_def SubnetLookup_Less_def value32_def sorted_wrt_iff_nth_less not_less)
  have "0 \<le> ?s \<and> ?s \<le> length lookup \<and> (\<forall>h. 0 \<le> h \<and> h < ?s \<longrightarrow> \<not> ?f h) \<and> (?s < length lookup \<longrightarrow> ?f ?s)"
    by (rule sort_Search_correct) (use mono in \<open>auto intro: less_le_trans\<close>)
  then have s: "?s \<le> length lookup" "\<And>h. h < ?s \<Longrightarrow> ?v h \<le> ?x"
      "?s < length lookup \<Longrightarrow> ?x < ?v ?s" by (auto simp: not_less)
  have C: "ContainsIPAddress lookup addr \<longleftrightarrow> 0 < ?s \<and> net_contains (lookup ! (?s - 1)) addr"
    using contains_step [OF v4 Some] s(1)
    by (auto simp: ContainsIPAddress_def Some Let_def simp flip: value32_def)
  show ?thesis
  proof
    assume "\<exists>n\<in>set lookup. net_contains n addr"
    then obtain k where k: "k < length lookup" "net_contains (lookup ! k) addr"
      by (auto simp: in_set_conv_nth)
    have n: "ipv4_net (lookup ! k)" using k by (intro v4) simp
    then obtain p where m: "BigEndian_Uint32 (net_Mask (lookup ! k)) = Some (NOT (mask p))"
      by (auto simp: ipv4_net_def)
    have x: "?x AND NOT (mask p) = ?v k"
      using net_contains_value [OF n Some m] k(2) by simp
    then have "?v k \<le> ?x" using word_and_le2 [of ?x "NOT (mask p)"] by simp
    with s(3) mono [of ?s k] k(1) have ks: "k < ?s"
      by (cases "k < ?s") auto
    define j where "j = ?s - 1"
    have j: "k \<le> j" "j < length lookup" "?v j \<le> ?x" using ks s by (auto simp: j_def)
    have "?v j AND NOT (mask p) = ?v k" using x mono [OF j(1,2)] j(3) by (rule prefix_convex)
    moreover have vj: "ipv4_net (lookup ! j)" using j by (intro v4) simp
    then have T: "To4 (net_IP (lookup ! j)) = Some (net_IP (lookup ! j))" by (simp add: ipv4_net_def To4_def)
    ultimately have "net_contains (lookup ! k) (net_IP (lookup ! j))"
      using net_contains_value [OF n T m] by simp
    moreover have "net_contains (lookup ! j) (net_IP (lookup ! j))"
      using vj T by (simp add: net_contains_def ipv4_net_def)
    ultimately have "lookup ! k = lookup ! j"
      using ok k(1) j(2) unfolding subnets_ok_def by (meson nth_mem)
    with C k(2) ks show "ContainsIPAddress lookup addr" by (simp add: j_def)
  qed (use C s(1) in \<open>auto intro!: bexI [of _ "lookup ! (?s - 1)"]\<close>)
qed

lemma subnets_ok_mset: "mset xs = mset ys \<Longrightarrow> subnets_ok xs \<longleftrightarrow> subnets_ok ys"
  by (auto simp: subnets_ok_def list_all_iff dest: mset_eq_setD)

definition sort_nets :: "ip_net list \<Rightarrow> ip_net list" where
  "sort_nets = sort_key (\<lambda>n. the (BigEndian_Uint32 (net_IP n)))"

lemma sorts_nets_sort_nets: "sorts_nets sort_nets"
proof -
  have "sorted_wrt (\<lambda>m n. \<not> SubnetLookup_Less n m) (sort_nets nets)" for nets
    using sorted_sort_key [of "\<lambda>n. the (BigEndian_Uint32 (net_IP n))" nets]
    by (simp add: sort_nets_def SubnetLookup_Less_def sorted_map not_less)
  then show ?thesis by (simp add: sorts_nets_def net_sorted_def sort_nets_def)
qed

interpretation subnets: membership sort_nets ContainsIPAddress net_contains subnets_ok
proof
  fix nets addr assume ok: "subnets_ok nets"
  have ms: "mset (sort_nets nets) = mset nets" "net_sorted (sort_nets nets)"
    using sorts_nets_sort_nets by (auto simp: sorts_nets_def)
  then have "subnets_ok (sort_nets nets)" using ok subnets_ok_mset by blast
  from ContainsIPAddress_iff [OF ms(2) this, of addr] mset_eq_setD [OF ms(1)]
  show "ContainsIPAddress (sort_nets nets) addr \<longleftrightarrow> (\<exists>n\<in>set nets. net_contains n addr)" by simp
qed

section \<open>Properties\<close>


definition example_parse :: "string \<Rightarrow> ip_net option" where
  "example_parse c = (if c = ''192.168.1.0/24'' then Some \<lparr>net_IP = [192, 168, 1, 0], net_Mask = [255, 255, 255, 0]\<rparr>
    else if c = ''10.0.0.0/8'' then Some \<lparr>net_IP = [10, 0, 0, 0], net_Mask = [255, 0, 0, 0]\<rparr> else None)"

lemma example_nets_ok:
  "subnets_ok [\<lparr>net_IP = [192, 168, 1, 0], net_Mask = [255, 255, 255, 0]\<rparr>,
     \<lparr>net_IP = [10, 0, 0, 0], net_Mask = [255, 0, 0, 0]\<rparr>]"
proof -
  have "ipv4_net \<lparr>net_IP = [192, 168, 1, 0], net_Mask = [255, 255, 255, 0]\<rparr>"
    by (simp add: ipv4_net_def be32_def) (rule exI [of _ 8], simp add: mask_eq_exp_minus_1)
  moreover have "ipv4_net \<lparr>net_IP = [10, 0, 0, 0], net_Mask = [255, 0, 0, 0]\<rparr>"
    by (simp add: ipv4_net_def be32_def) (rule exI [of _ 24], simp add: mask_eq_exp_minus_1)
  moreover have fst_byte: "\<exists>r. To4 addr = Some (b # r)"
    if "net_contains \<lparr>net_IP = b # bs, net_Mask = 255 # ms\<rparr> addr" for addr b bs ms
  proof -
    have "(255 :: byte) = - 1" by simp
    then have "x AND 255 = x" for x :: byte by (simp only: and.right_neutral)
    moreover from that obtain ip where ip: "To4 addr = Some ip" "map2 (AND) ip (255 # ms) = b # bs"
      by (auto simp: net_contains_def)
    ultimately show ?thesis by (cases ip) auto
  qed
  moreover have "\<not> (net_contains \<lparr>net_IP = [192, 168, 1, 0], net_Mask = [255, 255, 255, 0]\<rparr> addr
      \<and> net_contains \<lparr>net_IP = [10, 0, 0, 0], net_Mask = [255, 0, 0, 0]\<rparr> addr)" for addr
    using fst_byte [of 192 "[168, 1, 0]" "[255, 255, 0]" addr] fst_byte [of 10 "[0, 0, 0]" "[0, 0, 0]" addr]
    by auto
  ultimately show ?thesis by (simp add: subnets_ok_def) blast
qed


text \<open>
  A parsed port list contains only valid ports, and building its lookup map changes no
  answer: a port is in the list when it lies in one of the ranges.
\<close>

lemma port_list_lookup:
  assumes "UnmarshalJSON j = Inr p"
  shows "Lookup (OptimizeLookups (Some p)) port = Lookup (Some p) port \<and>
    (Lookup (Some p) port \<longleftrightarrow> (\<exists>(a, b)\<in>set (portRanges p). a \<le> port \<and> port \<le> b)) \<and>
    (Lookup (Some p) port \<longrightarrow> 1 \<le> port \<and> port \<le> 65535)"
proof -
  have n: "port_lookup p = None"
    using assms by (auto simp: UnmarshalJSON_def split: json.splits)
  have v: "1 \<le> a \<and> a \<le> b \<and> b \<le> 65535" if "(a, b) \<in> set (portRanges p)" for a b
    using assms that port_range_valid
    by (fastforce simp: UnmarshalJSON_def list_all2_conv_all_nth in_set_conv_nth
        dest!: port_ranges_valid split: json.splits)
  show ?thesis
    using v by (auto simp: Lookup_optimized [OF n] Lookup_plain [OF n] port_set_def) fastforce+
qed

end
