(* ===== verification/Osl.thy ===== *)
theory Osl
  imports Sss Lookups
begin

text \<open>
  Obfuscated server lists, \<open>psiphon/common/osl/osl.go\<close>: the derivation of SLOKs, the division
  of an OSL file key over a tree of secret sharings whose leaves are boxed with SLOKs
  (\<open>makeOSLFileSpec\<close>, \<open>divideKey\<close>, \<open>divideKeyWithSeedSpecSLOKs\<close>), and the client's
  reassembly of the key from the SLOKs it has been seeded with (\<open>reassembleKey\<close>).

  HMAC-SHA256, the secretbox cipher and the AES-CTR key stream are parameters
  (\<open>hmac\<close>, \<open>seal\<close>, \<open>unseal\<close>, \<open>keystream\<close>). The key stream is a finite prefix of the
  unlimited stream: code that would read past it is an error in the model. A \<open>nil\<close> byte
  slice among shares is \<open>None\<close>. Times are nanoseconds since the Unix epoch.
\<close>

section \<open>The data model\<close>

datatype osl_error =
    InvalidParameters
  | SssError sss_error
  | InvalidKeyLength
  | UnboxFailed
  | UnexpectedLength
  | UnexpectedFormat
  | UnseededOSL
  | OslPanic

record key_split =
  Total :: int
  Threshold :: int

record slok =
  slok_ID :: bytes
  slok_Key :: bytes

record slok_reference =
  ref_PropagationChannelID :: string
  ref_SeedSpecID :: bytes
  ref_Time :: int

record traffic_values =
  BytesRead :: int
  BytesWritten :: int
  PortForwardDurationNanoseconds :: int

record seed_spec =
  spec_ID :: bytes
  UpstreamSubnets :: "string list"
  UpstreamASNs :: "string list"
  Targets :: traffic_values
  upstreamASNLookup :: string_lookup

record osl_scheme =
  Epoch :: string
  PaveDataOSLCount :: int
  Regions :: "string list"
  PropagationChannelIDs :: "string list"
  MasterKey :: bytes
  SeedSpecs :: "seed_spec list"
  SeedSpecThreshold :: int
  SeedPeriodNanoseconds :: int
  SeedPeriodKeySplits :: "key_split list"
  epoch :: int
  subnetLookups :: "ip_net list list"
  derivedSLOKCache :: "slok_reference \<rightharpoonup> slok"

definition SeedSpecIDs :: "osl_scheme \<Rightarrow> bytes list" where
  "SeedSpecIDs scheme = map spec_ID (SeedSpecs scheme)"

datatype key_shares = KeyShares
  (ks_Threshold: int) (ks_BoxedShares: "bytes list") (ks_SLOKIDs: "bytes list")
  (ks_KeyShares: "key_shares list")

record osl_file_spec =
  fs_ID :: bytes
  fs_KeyShares :: key_shares

definition KEY_LENGTH_BYTES :: nat where
  "KEY_LENGTH_BYTES = 32"

section \<open>Key derivation\<close>

definition ascii :: "string \<Rightarrow> bytes" where
  "ascii s = map of_char s"

text \<open>\<open>binary.LittleEndian.PutUint64(b, uint64(v))\<close>\<close>

definition le64 :: "int \<Rightarrow> bytes" where
  "le64 v = map (\<lambda>i. ucast (drop_bit (8 * i) (word_of_int v :: 64 word))) [0..<8]"

definition deriveKeyHKDF :: "(bytes \<Rightarrow> bytes \<Rightarrow> bytes) \<Rightarrow> bytes \<Rightarrow> bytes list \<Rightarrow> bytes" where
  "deriveKeyHKDF hmac masterKey context = hmac masterKey (concat context @ [0x01])"

definition deriveSLOK :: "(bytes \<Rightarrow> bytes \<Rightarrow> bytes) \<Rightarrow> osl_scheme \<Rightarrow> slok_reference \<Rightarrow> slok" where
  "deriveSLOK hmac scheme ref =
    (let timeBytes = le64 (ref_Time ref);
         key = deriveKeyHKDF hmac (MasterKey scheme)
           [ascii (ref_PropagationChannelID ref), ref_SeedSpecID ref, timeBytes];
         id = deriveKeyHKDF hmac (MasterKey scheme) [key]
     in \<lparr>slok_ID = id, slok_Key = key\<rparr>)"

definition GetOSLDuration :: "osl_scheme \<Rightarrow> int" where
  "GetOSLDuration scheme =
    foldl (\<lambda>n ks. n * Total ks) 1 (SeedPeriodKeySplits scheme) * SeedPeriodNanoseconds scheme"

section \<open>Shamir and secretbox wrappers\<close>

definition isValidShamirSplit :: "int \<Rightarrow> int \<Rightarrow> bool" where
  "isValidShamirSplit tot threshold \<longleftrightarrow>
    \<not> (tot < 1 \<or> tot > 254 \<or> threshold < 1 \<or> threshold > tot)"

definition shamirSplit :: "bytes \<Rightarrow> int \<Rightarrow> int \<Rightarrow> bytes
    \<Rightarrow> (osl_error + bytes option list \<times> bytes) option" where
  "shamirSplit secret tot threshold r =
    (if \<not> isValidShamirSplit tot threshold then Some (Inl InvalidParameters)
     else if threshold = 1 then Some (Inr (replicate (nat tot) (Some secret), r))
     else case SplitUsingReader (word_of_int tot) (word_of_int threshold) secret r of
         None \<Rightarrow> None
       | Some (Inl e) \<Rightarrow> Some (Inl (SssError e))
       | Some (Inr (shareMap, r')) \<Rightarrow>
           Some (Inr (map (\<lambda>i. shareMap (word_of_nat i + 1)) [0..<nat tot], r')))"

definition slot_map :: "bytes option list \<Rightarrow> share_map" where
  "slot_map shares = foldl (\<lambda>m (index, share). case share of None \<Rightarrow> m
    | Some s \<Rightarrow> m(word_of_nat index + 1 \<mapsto> s)) Map.empty (enumerate 0 shares)"

type_synonym map_orders = "share_map \<Rightarrow> nat \<Rightarrow> (byte \<times> bytes) list"

definition valid_orders :: "map_orders \<Rightarrow> bool" where
  "valid_orders ord \<longleftrightarrow> (\<forall>m j. iteration_of m (ord m j))"

definition nil_bytes :: "bytes option \<Rightarrow> bytes" where
  "nil_bytes s = (case s of None \<Rightarrow> [] | Some b \<Rightarrow> b)"

definition shamirCombine :: "map_orders \<Rightarrow> bytes option list \<Rightarrow> bytes option" where
  "shamirCombine ord shares =
    (if length shares = 1 then Some (nil_bytes (shares ! 0))
     else combine (ord (slot_map shares)))"

definition box :: "(bytes \<Rightarrow> bytes \<Rightarrow> bytes) \<Rightarrow> bytes \<Rightarrow> bytes \<Rightarrow> osl_error + bytes" where
  "box seal key plaintext =
    (if length key \<noteq> KEY_LENGTH_BYTES then Inl InvalidKeyLength else Inr (seal key plaintext))"

definition unbox :: "(bytes \<Rightarrow> bytes \<Rightarrow> bytes option) \<Rightarrow> bytes \<Rightarrow> bytes \<Rightarrow> osl_error + bytes" where
  "unbox unseal key b =
    (if length key \<noteq> KEY_LENGTH_BYTES then Inl InvalidKeyLength
     else case unseal key b of None \<Rightarrow> Inl UnboxFailed | Some p \<Rightarrow> Inr p)"

section \<open>Dividing a key\<close>

type_synonym divided = "(osl_error + key_shares \<times> bytes \<times> int) option"

definition spec_slok :: "(bytes \<Rightarrow> bytes \<Rightarrow> bytes) \<Rightarrow> osl_scheme \<Rightarrow> string \<Rightarrow> bytes \<Rightarrow> int \<Rightarrow> slok" where
  "spec_slok hmac scheme channel specID t = deriveSLOK hmac scheme
    \<lparr>ref_PropagationChannelID = channel, ref_SeedSpecID = specID, ref_Time = t\<rparr>"

text \<open>The loop over the seed specs boxes one share under each spec's SLOK.\<close>

fun spec_loop :: "(bytes \<Rightarrow> bytes \<Rightarrow> bytes) \<Rightarrow> (bytes \<Rightarrow> bytes \<Rightarrow> bytes) \<Rightarrow> osl_scheme \<Rightarrow> string
    \<Rightarrow> int \<Rightarrow> bytes list \<Rightarrow> bytes option list \<Rightarrow> osl_error + bytes list \<times> bytes list" where
  "spec_loop hmac seal scheme channel t [] shares = Inr ([], [])"
| "spec_loop hmac seal scheme channel t (specID # specs) [] = Inl OslPanic"
| "spec_loop hmac seal scheme channel t (specID # specs) (share # shares) =
    (let slok = spec_slok hmac scheme channel specID t
     in ebind (box seal (slok_Key slok) (nil_bytes share)) (\<lambda>boxedShare.
        ebind (spec_loop hmac seal scheme channel t specs shares) (\<lambda>(boxedShares, slokIDs).
          Inr (boxedShare # boxedShares, slok_ID slok # slokIDs))))"

definition divideKeyWithSeedSpecSLOKs ::
  "(bytes \<Rightarrow> bytes \<Rightarrow> bytes) \<Rightarrow> (bytes \<Rightarrow> bytes \<Rightarrow> bytes) \<Rightarrow> osl_scheme \<Rightarrow> string
    \<Rightarrow> bytes \<Rightarrow> bytes \<Rightarrow> int \<Rightarrow> (osl_error + key_shares \<times> bytes) option" where
  "divideKeyWithSeedSpecSLOKs hmac seal scheme channel key r t =
    pbind (shamirSplit key (int (length (SeedSpecIDs scheme))) (SeedSpecThreshold scheme) r)
      (\<lambda>(shares, r). Some (ebind (spec_loop hmac seal scheme channel t (SeedSpecIDs scheme) shares)
        (\<lambda>(boxedShares, slokIDs).
          Inr (KeyShares (SeedSpecThreshold scheme) boxedShares slokIDs [], r))))"

text \<open>
  The loop over the shares of one level: a fresh share key is read for each, divided further
  by \<open>child\<close>, and the share is boxed under it.
\<close>

fun key_loop :: "(bytes \<Rightarrow> bytes \<Rightarrow> bytes) \<Rightarrow> (bytes \<Rightarrow> bytes \<Rightarrow> int \<Rightarrow> divided)
    \<Rightarrow> bytes option list \<Rightarrow> bytes \<Rightarrow> int
    \<Rightarrow> (osl_error + bytes list \<times> key_shares list \<times> bytes \<times> int) option" where
  "key_loop seal child [] r t = Some (Inr ([], [], r, t))"
| "key_loop seal child (share # shares) r t =
    (if length r < KEY_LENGTH_BYTES then Some (Inl UnexpectedLength)
     else let shareKey = take KEY_LENGTH_BYTES r
     in pbind (child shareKey (drop KEY_LENGTH_BYTES r) t) (\<lambda>(keyShare, r, t).
        pbind (Some (box seal shareKey (nil_bytes share))) (\<lambda>boxedShare.
        pbind (key_loop seal child shares r t) (\<lambda>(boxedShares, keyShares, r, t).
          Some (Inr (boxedShare # boxedShares, keyShare # keyShares, r, t))))))"

text \<open>
  \<open>divideKey\<close> recurses on all but the last of the key splits; \<open>divide_levels\<close> is that
  recursion on the reversed list. Below the lowest level each share key is divided over the
  SLOKs of one period, and the time advances by one period.
\<close>

fun divide_levels :: "(bytes \<Rightarrow> bytes \<Rightarrow> bytes) \<Rightarrow> (bytes \<Rightarrow> bytes \<Rightarrow> bytes) \<Rightarrow> osl_scheme \<Rightarrow> string
    \<Rightarrow> key_split list \<Rightarrow> bytes \<Rightarrow> bytes \<Rightarrow> int \<Rightarrow> divided" where
  "divide_levels hmac seal scheme channel [] key r t = Some (Inl OslPanic)"
| "divide_levels hmac seal scheme channel (keySplit # lower) key r t =
    pbind (shamirSplit key (Total keySplit) (Threshold keySplit) r) (\<lambda>(shares, r).
      pbind (key_loop seal
          (if lower \<noteq> [] then divide_levels hmac seal scheme channel lower
           else (\<lambda>shareKey r t.
             pbind (divideKeyWithSeedSpecSLOKs hmac seal scheme channel shareKey r t)
               (\<lambda>(keyShare, r). Some (Inr (keyShare, r, t + SeedPeriodNanoseconds scheme)))))
          shares r t)
        (\<lambda>(boxedShares, keyShares, r, t).
          Some (Inr (KeyShares (Threshold keySplit) boxedShares [] keyShares, r, t))))"

definition divideKey :: "(bytes \<Rightarrow> bytes \<Rightarrow> bytes) \<Rightarrow> (bytes \<Rightarrow> bytes \<Rightarrow> bytes) \<Rightarrow> osl_scheme \<Rightarrow> bytes
    \<Rightarrow> bytes \<Rightarrow> key_split list \<Rightarrow> string \<Rightarrow> int \<Rightarrow> divided" where
  "divideKey hmac seal scheme r key keySplits channel t =
    divide_levels hmac seal scheme channel (rev keySplits) key r t"

definition splitStructure :: "osl_scheme \<Rightarrow> bytes" where
  "splitStructure scheme =
    le64 (int (length (SeedSpecIDs scheme))) @ le64 (SeedSpecThreshold scheme)
    @ concat (map (\<lambda>ks. le64 (Total ks) @ le64 (Threshold ks)) (SeedPeriodKeySplits scheme))"

definition makeOSLFileSpec :: "(bytes \<Rightarrow> bytes \<Rightarrow> bytes) \<Rightarrow> (bytes \<Rightarrow> bytes \<Rightarrow> bytes)
    \<Rightarrow> (bytes \<Rightarrow> bytes) \<Rightarrow> osl_scheme \<Rightarrow> string \<Rightarrow> int
    \<Rightarrow> (osl_error + bytes \<times> osl_file_spec) option" where
  "makeOSLFileSpec hmac seal keystream scheme channel firstSLOKTime =
    (case SeedSpecIDs scheme of [] \<Rightarrow> Some (Inl OslPanic) | specID # _ \<Rightarrow>
      let oslID = slok_ID (spec_slok hmac scheme channel specID firstSLOKTime);
          structure = splitStructure scheme;
          fileKey = deriveKeyHKDF hmac (MasterKey scheme)
            [structure, ascii ''osl-file-key'', oslID];
          seed = deriveKeyHKDF hmac (MasterKey scheme)
            [structure, ascii ''osl-file-split-key-material-seed'', oslID]
      in if length seed \<noteq> KEY_LENGTH_BYTES then Some (Inl InvalidKeyLength)
         else pbind (divideKey hmac seal scheme (keystream seed) fileKey
             (SeedPeriodKeySplits scheme) channel firstSLOKTime) (\<lambda>(keyShares, _, _).
           Some (Inr (fileKey, \<lparr>fs_ID = oslID, fs_KeyShares = keyShares\<rparr>))))"

section \<open>Reassembling a key\<close>

text \<open>
  The two loops of \<open>reassembleKey\<close>: they stop once \<open>Threshold\<close> entries have been taken, skip
  an entry that is not available (\<open>Inr None\<close>), and leave the slots of all others \<open>nil\<close>.
\<close>

fun collect :: "int \<Rightarrow> ('x \<Rightarrow> osl_error + bytes option option) \<Rightarrow> 'x list \<Rightarrow> int
    \<Rightarrow> osl_error + int \<times> bytes option list" where
  "collect threshold f [] shareCount = Inr (shareCount, [])"
| "collect threshold f (x # xs) shareCount =
    (if shareCount < threshold then
       ebind (f x) (\<lambda>taken. case taken of
           None \<Rightarrow> ebind (collect threshold f xs shareCount) (\<lambda>(n, slots). Inr (n, None # slots))
         | Some slot \<Rightarrow> ebind (collect threshold f xs (shareCount + 1))
             (\<lambda>(n, slots). Inr (n, slot # slots)))
     else Inr (shareCount, map (\<lambda>_. None) (x # xs)))"

lemma collect_cong [fundef_cong]:
  assumes "t = t'" "xs = ys" "\<And>x. x \<in> set ys \<Longrightarrow> f x = g x" "c = c'"
  shows "collect t f xs c = collect t' g ys c'"
  using assms(3) unfolding assms(1,2,4)
  by (induction ys arbitrary: c') (auto simp: ebind_def split: sum.splits option.splits)

text \<open>What one entry yields: its share when the key is unboxed, an empty slot otherwise.\<close>

definition open_share :: "(bytes \<Rightarrow> bytes \<Rightarrow> bytes option) \<Rightarrow> bool \<Rightarrow> bytes \<Rightarrow> bytes
    \<Rightarrow> osl_error + bytes option option" where
  "open_share unseal unboxKey key b =
    (if unboxKey then ebind (unbox unseal key b) (\<lambda>share. Inr (Some (Some share)))
     else Inr (Some None))"

definition finish_reassembly :: "map_orders \<Rightarrow> bool \<Rightarrow> int \<Rightarrow> int \<times> bytes option list
    \<Rightarrow> osl_error + bool \<times> bytes" where
  "finish_reassembly ord unboxKey threshold = (\<lambda>(shareCount, shares).
    if shareCount < threshold then Inr (False, [])
    else if \<not> unboxKey then Inr (True, [])
    else case shamirCombine ord shares of None \<Rightarrow> Inl OslPanic | Some key \<Rightarrow> Inr (True, key))"

lemma size_zip_child [termination_simp]:
  "(a, b) \<in> set (zip cs bs) \<Longrightarrow> size a < Suc (size_list size cs)"
  by (drule set_zip_leftD) (metis less_Suc_eq_le order_refl size_list_estimation')

fun reassembleKey :: "(bytes \<Rightarrow> bytes \<Rightarrow> bytes option) \<Rightarrow> map_orders \<Rightarrow> (bytes \<Rightarrow> bytes option)
    \<Rightarrow> bool \<Rightarrow> key_shares \<Rightarrow> osl_error + bool \<times> bytes" where
  "reassembleKey unseal ord lookup unboxKey (KeyShares threshold boxed slokIDs children) =
    (if (slokIDs \<noteq> [] \<and> children \<noteq> []) \<or> (slokIDs \<noteq> [] \<and> length slokIDs \<noteq> length boxed)
        \<or> (children \<noteq> [] \<and> length children \<noteq> length boxed)
     then Inl UnexpectedFormat
     else if slokIDs \<noteq> [] then
       ebind (collect threshold (\<lambda>(slokID, b). case lookup slokID of None \<Rightarrow> Inr None
           | Some slokKey \<Rightarrow> open_share unseal unboxKey slokKey b) (zip slokIDs boxed) 0)
         (finish_reassembly ord unboxKey threshold)
     else if children = [] then
       finish_reassembly ord unboxKey threshold (0, map (\<lambda>_. None) boxed)
     else
       ebind (collect threshold (\<lambda>(child, b).
           ebind (reassembleKey unseal ord lookup unboxKey child) (\<lambda>(ok, key).
             if \<not> ok then Inr None else open_share unseal unboxKey key b)) (zip children boxed) 0)
         (finish_reassembly ord unboxKey threshold))"

definition ReassembleOSLKey :: "(bytes \<Rightarrow> bytes \<Rightarrow> bytes option) \<Rightarrow> map_orders
    \<Rightarrow> (bytes \<Rightarrow> bytes option) \<Rightarrow> osl_file_spec \<Rightarrow> osl_error + bool \<times> bytes" where
  "ReassembleOSLKey unseal ord lookup fileSpec =
    ebind (reassembleKey unseal ord lookup True (fs_KeyShares fileSpec)) (\<lambda>(ok, fileKey).
      if \<not> ok then Inr (False, [])
      else if length fileKey \<noteq> KEY_LENGTH_BYTES then Inl InvalidKeyLength
      else Inr (True, fileKey))"

section \<open>Slots and shares\<close>

lemma slot_map_Nil [simp]: "slot_map [] = Map.empty"
  by (simp add: slot_map_def)

lemma slot_map_snoc [simp]:
  "slot_map (xs @ [x]) = (case x of None \<Rightarrow> slot_map xs
    | Some s \<Rightarrow> (slot_map xs)(word_of_nat (length xs) + 1 \<mapsto> s))"
  by (simp add: slot_map_def enumerate_append_eq split: option.splits)

lemma slot_index: "i < 255 \<Longrightarrow> unat (word_of_nat i + 1 :: byte) = Suc i"
  by (simp add: unat_word_ariths unat_of_nat)

lemma slot_index_inj:
  "i < 255 \<Longrightarrow> j < 255 \<Longrightarrow> (word_of_nat i :: byte) = word_of_nat j \<longleftrightarrow> i = j"
  using slot_index [of i] slot_index [of j] by (metis nat.inject)

lemma slot_map_SomeE:
  assumes "slot_map xs y = Some v"
  obtains i where "i < length xs" "y = word_of_nat i + 1" "xs ! i = Some v"
  using assms
proof (induction xs arbitrary: thesis rule: rev_induct)
  case Nil
  then show ?case by simp
next
  case (snoc x xs)
  show ?case
  proof (cases "\<exists>s. x = Some s \<and> y = word_of_nat (length xs) + 1")
    case True
    then show ?thesis using snoc.prems(2) by (intro snoc.prems(1) [of "length xs"]) auto
  next
    case False
    then have "slot_map xs y = Some v" using snoc.prems(2) by (auto split: option.splits if_splits)
    then obtain i where "i < length xs" "y = word_of_nat i + 1" "xs ! i = Some v"
      using snoc.IH by blast
    then show ?thesis by (intro snoc.prems(1) [of i]) (auto simp: nth_append)
  qed
qed

lemma finite_slot_map [simp]: "finite (dom (slot_map xs))"
  by (induction xs rule: rev_induct) (auto split: option.splits)

lemma card_slot_map:
  "length xs \<le> 255 \<Longrightarrow> card (dom (slot_map xs)) = length (filter (\<lambda>s. s \<noteq> None) xs)"
proof (induction xs rule: rev_induct)
  case Nil
  then show ?case by simp
next
  case (snoc x xs)
  have "(word_of_nat (length xs) + 1 :: byte) \<notin> dom (slot_map xs)"
    using snoc.prems by (auto elim!: slot_map_SomeE simp: slot_index_inj)
  then show ?case using snoc by (auto split: option.splits)
qed

text \<open>The shares of one split are the values of one polynomial per byte of the key.\<close>

definition shares_of :: "nat \<Rightarrow> bytes \<Rightarrow> bytes list \<Rightarrow> bytes option list \<Rightarrow> bool" where
  "shares_of thr key ps shares \<longleftrightarrow>
    list_all2 (\<lambda>b p. length p \<le> thr \<and> eval p 0 = b) key ps \<and> length shares \<le> 254 \<and>
    (\<forall>i<length shares. shares ! i = Some (map (\<lambda>p. eval p (word_of_nat i + 1)) ps))"

lemma eval_singleton: "eval [b] x = b"
  by (simp add: eval_fold mul_def)

lemma shamirSplit_shares:
  assumes sp: "shamirSplit key tot thr r = Some (Inr (shares, r'))" and ne: "key \<noteq> []"
  obtains ps where "1 \<le> thr" "thr \<le> tot" "length shares = nat tot" "shares_of (nat thr) key ps shares"
proof -
  from sp have v: "1 \<le> thr" "thr \<le> tot" "tot \<le> 254"
    by (auto simp: shamirSplit_def isValidShamirSplit_def split: if_splits)
  show thesis
  proof (cases "thr = 1")
    case True
    with sp v have sh: "shares = replicate (nat tot) (Some key)"
      by (auto simp: shamirSplit_def isValidShamirSplit_def)
    have "shares_of (nat thr) key (map (\<lambda>b. [b]) key) shares"
      using v True by (simp add: shares_of_def sh list_all2_map2 list_all2_same eval_singleton o_def)
    with sh v show thesis by (intro that) auto
  next
    case False
    with sp v obtain m where m: "SplitUsingReader (word_of_int tot) (word_of_int thr) key r = Some (Inr (m, r'))"
      and sh: "shares = map (\<lambda>i. m (word_of_nat i + 1)) [0..<nat tot]"
      by (auto simp: shamirSplit_def isValidShamirSplit_def split: option.splits sum.splits)
    from m [unfolded SplitUsingReader_def] obtain ps where ps: "list_all2 (poly_for (word_of_int thr)) key ps"
      and val: "\<And>y v. m y = Some v \<longleftrightarrow>
        1 \<le> y \<and> y \<le> word_of_int tot \<and> key \<noteq> [] \<and> v = map (\<lambda>p. eval p y) ps"
      by (rule split_shares) blast
    have u: "unat (word_of_int thr :: byte) = nat thr" "unat (word_of_int tot :: byte) = nat tot"
      using v by (simp_all add: unat_eq_nat_uint uint_word_of_int_eq take_bit_int_eq_self)
    have "m (word_of_nat i + 1) = Some (map (\<lambda>p. eval p (word_of_nat i + 1)) ps)" if "i < nat tot" for i
      using that v slot_index [of i] u ne by (simp add: val word_le_nat_alt)
    then have "shares_of (nat thr) key ps shares"
      using ps v by (auto simp: shares_of_def sh poly_for_def u elim: list_all2_mono)
    with v sh show thesis by (intro that) auto
  qed
qed

lemma shamirSplit_returns: "shamirSplit key tot thr r \<noteq> None"
proof
  assume n: "shamirSplit key tot thr r = None"
  then have v: "1 < thr" "thr \<le> tot" "tot \<le> 254"
    and s: "SplitUsingReader (word_of_int tot) (word_of_int thr) key r = None"
    by (auto simp: shamirSplit_def isValidShamirSplit_def split: if_splits option.splits sum.splits)
  have u: "unat (word_of_int tot :: byte) = nat tot"
    using v by (simp add: unat_eq_nat_uint uint_word_of_int_eq take_bit_int_eq_self)
  then have "(word_of_int tot :: byte) < 255" using v by (simp add: word_less_nat_alt)
  then have "split_loop (word_of_int tot) k secret rd m \<noteq> None" for k secret rd m
    by (induction secret arbitrary: rd m) (auto split: sum.splits simp: share_loop_correct)
  then have "split_loop (word_of_int tot) (word_of_int thr) key r (\<lambda>x. None) \<noteq> None" .
  with s show False by (simp add: SplitUsingReader_def split_def split: if_splits)
qed

lemma shamirCombine_slots:
  assumes sh: "shares_of thr key ps shares" and ne: "0 < thr" "key \<noteq> []" and ord: "valid_orders ord"
    and sl: "list_all2 (\<lambda>slot share. slot = None \<or> slot = share) slots shares"
    and thr: "thr \<le> length (filter (\<lambda>s. s \<noteq> None) slots)"
  shows "shamirCombine ord slots = Some key"
proof (cases "length slots = 1")
  case True
  then obtain s where s: "slots = [s]" by (cases slots) auto
  then have "s \<noteq> None" "thr = 1" using thr ne by (auto split: if_splits)
  moreover have "length shares = 1" using sl True by (simp add: list_all2_lengthD [symmetric])
  ultimately have "s = Some (map (\<lambda>p. eval p 1) ps)"
    using sh sl s by (auto simp: shares_of_def list_all2_conv_all_nth)
  moreover have "map (\<lambda>p. eval p 1) ps = key"
  proof -
    have l: "list_all2 (\<lambda>b p. length p \<le> 1 \<and> eval p 0 = b) key ps"
      using sh \<open>thr = 1\<close> by (simp add: shares_of_def)
    have "eval p 1 = eval p 0" if "length p \<le> 1" for p
      using that by (cases p) (auto simp: eval_singleton eval_fold)
    then have "list_all2 (\<lambda>b p. eval p 1 = b) key ps"
      using l by (auto elim: list_all2_mono)
    then show ?thesis by (auto simp: list_all2_conv_all_nth intro: nth_equalityI)
  qed
  ultimately show ?thesis using s by (simp add: shamirCombine_def nil_bytes_def)
next
  case False
  have len: "length slots = length shares" using sl by (rule list_all2_lengthD)
  have card: "card (dom (slot_map slots)) = length (filter (\<lambda>s. s \<noteq> None) slots)"
    using sh len by (intro card_slot_map) (simp add: shares_of_def)
  have "combine (ord (slot_map slots)) = Some key"
  proof (rule combine_recovers)
    show "iteration_of (slot_map slots) (ord (slot_map slots) j)" for j
      using ord by (simp add: valid_orders_def)
    show "slot_map slots \<noteq> Map.empty" using card thr ne by auto
    show "v = map (\<lambda>p. eval p y) ps" if "slot_map slots y = Some v" for y v
      using that sl sh len by (elim slot_map_SomeE) (auto simp: list_all2_conv_all_nth shares_of_def)
    show "list_all2 (\<lambda>b p. length p \<le> card (dom (slot_map slots)) \<and> eval p 0 = b) key ps"
      using sh thr card by (auto simp: shares_of_def elim!: list_all2_mono)
  qed
  with False show ?thesis by (simp add: shamirCombine_def)
qed

section \<open>The collection of shares\<close>

text \<open>\<open>ys\<close> says of every entry whether it is available and what its slot becomes.\<close>

lemma collect_avail:
  assumes "list_all2 (\<lambda>x (a, s). f x = Inr (if a then Some s else None)) xs ys" "c \<le> thr"
  shows "\<exists>slots. collect thr f xs c = Inr (min thr (c + int (length (filter fst ys))), slots)
    \<and> list_all2 (\<lambda>slot (a, s). slot = None \<or> slot = s) slots ys
    \<and> ((\<forall>(a, s)\<in>set ys. s \<noteq> None) \<longrightarrow>
        int (length (filter (\<lambda>s. s \<noteq> None) slots)) = min thr (c + int (length (filter fst ys))) - c)"
  using assms
proof (induction xs ys arbitrary: c rule: list_all2_induct)
  case Nil
  then show ?case by simp
next
  case (Cons x xs y ys)
  obtain a s where y: "y = (a, s)" by (cases y)
  show ?case
  proof (cases "c < thr")
    case False
    have "list_all2 (\<lambda>slot (a, s). slot = None \<or> slot = s) (map (\<lambda>_. None) (x # xs)) (y # ys)"
      using Cons.hyps(2) by (auto simp: list_all2_conv_all_nth nth_Cons' split: prod.splits)
    moreover have "filter (\<lambda>s. s \<noteq> None) (map (\<lambda>_. None) (x # xs)) = []" by (simp add: filter_empty_conv)
    ultimately show ?thesis using False Cons.prems by auto
  next
    case lt: True
    show ?thesis
    proof (cases a)
      case True
      then show ?thesis using Cons.IH [of "c + 1"] Cons.hyps lt y
        by (auto simp: algebra_simps)
    next
      case False
      then show ?thesis using Cons.IH [of c] Cons.hyps lt y by auto
    qed
  qed
qed

text \<open>
  What the division and the reassembly of a key ask of a threshold sharing scheme: the shares
  of a key, one per slot, and that any \<open>thr\<close> of them in their slots give the key back.
\<close>

locale threshold_sharing =
  fixes share :: "bytes \<Rightarrow> int \<Rightarrow> int \<Rightarrow> 'r \<Rightarrow> ('e + bytes option list \<times> 'r) option"
    and join :: "'o \<Rightarrow> bytes option list \<Rightarrow> bytes option"
    and orders :: "'o \<Rightarrow> bool"
  assumes share_slots: "share key tot thr r = Some (Inr (shares, r')) \<Longrightarrow> key \<noteq> [] \<Longrightarrow>
      1 \<le> thr \<and> thr \<le> tot \<and> length shares = nat tot \<and> None \<notin> set shares"
    and join_slots: "share key tot thr r = Some (Inr (shares, r')) \<Longrightarrow> key \<noteq> [] \<Longrightarrow> orders ord \<Longrightarrow>
      list_all2 (\<lambda>slot share. slot = None \<or> slot = share) slots shares \<Longrightarrow>
      nat thr \<le> length (filter (\<lambda>s. s \<noteq> None) slots) \<Longrightarrow> join ord slots = Some key"
begin

lemma collect_join:
  assumes sp: "share key tot thr r = Some (Inr (shares, r'))" and ne: "key \<noteq> []"
    and ord: "orders ord" and len: "length es = nat tot"
    and f: "\<And>i. i < nat tot \<Longrightarrow> f (es ! i)
      = Inr (if avail i then Some (if unboxKey then shares ! i else None) else None)"
  shows "\<exists>slots. collect thr f es 0
      = Inr (min thr (int (length (filter avail [0..<nat tot]))), slots)
    \<and> (unboxKey \<and> thr \<le> int (length (filter avail [0..<nat tot])) \<longrightarrow> join ord slots = Some key)"
proof -
  let ?n = "int (length (filter avail [0..<nat tot]))"
  let ?ys = "map (\<lambda>i. (avail i, if unboxKey then shares ! i else None)) [0..<nat tot]"
  note sh = share_slots [OF sp ne]
  have cnt: "int (length (filter fst ?ys)) = ?n" by (simp add: filter_map o_def)
  have "list_all2 (\<lambda>x (a, s). f x = Inr (if a then Some s else None)) es ?ys"
    using len f by (auto simp: list_all2_conv_all_nth)
  from collect_avail [OF this, of 0 thr] sh obtain slots where
    c: "collect thr f es 0 = Inr (min thr (0 + int (length (filter fst ?ys))), slots)"
      "list_all2 (\<lambda>slot (a, s). slot = None \<or> slot = s) slots ?ys"
      "(\<forall>(a, s)\<in>set ?ys. s \<noteq> None) \<longrightarrow> int (length (filter (\<lambda>s. s \<noteq> None) slots))
        = min thr (0 + int (length (filter fst ?ys))) - 0" by auto
  have "join ord slots = Some key" if u: unboxKey and t: "thr \<le> ?n"
  proof (rule join_slots [OF sp ne ord])
    show "list_all2 (\<lambda>slot share. slot = None \<or> slot = share) slots shares"
      using c(2) sh u by (auto simp: list_all2_conv_all_nth)
    have "shares ! i \<noteq> None" if "i < nat tot" for i
      using sh that by (metis nth_mem)
    then have "\<forall>(a, s)\<in>set ?ys. s \<noteq> None" using u by auto
    with c(3) show "nat thr \<le> length (filter (\<lambda>s. s \<noteq> None) slots)" using t cnt by auto
  qed
  with c(1) show ?thesis unfolding cnt by auto
qed

end

interpretation sharing: threshold_sharing shamirSplit shamirCombine valid_orders
proof
  fix key tot thr r shares r' ord slots
  assume sp: "shamirSplit key tot thr r = Some (Inr (shares, r'))" and ne: "key \<noteq> []"
  then obtain ps where ps: "1 \<le> thr" "thr \<le> tot" "length shares = nat tot" "shares_of (nat thr) key ps shares"
    by (rule shamirSplit_shares)
  then show "1 \<le> thr \<and> thr \<le> tot \<and> length shares = nat tot \<and> None \<notin> set shares"
    by (auto simp: shares_of_def in_set_conv_nth)
  assume "valid_orders ord" "list_all2 (\<lambda>slot share. slot = None \<or> slot = share) slots shares"
    "nat thr \<le> length (filter (\<lambda>s. s \<noteq> None) slots)"
  with ps ne show "shamirCombine ord slots = Some key"
    by (intro shamirCombine_slots) auto
qed

lemma collect_finish:
  assumes sp: "shamirSplit key tot thr r = Some (Inr (shares, r'))" and ne: "key \<noteq> []"
    and ord: "valid_orders ord" and len: "length es = nat tot"
    and f: "\<And>i. i < nat tot \<Longrightarrow> f (es ! i)
      = Inr (if avail i then Some (if unboxKey then shares ! i else None) else None)"
  shows "ebind (collect thr f es 0) (finish_reassembly ord unboxKey thr) =
    (let ok = (thr \<le> int (length (filter avail [0..<nat tot])))
     in Inr (ok, if ok \<and> unboxKey then key else []))"
  using sharing.collect_join [OF sp ne ord len f]
  by (auto simp: finish_reassembly_def Let_def)

section \<open>When a key can be reassembled\<close>

text \<open>
  The specification the key shares implement: at the lowest level a period is seeded when
  enough of the SLOKs of its seed specs are known, and a level of key splits is seeded when
  enough of its \<open>Total\<close> consecutive parts are.
\<close>

definition slok_seeded :: "(bytes \<Rightarrow> bytes \<Rightarrow> bytes) \<Rightarrow> osl_scheme \<Rightarrow> string \<Rightarrow> (bytes \<Rightarrow> bytes option)
    \<Rightarrow> int \<Rightarrow> bytes \<Rightarrow> bool" where
  "slok_seeded hmac scheme channel lookup t specID \<longleftrightarrow>
    lookup (slok_ID (spec_slok hmac scheme channel specID t)) \<noteq> None"

fun level_duration :: "int \<Rightarrow> key_split list \<Rightarrow> int" where
  "level_duration period [] = period"
| "level_duration period (keySplit # lower) = Total keySplit * level_duration period lower"

fun level_seeded :: "(int \<Rightarrow> bytes \<Rightarrow> bool) \<Rightarrow> osl_scheme \<Rightarrow> key_split list \<Rightarrow> int \<Rightarrow> bool" where
  "level_seeded seeded scheme [] t \<longleftrightarrow>
    SeedSpecThreshold scheme \<le> int (length (filter (seeded t) (SeedSpecIDs scheme)))"
| "level_seeded seeded scheme (keySplit # lower) t \<longleftrightarrow>
    Threshold keySplit \<le> int (length (filter
      (\<lambda>i. level_seeded seeded scheme lower
        (t + int i * level_duration (SeedPeriodNanoseconds scheme) lower))
      [0..<nat (Total keySplit)]))"

text \<open>The SLOKs that a client knows are those the server derives.\<close>

definition genuine_lookup :: "(bytes \<Rightarrow> bytes \<Rightarrow> bytes) \<Rightarrow> osl_scheme \<Rightarrow> string
    \<Rightarrow> (bytes \<Rightarrow> bytes option) \<Rightarrow> bool" where
  "genuine_lookup hmac scheme channel lookup \<longleftrightarrow> (\<forall>specID t k. specID \<in> set (SeedSpecIDs scheme) \<longrightarrow>
    lookup (slok_ID (spec_slok hmac scheme channel specID t)) = Some k \<longrightarrow>
    k = slok_Key (spec_slok hmac scheme channel specID t))"

definition unseals :: "(bytes \<Rightarrow> bytes \<Rightarrow> bytes) \<Rightarrow> (bytes \<Rightarrow> bytes \<Rightarrow> bytes option) \<Rightarrow> bool" where
  "unseals seal unseal \<longleftrightarrow> (\<forall>k p. length k = KEY_LENGTH_BYTES \<longrightarrow> unseal k (seal k p) = Some p)"

lemma foldl_times: "foldl (\<lambda>n ks. n * f ks) (a :: int) xs = a * foldl (\<lambda>n ks. n * f ks) 1 xs"
proof (induction xs arbitrary: a)
  case (Cons x xs)
  show ?case using Cons.IH [of "a * f x"] Cons.IH [of "f x"] by simp
qed simp

lemma level_duration_append:
  "level_duration p (xs @ [x]) = level_duration (Total x * p) xs"
  by (induction xs) simp_all

lemma level_duration_scale: "level_duration (a * p) xs = a * level_duration p xs"
  by (induction xs) simp_all

lemma GetOSLDuration_levels:
  "level_duration (SeedPeriodNanoseconds scheme) (rev (SeedPeriodKeySplits scheme)) = GetOSLDuration scheme"
proof -
  have "level_duration p (rev xs) = foldl (\<lambda>n ks. n * Total ks) 1 xs * p" for p xs
  proof (induction xs arbitrary: p)
    case (Cons x xs)
    then show ?case
      by (simp add: level_duration_append foldl_times [of Total "Total x"] algebra_simps)
  qed simp
  then show ?thesis by (simp add: GetOSLDuration_def)
qed

section \<open>Reassembling what was divided\<close>

lemma length_filter_nth:
  "length (filter (\<lambda>i. P (xs ! i)) [0..<length xs]) = length (filter P xs)"
proof -
  have "filter P (map ((!) xs) [0..<length xs]) = filter P xs" by simp
  then show ?thesis by (metis (no_types, lifting) filter_map length_map comp_def filter_cong)
qed

lemma spec_loop_boxes:
  assumes "spec_loop hmac seal scheme channel t specs shares = Inr (bs, ids)"
  shows "length bs = length specs \<and> length ids = length specs \<and> (\<forall>i<length specs.
    let slok = spec_slok hmac scheme channel (specs ! i) t
    in length (slok_Key slok) = KEY_LENGTH_BYTES \<and> ids ! i = slok_ID slok
      \<and> bs ! i = seal (slok_Key slok) (nil_bytes (shares ! i)))"
  using assms
proof (induction specs arbitrary: shares bs ids)
  case Nil
  then show ?case by simp
next
  case (Cons specID specs)
  then obtain share shares' where sh: "shares = share # shares'" by (cases shares) auto
  with Cons.prems obtain bs' ids' where
    b: "length (slok_Key (spec_slok hmac scheme channel specID t)) = KEY_LENGTH_BYTES"
      "spec_loop hmac seal scheme channel t specs shares' = Inr (bs', ids')"
      "bs = seal (slok_Key (spec_slok hmac scheme channel specID t)) (nil_bytes share) # bs'"
      "ids = slok_ID (spec_slok hmac scheme channel specID t) # ids'"
    by (auto simp: Let_def box_def split: if_splits)
  from Cons.IH [OF b(2)] b sh show ?case
    by (auto simp: Let_def nth_Cons' split: nat.splits)
qed

lemma open_share_seal:
  assumes "unseals seal unseal" "length k = KEY_LENGTH_BYTES" "share \<noteq> None"
  shows "open_share unseal unboxKey k (seal k (nil_bytes share))
    = Inr (Some (if unboxKey then share else None))"
  using assms by (cases share) (auto simp: open_share_def unbox_def unseals_def nil_bytes_def)

lemma reassemble_sloks:
  assumes dv: "divideKeyWithSeedSpecSLOKs hmac seal scheme channel key r t = Some (Inr (ks, r'))"
    and ne: "key \<noteq> []" and ord: "valid_orders ord" and us: "unseals seal unseal"
    and lk: "genuine_lookup hmac scheme channel lookup"
  shows "reassembleKey unseal ord lookup unboxKey ks =
    (let ok = level_seeded (slok_seeded hmac scheme channel lookup) scheme [] t
     in Inr (ok, if ok \<and> unboxKey then key else []))"
proof -
  let ?n = "int (length (SeedSpecIDs scheme))"
  from dv obtain shares bs ids where
    sp: "shamirSplit key ?n (SeedSpecThreshold scheme) r = Some (Inr (shares, r'))"
    and sl: "spec_loop hmac seal scheme channel t (SeedSpecIDs scheme) shares = Inr (bs, ids)"
    and ks: "ks = KeyShares (SeedSpecThreshold scheme) bs ids []"
    by (auto simp: divideKeyWithSeedSpecSLOKs_def)
  note sh = sharing.share_slots [OF sp ne]
  note boxes = spec_loop_boxes [OF sl]
  let ?f = "\<lambda>(slokID, b). case lookup slokID of None \<Rightarrow> Inr None
           | Some slokKey \<Rightarrow> open_share unseal unboxKey slokKey b"
  let ?avail = "\<lambda>i. slok_seeded hmac scheme channel lookup t (SeedSpecIDs scheme ! i)"
  have f: "?f (zip ids bs ! i) = Inr (if ?avail i then Some (if unboxKey then shares ! i else None) else None)"
    if i: "i < nat ?n" for i
  proof (cases "lookup (slok_ID (spec_slok hmac scheme channel (SeedSpecIDs scheme ! i) t))")
    case None
    then show ?thesis using i boxes by (simp add: slok_seeded_def Let_def)
  next
    case (Some k)
    moreover have "shares ! i \<noteq> None" using sh i by (metis nth_mem)
    ultimately show ?thesis
      using i boxes lk open_share_seal [OF us] nth_mem [of i "SeedSpecIDs scheme"]
      by (auto simp: slok_seeded_def Let_def genuine_lookup_def)
  qed
  have "ebind (collect (SeedSpecThreshold scheme) ?f (zip ids bs) 0)
      (finish_reassembly ord unboxKey (SeedSpecThreshold scheme)) =
    (let ok = (SeedSpecThreshold scheme \<le> int (length (filter ?avail [0..<nat ?n])))
     in Inr (ok, if ok \<and> unboxKey then key else []))"
    by (rule collect_finish [OF sp ne ord _ f]) (use boxes in simp_all)
  moreover have "ids \<noteq> []" "length ids = length bs" using boxes sh by auto
  ultimately show ?thesis by (simp add: ks length_filter_nth)
qed

lemma key_loop_children:
  assumes "key_loop seal child shares r t = Some (Inr (bs, kss, r', t'))"
    and child: "\<And>k r t ks r' t'. child k r t = Some (Inr (ks, r', t')) \<Longrightarrow> length k = KEY_LENGTH_BYTES
      \<Longrightarrow> t' = t + d \<and> R k t ks"
  shows "t' = t + int (length shares) * d \<and> length bs = length shares \<and> length kss = length shares
    \<and> (\<forall>i<length shares. \<exists>k. length k = KEY_LENGTH_BYTES \<and> bs ! i = seal k (nil_bytes (shares ! i))
        \<and> R k (t + int i * d) (kss ! i))"
  using assms(1)
proof (induction shares arbitrary: r t bs kss)
  case Nil
  then show ?case by simp
next
  case (Cons share shares)
  let ?k = "take KEY_LENGTH_BYTES r"
  from Cons.prems obtain ks r1 t1 bs' kss' where
    len: "length ?k = KEY_LENGTH_BYTES"
    and c: "child ?k (drop KEY_LENGTH_BYTES r) t = Some (Inr (ks, r1, t1))"
    and l: "key_loop seal child shares r1 t1 = Some (Inr (bs', kss', r', t'))"
    and b: "bs = seal ?k (nil_bytes share) # bs'" "kss = ks # kss'"
    by (auto simp: Let_def box_def split: if_splits)
  from child [OF c len] have t1: "t1 = t + d" and R: "R ?k t ks" by auto
  note IH = Cons.IH [OF l]
  have "\<exists>k. length k = KEY_LENGTH_BYTES \<and> bs ! i = seal k (nil_bytes ((share # shares) ! i))
      \<and> R k (t + int i * d) (kss ! i)" if "i < length (share # shares)" for i
  proof (cases i)
    case 0
    with len R b show ?thesis by (intro exI [of _ ?k]) simp
  next
    case (Suc j)
    then show ?thesis using IH that b t1 by (auto simp: algebra_simps)
  qed
  with IH b t1 show ?case by (auto simp: algebra_simps)
qed

lemma divide_levels_reassemble:
  assumes "divide_levels hmac seal scheme channel levels key r t = Some (Inr (ks, r', t'))"
    and "length key = KEY_LENGTH_BYTES" and ord: "valid_orders ord" and us: "unseals seal unseal"
    and lk: "genuine_lookup hmac scheme channel lookup"
  shows "t' = t + level_duration (SeedPeriodNanoseconds scheme) levels \<and>
    reassembleKey unseal ord lookup unboxKey ks =
    (let ok = level_seeded (slok_seeded hmac scheme channel lookup) scheme levels t
     in Inr (ok, if ok \<and> unboxKey then key else []))"
  using assms(1,2)
proof (induction levels arbitrary: key r t ks r' t')
  case Nil
  then show ?case by simp
next
  case (Cons keySplit lower)
  let ?S = "level_seeded (slok_seeded hmac scheme channel lookup) scheme"
  let ?d = "level_duration (SeedPeriodNanoseconds scheme) lower"
  let ?tot = "Total keySplit" and ?thr = "Threshold keySplit"
  let ?child = "if lower \<noteq> [] then divide_levels hmac seal scheme channel lower
           else (\<lambda>shareKey r t.
             pbind (divideKeyWithSeedSpecSLOKs hmac seal scheme channel shareKey r t)
               (\<lambda>(keyShare, r). Some (Inr (keyShare, r, t + SeedPeriodNanoseconds scheme))))"
  let ?R = "\<lambda>k t ks. reassembleKey unseal ord lookup unboxKey ks
    = Inr (?S lower t, if ?S lower t \<and> unboxKey then k else [])"
  have ne: "key \<noteq> []" using Cons.prems(2) by (auto simp: KEY_LENGTH_BYTES_def)
  from Cons.prems(1) obtain shares r1 bs kss where
    sp: "shamirSplit key ?tot ?thr r = Some (Inr (shares, r1))"
    and kl: "key_loop seal ?child shares r1 t = Some (Inr (bs, kss, r', t'))"
    and ks: "ks = KeyShares ?thr bs [] kss"
    by auto
  note sh = sharing.share_slots [OF sp ne]
  have child: "t' = t + ?d \<and> ?R k t ks"
    if c: "?child k r t = Some (Inr (ks, r', t'))" and len: "length k = KEY_LENGTH_BYTES" for k r t ks r' t'
  proof (cases "lower = []")
    case False
    then show ?thesis using Cons.IH c len by (simp add: Let_def)
  next
    case True
    have "k \<noteq> []" using len by (auto simp: KEY_LENGTH_BYTES_def)
    moreover from True c have "divideKeyWithSeedSpecSLOKs hmac seal scheme channel k r t = Some (Inr (ks, r'))"
      "t' = t + SeedPeriodNanoseconds scheme" by auto
    ultimately show ?thesis
      using reassemble_sloks [OF _ _ ord us lk] True by (simp add: Let_def)
  qed
  have ch: "t' = t + int (length shares) * ?d \<and> length bs = length shares \<and> length kss = length shares
    \<and> (\<forall>i<length shares. \<exists>k. length k = KEY_LENGTH_BYTES \<and> bs ! i = seal k (nil_bytes (shares ! i))
        \<and> ?R k (t + int i * ?d) (kss ! i))"
    by (rule key_loop_children [where R = ?R, OF kl]) (rule child)
  let ?f = "\<lambda>(child, b). ebind (reassembleKey unseal ord lookup unboxKey child) (\<lambda>(ok, key).
             if \<not> ok then Inr None else open_share unseal unboxKey key b)"
  let ?avail = "\<lambda>i. ?S lower (t + int i * ?d)"
  have f: "?f (zip kss bs ! i) = Inr (if ?avail i then Some (if unboxKey then shares ! i else None) else None)"
    if i: "i < nat ?tot" for i
  proof -
    obtain k where k: "length k = KEY_LENGTH_BYTES" "bs ! i = seal k (nil_bytes (shares ! i))"
      "?R k (t + int i * ?d) (kss ! i)" using ch sh i by auto
    have "shares ! i \<noteq> None" using sh i by (metis nth_mem)
    then have "open_share unseal unboxKey (if unboxKey then k else []) (bs ! i)
        = Inr (Some (if unboxKey then shares ! i else None))"
      using open_share_seal [OF us k(1), of "shares ! i" unboxKey] k(2)
      by (cases unboxKey) (simp_all add: open_share_def)
    moreover have "zip kss bs ! i = (kss ! i, bs ! i)" using ch sh i by simp
    ultimately show ?thesis using k(3) by simp
  qed
  have "ebind (collect ?thr ?f (zip kss bs) 0) (finish_reassembly ord unboxKey ?thr) =
    (let ok = (?thr \<le> int (length (filter ?avail [0..<nat ?tot])))
     in Inr (ok, if ok \<and> unboxKey then key else []))"
    by (rule collect_finish [OF sp ne ord _ f]) (use ch sh in simp_all)
  moreover have "kss \<noteq> []" "length kss = length bs" using ch sh by auto
  ultimately show ?case using ch sh by (simp add: ks)
qed

lemma key_loop_returns:
  assumes "\<And>k r t. child k r t \<noteq> None"
  shows "key_loop seal child shares r t \<noteq> None"
  by (induction shares arbitrary: r t)
    (auto simp: Let_def pbind_None_conv assms iff del: not_None_eq)

lemma divideKeyWithSeedSpecSLOKs_returns:
  "divideKeyWithSeedSpecSLOKs hmac seal scheme channel key r t \<noteq> None"
  by (auto simp: divideKeyWithSeedSpecSLOKs_def pbind_None_conv shamirSplit_returns
      iff del: not_None_eq)

lemma divide_levels_returns: "divide_levels hmac seal scheme channel levels key r t \<noteq> None"
proof (induction levels arbitrary: key r t)
  case Nil
  then show ?case by simp
next
  case (Cons keySplit lower)
  have "key_loop seal (if lower \<noteq> [] then divide_levels hmac seal scheme channel lower
       else (\<lambda>shareKey r t.
         pbind (divideKeyWithSeedSpecSLOKs hmac seal scheme channel shareKey r t)
           (\<lambda>(keyShare, r). Some (Inr (keyShare, r, t + SeedPeriodNanoseconds scheme)))))
     shares r t \<noteq> None" for shares r t
    by (rule key_loop_returns)
      (auto simp: pbind_None_conv divideKeyWithSeedSpecSLOKs_returns Cons.IH iff del: not_None_eq)
  then show ?case
    by (auto simp: pbind_None_conv shamirSplit_returns iff del: not_None_eq)
qed

section \<open>Dividing succeeds\<close>

text \<open>How many bytes of key material a division reads, when none of them is zero.\<close>

definition split_need :: "int \<Rightarrow> nat" where
  "split_need thr = KEY_LENGTH_BYTES * (nat thr - 1)"

fun level_need :: "osl_scheme \<Rightarrow> key_split list \<Rightarrow> nat" where
  "level_need scheme [] = split_need (SeedSpecThreshold scheme)"
| "level_need scheme (keySplit # lower) = split_need (Threshold keySplit)
    + nat (Total keySplit) * (KEY_LENGTH_BYTES + level_need scheme lower)"

lemma shamirSplit_succeeds:
  assumes v: "isValidShamirSplit tot thr" and r: "0 \<notin> set r"
    and len: "length key = KEY_LENGTH_BYTES" "split_need thr \<le> length r"
  shows "\<exists>shares. shamirSplit key tot thr r = Some (Inr (shares, drop (split_need thr) r))
    \<and> length shares = nat tot"
proof (cases "thr = 1")
  case True
  with v show ?thesis by (simp add: shamirSplit_def split_need_def)
next
  case False
  let ?k = "word_of_int thr :: byte" and ?n = "word_of_int tot :: byte"
  from v have b: "1 \<le> thr" "thr \<le> tot" "tot \<le> 254" by (auto simp: isValidShamirSplit_def)
  have u: "unat ?k = nat thr" "unat ?n = nat tot"
    using b by (simp_all add: unat_eq_nat_uint uint_word_of_int_eq take_bit_int_eq_self)
  have k: "1 < ?k" "\<not> ?k \<le> 1" "\<not> ?n < ?k" "?n < 255"
    using b False u by (auto simp: word_less_nat_alt word_le_nat_alt)
  have "\<exists>m. split_loop ?n ?k key r Map.empty = Some (Inr (m, drop (length key * (unat ?k - 1)) r))"
    by (rule split_loop_succeeds) (use k r len u in \<open>simp_all add: split_need_def\<close>)
  then obtain m where "split_loop ?n ?k key r Map.empty = Some (Inr (m, drop (split_need thr) r))"
    using u len by (auto simp: split_need_def)
  with v False k show ?thesis
    by (simp add: shamirSplit_def SplitUsingReader_def split_def)
qed

lemma spec_loop_succeeds:
  assumes "\<And>specID. length (slok_Key (spec_slok hmac scheme channel specID t)) = KEY_LENGTH_BYTES"
    and "length specs \<le> length shares"
  shows "\<exists>bs ids. spec_loop hmac seal scheme channel t specs shares = Inr (bs, ids)"
  using assms(2)
proof (induction specs arbitrary: shares)
  case Nil
  then show ?case by simp
next
  case (Cons specID specs)
  then obtain share shares' where sh: "shares = share # shares'" by (cases shares) auto
  with Cons obtain bs ids where "spec_loop hmac seal scheme channel t specs shares' = Inr (bs, ids)"
    by fastforce
  then show ?case using sh assms(1) [of specID] by (simp add: Let_def box_def)
qed

lemma key_loop_succeeds:
  assumes child: "\<And>k r t. 0 \<notin> set r \<Longrightarrow> n \<le> length r \<Longrightarrow> length k = KEY_LENGTH_BYTES \<Longrightarrow>
      \<exists>ks t'. child k r t = Some (Inr (ks, drop n r, t'))"
    and "0 \<notin> set r" "length shares * (KEY_LENGTH_BYTES + n) \<le> length r"
  shows "\<exists>bs kss t'. key_loop seal child shares r t
    = Some (Inr (bs, kss, drop (length shares * (KEY_LENGTH_BYTES + n)) r, t'))"
  using assms(2,3)
proof (induction shares arbitrary: r t)
  case Nil
  then show ?case by simp
next
  case (Cons share shares)
  let ?L = KEY_LENGTH_BYTES
  have len: "?L + n + length shares * (?L + n) \<le> length r" using Cons.prems(2) by simp
  have nz: "0 \<notin> set (drop m r)" for m using Cons.prems(1) by (auto dest: in_set_dropD)
  have "length (take ?L r) = ?L" "n \<le> length (drop ?L r)" using len by auto
  then obtain ks t1 where c: "child (take ?L r) (drop ?L r) t = Some (Inr (ks, drop n (drop ?L r), t1))"
    using child nz by blast
  have "0 \<notin> set (drop (?L + n) r)" "length shares * (?L + n) \<le> length (drop (?L + n) r)"
    using nz len by auto
  then obtain bs kss t' where "key_loop seal child shares (drop (?L + n) r) t1
      = Some (Inr (bs, kss, drop (length shares * (?L + n)) (drop (?L + n) r), t'))"
    using Cons.IH by blast
  then show ?case using c len by (simp add: Let_def box_def add.commute add.left_commute)
qed

text \<open>The parameters \<open>LoadConfig\<close> accepts for the key splits of a scheme.\<close>

definition valid_splits :: "osl_scheme \<Rightarrow> bool" where
  "valid_splits scheme \<longleftrightarrow>
    isValidShamirSplit (int (length (SeedSpecIDs scheme))) (SeedSpecThreshold scheme) \<and>
    SeedPeriodKeySplits scheme \<noteq> [] \<and>
    (\<forall>ks\<in>set (SeedPeriodKeySplits scheme). isValidShamirSplit (Total ks) (Threshold ks))"

lemma seed_specs_succeed:
  assumes v: "isValidShamirSplit (int (length (SeedSpecIDs scheme))) (SeedSpecThreshold scheme)"
    and hm: "\<And>k m. length (hmac k m) = KEY_LENGTH_BYTES"
    and r: "0 \<notin> set r" "level_need scheme [] \<le> length r" and len: "length key = KEY_LENGTH_BYTES"
  shows "\<exists>ks. divideKeyWithSeedSpecSLOKs hmac seal scheme channel key r t
    = Some (Inr (ks, drop (level_need scheme []) r))"
proof -
  from shamirSplit_succeeds [OF v r(1) len] r(2) obtain shares where
    sp: "shamirSplit key (int (length (SeedSpecIDs scheme))) (SeedSpecThreshold scheme) r
      = Some (Inr (shares, drop (level_need scheme []) r))"
    and l: "length shares = length (SeedSpecIDs scheme)" by auto
  have "length (slok_Key (spec_slok hmac scheme channel specID t)) = KEY_LENGTH_BYTES" for specID
    by (simp add: spec_slok_def deriveSLOK_def Let_def deriveKeyHKDF_def hm)
  with l obtain bs ids where "spec_loop hmac seal scheme channel t (SeedSpecIDs scheme) shares = Inr (bs, ids)"
    using spec_loop_succeeds [of hmac scheme channel t "SeedSpecIDs scheme" shares seal] by auto
  with sp show ?thesis by (simp add: divideKeyWithSeedSpecSLOKs_def)
qed

lemma divide_levels_succeeds:
  assumes v: "isValidShamirSplit (int (length (SeedSpecIDs scheme))) (SeedSpecThreshold scheme)"
    and hm: "\<And>k m. length (hmac k m) = KEY_LENGTH_BYTES"
    and "levels \<noteq> []" "\<forall>ks\<in>set levels. isValidShamirSplit (Total ks) (Threshold ks)"
    and "0 \<notin> set r" "level_need scheme levels \<le> length r" "length key = KEY_LENGTH_BYTES"
  shows "\<exists>ks t'. divide_levels hmac seal scheme channel levels key r t
    = Some (Inr (ks, drop (level_need scheme levels) r, t'))"
  using assms(3-)
proof (induction levels arbitrary: key r t)
  case Nil
  then show ?case by simp
next
  case (Cons keySplit lower)
  let ?r = "drop (split_need (Threshold keySplit)) r"
  let ?n = "level_need scheme lower"
  let ?child = "if lower \<noteq> [] then divide_levels hmac seal scheme channel lower
           else (\<lambda>shareKey r t.
             pbind (divideKeyWithSeedSpecSLOKs hmac seal scheme channel shareKey r t)
               (\<lambda>(keyShare, r). Some (Inr (keyShare, r, t + SeedPeriodNanoseconds scheme))))"
  from shamirSplit_succeeds [of "Total keySplit" "Threshold keySplit" r key] Cons.prems
  obtain shares where sp: "shamirSplit key (Total keySplit) (Threshold keySplit) r = Some (Inr (shares, ?r))"
    and l: "length shares = nat (Total keySplit)" by auto
  have child: "\<exists>ks t'. ?child k r t = Some (Inr (ks, drop ?n r, t'))"
    if "0 \<notin> set r" "?n \<le> length r" "length k = KEY_LENGTH_BYTES" for k r t
  proof (cases "lower = []")
    case True
    then show ?thesis using that
        seed_specs_succeed [where hmac = hmac and seal = seal and channel = channel and t = t, OF v hm that(1) _ that(3)]
      by auto
  next
    case False
    then show ?thesis using Cons.IH [OF False _ that] Cons.prems by simp
  qed
  have "0 \<notin> set ?r" "length shares * (KEY_LENGTH_BYTES + ?n) \<le> length ?r"
    using Cons.prems l by (auto dest: in_set_dropD)
  then have "\<exists>bs kss t'. key_loop seal ?child shares ?r t
      = Some (Inr (bs, kss, drop (length shares * (KEY_LENGTH_BYTES + ?n)) ?r, t'))"
    by (intro key_loop_succeeds child)
  then obtain bs kss t' where "key_loop seal ?child shares ?r t
      = Some (Inr (bs, kss, drop (length shares * (KEY_LENGTH_BYTES + ?n)) ?r, t'))"
    by blast
  with sp l show ?case by (simp add: add.commute)
qed

lemma divide_levels_time:
  assumes "divide_levels hmac seal scheme channel levels key r t = Some (Inr (ks, r', t'))"
    and "length key = KEY_LENGTH_BYTES"
  shows "t' = t + level_duration (SeedPeriodNanoseconds scheme) levels"
  using assms
proof (induction levels arbitrary: key r t ks r' t')
  case Nil
  then show ?case by simp
next
  case (Cons keySplit lower)
  let ?child = "if lower \<noteq> [] then divide_levels hmac seal scheme channel lower
           else (\<lambda>shareKey r t.
             pbind (divideKeyWithSeedSpecSLOKs hmac seal scheme channel shareKey r t)
               (\<lambda>(keyShare, r). Some (Inr (keyShare, r, t + SeedPeriodNanoseconds scheme))))"
  from Cons.prems(1) obtain shares r1 bs kss where
    sp: "shamirSplit key (Total keySplit) (Threshold keySplit) r = Some (Inr (shares, r1))"
    and kl: "key_loop seal ?child shares r1 t = Some (Inr (bs, kss, r', t'))"
    by auto
  have "key \<noteq> []" using Cons.prems(2) by (auto simp: KEY_LENGTH_BYTES_def)
  note sh = sharing.share_slots [OF sp this]
  have "t' = t + int (length shares) * level_duration (SeedPeriodNanoseconds scheme) lower"
    using key_loop_children [where R = "\<lambda>_ _ _. True", OF kl] Cons.IH by (fastforce split: if_splits)
  with sh show ?case by simp
qed

lemma makeOSLFileSpec_divided:
  assumes "makeOSLFileSpec hmac seal keystream scheme channel t = Some (Inr (fileKey, fileSpec))"
  shows "\<exists>r r' t' m. divideKey hmac seal scheme r fileKey (SeedPeriodKeySplits scheme) channel t
      = Some (Inr (fs_KeyShares fileSpec, r', t')) \<and> fileKey = hmac (MasterKey scheme) m"
proof -
  from assms obtain specID specs where "SeedSpecIDs scheme = specID # specs"
    by (auto simp: makeOSLFileSpec_def split: list.splits)
  with assms show ?thesis
    by (auto simp: makeOSLFileSpec_def Let_def deriveKeyHKDF_def split: if_splits) blast
qed

lemma file_spec_succeeds:
  assumes v: "valid_splits scheme" and hm: "\<And>k m. length (hmac k m) = KEY_LENGTH_BYTES"
    and ks: "\<And>seed. 0 \<notin> set (keystream seed)"
      "\<And>seed. level_need scheme (rev (SeedPeriodKeySplits scheme)) \<le> length (keystream seed)"
  shows "\<exists>fileKey fileSpec. makeOSLFileSpec hmac seal keystream scheme channel t = Some (Inr (fileKey, fileSpec))
    \<and> fs_ID fileSpec = slok_ID (spec_slok hmac scheme channel (hd (SeedSpecIDs scheme)) t)"
proof -
  have ne: "SeedSpecIDs scheme \<noteq> []" using v by (auto simp: valid_splits_def isValidShamirSplit_def)
  then obtain i "is" where i: "SeedSpecIDs scheme = i # is" by (cases "SeedSpecIDs scheme") auto
  have len: "length (deriveKeyHKDF hmac k c) = KEY_LENGTH_BYTES" for k c
    by (simp add: deriveKeyHKDF_def hm)
  have "\<exists>ksh r t'. divideKey hmac seal scheme (keystream seed) (deriveKeyHKDF hmac k c)
      (SeedPeriodKeySplits scheme) channel t = Some (Inr (ksh, r, t'))" for seed k c
    using divide_levels_succeeds [where hmac = hmac and seal = seal and channel = channel and t = t
        and levels = "rev (SeedPeriodKeySplits scheme)", OF _ hm _ _ ks len] v
    by (force simp: divideKey_def valid_splits_def)
  then obtain ksh r' t' where "divideKey hmac seal scheme
      (keystream (deriveKeyHKDF hmac (MasterKey scheme) [splitStructure scheme,
        ascii ''osl-file-split-key-material-seed'', slok_ID (spec_slok hmac scheme channel i t)]))
      (deriveKeyHKDF hmac (MasterKey scheme) [splitStructure scheme,
        ascii ''osl-file-key'', slok_ID (spec_slok hmac scheme channel i t)])
      (SeedPeriodKeySplits scheme) channel t = Some (Inr (ksh, r', t'))" by meson
  with i len show ?thesis by (simp add: makeOSLFileSpec_def Let_def)
qed

section \<open>An example scheme\<close>

definition example_spec :: "byte \<Rightarrow> seed_spec" where
  "example_spec b = \<lparr>spec_ID = [b], UpstreamSubnets = [], UpstreamASNs = [''64496''],
    Targets = \<lparr>BytesRead = 100, BytesWritten = 0, PortForwardDurationNanoseconds = 0\<rparr>,
    upstreamASNLookup = NewStringLookup [''64496'']\<rparr>"

definition example_scheme :: osl_scheme where
  "example_scheme = \<lparr>Epoch = [], PaveDataOSLCount = 1, Regions = [], PropagationChannelIDs = [''P''],
    MasterKey = [9], SeedSpecs = [example_spec 1, example_spec 2], SeedSpecThreshold = 2,
    SeedPeriodNanoseconds = 5, SeedPeriodKeySplits = [\<lparr>Total = 2, Threshold = 1\<rparr>, \<lparr>Total = 2, Threshold = 2\<rparr>],
    epoch = 0, subnetLookups = [[], []], derivedSLOKCache = Map.empty\<rparr>"

definition example_hmac :: "bytes \<Rightarrow> bytes \<Rightarrow> bytes" where
  "example_hmac k m = take KEY_LENGTH_BYTES (m @ replicate KEY_LENGTH_BYTES 0)"

lemma length_example_hmac: "length (example_hmac k m) = KEY_LENGTH_BYTES"
  by (simp add: example_hmac_def)

lemma orders_ascending: "valid_orders (\<lambda>m _. ascending m)"
  by (simp add: valid_orders_def iteration_of_ascending)

lemma example_hmac_prefix: "length m = KEY_LENGTH_BYTES \<Longrightarrow> example_hmac k (m @ xs) = m"
  by (simp add: example_hmac_def)

lemma example_lookup: "genuine_lookup example_hmac example_scheme channel Some"
  by (simp add: genuine_lookup_def spec_slok_def deriveSLOK_def Let_def deriveKeyHKDF_def
      example_hmac_prefix length_example_hmac)

lemma example_splits:
  "valid_splits example_scheme" "level_need example_scheme (rev (SeedPeriodKeySplits example_scheme)) = 352"
  by (simp_all add: valid_splits_def isValidShamirSplit_def example_scheme_def SeedSpecIDs_def split_need_def KEY_LENGTH_BYTES_def)

lemma example_file_spec:
  "\<exists>fileKey fileSpec. makeOSLFileSpec example_hmac (\<lambda>k p. p) (\<lambda>_. replicate 352 1) example_scheme [] 0
    = Some (Inr (fileKey, fileSpec))"
  using file_spec_succeeds [OF example_splits(1), where hmac = example_hmac and seal = "\<lambda>k p. p"
      and keystream = "\<lambda>_. replicate 352 1" and channel = "[]" and t = 0]
  by (auto simp: example_splits(2) length_example_hmac)

lemma example_unseals: "unseals (\<lambda>k p. p) (\<lambda>k b. Some b)"
  by (simp add: unseals_def)

section \<open>Properties\<close>

lemma length_filter_mono: "(\<And>x. x \<in> set xs \<Longrightarrow> P x \<Longrightarrow> Q x) \<Longrightarrow> length (filter P xs) \<le> length (filter Q xs)"
  by (induction xs) (auto simp: le_SucI)

lemma level_seeded_mono:
  assumes "level_seeded seeded scheme levels t"
    and "\<And>t specID. specID \<in> set (SeedSpecIDs scheme) \<Longrightarrow> seeded t specID \<Longrightarrow> seeded' t specID"
  shows "level_seeded seeded' scheme levels t"
  using assms(1)
proof (induction levels arbitrary: t)
  case Nil
  have "length (filter (seeded t) (SeedSpecIDs scheme)) \<le> length (filter (seeded' t) (SeedSpecIDs scheme))"
    by (rule length_filter_mono) (rule assms(2))
  then show ?case using Nil by simp
next
  case (Cons keySplit lower)
  let ?t = "\<lambda>i. t + int i * level_duration (SeedPeriodNanoseconds scheme) lower"
  have "length (filter (\<lambda>i. level_seeded seeded scheme lower (?t i)) xs)
      \<le> length (filter (\<lambda>i. level_seeded seeded' scheme lower (?t i)) xs)" for xs
    by (rule length_filter_mono) (rule Cons.IH)
  from this [of "[0..<nat (Total keySplit)]"] Cons.prems show ?case by simp
qed

lemma reassembly_exact:
  assumes "makeOSLFileSpec hmac seal keystream scheme channel t = Some (Inr (fileKey, fileSpec))"
    and "\<And>k m. length (hmac k m) = KEY_LENGTH_BYTES" and "unseals seal unseal"
    and "valid_orders ord" and "genuine_lookup hmac scheme channel lookup"
  shows "ReassembleOSLKey unseal ord lookup fileSpec =
    (if level_seeded (slok_seeded hmac scheme channel lookup) scheme (rev (SeedPeriodKeySplits scheme)) t
     then Inr (True, fileKey) else Inr (False, []))"
proof -
  from makeOSLFileSpec_divided [OF assms(1)] obtain r r' t' m where
    d: "divide_levels hmac seal scheme channel (rev (SeedPeriodKeySplits scheme)) fileKey r t
      = Some (Inr (fs_KeyShares fileSpec, r', t'))" and "fileKey = hmac (MasterKey scheme) m"
    by (auto simp: divideKey_def)
  with assms(2) have len: "length fileKey = KEY_LENGTH_BYTES" by simp
  from divide_levels_reassemble [OF d len assms(4,3,5)] len show ?thesis
    by (auto simp: ReassembleOSLKey_def Let_def)
qed

text \<open>
  C4: the client reassembles the OSL key, exactly, when it has enough SLOKs for the tree of
  key splits, and otherwise learns that it has not.
\<close>

theorem reassemble_makeOSLFileSpec:
  assumes "makeOSLFileSpec hmac seal keystream scheme channel t = Some (Inr (fileKey, fileSpec))"
    and "\<And>k m. length (hmac k m) = KEY_LENGTH_BYTES" and "unseals seal unseal"
    and "valid_orders ord" and "genuine_lookup hmac scheme channel lookup"
  shows "ReassembleOSLKey unseal ord lookup fileSpec =
    (if level_seeded (slok_seeded hmac scheme channel lookup) scheme (rev (SeedPeriodKeySplits scheme)) t
     then Inr (True, fileKey) else Inr (False, []))"
  using reassembly_exact [OF assms] .

theorem reassemble_makeOSLFileSpec_witness:
  "\<exists>fileKey fileSpec. makeOSLFileSpec example_hmac (\<lambda>k p. p) (\<lambda>_. replicate 352 1) example_scheme [] 0
      = Some (Inr (fileKey, fileSpec))
    \<and> ReassembleOSLKey (\<lambda>k b. Some b) (\<lambda>m _. ascending m) Some fileSpec = Inr (True, fileKey)
    \<and> ReassembleOSLKey (\<lambda>k b. Some b) (\<lambda>m _. ascending m) (\<lambda>_. None) fileSpec = Inr (False, [])"
proof -
  obtain fileKey fileSpec where m: "makeOSLFileSpec example_hmac (\<lambda>k p. p) (\<lambda>_. replicate 352 1) example_scheme [] 0
      = Some (Inr (fileKey, fileSpec))"
    using example_file_spec by blast
  have n: "genuine_lookup example_hmac example_scheme channel (\<lambda>_. None)" for channel
    by (simp add: genuine_lookup_def)
  have all: "level_seeded (slok_seeded example_hmac example_scheme [] Some) example_scheme
      (rev (SeedPeriodKeySplits example_scheme)) 0"
    and none: "\<not> level_seeded (slok_seeded example_hmac example_scheme [] (\<lambda>_. None)) example_scheme
      (rev (SeedPeriodKeySplits example_scheme)) 0"
    by (simp_all add: example_scheme_def SeedSpecIDs_def slok_seeded_def)
  show ?thesis
    using m all none
      reassemble_makeOSLFileSpec [OF m length_example_hmac example_unseals orders_ascending example_lookup]
      reassemble_makeOSLFileSpec [OF m length_example_hmac example_unseals orders_ascending n]
    by auto
qed

text \<open>
  With valid split parameters and enough nonzero key material, the division of the key
  succeeds: there is a file spec, with the ID of its first SLOK.
\<close>

lemma makeOSLFileSpec_succeeds:
  assumes v: "valid_splits scheme" and hm: "\<And>k m. length (hmac k m) = KEY_LENGTH_BYTES"
    and ks: "\<And>seed. 0 \<notin> set (keystream seed)"
      "\<And>seed. level_need scheme (rev (SeedPeriodKeySplits scheme)) \<le> length (keystream seed)"
  shows "\<exists>fileKey fileSpec. makeOSLFileSpec hmac seal keystream scheme channel t = Some (Inr (fileKey, fileSpec))
    \<and> fs_ID fileSpec = slok_ID (spec_slok hmac scheme channel (hd (SeedSpecIDs scheme)) t)"
  using assms by (rule file_spec_succeeds)

text \<open>
  Making a file spec always returns, with an error or a result: the only loop that could
  run forever, the byte loop of the secret sharing, is kept from it by the parameter check.
\<close>

lemma makeOSLFileSpec_returns:
  "makeOSLFileSpec hmac seal keystream scheme channel t \<noteq> None"
  by (auto simp: makeOSLFileSpec_def divideKey_def Let_def pbind_None_conv divide_levels_returns
      iff del: not_None_eq split: list.splits)

text \<open>
  The streaming check, which only counts the known SLOKs, agrees with the reassembly that
  unboxes the shares.
\<close>

lemma registry_check_agrees:
  assumes "makeOSLFileSpec hmac seal keystream scheme channel t = Some (Inr (fileKey, fileSpec))"
    and "\<And>k m. length (hmac k m) = KEY_LENGTH_BYTES" and "unseals seal unseal"
    and "valid_orders ord" and "genuine_lookup hmac scheme channel lookup"
  shows "\<exists>ok. reassembleKey unseal ord lookup False (fs_KeyShares fileSpec) = Inr (ok, [])
    \<and> ReassembleOSLKey unseal ord lookup fileSpec = Inr (ok, if ok then fileKey else [])"
proof -
  from makeOSLFileSpec_divided [OF assms(1)] obtain r r' t' m where
    d: "divide_levels hmac seal scheme channel (rev (SeedPeriodKeySplits scheme)) fileKey r t
      = Some (Inr (fs_KeyShares fileSpec, r', t'))" and "fileKey = hmac (MasterKey scheme) m"
    by (auto simp: divideKey_def)
  with assms(2) have len: "length fileKey = KEY_LENGTH_BYTES" by simp
  note dl = divide_levels_reassemble [OF d len assms(4,3,5)]
  from dl [of False] dl [of True] len show ?thesis
    by (auto simp: ReassembleOSLKey_def Let_def)
qed

text \<open>
  A key division advances the SLOK time by exactly the duration of one OSL, so that the
  OSLs of consecutive durations use disjoint, adjacent runs of seed periods.
\<close>

lemma divideKey_time:
  assumes "divideKey hmac seal scheme r key (SeedPeriodKeySplits scheme) channel t
      = Some (Inr (ks, r', t'))" and "length key = KEY_LENGTH_BYTES"
  shows "t' = t + GetOSLDuration scheme"
  using divide_levels_time [OF assms [unfolded divideKey_def]] by (simp add: GetOSLDuration_levels)

end
