(* ===== verification/OslConfig.thy ===== *)
theory OslConfig
  imports Osl
begin

text \<open>
  The OSL configuration of \<open>psiphon/common/osl/osl.go\<close>: its validation (\<open>LoadConfig\<close>), the
  times of the OSLs that are paved (\<open>Pave\<close>, \<open>GetPaveData\<close>, \<open>CurrentOSLIDs\<close>) and the SLOK
  time of a moment (\<open>getSLOKTime\<close>).

  Parameters: the RFC 3339 parser (the parsed time and whether it is in UTC), the CIDR parser,
  the sorts, the data package writer, the encoding of the registry, MD5 and the hex encoding.
  Times are nanoseconds since the Unix epoch; Go rounds them from the year 1. The durations
  are mathematical integers. The loops over time are \<open>partial_function\<close>s: \<open>None\<close> is a loop
  that does not end.
\<close>

section \<open>Times\<close>

text \<open>The Go zero time, January 1 of the year 1, and \<open>Time.Truncate\<close>, \<open>Time.Round\<close>\<close>

definition zero_time :: int where
  "zero_time = - 62135596800 * 1000000000"

definition Truncate :: "int \<Rightarrow> int \<Rightarrow> int" where
  "Truncate d t = (if d \<le> 0 then t else t - (t - zero_time) mod d)"

definition Round :: "int \<Rightarrow> int \<Rightarrow> int" where
  "Round d t = (if d \<le> 0 then t else
    let r = (t - zero_time) mod d in if r + r < d then t - r else t + (d - r))"

definition getSLOKTime :: "int \<Rightarrow> int \<Rightarrow> int" where
  "getSLOKTime now seedPeriodNanoseconds = Truncate seedPeriodNanoseconds now"

lemma Round_fixed: "Round d t = t \<longleftrightarrow> d \<le> 0 \<or> (t - zero_time) mod d = 0"
proof (cases "d \<le> 0")
  case False
  then have "0 \<le> (t - zero_time) mod d" "(t - zero_time) mod d < d" by simp_all
  with False show ?thesis by (auto simp: Round_def Let_def)
qed (simp add: Round_def)

section \<open>Validation\<close>

datatype load_error =
    InvalidScheme | InvalidEpochFormat | InvalidEpochTimezone | InvalidEpochPeriod
  | InvalidEpochOrder | InvalidMasterKey | InvalidSeedSpec | InvalidSeedSpecID
  | InvalidUpstreamSubnets | DuplicateASN | InvalidSeedSpecKeySplit
  | InvalidKeySplitCount | InvalidKeySplit

fun duplicate_ASN :: "string list \<Rightarrow> string set \<Rightarrow> bool" where
  "duplicate_ASN [] ASNs = False"
| "duplicate_ASN (ASN # xs) ASNs = (if ASN \<in> ASNs then True else duplicate_ASN xs (insert ASN ASNs))"

type_synonym new_subnet_lookup = "string list \<Rightarrow> ip_net list option"

definition load_seed_spec :: "new_subnet_lookup \<Rightarrow> seed_spec option
    \<Rightarrow> load_error + seed_spec \<times> ip_net list" where
  "load_seed_spec newSubnetLookup spec = (case spec of None \<Rightarrow> Inl InvalidSeedSpec | Some seedSpec \<Rightarrow>
    if length (spec_ID seedSpec) \<noteq> KEY_LENGTH_BYTES then Inl InvalidSeedSpecID
    else case newSubnetLookup (UpstreamSubnets seedSpec) of None \<Rightarrow> Inl InvalidUpstreamSubnets
      | Some subnetLookup \<Rightarrow>
        if duplicate_ASN (UpstreamASNs seedSpec) {} then Inl DuplicateASN
        else Inr (seedSpec\<lparr>upstreamASNLookup := NewStringLookup (UpstreamASNs seedSpec)\<rparr>, subnetLookup))"

fun load_seed_specs :: "new_subnet_lookup \<Rightarrow> seed_spec option list
    \<Rightarrow> load_error + (seed_spec \<times> ip_net list) list" where
  "load_seed_specs nsl [] = Inr []"
| "load_seed_specs nsl (s # ss) =
    ebind (load_seed_spec nsl s) (\<lambda>x. ebind (load_seed_specs nsl ss) (\<lambda>xs. Inr (x # xs)))"

fun check_key_splits :: "key_split list \<Rightarrow> load_error + unit" where
  "check_key_splits [] = Inr ()"
| "check_key_splits (keySplit # rest) =
    (if \<not> isValidShamirSplit (Total keySplit) (Threshold keySplit) then Inl InvalidKeySplit
     else check_key_splits rest)"

text \<open>
  A scheme as the JSON decoder delivers it: the pointer may be nil, and so may those of its
  seed specs.
\<close>

type_synonym raw_scheme = "(osl_scheme \<times> seed_spec option list) option"

definition load_scheme :: "(string \<Rightarrow> (int \<times> bool) option) \<Rightarrow> new_subnet_lookup \<Rightarrow> int
    \<Rightarrow> raw_scheme \<Rightarrow> load_error + osl_scheme" where
  "load_scheme parseTime nsl previousEpoch raw = (case raw of None \<Rightarrow> Inl InvalidScheme
    | Some (scheme, specs) \<Rightarrow>
      (case parseTime (Epoch scheme) of None \<Rightarrow> Inl InvalidEpochFormat
       | Some (t, isUTC) \<Rightarrow>
        if \<not> isUTC then Inl InvalidEpochTimezone
        else if Round (SeedPeriodNanoseconds scheme) t \<noteq> t then Inl InvalidEpochPeriod
        else if t < previousEpoch then Inl InvalidEpochOrder
        else if length (MasterKey scheme) \<noteq> KEY_LENGTH_BYTES then Inl InvalidMasterKey
        else ebind (load_seed_specs nsl specs) (\<lambda>loaded.
          if \<not> isValidShamirSplit (int (length specs)) (SeedSpecThreshold scheme)
          then Inl InvalidSeedSpecKeySplit
          else if length (SeedPeriodKeySplits scheme) < 1 then Inl InvalidKeySplitCount
          else ebind (check_key_splits (SeedPeriodKeySplits scheme)) (\<lambda>_.
            Inr (scheme\<lparr>epoch := t, SeedSpecs := map fst loaded, subnetLookups := map snd loaded,
              derivedSLOKCache := Map.empty\<rparr>)))))"

fun load_schemes :: "(string \<Rightarrow> (int \<times> bool) option) \<Rightarrow> new_subnet_lookup \<Rightarrow> int
    \<Rightarrow> raw_scheme list \<Rightarrow> load_error + osl_scheme list" where
  "load_schemes parseTime nsl previousEpoch [] = Inr []"
| "load_schemes parseTime nsl previousEpoch (raw # raws) =
    ebind (load_scheme parseTime nsl previousEpoch raw) (\<lambda>scheme.
    ebind (load_schemes parseTime nsl (epoch scheme) raws) (\<lambda>schemes. Inr (scheme # schemes)))"

definition LoadConfig :: "(string \<Rightarrow> (int \<times> bool) option) \<Rightarrow> new_subnet_lookup
    \<Rightarrow> raw_scheme list \<Rightarrow> load_error + osl_scheme list" where
  "LoadConfig parseTime nsl raws = load_schemes parseTime nsl zero_time raws"

section \<open>OSL times\<close>

partial_function (option) skip_until :: "int \<Rightarrow> int \<Rightarrow> int \<Rightarrow> int option" where
  "skip_until oslDuration startTime oslTime =
    (if oslTime < startTime then skip_until oslDuration startTime (oslTime + oslDuration)
     else Some oslTime)"

text \<open>The first OSL time: no start time (\<open>IsZero\<close>), or one before the epoch, keeps the epoch.\<close>

definition first_osl_time :: "osl_scheme \<Rightarrow> int \<Rightarrow> int option" where
  "first_osl_time scheme startTime =
    (if startTime \<noteq> zero_time \<and> \<not> startTime < epoch scheme
     then skip_until (GetOSLDuration scheme) startTime (epoch scheme) else Some (epoch scheme))"

text \<open>The loop \<open>for !oslTime.After(endTime)\<close> with the result of its body for each time.\<close>

partial_function (option) osl_times_loop ::
  "(int \<Rightarrow> (osl_error + 'a list) option) \<Rightarrow> int \<Rightarrow> int \<Rightarrow> int \<Rightarrow> (osl_error + 'a list) option" where
  "osl_times_loop body oslDuration endTime oslTime =
    (if \<not> oslTime > endTime then
       Option.bind (body oslTime) (\<lambda>r. case r of Inl e \<Rightarrow> Some (Inl e)
        | Inr xs \<Rightarrow> Option.bind (osl_times_loop body oslDuration endTime (oslTime + oslDuration))
            (\<lambda>r'. Some (ebind r' (\<lambda>ys. Inr (xs @ ys)))))
     else Some (Inr []))"

definition osl_range :: "osl_scheme \<Rightarrow> int \<Rightarrow> int \<Rightarrow> (int \<Rightarrow> (osl_error + 'a list) option)
    \<Rightarrow> (osl_error + 'a list) option" where
  "osl_range scheme startTime endTime body = Option.bind (first_osl_time scheme startTime)
    (osl_times_loop body (GetOSLDuration scheme) endTime)"

section \<open>Paving\<close>

record pave_file =
  pf_Name :: string
  pf_Contents :: bytes

type_synonym make_spec = "osl_scheme \<Rightarrow> string \<Rightarrow> int \<Rightarrow> (osl_error + bytes \<times> osl_file_spec) option"

text \<open>
  One paved OSL: nothing for an empty OSL that is omitted, otherwise the file spec (with the
  MD5 sum unless it is omitted) and the OSL file.
\<close>

definition join_lines :: "string list \<Rightarrow> string" where
  "join_lines xs = concat (case xs of [] \<Rightarrow> [] | y # ys \<Rightarrow> y # map (\<lambda>z. CHR 0x0A # z) ys)"

definition pave_osl :: "make_spec \<Rightarrow> (bytes \<Rightarrow> bytes \<Rightarrow> bytes) \<Rightarrow> (string \<Rightarrow> osl_error + bytes)
    \<Rightarrow> (bytes \<Rightarrow> bytes) \<Rightarrow> (bytes \<Rightarrow> string) \<Rightarrow> (string list \<Rightarrow> string list) \<Rightarrow> osl_scheme \<Rightarrow> string
    \<Rightarrow> (string \<Rightarrow> string list) \<Rightarrow> bool \<Rightarrow> bool \<Rightarrow> int
    \<Rightarrow> (osl_error + (osl_file_spec \<times> bytes option \<times> pave_file) list) option" where
  "pave_osl makeSpec seal writePackage md5sum hexEncode sort_Strings scheme channel paveServerEntries
      omitMD5Sums omitEmptyOSLs oslTime =
    pbind (makeSpec scheme channel oslTime) (\<lambda>(fileKey, fileSpec). Some (
      let hexEncodedOSLID = hexEncode (fs_ID fileSpec);
          serverEntries = paveServerEntries hexEncodedOSLID
      in if length serverEntries > 0 \<or> \<not> omitEmptyOSLs then
           ebind (writePackage (join_lines (sort_Strings serverEntries))) (\<lambda>serverEntriesPackage.
           ebind (box seal fileKey serverEntriesPackage) (\<lambda>boxedServerEntries.
             Inr [(fileSpec, if \<not> omitMD5Sums then Some (md5sum boxedServerEntries) else None,
               \<lparr>pf_Name = ''osl-'' @ hexEncodedOSLID, pf_Contents = boxedServerEntries\<rparr>)]))
         else Inr []))"

fun pave_schemes :: "(nat \<Rightarrow> osl_scheme \<Rightarrow> int \<Rightarrow> (osl_error + 'a list) option) \<Rightarrow> string \<Rightarrow> int \<Rightarrow> int
    \<Rightarrow> osl_scheme list \<Rightarrow> nat \<Rightarrow> (osl_error + 'a list) option" where
  "pave_schemes body channel startTime endTime [] schemeIndex = Some (Inr [])"
| "pave_schemes body channel startTime endTime (scheme # schemes) schemeIndex =
    pbind (if Contains (PropagationChannelIDs scheme) channel
           then osl_range scheme startTime endTime (body schemeIndex scheme) else Some (Inr []))
      (\<lambda>xs. pbind (pave_schemes body channel startTime endTime schemes (schemeIndex + 1))
        (\<lambda>ys. Some (Inr (xs @ ys))))"

definition Pave :: "make_spec \<Rightarrow> (bytes \<Rightarrow> bytes \<Rightarrow> bytes) \<Rightarrow> (string \<Rightarrow> osl_error + bytes)
    \<Rightarrow> (bytes \<Rightarrow> bytes) \<Rightarrow> (bytes \<Rightarrow> string) \<Rightarrow> (string list \<Rightarrow> string list)
    \<Rightarrow> ((osl_file_spec \<times> bytes option) list \<Rightarrow> string) \<Rightarrow> osl_scheme list
    \<Rightarrow> int \<Rightarrow> int \<Rightarrow> string \<Rightarrow> (string \<Rightarrow> string list) \<Rightarrow> nat list \<Rightarrow> nat list
    \<Rightarrow> (osl_error + pave_file list) option" where
  "Pave makeSpec seal writePackage md5sum hexEncode sort_Strings encodeRegistry schemes startTime endTime
      channel paveServerEntries omitMD5SumsSchemes omitEmptyOSLsSchemes =
    pbind (pave_schemes (\<lambda>schemeIndex scheme. pave_osl makeSpec seal writePackage md5sum hexEncode
          sort_Strings scheme channel paveServerEntries (schemeIndex \<in> set omitMD5SumsSchemes)
          (schemeIndex \<in> set omitEmptyOSLsSchemes))
        channel startTime endTime schemes 0)
      (\<lambda>paved. Some (ebind (writePackage (encodeRegistry (map (\<lambda>(spec, sum, _). (spec, sum)) paved)))
        (\<lambda>registryPackage. Inr (map (\<lambda>(_, _, file). file) paved @
          [\<lparr>pf_Name = ''osl-registry'', pf_Contents = registryPackage\<rparr>]))))"

definition get_pave_data :: "make_spec \<Rightarrow> osl_scheme \<Rightarrow> int \<Rightarrow> int \<Rightarrow> string
    \<Rightarrow> (osl_error + (osl_file_spec \<times> bytes) list) option" where
  "get_pave_data makeSpec scheme startTime endTime channel =
    osl_range scheme startTime endTime (\<lambda>oslTime.
      pbind (makeSpec scheme channel oslTime) (\<lambda>(fileKey, fileSpec). Some (Inr [(fileSpec, fileKey)])))"

fun pave_data_channels :: "(string \<Rightarrow> (osl_error + 'a) option) \<Rightarrow> string list
    \<Rightarrow> (osl_error + (string \<times> 'a) list) option" where
  "pave_data_channels f [] = Some (Inr [])"
| "pave_data_channels f (channel # channels) =
    pbind (f channel) (\<lambda>x. pbind (pave_data_channels f channels) (\<lambda>xs. Some (Inr ((channel, x) # xs))))"

definition GetPaveData :: "make_spec \<Rightarrow> osl_scheme list \<Rightarrow> int \<Rightarrow> int
    \<Rightarrow> (osl_error + (string \<times> (osl_file_spec \<times> bytes) list) list) option" where
  "GetPaveData makeSpec schemes now schemeIndex =
    (if schemeIndex < 0 \<or> schemeIndex \<ge> int (length schemes) then Some (Inl InvalidParameters)
     else let scheme = schemes ! nat schemeIndex in
       if PaveDataOSLCount scheme < 1 then Some (Inl InvalidParameters)
       else let endTime = now;
                startTime = endTime - PaveDataOSLCount scheme * GetOSLDuration scheme;
                startTime = (if startTime < epoch scheme then epoch scheme else startTime)
            in pave_data_channels (get_pave_data makeSpec scheme startTime endTime)
                 (PropagationChannelIDs scheme))"

text \<open>Go's integer division truncates; a zero divisor panics.\<close>

definition go_quot :: "int \<Rightarrow> int \<Rightarrow> int" where
  "go_quot a b = sgn a * sgn b * (\<bar>a\<bar> div \<bar>b\<bar>)"

definition CurrentOSLIDs :: "make_spec \<Rightarrow> (bytes \<Rightarrow> string) \<Rightarrow> osl_scheme list \<Rightarrow> int \<Rightarrow> int
    \<Rightarrow> (osl_error + (string \<times> string) list) option" where
  "CurrentOSLIDs makeSpec hexEncode schemes now schemeIndex =
    (if schemeIndex < 0 \<or> schemeIndex \<ge> int (length schemes) then Some (Inl InvalidParameters)
     else let scheme = schemes ! nat schemeIndex; oslDuration = GetOSLDuration scheme in
       if oslDuration = 0 then Some (Inl OslPanic)
       else let oslTime = epoch scheme + go_quot (now - epoch scheme) oslDuration * oslDuration
            in pave_data_channels (\<lambda>channel. pbind (makeSpec scheme channel oslTime)
                 (\<lambda>(_, fileSpec). Some (Inr (hexEncode (fs_ID fileSpec))))) (PropagationChannelIDs scheme))"

section \<open>What is loaded\<close>

lemma duplicate_ASN_iff: "duplicate_ASN xs ASNs \<longleftrightarrow> \<not> distinct xs \<or> set xs \<inter> ASNs \<noteq> {}"
  by (induction xs ASNs rule: duplicate_ASN.induct) auto

definition loaded_spec :: "new_subnet_lookup \<Rightarrow> seed_spec \<Rightarrow> ip_net list \<Rightarrow> bool" where
  "loaded_spec nsl spec subnets \<longleftrightarrow> length (spec_ID spec) = KEY_LENGTH_BYTES \<and>
    nsl (UpstreamSubnets spec) = Some subnets \<and> distinct (UpstreamASNs spec) \<and>
    upstreamASNLookup spec = NewStringLookup (UpstreamASNs spec)"

lemma load_seed_specs_loaded:
  "load_seed_specs nsl specs = Inr loaded \<Longrightarrow>
    length loaded = length specs \<and> list_all2 (loaded_spec nsl) (map fst loaded) (map snd loaded)"
  by (induction specs arbitrary: loaded)
    (auto simp: load_seed_spec_def loaded_spec_def duplicate_ASN_iff split: option.splits if_splits)

lemma check_key_splits_all:
  "check_key_splits xs = Inr u \<Longrightarrow> \<forall>ks\<in>set xs. isValidShamirSplit (Total ks) (Threshold ks)"
  by (induction xs) (auto split: if_splits)

definition loaded_scheme :: "new_subnet_lookup \<Rightarrow> osl_scheme \<Rightarrow> bool" where
  "loaded_scheme nsl scheme \<longleftrightarrow> valid_splits scheme \<and> length (MasterKey scheme) = KEY_LENGTH_BYTES \<and>
    (SeedPeriodNanoseconds scheme \<le> 0 \<or> (epoch scheme - zero_time) mod SeedPeriodNanoseconds scheme = 0) \<and>
    list_all2 (loaded_spec nsl) (SeedSpecs scheme) (subnetLookups scheme) \<and>
    derivedSLOKCache scheme = Map.empty"

lemma load_scheme_loaded:
  assumes "load_scheme parseTime nsl prev raw = Inr scheme"
  shows "loaded_scheme nsl scheme \<and> prev \<le> epoch scheme"
proof -
  from assms obtain s specs t loaded u where s: "raw = Some (s, specs)"
    and r: "Round (SeedPeriodNanoseconds s) t = t" "\<not> t < prev" "length (MasterKey s) = KEY_LENGTH_BYTES"
    and l: "load_seed_specs nsl specs = Inr loaded"
    and v: "isValidShamirSplit (int (length specs)) (SeedSpecThreshold s)" "\<not> length (SeedPeriodKeySplits s) < 1"
    and k: "check_key_splits (SeedPeriodKeySplits s) = Inr u"
    and sch: "scheme = s\<lparr>epoch := t, SeedSpecs := map fst loaded, subnetLookups := map snd loaded,
              derivedSLOKCache := Map.empty\<rparr>"
    by (auto simp: load_scheme_def split: option.splits prod.splits if_splits)
  show ?thesis
    using r v load_seed_specs_loaded [OF l] check_key_splits_all [OF k] Round_fixed [of "SeedPeriodNanoseconds s" t]
    by (auto simp: sch loaded_scheme_def valid_splits_def SeedSpecIDs_def)
qed

lemma load_schemes_loaded:
  "load_schemes parseTime nsl prev raws = Inr schemes \<Longrightarrow>
    (\<forall>scheme\<in>set schemes. loaded_scheme nsl scheme \<and> prev \<le> epoch scheme) \<and> sorted (map epoch schemes)"
proof (induction raws arbitrary: prev schemes)
  case Nil
  then show ?case by simp
next
  case (Cons raw raws)
  then obtain scheme rest where s: "load_scheme parseTime nsl prev raw = Inr scheme"
    and r: "load_schemes parseTime nsl (epoch scheme) raws = Inr rest" and "schemes = scheme # rest"
    by auto
  with Cons.IH [OF r] load_scheme_loaded [OF s] show ?case by force
qed

section \<open>The times of the loops\<close>

text \<open>The least \<open>t0 + i * d\<close> that is not before \<open>s\<close>, as the number of steps.\<close>

lemma skip_until_steps:
  assumes "0 < d"
  shows "\<exists>n. skip_until d s t = Some (t + int n * d) \<and> s \<le> t + int n * d \<and> (\<forall>i<n. t + int i * d < s)"
proof (induction "nat (s - t)" arbitrary: t rule: less_induct)
  case less
  show ?case
  proof (cases "t < s")
    case False
    then show ?thesis by (intro exI [of _ 0]) (simp add: skip_until.simps)
  next
    case True
    with assms less [of "t + d"] obtain n where
      n: "skip_until d s (t + d) = Some (t + d + int n * d)" "s \<le> t + d + int n * d" "\<forall>i<n. t + d + int i * d < s"
      by auto
    have "t + int i * d < s" if "i < Suc n" for i
      using n(3) that True by (cases i) (auto simp: algebra_simps)
    with n(1,2) True show ?thesis
      by (intro exI [of _ "Suc n"]) (subst skip_until.simps, auto simp: algebra_simps)
  qed
qed

lemma osl_times_loop_steps:
  assumes "0 < d" and body: "\<And>t. body t = Some (Inr [g t])"
  shows "\<exists>n. osl_times_loop body d e t = Some (Inr (map (\<lambda>i. g (t + int i * d)) [0..<n]))
    \<and> (\<forall>i<n. t + int i * d \<le> e) \<and> e < t + int n * d"
proof (induction "nat (e + 1 - t)" arbitrary: t rule: less_induct)
  case less
  show ?case
  proof (cases "e < t")
    case True
    then show ?thesis by (intro exI [of _ 0]) (simp add: osl_times_loop.simps)
  next
    case False
    with assms less [of "t + d"] obtain n where
      n: "osl_times_loop body d e (t + d) = Some (Inr (map (\<lambda>i. g (t + d + int i * d)) [0..<n]))"
        "\<forall>i<n. t + d + int i * d \<le> e" "e < t + d + int n * d"
      by auto
    have "map (\<lambda>i. g (t + int i * d)) [0..<Suc n] = g t # map (\<lambda>i. g (t + d + int i * d)) [0..<n]"
      by (simp add: upt_conv_Cons map_Suc_upt [symmetric] o_def algebra_simps del: upt_Suc)
    then have "osl_times_loop body d e t = Some (Inr (map (\<lambda>i. g (t + int i * d)) [0..<Suc n]))"
      using False n(1) by (subst osl_times_loop.simps) (simp add: body del: upt_Suc)
    moreover have "t + int i * d \<le> e" if "i < Suc n" for i
      using n(2) that False by (cases i) (auto simp: algebra_simps)
    ultimately show ?thesis using n(3) by (intro exI [of _ "Suc n"]) (auto simp: algebra_simps)
  qed
qed

text \<open>The OSL times from the first period at or after the start to the end.\<close>

definition osl_times :: "osl_scheme \<Rightarrow> int \<Rightarrow> int \<Rightarrow> int list \<Rightarrow> bool" where
  "osl_times scheme s e ts \<longleftrightarrow> sorted ts \<and> distinct ts \<and>
    (\<forall>t. t \<in> set ts \<longleftrightarrow> (\<exists>i. t = epoch scheme + int i * GetOSLDuration scheme) \<and>
      (s \<noteq> zero_time \<longrightarrow> s \<le> t) \<and> t \<le> e)"

lemma osl_range_times:
  assumes d: "0 < GetOSLDuration scheme" and body: "\<And>t. body t = Some (Inr [g t])"
  shows "\<exists>ts. osl_range scheme s e body = Some (Inr (map g ts)) \<and> osl_times scheme s e ts"
proof -
  let ?d = "GetOSLDuration scheme" and ?e = "epoch scheme"
  obtain m where m: "first_osl_time scheme s = Some (?e + int m * ?d)"
    and lo: "\<And>i. (s \<noteq> zero_time \<longrightarrow> s \<le> ?e + int i * ?d) \<longleftrightarrow> m \<le> i"
  proof (cases "s \<noteq> zero_time \<and> \<not> s < ?e")
    case True
    obtain n where n: "skip_until ?d s ?e = Some (?e + int n * ?d)" "s \<le> ?e + int n * ?d"
      "\<forall>i<n. ?e + int i * ?d < s" using skip_until_steps [OF d] by blast
    have "s \<le> ?e + int i * ?d \<longleftrightarrow> n \<le> i" for i
    proof
      assume "n \<le> i"
      then have "int n * ?d \<le> int i * ?d" using d by simp
      with n(2) show "s \<le> ?e + int i * ?d" by simp
    qed (use n(3) in \<open>meson leD le_less_linear\<close>)
    with True n(1) show ?thesis by (intro that [of n]) (auto simp: first_osl_time_def)
  next
    case False
    have "s \<le> ?e + int i * ?d" if "s \<noteq> zero_time" for i
      using False that d by (simp add: add_increasing2)
    with False show ?thesis by (intro that [of 0]) (auto simp: first_osl_time_def)
  qed
  obtain n where n: "osl_times_loop body ?d e (?e + int m * ?d)
      = Some (Inr (map (\<lambda>i. g (?e + int m * ?d + int i * ?d)) [0..<n]))"
    "\<forall>i<n. ?e + int m * ?d + int i * ?d \<le> e" "e < ?e + int m * ?d + int n * ?d"
    using osl_times_loop_steps [where body = body and g = g, OF d body] by blast
  let ?ts = "map (\<lambda>i. ?e + int (m + i) * ?d) [0..<n]"
  have hi: "?e + int (m + i) * ?d \<le> e \<longleftrightarrow> i < n" for i
  proof
    assume le: "?e + int (m + i) * ?d \<le> e"
    show "i < n"
    proof (rule ccontr)
      assume "\<not> i < n"
      then have "int n * ?d \<le> int i * ?d" using d by simp
      with n(3) le show False by (simp add: algebra_simps)
    qed
  qed (use n(2) in \<open>simp add: algebra_simps\<close>)
  have "t \<in> set ?ts \<longleftrightarrow> (\<exists>i. t = ?e + int i * ?d) \<and> (s \<noteq> zero_time \<longrightarrow> s \<le> t) \<and> t \<le> e" for t
  proof
    assume "t \<in> set ?ts"
    then obtain i where "i < n" "t = ?e + int (m + i) * ?d" by auto
    with hi lo [of "m + i"] show "(\<exists>i. t = ?e + int i * ?d) \<and> (s \<noteq> zero_time \<longrightarrow> s \<le> t) \<and> t \<le> e"
      by (intro conjI exI [of _ "m + i"]) simp_all
  next
    assume "(\<exists>i. t = ?e + int i * ?d) \<and> (s \<noteq> zero_time \<longrightarrow> s \<le> t) \<and> t \<le> e"
    then obtain i where i: "t = ?e + int i * ?d" "m \<le> i" "t \<le> e" using lo by auto
    then have "i - m < n" using hi [of "i - m"] by simp
    with i show "t \<in> set ?ts" by (auto intro!: image_eqI [of _ _ "i - m"])
  qed
  moreover have "sorted ?ts" "distinct ?ts"
    using d by (auto simp: sorted_iff_nth_mono distinct_map inj_on_def mult_right_mono)
  ultimately have "osl_times scheme s e ?ts" by (simp add: osl_times_def)
  moreover have "osl_range scheme s e body = Some (Inr (map g ?ts))"
    using m n(1) by (simp add: osl_range_def o_def algebra_simps)
  ultimately show ?thesis by blast
qed

lemma getSLOKTime_bounds:
  assumes "0 < d"
  shows "getSLOKTime now d \<le> now" "now < getSLOKTime now d + d" "(getSLOKTime now d - zero_time) mod d = 0"
proof -
  have m: "0 \<le> (now - zero_time) mod d" "(now - zero_time) mod d < d" using assms by simp_all
  then show "getSLOKTime now d \<le> now" "now < getSLOKTime now d + d"
    using assms by (simp_all add: getSLOKTime_def Truncate_def)
  have "getSLOKTime now d - zero_time = (now - zero_time) - (now - zero_time) mod d"
    using assms by (simp add: getSLOKTime_def Truncate_def)
  then show "(getSLOKTime now d - zero_time) mod d = 0" by (simp only: minus_mod_eq_mult_div mod_mult_self1_is_0)
qed

lemma pave_data_channels_all:
  assumes "\<And>c. c \<in> set cs \<Longrightarrow> f c = Some (Inr (g c))"
  shows "pave_data_channels f cs = Some (Inr (map (\<lambda>c. (c, g c)) cs))"
  using assms by (induction cs) auto

lemma last_osl_time:
  assumes ts: "osl_times scheme s e ts" and d: "0 < GetOSLDuration scheme" and e: "epoch scheme \<le> e"
    and s: "s \<noteq> zero_time \<longrightarrow> s \<le> epoch scheme + (e - epoch scheme) div GetOSLDuration scheme * GetOSLDuration scheme"
  shows "ts \<noteq> [] \<and> last ts = epoch scheme + (e - epoch scheme) div GetOSLDuration scheme * GetOSLDuration scheme"
proof -
  let ?d = "GetOSLDuration scheme" and ?q = "(e - epoch scheme) div GetOSLDuration scheme"
  let ?t = "epoch scheme + ?q * ?d"
  have q: "0 \<le> ?q" using d e by (simp add: pos_imp_zdiv_nonneg_iff)
  have "?q * ?d \<le> e - epoch scheme"
    using div_mult_mod_eq [of "e - epoch scheme" ?d] pos_mod_sign [OF d, of "e - epoch scheme"] by linarith
  then have in_ts: "?t \<in> set ts"
    using ts s q unfolding osl_times_def by (auto intro!: exI [of _ "nat ?q"])
  have "t \<le> ?t" if "t \<in> set ts" for t
  proof -
    from ts that obtain i where i: "t = epoch scheme + int i * ?d" "t \<le> e" by (auto simp: osl_times_def)
    then have "int i * ?d div ?d \<le> ?q" using d by (intro zdiv_mono1) simp_all
    then show ?thesis using i d by (simp add: mult_right_mono)
  qed
  moreover have ne: "ts \<noteq> []" using in_ts by auto
  moreover have "?t \<le> last ts"
    using in_ts ts by (intro sorted_le_last) (simp_all add: osl_times_def)
  ultimately show ?thesis by (intro conjI antisym) simp_all
qed

text \<open>With a duration of zero the loops over time never end.\<close>

lemma skip_until_zero:
  assumes "t < s"
  shows "skip_until 0 s t = None"
proof (rule ccontr)
  assume "skip_until 0 s t \<noteq> None"
  then obtain r where r: "skip_until 0 s t = Some r" by blast
  have "(0 :: int) = 0 \<longrightarrow> \<not> t < s"
  proof (rule skip_until.raw_induct [where P = "\<lambda>d s t r. d = 0 \<longrightarrow> \<not> t < s", OF _ r])
    fix f :: "int \<Rightarrow> int \<Rightarrow> int \<Rightarrow> int option" and d s t r
    assume IH: "\<And>d s t r. f d s t = Some r \<Longrightarrow> d = 0 \<longrightarrow> \<not> t < s"
      and eq: "(if t < s then f d s (t + d) else Some t) = Some r"
    show "d = 0 \<longrightarrow> \<not> t < s" using IH [of d s t] eq by auto
  qed
  with assms show False by simp
qed

lemma osl_times_loop_zero:
  assumes "t \<le> e" and body: "\<And>t. body t = Some (Inr (g t))"
  shows "osl_times_loop body 0 e t = None"
proof (rule ccontr)
  assume "osl_times_loop body 0 e t \<noteq> None"
  then obtain r where r: "osl_times_loop body 0 e t = Some r" by blast
  have "(\<forall>t. body t = Some (Inr (g t))) \<longrightarrow> (0 :: int) = 0 \<longrightarrow> \<not> t \<le> e"
  proof (rule osl_times_loop.raw_induct [where P = "\<lambda>b d e t r. (\<forall>t. b t = Some (Inr (g t))) \<longrightarrow> d = 0 \<longrightarrow> \<not> t \<le> e", OF _ r])
    fix f :: "(int \<Rightarrow> (osl_error + 'a list) option) \<Rightarrow> int \<Rightarrow> int \<Rightarrow> int \<Rightarrow> (osl_error + 'a list) option"
      and b d e t r
    assume IH: "\<And>b d e t r. f b d e t = Some r \<Longrightarrow> (\<forall>t. b t = Some (Inr (g t))) \<longrightarrow> d = 0 \<longrightarrow> \<not> t \<le> e"
      and eq: "(if \<not> e < t then Option.bind (b t) (\<lambda>r. case r of Inl e \<Rightarrow> Some (Inl e)
        | Inr xs \<Rightarrow> Option.bind (f b d e (t + d)) (\<lambda>r'. Some (ebind r' (\<lambda>ys. Inr (xs @ ys)))))
        else Some (Inr [])) = Some r"
    show "(\<forall>t. b t = Some (Inr (g t))) \<longrightarrow> d = 0 \<longrightarrow> \<not> t \<le> e"
    proof (intro impI)
      assume b: "\<forall>t. b t = Some (Inr (g t))" and d: "d = 0"
      show "\<not> t \<le> e"
      proof
        assume "t \<le> e"
        then have "Option.bind (f b d e t) (\<lambda>r'. Some (ebind r' (\<lambda>ys. Inr (g t @ ys)))) = Some r"
          using eq b d by simp
        then obtain r' where "f b d e t = Some r'" by (auto simp: bind_eq_Some_conv)
        with IH b d \<open>t \<le> e\<close> show False by blast
      qed
    qed
  qed
  with assms show False by simp
qed

section \<open>Properties\<close>

text \<open>
  Every scheme of a configuration that loads has a 32-byte master key and seed spec IDs,
  valid key splits, an epoch on a boundary of its seed period (when the period is positive),
  subnet lookups that match its seed specs, and the schemes are in the order of their epochs.
\<close>

lemma LoadConfig_sound:
  assumes "LoadConfig parseTime nsl raws = Inr schemes"
  shows "(\<forall>scheme\<in>set schemes. loaded_scheme nsl scheme) \<and> sorted (map epoch schemes)"
  using load_schemes_loaded [OF assms [unfolded LoadConfig_def]] by blast

definition example_raw :: "int \<Rightarrow> raw_scheme" where
  "example_raw period = Some (example_scheme\<lparr>MasterKey := replicate 32 9, SeedPeriodNanoseconds := period\<rparr>,
    [Some ((example_spec 1)\<lparr>spec_ID := replicate 32 1\<rparr>), Some ((example_spec 2)\<lparr>spec_ID := replicate 32 2\<rparr>)])"

definition loaded_example :: "int \<Rightarrow> osl_scheme" where
  "loaded_example period = example_scheme\<lparr>MasterKey := replicate 32 9, SeedPeriodNanoseconds := period,
    SeedSpecs := [(example_spec 1)\<lparr>spec_ID := replicate 32 1\<rparr>, (example_spec 2)\<lparr>spec_ID := replicate 32 2\<rparr>]\<rparr>"

lemma load_example:
  assumes "Round period 0 = 0"
  shows "LoadConfig (\<lambda>_. Some (0, True)) (\<lambda>_. Some []) [example_raw period] = Inr [loaded_example period]"
  using assms by (simp add: LoadConfig_def load_scheme_def example_raw_def loaded_example_def load_seed_spec_def
      KEY_LENGTH_BYTES_def zero_time_def isValidShamirSplit_def example_scheme_def example_spec_def)

text \<open>
  The SLOK time of any moment is the start of the seed period it lies in, counted from
  the scheme's epoch, so the SLOKs issued at run time are those the paved OSLs are boxed with.
\<close>

lemma getSLOKTime_aligned:
  assumes "loaded_scheme nsl scheme" and "0 < SeedPeriodNanoseconds scheme"
  shows "\<exists>k. getSLOKTime now (SeedPeriodNanoseconds scheme) = epoch scheme + k * SeedPeriodNanoseconds scheme
    \<and> epoch scheme + k * SeedPeriodNanoseconds scheme \<le> now
    \<and> now < epoch scheme + (k + 1) * SeedPeriodNanoseconds scheme"
proof -
  let ?p = "SeedPeriodNanoseconds scheme"
  note b = getSLOKTime_bounds [OF assms(2), of now]
  have "(epoch scheme - zero_time) mod ?p = 0" using assms by (auto simp: loaded_scheme_def)
  with b(3) have "(getSLOKTime now ?p - zero_time - (epoch scheme - zero_time)) mod ?p = 0"
    by (metis mod_diff_eq diff_self mod_0)
  then have "?p dvd getSLOKTime now ?p - epoch scheme" by (simp add: mod_eq_0_iff_dvd)
  then obtain k where "getSLOKTime now ?p - epoch scheme = ?p * k" by (rule dvdE)
  with b show ?thesis by (intro exI [of _ k]) (simp add: algebra_simps)
qed

text \<open>
  With a positive OSL duration, and a maker of file specs that does not fail, the pave
  data of every channel is not empty and ends with the OSL of the current period: the ID that
  \<open>CurrentOSLIDs\<close> gives for the channel is that of the last entry of \<open>GetPaveData\<close>.
\<close>

lemma GetPaveData_current:
  assumes d: "0 < GetOSLDuration scheme" and now: "epoch scheme \<le> now"
    and i: "0 \<le> schemeIndex" "schemeIndex < int (length schemes)" "schemes ! nat schemeIndex = scheme"
    and count: "1 \<le> PaveDataOSLCount scheme"
    and mk: "\<And>channel t. makeSpec scheme channel t = Some (Inr (key channel t, spec channel t))"
  shows "\<exists>data ids. GetPaveData makeSpec schemes now schemeIndex = Some (Inr data)
    \<and> CurrentOSLIDs makeSpec hexEncode schemes now schemeIndex = Some (Inr ids)
    \<and> map fst data = PropagationChannelIDs scheme
    \<and> list_all2 (\<lambda>(channel, osls) (channel', id). channel' = channel \<and> osls \<noteq> []
        \<and> id = hexEncode (fs_ID (fst (last osls)))) data ids"
proof -
  let ?d = "GetOSLDuration scheme" and ?c = "PaveDataOSLCount scheme"
  let ?q = "(now - epoch scheme) div ?d"
  let ?s = "if now - ?c * ?d < epoch scheme then epoch scheme else now - ?c * ?d"
  obtain ts where r: "osl_range scheme ?s now (\<lambda>t. Some (Inr [t])) = Some (Inr (map (\<lambda>t. t) ts))"
    and ts: "osl_times scheme ?s now ts"
    using osl_range_times [OF d, of "\<lambda>t. Some (Inr [t])" "\<lambda>t. t"] by blast
  have "now - epoch scheme < ?q * ?d + ?d"
    using div_mult_mod_eq [of "now - epoch scheme" ?d] pos_mod_bound [OF d, of "now - epoch scheme"]
    by linarith
  moreover have "?d \<le> ?c * ?d" using d count by simp
  moreover have "0 \<le> ?q * ?d" using d now by (simp add: pos_imp_zdiv_nonneg_iff)
  ultimately have "?s \<le> epoch scheme + ?q * ?d" by (simp split: if_split)
  then have last: "ts \<noteq> [] \<and> last ts = epoch scheme + ?q * ?d"
    by (intro last_osl_time [OF ts d now]) simp
  have g: "\<exists>ts. get_pave_data makeSpec scheme ?s now c
      = Some (Inr (map (\<lambda>t. (spec c t, key c t)) ts)) \<and> osl_times scheme ?s now ts" for c
    unfolding get_pave_data_def by (rule osl_range_times [OF d]) (simp add: mk)
  have uniq: "ts' = ts" if "osl_times scheme ?s now ts'" for ts'
    using that ts by (intro sorted_distinct_set_unique) (auto simp: osl_times_def)
  have g: "get_pave_data makeSpec scheme ?s now c = Some (Inr (map (\<lambda>t. (spec c t, key c t)) ts))" for c
    using g [of c] uniq by blast
  have quot: "go_quot (now - epoch scheme) ?d = ?q"
    using d now by (cases "now = epoch scheme") (simp_all add: go_quot_def)
  have "GetPaveData makeSpec schemes now schemeIndex
      = Some (Inr (map (\<lambda>c. (c, map (\<lambda>t. (spec c t, key c t)) ts)) (PropagationChannelIDs scheme)))"
    using i count g by (simp add: GetPaveData_def Let_def pave_data_channels_all)
  moreover have "CurrentOSLIDs makeSpec hexEncode schemes now schemeIndex
      = Some (Inr (map (\<lambda>c. (c, hexEncode (fs_ID (spec c (epoch scheme + ?q * ?d))))) (PropagationChannelIDs scheme)))"
    using i d by (simp add: CurrentOSLIDs_def Let_def quot mk pave_data_channels_all)
  ultimately show ?thesis
    using last by (simp add: list_all2_map1 list_all2_map2 list_all2_same o_def last_map)
qed

text \<open>
  A seed period of zero passes the validation of the configuration, and then the OSL
  duration is zero and \<open>GetPaveData\<close> never returns for a scheme with a propagation channel.
\<close>

lemma zero_period_diverges:
  assumes p: "SeedPeriodNanoseconds scheme = 0" and now: "epoch scheme \<le> now"
    and i: "0 \<le> schemeIndex" "schemeIndex < int (length schemes)" "schemes ! nat schemeIndex = scheme"
    and count: "1 \<le> PaveDataOSLCount scheme" and ch: "PropagationChannelIDs scheme \<noteq> []"
    and mk: "\<And>channel t. makeSpec scheme channel t = Some (Inr (key channel t, spec channel t))"
  shows "GetPaveData makeSpec schemes now schemeIndex = None"
proof -
  have d: "GetOSLDuration scheme = 0" using p by (simp add: GetOSLDuration_def)
  have "osl_range scheme now now (\<lambda>t. pbind (makeSpec scheme c t)
      (\<lambda>(fileKey, fileSpec). Some (Inr [(fileSpec, fileKey)]))) = None" for c
  proof (cases "now \<noteq> zero_time \<and> epoch scheme < now")
    case True
    then show ?thesis by (simp add: osl_range_def first_osl_time_def d skip_until_zero)
  next
    case False
    then have "first_osl_time scheme now = Some (epoch scheme)"
      using now skip_until.simps [of 0 now now] by (auto simp: first_osl_time_def d)
    then show ?thesis
      using osl_times_loop_zero [OF now, of "\<lambda>t. pbind (makeSpec scheme c t)
        (\<lambda>(fileKey, fileSpec). Some (Inr [(fileSpec, fileKey)]))" "\<lambda>t. [(spec c t, key c t)]"]
      by (simp add: osl_range_def d mk)
  qed
  then have g: "get_pave_data makeSpec scheme now now c = None" for c by (simp add: get_pave_data_def)
  obtain c cs where "PropagationChannelIDs scheme = c # cs" using ch by (cases "PropagationChannelIDs scheme") auto
  with i count now g show ?thesis by (simp add: GetPaveData_def Let_def d)
qed

end
