(* ===== verification/OslSeed.thy ===== *)
theory OslSeed
  imports OslConfig
begin

text \<open>
  The server side of SLOK seeding in \<open>psiphon/common/osl/osl.go\<close>: the progress of one client
  towards the traffic targets of the seed specs (\<open>UpdateProgress\<close>), the issuing of SLOKs and
  the reset of progress at the end of a seed period (\<open>issueSLOKs\<close>), and the payload sent to
  the client (\<open>GetSeedPayload\<close>, \<open>ClearSeedPayload\<close>).

  The state of a client and the schemes it points to are one value that every operation takes
  and returns. A port forward is its list of references into the progress. The signal channel
  is nil (\<open>None\<close>) or its capacity with the number of signals waiting. Each reading of the
  clock is an argument: \<open>clock i\<close> is the \<open>i\<close>-th reading of an operation. Traffic counters are
  mathematical integers. Every operation is one step: the mutex of the state makes the
  issuing atomic, and the lock-free interleavings of \<open>UpdateProgress\<close> are not modelled.
\<close>

section \<open>State\<close>

record traffic_counters =
  bytesRead :: int
  bytesWritten :: int
  portForwardDurationNanoseconds :: int

definition newTrafficCounters :: traffic_counters where
  "newTrafficCounters = \<lparr>bytesRead = 0, bytesWritten = 0, portForwardDurationNanoseconds = 0\<rparr>"

definition add_traffic :: "traffic_counters \<Rightarrow> int \<Rightarrow> int \<Rightarrow> int \<Rightarrow> traffic_counters" where
  "add_traffic c r w d = \<lparr>bytesRead = bytesRead c + r, bytesWritten = bytesWritten c + w,
    portForwardDurationNanoseconds = portForwardDurationNanoseconds c + d\<rparr>"

definition exceeds :: "traffic_counters \<Rightarrow> traffic_values \<Rightarrow> bool" where
  "exceeds c target \<longleftrightarrow> bytesRead c \<ge> BytesRead target \<and> bytesWritten c \<ge> BytesWritten target
    \<and> portForwardDurationNanoseconds c \<ge> PortForwardDurationNanoseconds target"

definition reset_traffic :: "traffic_counters \<Rightarrow> traffic_counters" where
  "reset_traffic c = c\<lparr>bytesRead := 0, bytesWritten := 0, portForwardDurationNanoseconds := 0\<rparr>"

record seed_progress =
  progressSLOKTime :: int
  progress_scheme :: osl_scheme
  trafficProgress :: "traffic_counters list"

record seed_state =
  propagationChannelID :: string
  seedProgress :: "seed_progress list"
  signalIssueSLOKs :: "(nat \<times> nat) option"
  issuedSLOKs :: "bytes \<rightharpoonup> slok"
  payloadSLOKs :: "slok list"

record progress_reference =
  seedProgressIndex :: nat
  trafficProgressIndex :: nat

section \<open>Operations\<close>

text \<open>\<open>clock i\<close> has the two readings made for the \<open>i\<close>-th scheme.\<close>

fun select_schemes :: "(nat \<Rightarrow> int \<times> int) \<Rightarrow> string \<Rightarrow> string \<Rightarrow> nat \<Rightarrow> osl_scheme list \<Rightarrow> seed_progress list" where
  "select_schemes clock clientRegion channel i [] = []"
| "select_schemes clock clientRegion channel i (scheme # schemes) =
    (if epoch scheme < fst (clock i) \<and> Contains (PropagationChannelIDs scheme) channel
        \<and> (length (Regions scheme) = 0 \<or> Contains (Regions scheme) clientRegion)
     then \<lparr>progressSLOKTime = getSLOKTime (snd (clock i)) (SeedPeriodNanoseconds scheme),
           progress_scheme = scheme,
           trafficProgress = map (\<lambda>_. newTrafficCounters) (SeedSpecs scheme)\<rparr>
         # select_schemes clock clientRegion channel (i + 1) schemes
     else select_schemes clock clientRegion channel (i + 1) schemes)"

definition NewClientSeedState :: "osl_scheme list \<Rightarrow> (nat \<Rightarrow> int \<times> int) \<Rightarrow> string \<Rightarrow> string
    \<Rightarrow> (nat \<times> nat) option \<Rightarrow> seed_state" where
  "NewClientSeedState schemes clock clientRegion channel signal =
    \<lparr>propagationChannelID = channel, seedProgress = select_schemes clock clientRegion channel 0 schemes,
     signalIssueSLOKs = signal, issuedSLOKs = Map.empty, payloadSLOKs = []\<rparr>"

definition Hibernate :: "seed_state \<Rightarrow> seed_state" where
  "Hibernate st = st\<lparr>signalIssueSLOKs := None\<rparr>"

definition Resume :: "(nat \<times> nat) option \<Rightarrow> seed_state \<Rightarrow> seed_state" where
  "Resume signal st = st\<lparr>signalIssueSLOKs := signal\<rparr>"

text \<open>
  The seed specs of one scheme that an upstream address counts for. The ASN is looked up on
  demand and once: \<open>asn\<close> is \<open>upstreamASN\<close> once \<open>upstreamASNSet\<close>.
\<close>

fun match_specs :: "bytes \<Rightarrow> (bytes \<Rightarrow> string) option \<Rightarrow> nat \<Rightarrow> nat \<Rightarrow> string option
    \<Rightarrow> (seed_spec \<times> ip_net list) list \<Rightarrow> progress_reference list" where
  "match_specs ip lookupASN spi tpi asn [] = []"
| "match_specs ip lookupASN spi tpi asn ((seedSpec, subnetLookup) # rest) =
    (let inSubnet = ContainsIPAddress subnetLookup ip;
         (matches, asn') =
           (if \<not> inSubnet \<and> lookupASN \<noteq> None \<and> length (UpstreamASNs seedSpec) > 0 then
              let upstreamASN = (case asn of None \<Rightarrow> the lookupASN ip | Some a \<Rightarrow> a)
              in (StringLookup_Contains (upstreamASNLookup seedSpec) upstreamASN, Some upstreamASN)
            else (inSubnet, asn));
         refs = match_specs ip lookupASN spi (tpi + 1) asn' rest
     in if matches then \<lparr>seedProgressIndex = spi, trafficProgressIndex = tpi\<rparr> # refs else refs)"

fun match_schemes :: "bytes \<Rightarrow> (bytes \<Rightarrow> string) option \<Rightarrow> nat \<Rightarrow> seed_progress list
    \<Rightarrow> progress_reference list" where
  "match_schemes ip lookupASN spi [] = []"
| "match_schemes ip lookupASN spi (p # ps) =
    match_specs ip lookupASN spi 0 None
      (zip (SeedSpecs (progress_scheme p)) (subnetLookups (progress_scheme p)))
    @ match_schemes ip lookupASN (spi + 1) ps"

definition NewClientSeedPortForward :: "seed_state \<Rightarrow> bytes \<Rightarrow> (bytes \<Rightarrow> string) option
    \<Rightarrow> progress_reference list option" where
  "NewClientSeedPortForward st ip lookupASN =
    (if length (seedProgress st) = 0 then None
     else let progressReferences = match_schemes ip lookupASN 0 (seedProgress st)
          in if progressReferences = [] then None else Some progressReferences)"

definition sendIssueSLOKsSignal :: "seed_state \<Rightarrow> seed_state" where
  "sendIssueSLOKsSignal st = (case signalIssueSLOKs st of None \<Rightarrow> st
    | Some (capacity, waiting) \<Rightarrow>
      if waiting < capacity then st\<lparr>signalIssueSLOKs := Some (capacity, waiting + 1)\<rparr> else st)"

text \<open>The inner loop of \<open>issueSLOKs\<close>, over the counters of one scheme and its seed specs.\<close>

type_synonym issue_state = "(slok_reference \<rightharpoonup> slok) \<times> (bytes \<rightharpoonup> slok) \<times> slok list"

definition issue_one :: "(bytes \<Rightarrow> bytes \<Rightarrow> bytes) \<Rightarrow> osl_scheme \<Rightarrow> string \<Rightarrow> int
    \<Rightarrow> traffic_counters \<times> seed_spec \<Rightarrow> issue_state \<Rightarrow> issue_state" where
  "issue_one hmac scheme channel t = (\<lambda>(counters, seedSpec) (cache, issued, payload).
    if exceeds counters (Targets seedSpec) then
      let ref = \<lparr>ref_PropagationChannelID = channel, ref_SeedSpecID = spec_ID seedSpec, ref_Time = t\<rparr>;
          slok = (case cache ref of Some s \<Rightarrow> s | None \<Rightarrow> deriveSLOK hmac scheme ref);
          cache = (case cache ref of Some s \<Rightarrow> cache | None \<Rightarrow> cache(ref \<mapsto> slok))
      in if issued (slok_ID slok) = None then (cache, issued(slok_ID slok \<mapsto> slok), payload @ [slok])
         else (cache, issued, payload)
    else (cache, issued, payload))"

definition issue_specs :: "(bytes \<Rightarrow> bytes \<Rightarrow> bytes) \<Rightarrow> string \<Rightarrow> seed_progress
    \<Rightarrow> (bytes \<rightharpoonup> slok) \<times> slok list \<Rightarrow> issue_state" where
  "issue_specs hmac channel p = (\<lambda>(issued, payload).
    fold (issue_one hmac (progress_scheme p) channel (progressSLOKTime p))
      (zip (trafficProgress p) (SeedSpecs (progress_scheme p)))
      (derivedSLOKCache (progress_scheme p), issued, payload))"

definition roll_over :: "int \<Rightarrow> seed_progress \<Rightarrow> seed_progress" where
  "roll_over now p =
    (let slokTime = getSLOKTime now (SeedPeriodNanoseconds (progress_scheme p))
     in if slokTime \<noteq> progressSLOKTime p
        then p\<lparr>progressSLOKTime := slokTime, trafficProgress := map reset_traffic (trafficProgress p)\<rparr>
        else p)"

fun issue_loop :: "(bytes \<Rightarrow> bytes \<Rightarrow> bytes) \<Rightarrow> (nat \<Rightarrow> int) \<Rightarrow> string \<Rightarrow> nat \<Rightarrow> seed_progress list
    \<Rightarrow> (bytes \<rightharpoonup> slok) \<times> slok list \<Rightarrow> seed_progress list \<times> (bytes \<rightharpoonup> slok) \<times> slok list" where
  "issue_loop hmac clock channel i [] ip = ([], ip)"
| "issue_loop hmac clock channel i (p # ps) ip =
    (let (cache, ip') = issue_specs hmac channel p ip;
         p' = roll_over (clock i) (p\<lparr>progress_scheme := (progress_scheme p)\<lparr>derivedSLOKCache := cache\<rparr>\<rparr>);
         (ps', ip'') = issue_loop hmac clock channel (i + 1) ps ip'
     in (p' # ps', ip''))"

definition issueSLOKs :: "(bytes \<Rightarrow> bytes \<Rightarrow> bytes) \<Rightarrow> (nat \<Rightarrow> int) \<Rightarrow> seed_state \<Rightarrow> seed_state" where
  "issueSLOKs hmac clock st =
    (let (ps, issued, payload) = issue_loop hmac clock (propagationChannelID st) 0 (seedProgress st)
           (issuedSLOKs st, payloadSLOKs st)
     in st\<lparr>seedProgress := ps, issuedSLOKs := issued, payloadSLOKs := payload\<rparr>)"

definition add_progress :: "progress_reference \<Rightarrow> int \<Rightarrow> int \<Rightarrow> int \<Rightarrow> seed_state \<Rightarrow> seed_state" where
  "add_progress ref r w d st =
    (let p = seedProgress st ! seedProgressIndex ref;
         j = trafficProgressIndex ref;
         targets = Targets (SeedSpecs (progress_scheme p) ! j);
         old = trafficProgress p ! j;
         new = add_traffic old r w d;
         st' = st\<lparr>seedProgress := (seedProgress st)[seedProgressIndex ref :=
           p\<lparr>trafficProgress := (trafficProgress p)[j := new]\<rparr>]\<rparr>
     in if \<not> exceeds old targets \<and> exceeds new targets then sendIssueSLOKsSignal st' else st')"

definition update_one :: "(bytes \<Rightarrow> bytes \<Rightarrow> bytes) \<Rightarrow> (nat \<Rightarrow> int) \<Rightarrow> int \<Rightarrow> int \<Rightarrow> int
    \<Rightarrow> progress_reference \<Rightarrow> seed_state \<Rightarrow> seed_state" where
  "update_one hmac clock r w d ref st =
    (let p = seedProgress st ! seedProgressIndex ref;
         slokTime = getSLOKTime (clock 0) (SeedPeriodNanoseconds (progress_scheme p));
         st' = (if slokTime \<noteq> progressSLOKTime p
           then sendIssueSLOKsSignal (issueSLOKs hmac (\<lambda>i. clock (Suc i)) st) else st)
     in add_progress ref r w d st')"

fun UpdateProgress :: "(bytes \<Rightarrow> bytes \<Rightarrow> bytes) \<Rightarrow> (nat \<Rightarrow> nat \<Rightarrow> int) \<Rightarrow> int \<Rightarrow> int \<Rightarrow> int
    \<Rightarrow> progress_reference list \<Rightarrow> seed_state \<Rightarrow> seed_state" where
  "UpdateProgress hmac clock r w d [] st = st"
| "UpdateProgress hmac clock r w d (ref # refs) st =
    UpdateProgress hmac (\<lambda>i. clock (Suc i)) r w d refs (update_one hmac (clock 0) r w d ref st)"

definition GetSeedPayload :: "(bytes \<Rightarrow> bytes \<Rightarrow> bytes) \<Rightarrow> (nat \<Rightarrow> int) \<Rightarrow> seed_state
    \<Rightarrow> slok list \<times> seed_state" where
  "GetSeedPayload hmac clock st =
    (if length (seedProgress st) = 0 then ([], st)
     else let st' = issueSLOKs hmac clock st in (payloadSLOKs st', st'))"

definition ClearSeedPayload :: "seed_state \<Rightarrow> seed_state" where
  "ClearSeedPayload st = st\<lparr>payloadSLOKs := []\<rparr>"

section \<open>Issuing\<close>

lemma spec_slok_cache [simp]:
  "deriveSLOK hmac (scheme\<lparr>derivedSLOKCache := c\<rparr>) = deriveSLOK hmac scheme"
  "spec_slok hmac (scheme\<lparr>derivedSLOKCache := c\<rparr>) = spec_slok hmac scheme"
  by (simp_all add: fun_eq_iff deriveSLOK_def spec_slok_def)

definition cache_ok :: "(bytes \<Rightarrow> bytes \<Rightarrow> bytes) \<Rightarrow> osl_scheme \<Rightarrow> (slok_reference \<rightharpoonup> slok) \<Rightarrow> bool" where
  "cache_ok hmac scheme cache \<longleftrightarrow> (\<forall>ref s. cache ref = Some s \<longrightarrow> s = deriveSLOK hmac scheme ref)"

text \<open>
  What is issued is filed under its own ID and is one of the SLOKs of \<open>G\<close>; the payload holds
  issued SLOKs, each once.
\<close>

definition payload_ok :: "slok set \<Rightarrow> (bytes \<rightharpoonup> slok) \<Rightarrow> slok list \<Rightarrow> bool" where
  "payload_ok G issued payload \<longleftrightarrow> (\<forall>id s. issued id = Some s \<longrightarrow> slok_ID s = id \<and> s \<in> G) \<and>
    (\<forall>s\<in>set payload. issued (slok_ID s) = Some s) \<and> distinct (map slok_ID payload)"

text \<open>Issuing only adds: to the payload go SLOKs that were not issued before.\<close>

definition issues_more :: "(bytes \<rightharpoonup> slok) \<times> slok list \<Rightarrow> (bytes \<rightharpoonup> slok) \<times> slok list \<Rightarrow> bool" where
  "issues_more = (\<lambda>(issued, payload) (issued', payload'). issued \<subseteq>\<^sub>m issued' \<and>
    (\<exists>new. payload' = payload @ new \<and> (\<forall>s\<in>set new. issued (slok_ID s) = None) \<and>
      (\<forall>id. issued id = None \<and> issued' id \<noteq> None \<longrightarrow> (\<exists>s\<in>set new. slok_ID s = id))))"

lemma issues_more_refl [simp]: "issues_more x x"
  by (cases x) (auto simp: issues_more_def)

lemma issues_more_trans:
  assumes "issues_more x y" "issues_more y z"
  shows "issues_more x z"
proof -
  obtain i p i' p' i'' p'' where xyz: "x = (i, p)" "y = (i', p')" "z = (i'', p'')"
    by (metis surj_pair)
  from assms xyz obtain new new' where le: "i \<subseteq>\<^sub>m i'" "i' \<subseteq>\<^sub>m i''"
    and n: "p' = p @ new" "\<forall>s\<in>set new. i (slok_ID s) = None"
      "\<forall>id. i id = None \<and> i' id \<noteq> None \<longrightarrow> (\<exists>s\<in>set new. slok_ID s = id)"
    and n': "p'' = p' @ new'" "\<forall>s\<in>set new'. i' (slok_ID s) = None"
      "\<forall>id. i' id = None \<and> i'' id \<noteq> None \<longrightarrow> (\<exists>s\<in>set new'. slok_ID s = id)"
    by (auto simp: issues_more_def)
  have "i id = None" if "i' id = None" for id
    using le(1) that by (metis domIff map_le_def)
  with n n' have "\<forall>s\<in>set (new @ new'). i (slok_ID s) = None" by auto
  moreover have "\<exists>s\<in>set (new @ new'). slok_ID s = id" if "i id = None" "i'' id \<noteq> None" for id
    using n(3) n'(3) that by (cases "i' id") auto
  ultimately show ?thesis
    using map_le_trans [OF le] n(1) n'(1) xyz by (auto simp: issues_more_def)
qed

lemma issue_one_step:
  assumes "issue_one hmac scheme channel t (c, spec) (cache, issued, payload) = (cache', issued', payload')"
    and "cache_ok hmac scheme cache"
  shows "cache_ok hmac scheme cache'" "issues_more (issued, payload) (issued', payload')"
    "exceeds c (Targets spec) \<Longrightarrow> issued' (slok_ID (spec_slok hmac scheme channel (spec_ID spec) t)) \<noteq> None"
    "payload_ok G issued payload \<Longrightarrow> spec_slok hmac scheme channel (spec_ID spec) t \<in> G
      \<Longrightarrow> payload_ok G issued' payload'"
proof -
  let ?ref = "\<lparr>ref_PropagationChannelID = channel, ref_SeedSpecID = spec_ID spec, ref_Time = t\<rparr>"
  let ?s = "spec_slok hmac scheme channel (spec_ID spec) t"
  have s: "deriveSLOK hmac scheme ?ref = ?s" by (simp add: spec_slok_def)
  have d: "(case cache ?ref of Some s \<Rightarrow> s | None \<Rightarrow> deriveSLOK hmac scheme ?ref) = ?s"
    using assms(2) by (auto simp: cache_ok_def spec_slok_def split: option.split)
  have step: "cache' = (if exceeds c (Targets spec) \<and> cache ?ref = None then cache(?ref \<mapsto> ?s) else cache)"
    "(issued', payload') = (if exceeds c (Targets spec) \<and> issued (slok_ID ?s) = None
      then (issued(slok_ID ?s \<mapsto> ?s), payload @ [?s]) else (issued, payload))"
    using assms(1) unfolding issue_one_def by (auto simp: Let_def d s split: if_splits option.splits)
  show "cache_ok hmac scheme cache'"
    using assms(2) step(1) by (auto simp: cache_ok_def spec_slok_def)
  show "issues_more (issued, payload) (issued', payload')"
    using step(2) by (auto simp: issues_more_def map_le_def split: if_splits)
  show "issued' (slok_ID ?s) \<noteq> None" if "exceeds c (Targets spec)"
    using that step(2) by (auto split: if_splits)
  show "payload_ok G issued' payload'" if "payload_ok G issued payload" "?s \<in> G"
  proof (cases "exceeds c (Targets spec) \<and> issued (slok_ID ?s) = None")
    case False
    then show ?thesis using that(1) step(2) by (auto split: if_splits)
  next
    case True
    then have eq: "issued' = issued(slok_ID ?s \<mapsto> ?s)" "payload' = payload @ [?s]" using step(2) by auto
    have p: "issued (slok_ID s) = Some s" if "s \<in> set payload" for s
      using that \<open>payload_ok G issued payload\<close> by (simp add: payload_ok_def)
    with True have new: "slok_ID ?s \<notin> slok_ID ` set payload" by fastforce
    then have "slok_ID s \<noteq> slok_ID ?s" if "s \<in> set payload" for s using that by (metis imageI)
    then show ?thesis
      using that p new unfolding eq payload_ok_def by simp
  qed
qed

text \<open>The loop over the seed specs of one scheme.\<close>

lemma issue_fold:
  assumes "fold (issue_one hmac scheme channel t) xs (cache, issued, payload) = (cache', issued', payload')"
    and "cache_ok hmac scheme cache"
  shows "cache_ok hmac scheme cache' \<and> issues_more (issued, payload) (issued', payload') \<and>
    (\<forall>(c, spec)\<in>set xs. exceeds c (Targets spec) \<longrightarrow>
      issued' (slok_ID (spec_slok hmac scheme channel (spec_ID spec) t)) \<noteq> None) \<and>
    (payload_ok G issued payload \<and> (\<forall>(c, spec)\<in>set xs. spec_slok hmac scheme channel (spec_ID spec) t \<in> G)
      \<longrightarrow> payload_ok G issued' payload')"
  using assms
proof (induction xs arbitrary: cache issued payload)
  case Nil
  then show ?case by simp
next
  case (Cons x xs)
  obtain c spec where x: "x = (c, spec)" by (cases x)
  obtain cache1 issued1 payload1 where one:
    "issue_one hmac scheme channel t (c, spec) (cache, issued, payload) = (cache1, issued1, payload1)"
    by (metis surj_pair)
  note st = issue_one_step [OF one Cons.prems(2)]
  have IH: "cache_ok hmac scheme cache' \<and> issues_more (issued1, payload1) (issued', payload') \<and>
    (\<forall>(c, spec)\<in>set xs. exceeds c (Targets spec) \<longrightarrow>
      issued' (slok_ID (spec_slok hmac scheme channel (spec_ID spec) t)) \<noteq> None) \<and>
    (payload_ok G issued1 payload1 \<and> (\<forall>(c, spec)\<in>set xs. spec_slok hmac scheme channel (spec_ID spec) t \<in> G)
      \<longrightarrow> payload_ok G issued' payload')"
    by (rule Cons.IH [of cache1]) (use Cons.prems one x st(1) in simp_all)
  then have mono: "issued' id \<noteq> None" if "issued1 id \<noteq> None" for id
    using that by (auto simp: issues_more_def map_le_def dom_def)
  then have "issued' (slok_ID (spec_slok hmac scheme channel (spec_ID spec) t)) \<noteq> None"
    if "exceeds c (Targets spec)" using st(3) that by blast
  then show ?case using IH st(2,4) issues_more_trans [OF st(2)] by (auto simp: x)
qed

lemma roll_over_simps [simp]:
  "progress_scheme (roll_over now p) = progress_scheme p"
  "length (trafficProgress (roll_over now p)) = length (trafficProgress p)"
  "progressSLOKTime (roll_over now p) = getSLOKTime now (SeedPeriodNanoseconds (progress_scheme p))"
  by (simp_all add: roll_over_def Let_def)

text \<open>The part of a progress that no operation changes is its scheme, without the cache.\<close>

definition static_scheme :: "seed_progress \<Rightarrow> osl_scheme" where
  "static_scheme p = (progress_scheme p)\<lparr>derivedSLOKCache := Map.empty\<rparr>"

definition schemes_of :: "seed_state \<Rightarrow> osl_scheme list" where
  "schemes_of st = map static_scheme (seedProgress st)"

definition progress_ok :: "(bytes \<Rightarrow> bytes \<Rightarrow> bytes) \<Rightarrow> seed_progress \<Rightarrow> bool" where
  "progress_ok hmac p \<longleftrightarrow> length (trafficProgress p) = length (SeedSpecs (progress_scheme p)) \<and>
    cache_ok hmac (progress_scheme p) (derivedSLOKCache (progress_scheme p))"

text \<open>The SLOKs that a client of these schemes can be issued at all.\<close>

definition scheme_sloks :: "(bytes \<Rightarrow> bytes \<Rightarrow> bytes) \<Rightarrow> string \<Rightarrow> osl_scheme list \<Rightarrow> slok set" where
  "scheme_sloks hmac channel schemes = {spec_slok hmac scheme channel (spec_ID spec) t | scheme spec t.
    scheme \<in> set schemes \<and> spec \<in> set (SeedSpecs scheme)}"

lemma cache_ok_update [simp]:
  "cache_ok hmac (scheme\<lparr>derivedSLOKCache := c\<rparr>) cache = cache_ok hmac scheme cache"
  by (simp add: cache_ok_def)

text \<open>What one progress becomes when it is checked at \<open>now\<close>.\<close>

definition checked :: "seed_progress \<Rightarrow> int \<Rightarrow> seed_progress \<Rightarrow> bool" where
  "checked p now p' \<longleftrightarrow> static_scheme p' = static_scheme p \<and>
    (let slokTime = getSLOKTime now (SeedPeriodNanoseconds (progress_scheme p))
     in progressSLOKTime p' = slokTime \<and>
      trafficProgress p' = (if slokTime \<noteq> progressSLOKTime p
        then map (\<lambda>_. newTrafficCounters) (trafficProgress p) else trafficProgress p))"

lemma reset_new: "reset_traffic c = newTrafficCounters"
  by (simp add: reset_traffic_def newTrafficCounters_def)

lemma checked_roll_over:
  "checked p now (roll_over now (p\<lparr>progress_scheme := (progress_scheme p)\<lparr>derivedSLOKCache := cache\<rparr>\<rparr>))"
  by (auto simp: checked_def static_scheme_def roll_over_def Let_def reset_new)

definition issued_for :: "(bytes \<Rightarrow> bytes \<Rightarrow> bytes) \<Rightarrow> string \<Rightarrow> seed_progress \<Rightarrow> (bytes \<rightharpoonup> slok) \<Rightarrow> bool" where
  "issued_for hmac channel p issued \<longleftrightarrow> (\<forall>(c, spec)\<in>set (zip (trafficProgress p) (SeedSpecs (progress_scheme p))).
    exceeds c (Targets spec) \<longrightarrow>
    issued (slok_ID (spec_slok hmac (progress_scheme p) channel (spec_ID spec) (progressSLOKTime p))) \<noteq> None)"

lemma issued_for_mono:
  "issued_for hmac channel p issued \<Longrightarrow> issued \<subseteq>\<^sub>m issued' \<Longrightarrow> issued_for hmac channel p issued'"
  unfolding issued_for_def map_le_def by (fastforce simp: dom_def)

lemma issue_loop_step:
  assumes "issue_loop hmac clock channel i ps (issued, payload) = (ps', issued', payload')"
    and "\<forall>p\<in>set ps. progress_ok hmac p"
  shows "list_all2 (\<lambda>(j, p) p'. checked p (clock j) p' \<and> progress_ok hmac p') (enumerate i ps) ps'
    \<and> issues_more (issued, payload) (issued', payload')
    \<and> (\<forall>p\<in>set ps. issued_for hmac channel p issued')
    \<and> (payload_ok G issued payload \<and> scheme_sloks hmac channel (map static_scheme ps) \<subseteq> G
        \<longrightarrow> payload_ok G issued' payload')"
  using assms
proof (induction ps arbitrary: i issued payload ps')
  case Nil
  then show ?case by simp
next
  case (Cons p ps)
  obtain cache issued1 payload1 where one:
    "issue_specs hmac channel p (issued, payload) = (cache, issued1, payload1)"
    by (metis surj_pair)
  let ?p = "roll_over (clock i) (p\<lparr>progress_scheme := (progress_scheme p)\<lparr>derivedSLOKCache := cache\<rparr>\<rparr>)"
  obtain ps1 where rest: "issue_loop hmac clock channel (i + 1) ps (issued1, payload1) = (ps1, issued', payload')"
    and ps': "ps' = ?p # ps1"
    using Cons.prems(1) one by (auto simp: Let_def split: prod.splits)
  have ok: "progress_ok hmac p" using Cons.prems(2) by simp
  have fold: "cache_ok hmac (progress_scheme p) cache \<and> issues_more (issued, payload) (issued1, payload1) \<and>
    (\<forall>(c, spec)\<in>set (zip (trafficProgress p) (SeedSpecs (progress_scheme p))). exceeds c (Targets spec) \<longrightarrow>
      issued1 (slok_ID (spec_slok hmac (progress_scheme p) channel (spec_ID spec) (progressSLOKTime p))) \<noteq> None) \<and>
    (payload_ok G issued payload \<and> (\<forall>(c, spec)\<in>set (zip (trafficProgress p) (SeedSpecs (progress_scheme p))).
        spec_slok hmac (progress_scheme p) channel (spec_ID spec) (progressSLOKTime p) \<in> G)
      \<longrightarrow> payload_ok G issued1 payload1)"
    by (rule issue_fold [where cache = "derivedSLOKCache (progress_scheme p)"]) (use one ok in \<open>simp_all add: issue_specs_def progress_ok_def\<close>)
  note IH = Cons.IH [OF rest]
  have "issued_for hmac channel p issued1" using fold by (simp add: issued_for_def)
  moreover have "issued1 \<subseteq>\<^sub>m issued'" using IH Cons.prems(2) by (simp add: issues_more_def)
  ultimately have a: "issued_for hmac channel p issued'" by (rule issued_for_mono)
  have b: "checked p (clock i) ?p" by (rule checked_roll_over)
  have c: "progress_ok hmac ?p" using ok fold by (simp add: progress_ok_def)
  have "payload_ok G issued1 payload1"
    if "payload_ok G issued payload" "scheme_sloks hmac channel (map static_scheme (p # ps)) \<subseteq> G"
  proof -
    have "spec_slok hmac (progress_scheme p) channel (spec_ID spec) (progressSLOKTime p) \<in> G"
      if "(c, spec) \<in> set (zip (trafficProgress p) (SeedSpecs (progress_scheme p)))" for c spec
    proof -
      have "spec_slok hmac (static_scheme p) channel (spec_ID spec) (progressSLOKTime p)
          \<in> scheme_sloks hmac channel (map static_scheme (p # ps))"
        unfolding scheme_sloks_def using that
        by (auto simp: static_scheme_def dest!: set_zip_rightD intro!: exI [of _ "static_scheme p"]) blast
      then show ?thesis
        using \<open>scheme_sloks hmac channel (map static_scheme (p # ps)) \<subseteq> G\<close> by (auto simp: static_scheme_def)
    qed
    with fold that(1) show ?thesis by blast
  qed
  moreover have "scheme_sloks hmac channel (map static_scheme ps)
      \<subseteq> scheme_sloks hmac channel (map static_scheme (p # ps))"
    by (auto simp: scheme_sloks_def)
  ultimately have d: "payload_ok G issued payload \<and> scheme_sloks hmac channel (map static_scheme (p # ps)) \<subseteq> G
      \<longrightarrow> payload_ok G issued' payload'"
    using IH Cons.prems(2) by (meson list.set_intros(2) order_trans)
  have e: "issues_more (issued, payload) (issued', payload')"
    using issues_more_trans [of "(issued, payload)" "(issued1, payload1)"] fold IH Cons.prems(2) by simp
  show ?case
    unfolding ps' using d e a b c IH Cons.prems(2) by simp
qed

lemma issueSLOKs_step:
  assumes "\<forall>p\<in>set (seedProgress st). progress_ok hmac p"
  shows "list_all2 (\<lambda>(j, p) p'. checked p (clock j) p' \<and> progress_ok hmac p')
      (enumerate 0 (seedProgress st)) (seedProgress (issueSLOKs hmac clock st))"
    "issues_more (issuedSLOKs st, payloadSLOKs st)
      (issuedSLOKs (issueSLOKs hmac clock st), payloadSLOKs (issueSLOKs hmac clock st))"
    "\<forall>p\<in>set (seedProgress st). issued_for hmac (propagationChannelID st) p (issuedSLOKs (issueSLOKs hmac clock st))"
    "payload_ok G (issuedSLOKs st) (payloadSLOKs st) \<Longrightarrow>
      scheme_sloks hmac (propagationChannelID st) (schemes_of st) \<subseteq> G \<Longrightarrow>
      payload_ok G (issuedSLOKs (issueSLOKs hmac clock st)) (payloadSLOKs (issueSLOKs hmac clock st))"
    "propagationChannelID (issueSLOKs hmac clock st) = propagationChannelID st"
proof -
  obtain ps issued payload where l: "issue_loop hmac clock (propagationChannelID st) 0 (seedProgress st)
      (issuedSLOKs st, payloadSLOKs st) = (ps, issued, payload)" by (metis surj_pair)
  then have st': "issueSLOKs hmac clock st = st\<lparr>seedProgress := ps, issuedSLOKs := issued, payloadSLOKs := payload\<rparr>"
    by (simp add: issueSLOKs_def)
  note step = issue_loop_step [OF l assms]
  show "list_all2 (\<lambda>(j, p) p'. checked p (clock j) p' \<and> progress_ok hmac p')
      (enumerate 0 (seedProgress st)) (seedProgress (issueSLOKs hmac clock st))"
    "issues_more (issuedSLOKs st, payloadSLOKs st)
      (issuedSLOKs (issueSLOKs hmac clock st), payloadSLOKs (issueSLOKs hmac clock st))"
    "\<forall>p\<in>set (seedProgress st). issued_for hmac (propagationChannelID st) p (issuedSLOKs (issueSLOKs hmac clock st))"
    "propagationChannelID (issueSLOKs hmac clock st) = propagationChannelID st"
    using step by (simp_all add: st')
  show "payload_ok G (issuedSLOKs (issueSLOKs hmac clock st)) (payloadSLOKs (issueSLOKs hmac clock st))"
    if "payload_ok G (issuedSLOKs st) (payloadSLOKs st)"
      "scheme_sloks hmac (propagationChannelID st) (schemes_of st) \<subseteq> G"
    using step that by (simp add: st' schemes_of_def)
qed

section \<open>The invariant\<close>

definition seed_inv :: "(bytes \<Rightarrow> bytes \<Rightarrow> bytes) \<Rightarrow> string \<Rightarrow> osl_scheme list \<Rightarrow> seed_state \<Rightarrow> bool" where
  "seed_inv hmac channel schemes st \<longleftrightarrow> propagationChannelID st = channel \<and> schemes_of st = schemes \<and>
    (\<forall>p\<in>set (seedProgress st). progress_ok hmac p) \<and>
    payload_ok (scheme_sloks hmac channel schemes) (issuedSLOKs st) (payloadSLOKs st)"

lemma seed_inv_issue [inv_intros]:
  assumes "seed_inv hmac channel schemes st"
  shows "seed_inv hmac channel schemes (issueSLOKs hmac clock st)"
proof -
  have ok: "\<forall>p\<in>set (seedProgress st). progress_ok hmac p" using assms by (simp add: seed_inv_def)
  note step = issueSLOKs_step [OF ok, where clock = clock]
  from step(1) have "schemes_of (issueSLOKs hmac clock st) = schemes_of st"
    "\<forall>p\<in>set (seedProgress (issueSLOKs hmac clock st)). progress_ok hmac p"
    by (auto simp: schemes_of_def list_all2_conv_all_nth checked_def nth_enumerate_eq in_set_conv_nth
        intro!: nth_equalityI)
  then show ?thesis using assms step(4,5) by (simp add: seed_inv_def)
qed

lemma seed_inv_signal [inv_intros]:
  "seed_inv hmac channel schemes st \<Longrightarrow> seed_inv hmac channel schemes (sendIssueSLOKsSignal st)"
  by (auto simp: seed_inv_def sendIssueSLOKsSignal_def schemes_of_def split: option.split)

lemma seed_inv_hibernate [inv_intros]:
  "seed_inv hmac channel schemes st \<Longrightarrow> seed_inv hmac channel schemes (Hibernate st)"
  "seed_inv hmac channel schemes st \<Longrightarrow> seed_inv hmac channel schemes (Resume signal st)"
  "seed_inv hmac channel schemes st \<Longrightarrow> seed_inv hmac channel schemes (ClearSeedPayload st)"
  by (simp_all add: seed_inv_def Hibernate_def Resume_def ClearSeedPayload_def schemes_of_def payload_ok_def)

definition valid_ref :: "osl_scheme list \<Rightarrow> progress_reference \<Rightarrow> bool" where
  "valid_ref schemes ref \<longleftrightarrow> seedProgressIndex ref < length schemes \<and>
    trafficProgressIndex ref < length (SeedSpecs (schemes ! seedProgressIndex ref))"

lemma seed_inv_add [inv_intros]:
  assumes "seed_inv hmac channel schemes st" "valid_ref schemes ref"
  shows "seed_inv hmac channel schemes (add_progress ref r w d st)"
proof -
  let ?p = "seedProgress st ! seedProgressIndex ref"
  let ?p' = "?p\<lparr>trafficProgress := (trafficProgress ?p)[trafficProgressIndex ref :=
    add_traffic (trafficProgress ?p ! trafficProgressIndex ref) r w d]\<rparr>"
  let ?st = "st\<lparr>seedProgress := (seedProgress st)[seedProgressIndex ref := ?p']\<rparr>"
  have i: "seedProgressIndex ref < length (seedProgress st)"
    using assms by (auto simp: seed_inv_def valid_ref_def schemes_of_def)
  then have "progress_ok hmac ?p" using assms(1) by (simp add: seed_inv_def)
  then have "progress_ok hmac ?p'" by (simp add: progress_ok_def)
  moreover have "schemes_of ?st = schemes_of st"
    using i by (auto simp: schemes_of_def static_scheme_def map_update intro!: nth_equalityI simp: nth_list_update)
  ultimately have "seed_inv hmac channel schemes ?st"
    using assms(1) by (auto simp: seed_inv_def dest!: set_update_subset_insert [THEN subsetD])
  then show ?thesis by (simp add: add_progress_def Let_def seed_inv_signal)
qed

lemma seed_inv_update_one [inv_intros]:
  "seed_inv hmac channel schemes st \<Longrightarrow> valid_ref schemes ref \<Longrightarrow>
    seed_inv hmac channel schemes (update_one hmac clock r w d ref st)"
  unfolding update_one_def Let_def by (intro inv_intros) (auto intro: inv_intros)

lemma seed_inv_update [inv_intros]:
  "seed_inv hmac channel schemes st \<Longrightarrow> \<forall>ref\<in>set refs. valid_ref schemes ref \<Longrightarrow>
    seed_inv hmac channel schemes (UpdateProgress hmac clock r w d refs st)"
  by (induction hmac clock r w d refs st rule: UpdateProgress.induct) (auto intro: inv_intros)

lemma seed_inv_payload [inv_intros]:
  "seed_inv hmac channel schemes st \<Longrightarrow> seed_inv hmac channel schemes (snd (GetSeedPayload hmac clock st))"
  by (auto simp: GetSeedPayload_def Let_def intro: inv_intros)

lemma select_schemes_ok:
  assumes "\<forall>scheme\<in>set schemes. derivedSLOKCache scheme = Map.empty"
  shows "\<forall>p\<in>set (select_schemes clock region channel i schemes).
    progress_ok hmac p \<and> static_scheme p \<in> set schemes"
  using assms
proof (induction schemes arbitrary: i)
  case Nil
  then show ?case by simp
next
  case (Cons scheme schemes)
  have "scheme\<lparr>derivedSLOKCache := Map.empty\<rparr> = scheme" using Cons.prems by (cases scheme) simp
  then show ?case using Cons by (auto simp: progress_ok_def cache_ok_def static_scheme_def)
qed

lemma seed_inv_new [inv_intros]:
  assumes "\<forall>scheme\<in>set schemes. derivedSLOKCache scheme = Map.empty"
  shows "seed_inv hmac channel (schemes_of (NewClientSeedState schemes clock region channel signal))
    (NewClientSeedState schemes clock region channel signal)"
  using select_schemes_ok [OF assms]
  by (simp add: seed_inv_def NewClientSeedState_def schemes_of_def payload_ok_def)

section \<open>Port forwards\<close>

definition spec_matches :: "bytes \<Rightarrow> (bytes \<Rightarrow> string) option \<Rightarrow> seed_spec \<Rightarrow> ip_net list \<Rightarrow> bool" where
  "spec_matches ip lookupASN spec subnets \<longleftrightarrow> ContainsIPAddress subnets ip \<or>
    (\<exists>f. lookupASN = Some f \<and> f ip \<in> set (UpstreamASNs spec))"

lemma match_specs_refs:
  assumes "\<forall>(spec, subnets)\<in>set xs. upstreamASNLookup spec = NewStringLookup (UpstreamASNs spec)"
    and "\<forall>a. asn = Some a \<longrightarrow> (\<exists>f. lookupASN = Some f \<and> a = f ip)"
  shows "ref \<in> set (match_specs ip lookupASN spi tpi asn xs) \<longleftrightarrow>
    (\<exists>j<length xs. ref = \<lparr>seedProgressIndex = spi, trafficProgressIndex = tpi + j\<rparr> \<and>
      spec_matches ip lookupASN (fst (xs ! j)) (snd (xs ! j)))"
  using assms
proof (induction xs arbitrary: tpi asn)
  case Nil
  then show ?case by simp
next
  case (Cons x xs)
  obtain spec subnets where x: "x = (spec, subnets)" by (cases x)
  let ?c = "\<not> ContainsIPAddress subnets ip \<and> lookupASN \<noteq> None \<and> length (UpstreamASNs spec) > 0"
  let ?a = "case asn of None \<Rightarrow> the lookupASN ip | Some a \<Rightarrow> a"
  let ?m = "if ?c then StringLookup_Contains (upstreamASNLookup spec) ?a else ContainsIPAddress subnets ip"
  let ?asn = "if ?c then Some ?a else asn"
  let ?rest = "match_specs ip lookupASN spi (tpi + 1) ?asn xs"
  have step: "match_specs ip lookupASN spi tpi asn (x # xs) = (if ?m
      then \<lparr>seedProgressIndex = spi, trafficProgressIndex = tpi\<rparr> # ?rest else ?rest)"
    by (simp add: x Let_def)
  have asn: "\<forall>a. ?asn = Some a \<longrightarrow> (\<exists>f. lookupASN = Some f \<and> a = f ip)"
    using Cons.prems(2) by (auto split: option.splits)
  have m: "?m \<longleftrightarrow> spec_matches ip lookupASN spec subnets"
    using Cons.prems by (auto simp: x spec_matches_def strings.member_build split: option.splits)
  have "ref \<in> set (match_specs ip lookupASN spi tpi asn (x # xs)) \<longleftrightarrow>
      (spec_matches ip lookupASN spec subnets \<and> ref = \<lparr>seedProgressIndex = spi, trafficProgressIndex = tpi\<rparr>)
      \<or> ref \<in> set ?rest"
    unfolding step m by auto
  also have "ref \<in> set ?rest \<longleftrightarrow> (\<exists>j<length xs. ref = \<lparr>seedProgressIndex = spi, trafficProgressIndex = tpi + 1 + j\<rparr> \<and>
      spec_matches ip lookupASN (fst (xs ! j)) (snd (xs ! j)))"
    using Cons.prems asn by (intro Cons.IH) auto
  finally show ?case by (auto simp: x Ex_less_Suc2)
qed

lemma match_schemes_refs:
  assumes "\<forall>p\<in>set ps. list_all2 (\<lambda>spec subnets. upstreamASNLookup spec = NewStringLookup (UpstreamASNs spec))
      (SeedSpecs (progress_scheme p)) (subnetLookups (progress_scheme p))"
  shows "ref \<in> set (match_schemes ip lookupASN spi ps) \<longleftrightarrow>
    (\<exists>i<length ps. \<exists>j<length (SeedSpecs (progress_scheme (ps ! i))).
      ref = \<lparr>seedProgressIndex = spi + i, trafficProgressIndex = j\<rparr> \<and>
      spec_matches ip lookupASN (SeedSpecs (progress_scheme (ps ! i)) ! j)
        (subnetLookups (progress_scheme (ps ! i)) ! j))"
  using assms
proof (induction ps arbitrary: spi)
  case Nil
  then show ?case by simp
next
  case (Cons p ps)
  let ?specs = "SeedSpecs (progress_scheme p)" and ?subs = "subnetLookups (progress_scheme p)"
  have len: "length ?subs = length ?specs" using Cons.prems by (auto dest: list_all2_lengthD)
  have "\<forall>(spec, subnets)\<in>set (zip ?specs ?subs). upstreamASNLookup spec = NewStringLookup (UpstreamASNs spec)"
    using Cons.prems by (auto simp: list_all2_iff)
  from match_specs_refs [OF this, of None lookupASN ip ref spi 0]
  have one: "ref \<in> set (match_specs ip lookupASN spi 0 None (zip ?specs ?subs)) \<longleftrightarrow>
    (\<exists>j<length ?specs. ref = \<lparr>seedProgressIndex = spi, trafficProgressIndex = j\<rparr> \<and>
      spec_matches ip lookupASN (?specs ! j) (?subs ! j))" using len by auto
  show ?case
    using one Cons.IH [of "spi + 1"] Cons.prems
    by (auto simp: Ex_less_Suc2)
qed

section \<open>Reachable states\<close>

text \<open>
  The states of a client in any order of its operations. The references of a port forward
  depend only on the schemes, which never change, so a port forward made earlier is the same
  as one made now.
\<close>

inductive seed_reachable :: "(bytes \<Rightarrow> bytes \<Rightarrow> bytes) \<Rightarrow> osl_scheme list \<Rightarrow> seed_state \<Rightarrow> bool"
  for hmac schemes where
  new: "seed_reachable hmac schemes (NewClientSeedState schemes clock region channel signal)"
| update: "seed_reachable hmac schemes st \<Longrightarrow> NewClientSeedPortForward st ip lookupASN = Some refs \<Longrightarrow>
    seed_reachable hmac schemes (UpdateProgress hmac clock r w d refs st)"
| payload: "seed_reachable hmac schemes st \<Longrightarrow> GetSeedPayload hmac clock' st = (sloks, st') \<Longrightarrow>
    seed_reachable hmac schemes st'"
| clear: "seed_reachable hmac schemes st \<Longrightarrow> seed_reachable hmac schemes (ClearSeedPayload st)"
| hibernate: "seed_reachable hmac schemes st \<Longrightarrow> seed_reachable hmac schemes (Hibernate st)"
| resume: "seed_reachable hmac schemes st \<Longrightarrow> seed_reachable hmac schemes (Resume signal st)"

definition loaded_schemes :: "osl_scheme list \<Rightarrow> bool" where
  "loaded_schemes schemes \<longleftrightarrow> (\<forall>scheme\<in>set schemes. \<exists>nsl. loaded_scheme nsl scheme)"

lemma port_forward_refs:
  assumes "loaded_schemes schemes" "set (schemes_of st) \<subseteq> set schemes"
    and "NewClientSeedPortForward st ip lookupASN = Some refs"
  shows "ref \<in> set refs \<longleftrightarrow> valid_ref (schemes_of st) ref \<and>
    spec_matches ip lookupASN
      (SeedSpecs (schemes_of st ! seedProgressIndex ref) ! trafficProgressIndex ref)
      (subnetLookups (schemes_of st ! seedProgressIndex ref) ! trafficProgressIndex ref)"
proof -
  have "list_all2 (\<lambda>spec subnets. upstreamASNLookup spec = NewStringLookup (UpstreamASNs spec))
      (SeedSpecs (progress_scheme p)) (subnetLookups (progress_scheme p))" if "p \<in> set (seedProgress st)" for p
  proof -
    have "static_scheme p \<in> set schemes" using assms(2) that by (auto simp: schemes_of_def)
    then obtain nsl where "list_all2 (loaded_spec nsl) (SeedSpecs (static_scheme p)) (subnetLookups (static_scheme p))"
      using assms(1) by (auto simp: loaded_schemes_def loaded_scheme_def)
    then show ?thesis by (auto simp: static_scheme_def loaded_spec_def elim: list_all2_mono)
  qed
  then have m: "ref \<in> set (match_schemes ip lookupASN 0 (seedProgress st)) \<longleftrightarrow>
    (\<exists>i<length (seedProgress st). \<exists>j<length (SeedSpecs (progress_scheme (seedProgress st ! i))).
      ref = \<lparr>seedProgressIndex = 0 + i, trafficProgressIndex = j\<rparr> \<and>
      spec_matches ip lookupASN (SeedSpecs (progress_scheme (seedProgress st ! i)) ! j)
        (subnetLookups (progress_scheme (seedProgress st ! i)) ! j))"
    by (intro match_schemes_refs) blast
  have "refs = match_schemes ip lookupASN 0 (seedProgress st)"
    using assms(3) by (simp add: NewClientSeedPortForward_def Let_def split: if_splits)
  moreover obtain i j where "ref = \<lparr>seedProgressIndex = i, trafficProgressIndex = j\<rparr>"
    by (cases ref) auto
  ultimately show ?thesis
    using m by (auto simp: valid_ref_def schemes_of_def static_scheme_def)
qed

lemma seed_reachable_inv:
  assumes "seed_reachable hmac schemes st" and "loaded_schemes schemes"
  shows "seed_inv hmac (propagationChannelID st) (schemes_of st) st \<and> set (schemes_of st) \<subseteq> set schemes"
  using assms(1)
proof induction
  case (new clock region channel signal)
  have "\<forall>scheme\<in>set schemes. derivedSLOKCache scheme = Map.empty"
    using assms(2) by (auto simp: loaded_schemes_def loaded_scheme_def)
  from select_schemes_ok [OF this] seed_inv_new [OF this] show ?case
    by (fastforce simp: NewClientSeedState_def schemes_of_def)
next
  case (update st ip lookupASN refs clock r w d)
  then have "\<forall>ref\<in>set refs. valid_ref (schemes_of st) ref"
    using port_forward_refs [OF assms(2)] by blast
  with update have "seed_inv hmac (propagationChannelID st) (schemes_of st) (UpdateProgress hmac clock r w d refs st)"
    by (blast intro: inv_intros)
  with update show ?case by (metis seed_inv_def)
next
  case (payload st clock' sloks st')
  then have "seed_inv hmac (propagationChannelID st) (schemes_of st) st'"
    using seed_inv_payload [of hmac "propagationChannelID st" "schemes_of st" st clock'] by simp
  with payload show ?case by (metis seed_inv_def)
qed (auto simp: Hibernate_def Resume_def ClearSeedPayload_def seed_inv_def schemes_of_def payload_ok_def)

section \<open>Properties\<close>

text \<open>
  In every reachable state a client has only been issued SLOKs of its own channel and
  schemes, filed under their IDs, and its payload holds issued SLOKs, each once.
\<close>

lemma seed_state_sound:
  assumes "seed_reachable hmac schemes st" and "loaded_schemes schemes"
  shows "(\<forall>id s. issuedSLOKs st id = Some s \<longrightarrow> slok_ID s = id \<and>
      s \<in> scheme_sloks hmac (propagationChannelID st) (schemes_of st)) \<and>
    (\<forall>s\<in>set (payloadSLOKs st). issuedSLOKs st (slok_ID s) = Some s) \<and>
    distinct (map slok_ID (payloadSLOKs st)) \<and> set (schemes_of st) \<subseteq> set schemes"
  using seed_reachable_inv [OF assms] by (simp add: seed_inv_def payload_ok_def)

lemma loaded_example_scheme: "loaded_scheme (\<lambda>_. Some []) (loaded_example 5)"
  using load_schemes_loaded [OF load_example [of 5, unfolded LoadConfig_def]] by (simp add: Round_def zero_time_def)

lemma loaded_example_schemes: "loaded_schemes [loaded_example 5]"
  using loaded_example_scheme by (auto simp: loaded_schemes_def)

definition example_state :: seed_state where
  "example_state = NewClientSeedState [loaded_example 5] (\<lambda>_. (11, 12)) ''US'' ''P'' (Some (1, 0))"

lemma example_reachable: "seed_reachable hmac [loaded_example 5] example_state"
  unfolding example_state_def by (rule seed_reachable.new)

text \<open>
  A port forward counts for a seed spec exactly when the upstream address is in the
  spec's subnets or its ASN is one of the spec's.
\<close>

lemma port_forward_specs:
  assumes "seed_reachable hmac schemes st" and "loaded_schemes schemes"
    and "NewClientSeedPortForward st ip lookupASN = Some refs"
  shows "ref \<in> set refs \<longleftrightarrow> valid_ref (schemes_of st) ref \<and>
    spec_matches ip lookupASN
      (SeedSpecs (schemes_of st ! seedProgressIndex ref) ! trafficProgressIndex ref)
      (subnetLookups (schemes_of st ! seedProgressIndex ref) ! trafficProgressIndex ref)"
  using seed_reachable_inv [OF assms(1,2)] by (intro port_forward_refs [OF assms(2) _ assms(3)]) simp

definition example_refs :: "progress_reference list" where
  "example_refs = [\<lparr>seedProgressIndex = 0, trafficProgressIndex = 0\<rparr>, \<lparr>seedProgressIndex = 0, trafficProgressIndex = 1\<rparr>]"

lemma example_port_forward:
  "NewClientSeedPortForward example_state [1, 2, 3, 4] (Some (\<lambda>_. ''64496'')) = Some example_refs"
  by (simp add: NewClientSeedPortForward_def example_state_def NewClientSeedState_def loaded_example_def
      example_scheme_def example_spec_def ContainsIPAddress_def sort_Search.simps strings.member_build
      To4_def example_refs_def Let_def)

text \<open>
  After the client has acknowledged a payload, the next one holds only SLOKs that were
  never issued to it before, each once.
\<close>

lemma payload_no_repeats:
  assumes "seed_reachable hmac schemes st" and "loaded_schemes schemes"
    and "GetSeedPayload hmac clock (ClearSeedPayload st) = (sloks, st')"
  shows "(\<forall>s\<in>set sloks. issuedSLOKs st (slok_ID s) = None \<and> issuedSLOKs st' (slok_ID s) = Some s)
    \<and> distinct (map slok_ID sloks) \<and> issuedSLOKs st \<subseteq>\<^sub>m issuedSLOKs st'"
proof (cases "seedProgress st = []")
  case True
  with assms(3) have "sloks = []" "st' = ClearSeedPayload st"
    by (auto simp: GetSeedPayload_def ClearSeedPayload_def)
  then show ?thesis by (simp add: ClearSeedPayload_def)
next
  case False
  let ?st = "ClearSeedPayload st"
  have inv: "seed_inv hmac (propagationChannelID st) (schemes_of st) ?st"
    using seed_reachable_inv [OF assms(1,2)] by (blast intro: inv_intros)
  then have ok: "\<forall>p\<in>set (seedProgress ?st). progress_ok hmac p" by (simp add: seed_inv_def)
  from assms(3) False have eq: "st' = issueSLOKs hmac clock ?st" "sloks = payloadSLOKs st'"
    by (auto simp: GetSeedPayload_def ClearSeedPayload_def Let_def)
  have "seed_inv hmac (propagationChannelID st) (schemes_of st) st'"
    unfolding eq(1) using inv by (rule seed_inv_issue)
  moreover have "issues_more (issuedSLOKs st, []) (issuedSLOKs st', sloks)"
    using issueSLOKs_step(2) [OF ok, of clock] by (simp add: eq ClearSeedPayload_def)
  ultimately show ?thesis
    by (auto simp: issues_more_def seed_inv_def payload_ok_def eq(2))
qed

text \<open>
  When the traffic of a seed spec has met its targets, the payload makes the SLOK of the
  spec and of the period of that traffic known to the client: it is issued, and it is in this
  payload unless it was issued before.
\<close>

lemma payload_complete:
  assumes "seed_reachable hmac schemes st" and "loaded_schemes schemes"
    and "GetSeedPayload hmac clock st = (sloks, st')"
    and i: "i < length (seedProgress st)" "p = seedProgress st ! i"
    and j: "j < length (SeedSpecs (progress_scheme p))" "spec = SeedSpecs (progress_scheme p) ! j"
    and ex: "exceeds (trafficProgress p ! j) (Targets spec)"
    and sid: "slokID = slok_ID (spec_slok hmac (progress_scheme p) (propagationChannelID st) (spec_ID spec) (progressSLOKTime p))"
  shows "issuedSLOKs st' slokID \<noteq> None \<and> (issuedSLOKs st slokID = None \<longrightarrow> (\<exists>s\<in>set sloks. slok_ID s = slokID))"
proof -
  have inv: "seed_inv hmac (propagationChannelID st) (schemes_of st) st"
    using seed_reachable_inv [OF assms(1,2)] by blast
  then have ok: "\<forall>p\<in>set (seedProgress st). progress_ok hmac p" by (simp add: seed_inv_def)
  have eq: "st' = issueSLOKs hmac clock st" "sloks = payloadSLOKs st'"
    using assms(3) i by (auto simp: GetSeedPayload_def Let_def split: if_splits)
  note step = issueSLOKs_step [OF ok, where clock = clock]
  have p: "p \<in> set (seedProgress st)" using i by simp
  with ok have "length (trafficProgress p) = length (SeedSpecs (progress_scheme p))"
    by (simp add: progress_ok_def)
  then have "(trafficProgress p ! j, spec) \<in> set (zip (trafficProgress p) (SeedSpecs (progress_scheme p)))"
    using j by (auto simp: set_zip intro!: exI [of _ j])
  moreover have "issued_for hmac (propagationChannelID st) p (issuedSLOKs st')"
    using step(3) p by (simp add: eq)
  ultimately have "issuedSLOKs st' slokID \<noteq> None" using ex by (fastforce simp: issued_for_def sid)
  moreover have "issues_more (issuedSLOKs st, payloadSLOKs st) (issuedSLOKs st', sloks)"
    using step(2) by (simp add: eq)
  ultimately show ?thesis unfolding issues_more_def by auto blast
qed

text \<open>The concrete client after 100 bytes of traffic in the period that starts at 10\<close>

definition seeded_state :: seed_state where
  "seeded_state = UpdateProgress example_hmac (\<lambda>_ _. 13) 100 0 0 example_refs example_state"

lemma seeded_reachable: "seed_reachable example_hmac [loaded_example 5] seeded_state"
  unfolding seeded_state_def
  by (rule seed_reachable.update [OF example_reachable example_port_forward])

lemma seedProgress_signal [simp]: "seedProgress (sendIssueSLOKsSignal st) = seedProgress st"
  by (simp add: sendIssueSLOKsSignal_def split: option.split)

lemma add_progress_seedProgress:
  "seedProgress (add_progress ref r w d st) = (let p = seedProgress st ! seedProgressIndex ref in
    (seedProgress st)[seedProgressIndex ref := p\<lparr>trafficProgress := (trafficProgress p)[trafficProgressIndex ref :=
      add_traffic (trafficProgress p ! trafficProgressIndex ref) r w d]\<rparr>])"
  by (simp add: add_progress_def Let_def)

lemma example_progress:
  "seedProgress example_state = [\<lparr>progressSLOKTime = 10, progress_scheme = loaded_example 5,
    trafficProgress = [newTrafficCounters, newTrafficCounters]\<rparr>]"
  by (simp add: example_state_def NewClientSeedState_def loaded_example_def example_scheme_def
      getSLOKTime_def Truncate_def zero_time_def)

lemma example_time: "getSLOKTime 13 (SeedPeriodNanoseconds (loaded_example 5)) = 10"
  by (simp add: getSLOKTime_def Truncate_def zero_time_def loaded_example_def)

lemma seeded_progress:
  "\<exists>scheme. seedProgress seeded_state = [\<lparr>progressSLOKTime = 10, progress_scheme = scheme,
    trafficProgress = [\<lparr>bytesRead = 100, bytesWritten = 0, portForwardDurationNanoseconds = 0\<rparr>,
      \<lparr>bytesRead = 100, bytesWritten = 0, portForwardDurationNanoseconds = 0\<rparr>]\<rparr>]
    \<and> scheme = loaded_example 5"
  by (simp add: seeded_state_def example_refs_def update_one_def add_progress_seedProgress example_progress
      example_time Let_def add_traffic_def newTrafficCounters_def)

text \<open>
  Traffic counts for the period it happens in: when the period of the spec's scheme has
  changed since the progress was last recorded, the old counts are dropped and the counter is
  exactly the new traffic, and otherwise the traffic is added to it.
\<close>

lemma update_counts:
  assumes "seed_reachable hmac schemes st" and "loaded_schemes schemes"
    and ref: "valid_ref (schemes_of st) \<lparr>seedProgressIndex = i, trafficProgressIndex = j\<rparr>"
    and period: "\<And>k. getSLOKTime (clock k) (SeedPeriodNanoseconds (progress_scheme (seedProgress st ! i))) = t"
  shows "let p = seedProgress st ! i;
      p' = seedProgress (UpdateProgress hmac (\<lambda>_. clock) r w d [\<lparr>seedProgressIndex = i, trafficProgressIndex = j\<rparr>] st) ! i
    in progressSLOKTime p' = t \<and> trafficProgress p' ! j =
      add_traffic (if t = progressSLOKTime p then trafficProgress p ! j else newTrafficCounters) r w d"
proof -
  have inv: "seed_inv hmac (propagationChannelID st) (schemes_of st) st"
    using seed_reachable_inv [OF assms(1,2)] by blast
  then have ok: "\<forall>p\<in>set (seedProgress st). progress_ok hmac p" by (simp add: seed_inv_def)
  let ?p = "seedProgress st ! i"
  have ij: "i < length (seedProgress st)" "j < length (SeedSpecs (progress_scheme ?p))"
    using ref by (auto simp: valid_ref_def schemes_of_def static_scheme_def)
  with ok have jl: "j < length (trafficProgress ?p)" by (simp add: progress_ok_def)
  let ?st = "issueSLOKs hmac (\<lambda>i. clock (Suc i)) st"
  have la: "list_all2 (\<lambda>(j, p) p'. checked p (clock (Suc j)) p' \<and> progress_ok hmac p')
      (enumerate 0 (seedProgress st)) (seedProgress ?st)"
    by (rule issueSLOKs_step(1) [OF ok])
  then have c: "checked ?p (clock (Suc i)) (seedProgress ?st ! i)" and len: "length (seedProgress ?st) = length (seedProgress st)"
    using ij(1) by (auto simp: list_all2_conv_all_nth nth_enumerate_eq)
  have s: "seedProgress (sendIssueSLOKsSignal x) = seedProgress x" for x
    by (auto simp: sendIssueSLOKsSignal_def split: option.split)
  define q where "q = (if t \<noteq> progressSLOKTime ?p then sendIssueSLOKsSignal ?st else st)"
  have u: "update_one hmac clock r w d \<lparr>seedProgressIndex = i, trafficProgressIndex = j\<rparr> st
      = add_progress \<lparr>seedProgressIndex = i, trafficProgressIndex = j\<rparr> r w d q"
    by (simp add: update_one_def Let_def period q_def)
  have q: "length (seedProgress q) = length (seedProgress st)" "progressSLOKTime (seedProgress q ! i) = t"
    "trafficProgress (seedProgress q ! i) = (if t = progressSLOKTime ?p then trafficProgress ?p
      else map (\<lambda>_. newTrafficCounters) (trafficProgress ?p))"
    using c len period by (auto simp: q_def s checked_def Let_def)
  have "seedProgress (add_progress \<lparr>seedProgressIndex = i, trafficProgressIndex = j\<rparr> r w d q) ! i
      = (seedProgress q ! i)\<lparr>trafficProgress := (trafficProgress (seedProgress q ! i))[j :=
        add_traffic (trafficProgress (seedProgress q ! i) ! j) r w d]\<rparr>"
    using q(1) ij(1) by (simp add: add_progress_def Let_def s)
  then show ?thesis using q jl by (auto simp: u Let_def)
qed

end
