(* ===== verification/GoChan.thy ===== *)
theory GoChan
  imports Prelude
begin

text \<open>
  Buffered Go channels, as the tunnel core uses them: a capacity and the queued values, with
  the non-blocking send and receive (\<open>select\<close> with a \<open>default\<close> case) and the blocking send,
  which is \<open>None\<close> when it would block.
\<close>

record 'a chan =
  chan_cap :: nat
  chan_queue :: "'a list"

definition make_chan :: "nat \<Rightarrow> 'a chan" where
  "make_chan n = \<lparr>chan_cap = n, chan_queue = []\<rparr>"

definition try_send :: "'a \<Rightarrow> 'a chan \<Rightarrow> bool \<times> 'a chan" where
  "try_send v c = (if length (chan_queue c) < chan_cap c
    then (True, c\<lparr>chan_queue := chan_queue c @ [v]\<rparr>) else (False, c))"

definition try_recv :: "'a chan \<Rightarrow> 'a option \<times> 'a chan" where
  "try_recv c = (case chan_queue c of [] \<Rightarrow> (None, c) | v # vs \<Rightarrow> (Some v, c\<lparr>chan_queue := vs\<rparr>))"

definition send :: "'a \<Rightarrow> 'a chan \<Rightarrow> 'a chan option" where
  "send v c = (case try_send v c of (True, c') \<Rightarrow> Some c' | (False, _) \<Rightarrow> None)"

definition chan_ok :: "'a chan \<Rightarrow> bool" where
  "chan_ok c \<longleftrightarrow> length (chan_queue c) \<le> chan_cap c"

text \<open>The contract of a bounded first-in first-out channel.\<close>

locale bounded_channel =
  fixes contents :: "'c \<Rightarrow> 'v list" and capacity :: "'c \<Rightarrow> nat"
    and offer :: "'v \<Rightarrow> 'c \<Rightarrow> bool \<times> 'c" and poll :: "'c \<Rightarrow> 'v option \<times> 'c"
  assumes offer_room: "length (contents c) < capacity c \<Longrightarrow>
      \<exists>c'. offer v c = (True, c') \<and> contents c' = contents c @ [v] \<and> capacity c' = capacity c"
    and offer_full: "\<not> length (contents c) < capacity c \<Longrightarrow> offer v c = (False, c)"
    and poll_empty: "contents c = [] \<Longrightarrow> poll c = (None, c)"
    and poll_next: "contents c = v # vs \<Longrightarrow>
      \<exists>c'. poll c = (Some v, c') \<and> contents c' = vs \<and> capacity c' = capacity c"
begin

text \<open>A queue that makes room by dropping its oldest value when it is full.\<close>

definition push_dropping :: "'v \<Rightarrow> 'c \<Rightarrow> 'c" where
  "push_dropping v c = (case offer v c of (True, c') \<Rightarrow> c'
    | (False, _) \<Rightarrow> snd (offer v (snd (poll c))))"

lemma push_dropping_room:
  "length (contents c) < capacity c \<Longrightarrow> contents (push_dropping v c) = contents c @ [v]"
  using offer_room [of c v] by (auto simp: push_dropping_def)

lemma push_dropping_full:
  assumes "length (contents c) = capacity c" "0 < capacity c"
  shows "contents (push_dropping v c) = tl (contents c) @ [v]"
proof -
  obtain x xs where x: "contents c = x # xs" using assms by (cases "contents c") auto
  obtain c' where c': "poll c = (Some x, c')" "contents c' = xs" "capacity c' = capacity c"
    using poll_next [OF x] by blast
  have "length (contents c') < capacity c'" using assms x c' by simp
  from offer_room [OF this, of v] offer_full [of c v] assms x c' show ?thesis
    by (auto simp: push_dropping_def)
qed

lemma push_dropping_last:
  assumes "length (contents c) \<le> capacity c" "0 < capacity c"
  shows "contents (push_dropping v c) \<noteq> [] \<and> last (contents (push_dropping v c)) = v"
  using push_dropping_room [of c v] push_dropping_full [of c v] assms
  by (cases "length (contents c) < capacity c") auto

end

interpretation ch: bounded_channel chan_queue chan_cap try_send try_recv
  by standard (auto simp: try_send_def try_recv_def)

lemma send_room:
  "length (chan_queue c) < chan_cap c \<Longrightarrow> send v c = Some (c\<lparr>chan_queue := chan_queue c @ [v]\<rparr>)"
  by (simp add: send_def try_send_def)

end
