(* ===== verification/MeekBuffer.thy ===== *)
theory MeekBuffer
  imports GoChan
begin

text \<open>
  The response cache of the meek server, \<open>psiphon/server/meekBuffer.go\<close>: a ring buffer of
  fixed-size buffers that borrows further buffers from a shared pool, and from which a client
  that lost its connection reads the response again from any retained position.

  Lengths and positions inside the cache are naturals; the position a client asks for is an
  integer. The pool is a state of its own, because several responses share it. The loops of
  \<open>Write\<close> and \<open>CopyFromPosition\<close> are \<open>partial_function\<close>s: a cache of empty buffers never
  ends them. A writer is a function from what it has taken so far and a chunk to the
  number of bytes it takes and whether it fails.
\<close>

section \<open>The code\<close>

record buffer_pool =
  bufferSize :: nat
  pool_buffers :: "bytes chan"
  pool_limit :: nat

definition NewCachedResponseBufferPool :: "nat \<Rightarrow> nat \<Rightarrow> nat \<Rightarrow> buffer_pool" where
  "NewCachedResponseBufferPool bufSize bufferCount limit = \<lparr>bufferSize = bufSize,
    pool_buffers = (make_chan bufferCount)\<lparr>chan_queue := replicate bufferCount []\<rparr>, pool_limit = limit\<rparr>"

definition Get :: "buffer_pool \<Rightarrow> bytes option \<times> buffer_pool" where
  "Get pool = (case try_recv (pool_buffers pool) of
      (None, _) \<Rightarrow> (None, pool)
    | (Some buffer, c) \<Rightarrow>
        (Some (if length buffer = 0 then replicate (bufferSize pool) 0 else buffer), pool\<lparr>pool_buffers := c\<rparr>))"

definition Put :: "bytes \<Rightarrow> buffer_pool \<Rightarrow> buffer_pool option" where
  "Put buffer pool = map_option (\<lambda>c. pool\<lparr>pool_buffers := c\<rparr>) (send buffer (pool_buffers pool))"

record cached_response =
  buffers :: "bytes list"
  readPosition :: nat
  readAvailable :: nat
  writeIndex :: nat
  writeBufferIndex :: nat
  overwriting :: bool

definition NewCachedResponse :: "nat \<Rightarrow> cached_response" where
  "NewCachedResponse bufSize = \<lparr>buffers = [replicate bufSize 0], readPosition = 0, readAvailable = 0,
    writeIndex = 0, writeBufferIndex = 0, overwriting = False\<rparr>"

fun put_all :: "bytes list \<Rightarrow> buffer_pool \<Rightarrow> buffer_pool option" where
  "put_all [] pool = Some pool"
| "put_all (b # bs) pool = Option.bind (Put b pool) (put_all bs)"

definition Reset :: "cached_response \<Rightarrow> buffer_pool \<Rightarrow> (cached_response \<times> buffer_pool) option" where
  "Reset response pool = map_option (\<lambda>pool.
      (\<lparr>buffers = take 1 (buffers response), readPosition = 0, readAvailable = 0,
        writeIndex = 0, writeBufferIndex = 0, overwriting = False\<rparr>, pool))
    (put_all (drop 1 (buffers response)) pool)"

definition Available :: "cached_response \<Rightarrow> nat" where
  "Available response = readAvailable response"

definition HasPosition :: "cached_response \<Rightarrow> int \<Rightarrow> bool" where
  "HasPosition response position =
    (if readAvailable response = 0 then False
     else position \<ge> int (readPosition response)
       \<and> position \<le> int (readPosition response + readAvailable response))"

type_synonym writer = "bytes \<Rightarrow> bytes \<Rightarrow> nat \<times> bool"

text \<open>The loop over the buffers; the result is what the writer took and whether it failed.\<close>

partial_function (option) copy_loop ::
  "writer \<Rightarrow> bytes list \<Rightarrow> nat \<Rightarrow> nat \<Rightarrow> nat \<Rightarrow> nat \<Rightarrow> bytes \<Rightarrow> (bytes \<times> bool) option" where
  "copy_loop writer bufs bufferIndex index skip available out =
    (if available > 0 then
       let buffer = bufs ! bufferIndex;
           toCopy = min (length buffer - index) available;
           available = available - toCopy;
           (index, toCopy, skip) = (if skip > 0 then
              (if toCopy \<ge> skip then (index + skip, toCopy - skip, 0) else (index, toCopy, skip - toCopy))
            else (index, toCopy, skip));
           next = (bufferIndex + 1) mod length bufs
       in if skip = 0 then
            let chunk = take toCopy (drop index buffer); (written, err) = writer out chunk
            in if err then Some (out @ take written chunk, True)
               else copy_loop writer bufs next 0 skip available (out @ take written chunk)
          else copy_loop writer bufs next 0 skip available out
     else Some (out, False))"

text \<open>\<open>Inl\<close> is the error for a position that is not available.\<close>

definition CopyFromPosition :: "cached_response \<Rightarrow> int \<Rightarrow> writer \<Rightarrow> (unit + bytes \<times> bool) option" where
  "CopyFromPosition response position writer =
    (if readAvailable response > 0 \<and> int (readPosition response) > position then Some (Inl ())
     else if position = int (readPosition response + readAvailable response) then Some (Inr ([], False))
     else
       let (index, bufferIndex) = (if overwriting response then
             (if writeIndex response \<ge> length (buffers response ! writeBufferIndex response)
              then (0, (writeBufferIndex response + 1) mod length (buffers response))
              else (writeIndex response, writeBufferIndex response))
           else (0, 0));
           skip = position - int (readPosition response)
       in map_option Inr (copy_loop writer (buffers response) bufferIndex index (nat skip)
            (readAvailable response) []))"

text \<open>\<open>copy(buffer[i:i+len], chunk)\<close>\<close>

definition overwrite :: "nat \<Rightarrow> bytes \<Rightarrow> bytes \<Rightarrow> bytes" where
  "overwrite i chunk buffer = take i buffer @ chunk @ drop (i + length chunk) buffer"

definition write_chunk :: "bytes \<Rightarrow> cached_response \<Rightarrow> cached_response" where
  "write_chunk chunk response =
    (if length chunk > 0 then
       let response = response\<lparr>buffers := (buffers response)[writeBufferIndex response :=
               overwrite (writeIndex response) chunk (buffers response ! writeBufferIndex response)],
             writeIndex := writeIndex response + length chunk\<rparr>
       in if overwriting response
          then response\<lparr>readPosition := readPosition response + length chunk\<rparr>
          else response\<lparr>readAvailable := readAvailable response + length chunk\<rparr>
     else response)"

definition extend :: "cached_response \<Rightarrow> buffer_pool \<Rightarrow> cached_response \<times> buffer_pool" where
  "extend response pool =
    (if writeBufferIndex response = length (buffers response) - 1 \<and> \<not> overwriting response then
       let extendedBufferCount = length (buffers response) - 1
       in if extendedBufferCount < pool_limit pool then
            (case Get pool of (Some b, pool') \<Rightarrow> (response\<lparr>buffers := buffers response @ [b]\<rparr>, pool')
             | (None, pool') \<Rightarrow> (response, pool'))
          else (response, pool)
     else (response, pool))"

definition next_buffer :: "cached_response \<Rightarrow> cached_response" where
  "next_buffer response =
    (if writeBufferIndex response + 1 \<ge> length (buffers response)
     then response\<lparr>writeBufferIndex := 0, overwriting := True, writeIndex := 0\<rparr>
     else response\<lparr>writeBufferIndex := writeBufferIndex response + 1, writeIndex := 0\<rparr>)"

text \<open>The loop of \<open>Write\<close>, on the data that is left to write.\<close>

partial_function (option) write_loop ::
  "bytes \<Rightarrow> cached_response \<Rightarrow> buffer_pool \<Rightarrow> (cached_response \<times> buffer_pool) option" where
  "write_loop data response pool =
    (if data \<noteq> [] then
       let canWriteLen = length (buffers response ! writeBufferIndex response) - writeIndex response;
           needWriteLen = length data;
           writeLen = min canWriteLen needWriteLen;
           response = write_chunk (take writeLen data) response
       in if needWriteLen > canWriteLen then
            let (response, pool) = extend response pool
            in write_loop (drop writeLen data) (next_buffer response) pool
          else write_loop (drop writeLen data) response pool
     else Some (response, pool))"

definition Write :: "bytes \<Rightarrow> cached_response \<Rightarrow> buffer_pool \<Rightarrow> (cached_response \<times> buffer_pool) option" where
  "Write data response pool = write_loop data response pool"

section \<open>What the cache holds\<close>

text \<open>
  The buffers as one array, and the offset in it where the next byte is written. Before the
  first wrap the array holds the data up to the offset; after it the array, read from the
  offset and around, holds the last bytes of the data.
\<close>

definition array :: "cached_response \<Rightarrow> bytes" where
  "array r = concat (buffers r)"

definition offset :: "cached_response \<Rightarrow> nat" where
  "offset r = length (concat (take (writeBufferIndex r) (buffers r))) + writeIndex r"

definition buffers_ok :: "cached_response \<Rightarrow> bool" where
  "buffers_ok r \<longleftrightarrow> [] \<notin> set (buffers r) \<and> writeBufferIndex r < length (buffers r) \<and>
    writeIndex r \<le> length (buffers r ! writeBufferIndex r)"

definition rotated :: "nat \<Rightarrow> bytes \<Rightarrow> bytes" where
  "rotated w xs = drop w xs @ take w xs"

definition holds :: "bytes \<Rightarrow> cached_response \<Rightarrow> bool" where
  "holds d r \<longleftrightarrow> buffers_ok r \<and>
    (if overwriting r then length (array r) \<le> length d \<and> readAvailable r = length (array r) \<and>
       readPosition r = length d - length (array r) \<and>
       rotated (offset r) (array r) = drop (length d - length (array r)) d
     else readPosition r = 0 \<and> readAvailable r = length d \<and> take (offset r) (array r) = d)"

lemma concat_split:
  "b < length bs \<Longrightarrow> concat bs = concat (take b bs) @ bs ! b @ concat (drop (Suc b) bs)"
  by (metis concat.simps(2) concat_append id_take_nth_drop)

lemma offset_le: "buffers_ok r \<Longrightarrow> offset r \<le> length (array r)"
  using concat_split [of "writeBufferIndex r" "buffers r"]
  by (simp add: buffers_ok_def offset_def array_def)

lemma array_update:
  assumes "b < length bs" "i + length c \<le> length (bs ! b)"
  shows "concat (bs[b := overwrite i c (bs ! b)])
    = overwrite (length (concat (take b bs)) + i) c (concat bs)"
proof -
  have "concat (bs[b := x]) = concat (take b bs) @ x @ concat (drop (Suc b) bs)" for x
    using concat_split [of b "bs[b := x]"] assms(1) by simp
  then show ?thesis
    using concat_split [OF assms(1)] assms(2) by (simp add: overwrite_def)
qed

lemma length_overwrite [simp]: "i + length c \<le> length b \<Longrightarrow> length (overwrite i c b) = length b"
  by (simp add: overwrite_def)

lemma rotated_overwrite:
  assumes "w + length c \<le> length xs"
  shows "rotated (w + length c) (overwrite w c xs) = drop (length c) (rotated w xs) @ c"
  using assms by (simp add: rotated_def overwrite_def add.commute)

lemma take_rotated [simp]: "take (length xs) (rotated w xs) = rotated w xs"
  by (cases "w \<le> length xs") (simp_all add: rotated_def)

lemma drop_last_append:
  "n \<le> length d \<Longrightarrow> length c \<le> n \<Longrightarrow> drop (length c) (drop (length d - n) d) @ c = drop (length (d @ c) - n) (d @ c)"
  by (simp add: algebra_simps)

section \<open>Writing\<close>

text \<open>A chunk that fits the current buffer is appended to the data.\<close>

lemma write_chunk_holds:
  assumes h: "holds d r" and c: "length c \<le> length (buffers r ! writeBufferIndex r) - writeIndex r"
  shows "holds (d @ c) (write_chunk c r) \<and> length (buffers (write_chunk c r)) = length (buffers r)
    \<and> writeBufferIndex (write_chunk c r) = writeBufferIndex r \<and> overwriting (write_chunk c r) = overwriting r
    \<and> writeIndex (write_chunk c r) = writeIndex r + length c
    \<and> map length (buffers (write_chunk c r)) = map length (buffers r)"
proof (cases "c = []")
  case True
  with h show ?thesis by (simp add: write_chunk_def)
next
  case False
  let ?b = "writeBufferIndex r" and ?i = "writeIndex r" and ?r = "write_chunk c r"
  have ok: "buffers_ok r" using h by (simp add: holds_def)
  then have b: "?b < length (buffers r)" and ic: "?i + length c \<le> length (buffers r ! ?b)"
    using c by (auto simp: buffers_ok_def)
  have f: "buffers ?r = (buffers r)[?b := overwrite ?i c (buffers r ! ?b)]" "writeBufferIndex ?r = ?b"
    "writeIndex ?r = ?i + length c" "overwriting ?r = overwriting r"
    "readPosition ?r = (if overwriting r then readPosition r + length c else readPosition r)"
    "readAvailable ?r = (if overwriting r then readAvailable r else readAvailable r + length c)"
    using False by (simp_all add: write_chunk_def Let_def)
  have arr: "array ?r = overwrite (offset r) c (array r)"
    using array_update [OF b ic] by (simp add: array_def f offset_def)
  have off: "offset ?r = offset r + length c" using b by (simp add: offset_def f)
  have fit: "offset r + length c \<le> length (array r)"
    using concat_split [OF b] ic by (simp add: offset_def array_def)
  have lens: "map length (buffers ?r) = map length (buffers r)"
    using ic b by (simp add: f map_update list_update_same_conv)
  have "[] \<notin> set (buffers ?r)"
    using lens ok by (metis (no_types, lifting) buffers_ok_def imageE length_0_conv list.set_map rev_image_eqI)
  then have ok': "buffers_ok ?r" using b ic by (simp add: buffers_ok_def f)
  have "holds (d @ c) ?r"
  proof (cases "overwriting r")
    case True
    have l: "length (array ?r) = length (array r)" using fit by (simp add: arr)
    have d: "length (array r) \<le> length d" "rotated (offset r) (array r) = drop (length d - length (array r)) d"
      using h True by (simp_all add: holds_def)
    have "rotated (offset ?r) (array ?r) = drop (length (d @ c) - length (array r)) (d @ c)"
      using rotated_overwrite [OF fit] d fit drop_last_append [of "length (array r)" d c]
      by (simp add: arr off)
    then show ?thesis using h True ok' l by (simp add: holds_def f)
  next
    case no: False
    moreover have "take (offset ?r) (array ?r) = take (offset r) (array r) @ c"
      unfolding arr off using fit by (simp add: overwrite_def)
    ultimately have "take (offset ?r) (array ?r) = d @ c"
      using h by (simp add: holds_def)
    then show ?thesis using h no ok' by (simp add: holds_def f)
  qed
  with lens f show ?thesis by simp
qed

text \<open>Borrowing a buffer and moving to the next one change nothing that is held.\<close>

lemma extend_holds:
  assumes "holds d r" and pool: "extend r pool = (r', pool')" and pos: "0 < bufferSize pool"
  shows "holds d r' \<and> writeIndex r' = writeIndex r \<and> writeBufferIndex r' = writeBufferIndex r
    \<and> buffers r' ! writeBufferIndex r = buffers r ! writeBufferIndex r \<and> bufferSize pool' = bufferSize pool
    \<and> (\<exists>ls. map length (buffers r') = map length (buffers r) @ ls)"
proof (cases "r' = r")
  case True
  with assms show ?thesis
    by (auto simp: extend_def Get_def Let_def try_recv_def split: if_splits option.splits list.splits)
next
  case False
  with pool obtain b where b: "r' = r\<lparr>buffers := buffers r @ [b]\<rparr>" "b \<noteq> []" and no: "\<not> overwriting r"
    and ps: "bufferSize pool' = bufferSize pool"
    using pos by (auto simp: extend_def Get_def Let_def try_recv_def split: if_splits option.splits list.splits)
  have "buffers_ok r" using assms(1) by (simp add: holds_def)
  then have w: "writeBufferIndex r < length (buffers r)" "offset r \<le> length (array r)"
    using offset_le by (auto simp: buffers_ok_def)
  then have "offset r' = offset r" "array r' = array r @ b" by (simp_all add: offset_def array_def b)
  then show ?thesis
    using assms(1) b no w ps by (auto simp: holds_def buffers_ok_def nth_append)
qed

lemma next_buffer_holds:
  assumes h: "holds d r" and full: "writeIndex r = length (buffers r ! writeBufferIndex r)"
  shows "holds d (next_buffer r) \<and> writeIndex (next_buffer r) = 0 \<and> buffers (next_buffer r) = buffers r"
proof -
  have ok: "buffers_ok r" using h by (simp add: holds_def)
  let ?b = "writeBufferIndex r"
  have b: "?b < length (buffers r)" using ok by (simp add: buffers_ok_def)
  show ?thesis
  proof (cases "?b + 1 \<ge> length (buffers r)")
    case True
    then have last: "Suc ?b = length (buffers r)" using b by simp
    then have off: "offset r = length (array r)"
      using full concat_split [OF b] by (simp add: offset_def array_def)
    have r': "next_buffer r = r\<lparr>writeBufferIndex := 0, overwriting := True, writeIndex := 0\<rparr>"
      using True by (simp add: next_buffer_def)
    have "offset (next_buffer r) = 0" "array (next_buffer r) = array r" by (simp_all add: r' offset_def array_def)
    then show ?thesis
      using h off b by (auto simp: holds_def r' buffers_ok_def rotated_def split: if_splits)
  next
    case False
    then have r': "next_buffer r = r\<lparr>writeBufferIndex := ?b + 1, writeIndex := 0\<rparr>"
      by (simp add: next_buffer_def)
    have "take (Suc ?b) (buffers r) = take ?b (buffers r) @ [buffers r ! ?b]"
      using b by (rule take_Suc_conv_app_nth)
    then have "offset (next_buffer r) = offset r" "array (next_buffer r) = array r"
      using full by (simp_all add: r' offset_def array_def)
    then show ?thesis using h False by (simp add: holds_def r' buffers_ok_def)
  qed
qed

text \<open>
  A write returns and appends its data: every second turn of the loop writes at least one
  byte, since no buffer is empty.
\<close>

definition write_left :: "bytes \<Rightarrow> cached_response \<Rightarrow> nat" where
  "write_left data r = 2 * length data
    + (if writeIndex r = length (buffers r ! writeBufferIndex r) then 1 else 0)"

lemma write_loop_holds:
  assumes "holds d r" "0 < bufferSize pool"
  shows "\<exists>r' pool'. write_loop data r pool = Some (r', pool') \<and> holds (d @ data) r'
    \<and> bufferSize pool' = bufferSize pool \<and> (\<exists>ls. map length (buffers r') = map length (buffers r) @ ls)"
  using assms
proof (induction "write_left data r" arbitrary: data r pool d rule: less_induct)
  case less
  show ?case
  proof (cases "data = []")
    case True
    then show ?thesis using less.prems by (simp add: write_loop.simps)
  next
    case False
    let ?can = "length (buffers r ! writeBufferIndex r) - writeIndex r"
    let ?n = "min ?can (length data)"
    let ?r = "write_chunk (take ?n data) r"
    have ok: "buffers_ok r" using less.prems by (simp add: holds_def)
    have w: "holds (d @ take ?n data) ?r \<and> length (buffers ?r) = length (buffers r)
      \<and> writeBufferIndex ?r = writeBufferIndex r \<and> overwriting ?r = overwriting r
      \<and> writeIndex ?r = writeIndex r + length (take ?n data)
      \<and> map length (buffers ?r) = map length (buffers r)"
      using write_chunk_holds [OF less.prems(1), of "take ?n data"] by simp
    have same: "length (buffers ?r ! writeBufferIndex ?r) = length (buffers r ! writeBufferIndex r)"
    proof -
      have "writeBufferIndex r < length (buffers r)" using ok by (simp add: buffers_ok_def)
      with w show ?thesis by (metis length_map nth_map)
    qed
    show ?thesis
    proof (cases "length data > ?can")
      case fits: False
      then have "write_loop data r pool = write_loop (drop ?n data) ?r pool"
        using \<open>data \<noteq> []\<close> by (subst write_loop.simps) (simp add: Let_def)
      moreover have "drop ?n data = []" "take ?n data = data" using fits by simp_all
      ultimately show ?thesis using w less.prems(2) by (simp add: write_loop.simps)
    next
      case True
      obtain r1 pool1 where e: "extend ?r pool = (r1, pool1)" by (metis surj_pair)
      have x: "holds (d @ take ?n data) r1 \<and> writeIndex r1 = writeIndex ?r \<and> writeBufferIndex r1 = writeBufferIndex ?r
        \<and> buffers r1 ! writeBufferIndex ?r = buffers ?r ! writeBufferIndex ?r \<and> bufferSize pool1 = bufferSize pool
        \<and> (\<exists>ls. map length (buffers r1) = map length (buffers ?r) @ ls)"
        using extend_holds [OF _ e less.prems(2)] w by blast
      have wi: "writeIndex ?r = length (buffers ?r ! writeBufferIndex ?r)"
        using w same True ok by (simp add: buffers_ok_def)
      with x have nx: "holds (d @ take ?n data) (next_buffer r1) \<and> writeIndex (next_buffer r1) = 0
          \<and> buffers (next_buffer r1) = buffers r1"
        by (intro next_buffer_holds) auto
      then have "buffers (next_buffer r1) ! writeBufferIndex (next_buffer r1) \<noteq> []"
        by (metis buffers_ok_def holds_def nth_mem)
      then have m: "write_left (drop ?n data) (next_buffer r1) = 2 * (length data - ?n)"
        using nx by (simp add: write_left_def)
      have "write_left (drop ?n data) (next_buffer r1) < write_left data r"
      proof (cases "?can = 0")
        case True
        then show ?thesis using m ok by (simp add: write_left_def buffers_ok_def)
      next
        case False
        with \<open>data \<noteq> []\<close> have "0 < ?n" by simp
        then show ?thesis using m \<open>data \<noteq> []\<close> unfolding write_left_def by auto
      qed
      from less.hyps [OF this, of "d @ take ?n data" pool1] nx x less.prems(2)
      obtain r' pool' where rec: "write_loop (drop ?n data) (next_buffer r1) pool1 = Some (r', pool')"
        "holds (d @ take ?n data @ drop ?n data) r'" "bufferSize pool' = bufferSize pool"
        "\<exists>ls. map length (buffers r') = map length (buffers (next_buffer r1)) @ ls"
        by auto
      have "write_loop data r pool = write_loop (drop ?n data) (next_buffer r1) pool1"
        using \<open>data \<noteq> []\<close> True e by (subst write_loop.simps) (simp add: Let_def)
      moreover obtain l1 l2 where "map length (buffers r1) = map length (buffers r) @ l1"
        "map length (buffers r') = map length (buffers r1) @ l2" using rec(4) x w nx by metis
      then have "map length (buffers r') = map length (buffers r) @ (l1 @ l2)" by simp
      then have "\<exists>ls. map length (buffers r') = map length (buffers r) @ ls" by (rule exI)
      ultimately show ?thesis using rec by simp
    qed
  qed
qed

section \<open>Reading\<close>

definition reliable :: "writer \<Rightarrow> bool" where
  "reliable writer \<longleftrightarrow> (\<forall>out chunk. writer out chunk = (length chunk, False))"

text \<open>One turn of the loop, whether it skips, copies or both.\<close>

lemma copy_loop_turn:
  assumes "reliable writer" "0 < available"
    and "tc = min (length (bufs ! b) - index) available"
  shows "copy_loop writer bufs b index skip available out
    = copy_loop writer bufs ((b + 1) mod length bufs) 0 (skip - tc) (available - tc)
        (out @ drop skip (take tc (drop index (bufs ! b))))"
  using assms by (subst copy_loop.simps)
    (auto simp: Let_def reliable_def drop_take min_def add.commute split: if_splits)

lemma rotated_next:
  assumes b: "b < length bufs" and i: "index \<le> length (bufs ! b)" and a: "available \<le> length (concat bufs)"
    and tc: "tc = min (length (bufs ! b) - index) available"
  shows "take available (rotated (length (concat (take b bufs)) + index) (concat bufs))
    = take tc (drop index (bufs ! b)) @ take (available - tc)
        (rotated (length (concat (take ((b + 1) mod length bufs) bufs))) (concat bufs))"
proof -
  define pre where "pre = concat (take b bufs)"
  define buf where "buf = bufs ! b"
  define post where "post = concat (drop (Suc b) bufs)"
  have F: "concat bufs = pre @ buf @ post"
    using concat_split [OF b] by (simp add: pre_def buf_def post_def)
  have now: "rotated (length pre + index) (concat bufs) = drop index buf @ post @ pre @ take index buf"
    using i by (simp add: rotated_def F buf_def)
  have "rotated (length (concat (take ((b + 1) mod length bufs) bufs))) (concat bufs) = post @ pre @ buf"
  proof (cases "Suc b = length bufs")
    case True
    then have "post = []" by (simp add: post_def)
    with True show ?thesis by (simp add: rotated_def F)
  next
    case False
    then have "concat (take ((b + 1) mod length bufs) bufs) = pre @ buf"
      using b by (simp add: take_Suc_conv_app_nth pre_def buf_def)
    then show ?thesis by (simp add: rotated_def F)
  qed
  moreover have "take available (drop index buf @ post @ pre @ take index buf)
      = take tc (drop index buf) @ take (available - tc) (post @ pre @ buf)"
  proof (cases "available \<le> length buf - index")
    case True
    then show ?thesis by (simp add: tc buf_def)
  next
    case False
    then have t: "tc = length buf - index" by (simp add: tc buf_def)
    have "available - tc \<le> length (post @ pre @ take index buf)"
      using a i by (simp add: F t buf_def)
    then have "take (available - tc) ((post @ pre @ take index buf) @ drop index buf)
        = take (available - tc) (post @ pre @ take index buf)" by simp
    then have "take (available - tc) (post @ pre @ buf) = take (available - tc) (post @ pre @ take index buf)"
      by simp
    with False t show ?thesis by simp
  qed
  ultimately show ?thesis by (simp add: now pre_def buf_def flip: pre_def)
qed

lemma copy_loop_reads:
  assumes rel: "reliable writer" and ne: "[] \<notin> set bufs"
    and "b < length bufs" "index \<le> length (bufs ! b)" "available \<le> length (concat bufs)"
  shows "copy_loop writer bufs b index skip available out
    = Some (out @ drop skip (take available (rotated (length (concat (take b bufs)) + index) (concat bufs))), False)"
  using assms(3-)
proof (induction "2 * available + (if index = length (bufs ! b) then 1 else 0)"
    arbitrary: b index skip available out rule: less_induct)
  case less
  show ?case
  proof (cases "available = 0")
    case True
    then show ?thesis by (simp add: copy_loop.simps)
  next
    case False
    define tc where "tc = min (length (bufs ! b) - index) available"
    let ?b = "(b + 1) mod length bufs"
    have b: "?b < length bufs" using less.prems(1) by (intro mod_less_divisor) linarith
    then have "bufs ! ?b \<noteq> []" using ne by (metis nth_mem)
    moreover have "0 < tc \<or> index = length (bufs ! b)" using less.prems(2) False by (auto simp: tc_def)
    ultimately have "2 * (available - tc) + (if 0 = length (bufs ! ?b) then 1 else 0)
        < 2 * available + (if index = length (bufs ! b) then 1 else 0)"
      using False by auto
    from less.hyps [OF this b] less.prems(3)
    have rec: "copy_loop writer bufs ?b 0 (skip - tc) (available - tc) out'
      = Some (out' @ drop (skip - tc) (take (available - tc) (rotated (length (concat (take ?b bufs))) (concat bufs))), False)"
      for out' by simp
    have l: "length (take tc (drop index (bufs ! b))) = tc" by (simp add: tc_def)
    have r: "take available (rotated (length (concat (take b bufs)) + index) (concat bufs))
      = take tc (drop index (bufs ! b)) @ take (available - tc) (rotated (length (concat (take ?b bufs))) (concat bufs))"
      by (rule rotated_next [OF less.prems tc_def])
    have "copy_loop writer bufs b index skip available out
      = copy_loop writer bufs ?b 0 (skip - tc) (available - tc) (out @ drop skip (take tc (drop index (bufs ! b))))"
      using False by (intro copy_loop_turn [OF rel _ tc_def]) simp
    also have "\<dots> = Some ((out @ drop skip (take tc (drop index (bufs ! b)))) @
        drop (skip - tc) (take (available - tc) (rotated (length (concat (take ?b bufs))) (concat bufs))), False)"
      by (rule rec)
    finally show ?thesis unfolding r drop_append l by simp
  qed
qed

text \<open>What a reliable client is sent.\<close>

lemma CopyFromPosition_holds:
  assumes h: "holds d r" and rel: "reliable writer"
  shows "CopyFromPosition r position writer =
    (if position < int (readPosition r) \<and> d \<noteq> [] then Some (Inl ())
     else Some (Inr (drop (nat position) d, False)))"
proof -
  have ok: "buffers_ok r" using h by (simp add: holds_def)
  let ?F = "array r"
  have Fpos: "0 < length ?F"
    using ok by (cases "buffers r") (auto simp: buffers_ok_def array_def)
  have avail: "readAvailable r \<le> length ?F"
    using h offset_le [OF ok] by (auto simp: holds_def split: if_splits)
  have total: "readPosition r + readAvailable r = length d"
    using h by (auto simp: holds_def split: if_splits)
  have zero: "readAvailable r = 0 \<longleftrightarrow> d = []"
    using h Fpos by (auto simp: holds_def split: if_splits)
  define st where "st = (if overwriting r then
             (if writeIndex r \<ge> length (buffers r ! writeBufferIndex r)
              then (0, (writeBufferIndex r + 1) mod length (buffers r))
              else (writeIndex r, writeBufferIndex r))
           else (0, 0))"
  obtain i b where ib: "st = (i, b)" by (cases st)
  have "0 < length (buffers r)" using ok by (auto simp: buffers_ok_def)
  note mod_lt = mod_less_divisor [OF this]
  have bl: "b < length (buffers r)" "i \<le> length (buffers r ! b)"
    using ib ok mod_lt [of "writeBufferIndex r + 1"] by (auto simp: st_def buffers_ok_def split: if_splits)
  have rot: "take (readAvailable r) (rotated (length (concat (take b (buffers r))) + i) ?F) = drop (readPosition r) d"
  proof (cases "overwriting r")
    case False
    have "take (length d) ?F = d"
    proof -
      have "take (offset r) ?F = d" using h False by (simp add: holds_def)
      then show ?thesis using offset_le [OF ok] by (metis length_take min.absorb2)
    qed
    with False h ib show ?thesis by (simp add: holds_def st_def rotated_def)
  next
    case True
    have w: "rotated (offset r) ?F = drop (readPosition r) d" "readAvailable r = length ?F"
      using h True by (auto simp: holds_def)
    have "rotated (length (concat (take b (buffers r))) + i) ?F = rotated (offset r) ?F"
    proof (cases "writeIndex r \<ge> length (buffers r ! writeBufferIndex r)")
      case full: True
      then have e: "writeIndex r = length (buffers r ! writeBufferIndex r)" "i = 0"
        "b = (writeBufferIndex r + 1) mod length (buffers r)"
        using ok True ib by (auto simp: buffers_ok_def st_def)
      have "take (length ?F) (rotated (length (concat (take (writeBufferIndex r) (buffers r))) + writeIndex r) ?F)
        = take 0 (drop (writeIndex r) (buffers r ! writeBufferIndex r)) @ take (length ?F - 0)
        (rotated (length (concat (take ((writeBufferIndex r + 1) mod length (buffers r)) (buffers r)))) ?F)"
        unfolding array_def using ok e by (intro rotated_next) (auto simp: buffers_ok_def)
      then show ?thesis by (simp add: e offset_def)
    next
      case False
      with True ib show ?thesis by (simp add: st_def offset_def)
    qed
    then show ?thesis unfolding w(2) using w(1) by (metis take_rotated)
  qed
  have loop: "copy_loop writer (buffers r) b i skip (readAvailable r) []
      = Some (drop skip (drop (readPosition r) d), False)" for skip
    using copy_loop_reads [OF rel _ bl avail [unfolded array_def], of skip "[]"] ok rot
    by (simp add: buffers_ok_def array_def)
  show ?thesis
  proof (cases "position < int (readPosition r)")
    case True
    then show ?thesis
      using total zero loop ib unfolding CopyFromPosition_def st_def [symmetric] by auto
  next
    case False
    then have "nat (position - int (readPosition r)) + readPosition r = nat position" by simp
    then show ?thesis
      using False total zero loop ib unfolding CopyFromPosition_def st_def [symmetric] by auto
  qed
qed

section \<open>The pool\<close>

text \<open>How many buffers the pool has and this response has borrowed\<close>

definition pool_count :: "buffer_pool \<Rightarrow> nat" where
  "pool_count pool = length (chan_queue (pool_buffers pool))"

lemma put_all_returns:
  "pool_count pool + length bs \<le> chan_cap (pool_buffers pool) \<Longrightarrow>
    \<exists>pool'. put_all bs pool = Some pool' \<and> pool_count pool' = pool_count pool + length bs
      \<and> bufferSize pool' = bufferSize pool \<and> chan_cap (pool_buffers pool') = chan_cap (pool_buffers pool)
      \<and> pool_limit pool' = pool_limit pool"
proof (induction bs arbitrary: pool)
  case (Cons b bs)
  then have "length (chan_queue (pool_buffers pool)) < chan_cap (pool_buffers pool)" by (simp add: pool_count_def)
  then show ?case
    using Cons.IH [of "pool\<lparr>pool_buffers := (pool_buffers pool)\<lparr>chan_queue := chan_queue (pool_buffers pool) @ [b]\<rparr>\<rparr>"] Cons.prems
    by (auto simp: Put_def send_room pool_count_def)
qed simp

lemma extend_count:
  assumes "extend r pool = (r', pool')"
  shows "pool_count pool' + length (buffers r') = pool_count pool + length (buffers r)
    \<and> chan_cap (pool_buffers pool') = chan_cap (pool_buffers pool) \<and> pool_limit pool' = pool_limit pool
    \<and> (length (buffers r) \<le> Suc (pool_limit pool) \<longrightarrow> length (buffers r') \<le> Suc (pool_limit pool))
    \<and> length (buffers r) \<le> length (buffers r')"
  using assms
  by (auto simp: extend_def Get_def Let_def try_recv_def pool_count_def split: if_splits option.splits list.splits)

lemma length_buffers_steps [simp]:
  "length (buffers (write_chunk c r)) = length (buffers r)" "buffers (next_buffer r) = buffers r"
  by (simp_all add: write_chunk_def next_buffer_def Let_def)

lemma write_loop_count:
  assumes "write_loop data r pool = Some (r', pool')"
  shows "pool_count pool' + length (buffers r') = pool_count pool + length (buffers r)
    \<and> chan_cap (pool_buffers pool') = chan_cap (pool_buffers pool) \<and> pool_limit pool' = pool_limit pool
    \<and> (length (buffers r) \<le> Suc (pool_limit pool) \<longrightarrow> length (buffers r') \<le> Suc (pool_limit pool))
    \<and> length (buffers r) \<le> length (buffers r')"
proof -
  let ?P = "\<lambda>data r pool (r', pool'). pool_count pool' + length (buffers r') = pool_count pool + length (buffers r)
    \<and> chan_cap (pool_buffers pool') = chan_cap (pool_buffers pool) \<and> pool_limit pool' = pool_limit pool
    \<and> (length (buffers r) \<le> Suc (pool_limit pool) \<longrightarrow> length (buffers r') \<le> Suc (pool_limit pool))
    \<and> length (buffers r) \<le> length (buffers r')"
  have "?P data r pool (r', pool')"
  proof (rule write_loop.raw_induct [where P = ?P, OF _ assms])
    fix f :: "bytes \<Rightarrow> cached_response \<Rightarrow> buffer_pool \<Rightarrow> (cached_response \<times> buffer_pool) option" and data r pool y
    assume IH: "\<And>data r pool y. f data r pool = Some y \<Longrightarrow> ?P data r pool y"
    assume eq: "(if data \<noteq> [] then
       let canWriteLen = length (buffers r ! writeBufferIndex r) - writeIndex r;
           needWriteLen = length data;
           writeLen = min canWriteLen needWriteLen;
           response = write_chunk (take writeLen data) r
       in if needWriteLen > canWriteLen then
            let (response, pool) = extend response pool
            in f (drop writeLen data) (next_buffer response) pool
          else f (drop writeLen data) response pool
     else Some (r, pool)) = Some y"
    let ?n = "min (length (buffers r ! writeBufferIndex r) - writeIndex r) (length data)"
    obtain r1 pool1 where e: "extend (write_chunk (take ?n data) r) pool = (r1, pool1)" by (metis surj_pair)
    show "?P data r pool y"
    proof (cases "data = []")
      case True
      with eq show ?thesis by auto
    next
      case False
      then have "f (drop ?n data) (next_buffer r1) pool1 = Some y
          \<or> f (drop ?n data) (write_chunk (take ?n data) r) pool = Some y"
        using eq e by (auto simp: Let_def split: if_splits)
      then show ?thesis using IH extend_count [OF e] by (cases y) (auto dest!: IH)
    qed
  qed
  then show ?thesis by simp
qed

section \<open>Properties\<close>

text \<open>The writes of one response, one after the other\<close>

fun write_all :: "bytes list \<Rightarrow> cached_response \<Rightarrow> buffer_pool \<Rightarrow> (cached_response \<times> buffer_pool) option" where
  "write_all [] r pool = Some (r, pool)"
| "write_all (data # ds) r pool = Option.bind (Write data r pool) (\<lambda>(r, pool). write_all ds r pool)"

lemma write_all_holds:
  assumes "holds d r" "0 < bufferSize pool"
  shows "\<exists>r' pool'. write_all ds r pool = Some (r', pool') \<and> holds (d @ concat ds) r'
    \<and> bufferSize pool' = bufferSize pool \<and> (\<exists>ls. map length (buffers r') = map length (buffers r) @ ls)"
  using assms
proof (induction ds arbitrary: d r pool)
  case Nil
  then show ?case by simp
next
  case (Cons x ds)
  from write_loop_holds [OF Cons.prems, of x] obtain r1 pool1 where
    w: "write_loop x r pool = Some (r1, pool1)" "holds (d @ x) r1" "bufferSize pool1 = bufferSize pool"
      "\<exists>ls. map length (buffers r1) = map length (buffers r) @ ls" by blast
  from Cons.IH [OF w(2), of pool1] w Cons.prems(2) show ?case by (auto simp: Write_def)
qed

lemma holds_new: "0 < n \<Longrightarrow> holds [] (NewCachedResponse n)"
  by (simp add: holds_def NewCachedResponse_def buffers_ok_def offset_def)

text \<open>
  C6: whatever was written to a new response cache, in whatever chunks, a reader at any
  position is sent exactly the data from that position on, or the error when the position is
  no longer retained; every write returns, borrowing from the pool or overwriting as needed.
\<close>

theorem cached_response_reads:
  assumes "0 < n" and "0 < bufferSize pool" and "reliable writer"
  shows "\<exists>r pool'. write_all ds (NewCachedResponse n) pool = Some (r, pool') \<and>
    CopyFromPosition r position writer =
      (if position < int (readPosition r) \<and> concat ds \<noteq> [] then Some (Inl ())
       else Some (Inr (drop (nat position) (concat ds), False))) \<and>
    readPosition r + Available r = length (concat ds)"
proof -
  from write_all_holds [OF holds_new [OF assms(1)] assms(2), of ds] obtain r pool' where
    w: "write_all ds (NewCachedResponse n) pool = Some (r, pool')" "holds (concat ds) r" by auto
  moreover have "readPosition r + Available r = length (concat ds)"
    using w(2) by (auto simp: holds_def Available_def split: if_splits)
  ultimately show ?thesis using CopyFromPosition_holds [OF w(2) assms(3)] by auto
qed

theorem cached_response_reads_witness:
  "\<exists>r pool'. write_all [[1, 2, 3], [4, 5]] (NewCachedResponse 2) (NewCachedResponseBufferPool 1 1 1) = Some (r, pool')
    \<and> (CopyFromPosition r 4 (\<lambda>out c. (length c, False)) = Some (Inr ([5], False)) \<or> 4 < readPosition r)"
  using cached_response_reads [of 2 "NewCachedResponseBufferPool 1 1 1" "\<lambda>out c. (length c, False)" "[[1, 2, 3], [4, 5]]" 4]
  by (auto simp: NewCachedResponseBufferPool_def reliable_def split: if_splits)

text \<open>
  The cache always retains the most recent bytes, as many as its first buffer holds (or
  all that were written): a client that is at most that far behind can resume.
\<close>

lemma cached_response_retains:
  assumes "0 < n" and "0 < bufferSize pool"
    and "write_all ds (NewCachedResponse n) pool = Some (r, pool')"
  shows "min n (length (concat ds)) \<le> Available r \<and>
    (0 < Available r \<longrightarrow> HasPosition r (int (length (concat ds)) - int (min n (length (concat ds)))))"
proof -
  from write_all_holds [OF holds_new [OF assms(1)] assms(2), of ds] assms(3)
  obtain ls where h: "holds (concat ds) r" "map length (buffers r) = n # ls"
    by (auto simp: NewCachedResponse_def)
  have "length (array r) = sum_list (map length (buffers r))" by (simp add: array_def length_concat)
  then have first: "n \<le> length (array r)" by (simp add: h(2))
  show ?thesis
    using h(1) first by (auto simp: holds_def Available_def HasPosition_def split: if_splits)
qed

lemma write_all_count:
  assumes "write_all ds r pool = Some (r', pool')"
  shows "pool_count pool' + length (buffers r') = pool_count pool + length (buffers r)
    \<and> chan_cap (pool_buffers pool') = chan_cap (pool_buffers pool) \<and> pool_limit pool' = pool_limit pool
    \<and> (length (buffers r) \<le> Suc (pool_limit pool) \<longrightarrow> length (buffers r') \<le> Suc (pool_limit pool))
    \<and> length (buffers r) \<le> length (buffers r')"
  using assms
proof (induction ds arbitrary: r pool)
  case Nil
  then show ?case by simp
next
  case (Cons x ds)
  from Cons.prems obtain r1 pool1 where w: "write_loop x r pool = Some (r1, pool1)"
    and rest: "write_all ds r1 pool1 = Some (r', pool')"
    by (auto simp: Write_def bind_eq_Some_conv)
  show ?case using write_loop_count [OF w] Cons.IH [OF rest] by simp
qed

lemma example_pool: "0 < bufferSize (NewCachedResponseBufferPool 1 1 1)"
  "pool_count (NewCachedResponseBufferPool 1 1 1) \<le> chan_cap (pool_buffers (NewCachedResponseBufferPool 1 1 1))"
  by (simp_all add: NewCachedResponseBufferPool_def pool_count_def make_chan_def)

text \<open>
  C7: buffers are neither lost nor duplicated: a response borrows at most its limit, what it
  has borrowed is missing from the pool, and resetting it returns without blocking and gives
  all of it back.
\<close>

theorem pool_conserved:
  assumes "write_all ds (NewCachedResponse n) pool = Some (r, pool')"
    and "pool_count pool \<le> chan_cap (pool_buffers pool)"
  shows "pool_count pool' + (length (buffers r) - 1) = pool_count pool \<and> length (buffers r) - 1 \<le> pool_limit pool
    \<and> (\<exists>r' pool''. Reset r pool' = Some (r', pool'') \<and> pool_count pool'' = pool_count pool \<and> Available r' = 0
        \<and> length (buffers r') = 1)"
proof -
  have c: "pool_count pool' + length (buffers r) = pool_count pool + 1"
    "chan_cap (pool_buffers pool') = chan_cap (pool_buffers pool)"
    "length (buffers r) \<le> Suc (pool_limit pool)" "1 \<le> length (buffers r)"
    using write_all_count [OF assms(1)] by (simp_all add: NewCachedResponse_def)
  have "pool_count pool' + length (drop 1 (buffers r)) \<le> chan_cap (pool_buffers pool')"
    using c assms(2) by simp
  from put_all_returns [OF this] obtain pool'' where
    "put_all (drop 1 (buffers r)) pool' = Some pool''" "pool_count pool'' = pool_count pool' + length (drop 1 (buffers r))"
    by blast
  then show ?thesis using c by (auto simp: Reset_def Available_def)
qed

theorem pool_conserved_witness:
  "\<exists>r pool' r' pool''. write_all [[1, 2, 3], [4, 5]] (NewCachedResponse 2) (NewCachedResponseBufferPool 1 1 1) = Some (r, pool')
    \<and> Reset r pool' = Some (r', pool'') \<and> pool_count pool'' = 1"
proof -
  obtain r pool' where w: "write_all [[1, 2, 3], [4, 5]] (NewCachedResponse 2) (NewCachedResponseBufferPool 1 1 1)
      = Some (r, pool')"
    using write_all_holds [OF holds_new [of 2] example_pool(1), of "[[1, 2, 3], [4, 5]]"] by auto
  from pool_conserved [OF w example_pool(2)] w show ?thesis
    by (auto simp: pool_count_def NewCachedResponseBufferPool_def)
qed

end
