(* ===== verification/NatTraversal.thy ===== *)
theory NatTraversal
  imports Prelude
begin

unbundle bit_operations_syntax

text \<open>
  NAT types of the in-proxy, \<open>psiphon/common/inproxy/nat.go\<close>: the packed NAT type (an
  \<open>int32\<close> with the mapping above two bits of filtering), its traversal class, and which pairs
  of classes are compatible and preferred when matching. The traversal values are those of
  \<open>MakeTraversal\<close>, ordered from the least to the most limited.
\<close>

section \<open>NAT types\<close>

type_synonym int32 = "32 word"

abbreviation (input) NATMappingUnknown :: int32 where "NATMappingUnknown \<equiv> 0"
abbreviation (input) NATMappingEndpointIndependent :: int32 where "NATMappingEndpointIndependent \<equiv> 1"
abbreviation (input) NATMappingAddressDependent :: int32 where "NATMappingAddressDependent \<equiv> 2"
abbreviation (input) NATMappingAddressPortDependent :: int32 where "NATMappingAddressPortDependent \<equiv> 3"

abbreviation (input) NATFilteringUnknown :: int32 where "NATFilteringUnknown \<equiv> 0"
abbreviation (input) NATFilteringEndpointIndependent :: int32 where "NATFilteringEndpointIndependent \<equiv> 1"
abbreviation (input) NATFilteringAddressDependent :: int32 where "NATFilteringAddressDependent \<equiv> 2"
abbreviation (input) NATFilteringAddressPortDependent :: int32 where "NATFilteringAddressPortDependent \<equiv> 3"

definition mapping_String :: "int32 \<Rightarrow> string" where
  "mapping_String m = (if m = NATMappingUnknown then ''MappingUnknown''
    else if m = NATMappingEndpointIndependent then ''MappingEndpointIndependent''
    else if m = NATMappingAddressDependent then ''MappingAddressDependent''
    else if m = NATMappingAddressPortDependent then ''MappingAddressPortDependent'' else [])"

definition filtering_String :: "int32 \<Rightarrow> string" where
  "filtering_String f = (if f = NATFilteringUnknown then ''FilteringUnknown''
    else if f = NATFilteringEndpointIndependent then ''FilteringEndpointIndependent''
    else if f = NATFilteringAddressDependent then ''FilteringAddressDependent''
    else if f = NATFilteringAddressPortDependent then ''FilteringAddressPortDependent'' else [])"

definition mapping_IsValid :: "int32 \<Rightarrow> bool" where
  "mapping_IsValid m \<longleftrightarrow> mapping_String m \<noteq> []"

definition filtering_IsValid :: "int32 \<Rightarrow> bool" where
  "filtering_IsValid f \<longleftrightarrow> filtering_String f \<noteq> []"

definition MakeNATType :: "int32 \<Rightarrow> int32 \<Rightarrow> int32" where
  "MakeNATType mapping filtering = push_bit 2 mapping OR filtering"

definition NATTypeUnknown :: int32 where
  "NATTypeUnknown = MakeNATType NATMappingUnknown NATFilteringUnknown"

definition NATTypePortMapping :: int32 where
  "NATTypePortMapping = MakeNATType NATMappingEndpointIndependent NATFilteringEndpointIndependent"

definition NATTypeMobileNetwork :: int32 where
  "NATTypeMobileNetwork = MakeNATType NATMappingAddressPortDependent NATFilteringAddressPortDependent"

text \<open>The shift of an \<open>int32\<close> is arithmetic.\<close>

definition Mapping :: "int32 \<Rightarrow> int32" where
  "Mapping t = signed_drop_bit 2 t"

definition Filtering :: "int32 \<Rightarrow> int32" where
  "Filtering t = t AND 0x3"

definition NATType_IsValid :: "int32 \<Rightarrow> bool" where
  "NATType_IsValid t \<longleftrightarrow> mapping_IsValid (Mapping t) \<and> filtering_IsValid (Filtering t)"

definition NATType_NeedsDiscovery :: "int32 \<Rightarrow> bool" where
  "NATType_NeedsDiscovery t \<longleftrightarrow> t = NATTypeUnknown"

section \<open>Traversal\<close>

datatype traversal = NATTraversalUnlimited | NATTraversalPartiallyLimited | NATTraversalStrictlyLimited

definition MakeTraversal :: "int32 \<Rightarrow> traversal" where
  "MakeTraversal t =
    (let mapping = Mapping t; filtering = Filtering t
     in if mapping = NATMappingEndpointIndependent then
          if filtering \<noteq> NATFilteringAddressPortDependent then NATTraversalUnlimited
          else NATTraversalPartiallyLimited
        else NATTraversalStrictlyLimited)"

fun Compatible :: "traversal \<Rightarrow> traversal \<Rightarrow> bool" where
  "Compatible NATTraversalUnlimited t1 = True"
| "Compatible NATTraversalPartiallyLimited t1 = (t1 \<noteq> NATTraversalStrictlyLimited)"
| "Compatible NATTraversalStrictlyLimited t1 = (t1 = NATTraversalUnlimited)"

fun IsPreferredMatch :: "traversal \<Rightarrow> traversal \<Rightarrow> bool" where
  "IsPreferredMatch NATTraversalUnlimited t1 = (t1 = NATTraversalStrictlyLimited)"
| "IsPreferredMatch NATTraversalPartiallyLimited t1 =
    (t1 = NATTraversalUnlimited \<or> t1 = NATTraversalPartiallyLimited)"
| "IsPreferredMatch NATTraversalStrictlyLimited t1 = (t1 = NATTraversalUnlimited)"

fun ExistsPreferredMatch :: "traversal \<Rightarrow> bool \<Rightarrow> bool \<Rightarrow> bool \<Rightarrow> bool" where
  "ExistsPreferredMatch NATTraversalUnlimited unlimited partially strictly = strictly"
| "ExistsPreferredMatch NATTraversalPartiallyLimited unlimited partially strictly = (unlimited \<or> partially)"
| "ExistsPreferredMatch NATTraversalStrictlyLimited unlimited partially strictly = unlimited"

definition NATType_Compatible :: "int32 \<Rightarrow> int32 \<Rightarrow> bool" where
  "NATType_Compatible t t1 = Compatible (MakeTraversal t) (MakeTraversal t1)"

definition NATType_IsPreferredMatch :: "int32 \<Rightarrow> int32 \<Rightarrow> bool" where
  "NATType_IsPreferredMatch t t1 = IsPreferredMatch (MakeTraversal t) (MakeTraversal t1)"

definition NATType_ExistsPreferredMatch :: "int32 \<Rightarrow> bool \<Rightarrow> bool \<Rightarrow> bool \<Rightarrow> bool" where
  "NATType_ExistsPreferredMatch t unlimited partially limited =
    ExistsPreferredMatch (MakeTraversal t) unlimited partially limited"

section \<open>Port mappings\<close>

abbreviation (input) PortMappingTypeNone :: int where "PortMappingTypeNone \<equiv> 0"

fun PortMappingTypes_Available :: "int list \<Rightarrow> bool" where
  "PortMappingTypes_Available [] = False"
| "PortMappingTypes_Available (t # ts) =
    (if t > PortMappingTypeNone then True else PortMappingTypes_Available ts)"

definition PortMappingTypes_NeedsDiscovery :: "int list \<Rightarrow> bool" where
  "PortMappingTypes_NeedsDiscovery ts \<longleftrightarrow> length ts = 0"

lemma PortMappingTypes_Available_iff: "PortMappingTypes_Available ts \<longleftrightarrow> (\<exists>t\<in>set ts. 0 < t)"
  by (induction ts) auto

section \<open>The order of the traversal classes\<close>

instantiation traversal :: linorder
begin

definition level :: "traversal \<Rightarrow> nat" where
  "level t = (case t of NATTraversalUnlimited \<Rightarrow> 0 | NATTraversalPartiallyLimited \<Rightarrow> 1
    | NATTraversalStrictlyLimited \<Rightarrow> 2)"

definition less_eq_traversal :: "traversal \<Rightarrow> traversal \<Rightarrow> bool" where
  "less_eq_traversal a b \<longleftrightarrow> level a \<le> level b"

definition less_traversal :: "traversal \<Rightarrow> traversal \<Rightarrow> bool" where
  "less_traversal a b \<longleftrightarrow> level a < level b"

instance
  by standard (auto simp: less_eq_traversal_def less_traversal_def level_def split: traversal.splits)

end

section \<open>The contract of matching\<close>

lemma valid_mapping: "mapping_IsValid m \<longleftrightarrow> m \<in> {0, 1, 2, 3}"
  by (simp add: mapping_IsValid_def mapping_String_def)

lemma valid_filtering: "filtering_IsValid f \<longleftrightarrow> f \<in> {0, 1, 2, 3}"
  by (simp add: filtering_IsValid_def filtering_String_def)

text \<open>
  Packing a valid mapping and a valid filtering into a NAT type and reading them back gives
  them unchanged and the NAT type is valid; the compatibility of traversal classes is symmetric,
  every preferred match is compatible, and the counters of the available classes answer whether a
  preferred match is available.
\<close>

lemma nat_matching_contract:
  "(mapping_IsValid m \<and> filtering_IsValid f \<longrightarrow>
      Mapping (MakeNATType m f) = m \<and> Filtering (MakeNATType m f) = f \<and> NATType_IsValid (MakeNATType m f)) \<and>
   NATType_Compatible t t1 = NATType_Compatible t1 t \<and>
   (NATType_IsPreferredMatch t t1 \<longrightarrow> NATType_Compatible t t1) \<and>
   (NATType_ExistsPreferredMatch t (NATTraversalUnlimited \<in> T) (NATTraversalPartiallyLimited \<in> T)
      (NATTraversalStrictlyLimited \<in> T) \<longleftrightarrow> (\<exists>x\<in>T. IsPreferredMatch (MakeTraversal t) x))"
proof (intro conjI impI)
  assume "mapping_IsValid m \<and> filtering_IsValid f"
  then have "m \<in> {0, 1, 2, 3}" "f \<in> {0, 1, 2, 3}" by (simp_all add: valid_mapping valid_filtering)
  then have "Mapping (MakeNATType m f) = m \<and> Filtering (MakeNATType m f) = f"
    by (auto simp: MakeNATType_def Mapping_def Filtering_def)
  with \<open>mapping_IsValid m \<and> filtering_IsValid f\<close>
  show "Mapping (MakeNATType m f) = m" "Filtering (MakeNATType m f) = f" "NATType_IsValid (MakeNATType m f)"
    by (simp_all add: NATType_IsValid_def)
next
  show "NATType_Compatible t t1 = NATType_Compatible t1 t"
    unfolding NATType_Compatible_def by (cases "MakeTraversal t"; cases "MakeTraversal t1") simp_all
next
  assume "NATType_IsPreferredMatch t t1"
  then show "NATType_Compatible t t1"
    unfolding NATType_Compatible_def NATType_IsPreferredMatch_def
    by (cases "MakeTraversal t"; cases "MakeTraversal t1") simp_all
next
  show "NATType_ExistsPreferredMatch t (NATTraversalUnlimited \<in> T) (NATTraversalPartiallyLimited \<in> T)
      (NATTraversalStrictlyLimited \<in> T) \<longleftrightarrow> (\<exists>x\<in>T. IsPreferredMatch (MakeTraversal t) x)"
    unfolding NATType_ExistsPreferredMatch_def by (cases "MakeTraversal t") auto
qed

end
