(* ===== verification/MultiQueue.thy ===== *)
theory MultiQueue
  imports NatTraversal "HOL-Library.Sublist" "HOL-Library.Multiset"
begin

text \<open>
  The announcement multi-queue of the in-proxy matcher, \<open>psiphon/common/inproxy/matcher.go\<close>:
  one queue per compartment ID and kind, with counts of NAT types; enqueueing, dequeueing through
  the queue reference of an entry, and the iterator that visits the matching queues, priority
  queues first, the oldest deadline first. A Go pointer to an announcement entry is the number
  \<open>ae_ref\<close>; its \<open>queueReference\<close>, nil or the place of the entry, is \<open>mq_refs\<close>; a pointer to a
  compartment queue is the key under which the queue is stored. The three maps of compartment
  queues are one map indexed by the kind of queue.
\<close>

section \<open>Announcements\<close>

type_synonym ID = bytes

record geoip_data =
  Country :: string
  ASN :: string

record match_properties =
  IsPriority :: bool
  ProtocolVersion :: int32
  CommonCompartmentIDs :: "ID list"
  PersonalCompartmentIDs :: "ID list"
  GeoIPData :: geoip_data
  NetworkType :: int
  NATType :: int32
  PortMappingTypes :: "int list"

abbreviation (input) NetworkTypeMobile :: int where "NetworkTypeMobile \<equiv> 2"

definition EffectiveNATType :: "match_properties \<Rightarrow> int32" where
  "EffectiveNATType p =
    (if PortMappingTypes_Available (PortMappingTypes p) then NATTypePortMapping
     else if NATType p = NATTypeUnknown \<and> NetworkType p = NetworkTypeMobile then NATTypeMobileNetwork
     else NATType p)"

definition ExistsPreferredNATMatch :: "match_properties \<Rightarrow> bool \<Rightarrow> bool \<Rightarrow> bool \<Rightarrow> bool" where
  "ExistsPreferredNATMatch p unlimited partially limited =
    NATType_ExistsPreferredMatch (EffectiveNATType p) unlimited partially limited"

definition IsPreferredNATMatch :: "match_properties \<Rightarrow> match_properties \<Rightarrow> bool" where
  "IsPreferredNATMatch p peer = NATType_IsPreferredMatch (EffectiveNATType p) (EffectiveNATType peer)"

text \<open>The proxy metrics of an announcement are only carried along.\<close>

record match_announcement =
  Properties :: match_properties
  ProxyID :: ID
  SponsorID :: string
  ConnectionID :: ID

record announcement_entry =
  ae_ref :: nat
  ae_deadline :: "int option"
  limitIP :: string
  announcement :: match_announcement

abbreviation properties :: "announcement_entry \<Rightarrow> match_properties" where
  "properties e \<equiv> Properties (announcement e)"

definition entry_traversal :: "announcement_entry \<Rightarrow> traversal" where
  "entry_traversal e = MakeTraversal (EffectiveNATType (properties e))"

datatype matcher_error = MultipleCompartmentTypes | CompartmentCount | MissingCompartments
  | PriorityPersonal | LoadLimited | QueueFull | RateExceeded | MaxEntriesForIP
  | UnexpectedQueueReference | NoPendingAnswer

section \<open>The multi-queue\<close>

datatype queue_kind = PriorityCommon | CommonQueue | PersonalQueue

record compartment_queue =
  entries :: "announcement_entry list"
  unlimitedNATCount :: int
  partiallyLimitedNATCount :: int
  strictlyLimitedNATCount :: int

type_synonym queue_key = "queue_kind \<times> ID"

record multi_queue =
  compartmentQueues :: "queue_kind \<Rightarrow> ID \<Rightarrow> compartment_queue option"
  totalEntries :: int
  mq_refs :: "nat \<Rightarrow> queue_key option"

definition empty_queue :: compartment_queue where
  "empty_queue = \<lparr>entries = [], unlimitedNATCount = 0, partiallyLimitedNATCount = 0,
    strictlyLimitedNATCount = 0\<rparr>"

definition newAnnouncementMultiQueue :: multi_queue where
  "newAnnouncementMultiQueue = \<lparr>compartmentQueues = (\<lambda>k i. None), totalEntries = 0, mq_refs = Map.empty\<rparr>"

definition getLen :: "multi_queue \<Rightarrow> int" where
  "getLen q = totalEntries q"

definition count_NAT :: "traversal \<Rightarrow> int \<Rightarrow> compartment_queue \<Rightarrow> compartment_queue" where
  "count_NAT t n cq = (case t of
      NATTraversalUnlimited \<Rightarrow> cq\<lparr>unlimitedNATCount := unlimitedNATCount cq + n\<rparr>
    | NATTraversalPartiallyLimited \<Rightarrow> cq\<lparr>partiallyLimitedNATCount := partiallyLimitedNATCount cq + n\<rparr>
    | NATTraversalStrictlyLimited \<Rightarrow> cq\<lparr>strictlyLimitedNATCount := strictlyLimitedNATCount cq + n\<rparr>)"

text \<open>The queue an announcement goes to: exactly one compartment, no priority for personal ones.\<close>

definition queue_key_of :: "match_properties \<Rightarrow> matcher_error + queue_key" where
  "queue_key_of p =
    (let commonIDs = CommonCompartmentIDs p; personalIDs = PersonalCompartmentIDs p
     in if length commonIDs + length personalIDs \<noteq> 1 then Inl CompartmentCount
        else if length commonIDs > 0
        then Inr (if IsPriority p then PriorityCommon else CommonQueue, commonIDs ! 0)
        else if IsPriority p then Inl PriorityPersonal
        else Inr (PersonalQueue, personalIDs ! 0))"

definition push_entry :: "queue_key \<Rightarrow> announcement_entry \<Rightarrow> multi_queue \<Rightarrow> multi_queue" where
  "push_entry ki e q =
    (let (k, i) = ki;
         cq = (case compartmentQueues q k i of Some cq \<Rightarrow> cq | None \<Rightarrow> empty_queue);
         cq' = count_NAT (entry_traversal e) 1 (cq\<lparr>entries := entries cq @ [e]\<rparr>)
     in q\<lparr>compartmentQueues := (compartmentQueues q)(k := (compartmentQueues q k)(i \<mapsto> cq')),
          totalEntries := totalEntries q + 1,
          mq_refs := (mq_refs q)(ae_ref e \<mapsto> ki)\<rparr>)"

definition enqueue :: "announcement_entry \<Rightarrow> multi_queue \<Rightarrow> matcher_error + multi_queue" where
  "enqueue e q = ebind (queue_key_of (properties e)) (\<lambda>ki. Inr (push_entry ki e q))"

text \<open>
  A reference that is not nil refers to a stored queue, so the second \<open>None\<close> does not arise
  (\<open>queue_inv\<close>).
\<close>

definition dequeue :: "announcement_entry \<Rightarrow> multi_queue \<Rightarrow> bool \<times> multi_queue" where
  "dequeue e q =
    (case mq_refs q (ae_ref e) of None \<Rightarrow> (False, q)
     | Some (k, i) \<Rightarrow>
       (case compartmentQueues q k i of None \<Rightarrow> (False, q)
        | Some cq \<Rightarrow>
          let cq0 = count_NAT (entry_traversal e) (- 1) cq;
              cq' = cq0\<lparr>entries := filter (\<lambda>x. ae_ref x \<noteq> ae_ref e) (entries cq0)\<rparr>
          in (True, q\<lparr>compartmentQueues := (compartmentQueues q)(k := (compartmentQueues q k)
                        (i := if length (entries cq') = 0 then None else Some cq')),
                totalEntries := totalEntries q - 1,
                mq_refs := (mq_refs q)(ae_ref e := None)\<rparr>)))"

section \<open>The iterator\<close>

record match_iterator =
  it_queues :: "queue_key list"
  nextEntries :: "announcement_entry option list"

definition list_Front :: "announcement_entry list \<Rightarrow> announcement_entry option" where
  "list_Front xs = (case xs of [] \<Rightarrow> None | x # _ \<Rightarrow> Some x)"

fun list_Next :: "nat \<Rightarrow> announcement_entry list \<Rightarrow> announcement_entry option" where
  "list_Next r [] = None"
| "list_Next r (x # xs) = (if ae_ref x = r then list_Front xs else list_Next r xs)"

text \<open>The next element of a removed list element is nil.\<close>

definition next_entry :: "announcement_entry \<Rightarrow> multi_queue \<Rightarrow> announcement_entry option" where
  "next_entry e q = (case mq_refs q (ae_ref e) of None \<Rightarrow> None
    | Some (k, i) \<Rightarrow> (case compartmentQueues q k i of None \<Rightarrow> None
       | Some cq \<Rightarrow> list_Next (ae_ref e) (entries cq)))"

definition matching_keys :: "bool \<Rightarrow> ID list \<Rightarrow> multi_queue \<Rightarrow> queue_key list" where
  "matching_keys isCommonCompartments compartmentIDs q =
    [(k, i). k \<leftarrow> (if isCommonCompartments then [PriorityCommon, CommonQueue] else [PersonalQueue]),
             i \<leftarrow> compartmentIDs, compartmentQueues q k i \<noteq> None]"

definition entries_of :: "multi_queue \<Rightarrow> queue_key \<Rightarrow> announcement_entry list" where
  "entries_of q ki = (case compartmentQueues q (fst ki) (snd ki) of None \<Rightarrow> [] | Some cq \<Rightarrow> entries cq)"

definition startMatching :: "bool \<Rightarrow> ID list \<Rightarrow> multi_queue \<Rightarrow> match_iterator" where
  "startMatching isCommonCompartments compartmentIDs q =
    (let keys = matching_keys isCommonCompartments compartmentIDs q
     in \<lparr>it_queues = keys, nextEntries = map (\<lambda>ki. list_Front (entries_of q ki)) keys\<rparr>)"

definition getNATCounts :: "match_iterator \<Rightarrow> multi_queue \<Rightarrow> int \<times> int \<times> int" where
  "getNATCounts it q =
    foldl (\<lambda>(u, p, s) (k, i). case compartmentQueues q k i of None \<Rightarrow> (u, p, s)
      | Some cq \<Rightarrow> (u + unlimitedNATCount cq, p + partiallyLimitedNATCount cq, s + strictlyLimitedNATCount cq))
     (0, 0, 0) (it_queues it)"

definition deadline_before :: "announcement_entry \<Rightarrow> announcement_entry \<Rightarrow> bool" where
  "deadline_before c s = (case (ae_deadline c, ae_deadline s) of
     (Some d, Some d') \<Rightarrow> d < d' | _ \<Rightarrow> False)"

definition isPriority :: "queue_key \<Rightarrow> bool" where
  "isPriority ki \<longleftrightarrow> fst ki = PriorityCommon"

fun select_next :: "queue_key list \<Rightarrow> announcement_entry option list \<Rightarrow> nat \<Rightarrow>
    (announcement_entry \<times> nat \<times> bool) option \<Rightarrow> (announcement_entry \<times> nat \<times> bool) option" where
  "select_next (ki # kis) (None # es) i selected = select_next kis es (i + 1) selected"
| "select_next (ki # kis) (Some c # es) i None = select_next kis es (i + 1) (Some (c, i, isPriority ki))"
| "select_next (ki # kis) (Some c # es) i (Some (s, j, selectedPriority)) =
    (if selectedPriority \<and> \<not> isPriority ki then Some (s, j, selectedPriority)
     else if deadline_before c s then select_next kis es (i + 1) (Some (c, i, isPriority ki))
     else select_next kis es (i + 1) (Some (s, j, selectedPriority)))"
| "select_next _ _ i selected = selected"

definition getNext :: "match_iterator \<Rightarrow> multi_queue \<Rightarrow>
    match_iterator \<times> announcement_entry option \<times> bool" where
  "getNext it q =
    (case select_next (it_queues it) (nextEntries it) 0 None of
       None \<Rightarrow> (it, None, False)
     | Some (c, i, p) \<Rightarrow> (it\<lparr>nextEntries := (nextEntries it)[i := next_entry c q]\<rparr>, Some c, p))"

section \<open>The invariant of the multi-queue\<close>

definition traversal_count :: "traversal \<Rightarrow> announcement_entry list \<Rightarrow> int" where
  "traversal_count t es = int (length (filter (\<lambda>e. entry_traversal e = t) es))"

definition counts_ok :: "compartment_queue \<Rightarrow> bool" where
  "counts_ok cq \<longleftrightarrow>
     unlimitedNATCount cq = traversal_count NATTraversalUnlimited (entries cq) \<and>
     partiallyLimitedNATCount cq = traversal_count NATTraversalPartiallyLimited (entries cq) \<and>
     strictlyLimitedNATCount cq = traversal_count NATTraversalStrictlyLimited (entries cq)"

definition compartment_ok :: "multi_queue \<Rightarrow> queue_key \<Rightarrow> compartment_queue \<Rightarrow> bool" where
  "compartment_ok q ki cq \<longleftrightarrow> entries cq \<noteq> [] \<and> counts_ok cq \<and> distinct (map ae_ref (entries cq)) \<and>
     (\<forall>e\<in>set (entries cq). mq_refs q (ae_ref e) = Some ki \<and> queue_key_of (properties e) = Inr ki)"

definition queue_inv :: "multi_queue \<Rightarrow> bool" where
  "queue_inv q \<longleftrightarrow>
     (\<forall>k i cq. compartmentQueues q k i = Some cq \<longrightarrow> compartment_ok q (k, i) cq) \<and>
     (\<forall>r ki. mq_refs q r = Some ki \<longrightarrow> r \<in> ae_ref ` set (entries_of q ki)) \<and>
     finite (dom (mq_refs q)) \<and> totalEntries q = int (card (dom (mq_refs q)))"

definition queued :: "multi_queue \<Rightarrow> announcement_entry set" where
  "queued q = {e. \<exists>ki. e \<in> set (entries_of q ki)}"

lemma count_NAT_entries [simp]: "entries (count_NAT t n cq) = entries cq"
  by (simp add: count_NAT_def split: traversal.split)

lemma counts_ok_push:
  "counts_ok cq \<Longrightarrow> counts_ok (count_NAT (entry_traversal e) 1 (cq\<lparr>entries := entries cq @ [e]\<rparr>))"
  by (cases "entry_traversal e") (auto simp: counts_ok_def count_NAT_def traversal_count_def)

lemma filter_ref_remove:
  assumes "distinct (map ae_ref es)" "e \<in> set es"
  shows "int (length (filter P es)) =
    int (length (filter P (filter (\<lambda>x. ae_ref x \<noteq> ae_ref e) es))) + (if P e then 1 else 0)"
  using assms
proof (induction es)
  case (Cons x es)
  show ?case
  proof (cases "x = e")
    case True
    have "filter (\<lambda>y. ae_ref y \<noteq> ae_ref e) es = es"
      using Cons.prems(1) True by (simp add: filter_id_conv) (metis image_eqI)
    with True show ?thesis by simp
  next
    case False
    then have e: "e \<in> set es" using Cons.prems(2) by simp
    then have "ae_ref x \<noteq> ae_ref e" using Cons.prems(1) by auto
    then show ?thesis using Cons.IH e Cons.prems(1) by (auto split: if_splits)
  qed
qed simp

lemma counts_ok_remove:
  assumes "counts_ok cq" "distinct (map ae_ref (entries cq))" "e \<in> set (entries cq)"
  shows "counts_ok (count_NAT (entry_traversal e) (- 1) cq
    \<lparr>entries := filter (\<lambda>x. ae_ref x \<noteq> ae_ref e) (entries cq)\<rparr>)"
proof -
  have t: "traversal_count t (entries cq) =
      traversal_count t (filter (\<lambda>x. ae_ref x \<noteq> ae_ref e) (entries cq)) + (if entry_traversal e = t then 1 else 0)" for t
    using filter_ref_remove [OF assms(2,3), of "\<lambda>e. entry_traversal e = t"] by (simp add: traversal_count_def)
  show ?thesis
    using assms(1) t by (cases "entry_traversal e") (simp_all add: counts_ok_def count_NAT_def)
qed

lemma queue_inv_new: "queue_inv newAnnouncementMultiQueue"
  by (simp add: queue_inv_def newAnnouncementMultiQueue_def)

lemma queued_new [simp]: "queued newAnnouncementMultiQueue = {}"
  by (simp add: queued_def newAnnouncementMultiQueue_def entries_of_def)

lemma queue_inv_ref: "queue_inv q \<Longrightarrow> mq_refs q r = Some ki \<Longrightarrow> r \<in> ae_ref ` set (entries_of q ki)"
  unfolding queue_inv_def by blast

lemma entries_of_facts:
  assumes "queue_inv q" "e \<in> set (entries_of q ki)"
  shows "mq_refs q (ae_ref e) = Some ki" "queue_key_of (properties e) = Inr ki"
proof -
  obtain k i where ki: "ki = (k, i)" by (cases ki)
  with assms(2) obtain cq where cq: "compartmentQueues q k i = Some cq" "e \<in> set (entries cq)"
    by (cases "compartmentQueues q k i") (auto simp: entries_of_def)
  with assms(1) have "compartment_ok q ki cq" by (simp add: queue_inv_def ki)
  with cq show "mq_refs q (ae_ref e) = Some ki" "queue_key_of (properties e) = Inr ki"
    by (simp_all add: compartment_ok_def)
qed

lemma entries_of_distinct: "queue_inv q \<Longrightarrow> distinct (map ae_ref (entries_of q ki))"
  by (cases ki) (auto simp: entries_of_def queue_inv_def compartment_ok_def split: option.splits)

lemma queued_iff_ref:
  assumes "queue_inv q"
  shows "ae_ref ` queued q = dom (mq_refs q)" "inj_on ae_ref (queued q)"
proof -
  show "ae_ref ` queued q = dom (mq_refs q)"
    using assms entries_of_facts(1) [OF assms] by (fastforce simp: queued_def queue_inv_def)
  show "inj_on ae_ref (queued q)"
  proof (rule inj_onI)
    fix x y assume x: "x \<in> queued q" and y: "y \<in> queued q" and r: "ae_ref x = ae_ref y"
    obtain kx ky where kx: "x \<in> set (entries_of q kx)" and ky: "y \<in> set (entries_of q ky)"
      using x y by (auto simp: queued_def)
    have "kx = ky" using entries_of_facts(1) [OF assms kx] entries_of_facts(1) [OF assms ky] r by simp
    with kx ky r entries_of_distinct [OF assms, of kx] show "x = y"
      by (auto simp: distinct_map dest: inj_onD)
  qed
qed

lemma queued_card: "queue_inv q \<Longrightarrow> finite (queued q) \<and> getLen q = int (card (queued q))"
  using queued_iff_ref [of q] finite_imageD [of ae_ref "queued q"] card_image [of ae_ref "queued q"]
  by (auto simp: queue_inv_def getLen_def)

lemma refs_None_not_queued: "queue_inv q \<Longrightarrow> mq_refs q (ae_ref e) = None \<Longrightarrow> e \<notin> queued q"
  using queued_iff_ref(1) [of q] imageI [of e "queued q" ae_ref] by auto

section \<open>Enqueueing\<close>

lemma entries_of_push [simp]:
  "entries_of (push_entry ki e q) ki' = (if ki' = ki then entries_of q ki @ [e] else entries_of q ki')"
  by (cases ki; cases ki') (auto simp: entries_of_def push_entry_def empty_queue_def Let_def split: option.splits)

lemma queued_push: "queued (push_entry ki e q) = insert e (queued q)"
proof (intro set_eqI iffI)
  fix x
  assume "x \<in> insert e (queued q)"
  then consider "x = e" | kj where "x \<in> set (entries_of q kj)" by (auto simp: queued_def)
  then show "x \<in> queued (push_entry ki e q)"
  proof cases
    case 1
    then have "x \<in> set (entries_of (push_entry ki e q) ki)" by simp
    then show ?thesis unfolding queued_def by blast
  next
    case 2
    then have "x \<in> set (entries_of (push_entry ki e q) kj)" by (cases "kj = ki") simp_all
    then show ?thesis unfolding queued_def by blast
  qed
qed (auto simp: queued_def split: if_splits)

lemma mq_refs_push [simp]: "mq_refs (push_entry ki e q) = (mq_refs q)(ae_ref e \<mapsto> ki)"
  by (cases ki) (simp add: push_entry_def Let_def)

lemma push_queues:
  "compartmentQueues (push_entry (k, i) e q) k' i' =
    (if k' = k \<and> i' = i then Some (count_NAT (entry_traversal e) 1
        ((case compartmentQueues q k i of Some cq \<Rightarrow> cq | None \<Rightarrow> empty_queue)\<lparr>entries := entries_of q (k, i) @ [e]\<rparr>))
     else compartmentQueues q k' i')"
  by (auto simp: push_entry_def entries_of_def empty_queue_def Let_def split: option.splits)

lemma push_entry_inv:
  assumes inv: "queue_inv q" and fresh: "mq_refs q (ae_ref e) = None"
    and key: "queue_key_of (properties e) = Inr ki"
  shows "queue_inv (push_entry ki e q)"
proof -
  obtain k i where ki: "ki = (k, i)" by (cases ki)
  have new: "ae_ref e \<noteq> ae_ref x" if "x \<in> set (entries_of q kj)" for x kj
    using entries_of_facts(1) [OF inv that] fresh by auto
  have "compartment_ok (push_entry ki e q) (k', i') cq'"
    if cq': "compartmentQueues (push_entry ki e q) k' i' = Some cq'" for k' i' cq'
  proof (cases "k' = k \<and> i' = i")
    case False
    then have old: "compartmentQueues q k' i' = Some cq'" using cq' ki by (auto simp: push_queues)
    then have "compartment_ok q (k', i') cq'" using inv by (simp add: queue_inv_def)
    moreover have "ae_ref x \<noteq> ae_ref e" if "x \<in> set (entries cq')" for x
      using new [of x "(k', i')"] that old by (simp add: entries_of_def)
    ultimately show ?thesis by (auto simp: compartment_ok_def)
  next
    case True
    define cq where "cq = (case compartmentQueues q k i of Some cq \<Rightarrow> cq | None \<Rightarrow> empty_queue)"
    have es: "entries_of q (k, i) = entries cq"
      by (simp add: cq_def entries_of_def empty_queue_def split: option.split)
    have c: "counts_ok cq"
      using inv by (auto simp: cq_def queue_inv_def compartment_ok_def counts_ok_def empty_queue_def
          traversal_count_def split: option.split)
    have eq: "cq' = count_NAT (entry_traversal e) 1 (cq\<lparr>entries := entries cq @ [e]\<rparr>)"
      using cq' True ki es by (simp add: push_queues cq_def)
    have d: "distinct (map ae_ref (entries cq))" using entries_of_distinct [OF inv, of "(k, i)"] es by simp
    have f: "mq_refs q (ae_ref x) = Some (k, i) \<and> queue_key_of (properties x) = Inr (k, i) \<and> ae_ref x \<noteq> ae_ref e"
      if "x \<in> set (entries cq)" for x
      using entries_of_facts [OF inv, of x "(k, i)"] new [of x "(k, i)"] that es by auto
    show ?thesis using True eq counts_ok_push [OF c, of e] d f ki key
      by (fastforce simp: compartment_ok_def)
  qed
  moreover have "r \<in> ae_ref ` set (entries_of (push_entry ki e q) kj)"
    if "mq_refs (push_entry ki e q) r = Some kj" for r kj
    using that queue_inv_ref [OF inv, of r kj] by (auto split: if_splits)
  moreover have "totalEntries (push_entry ki e q) = int (card (dom (mq_refs (push_entry ki e q))))"
  proof -
    have "ae_ref e \<notin> dom (mq_refs q)" "finite (dom (mq_refs q))" using fresh inv by (auto simp: queue_inv_def)
    then have "card (dom (mq_refs (push_entry ki e q))) = Suc (card (dom (mq_refs q)))" by simp
    moreover have "totalEntries (push_entry ki e q) = totalEntries q + 1"
      by (simp add: push_entry_def Let_def split: prod.split)
    ultimately show ?thesis using inv by (simp add: queue_inv_def)
  qed
  ultimately show ?thesis using inv by (simp add: queue_inv_def)
qed

section \<open>Dequeueing\<close>

lemma dequeue_absent: "mq_refs q (ae_ref e) = None \<Longrightarrow> dequeue e q = (False, q)"
  by (simp add: dequeue_def)

lemma dequeue_present:
  assumes inv: "queue_inv q" and e: "e \<in> queued q"
  shows "fst (dequeue e q)"
    "entries_of (snd (dequeue e q)) kj = filter (\<lambda>x. ae_ref x \<noteq> ae_ref e) (entries_of q kj)"
    "mq_refs (snd (dequeue e q)) = (mq_refs q)(ae_ref e := None)"
    "queue_inv (snd (dequeue e q))"
proof -
  obtain k i where ki: "e \<in> set (entries_of q (k, i))" using e by (auto simp: queued_def)
  then obtain cq where cq: "compartmentQueues q k i = Some cq" "entries_of q (k, i) = entries cq"
    by (cases "compartmentQueues q k i") (auto simp: entries_of_def)
  have ref: "mq_refs q (ae_ref e) = Some (k, i)" using entries_of_facts(1) [OF inv ki] .
  let ?cq0 = "count_NAT (entry_traversal e) (- 1) cq"
  let ?es = "filter (\<lambda>x. ae_ref x \<noteq> ae_ref e) (entries cq)"
  have dq: "dequeue e q = (True, q\<lparr>compartmentQueues := (compartmentQueues q)(k := (compartmentQueues q k)
       (i := if ?es = [] then None else Some (?cq0\<lparr>entries := ?es\<rparr>))),
       totalEntries := totalEntries q - 1, mq_refs := (mq_refs q)(ae_ref e := None)\<rparr>)"
    using ref cq by (simp add: dequeue_def Let_def)
  have other: "ae_ref x \<noteq> ae_ref e" if "x \<in> set (entries_of q ko)" "ko \<noteq> (k, i)" for x ko
    using entries_of_facts(1) [OF inv that(1)] ref that(2) by auto
  have other_id: "filter (\<lambda>x. ae_ref x \<noteq> ae_ref e) (entries_of q ko) = entries_of q ko" if "ko \<noteq> (k, i)" for ko
    using other [OF _ that] by (simp add: filter_id_conv)
  show "fst (dequeue e q)" by (simp add: dq)
  show es: "entries_of (snd (dequeue e q)) kj = filter (\<lambda>x. ae_ref x \<noteq> ae_ref e) (entries_of q kj)" for kj
  proof (cases "kj = (k, i)")
    case True
    then show ?thesis using cq by (simp add: dq entries_of_def)
  next
    case False
    then have "entries_of (snd (dequeue e q)) kj = entries_of q kj"
      by (cases kj) (auto simp: dq entries_of_def)
    then show ?thesis using other_id [OF False] by simp
  qed
  show refs: "mq_refs (snd (dequeue e q)) = (mq_refs q)(ae_ref e := None)" by (simp add: dq)
  have "compartment_ok (snd (dequeue e q)) (k', i') cq'"
    if cq': "compartmentQueues (snd (dequeue e q)) k' i' = Some cq'" for k' i' cq'
  proof (cases "(k', i') = (k, i)")
    case True
    have "compartment_ok q (k, i) cq" using inv cq by (simp add: queue_inv_def)
    moreover have "cq' = ?cq0\<lparr>entries := ?es\<rparr>" "?es \<noteq> []"
      using cq' True by (auto simp: dq split: if_splits)
    ultimately show ?thesis
      using True ki cq counts_ok_remove [of cq e]
      by (auto simp: compartment_ok_def refs distinct_map_filter)
  next
    case False
    then have old: "compartmentQueues q k' i' = Some cq'" using cq' by (auto simp: dq split: if_splits)
    then have "compartment_ok q (k', i') cq'" using inv by (simp add: queue_inv_def)
    moreover have "ae_ref x \<noteq> ae_ref e" if "x \<in> set (entries cq')" for x
      using other [OF _ False, of x] that old by (simp add: entries_of_def)
    ultimately show ?thesis by (auto simp: compartment_ok_def refs)
  qed
  moreover have "r \<in> ae_ref ` set (entries_of (snd (dequeue e q)) kr)"
    if "mq_refs (snd (dequeue e q)) r = Some kr" for r kr
    using that queue_inv_ref [OF inv, of r kr] by (auto simp: refs es split: if_splits)
  moreover have "totalEntries (snd (dequeue e q)) = int (card (dom (mq_refs (snd (dequeue e q)))))"
  proof -
    have "ae_ref e \<in> dom (mq_refs q)" "finite (dom (mq_refs q))" using ref inv by (auto simp: queue_inv_def)
    then have "card (dom (mq_refs q)) = Suc (card (dom (mq_refs q) - {ae_ref e}))"
      by (rule card.remove [rotated])
    then show ?thesis using inv by (simp add: queue_inv_def dq)
  qed
  ultimately show "queue_inv (snd (dequeue e q))" using inv by (simp add: queue_inv_def refs)
qed

lemma queued_dequeue:
  assumes "queue_inv q" "e \<in> queued q"
  shows "queued (snd (dequeue e q)) = queued q - {e}"
proof -
  have "x = e" if "x \<in> queued q" "ae_ref x = ae_ref e" for x
    using inj_onD [OF queued_iff_ref(2) [OF assms(1)] that(2) that(1) assms(2)] .
  then show ?thesis using dequeue_present(2) [OF assms] by (auto simp: queued_def)
qed

section \<open>What one step of the iterator selects\<close>

lemma select_next_sound:
  "select_next ks es i sel = Some (c, j, p) \<Longrightarrow> length ks = length es \<Longrightarrow>
    sel = Some (c, j, p) \<or> (\<exists>n<length ks. j = i + n \<and> es ! n = Some c \<and> p = isPriority (ks ! n))"
proof (induction ks es i sel rule: select_next.induct)
  case (1 ki kis es i sel)
  then show ?case by (auto intro: exI [of _ "Suc _"])
next
  case (2 ki kis c0 es i)
  then show ?case by (auto intro: exI [of _ "Suc _"])
next
  case (3 ki kis c0 es i s j0 p0)
  then show ?case by (auto intro: exI [of _ "Suc _"] split: if_splits)
qed auto

lemma select_next_None:
  "length ks = length es \<Longrightarrow> select_next ks es i sel = None \<longleftrightarrow> sel = None \<and> (\<forall>e\<in>set es. e = None)"
  by (induction ks es i sel rule: select_next.induct) auto

definition priority_first :: "queue_key list \<Rightarrow> bool" where
  "priority_first ks \<longleftrightarrow> sorted_wrt (\<lambda>k k'. isPriority k' \<longrightarrow> isPriority k) ks"

lemma priority_first_Cons [simp]:
  "priority_first (k # ks) \<longleftrightarrow> (\<forall>k'\<in>set ks. isPriority k' \<longrightarrow> isPriority k) \<and> priority_first ks"
  by (simp add: priority_first_def)

lemma select_next_keeps_priority:
  "select_next ks es i (Some (s, j0, True)) = Some (c, j, p) \<Longrightarrow> p"
proof (induction ks es i "Some (s, j0, True)" arbitrary: s j0 rule: select_next.induct)
  case (3 ki kis c0 es i s j0)
  then show ?case by (auto split: if_splits)
qed auto

lemma select_next_priority:
  assumes "length ks = length es" "priority_first ks" "select_next ks es i sel = Some (c, j, p)"
    and "n < length ks" "isPriority (ks ! n)" "es ! n \<noteq> None"
    and "\<And>s j0. sel = Some (s, j0, False) \<Longrightarrow> \<not> isPriority (ks ! n)"
  shows p
  using assms
proof (induction ks es i sel arbitrary: n rule: select_next.induct)
  case (1 ki kis es i sel)
  then show ?case by (cases n) auto
next
  case (2 ki kis c0 es i)
  show ?case
  proof (cases "isPriority ki")
    case True
    then show ?thesis using 2 select_next_keeps_priority by auto
  next
    case False
    then have "\<not> isPriority ((ki # kis) ! n)" using 2(3,5) by (cases n) auto
    with 2 show ?thesis by blast
  qed
next
  case (3 ki kis c0 es i s j0 p0)
  then have p0: p0 by (cases p0) auto
  then show ?case using 3 select_next_keeps_priority by (auto split: if_splits)
qed auto

definition deadline :: "announcement_entry \<Rightarrow> int" where
  "deadline e = the (ae_deadline e)"

lemma deadline_before_iff:
  "ae_deadline c \<noteq> None \<Longrightarrow> ae_deadline s \<noteq> None \<Longrightarrow> deadline_before c s \<longleftrightarrow> deadline c < deadline s"
  by (auto simp: deadline_before_def deadline_def)

definition oldest_among :: "announcement_entry \<Rightarrow> bool \<Rightarrow> queue_key list \<Rightarrow> announcement_entry option list \<Rightarrow> bool" where
  "oldest_among c p ks es \<longleftrightarrow>
    (\<forall>(k, e)\<in>set (zip ks es). \<forall>x. e = Some x \<and> isPriority k = p \<longrightarrow> deadline c \<le> deadline x)"

lemma oldest_among_Cons [simp]:
  "oldest_among c p (k # ks) (e # es) \<longleftrightarrow>
    (\<forall>x. e = Some x \<and> isPriority k = p \<longrightarrow> deadline c \<le> deadline x) \<and> oldest_among c p ks es"
  by (auto simp: oldest_among_def)

lemma oldest_among_Nil [simp]: "oldest_among c p [] es" "oldest_among c p ks []"
  by (simp_all add: oldest_among_def)

lemma oldest_among_no_class: "(\<And>k. k \<in> set ks \<Longrightarrow> isPriority k \<noteq> p) \<Longrightarrow> oldest_among c p ks es"
  by (auto simp: oldest_among_def dest: set_zip_leftD)

lemma select_next_oldest:
  assumes "select_next ks es i sel = Some (c, j, p)" "priority_first ks"
    and "\<forall>e. Some e \<in> set es \<longrightarrow> ae_deadline e \<noteq> None"
    and "\<forall>s j0 p0. sel = Some (s, j0, p0) \<longrightarrow>
      ae_deadline s \<noteq> None \<and> (\<not> p0 \<longrightarrow> (\<forall>k\<in>set ks. \<not> isPriority k))"
  shows "oldest_among c p ks es \<and> (\<forall>s j0. sel = Some (s, j0, p) \<longrightarrow> deadline c \<le> deadline s)"
  using assms
proof (induction ks es i sel rule: select_next.induct)
  case (1 ki kis es i sel)
  have "oldest_among c p kis es \<and> (\<forall>s j0. sel = Some (s, j0, p) \<longrightarrow> deadline c \<le> deadline s)"
    by (rule 1(1)) (use 1(2-5) in auto)
  then show ?case by simp
next
  case (2 ki kis c0 es i)
  have "oldest_among c p kis es \<and>
      (\<forall>s j0. Some (c0, i, isPriority ki) = Some (s, j0, p) \<longrightarrow> deadline c \<le> deadline s)"
    by (rule 2(1)) (use 2(2-5) in auto)
  then show ?case by auto
next
  case (3 ki kis c0 es i s j0 p0)
  note sel = 3(3) and prios = 3(4) and all = 3(5) and s = 3(6)
  have d: "ae_deadline c0 \<noteq> None" "ae_deadline s \<noteq> None" using all s by auto
  consider (stop) "p0 \<and> \<not> isPriority ki"
    | (take) "\<not> (p0 \<and> \<not> isPriority ki)" "deadline_before c0 s"
    | (keep) "\<not> (p0 \<and> \<not> isPriority ki)" "\<not> deadline_before c0 s" by blast
  then show ?case
  proof cases
    case stop
    with sel have eq: "c = s" "p" by simp_all
    have "oldest_among c p (ki # kis) (Some c0 # es)"
      by (rule oldest_among_no_class) (use stop prios eq in auto)
    with eq show ?thesis by simp
  next
    case take
    have prio: "isPriority ki = p0" using take(1) s by auto
    have "select_next kis es (i + 1) (Some (c0, i, isPriority ki)) = Some (c, j, p)"
      using sel take by (simp split: if_splits)
    then have "oldest_among c p kis es \<and>
        (\<forall>s j0. Some (c0, i, isPriority ki) = Some (s, j0, p) \<longrightarrow> deadline c \<le> deadline s)"
      by (rule 3(1) [OF take]) (use prios all d s prio in auto)
    moreover have "deadline c0 < deadline s" using take(2) d deadline_before_iff by simp
    ultimately show ?thesis using prio by auto
  next
    case keep
    have prio: "isPriority ki = p0" using keep(1) s by auto
    have "select_next kis es (i + 1) (Some (s, j0, p0)) = Some (c, j, p)"
      using sel keep by (simp split: if_splits)
    then have "oldest_among c p kis es \<and> (\<forall>s' j0'. Some (s, j0, p0) = Some (s', j0', p) \<longrightarrow> deadline c \<le> deadline s')"
      by (rule 3(2) [OF keep]) (use prios all d s prio in auto)
    moreover have "deadline s \<le> deadline c0" using keep(2) d deadline_before_iff by simp
    ultimately show ?thesis using prio by auto
  qed
qed auto

end
