(* ===== verification/MatchIterator.thy ===== *)
theory MatchIterator
  imports MultiQueue
begin

text \<open>
  What the iterator of the announcement multi-queue visits: the merge of the matched queues,
  each entry once, priority entries first and the oldest deadline first. The theory relates the
  steps of \<open>getNext\<close> to the entries that remain, also while visited entries are dequeued.
\<close>

section \<open>What the iteration visits\<close>

text \<open>
  The remaining entries of every matched queue determine the rest of the iteration: \<open>merge\<close>
  lists the candidates in the order in which \<open>getNext\<close> delivers them.
\<close>

definition merge_pick :: "queue_key list \<Rightarrow> announcement_entry list list \<Rightarrow> (announcement_entry \<times> nat \<times> bool) option" where
  "merge_pick ks rems = select_next ks (map list_Front rems) 0 None"

lemma list_Front_Some: "list_Front xs = Some x \<longleftrightarrow> (\<exists>ys. xs = x # ys)"
  by (cases xs) (auto simp: list_Front_def)

lemma list_Front_None: "list_Front xs = None \<longleftrightarrow> xs = []"
  by (cases xs) (auto simp: list_Front_def)

lemma merge_pick_Some:
  assumes "length ks = length rems" "merge_pick ks rems = Some (c, j, p)"
  obtains cs where "j < length rems" "rems ! j = c # cs" "p = isPriority (ks ! j)"
proof -
  obtain n where n: "n < length ks" "j = n" "map list_Front rems ! n = Some c" "p = isPriority (ks ! n)"
    using select_next_sound [OF assms(2) [unfolded merge_pick_def]] assms(1) by fastforce
  then have "list_Front (rems ! j) = Some c" using assms(1) by simp
  then obtain cs where "rems ! j = c # cs" by (auto simp: list_Front_Some)
  with n assms(1) that show ?thesis by simp
qed

lemma merge_pick_None:
  "length ks = length rems \<Longrightarrow> merge_pick ks rems = None \<longleftrightarrow> (\<forall>r\<in>set rems. r = [])"
  by (auto simp: merge_pick_def select_next_None list_Front_None)

lemma sum_length_update:
  "j < length rems \<Longrightarrow> rems ! j = c # cs \<Longrightarrow>
    sum_list (map length rems) = Suc (sum_list (map length (rems[j := cs])))"
  by (induction rems arbitrary: j) (auto split: nat.splits simp: nth_Cons)

function merge :: "queue_key list \<Rightarrow> announcement_entry list list \<Rightarrow> (announcement_entry \<times> bool) list" where
  "merge ks rems = (case merge_pick ks rems of None \<Rightarrow> []
     | Some (c, j, p) \<Rightarrow> if j < length rems \<and> rems ! j \<noteq> [] then (c, p) # merge ks (rems[j := tl (rems ! j)]) else [])"
  by auto
termination
proof (relation "measure (\<lambda>(ks, rems). sum_list (map length rems))", goal_cases)
  case (2 ks rems x c y j p)
  then show ?case using sum_length_update [of j rems "hd (rems ! j)" "tl (rems ! j)"] by simp
qed simp

declare merge.simps [simp del]

lemma merge_None: "merge_pick ks rems = None \<Longrightarrow> merge ks rems = []"
  by (subst merge.simps) simp

lemma merge_Some:
  "merge_pick ks rems = Some (c, j, p) \<Longrightarrow> j < length rems \<Longrightarrow> rems ! j = c # cs \<Longrightarrow>
    merge ks rems = (c, p) # merge ks (rems[j := cs])"
  by (subst merge.simps) simp

lemma merge_induct [consumes 1, case_names stop pick]:
  assumes "length ks = length rems"
    and "\<And>rems. length ks = length rems \<Longrightarrow> merge_pick ks rems = None \<Longrightarrow> (\<forall>r\<in>set rems. r = []) \<Longrightarrow> P rems"
    and "\<And>rems c j p cs. length ks = length rems \<Longrightarrow> merge_pick ks rems = Some (c, j, p) \<Longrightarrow> j < length rems \<Longrightarrow>
      rems ! j = c # cs \<Longrightarrow> p = isPriority (ks ! j) \<Longrightarrow> P (rems[j := cs]) \<Longrightarrow> P rems"
  shows "P rems"
  using assms(1)
proof (induction "sum_list (map length rems)" arbitrary: rems rule: less_induct)
  case less
  show ?case
  proof (cases "merge_pick ks rems")
    case None
    then show ?thesis using assms(2) less.prems merge_pick_None by blast
  next
    case (Some cjp)
    obtain c j p where cjp: "cjp = (c, j, p)" by (cases cjp)
    obtain cs where cs: "j < length rems" "rems ! j = c # cs" "p = isPriority (ks ! j)"
      using merge_pick_Some [OF less.prems] Some cjp by blast
    have "P (rems[j := cs])"
      by (rule less.hyps) (use less.prems sum_length_update [OF cs(1,2)] in simp_all)
    then show ?thesis using assms(3) less.prems Some cjp cs by blast
  qed
qed

lemma mset_concat_update:
  "j < length rems \<Longrightarrow> rems ! j = c # cs \<Longrightarrow> mset (concat rems) = add_mset c (mset (concat (rems[j := cs])))"
  by (induction rems arbitrary: j) (auto split: nat.splits simp: nth_Cons)

lemma merge_mset: "length ks = length rems \<Longrightarrow> mset (map fst (merge ks rems)) = mset (concat rems)"
proof (induction rems rule: merge_induct)
  case (stop rems)
  then have "concat rems = []" by simp
  with stop show ?case by (simp add: merge_None)
next
  case (pick rems c j p cs)
  then show ?case by (simp add: merge_Some mset_concat_update)
qed

lemma merge_class:
  "length ks = length rems \<Longrightarrow> (e, p) \<in> set (merge ks rems) \<Longrightarrow>
    \<exists>n<length ks. e \<in> set (rems ! n) \<and> p = isPriority (ks ! n)"
proof (induction rems rule: merge_induct)
  case (stop rems)
  then show ?case by (simp add: merge_None)
next
  case (pick rems c j q cs)
  show ?case
  proof (cases "(e, p) = (c, q)")
    case True
    then show ?thesis using pick by (intro exI [of _ j]) auto
  next
    case False
    then obtain n where n: "n < length ks" "e \<in> set (rems[j := cs] ! n)" "p = isPriority (ks ! n)"
      using pick by (auto simp: merge_Some)
    then show ?thesis using pick by (intro exI [of _ n]) (cases "n = j"; auto)
  qed
qed

lemma merge_fifo: "length ks = length rems \<Longrightarrow> n < length ks \<Longrightarrow> subseq (rems ! n) (map fst (merge ks rems))"
proof (induction rems rule: merge_induct)
  case (stop rems)
  then have "rems ! n = []" by simp
  then show ?case by simp
next
  case (pick rems c j p cs)
  then show ?case by (cases "n = j") (auto simp: merge_Some)
qed

lemma merge_priority:
  assumes "length ks = length rems" "priority_first ks"
  shows "sorted_wrt (\<lambda>(_, p) (_, p'). p' \<longrightarrow> p) (merge ks rems)"
  using assms(1)
proof (induction rems rule: merge_induct)
  case (stop rems)
  then show ?case by (simp add: merge_None)
next
  case (pick rems c j p cs)
  have "p" if m: "(e, True) \<in> set (merge ks (rems[j := cs]))" for e
  proof -
    obtain n where n: "n < length ks" "e \<in> set (rems[j := cs] ! n)" "isPriority (ks ! n)"
      using merge_class [OF _ m] pick by auto
    then have "rems ! n \<noteq> []" using pick by (cases "n = j") auto
    then have "map list_Front rems ! n \<noteq> None" using n pick by (simp add: list_Front_None)
    then show p
      using select_next_priority [of ks "map list_Front rems" 0 None c j p n] n pick assms(2)
      by (simp add: merge_pick_def)
  qed
  then show ?case using pick by (auto simp: merge_Some)
qed

lemma merge_oldest:
  assumes "length ks = length rems" "priority_first ks"
    and "\<forall>r\<in>set rems. sorted_wrt (\<lambda>a b. deadline a \<le> deadline b) r \<and> (\<forall>e\<in>set r. ae_deadline e \<noteq> None)"
  shows "sorted_wrt (\<lambda>(a, p) (b, p'). p = p' \<longrightarrow> deadline a \<le> deadline b) (merge ks rems)"
  using assms(1,3)
proof (induction rems rule: merge_induct)
  case (stop rems)
  then show ?case by (simp add: merge_None)
next
  case (pick rems c j p cs)
  have all: "\<forall>e. Some e \<in> set (map list_Front rems) \<longrightarrow> ae_deadline e \<noteq> None"
    using pick.prems by (auto simp: list_Front_def split: list.splits)
  have old: "oldest_among c p ks (map list_Front rems)"
    using select_next_oldest [of ks "map list_Front rems" 0 None c j p] pick assms(2) all
    by (auto simp: merge_pick_def)
  have j1: "rems ! j \<in> set rems" by (rule nth_mem) (fact pick.hyps)
  then have "sorted_wrt (\<lambda>a b. deadline a \<le> deadline b) (rems ! j)" using pick.prems by blast
  then have j: "rems ! j \<in> set rems" "sorted_wrt (\<lambda>a b. deadline a \<le> deadline b) (c # cs)"
    using j1 pick.hyps by simp_all
  have "deadline c \<le> deadline e" if m: "(e, p) \<in> set (merge ks (rems[j := cs]))" for e
  proof -
    obtain n where n: "n < length ks" "e \<in> set (rems[j := cs] ! n)" "p = isPriority (ks ! n)"
      using merge_class [OF _ m] pick by auto
    show ?thesis
    proof (cases "n = j")
      case True
      then show ?thesis using n j pick by auto
    next
      case False
      with n have e: "e \<in> set (rems ! n)" by simp
      then obtain x xs where x: "rems ! n = x # xs" by (cases "rems ! n") auto
      have "(ks ! n, Some x) \<in> set (zip ks (map list_Front rems))"
        using n x pick by (auto simp: in_set_zip list_Front_def intro!: exI [of _ n])
      then have "deadline c \<le> deadline x" using old n by (auto simp: oldest_among_def)
      moreover have "sorted_wrt (\<lambda>a b. deadline a \<le> deadline b) (x # xs)"
        using pick n x by (metis nth_mem)
      ultimately show ?thesis using e x by auto
    qed
  qed
  moreover have "sorted_wrt (\<lambda>(a, p) (b, p'). p = p' \<longrightarrow> deadline a \<le> deadline b) (merge ks (rems[j := cs]))"
  proof (rule pick.IH)
    show "\<forall>r\<in>set (rems[j := cs]). sorted_wrt (\<lambda>a b. deadline a \<le> deadline b) r \<and> (\<forall>e\<in>set r. ae_deadline e \<noteq> None)"
    proof
      fix r assume "r \<in> set (rems[j := cs])"
      then consider "r = cs" | "r \<in> set rems" using set_update_subset_insert by fastforce
      then show "sorted_wrt (\<lambda>a b. deadline a \<le> deadline b) r \<and> (\<forall>e\<in>set r. ae_deadline e \<noteq> None)"
      proof cases
        case 1
        have "\<forall>e\<in>set (c # cs). ae_deadline e \<noteq> None" using pick.prems j(1) pick.hyps by fastforce
        with 1 j(2) show ?thesis by simp
      qed (use pick.prems in blast)
    qed
  qed
  ultimately show ?case using pick.hyps by (auto simp: merge_Some)
qed

section \<open>The iterator follows the merge\<close>

definition it_rel :: "multi_queue \<Rightarrow> match_iterator \<Rightarrow> announcement_entry list list \<Rightarrow> bool" where
  "it_rel q it rems \<longleftrightarrow> length (it_queues it) = length rems \<and> nextEntries it = map list_Front rems \<and>
     distinct (it_queues it) \<and> (\<forall>n<length rems. suffix (rems ! n) (entries_of q (it_queues it ! n)))"

lemma queuedI: "x \<in> set (entries_of q ki) \<Longrightarrow> x \<in> queued q"
  unfolding queued_def by blast

lemma list_Next_suffix:
  "distinct (map ae_ref (pre @ c # cs)) \<Longrightarrow> list_Next (ae_ref c) (pre @ c # cs) = list_Front cs"
  by (induction pre) auto

lemma next_entry_suffix:
  assumes "queue_inv q" "suffix (c # cs) (entries_of q ki)"
  shows "next_entry c q = list_Front cs"
proof -
  obtain pre where pre: "entries_of q ki = pre @ c # cs" using assms(2) by (auto simp: suffix_def)
  then have c: "c \<in> set (entries_of q ki)" by simp
  obtain k i where ki: "ki = (k, i)" by (cases ki)
  obtain cq where cq: "compartmentQueues q k i = Some cq" "entries cq = pre @ c # cs"
    using pre ki by (cases "compartmentQueues q k i") (auto simp: entries_of_def)
  have d: "distinct (map ae_ref (pre @ c # cs))" using entries_of_distinct [OF assms(1), of ki] pre by simp
  show ?thesis
    using entries_of_facts(1) [OF assms(1) c] ki cq list_Next_suffix [OF d] by (simp add: next_entry_def)
qed

lemma getNext_None:
  "it_rel q it rems \<Longrightarrow> merge_pick (it_queues it) rems = None \<Longrightarrow> getNext it q = (it, None, False)"
  by (simp add: getNext_def it_rel_def merge_pick_def)

lemma getNext_Some:
  assumes inv: "queue_inv q" and rel: "it_rel q it rems"
    and pick: "merge_pick (it_queues it) rems = Some (c, j, p)" "j < length rems" "rems ! j = c # cs"
  obtains it' where "getNext it q = (it', Some c, p)" "it_queues it' = it_queues it"
    "it_rel q it' (rems[j := cs])" "c \<in> set (entries_of q (it_queues it ! j))"
proof -
  have suf: "suffix (c # cs) (entries_of q (it_queues it ! j))" using rel pick by (auto simp: it_rel_def)
  let ?it = "it\<lparr>nextEntries := (nextEntries it)[j := next_entry c q]\<rparr>"
  have "getNext it q = (?it, Some c, p)" using rel pick(1) by (simp add: getNext_def it_rel_def merge_pick_def)
  moreover have "it_rel q ?it (rems[j := cs])"
    using rel pick next_entry_suffix [OF inv suf] suffix_ConsD [OF suf]
    by (simp add: it_rel_def map_update nth_list_update)
  moreover have "c \<in> set (entries_of q (it_queues it ! j))" using suf by (auto simp: suffix_def)
  ultimately show thesis using that by simp
qed

text \<open>A visited entry is in none of the remaining lists, so dequeueing it does not disturb the iteration.\<close>

lemma visited_not_remaining:
  assumes inv: "queue_inv q" and rel: "it_rel q it rems"
    and j: "j < length rems" "rems ! j = c # cs" and n: "n < length rems"
  shows "c \<notin> set (rems[j := cs] ! n)"
proof (cases "n = j")
  case True
  have "suffix (c # cs) (entries_of q (it_queues it ! j))" using rel j by (auto simp: it_rel_def)
  then obtain pre where "entries_of q (it_queues it ! j) = pre @ c # cs" by (auto simp: suffix_def)
  with entries_of_distinct [OF inv, of "it_queues it ! j"] have "c \<notin> set cs" by auto
  with True j show ?thesis by simp
next
  case False
  have "it_queues it ! j \<noteq> it_queues it ! n"
    using rel j n False by (simp add: it_rel_def nth_eq_iff_index_eq)
  moreover have "mq_refs q (ae_ref c) = Some (it_queues it ! j)"
  proof (rule entries_of_facts(1) [OF inv])
    have "suffix (c # cs) (entries_of q (it_queues it ! j))" using rel j by (auto simp: it_rel_def)
    then show "c \<in> set (entries_of q (it_queues it ! j))" by (auto simp: suffix_def)
  qed
  moreover have "mq_refs q (ae_ref c) = Some (it_queues it ! n)" if "c \<in> set (rems ! n)"
  proof (rule entries_of_facts(1) [OF inv])
    have "suffix (rems ! n) (entries_of q (it_queues it ! n))" using rel n by (simp add: it_rel_def)
    with that show "c \<in> set (entries_of q (it_queues it ! n))" by (auto simp: suffix_def)
  qed
  ultimately show ?thesis using False by auto
qed

lemma it_rel_dequeue:
  assumes inv: "queue_inv q" and rel: "it_rel q it rems" and c: "c \<in> queued q"
    and out: "\<forall>n<length rems. c \<notin> set (rems ! n)"
  shows "it_rel (snd (dequeue c q)) it rems"
proof -
  have "suffix (rems ! n) (entries_of (snd (dequeue c q)) (it_queues it ! n))" if n: "n < length rems" for n
  proof -
    obtain pre where pre: "entries_of q (it_queues it ! n) = pre @ rems ! n"
      using rel n by (auto simp: it_rel_def suffix_def)
    have "ae_ref x \<noteq> ae_ref c" if x: "x \<in> set (rems ! n)" for x
    proof
      assume "ae_ref x = ae_ref c"
      moreover have "x \<in> queued q" using pre x queuedI [of x q "it_queues it ! n"] by simp
      ultimately have "x = c" using inj_onD [OF queued_iff_ref(2) [OF inv]] c by blast
      with x out n show False by blast
    qed
    then have "filter (\<lambda>x. ae_ref x \<noteq> ae_ref c) (rems ! n) = rems ! n" by (simp add: filter_id_conv)
    then show ?thesis using dequeue_present(2) [OF inv c, of "it_queues it ! n"] pre by (simp add: suffix_def)
  qed
  with rel show ?thesis by (simp add: it_rel_def)
qed

definition matching_entries :: "bool \<Rightarrow> ID list \<Rightarrow> multi_queue \<Rightarrow> announcement_entry list list" where
  "matching_entries common ids q = map (entries_of q) (matching_keys common ids q)"

lemma concat_map_filter: "concat (map (\<lambda>i. if P i then [f i] else []) is) = map f (filter P is)"
  by (induction "is") simp_all

definition stored_keys :: "multi_queue \<Rightarrow> ID list \<Rightarrow> queue_kind \<Rightarrow> queue_key list" where
  "stored_keys q ids k = map (Pair k) (filter (\<lambda>i. compartmentQueues q k i \<noteq> None) ids)"

lemma matching_keys_eq:
  "matching_keys common ids q =
    (if common then stored_keys q ids PriorityCommon @ stored_keys q ids CommonQueue
     else stored_keys q ids PersonalQueue)"
  by (simp add: matching_keys_def stored_keys_def concat_map_filter)

lemma stored_keys_kind: "ki \<in> set (stored_keys q ids k) \<Longrightarrow> fst ki = k"
  by (auto simp: stored_keys_def)

lemma stored_keys_distinct: "distinct ids \<Longrightarrow> distinct (stored_keys q ids k)"
  by (simp add: stored_keys_def distinct_map inj_on_def)

lemma startMatching_rel:
  assumes "distinct ids"
  shows "it_rel q (startMatching common ids q) (matching_entries common ids q)"
proof -
  have "set (stored_keys q ids PriorityCommon) \<inter> set (stored_keys q ids CommonQueue) = {}"
    by (auto dest!: stored_keys_kind)
  then have "distinct (matching_keys common ids q)"
    using stored_keys_distinct [OF assms] by (simp add: matching_keys_eq)
  then show ?thesis by (simp add: it_rel_def startMatching_def matching_entries_def Let_def comp_def)
qed

lemma priority_first_append:
  "priority_first (ks @ ls) \<longleftrightarrow> priority_first ks \<and> priority_first ls \<and>
    (\<forall>k\<in>set ks. \<forall>l\<in>set ls. isPriority l \<longrightarrow> isPriority k)"
  by (auto simp: priority_first_def sorted_wrt_append)

lemma priority_first_same: "(\<And>k. k \<in> set ks \<Longrightarrow> fst k = a) \<Longrightarrow> priority_first ks"
  by (induction ks) (auto simp: isPriority_def, simp add: priority_first_def)

lemma matching_keys_priority_first: "priority_first (matching_keys common ids q)"
proof -
  have "priority_first (stored_keys q ids k)" for k
    by (rule priority_first_same) (rule stored_keys_kind)
  then show ?thesis
    by (auto simp: matching_keys_eq priority_first_append isPriority_def dest!: stored_keys_kind)
qed

text \<open>The candidates of a whole iteration.\<close>

fun drain :: "nat \<Rightarrow> match_iterator \<Rightarrow> multi_queue \<Rightarrow> (announcement_entry \<times> bool) list" where
  "drain 0 it q = []"
| "drain (Suc n) it q = (case getNext it q of (it', Some c, p) \<Rightarrow> (c, p) # drain n it' q | _ \<Rightarrow> [])"

lemma drain_merge:
  assumes "queue_inv q"
  shows "it_rel q it rems \<Longrightarrow> length (concat rems) \<le> n \<Longrightarrow> drain n it q = merge (it_queues it) rems"
proof (induction n arbitrary: it rems)
  case 0
  then have "\<forall>r\<in>set rems. r = []" by simp
  then show ?case using 0 by (simp add: merge_None merge_pick_None it_rel_def)
next
  case (Suc n)
  have len: "length (it_queues it) = length rems" using Suc.prems by (simp add: it_rel_def)
  show ?case
  proof (cases "merge_pick (it_queues it) rems")
    case None
    then show ?thesis using getNext_None [OF Suc.prems(1)] by (simp add: merge_None)
  next
    case (Some cjp)
    obtain c j p where cjp: "cjp = (c, j, p)" by (cases cjp)
    obtain cs where cs: "j < length rems" "rems ! j = c # cs"
      using merge_pick_Some [OF len] Some cjp by blast
    obtain it' where it': "getNext it q = (it', Some c, p)" "it_queues it' = it_queues it"
        "it_rel q it' (rems[j := cs])"
      using getNext_Some [OF assms Suc.prems(1) _ cs] Some cjp by blast
    have "length (concat (rems[j := cs])) \<le> n"
      using Suc.prems(2) sum_length_update [OF cs] by (simp add: length_concat)
    from Suc.IH [OF it'(3) this] show ?thesis using it' merge_Some [OF Some [unfolded cjp] cs] by simp
  qed
qed

lemma matching_entries_set: "r \<in> set (matching_entries common ids q) \<Longrightarrow> \<exists>ki. r = entries_of q ki"
  by (auto simp: matching_entries_def)

lemma entry_priority:
  assumes "queue_inv q" "e \<in> set (entries_of q ki)"
  shows "isPriority ki = IsPriority (properties e)"
  using entries_of_facts(2) [OF assms]
  by (auto simp: queue_key_of_def isPriority_def Let_def split: if_splits)


text \<open>Two announcements of one common compartment; the second to arrive has priority.\<close>

definition example_announcement :: "nat \<Rightarrow> int \<Rightarrow> bool \<Rightarrow> bytes \<Rightarrow> announcement_entry" where
  "example_announcement r d prio c = \<lparr>ae_ref = r, ae_deadline = Some d, limitIP = ''192.0.2.1'',
     announcement = \<lparr>Properties = \<lparr>IsPriority = prio, ProtocolVersion = 2, CommonCompartmentIDs = [c],
         PersonalCompartmentIDs = [], GeoIPData = \<lparr>Country = ''CA'', ASN = ''1''\<rparr>, NetworkType = 0,
         NATType = NATTypePortMapping, PortMappingTypes = []\<rparr>,
       ProxyID = [of_nat r], SponsorID = ''S'', ConnectionID = [of_nat r]\<rparr>\<rparr>"

definition example_queue :: multi_queue where
  "example_queue = push_entry (PriorityCommon, [7]) (example_announcement 1 20 True [7])
    (push_entry (CommonQueue, [7]) (example_announcement 0 10 False [7]) newAnnouncementMultiQueue)"

lemma example_queue_inv: "queue_inv example_queue"
  unfolding example_queue_def
  by (intro push_entry_inv queue_inv_new)
    (simp_all add: example_announcement_def queue_key_of_def newAnnouncementMultiQueue_def)

lemma example_queue_queues:
  "compartmentQueues example_queue k i \<noteq> None \<longleftrightarrow> i = [7] \<and> k \<noteq> PersonalQueue"
  by (cases k) (auto simp: example_queue_def push_queues newAnnouncementMultiQueue_def)

lemma example_matching_entries:
  "matching_entries True [[7]] example_queue =
    [[example_announcement 1 20 True [7]], [example_announcement 0 10 False [7]]]"
proof -
  have "matching_keys True [[7]] example_queue = [(PriorityCommon, [7]), (CommonQueue, [7])]"
    by (simp add: matching_keys_eq stored_keys_def example_queue_queues del: not_None_eq)
  then show ?thesis
    by (simp add: matching_entries_def example_queue_def entries_of_def newAnnouncementMultiQueue_def push_queues)
qed


end
