(* ===== verification/LruCache.thy ===== *)
theory LruCache
  imports Prelude
begin

text \<open>
  The expiring cache of \<open>vendor/github.com/cognusion/go-cache-lru/cache.go\<close>, as the in-proxy
  broker uses it: items with an expiration and an access time in Unix nanoseconds, the clock
  being an argument. The periodic eviction of the least recently used items may delete any
  item, so it is the restriction of the items to a set of keys.
\<close>

section \<open>The cache\<close>

record 'v lru_item =
  Object :: 'v
  Expiration :: int
  Accessed :: int

record ('k, 'v) lru_cache =
  defaultExpiration :: int
  items :: "'k \<Rightarrow> 'v lru_item option"
  maxItems :: int

abbreviation (input) DefaultExpiration :: int where "DefaultExpiration \<equiv> 0"

definition NewWithLRU :: "int \<Rightarrow> int \<Rightarrow> ('k, 'v) lru_cache" where
  "NewWithLRU de mi = \<lparr>defaultExpiration = (if de = 0 then - 1 else de), items = Map.empty, maxItems = mi\<rparr>"

definition Expired :: "int \<Rightarrow> 'v lru_item \<Rightarrow> bool" where
  "Expired now item \<longleftrightarrow> (if Expiration item = 0 then False else now > Expiration item)"

text \<open>A duration that is not positive, after the default, stores an item that never expires.\<close>

definition cache_Set :: "int \<Rightarrow> 'k \<Rightarrow> 'v \<Rightarrow> int \<Rightarrow> ('k, 'v) lru_cache \<Rightarrow> ('k, 'v) lru_cache" where
  "cache_Set now k x d0 c =
    (let d = (if d0 = DefaultExpiration then defaultExpiration c else d0);
         e = (if d > 0 then now + d else 0)
     in c\<lparr>items := (items c)(k \<mapsto> \<lparr>Object = x, Expiration = e,
           Accessed = (if maxItems c > 0 then now else 0)\<rparr>)\<rparr>)"

definition cache_Get :: "int \<Rightarrow> 'k \<Rightarrow> ('k, 'v) lru_cache \<Rightarrow> 'v option \<times> ('k, 'v) lru_cache" where
  "cache_Get now k c =
    (case items c k of None \<Rightarrow> (None, c)
     | Some item \<Rightarrow>
        if Expiration item > 0 \<and> now > Expiration item then (None, c)
        else (Some (Object item),
              if maxItems c > 0 then c\<lparr>items := (items c)(k \<mapsto> item\<lparr>Accessed := now\<rparr>)\<rparr> else c))"

definition cache_Delete :: "'k \<Rightarrow> ('k, 'v) lru_cache \<Rightarrow> ('k, 'v) lru_cache" where
  "cache_Delete k c = c\<lparr>items := (items c)(k := None)\<rparr>"

definition DeleteExpired :: "int \<Rightarrow> ('k, 'v) lru_cache \<Rightarrow> ('k, 'v) lru_cache" where
  "DeleteExpired now c = c\<lparr>items := (\<lambda>k. case items c k of None \<Rightarrow> None
     | Some item \<Rightarrow> if Expiration item > 0 \<and> now > Expiration item then None else Some item)\<rparr>"

definition evict :: "'k set \<Rightarrow> ('k, 'v) lru_cache \<Rightarrow> ('k, 'v) lru_cache" where
  "evict ks c = c\<lparr>items := items c |` (- ks)\<rparr>"

definition ItemCount :: "('k, 'v) lru_cache \<Rightarrow> nat" where
  "ItemCount c = card (dom (items c))"

text \<open>The objects stored: what the cache may still deliver.\<close>

definition stored :: "('k, 'v) lru_cache \<Rightarrow> 'k \<Rightarrow> 'v option" where
  "stored c k = map_option Object (items c k)"

section \<open>Laws\<close>

text \<open>
  A cache promises no more than an association that may forget: what a lookup delivers was
  stored under that key by the latest write, a write or a deletion changes its own key only.
\<close>

locale forgetful_map =
  fixes content :: "'c \<Rightarrow> 'k \<Rightarrow> 'v option" and get :: "int \<Rightarrow> 'k \<Rightarrow> 'c \<Rightarrow> 'v option \<times> 'c"
    and put :: "int \<Rightarrow> 'k \<Rightarrow> 'v \<Rightarrow> int \<Rightarrow> 'c \<Rightarrow> 'c" and del :: "'k \<Rightarrow> 'c \<Rightarrow> 'c"
  assumes get_content: "get now k c = (r, c') \<Longrightarrow> content c' = content c"
    and get_sound: "get now k c = (Some v, c') \<Longrightarrow> content c k = Some v"
    and put_content: "content (put now k v d c) = (content c)(k \<mapsto> v)"
    and del_content: "content (del k c) = (content c)(k := None)"
begin

lemma get_del_None: "content c k = None \<Longrightarrow> fst (get now k c) = None"
  using get_sound [of now k c] by (cases "get now k c"; cases "fst (get now k c)") auto

lemma take_sound:
  assumes "get now k c = (Some v, c')"
  shows "content (del k c') = (content c)(k := None) \<and> content c k = Some v"
  using get_content [OF assms] get_sound [OF assms] del_content [of k c'] by simp

end

interpretation lru: forgetful_map stored cache_Get cache_Set cache_Delete
proof
  fix now k and c :: "('a, 'b) lru_cache" and r c'
  assume "cache_Get now k c = (r, c')"
  then show "stored c' = stored c"
    by (auto simp: cache_Get_def stored_def fun_eq_iff split: option.splits if_splits)
next
  fix now k v and c :: "('a, 'b) lru_cache" and c'
  assume "cache_Get now k c = (Some v, c')"
  then show "stored c k = Some v"
    by (auto simp: cache_Get_def stored_def split: option.splits if_splits)
next
  fix now :: int and k v and d :: int and c :: "('a, 'b) lru_cache"
  show "stored (cache_Set now k v d c) = (stored c)(k \<mapsto> v)"
    by (auto simp: cache_Set_def stored_def Let_def)
next
  fix k and c :: "('a, 'b) lru_cache"
  show "stored (cache_Delete k c) = (stored c)(k := None)"
    by (auto simp: cache_Delete_def stored_def)
qed

lemma stored_evict: "stored (evict ks c) k = (if k \<in> ks then None else stored c k)"
  by (simp add: evict_def stored_def)

lemma stored_DeleteExpired: "stored (DeleteExpired now c) k = Some v \<Longrightarrow> stored c k = Some v"
  by (auto simp: DeleteExpired_def stored_def split: option.splits if_splits)

lemma cache_Get_fresh:
  assumes "0 < d" "0 \<le> t"
  shows "fst (cache_Get t' k (cache_Set t k v d c)) = (if t' \<le> t + d then Some v else None)"
  using assms by (simp add: cache_Get_def cache_Set_def Let_def)

lemma cache_Get_negative_ttl:
  assumes "d < 0"
  shows "fst (cache_Get t' k (cache_Set t k v d c)) = Some v"
  using assms by (simp add: cache_Get_def cache_Set_def Let_def)

end
