(* ===== verification/Matcher.thy ===== *)
theory Matcher
  imports MatchIterator LruCache GoChan Lookups
begin

text \<open>
  The in-proxy matcher, \<open>psiphon/common/inproxy/matcher.go\<close>: limits on entering the queues,
  adding and removing announcements and offers, the search for the announcement that matches an
  offer, the matching pass over all offers, and the delivery of answers. The record \<open>matcher\<close> is
  the \<open>Matcher\<close> struct with the channels and the metrics of the entries it refers to; what the
  code reads from its surroundings (the clock, the contexts of the callers, the callbacks of the
  configuration) is the record \<open>env\<close>. The token bucket of a rate limiter is a parameter.
\<close>

section \<open>State\<close>

abbreviation (input) matcherAnnouncementQueueMaxSize :: int where "matcherAnnouncementQueueMaxSize \<equiv> 5000000"
abbreviation (input) matcherOfferQueueMaxSize :: int where "matcherOfferQueueMaxSize \<equiv> 5000000"
abbreviation (input) matcherPendingAnswersTTL :: int where "matcherPendingAnswersTTL \<equiv> 30000000000"
abbreviation (input) matcherPendingAnswersMaxSize :: int where "matcherPendingAnswersMaxSize \<equiv> 5000000"
abbreviation (input) matcherMaxPreferredNATProbe :: int where "matcherMaxPreferredNATProbe \<equiv> 10"
abbreviation (input) matcherMaxProbe :: int where "matcherMaxProbe \<equiv> 100"
abbreviation (input) matcherMaxRateLimitQuantity :: int where "matcherMaxRateLimitQuantity \<equiv> 10000"
abbreviation (input) matcherMaxRateLimitInterval :: int where "matcherMaxRateLimitInterval \<equiv> 60000000000"
abbreviation (input) matcherMaxLimitEntryCount :: int where "matcherMaxLimitEntryCount \<equiv> 10000"

text \<open>Of an offer, the fields that the matcher only carries along are left out.\<close>

record match_offer =
  of_Properties :: match_properties
  UseMediaStreams :: bool

record match_answer =
  an_ProxyID :: ID
  an_ConnectionID :: ID

record offer_entry =
  oe_ref :: nat
  oe_deadline :: "int option"
  oe_limitIP :: string
  offer :: match_offer

datatype answer_info = AnswerInfo match_announcement match_answer | OfferDropped

text \<open>An answer channel: a Go channel of capacity 1 that may be closed.\<close>

record answer_chan =
  ac_chan :: "answer_info chan"
  ac_closed :: bool

datatype chan_fault = WouldBlock | SendOnClosed | CloseOfClosed

record pending_answer =
  pa_announcement :: match_announcement
  pa_offer :: nat

record match_metrics =
  OfferDeadline :: int
  OfferMatchIndex :: int
  OfferQueueSize :: nat
  AnnouncementMatchIndex :: int
  AnnouncementQueueSize :: int
  PendingAnswersSize :: nat

record 'rl matcher =
  announcementQueue :: multi_queue
  announcementQueueEntryCountByIP :: "string \<Rightarrow> int option"
  announcementQueueRateLimiters :: "(string, 'rl) lru_cache"
  announcementLimitEntryCount :: int
  announcementRateLimitQuantity :: int
  announcementRateLimitInterval :: int
  announcementExemptProxyIDs :: "ID set"
  announcementExemptSponsorIDs :: string_lookup
  offerQueue :: "offer_entry list"
  offerQueueEntryCountByIP :: "string \<Rightarrow> int option"
  offerQueueRateLimiters :: "(string, 'rl) lru_cache"
  offerLimitEntryCount :: int
  offerRateLimitQuantity :: int
  offerRateLimitInterval :: int
  offerMinimumDeadline :: int
  offerQueueLen :: int
  matchSignal :: "unit chan"
  pendingAnswers :: "(bytes, pending_answer) lru_cache"
  offerRefs :: "nat set"
  offerChans :: "nat \<Rightarrow> match_offer chan"
  answerChans :: "nat \<Rightarrow> answer_chan"
  announcementMetrics :: "nat \<Rightarrow> match_metrics option"
  offerMetrics :: "nat \<Rightarrow> match_metrics option"

text \<open>The callbacks and readings; \<open>IsLoadLimiting\<close> is \<open>None\<close> when no callback is configured.\<close>

record env =
  now :: int
  announce_done :: "nat \<Rightarrow> bool"
  offer_done :: "nat \<Rightarrow> bool"
  AllowMatch :: "geoip_data \<Rightarrow> geoip_data \<Rightarrow> bool"
  AllowCommonASNMatching :: bool
  HasQuality :: "ID \<Rightarrow> string \<Rightarrow> string \<Rightarrow> bool"
  IsLoadLimiting :: "bool option"

section \<open>Limits\<close>

text \<open>\<open>cap_rate\<close> is the check of \<open>SetLimits\<close>: \<open>int64\<close> division before the products, so they do not overflow.\<close>

definition cap_rate :: "int \<Rightarrow> int \<Rightarrow> int \<times> int" where
  "cap_rate quantity interval =
    (if quantity > 0 \<and> interval > 0 \<and>
        (quantity > (2 ^ 63 - 1) div matcherMaxRateLimitInterval \<or>
         quantity * matcherMaxRateLimitInterval > matcherMaxRateLimitQuantity * interval)
     then (matcherMaxRateLimitQuantity, matcherMaxRateLimitInterval) else (quantity, interval))"

definition SetLimits :: "int \<Rightarrow> int \<Rightarrow> int \<Rightarrow> ID list \<Rightarrow> string list \<Rightarrow> int \<Rightarrow> int \<Rightarrow> int \<Rightarrow> int \<Rightarrow>
    'rl matcher \<Rightarrow> 'rl matcher" where
  "SetLimits annCount annQuantity annInterval exemptProxyIDs exemptSponsorIDs
      offCount offQuantity offInterval offMinimumDeadline m =
    (let (annQuantity', annInterval') = cap_rate annQuantity annInterval;
         (offQuantity', offInterval') = cap_rate offQuantity offInterval
     in m\<lparr>announcementLimitEntryCount := min annCount matcherMaxLimitEntryCount,
          announcementRateLimitQuantity := annQuantity',
          announcementRateLimitInterval := annInterval',
          announcementExemptProxyIDs := set exemptProxyIDs,
          announcementExemptSponsorIDs := NewStringLookup exemptSponsorIDs,
          offerLimitEntryCount := min offCount matcherMaxLimitEntryCount,
          offerRateLimitQuantity := offQuantity',
          offerRateLimitInterval := offInterval',
          offerMinimumDeadline := offMinimumDeadline\<rparr>)"

definition applyLoadLimit :: "env \<Rightarrow> bool \<Rightarrow> 'rl matcher \<Rightarrow> bool" where
  "applyLoadLimit env isAnnouncement m =
    (if IsLoadLimiting env \<noteq> Some True then True
     else let announcementLen = getLen (announcementQueue m); offerLen = offerQueueLen m
          in if isAnnouncement then announcementLen < offerLen div 2 else offerLen < announcementLen div 2)"

text \<open>
  \<open>brokerRateLimit\<close> of \<open>broker.go\<close>. \<open>rate.NewLimiter\<close> and \<open>Limiter.Allow\<close> are the parameters
  \<open>newLimiter\<close> and \<open>allow\<close>; a limiter is a pointer, so its new state is put into the cached item.
\<close>

definition brokerRateLimit :: "(int \<Rightarrow> int \<Rightarrow> 'rl) \<Rightarrow> ('rl \<Rightarrow> bool \<times> 'rl) \<Rightarrow> int \<Rightarrow>
    (string, 'rl) lru_cache \<Rightarrow> string \<Rightarrow> int \<Rightarrow> int \<Rightarrow> bool \<times> (string, 'rl) lru_cache" where
  "brokerRateLimit newLimiter allow t limiters ip quantity interval =
    (if quantity \<le> 0 \<or> interval \<le> 0 then (True, limiters)
     else let (entry, limiters1) = cache_Get t ip limiters;
              (limiter, limiters2) = (case entry of Some l \<Rightarrow> (l, limiters1)
                | None \<Rightarrow> (newLimiter quantity interval,
                    cache_Set t ip (newLimiter quantity interval) interval limiters1));
              (ok, limiter') = allow limiter
          in (ok, limiters2\<lparr>items := (items limiters2)(ip := map_option (\<lambda>i. i\<lparr>Object := limiter'\<rparr>) (items limiters2 ip))\<rparr>))"

definition applyIPLimits :: "(int \<Rightarrow> int \<Rightarrow> 'rl) \<Rightarrow> ('rl \<Rightarrow> bool \<times> 'rl) \<Rightarrow> int \<Rightarrow> bool \<Rightarrow> bool \<Rightarrow> string \<Rightarrow>
    'rl matcher \<Rightarrow> matcher_error option \<times> 'rl matcher" where
  "applyIPLimits newLimiter allow t isAnnouncement isExempt ip m =
    (let entryCountByIP = (if isAnnouncement then announcementQueueEntryCountByIP m else offerQueueEntryCountByIP m);
         limiters = (if isAnnouncement then announcementQueueRateLimiters m else offerQueueRateLimiters m);
         (limitEntryCount, quantity, interval) =
           (if isAnnouncement then
              (if isExempt then
                 (if announcementLimitEntryCount m = 0 then 0 else matcherMaxLimitEntryCount,
                  if announcementRateLimitQuantity m = 0 then 0 else matcherMaxRateLimitQuantity,
                  if announcementRateLimitInterval m = 0 then 0 else matcherMaxRateLimitInterval)
               else (announcementLimitEntryCount m, announcementRateLimitQuantity m, announcementRateLimitInterval m))
            else (offerLimitEntryCount m, offerRateLimitQuantity m, offerRateLimitInterval m));
         (ok, limiters') = brokerRateLimit newLimiter allow t limiters ip quantity interval;
         m' = (if isAnnouncement then m\<lparr>announcementQueueRateLimiters := limiters'\<rparr>
               else m\<lparr>offerQueueRateLimiters := limiters'\<rparr>)
     in if \<not> ok then (Some RateExceeded, m')
        else if limitEntryCount > 0 \<and> (case entryCountByIP ip of None \<Rightarrow> False | Some n \<Rightarrow> n \<ge> limitEntryCount)
        then (Some MaxEntriesForIP, m')
        else (None, m'))"

section \<open>Queues\<close>

definition count_add :: "string \<Rightarrow> (string \<Rightarrow> int option) \<Rightarrow> string \<Rightarrow> int option" where
  "count_add ip counts = counts(ip \<mapsto> (case counts ip of None \<Rightarrow> 0 | Some n \<Rightarrow> n) + 1)"

definition count_sub :: "string \<Rightarrow> (string \<Rightarrow> int option) \<Rightarrow> string \<Rightarrow> int option" where
  "count_sub ip counts =
    (let n = (case counts ip of None \<Rightarrow> 0 | Some n \<Rightarrow> n) - 1
     in if n = 0 then counts(ip := None) else counts(ip \<mapsto> n))"

definition signal_match :: "'rl matcher \<Rightarrow> 'rl matcher" where
  "signal_match m = m\<lparr>matchSignal := snd (try_send () (matchSignal m))\<rparr>"

definition addAnnouncementEntry :: "(int \<Rightarrow> int \<Rightarrow> 'rl) \<Rightarrow> ('rl \<Rightarrow> bool \<times> 'rl) \<Rightarrow> int \<Rightarrow>
    announcement_entry \<Rightarrow> 'rl matcher \<Rightarrow> matcher_error option \<times> announcement_entry \<times> 'rl matcher" where
  "addAnnouncementEntry newLimiter allow t e m =
    (if getLen (announcementQueue m) \<ge> matcherAnnouncementQueueMaxSize then (Some QueueFull, e, m)
     else let isExempt = (StringLookup_Contains (announcementExemptSponsorIDs m) (SponsorID (announcement e)) \<or>
                          ProxyID (announcement e) \<in> announcementExemptProxyIDs m);
              e' = (if isExempt then e\<lparr>limitIP := limitIP e @ ''-exempt''\<rparr> else e)
          in (case applyIPLimits newLimiter allow t True isExempt (limitIP e') m of
                (Some err, m') \<Rightarrow> (Some err, e', m')
              | (None, m') \<Rightarrow>
                 if mq_refs (announcementQueue m') (ae_ref e') \<noteq> None then (Some UnexpectedQueueReference, e', m')
                 else (case enqueue e' (announcementQueue m') of
                    Inl err \<Rightarrow> (Some err, e', m')
                  | Inr q \<Rightarrow> (None, e', signal_match (m'\<lparr>announcementQueue := q,
                      announcementQueueEntryCountByIP :=
                        count_add (limitIP e') (announcementQueueEntryCountByIP m')\<rparr>)))))"

definition addOfferEntry :: "(int \<Rightarrow> int \<Rightarrow> 'rl) \<Rightarrow> ('rl \<Rightarrow> bool \<times> 'rl) \<Rightarrow> int \<Rightarrow>
    offer_entry \<Rightarrow> 'rl matcher \<Rightarrow> matcher_error option \<times> 'rl matcher" where
  "addOfferEntry newLimiter allow t e m =
    (if int (length (offerQueue m)) \<ge> matcherOfferQueueMaxSize then (Some QueueFull, m)
     else (case applyIPLimits newLimiter allow t False False (oe_limitIP e) m of
         (Some err, m') \<Rightarrow> (Some err, m')
       | (None, m') \<Rightarrow>
          if oe_ref e \<in> offerRefs m' then (Some UnexpectedQueueReference, m')
          else (None, signal_match (m'\<lparr>offerQueue := offerQueue m' @ [e], offerQueueLen := offerQueueLen m' + 1,
             offerRefs := insert (oe_ref e) (offerRefs m'),
             offerQueueEntryCountByIP := count_add (oe_limitIP e) (offerQueueEntryCountByIP m')\<rparr>))))"

definition pendingAnswerKey :: "ID \<Rightarrow> ID \<Rightarrow> bytes" where
  "pendingAnswerKey proxyID connectionID = proxyID @ connectionID"

definition announcement_key :: "match_announcement \<Rightarrow> bytes" where
  "announcement_key a = pendingAnswerKey (ProxyID a) (ConnectionID a)"

text \<open>The part of \<open>removeAnnouncementEntry\<close> for a caller that has locked the queue.\<close>

definition dequeue_announcement :: "announcement_entry \<Rightarrow> 'rl matcher \<Rightarrow> bool \<times> 'rl matcher" where
  "dequeue_announcement e m =
    (let (found, q) = dequeue e (announcementQueue m);
         m' = m\<lparr>announcementQueue := q\<rparr>
     in (found, if found then m'\<lparr>announcementQueueEntryCountByIP :=
                  count_sub (limitIP e) (announcementQueueEntryCountByIP m)\<rparr> else m'))"

definition close_answer :: "nat \<Rightarrow> 'rl matcher \<Rightarrow> chan_fault + 'rl matcher" where
  "close_answer r m = (if ac_closed (answerChans m r) then Inl CloseOfClosed
     else Inr (m\<lparr>answerChans := (answerChans m)(r := (answerChans m r)\<lparr>ac_closed := True\<rparr>)\<rparr>))"

definition send_answer :: "answer_info \<Rightarrow> nat \<Rightarrow> 'rl matcher \<Rightarrow> chan_fault + 'rl matcher" where
  "send_answer v r m = (if ac_closed (answerChans m r) then Inl SendOnClosed
     else (case send v (ac_chan (answerChans m r)) of None \<Rightarrow> Inl WouldBlock
       | Some c \<Rightarrow> Inr (m\<lparr>answerChans := (answerChans m)(r := (answerChans m r)\<lparr>ac_chan := c\<rparr>)\<rparr>)))"

definition removeAnnouncementEntry :: "int \<Rightarrow> bool \<Rightarrow> announcement_entry \<Rightarrow> 'rl matcher \<Rightarrow> chan_fault + 'rl matcher" where
  "removeAnnouncementEntry t aborting e m =
    (let (found, m1) = dequeue_announcement e m
     in if aborting \<and> \<not> found then
          (let key = announcement_key (announcement e);
               (pending, cache) = cache_Get t key (pendingAnswers m1);
               m2 = m1\<lparr>pendingAnswers := cache\<rparr>
           in (case pending of None \<Rightarrow> Inr m2
               | Some pa \<Rightarrow> ebind (close_answer (pa_offer pa) m2)
                   (\<lambda>m3. Inr (m3\<lparr>pendingAnswers := cache_Delete key (pendingAnswers m3)\<rparr>))))
        else Inr m1)"

definition removeOfferEntry :: "offer_entry \<Rightarrow> 'rl matcher \<Rightarrow> 'rl matcher" where
  "removeOfferEntry e m =
    (if oe_ref e \<notin> offerRefs m then m
     else m\<lparr>offerQueue := filter (\<lambda>x. oe_ref x \<noteq> oe_ref e) (offerQueue m), offerQueueLen := offerQueueLen m - 1,
            offerRefs := offerRefs m - {oe_ref e},
            offerQueueEntryCountByIP := count_sub (oe_limitIP e) (offerQueueEntryCountByIP m)\<rparr>)"

section \<open>Matching an offer\<close>

abbreviation (input) ProtocolVersion1 :: int32 where "ProtocolVersion1 \<equiv> 1"

definition negotiateProtocolVersion :: "int32 \<Rightarrow> int32 \<Rightarrow> bool \<Rightarrow> int32 \<times> bool" where
  "negotiateProtocolVersion proxyProtocolVersion clientProtocolVersion useMediaStreams =
    (if (proxyProtocolVersion = ProtocolVersion1 \<or> clientProtocolVersion = ProtocolVersion1) \<and> \<not> useMediaStreams
     then (ProtocolVersion1, True)
     else if clientProtocolVersion \<le>s proxyProtocolVersion then (clientProtocolVersion, True)
     else (0, False))"

text \<open>The constraints on a candidate: the protocol version, and for common compartments the GeoIP rules.\<close>

definition compatible_candidate :: "env \<Rightarrow> match_offer \<Rightarrow> bool \<Rightarrow> announcement_entry \<Rightarrow> bool" where
  "compatible_candidate env off isCommonCompartments e =
    (let a = properties e; p = of_Properties off
     in snd (negotiateProtocolVersion (ProtocolVersion a) (ProtocolVersion p) (UseMediaStreams off)) \<and>
        (isCommonCompartments \<longrightarrow>
          \<not> (\<not> AllowCommonASNMatching env \<and> Country (GeoIPData p) = Country (GeoIPData a) \<and>
             ASN (GeoIPData p) = ASN (GeoIPData a)) \<and>
          AllowMatch env (GeoIPData a) (GeoIPData p)))"

definition preferred_candidate :: "env \<Rightarrow> match_offer \<Rightarrow> bool \<Rightarrow> announcement_entry \<Rightarrow> bool" where
  "preferred_candidate env off prio e =
    (let matchNAT = IsPreferredNATMatch (of_Properties off) (properties e)
     in if \<not> matchNAT \<and> prio then HasQuality env (ProxyID (announcement e))
          (ASN (GeoIPData (properties e))) (ASN (GeoIPData (of_Properties off)))
        else matchNAT)"

record best_match =
  bestMatch :: "announcement_entry option"
  bestMatchIndex :: int
  bestMatchIsPriority :: bool
  bestMatchNAT :: bool

definition no_match :: best_match where
  "no_match = \<lparr>bestMatch = None, bestMatchIndex = - 1, bestMatchIsPriority = False, bestMatchNAT = False\<rparr>"

text \<open>The comparison of a compatible candidate with the best match so far, and the test that ends the search.\<close>

definition update_best :: "announcement_entry \<Rightarrow> int \<Rightarrow> bool \<Rightarrow> bool \<Rightarrow> best_match \<Rightarrow> best_match" where
  "update_best e candidateIndex prio matchNAT b =
    (if bestMatch b = None \<or> (\<not> bestMatchNAT b \<and> matchNAT)
     then \<lparr>bestMatch = Some e, bestMatchIndex = candidateIndex, bestMatchIsPriority = prio, bestMatchNAT = matchNAT\<rparr>
     else b)"

definition stop_search :: "bool \<Rightarrow> int \<Rightarrow> best_match \<Rightarrow> bool" where
  "stop_search existsPreferred candidateIndex b \<longleftrightarrow> bestMatch b \<noteq> None \<and>
     (bestMatchNAT b \<or> \<not> existsPreferred \<or> candidateIndex - bestMatchIndex b \<ge> matcherMaxPreferredNATProbe)"

function match_loop :: "env \<Rightarrow> match_offer \<Rightarrow> bool \<Rightarrow> bool \<Rightarrow> int \<Rightarrow> best_match \<Rightarrow> match_iterator \<Rightarrow>
    'rl matcher \<Rightarrow> best_match \<times> 'rl matcher" where
  "match_loop env off common existsPreferred candidateIndex best it m =
    (if candidateIndex \<le> matcherMaxProbe then
       (case getNext it (announcementQueue m) of
          (it', None, _) \<Rightarrow> (best, m)
        | (it', Some e, prio) \<Rightarrow>
           if \<not> prio \<and> bestMatchIsPriority best then (best, m)
           else if announce_done env (ae_ref e) then
             match_loop env off common existsPreferred (candidateIndex + 1) best it' (snd (dequeue_announcement e m))
           else if \<not> compatible_candidate env off common e then
             match_loop env off common existsPreferred (candidateIndex + 1) best it' m
           else let best' = update_best e (candidateIndex + 1) prio (preferred_candidate env off prio e) best
                in if stop_search existsPreferred (candidateIndex + 1) best' then (best', m)
                   else match_loop env off common existsPreferred (candidateIndex + 1) best' it' m)
     else (best, m))"
  by auto
termination
  by (relation "measure (\<lambda>(env, off, common, existsPreferred, i, best, it, m). nat (matcherMaxProbe + 1 - i))") simp_all

declare match_loop.simps [simp del]

definition offer_compartments :: "match_offer \<Rightarrow> bool \<times> ID list" where
  "offer_compartments off =
    (let p = of_Properties off
     in if length (PersonalCompartmentIDs p) = 0 then (True, CommonCompartmentIDs p)
        else (False, PersonalCompartmentIDs p))"

definition exists_preferred :: "match_offer \<Rightarrow> match_iterator \<Rightarrow> multi_queue \<Rightarrow> bool" where
  "exists_preferred off it q =
    (let (u, p, s) = getNATCounts it q
     in ExistsPreferredNATMatch (of_Properties off) (u > 0) (p > 0) (s > 0))"

definition matchOffer :: "env \<Rightarrow> match_offer \<Rightarrow> 'rl matcher \<Rightarrow> best_match \<times> 'rl matcher" where
  "matchOffer env off m =
    (let (common, ids) = offer_compartments off
     in if length ids = 0 then (no_match, m)
        else let it = startMatching common ids (announcementQueue m)
             in match_loop env off common (exists_preferred off it (announcementQueue m)) (- 1) no_match it m)"

section \<open>The matching pass\<close>

text \<open>The metrics of a match leave out its duration.\<close>

definition offer_metrics :: "env \<Rightarrow> offer_entry \<Rightarrow> int \<Rightarrow> best_match \<Rightarrow> 'rl matcher \<Rightarrow> match_metrics" where
  "offer_metrics env e offerIndex b m =
    \<lparr>OfferDeadline = (case oe_deadline e of None \<Rightarrow> 0 | Some d \<Rightarrow> d) - now env, OfferMatchIndex = offerIndex,
     OfferQueueSize = length (offerQueue m), AnnouncementMatchIndex = bestMatchIndex b,
     AnnouncementQueueSize = getLen (announcementQueue m), PendingAnswersSize = ItemCount (pendingAnswers m)\<rparr>"

definition send_offer :: "match_offer \<Rightarrow> nat \<Rightarrow> 'rl matcher \<Rightarrow> chan_fault + 'rl matcher" where
  "send_offer off r m = (case send off (offerChans m r) of None \<Rightarrow> Inl WouldBlock
     | Some c \<Rightarrow> Inr (m\<lparr>offerChans := (offerChans m)(r := c)\<rparr>))"

text \<open>What \<open>matchAllOffers\<close> does with a match: metrics, dequeue, pending answer, send, remove.\<close>

definition commit_match :: "env \<Rightarrow> offer_entry \<Rightarrow> int \<Rightarrow> best_match \<Rightarrow> announcement_entry \<Rightarrow> 'rl matcher \<Rightarrow>
    chan_fault + 'rl matcher" where
  "commit_match env e offerIndex b a m =
    (let metrics = offer_metrics env e offerIndex b m;
         m1 = m\<lparr>offerMetrics := (offerMetrics m)(oe_ref e \<mapsto> metrics),
                announcementMetrics := (announcementMetrics m)(ae_ref a \<mapsto> metrics)\<rparr>;
         m2 = snd (dequeue_announcement a m1);
         expiry = (case oe_deadline e of None \<Rightarrow> DefaultExpiration | Some d \<Rightarrow> d - now env);
         m3 = m2\<lparr>pendingAnswers := cache_Set (now env) (announcement_key (announcement a))
                \<lparr>pa_announcement = announcement a, pa_offer = oe_ref e\<rparr> expiry (pendingAnswers m2)\<rparr>
     in ebind (send_offer (offer e) (ae_ref a) m3) (\<lambda>m4. Inr (removeOfferEntry e m4)))"

text \<open>
  One iteration of the loop of \<open>matchAllOffers\<close>. Go's zero time is taken as the instant 0 for an
  offer without a deadline.
\<close>

definition match_one :: "env \<Rightarrow> offer_entry \<Rightarrow> int \<Rightarrow> 'rl matcher \<Rightarrow> chan_fault + 'rl matcher" where
  "match_one env e offerIndex m =
    (if offer_done env (oe_ref e) then Inr (removeOfferEntry e m)
     else let untilOfferDeadline = (case oe_deadline e of None \<Rightarrow> 0 | Some d \<Rightarrow> d) - now env
          in if offerMinimumDeadline m > 0 \<and> untilOfferDeadline < offerMinimumDeadline m
             then send_answer OfferDropped (oe_ref e) (removeOfferEntry e m)
             else (case matchOffer env (offer e) m of (b, m') \<Rightarrow>
                (case bestMatch b of None \<Rightarrow> Inr m'
                 | Some a \<Rightarrow> commit_match env e offerIndex b a m')))"

fun match_offers :: "(int \<Rightarrow> env) \<Rightarrow> int \<Rightarrow> offer_entry list \<Rightarrow> 'rl matcher \<Rightarrow> chan_fault + 'rl matcher" where
  "match_offers envs offerIndex [] m = Inr m"
| "match_offers envs offerIndex (e # es) m =
    (if getLen (announcementQueue m) > 0 then
       ebind (match_one (envs (offerIndex + 1)) e (offerIndex + 1) m)
         (\<lambda>m'. match_offers envs (offerIndex + 1) es m')
     else Inr m)"

text \<open>A whole pass; \<open>envs\<close> gives the readings of each iteration.\<close>

definition matchAllOffers :: "(int \<Rightarrow> env) \<Rightarrow> 'rl matcher \<Rightarrow> chan_fault + 'rl matcher" where
  "matchAllOffers envs m = match_offers envs (- 1) (offerQueue m) m"

section \<open>Announce, Offer and Answer\<close>

text \<open>
  The calls up to the point where they wait, and what they do when they resume. \<open>Answer\<close> and
  \<open>AnswerError\<close> look up and delete the pending answer, which are separate operations of the cache,
  before they use its channel.
\<close>

definition announce_check :: "match_announcement \<Rightarrow> matcher_error option" where
  "announce_check a =
    (let p = Properties a
     in if length (CommonCompartmentIDs p) \<noteq> 0 \<and> length (PersonalCompartmentIDs p) > 0
        then Some MultipleCompartmentTypes
        else let ids = (if length (CommonCompartmentIDs p) = 0 then PersonalCompartmentIDs p else CommonCompartmentIDs p)
             in if length ids \<noteq> 1 then Some CompartmentCount else None)"

definition offer_check :: "match_offer \<Rightarrow> matcher_error option" where
  "offer_check off =
    (let p = of_Properties off
     in if length (CommonCompartmentIDs p) \<noteq> 0 \<and> length (PersonalCompartmentIDs p) > 0
        then Some MultipleCompartmentTypes
        else let ids = (if length (CommonCompartmentIDs p) = 0 then PersonalCompartmentIDs p else CommonCompartmentIDs p)
             in if length ids < 1 then Some MissingCompartments else None)"

definition Announce :: "(int \<Rightarrow> int \<Rightarrow> 'rl) \<Rightarrow> ('rl \<Rightarrow> bool \<times> 'rl) \<Rightarrow> env \<Rightarrow> announcement_entry \<Rightarrow> 'rl matcher \<Rightarrow>
    matcher_error option \<times> announcement_entry \<times> 'rl matcher" where
  "Announce newLimiter allow env e m =
    (case announce_check (announcement e) of Some err \<Rightarrow> (Some err, e, m)
     | None \<Rightarrow> if \<not> applyLoadLimit env True m then (Some LoadLimited, e, m)
        else addAnnouncementEntry newLimiter allow (now env) e
           (m\<lparr>offerChans := (offerChans m)(ae_ref e := make_chan 1)\<rparr>))"

definition Offer :: "(int \<Rightarrow> int \<Rightarrow> 'rl) \<Rightarrow> ('rl \<Rightarrow> bool \<times> 'rl) \<Rightarrow> env \<Rightarrow> offer_entry \<Rightarrow> 'rl matcher \<Rightarrow>
    matcher_error option \<times> 'rl matcher" where
  "Offer newLimiter allow env e m =
    (case offer_check (offer e) of Some err \<Rightarrow> (Some err, m)
     | None \<Rightarrow> if \<not> applyLoadLimit env False m then (Some LoadLimited, m)
        else addOfferEntry newLimiter allow (now env) e
           (m\<lparr>answerChans := (answerChans m)(oe_ref e := \<lparr>ac_chan = make_chan 1, ac_closed = False\<rparr>)\<rparr>))"

datatype offer_result = Answered match_answer match_announcement | NoAnswer | Dropped | UnexpectedConnectionID | StillWaiting

text \<open>What a waiting \<open>Offer\<close> returns from the state of its channel: a closed channel delivers nil.\<close>

definition await_answer :: "nat \<Rightarrow> 'rl matcher \<Rightarrow> offer_result" where
  "await_answer r m =
    (case chan_queue (ac_chan (answerChans m r)) of
       [] \<Rightarrow> if ac_closed (answerChans m r) then NoAnswer else StillWaiting
     | OfferDropped # _ \<Rightarrow> Dropped
     | AnswerInfo a ans # _ \<Rightarrow>
         if an_ConnectionID ans \<noteq> ConnectionID a then UnexpectedConnectionID else Answered ans a)"

definition pending_lookup :: "int \<Rightarrow> ID \<Rightarrow> ID \<Rightarrow> 'rl matcher \<Rightarrow> pending_answer option \<times> 'rl matcher" where
  "pending_lookup t proxyID connectionID m =
    (let (pending, cache) = cache_Get t (pendingAnswerKey proxyID connectionID) (pendingAnswers m)
     in (pending, m\<lparr>pendingAnswers := cache\<rparr>))"

definition AnnouncementHasPersonalCompartmentIDs :: "int \<Rightarrow> ID \<Rightarrow> ID \<Rightarrow> 'rl matcher \<Rightarrow>
    (matcher_error + bool) \<times> 'rl matcher" where
  "AnnouncementHasPersonalCompartmentIDs t proxyID connectionID m =
    (case pending_lookup t proxyID connectionID m of
       (None, m') \<Rightarrow> (Inl NoPendingAnswer, m')
     | (Some pa, m') \<Rightarrow> (Inr (length (PersonalCompartmentIDs (Properties (pa_announcement pa))) > 0), m'))"

definition pending_delete :: "ID \<Rightarrow> ID \<Rightarrow> 'rl matcher \<Rightarrow> 'rl matcher" where
  "pending_delete proxyID connectionID m =
    m\<lparr>pendingAnswers := cache_Delete (pendingAnswerKey proxyID connectionID) (pendingAnswers m)\<rparr>"

definition answer_deliver :: "match_answer \<Rightarrow> pending_answer \<Rightarrow> 'rl matcher \<Rightarrow> chan_fault + 'rl matcher" where
  "answer_deliver ans pa m = send_answer (AnswerInfo (pa_announcement pa) ans) (pa_offer pa) m"

definition Answer :: "int \<Rightarrow> match_answer \<Rightarrow> 'rl matcher \<Rightarrow> chan_fault + (matcher_error option \<times> 'rl matcher)" where
  "Answer t ans m =
    (case pending_lookup t (an_ProxyID ans) (an_ConnectionID ans) m of
       (None, m') \<Rightarrow> Inr (Some NoPendingAnswer, m')
     | (Some pa, m') \<Rightarrow> ebind (answer_deliver ans pa (pending_delete (an_ProxyID ans) (an_ConnectionID ans) m'))
         (\<lambda>m''. Inr (None, m'')))"

definition AnswerError :: "int \<Rightarrow> ID \<Rightarrow> ID \<Rightarrow> 'rl matcher \<Rightarrow> chan_fault + 'rl matcher" where
  "AnswerError t proxyID connectionID m =
    (case pending_lookup t proxyID connectionID m of
       (None, m') \<Rightarrow> Inr m'
     | (Some pa, m') \<Rightarrow> close_answer (pa_offer pa) (pending_delete proxyID connectionID m'))"

definition NewMatcher :: "int \<Rightarrow> int \<Rightarrow> int \<Rightarrow> ID list \<Rightarrow> string list \<Rightarrow> int \<Rightarrow> int \<Rightarrow> int \<Rightarrow> int \<Rightarrow> 'rl matcher" where
  "NewMatcher annCount annQuantity annInterval exemptProxyIDs exemptSponsorIDs offCount offQuantity offInterval minimum =
    SetLimits annCount annQuantity annInterval exemptProxyIDs exemptSponsorIDs offCount offQuantity offInterval minimum
     \<lparr>announcementQueue = newAnnouncementMultiQueue, announcementQueueEntryCountByIP = Map.empty,
      announcementQueueRateLimiters = NewWithLRU 0 1000000,
      announcementLimitEntryCount = 0, announcementRateLimitQuantity = 0, announcementRateLimitInterval = 0,
      announcementExemptProxyIDs = {}, announcementExemptSponsorIDs = NewStringLookup [],
      offerQueue = [], offerQueueEntryCountByIP = Map.empty,
      offerQueueRateLimiters = NewWithLRU 0 1000000,
      offerLimitEntryCount = 0, offerRateLimitQuantity = 0, offerRateLimitInterval = 0,
      offerMinimumDeadline = 0, offerQueueLen = 0, matchSignal = make_chan 1,
      pendingAnswers = NewWithLRU matcherPendingAnswersTTL matcherPendingAnswersMaxSize,
      offerRefs = {}, offerChans = (\<lambda>r. make_chan 1),
      answerChans = (\<lambda>r. \<lparr>ac_chan = make_chan 1, ac_closed = False\<rparr>),
      announcementMetrics = Map.empty, offerMetrics = Map.empty\<rparr>"

end
