(* ===== verification/MatchSearch.thy ===== *)
theory MatchSearch
  imports Matcher
begin

text \<open>
  The search of \<open>matchOffer\<close>: what it may change and select in general, and, for an offer whose
  compartment IDs are distinct, its equivalence with a scan of the merged candidate list, from
  which the guarantees on the selected announcement follow.
\<close>

section \<open>Removing announcements\<close>

lemma dequeue_announcement_queue [simp]:
  "announcementQueue (snd (dequeue_announcement e m)) = snd (dequeue e (announcementQueue m))"
  by (simp add: dequeue_announcement_def Let_def split: prod.split)

lemma dequeue_announcement_absent:
  "mq_refs (announcementQueue m) (ae_ref e) = None \<Longrightarrow> dequeue_announcement e m = (False, m)"
  by (simp add: dequeue_announcement_def dequeue_absent)

lemma dequeue_announcement_present:
  assumes "queue_inv (announcementQueue m)" "e \<in> queued (announcementQueue m)"
  shows "snd (dequeue_announcement e m) = m\<lparr>announcementQueue := snd (dequeue e (announcementQueue m)),
    announcementQueueEntryCountByIP := count_sub (limitIP e) (announcementQueueEntryCountByIP m)\<rparr>"
  using dequeue_present(1) [OF assms]
  by (cases "dequeue e (announcementQueue m)") (simp add: dequeue_announcement_def)

lemma queue_inv_dequeue:
  assumes "queue_inv q" "e \<in> queued q \<or> mq_refs q (ae_ref e) = None"
  shows "queue_inv (snd (dequeue e q)) \<and> queued (snd (dequeue e q)) = queued q - {e}"
  using assms(2)
proof
  assume "e \<in> queued q"
  then show ?thesis using dequeue_present(4) [OF assms(1)] queued_dequeue [OF assms(1)] by simp
next
  assume n: "mq_refs q (ae_ref e) = None"
  then have "e \<notin> queued q" using refs_None_not_queued [OF assms(1)] by simp
  then show ?thesis using dequeue_absent [OF n] assms(1) by simp
qed

section \<open>What the search may do\<close>

text \<open>
  \<open>Q\<close> is the set of the announcements queued when the search starts. The iterator only yields
  members of \<open>Q\<close>, even when a compartment ID is repeated in the offer.
\<close>

definition it_within :: "announcement_entry set \<Rightarrow> match_iterator \<Rightarrow> bool" where
  "it_within Q it \<longleftrightarrow> (\<forall>x. Some x \<in> set (nextEntries it) \<longrightarrow> x \<in> Q)"

lemma list_Next_in: "list_Next r xs = Some y \<Longrightarrow> y \<in> set xs"
  by (induction xs) (auto simp: list_Front_def split: if_splits list.splits)

lemma next_entry_queued: "next_entry e q = Some y \<Longrightarrow> y \<in> queued q"
proof -
  assume n: "next_entry e q = Some y"
  obtain k i where ki: "mq_refs q (ae_ref e) = Some (k, i)"
    using n by (cases "mq_refs q (ae_ref e)") (auto simp: next_entry_def)
  obtain cq where cq: "compartmentQueues q k i = Some cq"
    using n ki by (cases "compartmentQueues q k i") (auto simp: next_entry_def)
  then have "y \<in> set (entries_of q (k, i))"
    using n ki list_Next_in by (simp add: next_entry_def entries_of_def)
  then show ?thesis by (rule queuedI)
qed

lemma startMatching_within: "queued q \<subseteq> Q \<Longrightarrow> it_within Q (startMatching common ids q)"
proof (unfold it_within_def, intro allI impI)
  fix x assume sub: "queued q \<subseteq> Q" and "Some x \<in> set (nextEntries (startMatching common ids q))"
  then obtain ki where "list_Front (entries_of q ki) = Some x" by (auto simp: startMatching_def Let_def)
  then have "x \<in> set (entries_of q ki)" by (auto simp: list_Front_Some)
  then show "x \<in> Q" using queuedI sub by blast
qed

lemma select_next_in: "select_next ks es i sel = Some (c, j, p) \<Longrightarrow> sel = Some (c, j, p) \<or> Some c \<in> set es"
  by (induction ks es i sel rule: select_next.induct) (auto split: if_splits)

lemma getNext_within:
  assumes "getNext it q = (it', c, p)" "it_within Q it" "queued q \<subseteq> Q"
  shows "it_within Q it'" "c = Some e \<Longrightarrow> e \<in> Q"
proof -
  have "it_within Q it' \<and> (\<forall>e. c = Some e \<longrightarrow> e \<in> Q)"
  proof (cases "select_next (it_queues it) (nextEntries it) 0 None")
    case None
    then show ?thesis using assms by (simp add: getNext_def)
  next
    case (Some cjp)
    obtain x j b where x: "cjp = (x, j, b)" by (cases cjp)
    have "x \<in> Q" using select_next_in [OF Some [unfolded x]] assms(2) by (simp add: it_within_def)
    moreover have it': "it' = it\<lparr>nextEntries := (nextEntries it)[j := next_entry x q]\<rparr>" "c = Some x"
      using assms(1) Some x by (auto simp: getNext_def)
    moreover have "it_within Q it'"
      unfolding it_within_def
    proof (intro allI impI)
      fix y assume "Some y \<in> set (nextEntries it')"
      then have "Some y = next_entry x q \<or> Some y \<in> set (nextEntries it)"
        using it'(1) set_update_subset_insert by fastforce
      then show "y \<in> Q" using next_entry_queued [of x q y] assms(2,3) by (auto simp: it_within_def)
    qed
    ultimately show ?thesis by simp
  qed
  then show "it_within Q it'" "c = Some e \<Longrightarrow> e \<in> Q" by simp_all
qed

text \<open>An invariant of removals is an invariant of the search.\<close>

lemma match_loop_general:
  fixes P :: "'rl matcher \<Rightarrow> bool"
  assumes removal: "\<And>m e. P m \<Longrightarrow> e \<in> Q \<Longrightarrow> announce_done env (ae_ref e) \<Longrightarrow> P (snd (dequeue_announcement e m))"
    and sub: "\<And>m. P m \<Longrightarrow> queued (announcementQueue m) \<subseteq> Q"
  shows "P m \<Longrightarrow> it_within Q it \<Longrightarrow>
    P (snd (match_loop env off common ex i best it m)) \<and>
    (bestMatch (fst (match_loop env off common ex i best it m)) = bestMatch best \<or>
     (\<exists>a\<in>Q. bestMatch (fst (match_loop env off common ex i best it m)) = Some a \<and>
        \<not> announce_done env (ae_ref a) \<and> compatible_candidate env off common a))"
  using removal
proof (induction env off common ex i best it m rule: match_loop.induct)
  case (1 env0 off common ex i best it m)
  note P = 1(4) and it = 1(5) and rem = 1(6)
  show ?case
  proof (cases "i \<le> 100")
    case False
    then show ?thesis using 1 by (simp add: match_loop.simps [of env0 off common ex i best it m])
  next
    case i: True
    obtain it' c p where nx: "getNext it (announcementQueue m) = (it', c, p)"
      by (cases "getNext it (announcementQueue m)") auto
    note w = getNext_within [OF nx it sub [OF P]]
    note unf = match_loop.simps [of env0 off common ex i best it m]
    show ?thesis
    proof (cases c)
      case None
      then show ?thesis using 1 i nx by (simp add: unf)
    next
      case (Some e)
      have e: "e \<in> Q" using w(2) Some by simp
      consider (prio) "\<not> p \<and> bestMatchIsPriority best"
        | (expired) "\<not> (\<not> p \<and> bestMatchIsPriority best)" "announce_done env0 (ae_ref e)"
        | (incompatible) "\<not> (\<not> p \<and> bestMatchIsPriority best)" "\<not> announce_done env0 (ae_ref e)"
            "\<not> compatible_candidate env0 off common e"
        | (candidate) "\<not> (\<not> p \<and> bestMatchIsPriority best)" "\<not> announce_done env0 (ae_ref e)"
            "compatible_candidate env0 off common e" by blast
      then show ?thesis
      proof cases
        case prio
        then show ?thesis using 1 i nx Some by (simp add: unf)
      next
        case expired
        note 1(1) [OF i nx [symmetric] refl Some expired rem [OF P e expired(2)] w(1) rem]
        moreover have "match_loop env0 off common ex i best it m =
            match_loop env0 off common ex (i + 1) best it' (snd (dequeue_announcement e m))"
          using i nx Some expired by (auto simp: unf)
        ultimately show ?thesis by simp
      next
        case incompatible
        note 1(2) [OF i nx [symmetric] refl Some incompatible P w(1) rem]
        moreover have "match_loop env0 off common ex i best it m = match_loop env0 off common ex (i + 1) best it' m"
          using i nx Some incompatible by (auto simp: unf)
        ultimately show ?thesis by simp
      next
        case candidate
        define b where "b = update_best e (i + 1) p (preferred_candidate env0 off p e) best"
        have b: "bestMatch b = bestMatch best \<or> bestMatch b = Some e" by (simp add: b_def update_best_def)
        show ?thesis
        proof (cases "stop_search ex (i + 1) b")
          case True
          then have "match_loop env0 off common ex i best it m = (b, m)"
            using i nx Some candidate by (auto simp: unf b_def [symmetric] Let_def)
          then show ?thesis using P e b candidate by auto
        next
          case False
          have nc: "\<not> \<not> compatible_candidate env0 off common e" using candidate(3) by simp
          note 1(3) [OF i nx [symmetric] refl Some candidate(1,2) nc b_def False P w(1) rem]
          moreover have "match_loop env0 off common ex i best it m = match_loop env0 off common ex (i + 1) b it' m"
            using i nx Some candidate False by (auto simp: unf b_def [symmetric] Let_def)
          ultimately show ?thesis using e b candidate by auto
        qed
      qed
    qed
  qed
qed

section \<open>The search as a scan of the candidates\<close>

text \<open>The scan returns the best match and the expired announcements on the way.\<close>

fun scan :: "env \<Rightarrow> match_offer \<Rightarrow> bool \<Rightarrow> bool \<Rightarrow> int \<Rightarrow> best_match \<Rightarrow> (announcement_entry \<times> bool) list \<Rightarrow>
    best_match \<times> announcement_entry list" where
  "scan env off common ex i best [] = (best, [])"
| "scan env off common ex i best ((e, p) # cs) =
    (if \<not> i \<le> matcherMaxProbe \<or> \<not> p \<and> bestMatchIsPriority best then (best, [])
     else if announce_done env (ae_ref e)
     then (case scan env off common ex (i + 1) best cs of (b, es) \<Rightarrow> (b, e # es))
     else if \<not> compatible_candidate env off common e then scan env off common ex (i + 1) best cs
     else let best' = update_best e (i + 1) p (preferred_candidate env off p e) best
          in if stop_search ex (i + 1) best' then (best', []) else scan env off common ex (i + 1) best' cs)"

definition remove_all :: "announcement_entry list \<Rightarrow> 'rl matcher \<Rightarrow> 'rl matcher" where
  "remove_all es m = fold (\<lambda>e m. snd (dequeue_announcement e m)) es m"

lemma remove_all_simps [simp]:
  "remove_all [] m = m" "remove_all (e # es) m = remove_all es (snd (dequeue_announcement e m))"
  by (simp_all add: remove_all_def)

lemma match_loop_scan:
  "queue_inv (announcementQueue m) \<Longrightarrow> it_rel (announcementQueue m) it rems \<Longrightarrow>
    match_loop env off common ex i best it m =
      (case scan env off common ex i best (merge (it_queues it) rems) of (b, es) \<Rightarrow> (b, remove_all es m))"
proof (induction env off common ex i best it m arbitrary: rems rule: match_loop.induct)
  case (1 env off common ex i best it m)
  note inv = 1(4) and rel = 1(5)
  note unf = match_loop.simps [of env off common ex i best it m]
  have len: "length (it_queues it) = length rems" using rel by (simp add: it_rel_def)
  show ?case
  proof (cases "merge_pick (it_queues it) rems")
    case None
    then show ?thesis using getNext_None [OF rel] by (simp add: unf merge_None)
  next
    case (Some cjp)
    obtain e j p where cjp: "cjp = (e, j, p)" by (cases cjp)
    note pick = Some [unfolded cjp]
    obtain cs where cs: "j < length rems" "rems ! j = e # cs" using merge_pick_Some [OF len pick] by blast
    obtain it' where nx: "getNext it (announcementQueue m) = (it', Some e, p)" "it_queues it' = it_queues it"
        "it_rel (announcementQueue m) it' (rems[j := cs])" "e \<in> set (entries_of (announcementQueue m) (it_queues it ! j))"
      using getNext_Some [OF inv rel pick cs] by blast
    have e: "e \<in> queued (announcementQueue m)" using nx(4) by (rule queuedI)
    have m: "merge (it_queues it) rems = (e, p) # merge (it_queues it') (rems[j := cs])"
      using merge_Some [OF pick cs] nx(2) by simp
    consider (stop) "\<not> i \<le> 100 \<or> (\<not> p \<and> bestMatchIsPriority best)"
      | (expired) "i \<le> 100" "\<not> (\<not> p \<and> bestMatchIsPriority best)" "announce_done env (ae_ref e)"
      | (incompatible) "i \<le> 100" "\<not> (\<not> p \<and> bestMatchIsPriority best)" "\<not> announce_done env (ae_ref e)"
          "\<not> compatible_candidate env off common e"
      | (candidate) "i \<le> 100" "\<not> (\<not> p \<and> bestMatchIsPriority best)" "\<not> announce_done env (ae_ref e)"
          "\<not> \<not> compatible_candidate env off common e" by blast
    then show ?thesis
    proof cases
      case stop
      then show ?thesis by (auto simp: unf nx(1) m)
    next
      case expired
      let ?m = "snd (dequeue_announcement e m)"
      have inv': "queue_inv (announcementQueue ?m)"
        using dequeue_present(4) [OF inv e] by simp
      have "\<forall>n<length (rems[j := cs]). e \<notin> set (rems[j := cs] ! n)"
        using visited_not_remaining [OF inv rel cs] by simp
      then have "it_rel (announcementQueue ?m) it' (rems[j := cs])"
        using it_rel_dequeue [OF inv nx(3) e] by simp
      from 1(1) [OF expired(1) nx(1) [symmetric] refl refl expired(2,3) inv' this]
      show ?thesis using expired by (auto simp: unf nx(1) m split: prod.split)
    next
      case incompatible
      from 1(2) [OF incompatible(1) nx(1) [symmetric] refl refl incompatible(2-4) inv nx(3)]
      show ?thesis using incompatible by (auto simp: unf nx(1) m split: prod.split)
    next
      case candidate
      define b where "b = update_best e (i + 1) p (preferred_candidate env off p e) best"
      show ?thesis
      proof (cases "stop_search ex (i + 1) b")
        case True
        then show ?thesis using candidate by (auto simp: unf nx(1) m b_def [symmetric] Let_def)
      next
        case False
        from 1(3) [OF candidate(1) nx(1) [symmetric] refl refl candidate(2-4) b_def False inv nx(3)]
        show ?thesis using candidate False
          by (auto simp: unf nx(1) m b_def [symmetric] Let_def split: prod.split)
      qed
    qed
  qed
qed

section \<open>Facts about the scan\<close>

abbreviation acceptable :: "env \<Rightarrow> match_offer \<Rightarrow> bool \<Rightarrow> announcement_entry \<Rightarrow> bool" where
  "acceptable env off common e \<equiv> \<not> announce_done env (ae_ref e) \<and> compatible_candidate env off common e"

lemma update_best_Some: "bestMatch (update_best e i p n b) \<noteq> None"
  by (simp add: update_best_def)

lemma scan_keeps_match:
  "bestMatch best \<noteq> None \<Longrightarrow> bestMatch (fst (scan env off common ex i best cs)) \<noteq> None"
proof (induction env off common ex i best cs rule: scan.induct)
  case (2 env off common ex i best e p cs)
  define b where "b = update_best e (i + 1) p (preferred_candidate env off p e) best"
  have "bestMatch b \<noteq> None" unfolding b_def by (rule update_best_Some)
  with 2 show ?case by (auto simp: b_def [symmetric] Let_def split: prod.split)
qed simp

text \<open>Nothing is found only if none of the candidates within the probe limit is acceptable.\<close>

lemma scan_complete:
  "bestMatch (fst (scan env off common ex i best cs)) = None \<Longrightarrow> bestMatch best = None \<Longrightarrow>
    \<not> bestMatchIsPriority best \<Longrightarrow> (e, p) \<in> set (take (nat (matcherMaxProbe + 1 - i)) cs) \<Longrightarrow>
    \<not> acceptable env off common e"
proof (induction env off common ex i best cs rule: scan.induct)
  case (2 env off common ex i best c q cs)
  have i: "i \<le> 100"
  proof (rule ccontr)
    assume "\<not> i \<le> 100"
    then have "nat (100 + 1 - i) = 0" by simp
    with 2(7) show False by simp
  qed
  then have "nat (100 + 1 - i) = Suc (nat (100 + 1 - (i + 1)))" by simp
  with 2(7) have mem: "(e, p) = (c, q) \<or> (e, p) \<in> set (take (nat (100 + 1 - (i + 1))) cs)" by simp
  define b where "b = update_best c (i + 1) q (preferred_candidate env off q c) best"
  have b: "bestMatch b \<noteq> None" unfolding b_def by (rule update_best_Some)
  have acc: "\<not> acceptable env off common c"
  proof
    assume a: "acceptable env off common c"
    then have "bestMatch (fst (scan env off common ex i best ((c, q) # cs))) \<noteq> None"
      using i 2(6) b scan_keeps_match [OF b] by (auto simp: b_def [symmetric] Let_def)
    with 2(4) show False by simp
  qed
  have np: "\<not> (\<not> i \<le> 100 \<or> \<not> q \<and> bestMatchIsPriority best)" using i 2(6) by simp
  show ?case
  proof (cases "(e, p) = (c, q)")
    case True
    with acc show ?thesis by simp
  next
    case False
    then have mem': "(e, p) \<in> set (take (nat (100 + 1 - (i + 1))) cs)" using mem by blast
    show ?thesis
    proof (cases "announce_done env (ae_ref c)")
      case True
      have "bestMatch (fst (scan env off common ex (i + 1) best cs)) = None"
        using 2(4) np True by (auto split: prod.splits)
      from 2(1) [OF np True this 2(5,6) mem'] show ?thesis .
    next
      case False
      with acc have nc: "\<not> compatible_candidate env off common c" by simp
      have "bestMatch (fst (scan env off common ex (i + 1) best cs)) = None"
        using 2(4) np False nc by auto
      from 2(2) [OF np False nc this 2(5,6) mem'] show ?thesis .
    qed
  qed
qed simp

lemma scan_sound:
  "(let b = fst (scan env off common ex i best cs) in
     (bestMatch b = bestMatch best \<and> bestMatchIsPriority b = bestMatchIsPriority best) \<or>
     (\<exists>a. bestMatch b = Some a \<and> (a, bestMatchIsPriority b) \<in> set cs \<and> acceptable env off common a))"
proof (induction env off common ex i best cs rule: scan.induct)
  case (2 env off common ex i best c q cs)
  define b where "b = update_best c (i + 1) q (preferred_candidate env off q c) best"
  have b: "b = best \<or> (bestMatch b = Some c \<and> bestMatchIsPriority b = q)" by (auto simp: b_def update_best_def)
  consider (stop) "\<not> i \<le> 100 \<or> \<not> q \<and> bestMatchIsPriority best"
    | (expired) "\<not> (\<not> i \<le> 100 \<or> \<not> q \<and> bestMatchIsPriority best)" "announce_done env (ae_ref c)"
    | (incompatible) "\<not> (\<not> i \<le> 100 \<or> \<not> q \<and> bestMatchIsPriority best)" "\<not> announce_done env (ae_ref c)"
        "\<not> compatible_candidate env off common c"
    | (found) "\<not> (\<not> i \<le> 100 \<or> \<not> q \<and> bestMatchIsPriority best)" "\<not> announce_done env (ae_ref c)"
        "\<not> \<not> compatible_candidate env off common c" "stop_search ex (i + 1) b"
    | (more) "\<not> (\<not> i \<le> 100 \<or> \<not> q \<and> bestMatchIsPriority best)" "\<not> announce_done env (ae_ref c)"
        "\<not> \<not> compatible_candidate env off common c" "\<not> stop_search ex (i + 1) b" by blast
  then show ?case
  proof cases
    case stop
    then show ?thesis by simp
  next
    case expired
    then have eq: "fst (scan env off common ex i best ((c, q) # cs)) = fst (scan env off common ex (i + 1) best cs)"
      by (auto split: prod.split)
    show ?thesis unfolding eq using 2(1) [OF expired] by (auto simp: Let_def)
  next
    case incompatible
    then have eq: "fst (scan env off common ex i best ((c, q) # cs)) = fst (scan env off common ex (i + 1) best cs)"
      by auto
    show ?thesis unfolding eq using 2(2) [OF incompatible] by (auto simp: Let_def)
  next
    case found
    then have eq: "fst (scan env off common ex i best ((c, q) # cs)) = b"
      by (auto simp: b_def [symmetric] Let_def)
    show ?thesis unfolding eq using b found by (auto simp: Let_def)
  next
    case more
    then have eq: "fst (scan env off common ex i best ((c, q) # cs)) = fst (scan env off common ex (i + 1) b cs)"
      by (auto simp: b_def [symmetric] Let_def)
    show ?thesis unfolding eq using 2(3) [OF more(1-3) b_def more(4)] b more by (auto simp: Let_def)
  qed
qed simp

lemma scan_keeps_priority:
  "bestMatch best \<noteq> None \<Longrightarrow> bestMatchIsPriority best \<Longrightarrow> bestMatchIsPriority (fst (scan env off common ex i best cs))"
proof (induction env off common ex i best cs rule: scan.induct)
  case (2 env off common ex i best c q cs)
  have "bestMatch (update_best c (i + 1) True n best) \<noteq> None \<and> bestMatchIsPriority (update_best c (i + 1) True n best)" for n
    using 2(5) by (simp add: update_best_def)
  with 2 show ?case by (auto simp: Let_def split: prod.split)
qed simp

text \<open>A match without priority is made only if no priority candidate is acceptable.\<close>

lemma scan_priority:
  "sorted_wrt (\<lambda>(_, p) (_, p'). p' \<longrightarrow> p) cs \<Longrightarrow> bestMatch best = None \<Longrightarrow> \<not> bestMatchIsPriority best \<Longrightarrow>
    bestMatch (fst (scan env off common ex i best cs)) \<noteq> None \<Longrightarrow>
    \<not> bestMatchIsPriority (fst (scan env off common ex i best cs)) \<Longrightarrow> (e, True) \<in> set cs \<Longrightarrow>
    \<not> acceptable env off common e"
proof (induction env off common ex i best cs rule: scan.induct)
  case (2 env off common ex i best c q cs)
  define b where "b = update_best c (i + 1) q (preferred_candidate env off q c) best"
  have b: "bestMatch b \<noteq> None" "bestMatchIsPriority b = q" using 2(5) by (simp_all add: b_def update_best_def)
  have "i \<le> 100" using 2(5,7) by (cases "i \<le> 100") auto
  then have np: "\<not> (\<not> i \<le> 100 \<or> \<not> q \<and> bestMatchIsPriority best)" using 2(6) by simp
  show ?case
  proof (cases "acceptable env off common c")
    case True
    have "\<not> q"
    proof
      assume q
      with b have "bestMatchIsPriority (fst (scan env off common ex (i + 1) b cs))" "bestMatchIsPriority b"
        by (simp_all add: scan_keeps_priority)
      with True np 2(8) show False by (auto simp: b_def [symmetric] Let_def split: if_splits)
    qed
    then show ?thesis using 2(4,9) by auto
  next
    case False
    show ?thesis
    proof (cases "(e, True) = (c, q)")
      case True
      with False show ?thesis by simp
    next
      case tl: False
      then have mem: "(e, True) \<in> set cs" using 2(9) by auto
      have s: "sorted_wrt (\<lambda>(_, p) (_, p'). p' \<longrightarrow> p) cs" using 2(4) by simp
      show ?thesis
      proof (cases "announce_done env (ae_ref c)")
        case True
        then have eq: "fst (scan env off common ex i best ((c, q) # cs)) = fst (scan env off common ex (i + 1) best cs)"
          using np by (auto split: prod.split)
        show ?thesis by (rule 2(1) [OF np True s 2(5,6) 2(7,8) [unfolded eq] mem])
      next
        case nd: False
        with False have nc: "\<not> compatible_candidate env off common c" by simp
        then have eq: "fst (scan env off common ex i best ((c, q) # cs)) = fst (scan env off common ex (i + 1) best cs)"
          using np nd by auto
        show ?thesis by (rule 2(2) [OF np nd nc s 2(5,6) 2(7,8) [unfolded eq] mem])
      qed
    qed
  qed
qed simp

text \<open>Without a preferred NAT match to look for, the scan takes the first acceptable candidate.\<close>

lemma scan_first:
  "\<not> ex \<Longrightarrow> bestMatch best = None \<Longrightarrow> \<not> bestMatchIsPriority best \<Longrightarrow>
    bestMatch (fst (scan env off common ex i best cs)) =
      List.find (acceptable env off common) (map fst (take (nat (matcherMaxProbe + 1 - i)) cs))"
proof (induction env off common ex i best cs rule: scan.induct)
  case (2 env off common ex i best c q cs)
  show ?case
  proof (cases "i \<le> 100")
    case False
    then show ?thesis using 2(5) by simp
  next
    case True
    then have "nat (101 - i) = Suc (nat (100 - i))" by simp
    then have n: "take (nat (101 - i)) ((c, q) # cs) = (c, q) # take (nat (100 - i)) cs" by simp
    have np: "\<not> (\<not> i \<le> 100 \<or> \<not> q \<and> bestMatchIsPriority best)" using 2(6) True by simp
    define b where "b = update_best c (i + 1) q (preferred_candidate env off q c) best"
    have b: "bestMatch b = Some c" using 2(5) by (simp add: b_def update_best_def)
    have st: "stop_search ex (i + 1) b" using 2(4) b by (simp add: stop_search_def)
    show ?thesis
    proof (cases "announce_done env (ae_ref c)")
      case True
      from 2(1) [OF np True 2(4-6)] show ?thesis
        using np True by (auto simp: n simp del: take_Suc_Cons split: prod.split)
    next
      case nd: False
      show ?thesis
      proof (cases "compatible_candidate env off common c")
        case True
        then show ?thesis using np nd b st by (auto simp: n b_def [symmetric] Let_def)
      next
        case False
        from 2(2) [OF np nd False 2(4-6)] show ?thesis using np nd False by (auto simp: n)
      qed
    qed
  qed
qed simp

section \<open>The NAT counters\<close>

lemma traversal_count_pos: "0 < traversal_count t es \<longleftrightarrow> (\<exists>e\<in>set es. entry_traversal e = t)"
proof -
  have "filter (\<lambda>e. entry_traversal e = t) es \<noteq> [] \<longleftrightarrow> (\<exists>e\<in>set es. entry_traversal e = t)"
    by (simp add: filter_empty_conv)
  then show ?thesis by (simp add: traversal_count_def)
qed

lemma traversal_count_append: "traversal_count t (es @ fs) = traversal_count t es + traversal_count t fs"
  by (simp add: traversal_count_def)

lemma getNATCounts_concat:
  assumes "queue_inv q"
  shows "foldl (\<lambda>(u, p, s) (k, i). case compartmentQueues q k i of None \<Rightarrow> (u, p, s)
      | Some cq \<Rightarrow> (u + unlimitedNATCount cq, p + partiallyLimitedNATCount cq, s + strictlyLimitedNATCount cq))
     (u, p, s) ks =
    (let es = concat (map (entries_of q) ks)
     in (u + traversal_count NATTraversalUnlimited es, p + traversal_count NATTraversalPartiallyLimited es,
         s + traversal_count NATTraversalStrictlyLimited es))"
proof (induction ks arbitrary: u p s)
  case Nil
  then show ?case by (simp add: traversal_count_def)
next
  case (Cons ki ks)
  obtain k i where ki: "ki = (k, i)" by (cases ki)
  show ?case
  proof (cases "compartmentQueues q k i")
    case None
    then show ?thesis using Cons ki by (simp add: entries_of_def traversal_count_append traversal_count_def)
  next
    case (Some cq)
    then have "counts_ok cq" using assms by (auto simp: queue_inv_def compartment_ok_def)
    then show ?thesis using Cons ki Some
      by (simp add: entries_of_def traversal_count_append counts_ok_def Let_def algebra_simps)
  qed
qed

lemma preferred_exact:
  assumes "queue_inv q"
  shows "exists_preferred off (startMatching common ids q) q \<longleftrightarrow>
    (\<exists>e\<in>set (concat (matching_entries common ids q)). IsPreferredNATMatch (of_Properties off) (properties e))"
proof -
  let ?es = "concat (matching_entries common ids q)"
  have c: "getNATCounts (startMatching common ids q) q =
      (traversal_count NATTraversalUnlimited ?es, traversal_count NATTraversalPartiallyLimited ?es,
       traversal_count NATTraversalStrictlyLimited ?es)"
    using getNATCounts_concat [OF assms, of 0 0 0 "matching_keys common ids q"]
    by (simp add: getNATCounts_def startMatching_def matching_entries_def Let_def)
  show ?thesis
    unfolding exists_preferred_def c
    by (cases "MakeTraversal (EffectiveNATType (of_Properties off))")
      (auto simp: traversal_count_pos ExistsPreferredNATMatch_def NATType_ExistsPreferredMatch_def
        IsPreferredNATMatch_def NATType_IsPreferredMatch_def entry_traversal_def)
qed

text \<open>
  The counters of NAT types answer exactly whether one of the announcements that an offer
  could be matched with is a preferred NAT match, so the longer search is made if and only if
  it can improve the match.
\<close>

lemma exists_preferred_exact:
  assumes "queue_inv q"
  shows "exists_preferred off (startMatching common ids q) q \<longleftrightarrow>
    (\<exists>e\<in>set (concat (matching_entries common ids q)). IsPreferredNATMatch (of_Properties off) (properties e))"
  using assms by (rule preferred_exact)

section \<open>What matchOffer selects\<close>

lemma matchOffer_scan:
  assumes inv: "queue_inv (announcementQueue m)" and oc: "offer_compartments off = (common, ids)"
    and d: "distinct ids" and n: "length (concat (matching_entries common ids (announcementQueue m))) \<le> n"
  shows "matchOffer env off m =
    (case scan env off common (exists_preferred off (startMatching common ids (announcementQueue m)) (announcementQueue m))
        (- 1) no_match (drain n (startMatching common ids (announcementQueue m)) (announcementQueue m))
     of (b, es) \<Rightarrow> (b, remove_all es m))"
proof -
  let ?q = "announcementQueue m"
  have rel: "it_rel ?q (startMatching common ids ?q) (matching_entries common ids ?q)"
    using startMatching_rel [OF d] .
  show ?thesis
  proof (cases "ids = []")
    case True
    then have "matching_keys common ids ?q = []" by (simp add: matching_keys_def)
    then have "drain n (startMatching common ids ?q) ?q = []"
      by (cases n) (simp_all add: startMatching_def Let_def getNext_def)
    with True show ?thesis using oc by (simp add: matchOffer_def)
  next
    case False
    then show ?thesis
      using oc match_loop_scan [OF inv rel] drain_merge [OF inv rel n] by (simp add: matchOffer_def Let_def)
  qed
qed

lemma drain_facts:
  assumes inv: "queue_inv q" and d: "distinct ids"
    and n: "length (concat (matching_entries common ids q)) \<le> n"
  shows "fst ` set (drain n (startMatching common ids q) q) = set (concat (matching_entries common ids q))"
    "(e, p) \<in> set (drain n (startMatching common ids q) q) \<Longrightarrow> p = IsPriority (properties e)"
    "sorted_wrt (\<lambda>(_, p) (_, p'). p' \<longrightarrow> p) (drain n (startMatching common ids q) q)"
    "length (drain n (startMatching common ids q) q) = length (concat (matching_entries common ids q))"
proof -
  let ?ks = "matching_keys common ids q" and ?rs = "matching_entries common ids q"
  have rel: "it_rel q (startMatching common ids q) ?rs" using startMatching_rel [OF d] .
  have len: "length ?ks = length ?rs" by (simp add: matching_entries_def)
  have dr: "drain n (startMatching common ids q) q = merge ?ks ?rs"
    using drain_merge [OF inv rel n] by (simp add: startMatching_def Let_def)
  have ms: "mset (map fst (drain n (startMatching common ids q) q)) = mset (concat ?rs)"
    unfolding dr by (rule merge_mset [OF len])
  show "fst ` set (drain n (startMatching common ids q) q) = set (concat ?rs)"
    using mset_eq_setD [OF ms] by simp
  show "length (drain n (startMatching common ids q) q) = length (concat ?rs)"
    using mset_eq_length [OF ms] by simp
  show "sorted_wrt (\<lambda>(_, p) (_, p'). p' \<longrightarrow> p) (drain n (startMatching common ids q) q)"
    unfolding dr by (rule merge_priority [OF len matching_keys_priority_first])
  assume "(e, p) \<in> set (drain n (startMatching common ids q) q)"
  then have "(e, p) \<in> set (merge ?ks ?rs)" by (simp add: dr)
  from merge_class [OF len this]
  obtain i where "i < length ?ks" "e \<in> set (entries_of q (?ks ! i))" "p = isPriority (?ks ! i)"
    by (auto simp: matching_entries_def)
  then show "p = IsPriority (properties e)" using entry_priority [OF inv] by blast
qed


text \<open>
  A client of the example queue: the common compartment 7, and a GeoIP location of its own.
\<close>

definition example_offer :: match_offer where
  "example_offer = \<lparr>of_Properties = \<lparr>IsPriority = False, ProtocolVersion = 2, CommonCompartmentIDs = [[7]],
       PersonalCompartmentIDs = [], GeoIPData = \<lparr>Country = ''US'', ASN = ''2''\<rparr>, NetworkType = 0,
       NATType = NATTypePortMapping, PortMappingTypes = []\<rparr>, UseMediaStreams = True\<rparr>"

definition example_env :: env where
  "example_env = \<lparr>now = 5, announce_done = (\<lambda>r. False), offer_done = (\<lambda>r. False), AllowMatch = (\<lambda>a b. True),
     AllowCommonASNMatching = False, HasQuality = (\<lambda>p a b. False), IsLoadLimiting = None\<rparr>"

definition example_matcher :: "unit matcher" where
  "example_matcher = NewMatcher 0 0 0 [] [] 0 0 0 0\<lparr>announcementQueue := example_queue\<rparr>"

lemma example_matcher_queue [simp]: "announcementQueue example_matcher = example_queue"
  by (simp add: example_matcher_def)

lemma example_offer_compartments [simp]: "offer_compartments example_offer = (True, [[7]])"
  by (simp add: offer_compartments_def example_offer_def)

lemma example_acceptable: "acceptable example_env example_offer True (example_announcement r d prio [7])"
  by (simp add: example_env_def example_offer_def example_announcement_def compatible_candidate_def
      negotiateProtocolVersion_def Let_def)


text \<open>
  When no candidate of an offer is a preferred NAT match, matchOffer takes the first
  acceptable one of the first 102 in the order of the iteration, so the oldest one among those
  of the same priority.
\<close>

lemma matchOffer_oldest:
  assumes "queue_inv (announcementQueue m)" "offer_compartments off = (common, ids)" "distinct ids"
    and "length (concat (matching_entries common ids (announcementQueue m))) \<le> n"
    and "\<not> (\<exists>e\<in>set (concat (matching_entries common ids (announcementQueue m))).
      IsPreferredNATMatch (of_Properties off) (properties e))"
  shows "bestMatch (fst (matchOffer env off m)) =
    List.find (acceptable env off common)
      (take 102 (map fst (drain n (startMatching common ids (announcementQueue m)) (announcementQueue m))))"
proof -
  let ?q = "announcementQueue m"
  define ex where "ex = exists_preferred off (startMatching common ids ?q) ?q"
  define cs where "cs = drain n (startMatching common ids ?q) ?q"
  have "\<not> ex" unfolding ex_def preferred_exact [OF assms(1)] using assms(5) .
  then have "bestMatch (fst (scan env off common ex (- 1) no_match cs)) =
      List.find (acceptable env off common) (map fst (take (nat (100 + 1 - - 1)) cs))"
    by (rule scan_first) (simp_all add: no_match_def)
  then show ?thesis
    by (simp add: matchOffer_scan [OF assms(1-4), of env] ex_def cs_def take_map split_beta)
qed

lemma example_not_preferred:
  "\<not> IsPreferredNATMatch (of_Properties example_offer) (properties (example_announcement r d prio c))"
  by (simp add: IsPreferredNATMatch_def NATType_IsPreferredMatch_def
      EffectiveNATType_def example_offer_def example_announcement_def MakeTraversal_def Mapping_def Filtering_def
      NATTypePortMapping_def MakeNATType_def)

end
