(* ===== verification/MatcherSystem.thy ===== *)
theory MatcherSystem
  imports MatchSearch
begin

text \<open>
  The invariants of the matcher state and the effect of each of its operations on them: exact
  counts, unused channels of queued entries, no pending answer for a queued offer, and no blocking
  send in an iteration of the matching pass.
\<close>

section \<open>Counts of entries per address\<close>

definition counts_exact :: "('x \<Rightarrow> string) \<Rightarrow> 'x set \<Rightarrow> (string \<Rightarrow> int option) \<Rightarrow> bool" where
  "counts_exact f X counts \<longleftrightarrow>
    (\<forall>ip. counts ip = (if card {x \<in> X. f x = ip} = 0 then None else Some (int (card {x \<in> X. f x = ip}))))"

lemma counts_exact_empty: "counts_exact f {} Map.empty"
  by (simp add: counts_exact_def)

lemma counts_exact_add:
  assumes "counts_exact f X c" "finite X" "x \<notin> X"
  shows "counts_exact f (insert x X) (count_add (f x) c)"
  unfolding counts_exact_def
proof
  fix ip
  show "count_add (f x) c ip = (if card {y \<in> insert x X. f y = ip} = 0 then None
      else Some (int (card {y \<in> insert x X. f y = ip})))"
  proof (cases "ip = f x")
    case True
    then have "{y \<in> insert x X. f y = ip} = insert x {y \<in> X. f y = ip}" by auto
    moreover have "finite {y \<in> X. f y = ip}" "x \<notin> {y \<in> X. f y = ip}" using assms by auto
    ultimately have "card {y \<in> insert x X. f y = ip} = Suc (card {y \<in> X. f y = ip})" by simp
    then show ?thesis using assms(1) True by (simp add: counts_exact_def count_add_def)
  next
    case False
    then have "{y \<in> insert x X. f y = ip} = {y \<in> X. f y = ip}" by auto
    then show ?thesis using assms(1) False by (simp add: counts_exact_def count_add_def)
  qed
qed

lemma counts_exact_sub:
  assumes "counts_exact f X c" "finite X" "x \<in> X"
  shows "counts_exact f (X - {x}) (count_sub (f x) c)"
  unfolding counts_exact_def
proof
  fix ip
  show "count_sub (f x) c ip = (if card {y \<in> X - {x}. f y = ip} = 0 then None
      else Some (int (card {y \<in> X - {x}. f y = ip})))"
  proof (cases "ip = f x")
    case True
    then have "{y \<in> X. f y = ip} = insert x {y \<in> X - {x}. f y = ip}" using assms(3) by auto
    moreover have "finite {y \<in> X - {x}. f y = ip}" using assms(2) by simp
    ultimately have "card {y \<in> X. f y = ip} = Suc (card {y \<in> X - {x}. f y = ip})" by simp
    then show ?thesis using assms(1) True by (simp add: counts_exact_def count_sub_def Let_def)
  next
    case False
    then have "{y \<in> X - {x}. f y = ip} = {y \<in> X. f y = ip}" by auto
    then show ?thesis using assms(1) False by (simp add: counts_exact_def count_sub_def Let_def)
  qed
qed

section \<open>Invariants of the matcher\<close>

definition announcements_ok :: "'rl matcher \<Rightarrow> bool" where
  "announcements_ok m \<longleftrightarrow> queue_inv (announcementQueue m) \<and>
     counts_exact limitIP (queued (announcementQueue m)) (announcementQueueEntryCountByIP m) \<and>
     getLen (announcementQueue m) \<le> matcherAnnouncementQueueMaxSize"

definition offers_ok :: "'rl matcher \<Rightarrow> bool" where
  "offers_ok m \<longleftrightarrow> distinct (map oe_ref (offerQueue m)) \<and> offerRefs m = oe_ref ` set (offerQueue m) \<and>
     offerQueueLen m = int (length (offerQueue m)) \<and>
     counts_exact oe_limitIP (set (offerQueue m)) (offerQueueEntryCountByIP m) \<and>
     offerQueueLen m \<le> matcherOfferQueueMaxSize"

abbreviation fresh_answer_chan :: answer_chan where
  "fresh_answer_chan \<equiv> \<lparr>ac_chan = make_chan 1, ac_closed = False\<rparr>"

text \<open>The channels of queued entries are unused, and no pending answer belongs to a queued offer.\<close>

definition channels_ok :: "'rl matcher \<Rightarrow> bool" where
  "channels_ok m \<longleftrightarrow> (\<forall>e\<in>queued (announcementQueue m). offerChans m (ae_ref e) = make_chan 1) \<and>
     (\<forall>r\<in>offerRefs m. answerChans m r = fresh_answer_chan) \<and>
     (\<forall>k pa. stored (pendingAnswers m) k = Some pa \<longrightarrow> pa_offer pa \<notin> offerRefs m)"

lemma announcements_ok_frame [simp]:
  "announcements_ok (m\<lparr>answerChans := ac\<rparr>) = announcements_ok m"
  "announcements_ok (m\<lparr>offerChans := oc\<rparr>) = announcements_ok m"
  "announcements_ok (m\<lparr>pendingAnswers := pa\<rparr>) = announcements_ok m"
  "announcements_ok (m\<lparr>matchSignal := sig\<rparr>) = announcements_ok m"
  "announcements_ok (m\<lparr>announcementQueueRateLimiters := al\<rparr>) = announcements_ok m"
  "announcements_ok (m\<lparr>offerQueueRateLimiters := ol\<rparr>) = announcements_ok m"
  by (simp_all add: announcements_ok_def)

lemma offers_ok_frame [simp]:
  "offers_ok (m\<lparr>answerChans := ac\<rparr>) = offers_ok m"
  "offers_ok (m\<lparr>offerChans := oc\<rparr>) = offers_ok m"
  "offers_ok (m\<lparr>pendingAnswers := pa\<rparr>) = offers_ok m"
  "offers_ok (m\<lparr>matchSignal := sig\<rparr>) = offers_ok m"
  "offers_ok (m\<lparr>announcementQueue := q\<rparr>) = offers_ok m"
  "offers_ok (m\<lparr>announcementQueueEntryCountByIP := c\<rparr>) = offers_ok m"
  "offers_ok (m\<lparr>announcementQueueRateLimiters := al\<rparr>) = offers_ok m"
  "offers_ok (m\<lparr>offerQueueRateLimiters := ol\<rparr>) = offers_ok m"
  by (simp_all add: offers_ok_def)

lemma make_chan_room: "length (chan_queue (make_chan 1)) < chan_cap (make_chan 1)"
  by (simp add: make_chan_def)

section \<open>Effects of the operations\<close>

lemma dequeue_announcement_ok:
  assumes "announcements_ok m" "e \<in> queued (announcementQueue m) \<or> mq_refs (announcementQueue m) (ae_ref e) = None"
  shows "announcements_ok (snd (dequeue_announcement e m))"
    "queued (announcementQueue (snd (dequeue_announcement e m))) = queued (announcementQueue m) - {e}"
    "\<exists>q c. snd (dequeue_announcement e m) = m\<lparr>announcementQueue := q, announcementQueueEntryCountByIP := c\<rparr>"
proof -
  let ?q = "announcementQueue m"
  have inv: "queue_inv ?q" using assms(1) by (simp add: announcements_ok_def)
  note d = queue_inv_dequeue [OF inv assms(2)]
  show "queued (announcementQueue (snd (dequeue_announcement e m))) = queued ?q - {e}" using d by simp
  show "announcements_ok (snd (dequeue_announcement e m))"
    using assms(2)
  proof
    assume e: "e \<in> queued ?q"
    have "finite (queued ?q)" using queued_card [OF inv] by simp
    moreover have "getLen (snd (dequeue e ?q)) \<le> getLen ?q"
      using d queued_card [OF inv] queued_card [of "snd (dequeue e ?q)"] by (simp add: card_Diff_subset_Int)
    ultimately show ?thesis
      using assms(1) d e counts_exact_sub [of limitIP "queued ?q" "announcementQueueEntryCountByIP m" e]
      by (simp add: announcements_ok_def dequeue_announcement_present [OF inv e])
  next
    assume "mq_refs ?q (ae_ref e) = None"
    then show ?thesis using assms(1) dequeue_announcement_absent [of m e] by simp
  qed
  show "\<exists>q c. snd (dequeue_announcement e m) = m\<lparr>announcementQueue := q, announcementQueueEntryCountByIP := c\<rparr>"
    using assms(2)
  proof
    assume "e \<in> queued ?q"
    then show ?thesis using dequeue_announcement_present [OF inv] by blast
  next
    assume "mq_refs ?q (ae_ref e) = None"
    then have "snd (dequeue_announcement e m) =
        m\<lparr>announcementQueue := announcementQueue m, announcementQueueEntryCountByIP := announcementQueueEntryCountByIP m\<rparr>"
      using dequeue_announcement_absent [of m e] by simp
    then show ?thesis by blast
  qed
qed

lemma removeOfferEntry_ok:
  assumes "offers_ok m" "oe_ref e \<in> offerRefs m \<longrightarrow> e \<in> set (offerQueue m)"
  shows "offers_ok (removeOfferEntry e m)" "set (offerQueue (removeOfferEntry e m)) = set (offerQueue m) - {e}"
    "offerRefs (removeOfferEntry e m) = offerRefs m - {oe_ref e}"
proof -
  have d: "distinct (map oe_ref (offerQueue m))" and refs: "offerRefs m = oe_ref ` set (offerQueue m)"
    using assms(1) by (simp_all add: offers_ok_def)
  show "offerRefs (removeOfferEntry e m) = offerRefs m - {oe_ref e}" by (simp add: removeOfferEntry_def)
  show s: "set (offerQueue (removeOfferEntry e m)) = set (offerQueue m) - {e}"
  proof (cases "oe_ref e \<in> offerRefs m")
    case True
    then have e: "e \<in> set (offerQueue m)" using assms(2) by simp
    have "x = e" if "x \<in> set (offerQueue m)" "oe_ref x = oe_ref e" for x
      using d that e by (auto simp: distinct_map dest: inj_onD)
    then show ?thesis using True by (auto simp: removeOfferEntry_def)
  next
    case False
    then show ?thesis using refs by (auto simp: removeOfferEntry_def)
  qed
  show "offers_ok (removeOfferEntry e m)"
  proof (cases "oe_ref e \<in> offerRefs m")
    case True
    then have e: "e \<in> set (offerQueue m)" using assms(2) by simp
    let ?q' = "filter (\<lambda>x. oe_ref x \<noteq> oe_ref e) (offerQueue m)"
    have s': "set ?q' = set (offerQueue m) - {e}" using s True by (simp add: removeOfferEntry_def)
    have d': "distinct (offerQueue m)" "distinct ?q'" using d by (simp_all add: distinct_map)
    have "length ?q' = card (set (offerQueue m) - {e})" using distinct_card [OF d'(2)] s' by simp
    also have "\<dots> = length (offerQueue m) - 1" using e distinct_card [OF d'(1)] by simp
    finally have len: "int (length ?q') = int (length (offerQueue m)) - 1"
      using e by (cases "offerQueue m") auto
    have "counts_exact oe_limitIP (set ?q') (count_sub (oe_limitIP e) (offerQueueEntryCountByIP m))"
      using counts_exact_sub [of oe_limitIP "set (offerQueue m)" _ e] assms(1) e s' by (simp add: offers_ok_def)
    moreover have "offerRefs m - {oe_ref e} = oe_ref ` set ?q'" using refs by auto
    ultimately show ?thesis
      using assms(1) True len d by (simp add: offers_ok_def removeOfferEntry_def distinct_map_filter)
  next
    case False
    then show ?thesis using assms(1) by (simp add: removeOfferEntry_def)
  qed
qed

lemma removeOfferEntry_frame [simp]:
  "announcementQueue (removeOfferEntry e m) = announcementQueue m"
  "announcementQueueEntryCountByIP (removeOfferEntry e m) = announcementQueueEntryCountByIP m"
  "offerChans (removeOfferEntry e m) = offerChans m"
  "answerChans (removeOfferEntry e m) = answerChans m"
  "pendingAnswers (removeOfferEntry e m) = pendingAnswers m"
  "matchSignal (removeOfferEntry e m) = matchSignal m"
  by (simp_all add: removeOfferEntry_def)

definition announcements_shrunk :: "'rl matcher \<Rightarrow> env \<Rightarrow> 'rl matcher \<Rightarrow> bool" where
  "announcements_shrunk m0 env m \<longleftrightarrow> announcements_ok m \<and>
     (\<exists>q c. m = m0\<lparr>announcementQueue := q, announcementQueueEntryCountByIP := c\<rparr>) \<and>
     queued (announcementQueue m) \<subseteq> queued (announcementQueue m0) \<and>
     {e \<in> queued (announcementQueue m0). \<not> announce_done env (ae_ref e)} \<subseteq> queued (announcementQueue m)"

lemma announcements_shrunk_step:
  assumes inv0: "announcements_ok m0" and s: "announcements_shrunk m0 env m"
    and e: "e \<in> queued (announcementQueue m0)" "announce_done env (ae_ref e)"
  shows "announcements_shrunk m0 env (snd (dequeue_announcement e m))"
proof -
  have ok: "announcements_ok m" and sub: "queued (announcementQueue m) \<subseteq> queued (announcementQueue m0)"
    using s by (simp_all add: announcements_shrunk_def)
  have inv: "queue_inv (announcementQueue m)" "queue_inv (announcementQueue m0)"
    using ok inv0 by (simp_all add: announcements_ok_def)
  have "e \<in> queued (announcementQueue m) \<or> mq_refs (announcementQueue m) (ae_ref e) = None"
  proof (rule disjCI)
    assume "mq_refs (announcementQueue m) (ae_ref e) \<noteq> None"
    then have "ae_ref e \<in> ae_ref ` queued (announcementQueue m)" using queued_iff_ref(1) [OF inv(1)] by auto
    then obtain x where x: "x \<in> queued (announcementQueue m)" "ae_ref x = ae_ref e" by auto
    then have "x = e" using inj_onD [OF queued_iff_ref(2) [OF inv(2)] x(2)] sub e(1) by blast
    with x show "e \<in> queued (announcementQueue m)" by simp
  qed
  note d = dequeue_announcement_ok [OF ok this]
  obtain q c where "m = m0\<lparr>announcementQueue := q, announcementQueueEntryCountByIP := c\<rparr>"
    using s by (auto simp: announcements_shrunk_def)
  with d(3) have "\<exists>q c. snd (dequeue_announcement e m) = m0\<lparr>announcementQueue := q, announcementQueueEntryCountByIP := c\<rparr>"
    by auto
  then show ?thesis using d(1,2) s e by (auto simp: announcements_shrunk_def)
qed

lemma matchOffer_effect:
  assumes ok: "announcements_ok m"
  shows "announcements_shrunk m env (snd (matchOffer env off m))"
    "bestMatch (fst (matchOffer env off m)) = Some a \<Longrightarrow> a \<in> queued (announcementQueue (snd (matchOffer env off m)))"
proof -
  obtain common ids where oc: "offer_compartments off = (common, ids)" by (cases "offer_compartments off")
  let ?Q = "queued (announcementQueue m)" and ?it = "startMatching common ids (announcementQueue m)"
  let ?ex = "exists_preferred off ?it (announcementQueue m)"
  have m: "m = m\<lparr>announcementQueue := announcementQueue m, announcementQueueEntryCountByIP := announcementQueueEntryCountByIP m\<rparr>"
    by simp
  then have start: "announcements_shrunk m env m" using ok unfolding announcements_shrunk_def by blast
  have within: "it_within ?Q ?it" by (rule startMatching_within) simp
  have sub: "queued (announcementQueue x) \<subseteq> ?Q" if "announcements_shrunk m env x" for x
    using that by (simp add: announcements_shrunk_def)
  note gen = match_loop_general [where P = "announcements_shrunk m env" and Q = ?Q and env = env,
      OF announcements_shrunk_step [OF ok] sub start within, of off common ?ex "- 1" no_match]
  show shr: "announcements_shrunk m env (snd (matchOffer env off m))"
    using gen start by (simp add: matchOffer_def oc Let_def)
  assume a: "bestMatch (fst (matchOffer env off m)) = Some a"
  then have "bestMatch (fst (match_loop env off common ?ex (- 1) no_match ?it m)) = Some a"
    by (auto simp: matchOffer_def oc Let_def no_match_def split: if_splits)
  with gen have "a \<in> ?Q" "\<not> announce_done env (ae_ref a)" by (auto simp: no_match_def)
  then show "a \<in> queued (announcementQueue (snd (matchOffer env off m)))"
    using shr by (auto simp: announcements_shrunk_def)
qed

text \<open>
  The effect of one iteration of the matching pass on a queued offer: it does not block, it keeps
  the invariants, and the other offers stay queued.
\<close>

definition matcher_ok :: "'rl matcher \<Rightarrow> bool" where
  "matcher_ok m \<longleftrightarrow> announcements_ok m \<and> offers_ok m \<and> channels_ok m"

definition pass_effect :: "'rl matcher \<Rightarrow> offer_entry \<Rightarrow> 'rl matcher \<Rightarrow> bool" where
  "pass_effect m e m' \<longleftrightarrow> matcher_ok m' \<and> matchSignal m' = matchSignal m \<and>
     queued (announcementQueue m') \<subseteq> queued (announcementQueue m) \<and>
     set (offerQueue m) - {e} \<subseteq> set (offerQueue m') \<and> set (offerQueue m') \<subseteq> set (offerQueue m) \<and>
     (\<forall>k pa. stored (pendingAnswers m') k = Some pa \<longrightarrow>
        stored (pendingAnswers m) k = Some pa \<or> pa_offer pa = oe_ref e)"

lemma commit_match_effect:
  assumes ok: "matcher_ok m" and e: "e \<in> set (offerQueue m)" and a: "a \<in> queued (announcementQueue m)"
  shows "\<exists>m'. commit_match env e i b a m = Inr m' \<and> pass_effect m e m'"
proof -
  define m1 where "m1 = m\<lparr>offerMetrics := (offerMetrics m)(oe_ref e \<mapsto> offer_metrics env e i b m),
      announcementMetrics := (announcementMetrics m)(ae_ref a \<mapsto> offer_metrics env e i b m)\<rparr>"
  have m1: "announcements_ok m1" "offers_ok m1" "a \<in> queued (announcementQueue m1)"
    using ok a by (simp_all add: m1_def matcher_ok_def announcements_ok_def offers_ok_def)
  define m2 where "m2 = snd (dequeue_announcement a m1)"
  note d = dequeue_announcement_ok [OF m1(1) disjI1 [OF m1(3)], folded m2_def]
  obtain q c where m2: "m2 = m1\<lparr>announcementQueue := q, announcementQueueEntryCountByIP := c\<rparr>" using d(3) by blast
  define cache where "cache = cache_Set (now env) (announcement_key (announcement a))
      \<lparr>pa_announcement = announcement a, pa_offer = oe_ref e\<rparr>
      (case oe_deadline e of None \<Rightarrow> 0 | Some d \<Rightarrow> d - now env) (pendingAnswers m2)"
  define m3 where "m3 = m2\<lparr>pendingAnswers := cache\<rparr>"
  have st: "stored cache = (stored (pendingAnswers m))(announcement_key (announcement a) \<mapsto>
      \<lparr>pa_announcement = announcement a, pa_offer = oe_ref e\<rparr>)"
    by (simp add: cache_def lru.put_content m2 m1_def)
  have ch: "offerChans m3 (ae_ref a) = make_chan 1"
    using ok a by (simp add: m3_def m2 m1_def matcher_ok_def channels_ok_def)
  define m4 where "m4 = m3\<lparr>offerChans := (offerChans m3)(ae_ref a := (make_chan 1)\<lparr>chan_queue := [offer e]\<rparr>)\<rparr>"
  have snd: "send_offer (offer e) (ae_ref a) m3 = Inr m4"
    using send_room [OF make_chan_room, of "offer e"] ch by (simp add: send_offer_def m4_def make_chan_def)
  define m5 where "m5 = removeOfferEntry e m4"
  have com: "commit_match env e i b a m = Inr m5"
    unfolding commit_match_def Let_def m1_def [symmetric] m2_def [symmetric] cache_def [symmetric] m3_def [symmetric]
    using snd by (simp add: m5_def)
  have off4: "offers_ok m4" "offerQueue m4 = offerQueue m" "offerRefs m4 = offerRefs m"
    using m1(2) by (simp_all add: m4_def m3_def m2 m1_def offers_ok_def)
  have "oe_ref e \<in> offerRefs m4 \<longrightarrow> e \<in> set (offerQueue m4)" using off4 e by simp
  note r = removeOfferEntry_ok [OF off4(1) this, folded m5_def]
  have q5: "announcementQueue m5 = q" "announcementQueueEntryCountByIP m5 = c" "pendingAnswers m5 = cache"
      "matchSignal m5 = matchSignal m" "answerChans m5 = answerChans m"
      "offerChans m5 = (offerChans m)(ae_ref a := (make_chan 1)\<lparr>chan_queue := [offer e]\<rparr>)"
    by (simp_all add: m5_def m4_def m3_def m2 m1_def)
  have qd: "queued q = queued (announcementQueue m) - {a}" using d(2) by (simp add: m2 m1_def)
  have ann: "announcements_ok m5" using d(1) by (simp add: announcements_ok_def q5 m2)
  have inv: "queue_inv (announcementQueue m)" using ok by (simp add: matcher_ok_def announcements_ok_def)
  have other: "ae_ref x \<noteq> ae_ref a" if "x \<in> queued q" for x
    using inj_onD [OF queued_iff_ref(2) [OF inv]] that qd a by blast
  have "channels_ok m5"
    using ok other qd r(3) st by (auto simp: channels_ok_def matcher_ok_def q5 off4(3))
  then have "pass_effect m e m5"
    using ann r qd off4 st by (auto simp: pass_effect_def matcher_ok_def q5)
  with com show ?thesis by blast
qed

lemma removeOfferEntry_effect:
  assumes ok: "matcher_ok m" and e: "e \<in> set (offerQueue m)"
  shows "pass_effect m e (removeOfferEntry e m)"
proof -
  have "offers_ok m" "oe_ref e \<in> offerRefs m \<longrightarrow> e \<in> set (offerQueue m)" using ok e by (simp_all add: matcher_ok_def)
  note r = removeOfferEntry_ok [OF this]
  have "announcements_ok (removeOfferEntry e m)" using ok by (simp add: matcher_ok_def announcements_ok_def)
  moreover have "channels_ok (removeOfferEntry e m)" using ok r by (auto simp: matcher_ok_def channels_ok_def)
  ultimately show ?thesis using r by (auto simp: pass_effect_def matcher_ok_def)
qed

lemma match_one_effect:
  assumes ok: "matcher_ok m" and e: "e \<in> set (offerQueue m)"
  shows "\<exists>m'. match_one env e i m = Inr m' \<and> pass_effect m e m'"
proof -
  note rem = removeOfferEntry_effect [OF ok e]
  have off: "offers_ok m" "oe_ref e \<in> offerRefs m" using ok e by (auto simp: matcher_ok_def offers_ok_def)
  consider (expired) "offer_done env (oe_ref e)"
    | (drop) "\<not> offer_done env (oe_ref e)" "offerMinimumDeadline m > 0 \<and>
        (case oe_deadline e of None \<Rightarrow> 0 | Some d \<Rightarrow> d) - now env < offerMinimumDeadline m"
    | (search) "\<not> offer_done env (oe_ref e)" "\<not> (offerMinimumDeadline m > 0 \<and>
        (case oe_deadline e of None \<Rightarrow> 0 | Some d \<Rightarrow> d) - now env < offerMinimumDeadline m)" by blast
  then show ?thesis
  proof cases
    case expired
    then show ?thesis using rem by (simp add: match_one_def)
  next
    case drop
    let ?m1 = "removeOfferEntry e m"
    let ?m2 = "?m1\<lparr>answerChans := (answerChans m)(oe_ref e :=
        fresh_answer_chan\<lparr>ac_chan := (make_chan 1)\<lparr>chan_queue := [OfferDropped]\<rparr>\<rparr>)\<rparr>"
    have "answerChans m (oe_ref e) = fresh_answer_chan" using ok off(2) by (simp add: matcher_ok_def channels_ok_def)
    then have "send_answer OfferDropped (oe_ref e) ?m1 = Inr ?m2"
      using send_room [OF make_chan_room, of OfferDropped] by (simp add: send_answer_def make_chan_def)
    then have one: "match_one env e i m = Inr ?m2" using drop by (simp add: match_one_def)
    have "oe_ref e \<notin> offerRefs ?m1"
      using removeOfferEntry_ok(3) [OF off(1)] e by simp
    then have "channels_ok ?m2" using rem by (auto simp: pass_effect_def matcher_ok_def channels_ok_def)
    then have "pass_effect m e ?m2" using rem by (simp add: pass_effect_def matcher_ok_def)
    with one show ?thesis by blast
  next
    case search
    obtain b m1 where m1: "matchOffer env (offer e) m = (b, m1)" by (cases "matchOffer env (offer e) m")
    have ann: "announcements_ok m" using ok by (simp add: matcher_ok_def)
    note eff = matchOffer_effect [OF ann, of env "offer e", unfolded m1 fst_conv snd_conv]
    obtain q c where q: "m1 = m\<lparr>announcementQueue := q, announcementQueueEntryCountByIP := c\<rparr>"
      using eff(1) by (auto simp: announcements_shrunk_def)
    have sub: "queued q \<subseteq> queued (announcementQueue m)" using eff(1) by (simp add: announcements_shrunk_def q)
    have ok1: "matcher_ok m1"
    proof -
      have "channels_ok m1" using ok sub by (auto simp: matcher_ok_def channels_ok_def q)
      moreover have "announcements_ok m1" using eff(1) by (simp add: announcements_shrunk_def)
      ultimately show ?thesis using ok by (simp add: matcher_ok_def q)
    qed
    have one: "match_one env e i m = (case bestMatch b of None \<Rightarrow> Inr m1 | Some a \<Rightarrow> commit_match env e i b a m1)"
      using search m1 by (auto simp: match_one_def Let_def)
    show ?thesis
    proof (cases "bestMatch b")
      case None
      then show ?thesis using one ok1 sub by (auto simp: pass_effect_def q)
    next
      case (Some a)
      have "e \<in> set (offerQueue m1)" using e by (simp add: q)
      from commit_match_effect [OF ok1 this eff(2) [OF Some], of env i b]
      obtain m' where "commit_match env e i b a m1 = Inr m'" "pass_effect m1 e m'" by blast
      then show ?thesis using one Some sub by (auto simp: pass_effect_def q)
    qed
  qed
qed

lemma applyIPLimits_frame:
  assumes "applyIPLimits nl al t isAnn exempt ip m = (err, m')"
  shows "\<exists>l l'. m' = m\<lparr>announcementQueueRateLimiters := l, offerQueueRateLimiters := l'\<rparr>"
proof -
  have "m' = m \<or> (\<exists>l. m' = m\<lparr>announcementQueueRateLimiters := l\<rparr>) \<or> (\<exists>l. m' = m\<lparr>offerQueueRateLimiters := l\<rparr>)"
    using assms by (auto simp: applyIPLimits_def Let_def split: prod.splits if_splits)
  moreover have "m\<lparr>announcementQueueRateLimiters := l\<rparr> =
      m\<lparr>announcementQueueRateLimiters := l, offerQueueRateLimiters := offerQueueRateLimiters m\<rparr>"
    "m\<lparr>offerQueueRateLimiters := l\<rparr> =
      m\<lparr>announcementQueueRateLimiters := announcementQueueRateLimiters m, offerQueueRateLimiters := l\<rparr>"
    "m = m\<lparr>announcementQueueRateLimiters := announcementQueueRateLimiters m, offerQueueRateLimiters := offerQueueRateLimiters m\<rparr>"
    for l by simp_all
  ultimately show ?thesis by blast
qed

text \<open>Adding an announcement: refused with the queues unchanged, or appended to the queue of its compartment.\<close>

lemma addAnnouncementEntry_cases:
  assumes "addAnnouncementEntry nl al t e m = (err, e', m')"
  obtains (refused) l l' where "err \<noteq> None" "ae_ref e' = ae_ref e"
      "m' = m\<lparr>announcementQueueRateLimiters := l, offerQueueRateLimiters := l'\<rparr>"
  | (added) ki l l' where "err = None" "ae_ref e' = ae_ref e" "queue_key_of (properties e') = Inr ki"
      "getLen (announcementQueue m) < matcherAnnouncementQueueMaxSize" "mq_refs (announcementQueue m) (ae_ref e) = None"
      "m' = signal_match (m\<lparr>announcementQueueRateLimiters := l, offerQueueRateLimiters := l',
         announcementQueue := push_entry ki e' (announcementQueue m),
         announcementQueueEntryCountByIP := count_add (limitIP e') (announcementQueueEntryCountByIP m)\<rparr>)"
proof -
  have id: "m = m\<lparr>announcementQueueRateLimiters := announcementQueueRateLimiters m,
      offerQueueRateLimiters := offerQueueRateLimiters m\<rparr>" by simp
  show thesis
  proof (cases "getLen (announcementQueue m) \<ge> matcherAnnouncementQueueMaxSize")
    case True
    then have "err \<noteq> None" "ae_ref e' = ae_ref e" "m' = m" using assms by (auto simp: addAnnouncementEntry_def)
    then show thesis using refused id by metis
  next
    case False
    define ex where "ex = (StringLookup_Contains (announcementExemptSponsorIDs m) (SponsorID (announcement e)) \<or>
        ProxyID (announcement e) \<in> announcementExemptProxyIDs m)"
    define e1 where "e1 = (if ex then e\<lparr>limitIP := limitIP e @ ''-exempt''\<rparr> else e)"
    have r1: "ae_ref e1 = ae_ref e" by (simp add: e1_def)
    obtain er m1 where lim: "applyIPLimits nl al t True ex (limitIP e1) m = (er, m1)"
      by (cases "applyIPLimits nl al t True ex (limitIP e1) m")
    obtain l l' where m1: "m1 = m\<lparr>announcementQueueRateLimiters := l, offerQueueRateLimiters := l'\<rparr>"
      using applyIPLimits_frame [OF lim] by blast
    note unf = addAnnouncementEntry_def [of nl al t e m, unfolded Let_def, folded ex_def, folded e1_def]
    show thesis
    proof (cases er)
      case (Some x)
      then show thesis using assms False lim m1 r1 refused [of l' l] by (auto simp: unf)
    next
      case None
      show thesis
      proof (cases "mq_refs (announcementQueue m) (ae_ref e1) \<noteq> None")
        case True
        then show thesis using assms False lim m1 r1 refused [of l' l] None by (auto simp: unf)
      next
        case nref: False
        show thesis
        proof (cases "queue_key_of (properties e1)")
          case (Inl x)
          then show thesis using assms False lim m1 r1 refused [of l' l] None nref by (auto simp: unf enqueue_def)
        next
          case (Inr ki)
          then have "err = None" "e' = e1" "m' = signal_match (m1\<lparr>announcementQueue := push_entry ki e1 (announcementQueue m),
              announcementQueueEntryCountByIP := count_add (limitIP e1) (announcementQueueEntryCountByIP m)\<rparr>)"
            using assms False lim m1 None nref by (auto simp: unf enqueue_def)
          then show thesis using added [of ki l' l] Inr False nref r1 m1 by (simp del: not_None_eq)
        qed
      qed
    qed
  qed
qed

lemma addOfferEntry_cases:
  assumes "addOfferEntry nl al t e m = (err, m')"
  obtains (refused) l l' where "err \<noteq> None"
      "m' = m\<lparr>announcementQueueRateLimiters := l, offerQueueRateLimiters := l'\<rparr>"
  | (added) l l' where "err = None" "int (length (offerQueue m)) < matcherOfferQueueMaxSize" "oe_ref e \<notin> offerRefs m"
      "m' = signal_match (m\<lparr>announcementQueueRateLimiters := l, offerQueueRateLimiters := l',
         offerQueue := offerQueue m @ [e], offerQueueLen := offerQueueLen m + 1,
         offerRefs := insert (oe_ref e) (offerRefs m),
         offerQueueEntryCountByIP := count_add (oe_limitIP e) (offerQueueEntryCountByIP m)\<rparr>)"
proof -
  have id: "m = m\<lparr>announcementQueueRateLimiters := announcementQueueRateLimiters m,
      offerQueueRateLimiters := offerQueueRateLimiters m\<rparr>" by simp
  show thesis
  proof (cases "int (length (offerQueue m)) \<ge> matcherOfferQueueMaxSize")
    case True
    then have "err \<noteq> None" "m' = m" using assms by (auto simp: addOfferEntry_def)
    then show thesis using refused id by metis
  next
    case False
    obtain er m1 where lim: "applyIPLimits nl al t False False (oe_limitIP e) m = (er, m1)"
      by (cases "applyIPLimits nl al t False False (oe_limitIP e) m")
    obtain l l' where m1: "m1 = m\<lparr>announcementQueueRateLimiters := l, offerQueueRateLimiters := l'\<rparr>"
      using applyIPLimits_frame [OF lim] by blast
    show thesis
    proof (cases er)
      case (Some x)
      then show thesis using assms False lim m1 refused [of l' l] by (auto simp: addOfferEntry_def)
    next
      case None
      show thesis
      proof (cases "oe_ref e \<in> offerRefs m")
        case True
        then show thesis using assms False lim m1 refused [of l' l] None by (auto simp: addOfferEntry_def)
      next
        case nref: False
        then have "err = None" "m' = signal_match (m1\<lparr>offerQueue := offerQueue m @ [e], offerQueueLen := offerQueueLen m + 1,
             offerRefs := insert (oe_ref e) (offerRefs m),
             offerQueueEntryCountByIP := count_add (oe_limitIP e) (offerQueueEntryCountByIP m)\<rparr>)"
          using assms False lim m1 None by (auto simp: addOfferEntry_def)
        then show thesis using added [of l' l] False nref m1 by simp
      qed
    qed
  qed
qed

end
