(* ===== verification/MatcherRun.thy ===== *)
theory MatcherRun
  imports MatcherSystem
begin

text \<open>
  The matcher as a concurrent system: calls of \<open>Announce\<close>, \<open>Offer\<close>, \<open>Answer\<close> and \<open>AnswerError\<close>, the
  aborts and returns of waiting calls, the worker's matching pass one offer at a time, and the
  expiry of pending answers are steps; the locks of the two queues are the guards of the steps.
  The theory proves the invariant of the reachable states, that a matching pass never blocks on a
  channel, and shows the races of the answer calls.
\<close>

section \<open>The system\<close>

text \<open>
  \<open>announcing\<close> and \<open>offering\<close> are the calls that wait, \<open>answering\<close> and \<open>failing\<close> the calls of
  \<open>Answer\<close> and \<open>AnswerError\<close> that have looked up a pending answer and not yet used it, \<open>pass\<close> the
  offers that the running pass has not visited and the index of the last one it has.
\<close>

record 'rl system =
  mat :: "'rl matcher"
  announcing :: "nat \<Rightarrow> announcement_entry option"
  offering :: "nat \<Rightarrow> offer_entry option"
  answering :: "(match_answer \<times> pending_answer) list"
  failing :: "(ID \<times> ID \<times> pending_answer) list"
  pass :: "(offer_entry list \<times> int) option"
  known_announcements :: "nat set"
  known_offers :: "nat set"

definition init_system :: "'rl matcher \<Rightarrow> 'rl system" where
  "init_system m = \<lparr>mat = m, announcing = (\<lambda>r. None), offering = (\<lambda>r. None), answering = [], failing = [],
    pass = None, known_announcements = {}, known_offers = {}\<rparr>"

text \<open>The pass holds the lock of the announcements except where it yields, before every 32nd offer.\<close>

definition announcement_lock_free :: "'rl system \<Rightarrow> bool" where
  "announcement_lock_free s = (case pass s of None \<Rightarrow> True | Some (es, i) \<Rightarrow> i + 1 > 0 \<and> (i + 1) mod 32 = 0)"

inductive matcher_step :: "(int \<Rightarrow> int \<Rightarrow> 'rl) \<Rightarrow> ('rl \<Rightarrow> bool \<times> 'rl) \<Rightarrow> 'rl system \<Rightarrow> 'rl system \<Rightarrow> bool"
  for nl :: "int \<Rightarrow> int \<Rightarrow> 'rl" and al :: "'rl \<Rightarrow> bool \<times> 'rl" where
  announce: "announcement_lock_free s \<Longrightarrow> ae_ref e \<notin> known_announcements s \<Longrightarrow>
    Announce nl al env e (mat s) = (err, e', m') \<Longrightarrow>
    matcher_step nl al s (s\<lparr>mat := m', known_announcements := insert (ae_ref e) (known_announcements s),
      announcing := (announcing s)(ae_ref e := if err = None then Some e' else None)\<rparr>)"
| announce_abort: "announcement_lock_free s \<Longrightarrow> announcing s r = Some e \<Longrightarrow>
    removeAnnouncementEntry t True e (mat s) = Inr m' \<Longrightarrow>
    matcher_step nl al s (s\<lparr>mat := m', announcing := (announcing s)(r := None)\<rparr>)"
| announce_return: "announcing s r = Some e \<Longrightarrow> try_recv (offerChans (mat s) r) = (Some off, c) \<Longrightarrow>
    matcher_step nl al s (s\<lparr>mat := (mat s)\<lparr>offerChans := (offerChans (mat s))(r := c)\<rparr>,
      announcing := (announcing s)(r := None)\<rparr>)"
| offer: "pass s = None \<Longrightarrow> oe_ref e \<notin> known_offers s \<Longrightarrow> Offer nl al env e (mat s) = (err, m') \<Longrightarrow>
    matcher_step nl al s (s\<lparr>mat := m', known_offers := insert (oe_ref e) (known_offers s),
      offering := (offering s)(oe_ref e := if err = None then Some e else None)\<rparr>)"
| offer_abort: "pass s = None \<Longrightarrow> offering s r = Some e \<Longrightarrow>
    matcher_step nl al s (s\<lparr>mat := removeOfferEntry e (mat s), offering := (offering s)(r := None)\<rparr>)"
| offer_return: "offering s r = Some e \<Longrightarrow> await_answer r (mat s) \<noteq> StillWaiting \<Longrightarrow>
    matcher_step nl al s (s\<lparr>mat := (mat s)\<lparr>answerChans := (answerChans (mat s))(r := (answerChans (mat s) r)
        \<lparr>ac_chan := snd (try_recv (ac_chan (answerChans (mat s) r)))\<rparr>)\<rparr>,
      offering := (offering s)(r := None)\<rparr>)"
| begin_pass: "pass s = None \<Longrightarrow> try_recv (matchSignal (mat s)) = (Some (), c) \<Longrightarrow>
    matcher_step nl al s (s\<lparr>mat := (mat s)\<lparr>matchSignal := c\<rparr>, pass := Some (offerQueue (mat s), - 1)\<rparr>)"
| pass_offer: "pass s = Some (e # es, i) \<Longrightarrow>
    getLen (announcementQueue (mat s)) > 0 \<or> announcement_lock_free s \<Longrightarrow>
    match_one env e (i + 1) (mat s) = Inr m' \<Longrightarrow>
    matcher_step nl al s (s\<lparr>mat := m', pass := Some (es, i + 1)\<rparr>)"
| end_pass: "pass s = Some (es, i) \<Longrightarrow> es = [] \<or> \<not> getLen (announcementQueue (mat s)) > 0 \<Longrightarrow>
    matcher_step nl al s (s\<lparr>pass := None\<rparr>)"
| answer_lookup: "pending_lookup t (an_ProxyID ans) (an_ConnectionID ans) (mat s) = (pending, m') \<Longrightarrow>
    matcher_step nl al s (s\<lparr>mat := m',
      answering := (case pending of None \<Rightarrow> answering s | Some pa \<Rightarrow> (ans, pa) # answering s)\<rparr>)"
| answer_deliver: "(ans, pa) \<in> set (answering s) \<Longrightarrow>
    answer_deliver ans pa (pending_delete (an_ProxyID ans) (an_ConnectionID ans) (mat s)) = Inr m' \<Longrightarrow>
    matcher_step nl al s (s\<lparr>mat := m', answering := remove1 (ans, pa) (answering s)\<rparr>)"
| failure_lookup: "pending_lookup t p c (mat s) = (pending, m') \<Longrightarrow>
    matcher_step nl al s (s\<lparr>mat := m',
      failing := (case pending of None \<Rightarrow> failing s | Some pa \<Rightarrow> (p, c, pa) # failing s)\<rparr>)"
| failure_deliver: "(p, c, pa) \<in> set (failing s) \<Longrightarrow>
    close_answer (pa_offer pa) (pending_delete p c (mat s)) = Inr m' \<Longrightarrow>
    matcher_step nl al s (s\<lparr>mat := m', failing := remove1 (p, c, pa) (failing s)\<rparr>)"
| expire: "matcher_step nl al s (s\<lparr>mat := (mat s)\<lparr>pendingAnswers := evict ks (DeleteExpired t (pendingAnswers (mat s)))\<rparr>\<rparr>)"
| set_limits: "matcher_step nl al s (s\<lparr>mat := SetLimits ac aq ai ps ss oc oq oi omd (mat s)\<rparr>)"

inductive matcher_reachable :: "(int \<Rightarrow> int \<Rightarrow> 'rl) \<Rightarrow> ('rl \<Rightarrow> bool \<times> 'rl) \<Rightarrow> 'rl system \<Rightarrow> bool"
  for nl :: "int \<Rightarrow> int \<Rightarrow> 'rl" and al :: "'rl \<Rightarrow> bool \<times> 'rl" where
  start: "matcher_reachable nl al (init_system (NewMatcher ac aq ai ps ss oc oq oi omd))"
| step: "matcher_reachable nl al s \<Longrightarrow> matcher_step nl al s s' \<Longrightarrow> matcher_reachable nl al s'"

section \<open>The invariant\<close>

text \<open>The offers that may still get an answer: those of pending answers and of calls that have looked one up.\<close>

definition answerable :: "'rl system \<Rightarrow> nat set" where
  "answerable s = {pa_offer pa |pa. \<exists>k. stored (pendingAnswers (mat s)) k = Some pa} \<union>
     {pa_offer (snd x) |x. x \<in> set (answering s)} \<union> {pa_offer (snd (snd x)) |x. x \<in> set (failing s)}"

definition calls_ok :: "'rl system \<Rightarrow> bool" where
  "calls_ok s \<longleftrightarrow>
     (\<forall>r e. announcing s r = Some e \<longrightarrow> ae_ref e = r \<and> r \<in> known_announcements s \<and>
       (mq_refs (announcementQueue (mat s)) r = None \<or> e \<in> queued (announcementQueue (mat s)))) \<and>
     (\<forall>r e. offering s r = Some e \<longrightarrow> oe_ref e = r \<and> (r \<in> offerRefs (mat s) \<longrightarrow> e \<in> set (offerQueue (mat s)))) \<and>
     (case pass s of None \<Rightarrow> True | Some (es, i) \<Rightarrow> set es \<subseteq> set (offerQueue (mat s)) \<and> distinct es)"

definition system_inv :: "'rl system \<Rightarrow> bool" where
  "system_inv s \<longleftrightarrow> matcher_ok (mat s) \<and> chan_ok (matchSignal (mat s)) \<and>
     ae_ref ` queued (announcementQueue (mat s)) \<subseteq> known_announcements s \<and>
     offerRefs (mat s) \<union> answerable s \<subseteq> known_offers s \<and> offerRefs (mat s) \<inter> answerable s = {} \<and> calls_ok s"


section \<open>Frames\<close>

lemma matcher_ok_answer:
  "matcher_ok m \<Longrightarrow> r \<notin> offerRefs m \<Longrightarrow> matcher_ok (m\<lparr>answerChans := (answerChans m)(r := x)\<rparr>)"
  by (auto simp: matcher_ok_def channels_ok_def)

lemma matcher_ok_pending:
  assumes "matcher_ok m" "\<And>k pa. stored c k = Some pa \<Longrightarrow> stored (pendingAnswers m) k = Some pa"
  shows "matcher_ok (m\<lparr>pendingAnswers := c\<rparr>)"
proof -
  have "channels_ok (m\<lparr>pendingAnswers := c\<rparr>)"
    using assms(1) assms(2) unfolding matcher_ok_def channels_ok_def by auto blast
  with assms(1) show ?thesis by (simp add: matcher_ok_def)
qed

lemma matcher_ok_offer_chan:
  assumes "matcher_ok m" "r \<notin> ae_ref ` queued (announcementQueue m)"
  shows "matcher_ok (m\<lparr>offerChans := (offerChans m)(r := x)\<rparr>)"
proof -
  have "channels_ok (m\<lparr>offerChans := (offerChans m)(r := x)\<rparr>)"
    using assms by (auto simp: matcher_ok_def channels_ok_def)
  with assms(1) show ?thesis by (simp add: matcher_ok_def)
qed

lemma matcher_ok_signal: "matcher_ok (m\<lparr>matchSignal := c\<rparr>) = matcher_ok m"
  by (simp add: matcher_ok_def channels_ok_def)

lemma matcher_ok_limiters:
  "matcher_ok (m\<lparr>announcementQueueRateLimiters := l, offerQueueRateLimiters := l'\<rparr>) = matcher_ok m"
  by (simp add: matcher_ok_def channels_ok_def)

lemma matcher_ok_SetLimits: "matcher_ok (SetLimits ac aq ai ps ss oc oq oi omd m) = matcher_ok m"
  by (simp add: SetLimits_def matcher_ok_def channels_ok_def announcements_ok_def offers_ok_def Let_def split: prod.split)

lemma SetLimits_frame [simp]:
  "announcementQueue (SetLimits ac aq ai ps ss oc oq oi omd m) = announcementQueue m"
  "offerQueue (SetLimits ac aq ai ps ss oc oq oi omd m) = offerQueue m"
  "offerRefs (SetLimits ac aq ai ps ss oc oq oi omd m) = offerRefs m"
  "pendingAnswers (SetLimits ac aq ai ps ss oc oq oi omd m) = pendingAnswers m"
  "matchSignal (SetLimits ac aq ai ps ss oc oq oi omd m) = matchSignal m"
  by (simp_all add: SetLimits_def Let_def split: prod.split)

lemma signal_match_frame [simp]:
  "announcementQueue (signal_match m) = announcementQueue m"
  "offerQueue (signal_match m) = offerQueue m"
  "offerRefs (signal_match m) = offerRefs m"
  "pendingAnswers (signal_match m) = pendingAnswers m"
  "offerChans (signal_match m) = offerChans m"
  "answerChans (signal_match m) = answerChans m"
  by (simp_all add: signal_match_def)

lemma signal_match_ok: "chan_ok (matchSignal m) \<Longrightarrow> chan_ok (matchSignal (signal_match m))"
  by (auto simp: signal_match_def chan_ok_def try_send_def)

lemma pending_lookup_frame:
  assumes "pending_lookup t p c m = (pending, m')"
  shows "\<exists>cache. m' = m\<lparr>pendingAnswers := cache\<rparr> \<and> stored cache = stored (pendingAnswers m)"
    "pending = Some pa \<Longrightarrow> stored (pendingAnswers m) (pendingAnswerKey p c) = Some pa"
proof -
  obtain cache where g: "cache_Get t (pendingAnswerKey p c) (pendingAnswers m) = (pending, cache)"
      "m' = m\<lparr>pendingAnswers := cache\<rparr>"
    using assms by (auto simp: pending_lookup_def split: prod.splits)
  then show "\<exists>cache. m' = m\<lparr>pendingAnswers := cache\<rparr> \<and> stored cache = stored (pendingAnswers m)"
    using lru.get_content [OF g(1)] by auto
  assume "pending = Some pa"
  with g(1) show "stored (pendingAnswers m) (pendingAnswerKey p c) = Some pa" using lru.get_sound by simp
qed

lemma close_answer_ok:
  assumes "close_answer r m = Inr m'"
  shows "\<exists>x. m' = m\<lparr>answerChans := (answerChans m)(r := x)\<rparr>"
  using assms by (auto simp: close_answer_def split: if_splits)

lemma send_answer_ok:
  assumes "send_answer v r m = Inr m'"
  shows "\<exists>x. m' = m\<lparr>answerChans := (answerChans m)(r := x)\<rparr>"
  using assms by (auto simp: send_answer_def split: if_splits option.splits)

section \<open>Effects on the system\<close>

text \<open>A step that adds no entry: the queues shrink, the answerable offers do not grow.\<close>

lemma queued_or_dequeued:
  assumes "queue_inv q" "queue_inv q'" "queued q' \<subseteq> queued q" "mq_refs q (ae_ref e) = None \<or> e \<in> queued q"
  shows "mq_refs q' (ae_ref e) = None \<or> e \<in> queued q'"
proof (cases "mq_refs q' (ae_ref e) = None")
  case False
  then have "ae_ref e \<in> ae_ref ` queued q'" using queued_iff_ref(1) [OF assms(2)] by auto
  then obtain x where x: "x \<in> queued q'" "ae_ref x = ae_ref e" by auto
  then have "e \<in> queued q" using assms(3,4) refs_None_not_queued [OF assms(1), of x] by auto
  then have "x = e" using inj_onD [OF queued_iff_ref(2) [OF assms(1)] x(2)] x(1) assms(3) by blast
  with x show ?thesis by simp
qed simp

lemma offer_unique:
  "offers_ok m \<Longrightarrow> x \<in> set (offerQueue m) \<Longrightarrow> y \<in> set (offerQueue m) \<Longrightarrow> oe_ref x = oe_ref y \<Longrightarrow> x = y"
  by (auto simp: offers_ok_def distinct_map dest: inj_onD)

lemma offerRefs_iff: "offers_ok m \<Longrightarrow> r \<in> offerRefs m \<longleftrightarrow> (\<exists>x\<in>set (offerQueue m). oe_ref x = r)"
  by (auto simp: offers_ok_def)

lemma offer_or_removed:
  assumes "offers_ok m" "offers_ok m'" "set (offerQueue m') \<subseteq> set (offerQueue m)"
    "oe_ref e \<in> offerRefs m \<longrightarrow> e \<in> set (offerQueue m)"
  shows "oe_ref e \<in> offerRefs m' \<longrightarrow> e \<in> set (offerQueue m')"
proof
  assume "oe_ref e \<in> offerRefs m'"
  then obtain x where x: "x \<in> set (offerQueue m')" "oe_ref x = oe_ref e" using offerRefs_iff [OF assms(2)] by auto
  then have xm: "x \<in> set (offerQueue m)" using assms(3) by auto
  then have "e \<in> set (offerQueue m)" using assms(4) x(2) offerRefs_iff [OF assms(1)] by auto
  then have "x = e" using offer_unique [OF assms(1) xm] x(2) by simp
  with x show "e \<in> set (offerQueue m')" by simp
qed

lemma announcing_facts:
  assumes "calls_ok s" "announcing s r = Some e"
  shows "ae_ref e = r" "r \<in> known_announcements s"
    "mq_refs (announcementQueue (mat s)) (ae_ref e) = None \<or> e \<in> queued (announcementQueue (mat s))"
proof -
  have "ae_ref e = r \<and> r \<in> known_announcements s \<and>
      (mq_refs (announcementQueue (mat s)) r = None \<or> e \<in> queued (announcementQueue (mat s)))"
    using assms unfolding calls_ok_def by blast
  then show "ae_ref e = r" "r \<in> known_announcements s"
    "mq_refs (announcementQueue (mat s)) (ae_ref e) = None \<or> e \<in> queued (announcementQueue (mat s))" by auto
qed

lemma offering_facts:
  assumes "calls_ok s" "offering s r = Some e"
  shows "oe_ref e = r" "oe_ref e \<in> offerRefs (mat s) \<longrightarrow> e \<in> set (offerQueue (mat s))"
proof -
  have "oe_ref e = r \<and> (r \<in> offerRefs (mat s) \<longrightarrow> e \<in> set (offerQueue (mat s)))"
    using assms unfolding calls_ok_def by blast
  then show "oe_ref e = r" "oe_ref e \<in> offerRefs (mat s) \<longrightarrow> e \<in> set (offerQueue (mat s))" by auto
qed

lemma system_inv_shrink:
  assumes inv: "system_inv s" and m: "matcher_ok m'" "chan_ok (matchSignal m')"
    and q: "queued (announcementQueue m') \<subseteq> queued (announcementQueue (mat s))"
    and o: "set (offerQueue m') \<subseteq> set (offerQueue (mat s))"
    and st: "mat s' = m'" "known_announcements s' = known_announcements s" "known_offers s' = known_offers s"
    and ans: "answerable s' \<subseteq> answerable s \<union> (offerRefs (mat s) - offerRefs m')"
    and calls: "\<And>r e. announcing s' r = Some e \<Longrightarrow> announcing s r = Some e"
      "\<And>r e. offering s' r = Some e \<Longrightarrow> offering s r = Some e"
    and pass: "case pass s' of None \<Rightarrow> True | Some (es, i) \<Rightarrow> set es \<subseteq> set (offerQueue m') \<and> distinct es"
  shows "system_inv s'"
proof -
  have ok: "matcher_ok (mat s)" "calls_ok s" using inv by (simp_all add: system_inv_def)
  have qi: "queue_inv (announcementQueue (mat s))" "queue_inv (announcementQueue m')"
    using ok m by (simp_all add: matcher_ok_def announcements_ok_def)
  have oi: "offers_ok (mat s)" "offers_ok m'" using ok m by (simp_all add: matcher_ok_def)
  have refs: "offerRefs m' \<subseteq> offerRefs (mat s)" using oi o by (auto simp: offers_ok_def)
  have "calls_ok s'"
    unfolding calls_ok_def st
  proof (intro conjI allI impI)
    fix r e assume "announcing s' r = Some e"
    then have a: "ae_ref e = r" "r \<in> known_announcements s"
        "mq_refs (announcementQueue (mat s)) (ae_ref e) = None \<or> e \<in> queued (announcementQueue (mat s))"
      using calls(1) announcing_facts [OF ok(2)] by blast+
    then show "ae_ref e = r" "r \<in> known_announcements s" by simp_all
    show "mq_refs (announcementQueue m') r = None \<or> e \<in> queued (announcementQueue m')"
      using queued_or_dequeued [OF qi q a(3)] a(1) by simp
  next
    fix r e assume "offering s' r = Some e"
    then have a: "oe_ref e = r" "oe_ref e \<in> offerRefs (mat s) \<longrightarrow> e \<in> set (offerQueue (mat s))"
      using calls(2) offering_facts [OF ok(2)] by blast+
    then show "oe_ref e = r" by simp
    assume "r \<in> offerRefs m'"
    then show "e \<in> set (offerQueue m')" using offer_or_removed [OF oi o a(2)] a(1) by simp
  qed (rule pass)
  moreover have "offerRefs m' \<inter> answerable s' = {}" "offerRefs m' \<union> answerable s' \<subseteq> known_offers s"
    using inv refs ans by (auto simp: system_inv_def)
  moreover have "ae_ref ` queued (announcementQueue m') \<subseteq> known_announcements s"
    using inv image_mono [OF q, of ae_ref] by (auto simp: system_inv_def)
  ultimately show ?thesis using m st by (simp add: system_inv_def)
qed

lemma Announce_effect:
  assumes ok: "matcher_ok m" "chan_ok (matchSignal m)" and fresh: "ae_ref e \<notin> ae_ref ` queued (announcementQueue m)"
    and res: "Announce nl al env e m = (err, e', m')"
  shows "ae_ref e' = ae_ref e \<and> matcher_ok m' \<and> chan_ok (matchSignal m') \<and> offerQueue m' = offerQueue m \<and>
    offerRefs m' = offerRefs m \<and> pendingAnswers m' = pendingAnswers m \<and>
    (if err = None then queued (announcementQueue m') = insert e' (queued (announcementQueue m)) \<and>
        mq_refs (announcementQueue m) (ae_ref e) = None
     else announcementQueue m' = announcementQueue m)"
proof (cases "announce_check (announcement e) = None \<and> applyLoadLimit env True m")
  case False
  have "err \<noteq> None \<and> e' = e \<and> m' = m"
  proof (cases "announce_check (announcement e)")
    case (Some x)
    then have "err = Some x \<and> e' = e \<and> m' = m" using res by (simp add: Announce_def)
    then show ?thesis by simp
  qed (use res False in \<open>auto simp: Announce_def\<close>)
  then show ?thesis using ok by auto
next
  case True
  let ?m0 = "m\<lparr>offerChans := (offerChans m)(ae_ref e := make_chan 1)\<rparr>"
  have m0: "matcher_ok ?m0" by (rule matcher_ok_offer_chan [OF ok(1) fresh])
  have "addAnnouncementEntry nl al (now env) e ?m0 = (err, e', m')" using res True by (simp add: Announce_def)
  then show ?thesis
  proof (cases rule: addAnnouncementEntry_cases)
    case (refused l l')
    then show ?thesis using m0 ok(2) by (auto simp: matcher_ok_limiters)
  next
    case (added ki l l')
    let ?q = "announcementQueue m"
    have inv: "queue_inv ?q" using ok by (simp add: matcher_ok_def announcements_ok_def)
    have ref: "mq_refs ?q (ae_ref e') = None" using added(2,5) by simp
    note out = refs_None_not_queued [OF inv ref]
    have push: "queue_inv (push_entry ki e' ?q)" by (rule push_entry_inv [OF inv ref added(3)])
    have q': "announcementQueue m' = push_entry ki e' ?q" by (simp add: added(6))
    have "counts_exact limitIP (insert e' (queued ?q)) (announcementQueueEntryCountByIP m')"
      using counts_exact_add [of limitIP "queued ?q" _ e'] ok out queued_card [OF inv]
      by (simp add: added(6) signal_match_def matcher_ok_def announcements_ok_def)
    moreover have "getLen (push_entry ki e' ?q) \<le> 5000000"
      using added(4) queued_card [OF inv] queued_card [OF push] out by (simp add: queued_push)
    ultimately have ann: "announcements_ok m'" using push by (simp add: announcements_ok_def q' queued_push)
    have off: "offers_ok m'" using ok by (simp add: added(6) signal_match_def matcher_ok_def)
    have "channels_ok m'"
      using m0 added(2) by (auto simp: matcher_ok_def channels_ok_def q' queued_push added(6))
    then have "matcher_ok m'" using ann off by (simp add: matcher_ok_def)
    moreover have "chan_ok (matchSignal m')"
      unfolding added(6) by (rule signal_match_ok) (use ok(2) in simp)
    ultimately show ?thesis using added q' by (simp add: queued_push)
  qed
qed

lemma Offer_effect:
  assumes ok: "matcher_ok m" "chan_ok (matchSignal m)" and fresh: "oe_ref e \<notin> offerRefs m"
    and unanswered: "\<forall>k pa. stored (pendingAnswers m) k = Some pa \<longrightarrow> pa_offer pa \<noteq> oe_ref e"
    and res: "Offer nl al env e m = (err, m')"
  shows "matcher_ok m' \<and> chan_ok (matchSignal m') \<and> announcementQueue m' = announcementQueue m \<and>
    pendingAnswers m' = pendingAnswers m \<and>
    (if err = None then set (offerQueue m') = insert e (set (offerQueue m)) \<and>
        offerRefs m' = insert (oe_ref e) (offerRefs m)
     else offerQueue m' = offerQueue m \<and> offerRefs m' = offerRefs m)"
proof (cases "offer_check (offer e) = None \<and> applyLoadLimit env False m")
  case False
  have "err \<noteq> None \<and> m' = m"
  proof (cases "offer_check (offer e)")
    case (Some x)
    then have "err = Some x \<and> m' = m" using res by (simp add: Offer_def)
    then show ?thesis by simp
  qed (use res False in \<open>auto simp: Offer_def\<close>)
  then show ?thesis using ok by auto
next
  case True
  let ?m0 = "m\<lparr>answerChans := (answerChans m)(oe_ref e := fresh_answer_chan)\<rparr>"
  have m0: "matcher_ok ?m0" by (rule matcher_ok_answer [OF ok(1) fresh])
  have "addOfferEntry nl al (now env) e ?m0 = (err, m')" using res True by (simp add: Offer_def)
  then show ?thesis
  proof (cases rule: addOfferEntry_cases)
    case (refused l l')
    then show ?thesis using m0 ok(2) by (auto simp: matcher_ok_limiters)
  next
    case (added l l')
    have oi: "offers_ok m" using ok by (simp add: matcher_ok_def)
    have out: "e \<notin> set (offerQueue m)" using fresh offerRefs_iff [OF oi] by auto
    have q': "offerQueue m' = offerQueue m @ [e]" "offerRefs m' = insert (oe_ref e) (offerRefs m)"
      by (simp_all add: added(4))
    have "counts_exact oe_limitIP (insert e (set (offerQueue m))) (offerQueueEntryCountByIP m')"
      using counts_exact_add [of oe_limitIP "set (offerQueue m)" _ e] oi out
      by (simp add: added(4) signal_match_def offers_ok_def)
    moreover have "oe_ref e \<notin> oe_ref ` set (offerQueue m)" using fresh oi by (simp add: offers_ok_def)
    ultimately have off: "offers_ok m'"
      using oi added(2) by (simp add: offers_ok_def q' added(4) signal_match_def)
    have ann: "announcements_ok m'" using ok by (simp add: added(4) signal_match_def matcher_ok_def announcements_ok_def)
    have "channels_ok m'"
      using m0 unanswered by (auto simp: matcher_ok_def channels_ok_def q' added(4))
    then have "matcher_ok m'" using ann off by (simp add: matcher_ok_def)
    moreover have "chan_ok (matchSignal m')"
      unfolding added(4) by (rule signal_match_ok) (use ok(2) in simp)
    ultimately show ?thesis using added q' by simp
  qed
qed

lemma removeAnnouncementEntry_effect:
  assumes ok: "matcher_ok m"
    and e: "mq_refs (announcementQueue m) (ae_ref e) = None \<or> e \<in> queued (announcementQueue m)"
    and res: "removeAnnouncementEntry t True e m = Inr m'"
  shows "matcher_ok m' \<and> matchSignal m' = matchSignal m \<and> offerQueue m' = offerQueue m \<and>
    queued (announcementQueue m') \<subseteq> queued (announcementQueue m) \<and>
    (\<forall>k pa. stored (pendingAnswers m') k = Some pa \<longrightarrow> stored (pendingAnswers m) k = Some pa)"
proof -
  obtain found m1 where d1: "dequeue_announcement e m = (found, m1)" by (cases "dequeue_announcement e m")
  have ann: "announcements_ok m" using ok by (simp add: matcher_ok_def)
  have e': "e \<in> queued (announcementQueue m) \<or> mq_refs (announcementQueue m) (ae_ref e) = None" using e by auto
  note d = dequeue_announcement_ok [OF ann e', unfolded d1 snd_conv]
  obtain q c where m1: "m1 = m\<lparr>announcementQueue := q, announcementQueueEntryCountByIP := c\<rparr>" using d(3) by blast
  have "channels_ok m1" using ok d(2) by (auto simp: matcher_ok_def channels_ok_def m1)
  then have ok1: "matcher_ok m1" using ok d(1) by (simp add: matcher_ok_def m1)
  show ?thesis
  proof (cases found)
    case True
    then have m': "m' = m1" using res d1 by (simp add: removeAnnouncementEntry_def)
    show ?thesis using ok1 d(2) unfolding m' by (simp add: m1)
  next
    case False
    obtain pending cache where g: "cache_Get t (announcement_key (announcement e)) (pendingAnswers m1) = (pending, cache)"
      by (cases "cache_Get t (announcement_key (announcement e)) (pendingAnswers m1)")
    let ?m2 = "m1\<lparr>pendingAnswers := cache\<rparr>"
    have st: "stored cache = stored (pendingAnswers m1)" using lru.get_content [OF g] .
    have ok2: "matcher_ok ?m2" by (rule matcher_ok_pending [OF ok1]) (simp add: st)
    show ?thesis
    proof (cases pending)
      case None
      then have m': "m' = ?m2" using res d1 False g by (simp add: removeAnnouncementEntry_def)
      show ?thesis using ok2 d(2) st unfolding m' by (simp add: m1)
    next
      case (Some pa)
      then obtain m3 where m3: "close_answer (pa_offer pa) ?m2 = Inr m3"
          "m' = m3\<lparr>pendingAnswers := cache_Delete (announcement_key (announcement e)) (pendingAnswers m3)\<rparr>"
        using res d1 False g by (auto simp: removeAnnouncementEntry_def)
      obtain x where x: "m3 = ?m2\<lparr>answerChans := (answerChans ?m2)(pa_offer pa := x)\<rparr>"
        using close_answer_ok [OF m3(1)] by blast
      have "stored (pendingAnswers m1) (announcement_key (announcement e)) = Some pa"
        using lru.get_sound [OF g [unfolded Some]] .
      then have "pa_offer pa \<notin> offerRefs ?m2" using ok1 by (auto simp: matcher_ok_def channels_ok_def)
      then have ok3: "matcher_ok m3" unfolding x by (rule matcher_ok_answer [OF ok2])
      have sub: "stored (cache_Delete (announcement_key (announcement e)) (pendingAnswers m3)) k = Some pa' \<Longrightarrow>
          stored (pendingAnswers m3) k = Some pa'" for k pa'
        by (auto simp: lru.del_content split: if_splits)
      have "matcher_ok m'" unfolding m3(2) by (rule matcher_ok_pending [OF ok3 sub])
      moreover have "stored (pendingAnswers m) k = Some pa'" if "stored (pendingAnswers m') k = Some pa'" for k pa'
        using that st by (auto simp: m3(2) x m1 lru.del_content split: if_splits)
      ultimately show ?thesis using d(2) by (auto simp: m3(2) x m1)
    qed
  qed
qed

section \<open>Every step keeps the invariant\<close>

lemma answerable_pending: "stored (pendingAnswers (mat s)) k = Some pa \<Longrightarrow> pa_offer pa \<in> answerable s"
  by (auto simp: answerable_def)

lemma answerable_frame [simp]:
  "answerable (s\<lparr>announcing := a\<rparr>) = answerable s"
  "answerable (s\<lparr>offering := b\<rparr>) = answerable s"
  "answerable (s\<lparr>pass := c\<rparr>) = answerable s"
  "answerable (s\<lparr>known_announcements := d\<rparr>) = answerable s"
  "answerable (s\<lparr>known_offers := f\<rparr>) = answerable s"
  by (simp_all add: answerable_def)

lemma answerable_subset:
  assumes "set (answering s') \<subseteq> set (answering s)" "set (failing s') \<subseteq> set (failing s)"
    and "\<And>k pa. stored (pendingAnswers (mat s')) k = Some pa \<Longrightarrow> pa_offer pa \<in> X" and "answerable s \<subseteq> X"
  shows "answerable s' \<subseteq> X"
proof
  fix r assume "r \<in> answerable s'"
  then consider k pa where "stored (pendingAnswers (mat s')) k = Some pa" "r = pa_offer pa"
    | "r \<in> {pa_offer (snd x) |x. x \<in> set (answering s')}"
    | "r \<in> {pa_offer (snd (snd x)) |x. x \<in> set (failing s')}"
    unfolding answerable_def by blast
  then show "r \<in> X"
  proof cases
    case 1
    then show ?thesis using assms(3) by simp
  next
    case 2
    then have "r \<in> answerable s" using assms(1) unfolding answerable_def by blast
    then show ?thesis using assms(4) by blast
  next
    case 3
    then have "r \<in> answerable s" using assms(2) unfolding answerable_def by blast
    then show ?thesis using assms(4) by blast
  qed
qed

lemma answerable_pendings:
  assumes "\<And>k pa. stored (pendingAnswers (mat s')) k = Some pa \<Longrightarrow> stored (pendingAnswers (mat s)) k = Some pa"
    and "set (answering s') \<subseteq> set (answering s)" "set (failing s') \<subseteq> set (failing s)"
  shows "answerable s' \<subseteq> answerable s \<union> X"
  by (rule answerable_subset [OF assms(2,3)]) (use assms(1) answerable_pending in blast)+

lemma answerable_looked_up:
  assumes "stored (pendingAnswers (mat s)) k = Some pa"
    and "mat s' = mat s" "set (answering s') \<subseteq> insert (a, pa) (set (answering s))"
      "set (failing s') \<subseteq> insert (p, c, pa) (set (failing s))"
  shows "answerable s' \<subseteq> answerable s"
proof
  fix r assume "r \<in> answerable s'"
  then consider k pa where "stored (pendingAnswers (mat s)) k = Some pa" "r = pa_offer pa"
    | x where "x \<in> insert (a, pa) (set (answering s))" "r = pa_offer (snd x)"
    | x where "x \<in> insert (p, c, pa) (set (failing s))" "r = pa_offer (snd (snd x))"
    using assms(2-4) unfolding answerable_def by fastforce
  then show "r \<in> answerable s"
  proof cases
    case (1 k pa)
    then show ?thesis using answerable_pending by simp
  next
    case (2 x)
    show ?thesis
    proof (cases "x = (a, pa)")
      case True
      then show ?thesis using 2 answerable_pending [OF assms(1)] by simp
    next
      case False
      then show ?thesis using 2 unfolding answerable_def by blast
    qed
  next
    case (3 x)
    show ?thesis
    proof (cases "x = (p, c, pa)")
      case True
      then show ?thesis using 3 answerable_pending [OF assms(1)] by simp
    next
      case False
      then show ?thesis using 3 unfolding answerable_def by blast
    qed
  qed
qed

lemma answerable_answering: "(ans, pa) \<in> set (answering s) \<Longrightarrow> pa_offer pa \<in> answerable s"
  unfolding answerable_def by force

lemma answerable_failing: "(p, c, pa) \<in> set (failing s) \<Longrightarrow> pa_offer pa \<in> answerable s"
  unfolding answerable_def by force

lemma answerable_remove:
  "answerable (s\<lparr>answering := remove1 a (answering s)\<rparr>) \<subseteq> answerable s"
  "answerable (s\<lparr>failing := remove1 f (failing s)\<rparr>) \<subseteq> answerable s"
  by (auto simp: answerable_def dest: set_remove1_subset [THEN subsetD])

lemma system_inv_init: "system_inv (init_system (NewMatcher ac aq ai ps ss oc oq oi omd))"
proof -
  let ?m = "NewMatcher ac aq ai ps ss oc oq oi omd"
  have f: "announcementQueue ?m = newAnnouncementMultiQueue" "offerQueue ?m = []" "offerRefs ?m = {}"
      "pendingAnswers ?m = NewWithLRU matcherPendingAnswersTTL matcherPendingAnswersMaxSize"
      "matchSignal ?m = make_chan 1"
    by (simp_all add: NewMatcher_def)
  have st: "stored (NewWithLRU d n) k = None" for d n and k :: bytes
    by (simp add: stored_def NewWithLRU_def)
  have "matcher_ok ?m"
    unfolding NewMatcher_def matcher_ok_SetLimits
    by (simp add: matcher_ok_def announcements_ok_def offers_ok_def channels_ok_def queue_inv_new counts_exact_empty
        getLen_def newAnnouncementMultiQueue_def stored_def NewWithLRU_def)
      (simp add: newAnnouncementMultiQueue_def [symmetric] queue_inv_new counts_exact_empty)
  then show ?thesis
    by (simp add: system_inv_def init_system_def f answerable_def calls_ok_def st chan_ok_def make_chan_def)
qed

lemma announce_step_inv:
  assumes inv: "system_inv s" and fresh: "ae_ref e \<notin> known_announcements s"
    and res: "Announce nl al env e (mat s) = (err, e', m')"
  shows "system_inv (s\<lparr>mat := m', known_announcements := insert (ae_ref e) (known_announcements s),
      announcing := (announcing s)(ae_ref e := if err = None then Some e' else None)\<rparr>)"
proof -
  let ?q = "announcementQueue (mat s)"
  have ok: "matcher_ok (mat s)" "chan_ok (matchSignal (mat s))" "calls_ok s"
      "ae_ref ` queued ?q \<subseteq> known_announcements s"
    using inv by (simp_all add: system_inv_def)
  have fr: "ae_ref e \<notin> ae_ref ` queued ?q" using fresh ok(4) by blast
  note eff = Announce_effect [OF ok(1,2) fr res]
  let ?s = "s\<lparr>mat := m', known_announcements := insert (ae_ref e) (known_announcements s),
      announcing := (announcing s)(ae_ref e := if err = None then Some e' else None)\<rparr>"
  have inv': "queue_inv (announcementQueue m')" "queue_inv ?q"
    using eff ok by (simp_all add: matcher_ok_def announcements_ok_def)
  have old: "mq_refs (announcementQueue m') (ae_ref x) = None \<or> x \<in> queued (announcementQueue m')"
    if x: "ae_ref x \<noteq> ae_ref e" "mq_refs ?q (ae_ref x) = None \<or> x \<in> queued ?q" for x
  proof (cases "mq_refs (announcementQueue m') (ae_ref x) = None")
    case False
    then have "ae_ref x \<in> ae_ref ` queued (announcementQueue m')" using queued_iff_ref(1) [OF inv'(1)] by auto
    then have "ae_ref x \<in> ae_ref ` queued ?q" using eff x(1) by (auto split: if_splits)
    then have "x \<in> queued ?q" using x(2) queued_iff_ref(1) [OF inv'(2)] by auto
    then show ?thesis using eff by (auto split: if_splits)
  qed simp
  have "calls_ok ?s"
    unfolding calls_ok_def
  proof (intro conjI allI impI)
    fix r x assume a: "announcing ?s r = Some x"
    have "(ae_ref x = r \<and> r \<in> insert (ae_ref e) (known_announcements s)) \<and>
        (mq_refs (announcementQueue m') r = None \<or> x \<in> queued (announcementQueue m'))"
    proof (cases "r = ae_ref e")
      case True
      then show ?thesis using a eff by (auto split: if_splits)
    next
      case False
      then have "announcing s r = Some x" using a by simp
      note f = announcing_facts [OF ok(3) this]
      then show ?thesis using old [of x] False by auto
    qed
    then show "ae_ref x = r" "r \<in> known_announcements ?s"
      "mq_refs (announcementQueue (mat ?s)) r = None \<or> x \<in> queued (announcementQueue (mat ?s))" by simp_all
  next
    fix r x assume "offering ?s r = Some x"
    then have "offering s r = Some x" by simp
    note f = offering_facts [OF ok(3) this]
    show "oe_ref x = r" using f(1) .
    assume "r \<in> offerRefs (mat ?s)"
    then show "x \<in> set (offerQueue (mat ?s))" using f eff by simp
  next
    show "case pass ?s of None \<Rightarrow> True | Some (es, i) \<Rightarrow> set es \<subseteq> set (offerQueue (mat ?s)) \<and> distinct es"
      using ok(3) eff by (cases "pass s") (auto simp: calls_ok_def)
  qed
  moreover have "ae_ref ` queued (announcementQueue m') \<subseteq> insert (ae_ref e) (known_announcements s)"
    using eff ok(4) by (auto split: if_splits)
  moreover have "answerable ?s = answerable s" using eff by (simp add: answerable_def)
  ultimately show ?thesis using inv eff by (simp add: system_inv_def)
qed

lemma offer_step_inv:
  assumes inv: "system_inv s" and np: "pass s = None" and fresh: "oe_ref e \<notin> known_offers s"
    and res: "Offer nl al env e (mat s) = (err, m')"
  shows "system_inv (s\<lparr>mat := m', known_offers := insert (oe_ref e) (known_offers s),
      offering := (offering s)(oe_ref e := if err = None then Some e else None)\<rparr>)"
proof -
  have ok: "matcher_ok (mat s)" "chan_ok (matchSignal (mat s))" "calls_ok s" "offerRefs (mat s) \<union> answerable s \<subseteq> known_offers s"
    using inv by (simp_all add: system_inv_def)
  have fr: "oe_ref e \<notin> offerRefs (mat s)" using fresh ok(4) by blast
  have un: "\<forall>k pa. stored (pendingAnswers (mat s)) k = Some pa \<longrightarrow> pa_offer pa \<noteq> oe_ref e"
    using answerable_pending fresh ok(4) by fastforce
  note eff = Offer_effect [OF ok(1,2) fr un res]
  let ?s = "s\<lparr>mat := m', known_offers := insert (oe_ref e) (known_offers s),
      offering := (offering s)(oe_ref e := if err = None then Some e else None)\<rparr>"
  have "calls_ok ?s"
    unfolding calls_ok_def
  proof (intro conjI allI impI)
    fix r x assume "announcing ?s r = Some x"
    then have "announcing s r = Some x" by simp
    note f = announcing_facts [OF ok(3) this]
    show "ae_ref x = r" "r \<in> known_announcements ?s"
      "mq_refs (announcementQueue (mat ?s)) r = None \<or> x \<in> queued (announcementQueue (mat ?s))"
      using f eff by simp_all
  next
    fix r x assume a: "offering ?s r = Some x"
    show "oe_ref x = r"
      using a offering_facts(1) [OF ok(3), of r x] by (auto split: if_splits)
    assume r: "r \<in> offerRefs (mat ?s)"
    show "x \<in> set (offerQueue (mat ?s))"
    proof (cases "r = oe_ref e")
      case True
      then show ?thesis using a eff by (auto split: if_splits)
    next
      case False
      then have "offering s r = Some x" using a by simp
      note f = offering_facts [OF ok(3) this]
      have "r \<in> offerRefs (mat s)" using r eff False by (auto split: if_splits)
      then show ?thesis using f eff by (auto split: if_splits)
    qed
  qed (simp add: np)
  moreover have "answerable ?s = answerable s" using eff by (simp add: answerable_def)
  ultimately show ?thesis using inv eff fresh by (auto simp: system_inv_def split: if_splits)
qed

lemma pass_fact: "calls_ok s \<Longrightarrow> pass s = Some (es, i) \<Longrightarrow> set es \<subseteq> set (offerQueue (mat s)) \<and> distinct es"
  by (simp add: calls_ok_def)

lemma pass_same:
  "calls_ok s \<Longrightarrow> offerQueue m' = offerQueue (mat s) \<Longrightarrow>
    case pass s of None \<Rightarrow> True | Some (es, i) \<Rightarrow> set es \<subseteq> set (offerQueue m') \<and> distinct es"
  by (cases "pass s") (auto simp: calls_ok_def)

lemma system_inv_mat:
  assumes inv: "system_inv s" and m: "matcher_ok m'" "chan_ok (matchSignal m')"
    and same: "announcementQueue m' = announcementQueue (mat s)" "offerQueue m' = offerQueue (mat s)"
    and st: "\<And>k pa. stored (pendingAnswers m') k = Some pa \<Longrightarrow> stored (pendingAnswers (mat s)) k = Some pa"
  shows "system_inv (s\<lparr>mat := m'\<rparr>)"
proof (rule system_inv_shrink [OF inv m])
  have "calls_ok s" using inv by (simp add: system_inv_def)
  then show "case pass (s\<lparr>mat := m'\<rparr>) of None \<Rightarrow> True | Some (es, i) \<Rightarrow> set es \<subseteq> set (offerQueue m') \<and> distinct es"
    using pass_same [OF _ same(2)] by simp
  show "answerable (s\<lparr>mat := m'\<rparr>) \<subseteq> answerable s \<union> (offerRefs (mat s) - offerRefs m')"
    by (rule answerable_pendings) (use st in simp_all)
qed (simp_all add: same)

text \<open>Forgetting a call or adding one that has looked up a pending answer does not matter either.\<close>

lemma system_inv_calls:
  assumes inv: "system_inv s"
    and same: "mat s' = mat s" "known_announcements s' = known_announcements s" "known_offers s' = known_offers s"
      "pass s' = pass s"
    and calls: "\<And>r e. announcing s' r = Some e \<Longrightarrow> announcing s r = Some e"
      "\<And>r e. offering s' r = Some e \<Longrightarrow> offering s r = Some e"
    and ans: "answerable s' \<subseteq> answerable s"
  shows "system_inv s'"
proof (rule system_inv_shrink [where m' = "mat s", OF inv])
  have c: "calls_ok s" using inv by (simp add: system_inv_def)
  then show "case pass s' of None \<Rightarrow> True | Some (es, i) \<Rightarrow> set es \<subseteq> set (offerQueue (mat s)) \<and> distinct es"
    using pass_same [OF c refl] same(4) by simp
qed (use inv same calls ans in \<open>auto simp: system_inv_def\<close>)

lemma answer_channel_inv:
  assumes inv: "system_inv s" and r: "r \<in> answerable s"
  shows "system_inv (s\<lparr>mat := (mat s)\<lparr>answerChans := (answerChans (mat s))(r := x)\<rparr>\<rparr>)"
proof (rule system_inv_mat [OF inv])
  have "r \<notin> offerRefs (mat s)" using inv r by (auto simp: system_inv_def)
  then show "matcher_ok ((mat s)\<lparr>answerChans := (answerChans (mat s))(r := x)\<rparr>)"
    using inv by (intro matcher_ok_answer) (simp_all add: system_inv_def)
qed (use inv in \<open>simp_all add: system_inv_def\<close>)

lemma pending_delete_inv: "system_inv s \<Longrightarrow> system_inv (s\<lparr>mat := pending_delete p c (mat s)\<rparr>)"
  by (rule system_inv_mat)
    (auto simp: system_inv_def pending_delete_def lru.del_content intro!: matcher_ok_pending split: if_splits)

lemma pending_lookup_inv:
  assumes inv: "system_inv s" and l: "pending_lookup t p c (mat s) = (pending, m')"
  shows "system_inv (s\<lparr>mat := m'\<rparr>)"
    "pending = Some pa \<Longrightarrow> \<exists>k. stored (pendingAnswers m') k = Some pa"
proof -
  obtain cache where c: "m' = (mat s)\<lparr>pendingAnswers := cache\<rparr>" "stored cache = stored (pendingAnswers (mat s))"
    using pending_lookup_frame(1) [OF l] by blast
  show "system_inv (s\<lparr>mat := m'\<rparr>)"
    by (rule system_inv_mat [OF inv]) (use inv c in \<open>auto simp: system_inv_def intro!: matcher_ok_pending\<close>)
  show "pending = Some pa \<Longrightarrow> \<exists>k. stored (pendingAnswers m') k = Some pa"
    using pending_lookup_frame(2) [OF l, of pa] c by auto
qed

lemma answerable_mat:
  "stored (pendingAnswers m') = stored (pendingAnswers (mat s)) \<Longrightarrow> answerable (s\<lparr>mat := m'\<rparr>) = answerable s"
  by (simp add: answerable_def)

lemma announce_abort_inv:
  assumes inv: "system_inv s" and a: "announcing s r = Some e"
    and res: "removeAnnouncementEntry t True e (mat s) = Inr m'"
  shows "system_inv (s\<lparr>mat := m', announcing := (announcing s)(r := None)\<rparr>)"
proof -
  have ok: "matcher_ok (mat s)" "calls_ok s" using inv by (simp_all add: system_inv_def)
  note eff = removeAnnouncementEntry_effect [OF ok(1) announcing_facts(3) [OF ok(2) a] res]
  have inv': "system_inv (s\<lparr>mat := m'\<rparr>)"
  proof (rule system_inv_shrink [where m' = m', OF inv])
    show "case pass (s\<lparr>mat := m'\<rparr>) of None \<Rightarrow> True | Some (es, i) \<Rightarrow> set es \<subseteq> set (offerQueue m') \<and> distinct es"
      using pass_same [OF ok(2), of m'] eff by simp
    show "answerable (s\<lparr>mat := m'\<rparr>) \<subseteq> answerable s \<union> (offerRefs (mat s) - offerRefs m')"
      by (rule answerable_pendings) (use eff in simp_all)
  qed (use eff inv in \<open>auto simp: system_inv_def\<close>)
  show ?thesis
    by (rule system_inv_calls [OF inv']) (simp_all split: if_splits)
qed

lemma pass_offer_inv:
  assumes inv: "system_inv s" and p: "pass s = Some (e # es, i)"
    and res: "match_one env e (i + 1) (mat s) = Inr m'"
  shows "system_inv (s\<lparr>mat := m', pass := Some (es, i + 1)\<rparr>)"
proof -
  have ok: "matcher_ok (mat s)" "calls_ok s" using inv by (simp_all add: system_inv_def)
  have es: "e \<in> set (offerQueue (mat s))" "set es \<subseteq> set (offerQueue (mat s)) - {e}" "distinct es"
    using pass_fact [OF ok(2) p] by auto
  have eff: "pass_effect (mat s) e m'" using match_one_effect [OF ok(1) es(1), of env "i + 1"] res by auto
  have oi: "offers_ok (mat s)" "offers_ok m'" using ok eff by (simp_all add: matcher_ok_def pass_effect_def)
  show ?thesis
  proof (rule system_inv_shrink [where m' = m', OF inv])
    show "case pass (s\<lparr>mat := m', pass := Some (es, i + 1)\<rparr>) of None \<Rightarrow> True
        | Some (es, i) \<Rightarrow> set es \<subseteq> set (offerQueue m') \<and> distinct es"
      using es eff by (auto simp: pass_effect_def)
    have gone: "oe_ref e \<in> offerRefs (mat s) - offerRefs m'"
      if new: "stored (pendingAnswers m') k = Some pa" "pa_offer pa = oe_ref e" for k pa
    proof -
      have "channels_ok m'" using eff by (simp add: pass_effect_def matcher_ok_def)
      then have "pa_offer pa \<notin> offerRefs m'" using new(1) unfolding channels_ok_def by blast
      then show ?thesis using new(2) es(1) offerRefs_iff [OF oi(1)] by auto
    qed
    have pend: "pa_offer pa \<in> answerable s \<union> (offerRefs (mat s) - offerRefs m')"
      if k: "stored (pendingAnswers m') k = Some pa" for k pa
    proof (cases "pa_offer pa = oe_ref e")
      case True
      then show ?thesis using gone [OF k] by simp
    next
      case False
      then have "stored (pendingAnswers (mat s)) k = Some pa" using eff k by (auto simp: pass_effect_def)
      then show ?thesis using answerable_pending by blast
    qed
    show "answerable (s\<lparr>mat := m', pass := Some (es, i + 1)\<rparr>) \<subseteq> answerable s \<union> (offerRefs (mat s) - offerRefs m')"
    proof (rule answerable_subset [where s = s])
      fix k pa assume "stored (pendingAnswers (mat (s\<lparr>mat := m', pass := Some (es, i + 1)\<rparr>))) k = Some pa"
      then show "pa_offer pa \<in> answerable s \<union> (offerRefs (mat s) - offerRefs m')" using pend by simp
    qed simp_all
  qed (use eff inv in \<open>auto simp: system_inv_def pass_effect_def\<close>)
qed

theorem matcher_step_inv:
  assumes "matcher_step nl al s s'" "system_inv s"
  shows "system_inv s'"
  using assms
proof (induction rule: matcher_step.induct)
  case (announce s e env err e' m')
  then show ?case by (intro announce_step_inv) simp_all
next
  case (announce_abort s r e t m')
  then show ?case by (intro announce_abort_inv) simp_all
next
  case (announce_return s r e off c)
  have out: "r \<notin> ae_ref ` queued (announcementQueue (mat s))"
  proof
    assume "r \<in> ae_ref ` queued (announcementQueue (mat s))"
    then have "offerChans (mat s) r = make_chan 1"
      using announce_return.prems by (auto simp: system_inv_def matcher_ok_def channels_ok_def)
    then show False using announce_return.hyps(2) by (simp add: try_recv_def make_chan_def)
  qed
  have "system_inv (s\<lparr>mat := (mat s)\<lparr>offerChans := (offerChans (mat s))(r := c)\<rparr>\<rparr>)"
    by (rule system_inv_mat [OF announce_return.prems])
      (use announce_return.prems out in \<open>auto simp: system_inv_def intro!: matcher_ok_offer_chan\<close>)
  then show ?case by (rule system_inv_calls) (simp_all split: if_splits)
next
  case (offer s e env err m')
  then show ?case by (intro offer_step_inv) simp_all
next
  case (offer_abort s r e)
  have ok: "matcher_ok (mat s)" "calls_ok s" using offer_abort.prems by (simp_all add: system_inv_def)
  have oi: "offers_ok (mat s)" using ok by (simp add: matcher_ok_def)
  note rm = removeOfferEntry_ok [OF oi offering_facts(2) [OF ok(2) offer_abort.hyps(2)]]
  have "channels_ok (removeOfferEntry e (mat s))"
    using ok rm by (auto simp: matcher_ok_def channels_ok_def)
  then have m': "matcher_ok (removeOfferEntry e (mat s))"
    using ok rm by (simp add: matcher_ok_def announcements_ok_def)
  show ?case
    by (rule system_inv_shrink [where m' = "removeOfferEntry e (mat s)", OF offer_abort.prems m'])
      (use offer_abort rm in \<open>auto simp: system_inv_def answerable_mat split: if_splits\<close>)
next
  case (offer_return s r e)
  let ?x = "(answerChans (mat s) r)\<lparr>ac_chan := snd (try_recv (ac_chan (answerChans (mat s) r)))\<rparr>"
  have ok: "matcher_ok (mat s)" using offer_return.prems by (simp add: system_inv_def)
  have "r \<notin> offerRefs (mat s)"
  proof
    assume "r \<in> offerRefs (mat s)"
    then have "answerChans (mat s) r = fresh_answer_chan" using ok by (simp add: matcher_ok_def channels_ok_def)
    then show False using offer_return.hyps(2) by (simp add: await_answer_def make_chan_def)
  qed
  then have m': "matcher_ok ((mat s)\<lparr>answerChans := (answerChans (mat s))(r := ?x)\<rparr>)"
    using ok by (intro matcher_ok_answer)
  have "system_inv (s\<lparr>mat := (mat s)\<lparr>answerChans := (answerChans (mat s))(r := ?x)\<rparr>\<rparr>)"
    by (rule system_inv_mat [OF offer_return.prems m']) (use offer_return.prems in \<open>simp_all add: system_inv_def\<close>)
  then show ?case by (rule system_inv_calls) (simp_all split: if_splits)
next
  case (begin_pass s c)
  have ok: "matcher_ok (mat s)" using begin_pass.prems by (simp add: system_inv_def)
  then have d: "distinct (offerQueue (mat s))" by (simp add: matcher_ok_def offers_ok_def distinct_map)
  show ?case
    by (rule system_inv_shrink [where m' = "(mat s)\<lparr>matchSignal := c\<rparr>", OF begin_pass.prems])
      (use begin_pass ok d in \<open>auto simp: system_inv_def matcher_ok_signal answerable_mat try_recv_def chan_ok_def
         split: list.splits\<close>)
next
  case (pass_offer s e es i env m')
  then show ?case by (intro pass_offer_inv) simp_all
next
  case (end_pass s es i)
  then show ?case by (auto simp: system_inv_def calls_ok_def)
next
  case (answer_lookup t ans s pending m')
  note l = pending_lookup_inv [OF answer_lookup.prems answer_lookup.hyps]
  show ?case
  proof (cases pending)
    case None
    then show ?thesis using l(1) by simp
  next
    case (Some pa)
    then obtain k where "stored (pendingAnswers m') k = Some pa" using l(2) by blast
    then have "stored (pendingAnswers (mat (s\<lparr>mat := m'\<rparr>))) k = Some pa" by simp
    then have "answerable (s\<lparr>mat := m', answering := (ans, pa) # answering s\<rparr>) \<subseteq> answerable (s\<lparr>mat := m'\<rparr>)"
      by (rule answerable_looked_up [where a = ans]) auto
    then show ?thesis by (intro system_inv_calls [OF l(1)]) (simp_all add: Some)
  qed
next
  case (answer_deliver ans pa s m')
  let ?m = "pending_delete (an_ProxyID ans) (an_ConnectionID ans) (mat s)"
  obtain x where m': "m' = ?m\<lparr>answerChans := (answerChans ?m)(pa_offer pa := x)\<rparr>"
    using send_answer_ok answer_deliver.hyps(2) unfolding answer_deliver_def by blast
  have "pa_offer pa \<in> answerable (s\<lparr>mat := ?m\<rparr>)"
    using answerable_answering [of ans pa "s\<lparr>mat := ?m\<rparr>"] answer_deliver.hyps(1) by simp
  from answer_channel_inv [OF pending_delete_inv [OF answer_deliver.prems] this]
  have "system_inv (s\<lparr>mat := m'\<rparr>)" by (simp add: m')
  moreover have "answerable (s\<lparr>mat := m', answering := remove1 (ans, pa) (answering s)\<rparr>) \<subseteq> answerable (s\<lparr>mat := m'\<rparr>)"
    using answerable_remove(1) [of "(ans, pa)" "s\<lparr>mat := m'\<rparr>"] by simp
  ultimately show ?case by - (rule system_inv_calls, assumption, simp_all)
next
  case (failure_lookup t p c s pending m')
  note l = pending_lookup_inv [OF failure_lookup.prems failure_lookup.hyps]
  show ?case
  proof (cases pending)
    case None
    then show ?thesis using l(1) by simp
  next
    case (Some pa)
    then obtain k where "stored (pendingAnswers m') k = Some pa" using l(2) by blast
    then have "stored (pendingAnswers (mat (s\<lparr>mat := m'\<rparr>))) k = Some pa" by simp
    then have "answerable (s\<lparr>mat := m', failing := (p, c, pa) # failing s\<rparr>) \<subseteq> answerable (s\<lparr>mat := m'\<rparr>)"
      by (rule answerable_looked_up [where p = p and c = c]) auto
    then show ?thesis by (intro system_inv_calls [OF l(1)]) (simp_all add: Some)
  qed
next
  case (failure_deliver p c pa s m')
  let ?m = "pending_delete p c (mat s)"
  obtain x where m': "m' = ?m\<lparr>answerChans := (answerChans ?m)(pa_offer pa := x)\<rparr>"
    using close_answer_ok failure_deliver.hyps(2) by blast
  have "pa_offer pa \<in> answerable (s\<lparr>mat := ?m\<rparr>)"
    using answerable_failing [of p c pa "s\<lparr>mat := ?m\<rparr>"] failure_deliver.hyps(1) by simp
  from answer_channel_inv [OF pending_delete_inv [OF failure_deliver.prems] this]
  have "system_inv (s\<lparr>mat := m'\<rparr>)" by (simp add: m')
  moreover have "answerable (s\<lparr>mat := m', failing := remove1 (p, c, pa) (failing s)\<rparr>) \<subseteq> answerable (s\<lparr>mat := m'\<rparr>)"
    using answerable_remove(2) [of "(p, c, pa)" "s\<lparr>mat := m'\<rparr>"] by simp
  ultimately show ?case by - (rule system_inv_calls, assumption, simp_all)
next
  case (expire s ks t)
  have sub: "stored (pendingAnswers (mat s)) k = Some pa"
    if "stored (evict ks (DeleteExpired t (pendingAnswers (mat s)))) k = Some pa" for k pa
    using that stored_DeleteExpired by (auto simp: stored_evict split: if_splits)
  show ?case
    by (rule system_inv_mat [OF expire.prems])
      (use expire.prems sub in \<open>auto simp: system_inv_def intro!: matcher_ok_pending\<close>)
next
  case (set_limits s ac aq ai ps ss oc oq oi omd)
  show ?case
    by (rule system_inv_mat [OF set_limits.prems])
      (use set_limits.prems in \<open>simp_all add: system_inv_def matcher_ok_SetLimits\<close>)
qed

lemma matcher_reachable_inv: "matcher_reachable nl al s \<Longrightarrow> system_inv s"
proof (induction rule: matcher_reachable.induct)
  case start
  show ?case by (rule system_inv_init)
qed (rule matcher_step_inv)

end
