(* ===== verification/MatcherClaims.thy ===== *)
theory MatcherClaims
  imports MatcherRun
begin

text \<open>
  The properties of the running matcher, and a concrete run of it that shows their hypotheses
  can hold: a proxy announces, a client offers, the pass matches them.
\<close>

section \<open>A concrete run\<close>

type_synonym example_system = "unit system"

definition run_limiter :: "int \<Rightarrow> int \<Rightarrow> unit" where "run_limiter q i = ()"
definition run_allow :: "unit \<Rightarrow> bool \<times> unit" where "run_allow u = (True, ())"

definition run_announcement :: announcement_entry where
  "run_announcement = example_announcement 0 100 False [7]"

definition run_offer :: offer_entry where
  "run_offer = \<lparr>oe_ref = 0, oe_deadline = Some 90, oe_limitIP = ''198.51.100.1'', offer = example_offer\<rparr>"

definition run0 :: example_system where "run0 = init_system (NewMatcher 0 0 0 [] [] 0 0 0 0)"

definition run1 :: example_system where
  "run1 = (case Announce run_limiter run_allow example_env run_announcement (mat run0) of
     (err, e', m') \<Rightarrow> run0\<lparr>mat := m', known_announcements := insert (ae_ref run_announcement) (known_announcements run0),
        announcing := (announcing run0)(ae_ref run_announcement := if err = None then Some e' else None)\<rparr>)"

definition run2 :: example_system where
  "run2 = (case Offer run_limiter run_allow example_env run_offer (mat run1) of
     (err, m') \<Rightarrow> run1\<lparr>mat := m', known_offers := insert (oe_ref run_offer) (known_offers run1),
        offering := (offering run1)(oe_ref run_offer := if err = None then Some run_offer else None)\<rparr>)"

definition run3 :: example_system where
  "run3 = run2\<lparr>mat := (mat run2)\<lparr>matchSignal := snd (try_recv (matchSignal (mat run2)))\<rparr>,
     pass := Some (offerQueue (mat run2), - 1)\<rparr>"

lemma run_matcher_fields [simp]:
  "announcementQueue (mat run0) = newAnnouncementMultiQueue"
  "announcementQueueEntryCountByIP (mat run0) = Map.empty"
  "announcementLimitEntryCount (mat run0) = 0" "announcementRateLimitQuantity (mat run0) = 0"
  "announcementRateLimitInterval (mat run0) = 0" "announcementExemptProxyIDs (mat run0) = {}"
  "announcementExemptSponsorIDs (mat run0) = NewStringLookup []"
  "offerQueue (mat run0) = []" "offerQueueEntryCountByIP (mat run0) = Map.empty"
  "offerLimitEntryCount (mat run0) = 0" "offerRateLimitQuantity (mat run0) = 0"
  "offerRateLimitInterval (mat run0) = 0" "offerMinimumDeadline (mat run0) = 0" "offerQueueLen (mat run0) = 0"
  "offerRefs (mat run0) = {}" "matchSignal (mat run0) = make_chan 1"
  "pendingAnswers (mat run0) = NewWithLRU 30000000000 5000000"
  by (simp_all add: run0_def init_system_def NewMatcher_def SetLimits_def cap_rate_def)

lemma run_announce:
  "Announce run_limiter run_allow example_env run_announcement (mat run0) =
    (None, run_announcement, signal_match ((mat run0)\<lparr>offerChans := (offerChans (mat run0))(0 := make_chan 1),
      announcementQueue := push_entry (CommonQueue, [7]) run_announcement newAnnouncementMultiQueue,
      announcementQueueEntryCountByIP := count_add ''192.0.2.1'' Map.empty\<rparr>))"
  by (simp add: Announce_def announce_check_def run_announcement_def example_announcement_def applyLoadLimit_def
      example_env_def addAnnouncementEntry_def getLen_def newAnnouncementMultiQueue_def StringLookup_Contains_def
      NewStringLookup_def stringLookupThreshold_def applyIPLimits_def brokerRateLimit_def enqueue_def queue_key_of_def Let_def)

definition run_queue :: multi_queue where
  "run_queue = push_entry (CommonQueue, [7]) run_announcement newAnnouncementMultiQueue"

lemma run1_fields [simp]:
  "announcementQueue (mat run1) = run_queue" "offerQueue (mat run1) = []" "offerRefs (mat run1) = {}"
  "offerLimitEntryCount (mat run1) = 0" "offerRateLimitQuantity (mat run1) = 0" "offerRateLimitInterval (mat run1) = 0"
  "offerQueueLen (mat run1) = 0" "offerQueueEntryCountByIP (mat run1) = Map.empty" "offerMinimumDeadline (mat run1) = 0"
  "pendingAnswers (mat run1) = NewWithLRU 30000000000 5000000"
  "matchSignal (mat run1) = \<lparr>chan_cap = 1, chan_queue = [()]\<rparr>" "offerChans (mat run1) 0 = make_chan 1"
  "known_offers run1 = {}" "pass run1 = None"
  by (simp_all add: run1_def run_announce run_queue_def signal_match_def try_send_def make_chan_def)
    (simp_all add: run0_def init_system_def)

lemma run_offer_fields [simp]: "oe_ref run_offer = 0" "offer run_offer = example_offer" "oe_deadline run_offer = Some 90"
  "oe_limitIP run_offer = ''198.51.100.1''"
  by (simp_all add: run_offer_def)

lemma run_offer_enters:
  "Offer run_limiter run_allow example_env run_offer (mat run1) =
    (None, signal_match ((mat run1)\<lparr>answerChans := (answerChans (mat run1))(0 := fresh_answer_chan),
      offerQueue := [run_offer], offerQueueLen := 1, offerRefs := {0},
      offerQueueEntryCountByIP := count_add ''198.51.100.1'' Map.empty\<rparr>))"
  by (simp add: Offer_def offer_check_def example_offer_def applyLoadLimit_def example_env_def addOfferEntry_def
      applyIPLimits_def brokerRateLimit_def Let_def)

lemma run2_fields [simp]:
  "announcementQueue (mat run2) = run_queue" "offerQueue (mat run2) = [run_offer]" "offerRefs (mat run2) = {0}"
  "pendingAnswers (mat run2) = NewWithLRU 30000000000 5000000" "offerMinimumDeadline (mat run2) = 0"
  "matchSignal (mat run2) = \<lparr>chan_cap = 1, chan_queue = [()]\<rparr>" "offerChans (mat run2) 0 = make_chan 1"
  "answerChans (mat run2) 0 = fresh_answer_chan" "pass run2 = None"
  by (simp_all add: run2_def run_offer_enters signal_match_def try_send_def)

lemma run_reachable2: "matcher_reachable run_limiter run_allow run2"
proof -
  have "matcher_reachable run_limiter run_allow run0" unfolding run0_def by (rule matcher_reachable.start)
  moreover have "matcher_step run_limiter run_allow run0 run1"
    unfolding run1_def run_announce prod.case
    by (rule matcher_step.announce [OF _ _ run_announce])
      (simp_all add: run0_def init_system_def announcement_lock_free_def)
  ultimately have "matcher_reachable run_limiter run_allow run1" by (rule matcher_reachable.step)
  moreover have "matcher_step run_limiter run_allow run1 run2"
    unfolding run2_def run_offer_enters prod.case
    by (rule matcher_step.offer [OF _ _ run_offer_enters]) simp_all
  ultimately show ?thesis by (rule matcher_reachable.step)
qed

lemma run_reachable: "matcher_reachable run_limiter run_allow run3"
proof -
  have "matcher_step run_limiter run_allow run2 run3"
    unfolding run3_def by (rule matcher_step.begin_pass) (simp_all add: try_recv_def)
  with run_reachable2 show ?thesis by (rule matcher_reachable.step)
qed

lemma run3_fields [simp]:
  "announcementQueue (mat run3) = run_queue" "offerQueue (mat run3) = [run_offer]" "offerRefs (mat run3) = {0}"
  "pendingAnswers (mat run3) = NewWithLRU 30000000000 5000000" "offerMinimumDeadline (mat run3) = 0"
  "offerChans (mat run3) 0 = make_chan 1" "answerChans (mat run3) 0 = fresh_answer_chan"
  "pass run3 = Some ([run_offer], - 1)"
  by (simp_all add: run3_def)

lemma run_queue_inv: "queue_inv run_queue" "queued run_queue = {run_announcement}"
  by (auto simp: run_queue_def queued_push intro!: push_entry_inv queue_inv_new)
    (simp_all add: newAnnouncementMultiQueue_def queue_key_of_def run_announcement_def example_announcement_def)

lemma run_start: "startMatching True [[7]] run_queue =
    \<lparr>it_queues = [(CommonQueue, [7])], nextEntries = [Some run_announcement]\<rparr>"
  by (simp add: startMatching_def matching_keys_eq stored_keys_def run_queue_def push_queues newAnnouncementMultiQueue_def
      list_Front_def Let_def del: not_None_eq)
    (simp add: push_queues entries_of_def newAnnouncementMultiQueue_def)

lemma run_match: "matchOffer example_env example_offer (mat run3) =
    (\<lparr>bestMatch = Some run_announcement, bestMatchIndex = 0, bestMatchIsPriority = False, bestMatchNAT = False\<rparr>, mat run3)"
proof -
  have "\<not> exists_preferred example_offer (startMatching True [[7]] run_queue) run_queue"
    unfolding preferred_exact [OF run_queue_inv(1)]
    by (auto simp: matching_entries_def matching_keys_eq stored_keys_def run_queue_def push_queues
        newAnnouncementMultiQueue_def run_announcement_def example_not_preferred split: if_splits)
      (auto simp: entries_of_def example_not_preferred)
  moreover have "acceptable example_env example_offer True run_announcement"
    unfolding run_announcement_def by (rule example_acceptable)
  moreover have "\<not> IsPreferredNATMatch (of_Properties example_offer) (properties run_announcement)"
    unfolding run_announcement_def by (rule example_not_preferred)
  ultimately show ?thesis
    by (simp add: matchOffer_def run_start match_loop.simps getNext_def isPriority_def no_match_def update_best_def
        stop_search_def preferred_candidate_def Let_def)
qed

text \<open>The state after the match: the pending answer of the offer is stored under the IDs of the announcement.\<close>

lemma example_env_now: "now example_env = 5"
  by (simp add: example_env_def)

lemma run_matched:
  obtains m' where "match_one example_env run_offer 0 (mat run3) = Inr m'"
    "fst (pending_lookup 5 [0] [0] m') = Some \<lparr>pa_announcement = announcement run_announcement, pa_offer = 0\<rparr>"
    "answerChans m' 0 = fresh_answer_chan"
proof -
  let ?b = "\<lparr>bestMatch = Some run_announcement, bestMatchIndex = 0, bestMatchIsPriority = False, bestMatchNAT = False\<rparr>"
  have one: "match_one example_env run_offer 0 (mat run3) =
      commit_match example_env run_offer 0 ?b run_announcement (mat run3)"
    by (simp add: match_one_def run_match) (simp add: example_env_def)
  have ref: "ae_ref run_announcement = 0" "announcement_key (announcement run_announcement) = [0, 0]"
    by (simp_all add: run_announcement_def example_announcement_def announcement_key_def pendingAnswerKey_def)
  define m2 where "m2 = snd (dequeue_announcement run_announcement ((mat run3)
      \<lparr>offerMetrics := (offerMetrics (mat run3))(oe_ref run_offer \<mapsto> offer_metrics example_env run_offer 0 ?b (mat run3)),
       announcementMetrics := (announcementMetrics (mat run3))
         (ae_ref run_announcement \<mapsto> offer_metrics example_env run_offer 0 ?b (mat run3))\<rparr>))"
  have m2: "pendingAnswers m2 = NewWithLRU 30000000000 5000000" "offerChans m2 0 = make_chan 1"
      "answerChans m2 0 = fresh_answer_chan"
    unfolding m2_def by (simp_all add: dequeue_announcement_present run_queue_inv)
  define m3 where "m3 = m2\<lparr>pendingAnswers := cache_Set 5 [0, 0]
      \<lparr>pa_announcement = announcement run_announcement, pa_offer = 0\<rparr> 85 (NewWithLRU 30000000000 5000000)\<rparr>"
  define m4 where "m4 = m3\<lparr>offerChans := (offerChans m3)(0 := (make_chan 1)\<lparr>chan_queue := [example_offer]\<rparr>)\<rparr>"
  have "send_offer example_offer 0 m3 = Inr m4"
    using send_room [OF make_chan_room, of example_offer] m2 by (simp add: send_offer_def m4_def m3_def make_chan_def)
  then have "commit_match example_env run_offer 0 ?b run_announcement (mat run3) = Inr (removeOfferEntry run_offer m4)"
    unfolding commit_match_def Let_def m2_def [symmetric]
    by (simp add: ref m2 example_env_now m3_def [symmetric])
  then show thesis
    using that [of "removeOfferEntry run_offer m4"] one m2
    by (simp add: pending_lookup_def m4_def m3_def pendingAnswerKey_def cache_Set_def cache_Get_def NewWithLRU_def Let_def)
qed

section \<open>The invariant\<close>

text \<open>
  C10: in every reachable state of the matcher, whatever the interleaving of announcements, offers,
  aborts, answers and matching passes, the length of the announcement queue and the counts of NAT
  types of its compartment queues are exact and no compartment queue is empty, the number of
  entries counted for an address in either queue is the number of its queued entries, and the
  queues respect their maximum sizes.
\<close>

theorem matcher_counts_exact:
  assumes "matcher_reachable nl al s"
  shows "getLen (announcementQueue (mat s)) = int (card (queued (announcementQueue (mat s)))) \<and>
    getLen (announcementQueue (mat s)) \<le> 5000000 \<and>
    (\<forall>k i cq. compartmentQueues (announcementQueue (mat s)) k i = Some cq \<longrightarrow> entries cq \<noteq> [] \<and>
      unlimitedNATCount cq = traversal_count NATTraversalUnlimited (entries cq) \<and>
      partiallyLimitedNATCount cq = traversal_count NATTraversalPartiallyLimited (entries cq) \<and>
      strictlyLimitedNATCount cq = traversal_count NATTraversalStrictlyLimited (entries cq)) \<and>
    counts_exact limitIP (queued (announcementQueue (mat s))) (announcementQueueEntryCountByIP (mat s)) \<and>
    offerQueueLen (mat s) = int (length (offerQueue (mat s))) \<and> offerQueueLen (mat s) \<le> 5000000 \<and>
    counts_exact oe_limitIP (set (offerQueue (mat s))) (offerQueueEntryCountByIP (mat s))"
proof -
  have ok: "announcements_ok (mat s)" "offers_ok (mat s)"
    using matcher_reachable_inv [OF assms] by (simp_all add: system_inv_def matcher_ok_def)
  have inv: "queue_inv (announcementQueue (mat s))" using ok by (simp add: announcements_ok_def)
  have cq: "compartment_ok (announcementQueue (mat s)) (k, i) cq"
    if "compartmentQueues (announcementQueue (mat s)) k i = Some cq" for k i cq
    using inv that by (simp add: queue_inv_def)
  show ?thesis
    using ok queued_card [OF inv] cq
    by (simp add: announcements_ok_def offers_ok_def compartment_ok_def counts_ok_def)
qed

theorem matcher_counts_exact_witness:
  "getLen (announcementQueue (mat run3)) = 1 \<and>
   counts_exact limitIP {run_announcement} (announcementQueueEntryCountByIP (mat run3))"
  using matcher_counts_exact [OF run_reachable] by (simp add: run_queue_inv)

text \<open>
  C11: the worker never blocks or panics: in every reachable state in which a matching pass has
  reached an offer, its iteration on that offer ends, for any clock, contexts and callbacks;
  it only takes entries out of the queues, and a pending answer that it adds is for this offer.
\<close>

theorem matching_pass_never_blocks:
  assumes "matcher_reachable nl al s" "pass s = Some (e # es, i)"
  shows "\<exists>m'. match_one env e (i + 1) (mat s) = Inr m' \<and>
    queued (announcementQueue m') \<subseteq> queued (announcementQueue (mat s)) \<and>
    set (offerQueue m') \<subseteq> set (offerQueue (mat s)) \<and> set (offerQueue (mat s)) - {e} \<subseteq> set (offerQueue m') \<and>
    (\<forall>k pa. stored (pendingAnswers m') k = Some pa \<longrightarrow>
      stored (pendingAnswers (mat s)) k = Some pa \<or> pa_offer pa = oe_ref e)"
proof -
  have inv: "matcher_ok (mat s)" "calls_ok s"
    using matcher_reachable_inv [OF assms(1)] by (simp_all add: system_inv_def)
  have "e \<in> set (offerQueue (mat s))" using pass_fact [OF inv(2) assms(2)] by simp
  then show ?thesis using match_one_effect [OF inv(1), of e env "i + 1"] by (auto simp: pass_effect_def)
qed

theorem matching_pass_never_blocks_witness:
  "pass run3 = Some ([run_offer], - 1) \<and> (\<exists>m'. match_one example_env run_offer 0 (mat run3) = Inr m')"
  using matching_pass_never_blocks [OF run_reachable, of run_offer "[]" "- 1" example_env] by auto

section \<open>Whole passes\<close>

lemma match_offers_effect:
  "matcher_ok m \<Longrightarrow> set es \<subseteq> set (offerQueue m) \<Longrightarrow> distinct es \<Longrightarrow>
    \<exists>m'. match_offers envs i es m = Inr m' \<and> matcher_ok m' \<and>
      queued (announcementQueue m') \<subseteq> queued (announcementQueue m) \<and>
      set (offerQueue m') \<subseteq> set (offerQueue m) \<and>
      (\<forall>k pa. stored (pendingAnswers m') k = Some pa \<longrightarrow>
        stored (pendingAnswers m) k = Some pa \<or> (\<exists>e\<in>set es. pa_offer pa = oe_ref e \<and> e \<notin> set (offerQueue m')))"
proof (induction es arbitrary: i m)
  case (Cons e es)
  show ?case
  proof (cases "getLen (announcementQueue m) > 0")
    case False
    then show ?thesis using Cons.prems by auto
  next
    case True
    obtain m1 where m1: "match_one (envs (i + 1)) e (i + 1) m = Inr m1" "pass_effect m e m1"
      using match_one_effect [OF Cons.prems(1), of e "envs (i + 1)" "i + 1"] Cons.prems(2) by auto
    have ok1: "matcher_ok m1" and sub: "set es \<subseteq> set (offerQueue m1)"
      using m1(2) Cons.prems by (auto simp: pass_effect_def)
    obtain m' where m': "match_offers envs (i + 1) es m1 = Inr m'" "matcher_ok m'"
        "queued (announcementQueue m') \<subseteq> queued (announcementQueue m1)" "set (offerQueue m') \<subseteq> set (offerQueue m1)"
        "\<forall>k pa. stored (pendingAnswers m') k = Some pa \<longrightarrow>
          stored (pendingAnswers m1) k = Some pa \<or> (\<exists>e\<in>set es. pa_offer pa = oe_ref e \<and> e \<notin> set (offerQueue m'))"
      using Cons.IH [OF ok1 sub, of "i + 1"] Cons.prems(3) by auto
    have out: "e \<notin> set (offerQueue m1)"
      if "stored (pendingAnswers m1) k = Some pa" "pa_offer pa = oe_ref e" for k pa
    proof
      assume "e \<in> set (offerQueue m1)"
      then have "oe_ref e \<in> offerRefs m1" using ok1 by (auto simp: matcher_ok_def offers_ok_def)
      then show False using ok1 that unfolding matcher_ok_def channels_ok_def by metis
    qed
    have "stored (pendingAnswers m) k = Some pa \<or> (\<exists>e\<in>set (e # es). pa_offer pa = oe_ref e \<and> e \<notin> set (offerQueue m'))"
      if st: "stored (pendingAnswers m') k = Some pa" for k pa
    proof -
      consider "stored (pendingAnswers m1) k = Some pa"
        | x where "x \<in> set es" "pa_offer pa = oe_ref x" "x \<notin> set (offerQueue m')"
        using m'(5) st by blast
      then show ?thesis
      proof cases
        case 1
        then consider "stored (pendingAnswers m) k = Some pa" | "pa_offer pa = oe_ref e"
          using m1(2) 1 unfolding pass_effect_def by blast
        then show ?thesis using out [OF 1] m'(4) by cases auto
      qed auto
    qed
    then show ?thesis using True m1 m' by (auto simp: pass_effect_def)
  qed
qed simp



section \<open>Races on the answer channel\<close>

lemma lookup_again:
  "pending_lookup t p c m = (Some pa, m') \<Longrightarrow> fst (pending_lookup t p c m') = Some pa"
  by (auto simp: pending_lookup_def cache_Get_def split: prod.splits option.splits if_splits)

lemma pending_delete_frame [simp]: "answerChans (pending_delete p c m) = answerChans m"
  by (simp add: pending_delete_def)

text \<open>
  C13: looking up a pending answer and deleting it are separate operations of the cache, so an
  answer and an answer error for the same announcement can both find it: from every reachable
  state with a pending answer whose channel is open, the matcher can reach a state in which a
  call of Answer sends on the closed channel, which panics.
\<close>

theorem answer_error_race:
  assumes "matcher_reachable nl al s" "fst (pending_lookup t p c (mat s)) = Some pa"
    and "\<not> ac_closed (answerChans (mat s) (pa_offer pa))"
  shows "\<exists>s'. matcher_reachable nl al s' \<and> (\<lparr>an_ProxyID = p, an_ConnectionID = c\<rparr>, pa) \<in> set (answering s') \<and>
    answer_deliver \<lparr>an_ProxyID = p, an_ConnectionID = c\<rparr> pa (pending_delete p c (mat s')) = Inl SendOnClosed"
proof -
  let ?ans = "\<lparr>an_ProxyID = p, an_ConnectionID = c\<rparr>"
  obtain m1 where l1: "pending_lookup t p c (mat s) = (Some pa, m1)" using assms(2) by (metis prod.collapse)
  define s1 where "s1 = s\<lparr>mat := m1, answering := (?ans, pa) # answering s\<rparr>"
  have "matcher_step nl al s s1"
    using matcher_step.answer_lookup [of t ?ans s "Some pa" m1 nl al] l1 by (simp add: s1_def)
  with assms(1) have r1: "matcher_reachable nl al s1" by (rule matcher_reachable.step)
  obtain m2 where l2: "pending_lookup t p c m1 = (Some pa, m2)" using lookup_again [OF l1] by (metis prod.collapse)
  define s2 where "s2 = s1\<lparr>mat := m2, failing := (p, c, pa) # failing s1\<rparr>"
  have "matcher_step nl al s1 s2"
    using matcher_step.failure_lookup [of t p c s1 "Some pa" m2 nl al] l2 by (simp add: s1_def s2_def)
  with r1 have r2: "matcher_reachable nl al s2" by (rule matcher_reachable.step)
  have ch: "answerChans m2 = answerChans (mat s)"
    using pending_lookup_frame(1) [OF l1] pending_lookup_frame(1) [OF l2] by auto
  define m3 where "m3 = (pending_delete p c m2)\<lparr>answerChans := (answerChans m2)
      (pa_offer pa := (answerChans m2 (pa_offer pa))\<lparr>ac_closed := True\<rparr>)\<rparr>"
  have cl: "close_answer (pa_offer pa) (pending_delete p c m2) = Inr m3"
    using assms(3) ch by (simp add: close_answer_def m3_def)
  define s3 where "s3 = s2\<lparr>mat := m3, failing := remove1 (p, c, pa) (failing s2)\<rparr>"
  have "matcher_step nl al s2 s3"
    unfolding s3_def by (rule matcher_step.failure_deliver) (simp_all add: s2_def cl)
  with r2 have r3: "matcher_reachable nl al s3" by (rule matcher_reachable.step)
  have "(?ans, pa) \<in> set (answering s3)" by (simp add: s3_def s2_def s1_def)
  moreover have "answer_deliver ?ans pa (pending_delete p c (mat s3)) = Inl SendOnClosed"
    by (simp add: answer_deliver_def send_answer_def s3_def m3_def)
  ultimately show ?thesis using r3 by blast
qed

theorem answer_error_race_witness:
  "\<exists>s'. matcher_reachable run_limiter run_allow s' \<and>
    answer_deliver \<lparr>an_ProxyID = [0], an_ConnectionID = [0]\<rparr>
      \<lparr>pa_announcement = announcement run_announcement, pa_offer = 0\<rparr> (pending_delete [0] [0] (mat s')) = Inl SendOnClosed"
proof -
  obtain m' where m': "match_one example_env run_offer 0 (mat run3) = Inr m'"
      "fst (pending_lookup 5 [0] [0] m') = Some \<lparr>pa_announcement = announcement run_announcement, pa_offer = 0\<rparr>"
      "answerChans m' 0 = fresh_answer_chan"
    by (rule run_matched)
  have "matcher_step run_limiter run_allow run3 (run3\<lparr>mat := m', pass := Some ([], - 1 + 1)\<rparr>)"
    by (rule matcher_step.pass_offer [where e = run_offer and env = example_env])
      (use m' queued_card [OF run_queue_inv(1)] in \<open>simp_all add: run_queue_inv(2)\<close>)
  with run_reachable have "matcher_reachable run_limiter run_allow (run3\<lparr>mat := m', pass := Some ([], - 1 + 1)\<rparr>)"
    by (rule matcher_reachable.step)
  from answer_error_race [OF this, of 5 "[0]" "[0]"] show ?thesis using m' by auto
qed

text \<open>
  When Answer finds the pending answer of an offer that still waits on its unused channel, and
  no other call interferes, the waiting Offer returns exactly this answer with its announcement;
  an AnswerError makes it return the failure at once.
\<close>

lemma answer_delivered:
  assumes "fst (pending_lookup t (an_ProxyID ans) (an_ConnectionID ans) m) = Some pa"
    and "answerChans m (pa_offer pa) = fresh_answer_chan"
  shows "(\<exists>m'. Answer t ans m = Inr (None, m') \<and> await_answer (pa_offer pa) m' =
      (if an_ConnectionID ans \<noteq> ConnectionID (pa_announcement pa) then UnexpectedConnectionID
       else Answered ans (pa_announcement pa)) \<and>
      stored (pendingAnswers m') (pendingAnswerKey (an_ProxyID ans) (an_ConnectionID ans)) = None) \<and>
    (\<exists>m'. AnswerError t (an_ProxyID ans) (an_ConnectionID ans) m = Inr m' \<and> await_answer (pa_offer pa) m' = NoAnswer)"
proof -
  let ?p = "an_ProxyID ans" and ?c = "an_ConnectionID ans"
  obtain m1 where l: "pending_lookup t ?p ?c m = (Some pa, m1)" using assms(1) by (metis prod.collapse)
  have ch: "answerChans m1 (pa_offer pa) = fresh_answer_chan" using pending_lookup_frame(1) [OF l] assms(2) by auto
  define m2 where "m2 = (pending_delete ?p ?c m1)\<lparr>answerChans := (answerChans m1)(pa_offer pa :=
      fresh_answer_chan\<lparr>ac_chan := (make_chan 1)\<lparr>chan_queue := [AnswerInfo (pa_announcement pa) ans]\<rparr>\<rparr>)\<rparr>"
  have "answer_deliver ans pa (pending_delete ?p ?c m1) = Inr m2"
    using ch send_room [OF make_chan_room, of "AnswerInfo (pa_announcement pa) ans"]
    by (simp add: answer_deliver_def send_answer_def m2_def make_chan_def)
  then have "Answer t ans m = Inr (None, m2)" by (simp add: Answer_def l)
  moreover have "stored (pendingAnswers m2) (pendingAnswerKey ?p ?c) = None"
    by (simp add: m2_def pending_delete_def lru.del_content)
  moreover have "await_answer (pa_offer pa) m2 = (if ?c \<noteq> ConnectionID (pa_announcement pa)
      then UnexpectedConnectionID else Answered ans (pa_announcement pa))"
    by (simp add: await_answer_def m2_def)
  moreover have "\<exists>m'. AnswerError t ?p ?c m = Inr m' \<and> await_answer (pa_offer pa) m' = NoAnswer"
    using ch by (simp add: AnswerError_def l close_answer_def await_answer_def make_chan_def)
  ultimately show ?thesis by blast
qed

text \<open>
  A pending answer that is stored after the deadline of its offer has passed never expires:
  the negative time to live counts as no expiration, so the entry is found at any later time
  unless it is deleted or evicted.
\<close>

lemma late_match_never_expires:
  assumes "d < now env" "b = \<lparr>pa_announcement = announcement a, pa_offer = oe_ref e\<rparr>"
    and "commit_match env (e\<lparr>oe_deadline := Some d\<rparr>) i best a m = Inr m'"
  shows "fst (pending_lookup t (ProxyID (announcement a)) (ConnectionID (announcement a)) m') = Some b"
proof -
  have "fst (cache_Get t (announcement_key (announcement a)) (pendingAnswers m')) = Some b"
    using assms(1,2,3) cache_Get_negative_ttl [of "d - now env"]
    by (auto simp: commit_match_def send_offer_def Let_def split: option.splits)
  then show ?thesis
    by (simp add: pending_lookup_def announcement_key_def split_beta)
qed

end
