(* ===== verification/Bridge.thy ===== *)
theory Bridge
  imports GoChan
begin

text \<open>
  The bridge between the Go engine and the terminal interface, \<open>RustBridge/bridge.go\<close>, with the
  notice writer of \<open>psiphon/notice.go\<close>: the queue of notices, starting and stopping the one tunnel,
  and polling. The engine is a parameter: what reading, loading and committing the configuration,
  opening the data store, importing servers and making the controller return. Each start of a tunnel
  has a number, which stands for its notice channel, its context and its done channel.
\<close>

section \<open>The notice queue\<close>

text \<open>A notice of the engine, as bytes, or an event that the bridge makes: its type and data fields.\<close>

datatype notice = Raw bytes | Synthetic string "(string \<times> string) list"

abbreviation (input) noticeQueueCapacity :: nat where "noticeQueueCapacity \<equiv> 1024"

definition pushRaw :: "notice chan \<Rightarrow> notice \<Rightarrow> notice chan" where
  "pushRaw c n = (case try_send n c of
      (True, c') \<Rightarrow> c'
    | (False, c') \<Rightarrow> (case try_recv c' of (_, c'') \<Rightarrow> snd (try_send n c'')))"

lemma pushRaw_push_dropping: "pushRaw c n = ch.push_dropping n c"
  by (auto simp: pushRaw_def ch.push_dropping_def try_send_def split: prod.splits bool.splits)

definition newest :: "nat \<Rightarrow> 'a list \<Rightarrow> 'a list" where
  "newest n xs = drop (length xs - n) xs"

lemma newest_append: "length xs = n \<Longrightarrow> 0 < n \<Longrightarrow> newest n (xs @ [x]) = tl xs @ [x]"
  by (cases xs) (auto simp: newest_def)

lemma newest_newest: "newest n (newest n xs @ ys) = newest n (xs @ ys)"
proof (cases "length xs \<le> n")
  case True
  then show ?thesis by (simp add: newest_def)
next
  case False
  then show ?thesis by (cases "length ys \<le> n") (simp_all add: newest_def add.commute)
qed

lemma pushRaw_newest:
  assumes "chan_ok c" "0 < chan_cap c"
  shows "chan_queue (pushRaw c n) = newest (chan_cap c) (chan_queue c @ [n])"
    "chan_cap (pushRaw c n) = chan_cap c" "chan_ok (pushRaw c n)"
proof -
  show q: "chan_queue (pushRaw c n) = newest (chan_cap c) (chan_queue c @ [n])"
  proof (cases "length (chan_queue c) < chan_cap c")
    case True
    then show ?thesis using ch.push_dropping_room [of c n] by (simp add: pushRaw_push_dropping newest_def)
  next
    case False
    then have "length (chan_queue c) = chan_cap c" using assms by (simp add: chan_ok_def)
    then show ?thesis
      using ch.push_dropping_full [of c n] assms newest_append [of "chan_queue c" "chan_cap c" n]
      by (simp add: pushRaw_push_dropping)
  qed
  show cap: "chan_cap (pushRaw c n) = chan_cap c"
    by (auto simp: pushRaw_def try_send_def try_recv_def split: list.splits)
  show "chan_ok (pushRaw c n)" using assms by (simp add: chan_ok_def q cap newest_def)
qed

text \<open>
  Pushing notices never blocks, and whatever is pushed while the consumer is away, the queue
  holds the newest notices in their order, as many as its capacity.
\<close>

lemma notice_queue_keeps_newest:
  assumes "chan_ok c" "0 < chan_cap c"
  shows "chan_queue (foldl pushRaw c ns) = newest (chan_cap c) (chan_queue c @ ns)"
  using assms
proof (induction ns arbitrary: c)
  case Nil
  then show ?case by (simp add: newest_def chan_ok_def)
next
  case (Cons n ns)
  note p = pushRaw_newest [OF Cons.prems, of n]
  have "chan_queue (foldl pushRaw (pushRaw c n) ns) = newest (chan_cap c) (chan_queue (pushRaw c n) @ ns)"
    using Cons.IH [OF p(3)] p(2) Cons.prems by simp
  then show ?case using newest_newest [of "chan_cap c" "chan_queue c @ [n]" ns] by (simp add: p(1))
qed

section \<open>State\<close>

text \<open>\<open>writer\<close> is the singleton notice writer: \<open>None\<close> is the default, standard error.\<close>

record bridge =
  running :: bool
  noticeCh :: "nat option"
  cancel :: "nat option"
  doneCh :: "nat option"
  chans :: "nat \<Rightarrow> notice chan"
  next_id :: nat
  cancelled :: "nat set"
  done_closed :: "nat set"
  writer :: "nat option"

definition init_bridge :: bridge where
  "init_bridge = \<lparr>running = False, noticeCh = None, cancel = None, doneCh = None, chans = (\<lambda>i. make_chan 1024),
     next_id = 0, cancelled = {}, done_closed = {}, writer = None\<rparr>"

definition push :: "nat \<Rightarrow> notice \<Rightarrow> bridge \<Rightarrow> bridge" where
  "push i n s = s\<lparr>chans := (chans s)(i := pushRaw (chans s i) n)\<rparr>"

definition pushSynthetic :: "nat option \<Rightarrow> string \<Rightarrow> (string \<times> string) list \<Rightarrow> bridge \<Rightarrow> bridge" where
  "pushSynthetic c noticeType d s = (case c of None \<Rightarrow> s | Some i \<Rightarrow> push i (Synthetic noticeType d) s)"

definition SetNoticeWriter :: "nat \<Rightarrow> bridge \<Rightarrow> bridge option" where
  "SetNoticeWriter i s = (if writer s \<noteq> None then None else Some (s\<lparr>writer := Some i\<rparr>))"

definition ResetNoticeWriter :: "bridge \<Rightarrow> bridge" where
  "ResetNoticeWriter s = s\<lparr>writer := None\<rparr>"

text \<open>A notice of the engine goes to the writer; on standard error it leaves the model.\<close>

definition emit_notice :: "bytes \<Rightarrow> bridge \<Rightarrow> bridge" where
  "emit_notice n s = (case writer s of None \<Rightarrow> s | Some i \<Rightarrow> push i (Raw n) s)"

section \<open>Starting\<close>

record start_args =
  configPath :: string
  serverListPath :: string
  dataRootDirectory :: string
  egressRegion :: string

text \<open>The C strings may be null.\<close>

definition go_string :: "string option \<Rightarrow> string" where
  "go_string c = (case c of None \<Rightarrow> [] | Some s \<Rightarrow> s)"

definition go_args :: "string option \<Rightarrow> string option \<Rightarrow> string option \<Rightarrow> string option \<Rightarrow> start_args" where
  "go_args c s d e = \<lparr>configPath = go_string c, serverListPath = go_string s, dataRootDirectory = go_string d,
     egressRegion = go_string e\<rparr>"

record config =
  DataRootDirectory :: string
  MigrateDataStoreDirectory :: string
  MigrateObfuscatedServerListDownloadDirectory :: string
  MigrateRemoteServerListDownloadFilename :: string
  EgressRegion :: string
  EmitDiagnosticNotices :: bool

record engine =
  ReadFile :: "string \<Rightarrow> bytes option"
  LoadConfig :: "bytes \<Rightarrow> config option"
  Commit :: "config \<Rightarrow> config option"
  join_path :: "string \<Rightarrow> string \<Rightarrow> string"
  error_notice :: "string \<Rightarrow> bytes"
  OpenDataStore :: "config \<Rightarrow> bool"
  ImportEmbeddedServerEntries :: "string \<Rightarrow> bool"
  NewController :: "config \<Rightarrow> bool"

abbreviation (input) startOK :: int where "startOK \<equiv> 0"
abbreviation (input) startErrAlreadyRunning :: int where "startErrAlreadyRunning \<equiv> - 1"
abbreviation (input) startErrConfigPathRequired :: int where "startErrConfigPathRequired \<equiv> - 2"
abbreviation (input) startErrConfigReadFailed :: int where "startErrConfigReadFailed \<equiv> - 3"
abbreviation (input) startErrConfigParseFailed :: int where "startErrConfigParseFailed \<equiv> - 4"
abbreviation (input) startErrConfigCommitFailed :: int where "startErrConfigCommitFailed \<equiv> - 5"
abbreviation (input) startErrDataRootDirRequired :: int where "startErrDataRootDirRequired \<equiv> - 6"

definition bridge_error :: "string \<Rightarrow> (string \<times> string) list" where
  "bridge_error m = [(''message'', m)]"

text \<open>The part under the lock: the check for a running tunnel, and the new notice channel.\<close>

definition start_enter :: "bridge \<Rightarrow> (int \<times> bridge) + (nat \<times> bridge)" where
  "start_enter s =
    (if running s then Inl (startErrAlreadyRunning, pushSynthetic (noticeCh s) ''BridgeError''
        (bridge_error ''a tunnel is already running or still shutting down; wait for it to stop first'') s)
     else Inr (next_id s, s\<lparr>next_id := next_id s + 1, chans := (chans s)(next_id s := make_chan noticeQueueCapacity),
        noticeCh := Some (next_id s)\<rparr>))"

definition configure :: "engine \<Rightarrow> start_args \<Rightarrow> config \<Rightarrow> config" where
  "configure eng a c = c\<lparr>DataRootDirectory := dataRootDirectory a, MigrateDataStoreDirectory := dataRootDirectory a,
     MigrateObfuscatedServerListDownloadDirectory := dataRootDirectory a,
     MigrateRemoteServerListDownloadFilename := join_path eng (dataRootDirectory a) ''server_list_compressed'',
     EgressRegion := (if egressRegion a \<noteq> [] then egressRegion a else EgressRegion c),
     EmitDiagnosticNotices := True\<rparr>"

text \<open>The checks of the arguments, and taking the notice writer.\<close>

definition start_attach :: "start_args \<Rightarrow> nat \<Rightarrow> bridge \<Rightarrow> (int \<times> bridge) + bridge" where
  "start_attach a i s =
    (if configPath a = [] then Inl (startErrConfigPathRequired,
        pushSynthetic (Some i) ''BridgeError'' (bridge_error ''configPath is required (-config)'') s)
     else if dataRootDirectory a = [] then Inl (startErrDataRootDirRequired,
        pushSynthetic (Some i) ''BridgeError'' (bridge_error ''dataRootDirectory is required (-dataRootDirectory)'') s)
     else (case SetNoticeWriter i s of
         None \<Rightarrow> Inl (startErrConfigCommitFailed, pushSynthetic (Some i) ''BridgeError''
            (bridge_error ''failed to set notice writer: notice writer already set'') s)
       | Some s1 \<Rightarrow> Inr s1))"

text \<open>Reading, loading and committing the configuration.\<close>

definition start_load :: "engine \<Rightarrow> start_args \<Rightarrow> bridge \<Rightarrow> (int \<times> bridge) + config" where
  "start_load eng a s =
    (case ReadFile eng (configPath a) of
       None \<Rightarrow> Inl (startErrConfigReadFailed, emit_notice (error_notice eng ''error loading configuration file'') s)
     | Some configJSON \<Rightarrow>
        (case LoadConfig eng configJSON of
           None \<Rightarrow> Inl (startErrConfigParseFailed,
             emit_notice (error_notice eng ''error processing configuration file'') s)
         | Some c \<Rightarrow>
            (case Commit eng (configure eng a c) of
               None \<Rightarrow> Inl (startErrConfigCommitFailed,
                 emit_notice (error_notice eng ''error committing configuration'') s)
             | Some c' \<Rightarrow> Inr c')))"

definition start_publish :: "nat \<Rightarrow> bridge \<Rightarrow> bridge" where
  "start_publish i s = s\<lparr>running := True, cancel := Some i, doneCh := Some i\<rparr>"

text \<open>The whole call; a start that succeeds also launches the goroutine of the tunnel.\<close>

definition PsiphonStart :: "engine \<Rightarrow> start_args \<Rightarrow> bridge \<Rightarrow> int \<times> (nat \<times> config) option \<times> bridge" where
  "PsiphonStart eng a s =
    (case start_enter s of Inl (code, s') \<Rightarrow> (code, None, s')
     | Inr (i, s1) \<Rightarrow> (case start_attach a i s1 of Inl (code, s') \<Rightarrow> (code, None, s')
        | Inr s2 \<Rightarrow> (case start_load eng a s2 of Inl (code, s') \<Rightarrow> (code, None, s')
           | Inr c \<Rightarrow> (startOK, Some (i, c), start_publish i s2))))"

section \<open>The tunnel\<close>

text \<open>
  \<open>runTunnel\<close> up to the end of \<open>controller.Run\<close>, then its deferred calls in their order. The import
  of the server list runs beside the controller; only its error notice concerns the bridge.
\<close>

definition tunnel_body :: "engine \<Rightarrow> string \<Rightarrow> config \<Rightarrow> nat \<Rightarrow> bridge \<Rightarrow> bridge" where
  "tunnel_body eng serverList c i s =
    (let s1 = pushSynthetic (Some i) ''BridgeStarting'' [(''dataRootDirectory'', DataRootDirectory c)] s
     in if \<not> OpenDataStore eng c
        then pushSynthetic (Some i) ''BridgeError'' (bridge_error ''failed to open data store'') s1
        else let s2 = (if serverList \<noteq> [] \<and> \<not> ImportEmbeddedServerEntries eng serverList
                       then emit_notice (error_notice eng ''error importing embedded server entry list'') s1 else s1)
             in if \<not> NewController eng c
                then pushSynthetic (Some i) ''BridgeError'' (bridge_error ''failed to create controller'') s2
                else s2)"

definition tunnel_stopped :: "nat \<Rightarrow> bridge \<Rightarrow> bridge" where
  "tunnel_stopped i s = pushSynthetic (Some i) ''BridgeStopped'' [] (s\<lparr>running := False, cancel := None\<rparr>)"

definition close_done :: "nat \<Rightarrow> bridge \<Rightarrow> bridge" where
  "close_done i s = s\<lparr>done_closed := insert i (done_closed s)\<rparr>"

definition runTunnel :: "engine \<Rightarrow> string \<Rightarrow> config \<Rightarrow> nat \<Rightarrow> bridge \<Rightarrow> bridge" where
  "runTunnel eng serverList c i s =
    close_done i (ResetNoticeWriter (tunnel_stopped i (tunnel_body eng serverList c i s)))"

section \<open>Stopping and polling\<close>

definition PsiphonStop :: "bridge \<Rightarrow> bridge" where
  "PsiphonStop s = (case cancel s of None \<Rightarrow> s | Some i \<Rightarrow> s\<lparr>cancelled := insert i (cancelled s)\<rparr>)"

text \<open>\<open>PsiphonStop\<close> returns when this holds, or after its timeout.\<close>

definition stop_returns :: "bridge \<Rightarrow> bool" where
  "stop_returns s \<longleftrightarrow> (case doneCh s of None \<Rightarrow> True | Some i \<Rightarrow> i \<in> done_closed s)"

text \<open>The poll at the moment it returns: with a timeout it waits for a notice until then.\<close>

definition PsiphonPollNotice :: "bridge \<Rightarrow> notice option \<times> bridge" where
  "PsiphonPollNotice s = (case noticeCh s of None \<Rightarrow> (None, s)
    | Some i \<Rightarrow> (case try_recv (chans s i) of (n, c) \<Rightarrow> (n, s\<lparr>chans := (chans s)(i := c)\<rparr>)))"

definition PsiphonIsRunning :: "bridge \<Rightarrow> int" where
  "PsiphonIsRunning s = (if running s then 1 else 0)"

lemma push_frame [simp]:
  "running (push i n s) = running s" "noticeCh (push i n s) = noticeCh s" "cancel (push i n s) = cancel s"
  "doneCh (push i n s) = doneCh s" "next_id (push i n s) = next_id s" "writer (push i n s) = writer s"
  "cancelled (push i n s) = cancelled s" "done_closed (push i n s) = done_closed s"
  by (simp_all add: push_def)

lemma pushSynthetic_frame [simp]:
  "running (pushSynthetic c t d s) = running s" "noticeCh (pushSynthetic c t d s) = noticeCh s"
  "cancel (pushSynthetic c t d s) = cancel s" "doneCh (pushSynthetic c t d s) = doneCh s"
  "next_id (pushSynthetic c t d s) = next_id s" "writer (pushSynthetic c t d s) = writer s"
  "cancelled (pushSynthetic c t d s) = cancelled s" "done_closed (pushSynthetic c t d s) = done_closed s"
  by (simp_all add: pushSynthetic_def split: option.split)

lemma emit_notice_frame [simp]:
  "running (emit_notice n s) = running s" "noticeCh (emit_notice n s) = noticeCh s"
  "cancel (emit_notice n s) = cancel s" "doneCh (emit_notice n s) = doneCh s"
  "next_id (emit_notice n s) = next_id s" "writer (emit_notice n s) = writer s"
  "cancelled (emit_notice n s) = cancelled s" "done_closed (emit_notice n s) = done_closed s"
  by (simp_all add: emit_notice_def split: option.split)

lemma tunnel_body_frame [simp]:
  "running (tunnel_body eng l c i s) = running s" "noticeCh (tunnel_body eng l c i s) = noticeCh s"
  "cancel (tunnel_body eng l c i s) = cancel s" "doneCh (tunnel_body eng l c i s) = doneCh s"
  "next_id (tunnel_body eng l c i s) = next_id s" "writer (tunnel_body eng l c i s) = writer s"
  "cancelled (tunnel_body eng l c i s) = cancelled s" "done_closed (tunnel_body eng l c i s) = done_closed s"
  by (simp_all add: tunnel_body_def Let_def)

lemma start_enter_cases:
  obtains (busy) s' where "start_enter s = Inl (startErrAlreadyRunning, s')" "running s"
    "running s' = running s" "writer s' = writer s" "cancel s' = cancel s"
  | (entered) s' where "start_enter s = Inr (next_id s, s')" "\<not> running s"
    "running s' = running s" "writer s' = writer s" "cancel s' = cancel s" "done_closed s' = done_closed s"
    "next_id s' = Suc (next_id s)" "noticeCh s' = Some (next_id s)" "doneCh s' = doneCh s"
  by (cases "running s") (simp_all add: start_enter_def)

lemma start_attach_cases:
  obtains (refused) code s' where "start_attach a i s = Inl (code, s')" "code \<noteq> startOK"
    "running s' = running s" "writer s' = writer s" "cancel s' = cancel s"
  | (attached) s' where "start_attach a i s = Inr s'" "configPath a \<noteq> []" "dataRootDirectory a \<noteq> []"
    "writer s = None" "s' = s\<lparr>writer := Some i\<rparr>"
proof (cases "configPath a = [] \<or> dataRootDirectory a = [] \<or> writer s \<noteq> None")
  case True
  then show ?thesis
    by (cases "configPath a = []"; cases "dataRootDirectory a = []"; cases "writer s")
      (auto simp: start_attach_def SetNoticeWriter_def intro: refused)
next
  case False
  then show ?thesis by (auto simp: start_attach_def SetNoticeWriter_def intro: attached)
qed

lemma start_load_cases:
  obtains (failed) code s' where "start_load eng a s = Inl (code, s')" "code \<noteq> startOK"
    "running s' = running s" "writer s' = writer s" "cancel s' = cancel s"
  | (loaded) c where "start_load eng a s = Inr c"
  by (cases "ReadFile eng (configPath a)"; cases "LoadConfig eng (the (ReadFile eng (configPath a)))";
      cases "Commit eng (configure eng a (the (LoadConfig eng (the (ReadFile eng (configPath a))))))")
    (simp_all add: start_load_def)

section \<open>Calls in sequence\<close>

lemma start_ok_iff: "fst (PsiphonStart eng a s) = startOK \<longleftrightarrow>
   \<not> running s \<and> writer s = None \<and> configPath a \<noteq> [] \<and> dataRootDirectory a \<noteq> [] \<and>
   (\<exists>json c. ReadFile eng (configPath a) = Some json \<and> LoadConfig eng json = Some c \<and>
      Commit eng (configure eng a c) \<noteq> None)"
  by (auto simp: PsiphonStart_def start_enter_def start_attach_def start_load_def SetNoticeWriter_def
      split: option.splits)

datatype api_call = Start start_args | Stop | Poll | IsRunning

text \<open>A call by itself, and its code when it is a start.\<close>

fun api_step :: "engine \<Rightarrow> api_call \<Rightarrow> bridge \<Rightarrow> int list \<times> bridge" where
  "api_step eng (Start a) s = (case PsiphonStart eng a s of (code, _, s') \<Rightarrow> ([code], s'))"
| "api_step eng Stop s = ([], PsiphonStop s)"
| "api_step eng Poll s = ([], snd (PsiphonPollNotice s))"
| "api_step eng IsRunning s = ([], s)"

text \<open>The files and so the engine's answers may differ from call to call.\<close>

fun api_run :: "(engine \<times> api_call) list \<Rightarrow> bridge \<Rightarrow> int list \<times> bridge" where
  "api_run [] s = ([], s)"
| "api_run ((eng, k) # ks) s = (case api_step eng k s of (codes, s1) \<Rightarrow>
    (case api_run ks s1 of (codes', s2) \<Rightarrow> (codes @ codes', s2)))"

text \<open>No tunnel is there to reset the writer, which is taken.\<close>

definition writer_stuck :: "bridge \<Rightarrow> bool" where
  "writer_stuck s \<longleftrightarrow> \<not> running s \<and> writer s \<noteq> None"

lemma start_stuck:
  assumes "writer_stuck s" "PsiphonStart eng a s = (code, t, s')"
  shows "code \<noteq> startOK" "t = None" "writer_stuck s'"
proof -
  have "code \<noteq> startOK \<and> t = None \<and> writer_stuck s'"
  proof (cases rule: start_enter_cases [of s])
    case (entered s1)
    then have w: "writer s1 \<noteq> None" "\<not> running s1" using assms(1) by (auto simp: writer_stuck_def)
    show ?thesis
    proof (cases rule: start_attach_cases [of a "next_id s" s1])
      case (refused code' s2)
      then show ?thesis using assms(2) entered w by (auto simp: PsiphonStart_def writer_stuck_def)
    qed (use w in simp)
  qed (use assms in \<open>auto simp: PsiphonStart_def writer_stuck_def\<close>)
  then show "code \<noteq> startOK" "t = None" "writer_stuck s'" by simp_all
qed

lemma api_step_stuck:
  assumes "writer_stuck s"
  shows "startOK \<notin> set (fst (api_step eng k s))" "writer_stuck (snd (api_step eng k s))"
  using assms start_stuck [OF assms]
  by (cases k; auto simp: PsiphonStop_def PsiphonPollNotice_def writer_stuck_def
      split: prod.splits option.splits)+

lemma api_run_Cons:
  "fst (api_run ((eng, k) # ks) s) = fst (api_step eng k s) @ fst (api_run ks (snd (api_step eng k s)))"
  by (simp split: prod.splits)

lemma api_run_stuck: "writer_stuck s \<Longrightarrow> startOK \<notin> set (fst (api_run ks s))"
proof (induction ks arbitrary: s)
  case (Cons k ks)
  obtain eng c where k: "k = (eng, c)" by (cases k)
  show ?case using Cons.IH [OF api_step_stuck(2) [OF Cons.prems]] api_step_stuck(1) [OF Cons.prems]
    by (simp add: k api_run_Cons del: api_run.simps)
qed simp

lemma start_load_failure_stuck:
  assumes "PsiphonStart eng a s = (code, t, s')" "writer s = None" "code \<in> {- 3, - 4, - 5}"
  shows "writer_stuck s'"
proof (cases rule: start_enter_cases [of s])
  case (entered s1)
  show ?thesis
  proof (cases rule: start_attach_cases [of a "next_id s" s1])
    case (refused code' s2)
    then show ?thesis using assms entered
      by (auto simp: PsiphonStart_def start_attach_def SetNoticeWriter_def split: if_splits option.splits)
  next
    case (attached s2)
    then show ?thesis using assms entered
      by (cases rule: start_load_cases [of eng a s2]) (auto simp: PsiphonStart_def writer_stuck_def)
  qed
qed (use assms in \<open>auto simp: PsiphonStart_def\<close>)

text \<open>
  A start that fails because its configuration cannot be read, loaded or committed leaves the
  notice writer set: whatever calls follow, in any order and with any arguments and files, no later
  start of the same process succeeds.
\<close>

lemma failed_start_is_final:
  assumes "PsiphonStart eng a s = (code, t, s')" "writer s = None" "code \<in> {- 3, - 4, - 5}"
  shows "startOK \<notin> set (fst (api_run ks s'))"
  by (rule api_run_stuck) (rule start_load_failure_stuck [OF assms])

definition dummy_config :: config where
  "dummy_config = \<lparr>DataRootDirectory = [], MigrateDataStoreDirectory = [],
     MigrateObfuscatedServerListDownloadDirectory = [], MigrateRemoteServerListDownloadFilename = [],
     EgressRegion = [], EmitDiagnosticNotices = False\<rparr>"

text \<open>An engine that has one good configuration file.\<close>

definition sample_engine :: engine where
  "sample_engine = \<lparr>ReadFile = (\<lambda>p. if p = ''c.json'' then Some [1] else None),
     LoadConfig = (\<lambda>b. Some dummy_config), Commit = Some, join_path = (\<lambda>a b. a @ ''/'' @ b),
     error_notice = (\<lambda>m. [0]), OpenDataStore = (\<lambda>c. True), ImportEmbeddedServerEntries = (\<lambda>p. True),
     NewController = (\<lambda>c. True)\<rparr>"

definition sample_args :: "string \<Rightarrow> start_args" where
  "sample_args p = go_args (Some p) None (Some ''data'') None"

lemmas sample_defs = sample_engine_def sample_args_def go_args_def go_string_def PsiphonStart_def
  start_enter_def start_attach_def start_load_def SetNoticeWriter_def init_bridge_def

lemma runTunnel_frame [simp]:
  "running (runTunnel eng l c i s) = False" "cancel (runTunnel eng l c i s) = None"
  "writer (runTunnel eng l c i s) = None" "i \<in> done_closed (runTunnel eng l c i s)"
  "doneCh (runTunnel eng l c i s) = doneCh s"
  by (simp_all add: runTunnel_def close_done_def ResetNoticeWriter_def tunnel_stopped_def)

lemma start_success:
  assumes "PsiphonStart eng a s = (startOK, t, s')"
  obtains c where "t = Some (next_id s, c)" "running s'" "writer s' = Some (next_id s)"
    "cancel s' = Some (next_id s)" "doneCh s' = Some (next_id s)" "noticeCh s' = Some (next_id s)"
    "done_closed s' = done_closed s"
proof (cases rule: start_enter_cases [of s])
  case (busy s1)
  then show ?thesis using assms by (simp add: PsiphonStart_def)
next
  case (entered s1)
  show ?thesis
  proof (cases rule: start_attach_cases [of a "next_id s" s1])
    case (refused code s2)
    then show ?thesis using assms entered by (simp add: PsiphonStart_def)
  next
    case (attached s2)
    show ?thesis
    proof (cases rule: start_load_cases [of eng a s2])
      case (loaded c)
      then have "t = Some (next_id s, c)" "s' = start_publish (next_id s) s2"
        using assms entered(1) attached(1) by (simp_all add: PsiphonStart_def)
      then show ?thesis by (intro that [of c]) (simp_all add: start_publish_def attached(5) entered)
    qed (use assms entered attached in \<open>simp add: PsiphonStart_def\<close>)
  qed
qed

text \<open>
  The life of a tunnel: after a start that returns 0, the bridge reports a running tunnel and
  every further start is refused with -1; a stop cancels the tunnel's context and waits until its
  goroutine is done; when that is so, nothing runs, and the next start with a configuration that
  loads and commits returns 0 again.
\<close>

lemma start_stop_restart:
  assumes "PsiphonStart eng a s = (startOK, Some (i, c), s1)" "i \<notin> done_closed s"
    and "configPath a' \<noteq> []" "dataRootDirectory a' \<noteq> []" "ReadFile eng' (configPath a') = Some json"
    and "LoadConfig eng' json = Some c'" "Commit eng' (configure eng' a' c') \<noteq> None"
  shows "PsiphonIsRunning s1 = 1 \<and> fst (PsiphonStart eng' a' s1) = startErrAlreadyRunning \<and>
    i \<in> cancelled (PsiphonStop s1) \<and> \<not> stop_returns (PsiphonStop s1) \<and>
    (let s2 = runTunnel eng (serverListPath a) c i (PsiphonStop s1)
     in stop_returns s2 \<and> PsiphonIsRunning s2 = 0 \<and> fst (PsiphonStart eng' a' s2) = startOK)"
proof -
  obtain c0 where 1: "i = next_id s" "running s1" "writer s1 = Some i" "cancel s1 = Some i"
    "doneCh s1 = Some i" "done_closed s1 = done_closed s"
    using start_success [OF assms(1)] by (metis Pair_inject option.inject)
  have 2: "doneCh (PsiphonStop s1) = Some i" "done_closed (PsiphonStop s1) = done_closed s"
    "i \<in> cancelled (PsiphonStop s1)" using 1 by (simp_all add: PsiphonStop_def)
  have 3: "fst (PsiphonStart eng' a' s1) = startErrAlreadyRunning"
    using 1 by (simp add: PsiphonStart_def start_enter_def)
  have 4: "fst (PsiphonStart eng' a' (runTunnel eng (serverListPath a) c i (PsiphonStop s1))) = startOK"
    using assms(3-) by (subst start_ok_iff) auto
  show ?thesis using 1 2 3 4 assms(2) by (simp add: PsiphonIsRunning_def stop_returns_def Let_def)
qed

end
