(* ===== verification/BridgeRun.thy ===== *)
theory BridgeRun
  imports Bridge
begin

text \<open>
  The bridge under concurrent calls: each start goes through the steps between which
  \<open>PsiphonStart\<close> and \<open>runTunnel\<close> do not hold the lock, and the steps of several starts, of
  stops, polls and the engine's notices interleave in any order. Each start has a phase.
\<close>

datatype phase = Entered start_args | Refused | Loading start_args | LoadFailed | Loaded start_args config
  | Launched start_args config | Running | Stopping | Resetting | Finished

record bsys =
  br :: bridge
  phase_of :: "nat \<Rightarrow> phase option"

definition init_bsys :: bsys where
  "init_bsys = \<lparr>br = init_bridge, phase_of = (\<lambda>i. None)\<rparr>"

definition advance :: "nat \<Rightarrow> phase \<Rightarrow> bridge \<Rightarrow> bsys \<Rightarrow> bsys" where
  "advance i p b s = \<lparr>br = b, phase_of = (phase_of s)(i \<mapsto> p)\<rparr>"

inductive bridge_step :: "bsys \<Rightarrow> bsys \<Rightarrow> bool" where
  Busy: "start_enter (br s) = Inl (code, b) \<Longrightarrow> bridge_step s (s\<lparr>br := b\<rparr>)"
| Enter: "start_enter (br s) = Inr (i, b) \<Longrightarrow> bridge_step s (advance i (Entered a) b s)"
| Refuse: "phase_of s i = Some (Entered a) \<Longrightarrow> start_attach a i (br s) = Inl (code, b) \<Longrightarrow>
    bridge_step s (advance i Refused b s)"
| Attach: "phase_of s i = Some (Entered a) \<Longrightarrow> start_attach a i (br s) = Inr b \<Longrightarrow>
    bridge_step s (advance i (Loading a) b s)"
| Fail: "phase_of s i = Some (Loading a) \<Longrightarrow> start_load eng a (br s) = Inl (code, b) \<Longrightarrow>
    bridge_step s (advance i LoadFailed b s)"
| Load: "phase_of s i = Some (Loading a) \<Longrightarrow> start_load eng a (br s) = Inr c \<Longrightarrow>
    bridge_step s (advance i (Loaded a c) (br s) s)"
| Publish: "phase_of s i = Some (Loaded a c) \<Longrightarrow>
    bridge_step s (advance i (Launched a c) (start_publish i (br s)) s)"
| Body: "phase_of s i = Some (Launched a c) \<Longrightarrow>
    bridge_step s (advance i Running (tunnel_body eng (serverListPath a) c i (br s)) s)"
| Stopped: "phase_of s i = Some Running \<Longrightarrow> bridge_step s (advance i Stopping (tunnel_stopped i (br s)) s)"
| Reset: "phase_of s i = Some Stopping \<Longrightarrow> bridge_step s (advance i Resetting (ResetNoticeWriter (br s)) s)"
| Close: "phase_of s i = Some Resetting \<Longrightarrow> bridge_step s (advance i Finished (close_done i (br s)) s)"
| Engine: "bridge_step s (s\<lparr>br := emit_notice n (br s)\<rparr>)"
| Stop: "bridge_step s (s\<lparr>br := PsiphonStop (br s)\<rparr>)"
| Poll: "bridge_step s (s\<lparr>br := snd (PsiphonPollNotice (br s))\<rparr>)"

inductive bridge_reachable :: "bsys \<Rightarrow> bool" where
  init: "bridge_reachable init_bsys"
| step: "bridge_reachable s \<Longrightarrow> bridge_step s t \<Longrightarrow> bridge_reachable t"

text \<open>The phases in which a start owns the notice writer, and those in which its tunnel is up.\<close>

fun holds :: "phase option \<Rightarrow> bool" where
  "holds None = False"
| "holds (Some p) = (case p of Entered _ \<Rightarrow> False | Refused \<Rightarrow> False | Resetting \<Rightarrow> False | Finished \<Rightarrow> False
     | _ \<Rightarrow> True)"

fun up :: "phase option \<Rightarrow> bool" where
  "up None = False"
| "up (Some p) = (case p of Launched _ _ \<Rightarrow> True | Running \<Rightarrow> True | _ \<Rightarrow> False)"

lemma up_holds: "up p \<Longrightarrow> holds p"
  by (cases p rule: up.cases) (auto split: phase.splits)

definition bridge_inv :: "bsys \<Rightarrow> bool" where
  "bridge_inv s \<longleftrightarrow> (\<forall>i. holds (phase_of s i) \<longleftrightarrow> writer (br s) = Some i) \<and>
     (running (br s) \<longleftrightarrow> (\<exists>i. up (phase_of s i))) \<and>
     (\<forall>i. up (phase_of s i) \<longrightarrow> cancel (br s) = Some i \<and> doneCh (br s) = Some i) \<and>
     (\<forall>i. i \<in> done_closed (br s) \<longleftrightarrow> phase_of s i = Some Finished) \<and>
     (\<forall>i \<ge> next_id (br s). phase_of s i = None)"

lemma advance_sel [simp]:
  "br (advance i p b s) = b" "phase_of (advance i p b s) j = (if j = i then Some p else phase_of s j)"
  by (simp_all add: advance_def)

text \<open>A step of the bridge that the invariant does not see.\<close>

lemma inv_frame:
  assumes "bridge_inv s" "phase_of t = phase_of s" "writer (br t) = writer (br s)" "running (br t) = running (br s)"
    "cancel (br t) = cancel (br s)" "doneCh (br t) = doneCh (br s)" "done_closed (br t) = done_closed (br s)"
    "next_id (br t) = next_id (br s)"
  shows "bridge_inv t"
  using assms by (simp add: bridge_inv_def)

text \<open>A step of one start that keeps the state of the bridge.\<close>

lemma inv_advance:
  assumes "bridge_inv s" "writer b = writer (br s)" "running b = running (br s)" "cancel b = cancel (br s)"
    "doneCh b = doneCh (br s)" "done_closed b = done_closed (br s)" "next_id b = next_id (br s)"
    "holds (Some p) = holds (phase_of s i)" "up (Some p) = up (phase_of s i)"
    "phase_of s i \<noteq> None" "p \<noteq> Finished" "phase_of s i \<noteq> Some Finished"
  shows "bridge_inv (advance i p b s)"
proof -
  have "\<exists>j. up (phase_of s j) \<Longrightarrow> \<exists>j. up (phase_of (advance i p b s) j)" using assms(9) by auto
  moreover have "\<exists>j. up (phase_of (advance i p b s) j) \<Longrightarrow> \<exists>j. up (phase_of s j)"
    using assms(9) by (auto split: if_splits simp del: up.simps)
  ultimately have "(\<exists>j. up (phase_of s j)) = (\<exists>j. up (phase_of (advance i p b s) j))" by blast
  then show ?thesis using assms unfolding bridge_inv_def by (auto simp del: up.simps holds.simps split: if_splits)
qed

lemma start_enter_frame:
  "start_enter s = Inl (code, t) \<Longrightarrow> writer t = writer s \<and> running t = running s \<and> cancel t = cancel s \<and>
     doneCh t = doneCh s \<and> done_closed t = done_closed s \<and> next_id t = next_id s"
  "start_enter s = Inr (i, t) \<Longrightarrow> i = next_id s \<and> writer t = writer s \<and> running t = running s \<and>
     cancel t = cancel s \<and> doneCh t = doneCh s \<and> done_closed t = done_closed s \<and> next_id t = Suc (next_id s) \<and>
     \<not> running s"
  by (auto simp: start_enter_def split: if_splits)

lemma start_attach_frame:
  "start_attach a i s = Inl (code, t) \<Longrightarrow> writer t = writer s \<and> running t = running s \<and> cancel t = cancel s \<and>
     doneCh t = doneCh s \<and> done_closed t = done_closed s \<and> next_id t = next_id s"
  "start_attach a i s = Inr t \<Longrightarrow> writer s = None \<and> t = s\<lparr>writer := Some i\<rparr>"
  by (auto simp: start_attach_def SetNoticeWriter_def split: if_splits option.splits)

lemma start_load_frame:
  "start_load eng a s = Inl (code, t) \<Longrightarrow> writer t = writer s \<and> running t = running s \<and> cancel t = cancel s \<and>
     doneCh t = doneCh s \<and> done_closed t = done_closed s \<and> next_id t = next_id s"
  by (auto simp: start_load_def split: option.splits)

lemma PsiphonStop_frame [simp]:
  "writer (PsiphonStop s) = writer s" "running (PsiphonStop s) = running s" "cancel (PsiphonStop s) = cancel s"
  "doneCh (PsiphonStop s) = doneCh s" "done_closed (PsiphonStop s) = done_closed s"
  "next_id (PsiphonStop s) = next_id s"
  by (simp_all add: PsiphonStop_def split: option.split)

lemma PsiphonPollNotice_frame [simp]:
  "writer (snd (PsiphonPollNotice s)) = writer s" "running (snd (PsiphonPollNotice s)) = running s"
  "cancel (snd (PsiphonPollNotice s)) = cancel s" "doneCh (snd (PsiphonPollNotice s)) = doneCh s"
  "done_closed (snd (PsiphonPollNotice s)) = done_closed s" "next_id (snd (PsiphonPollNotice s)) = next_id s"
  by (simp_all add: PsiphonPollNotice_def split: option.split prod.split)

lemma invD:
  assumes "bridge_inv s"
  shows "holds (phase_of s i) \<longleftrightarrow> writer (br s) = Some i"
    "up (phase_of s i) \<Longrightarrow> running (br s)"
    "up (phase_of s i) \<Longrightarrow> cancel (br s) = Some i"
    "up (phase_of s i) \<Longrightarrow> doneCh (br s) = Some i"
    "next_id (br s) \<le> i \<Longrightarrow> phase_of s i = None"
    "i \<in> done_closed (br s) \<longleftrightarrow> phase_of s i = Some Finished"
    "running (br s) \<Longrightarrow> \<exists>j. up (phase_of s j)"
  using assms by (auto simp: bridge_inv_def)

lemma holder_unique: "bridge_inv s \<Longrightarrow> holds (phase_of s i) \<Longrightarrow> holds (phase_of s j) \<Longrightarrow> i = j"
  using invD(1) [of s i] invD(1) [of s j] by simp

lemma inv_enter:
  assumes "bridge_inv s" "start_enter (br s) = Inr (i, b)"
  shows "bridge_inv (advance i (Entered a) b s)"
proof -
  have i: "phase_of s (next_id (br s)) = None" using invD(5) [OF assms(1)] by simp
  then have "up (phase_of (advance i (Entered a) b s) j) = up (phase_of s j)"
    "holds (phase_of (advance i (Entered a) b s) j) = holds (phase_of s j)" for j
    using start_enter_frame(2) [OF assms(2)] by auto
  then show ?thesis
    using assms(1) start_enter_frame(2) [OF assms(2)] i unfolding bridge_inv_def
    by (auto simp del: up.simps holds.simps)
qed

lemma inv_attach:
  assumes "bridge_inv s" "phase_of s i = Some (Entered a)" "start_attach a i (br s) = Inr b"
  shows "bridge_inv (advance i (Loading a) b s)"
proof -
  have free: "\<not> holds (phase_of s j)" for j
    using start_attach_frame(2) [OF assms(3)] invD(1) [OF assms(1), of j] by simp
  have "up (phase_of (advance i (Loading a) b s) j) = up (phase_of s j)" for j using assms(2) by simp
  moreover have "holds (phase_of (advance i (Loading a) b s) j) \<longleftrightarrow> j = i" for j using free by simp
  ultimately show ?thesis
    using assms start_attach_frame(2) [OF assms(3)] unfolding bridge_inv_def
    by (auto simp del: up.simps holds.simps)
qed

lemma inv_publish:
  assumes "bridge_inv s" "phase_of s i = Some (Loaded a c)"
  shows "bridge_inv (advance i (Launched a c) (start_publish i (br s)) s)"
proof -
  have w: "holds (phase_of s j) \<longleftrightarrow> j = i" for j
    using invD(1) [OF assms(1), of i] invD(1) [OF assms(1), of j] assms(2) by auto
  have "up (phase_of (advance i (Launched a c) (start_publish i (br s)) s) j) \<longleftrightarrow> j = i" for j
    using up_holds [of "phase_of s j"] w by auto
  moreover have "holds (phase_of (advance i (Launched a c) (start_publish i (br s)) s) j) \<longleftrightarrow> holds (phase_of s j)" for j
    using assms(2) by simp
  ultimately show ?thesis
    using assms unfolding bridge_inv_def by (auto simp: start_publish_def simp del: up.simps holds.simps)
qed

lemma inv_stopped:
  assumes "bridge_inv s" "phase_of s i = Some Running"
  shows "bridge_inv (advance i Stopping (tunnel_stopped i (br s)) s)"
proof -
  have "\<not> up (phase_of (advance i Stopping (tunnel_stopped i (br s)) s) j)" for j
    using up_holds [of "phase_of s j"] holder_unique [OF assms(1), of i j] assms(2) by auto
  moreover have "holds (phase_of (advance i Stopping (tunnel_stopped i (br s)) s) j) \<longleftrightarrow> holds (phase_of s j)" for j
    using assms(2) by simp
  ultimately show ?thesis
    using assms unfolding bridge_inv_def by (auto simp: tunnel_stopped_def simp del: up.simps holds.simps)
qed

lemma inv_reset:
  assumes "bridge_inv s" "phase_of s i = Some Stopping"
  shows "bridge_inv (advance i Resetting (ResetNoticeWriter (br s)) s)"
proof -
  have "\<not> holds (phase_of (advance i Resetting (ResetNoticeWriter (br s)) s) j)" for j
    using holder_unique [OF assms(1), of i j] assms(2) by auto
  moreover have "up (phase_of (advance i Resetting (ResetNoticeWriter (br s)) s) j) \<longleftrightarrow> up (phase_of s j)" for j
    using assms(2) by simp
  ultimately show ?thesis
    using assms unfolding bridge_inv_def by (auto simp: ResetNoticeWriter_def simp del: up.simps holds.simps)
qed

lemma inv_close:
  assumes "bridge_inv s" "phase_of s i = Some Resetting"
  shows "bridge_inv (advance i Finished (close_done i (br s)) s)"
proof -
  have "up (phase_of (advance i Finished (close_done i (br s)) s) j) \<longleftrightarrow> up (phase_of s j)"
    "holds (phase_of (advance i Finished (close_done i (br s)) s) j) \<longleftrightarrow> holds (phase_of s j)" for j
    using assms(2) by simp_all
  then show ?thesis
    using assms unfolding bridge_inv_def by (auto simp: close_done_def simp del: up.simps holds.simps)
qed

lemma bridge_step_inv: "bridge_step s t \<Longrightarrow> bridge_inv s \<Longrightarrow> bridge_inv t"
proof (induction rule: bridge_step.induct)
  case (Busy s code b)
  then show ?case by (auto intro!: inv_frame [OF Busy(2)] dest: start_enter_frame)
next
  case (Refuse s i a code b)
  then show ?case by (auto intro!: inv_advance [OF Refuse(3)] dest: start_attach_frame)
next
  case (Fail s i a eng code b)
  then show ?case by (auto intro!: inv_advance [OF Fail(3)] dest: start_load_frame)
next
  case (Load s i a eng c)
  then show ?case by (auto intro!: inv_advance [OF Load(3)])
next
  case (Body s i a c eng)
  then show ?case by (auto intro!: inv_advance [OF Body(2)])
next
  case (Engine s n)
  then show ?case by (auto intro!: inv_frame [OF Engine])
next
  case (Stop s)
  then show ?case by (auto intro!: inv_frame [OF Stop])
next
  case (Poll s)
  then show ?case by (auto intro!: inv_frame [OF Poll])
qed (rule inv_enter inv_attach inv_publish inv_stopped inv_reset inv_close; assumption)+

lemma init_inv: "bridge_inv init_bsys"
  by (simp add: bridge_inv_def init_bsys_def init_bridge_def)

lemma reachable_inv: "bridge_reachable s \<Longrightarrow> bridge_inv s"
  by (induction rule: bridge_reachable.induct) (auto intro: init_inv bridge_step_inv)

text \<open>
  C14: whatever starts, stops, polls and tunnels interleave, at most one tunnel is up; the bridge
  says that one runs exactly when one is up, a stop cancels and waits for that very tunnel, and the
  notice writer is its own, so that the notices of the engine go to the channel that was made for it.
\<close>

theorem bridge_single_tunnel:
  assumes "bridge_reachable s"
  shows "(running (br s) \<longleftrightarrow> (\<exists>i. up (phase_of s i))) \<and>
    (\<forall>i. up (phase_of s i) \<longrightarrow> (\<forall>j. up (phase_of s j) \<longrightarrow> j = i) \<and> i \<in> cancelled (PsiphonStop (br s)) \<and>
       \<not> stop_returns (PsiphonStop (br s)) \<and> (\<forall>n. emit_notice n (br s) = push i (Raw n) (br s)))"
proof (intro conjI allI impI)
  note inv = reachable_inv [OF assms]
  show "running (br s) \<longleftrightarrow> (\<exists>i. up (phase_of s i))" using invD(2,7) [OF inv] by blast
  fix i
  assume up: "up (phase_of s i)"
  have w: "writer (br s) = Some i" using invD(1) [OF inv] up_holds [OF up] by blast
  then show "emit_notice n (br s) = push i (Raw n) (br s)" for n by (simp add: emit_notice_def)
  show "j = i" if "up (phase_of s j)" for j
    using holder_unique [OF inv] up_holds [OF that] up_holds [OF up] by blast
  show "i \<in> cancelled (PsiphonStop (br s))" using invD(3) [OF inv up] by (simp add: PsiphonStop_def)
  have "i \<notin> done_closed (br s)" using invD(6) [OF inv, of i] up by auto
  then show "\<not> stop_returns (PsiphonStop (br s))" using invD(4) [OF inv up] by (simp add: stop_returns_def)
qed

section \<open>A second start before the first has published its tunnel\<close>

definition race_run :: "bool \<Rightarrow> bsys" where
  "race_run second =
    (let a = sample_args ''c.json'';
         enter = (\<lambda>s. case start_enter (br s) of Inr (i, b) \<Rightarrow> advance i (Entered a) b s | Inl _ \<Rightarrow> s);
         attach = (\<lambda>s. case start_attach a 0 (br s) of Inr b \<Rightarrow> advance 0 (Loading a) b s | Inl _ \<Rightarrow> s);
         load = (\<lambda>s. case start_load sample_engine a (br s) of
            Inr c \<Rightarrow> advance 0 (Loaded a (configure sample_engine a dummy_config)) (br s) s | Inl _ \<Rightarrow> s);
         publish = (\<lambda>s. advance 0 (Launched a (configure sample_engine a dummy_config))
            (start_publish 0 (br s)) s)
     in publish ((if second then enter else id) (load (attach (enter init_bsys)))))"

lemma race_reachable: "bridge_reachable (race_run second)"
proof -
  define a where "a = sample_args ''c.json''"
  define c where "c = configure sample_engine a dummy_config"
  define b1 where "b1 = init_bridge\<lparr>next_id := 1, chans := (chans init_bridge)(0 := make_chan 1024), noticeCh := Some 0\<rparr>"
  define b2 where "b2 = b1\<lparr>writer := Some 0\<rparr>"
  define b3 where "b3 = b2\<lparr>next_id := 2, chans := (chans b2)(1 := make_chan 1024), noticeCh := Some 1\<rparr>"
  have 1: "start_enter (br init_bsys) = Inr (0, b1)"
    by (simp add: start_enter_def init_bsys_def b1_def init_bridge_def)
  have 2: "start_attach a 0 b1 = Inr b2"
    by (simp add: start_attach_def SetNoticeWriter_def b2_def b1_def init_bridge_def a_def sample_args_def
        go_args_def go_string_def)
  have 3: "start_load sample_engine a b2 = Inr c"
    by (simp add: start_load_def c_def a_def sample_args_def go_args_def go_string_def sample_engine_def)
  have 4: "start_enter b2 = Inr (1, b3)"
    by (simp add: start_enter_def b3_def b2_def b1_def init_bridge_def numeral_2_eq_2)
  define s3 where "s3 = advance 0 (Loaded a c) b2 (advance 0 (Loading a) b2 (advance 0 (Entered a) b1 init_bsys))"
  define s4 where "s4 = (if second then advance 1 (Entered a) b3 s3 else s3)"
  have "bridge_reachable (advance 0 (Loading a) b2 (advance 0 (Entered a) b1 init_bsys))"
    by (rule bridge_reachable.step [OF bridge_reachable.step [OF init bridge_step.Enter [OF 1]]])
      (rule bridge_step.Attach; simp add: 2)
  then have s3: "bridge_reachable s3"
    by (rule bridge_reachable.step)
      (use bridge_step.Load [of "advance 0 (Loading a) b2 (advance 0 (Entered a) b1 init_bsys)" 0 a sample_engine c] 3
        in \<open>simp add: s3_def\<close>)
  have s4: "bridge_reachable s4"
  proof (cases second)
    case True
    have "start_enter (br s3) = Inr (1, b3)" by (simp add: s3_def 4)
    from bridge_reachable.step [OF s3 bridge_step.Enter [OF this]] show ?thesis by (simp add: s4_def True)
  qed (simp add: s4_def s3)
  have p: "phase_of s4 0 = Some (Loaded a c)" by (simp add: s4_def s3_def)
  have "race_run second = advance 0 (Launched a c) (start_publish 0 (br s4)) s4"
    by (simp add: race_run_def s4_def s3_def Let_def 1 2 3 4 flip: a_def c_def)
  then show ?thesis using bridge_reachable.step [OF s4 bridge_step.Publish [OF p]] by simp
qed

lemma race_phase: "up (phase_of (race_run second) 0)"
  by (simp add: race_run_def Let_def)

theorem bridge_single_tunnel_witness:
  "running (br (race_run True)) \<and> 0 \<in> cancelled (PsiphonStop (br (race_run True)))"
  using bridge_single_tunnel [OF race_reachable [of True]] race_phase [of True] by blast

text \<open>
  The lock is released between the check for a running tunnel and the publication of the new one. A
  second start in between replaces the channel that is polled, though its own start is refused: the
  tunnel that comes up writes to a channel that no poll reads.
\<close>

lemma racing_start_hides_notices:
  "\<exists>s. bridge_reachable s \<and> running (br s) \<and> up (phase_of s 0) \<and> writer (br s) = Some 0 \<and>
     fst (PsiphonPollNotice (emit_notice n (br s))) = None \<and> chan_queue (chans (emit_notice n (br s)) 0) = [Raw n]"
proof (intro exI conjI)
  show "bridge_reachable (race_run True)" by (rule race_reachable)
  show "up (phase_of (race_run True) 0)" by (rule race_phase)
  note d = race_run_def Let_def init_bsys_def sample_defs start_publish_def
  show "running (br (race_run True))" "writer (br (race_run True)) = Some 0"
    by (simp_all add: d)
  show "fst (PsiphonPollNotice (emit_notice n (br (race_run True)))) = None"
    "chan_queue (chans (emit_notice n (br (race_run True))) 0) = [Raw n]"
    by (simp_all add: d PsiphonPollNotice_def emit_notice_def push_def try_recv_def pushRaw_def try_send_def make_chan_def)
qed

end
