(* ===== verification/GoStrings.thy ===== *)
theory GoStrings
  imports Prelude "HOL-Library.Sublist"
begin

text \<open>
  The string functions of Go's standard library that the modelled code calls. A Go string is the
  list of its bytes; \<open>prefix\<close> and \<open>suffix\<close> of the library are \<open>strings.HasPrefix\<close> and
  \<open>strings.HasSuffix\<close>.
\<close>

text \<open>\<open>strings.Index\<close>: the first position of a substring.\<close>

fun strings_Index :: "string \<Rightarrow> string \<Rightarrow> nat option" where
  "strings_Index [] sub = (if sub = [] then Some 0 else None)"
| "strings_Index (c # s) sub = (if prefix sub (c # s) then Some 0 else map_option Suc (strings_Index s sub))"

lemma strings_Index_None: "strings_Index s sub = None \<Longrightarrow> s \<noteq> u @ sub @ v"
proof (induction s sub arbitrary: u rule: strings_Index.induct)
  case (2 c s sub)
  then show ?case by (cases u) (auto split: if_splits)
qed (auto split: if_splits)

lemma strings_Index_Some:
  "strings_Index s sub = Some j \<Longrightarrow> prefix sub (drop j s) \<and> j \<le> length s \<and> (\<forall>i<j. \<not> prefix sub (drop i s))"
proof (induction s sub arbitrary: j rule: strings_Index.induct)
  case (2 c s sub)
  show ?case
  proof (cases "prefix sub (c # s)")
    case False
    then obtain k where k: "strings_Index s sub = Some k" "j = Suc k" using 2 by auto
    have "\<not> prefix sub (drop i (c # s))" if "i < j" for i
      using 2(1) [OF False k(1)] that False k by (cases i) auto
    with 2(1) [OF False k(1)] k show ?thesis by simp
  qed (use 2 in simp)
qed (auto split: if_splits)

text \<open>\<open>strings.Contains\<close>, \<open>strings.CutPrefix\<close> (its first result) and \<open>strings.TrimSuffix\<close>\<close>

definition strings_Contains :: "string \<Rightarrow> string \<Rightarrow> bool" where
  "strings_Contains s sub \<longleftrightarrow> strings_Index s sub \<noteq> None"

definition CutPrefix :: "string \<Rightarrow> string \<Rightarrow> string" where
  "CutPrefix s p = (if prefix p s then drop (length p) s else s)"

definition TrimSuffix :: "string \<Rightarrow> string \<Rightarrow> string" where
  "TrimSuffix s p = (if suffix p s then take (length s - length p) s else s)"

lemma CutPrefix_append [simp]: "CutPrefix (p @ s) p = s"
  by (simp add: CutPrefix_def)

text \<open>\<open>strings.Split\<close> with a separator of one byte\<close>

fun strings_Split :: "string \<Rightarrow> char \<Rightarrow> string list" where
  "strings_Split [] sep = [[]]"
| "strings_Split (c # s) sep =
    (if c = sep then [] # strings_Split s sep
     else (case strings_Split s sep of [] \<Rightarrow> [[c]] | w # ws \<Rightarrow> (c # w) # ws))"

lemma strings_Split_not_Nil [simp]: "strings_Split s sep \<noteq> []"
  by (induction s) (auto split: list.splits)

text \<open>Splitting keeps every byte but the separators.\<close>

lemma strings_Split_pieces: "w \<in> set (strings_Split s sep) \<Longrightarrow> sep \<notin> set w \<and> set w \<subseteq> set s"
proof (induction s arbitrary: w)
  case (Cons c s)
  obtain v vs where v: "strings_Split s sep = v # vs" by (cases "strings_Split s sep") auto
  have ih: "sep \<notin> set x" "set x \<subseteq> set s" if "x \<in> set (v # vs)" for x using Cons.IH [of x] that v by simp_all
  show ?case using Cons.prems v ih [of v] ih [of w] by (auto split: if_splits)
qed simp

text \<open>Digits, and \<open>strconv.Atoi\<close>: an optional sign and decimal digits, within 64 bits\<close>

definition is_digit :: "char \<Rightarrow> bool" where
  "is_digit c \<longleftrightarrow> of_char CHR ''0'' \<le> (of_char c :: nat) \<and> of_char c \<le> (of_char CHR ''9'' :: nat)"

fun decimal :: "int \<Rightarrow> string \<Rightarrow> int option" where
  "decimal n [] = Some n"
| "decimal n (c # s) = (if is_digit c then decimal (10 * n + (of_char c - 48)) s else None)"

definition Atoi :: "string \<Rightarrow> int option" where
  "Atoi s = (let neg = (s \<noteq> [] \<and> hd s = CHR ''-'');
       digits = (if s \<noteq> [] \<and> (hd s = CHR ''-'' \<or> hd s = CHR ''+'') then tl s else s)
     in if digits = [] then None
        else (case decimal 0 digits of None \<Rightarrow> None
          | Some n \<Rightarrow> (let v = (if neg then - n else n)
              in if - (2 ^ 63) \<le> v \<and> v < 2 ^ 63 then Some v else None)))"

lemma Atoi_range: "Atoi s = Some v \<Longrightarrow> - (2 ^ 63) \<le> v \<and> v < 2 ^ 63"
  by (auto simp: Atoi_def Let_def split: if_splits option.splits)

text \<open>The value when the error is ignored: zero, or the nearest 64 bit value.\<close>

definition Atoi_value :: "string \<Rightarrow> int" where
  "Atoi_value s = (case Atoi s of Some v \<Rightarrow> v
     | None \<Rightarrow> (let neg = (s \<noteq> [] \<and> hd s = CHR ''-'');
           digits = (if s \<noteq> [] \<and> (hd s = CHR ''-'' \<or> hd s = CHR ''+'') then tl s else s)
         in if digits = [] \<or> decimal 0 digits = None then 0 else if neg then - (2 ^ 63) else 2 ^ 63 - 1))"

lemma Atoi_Nil [simp]: "Atoi [] = None"
  by (simp add: Atoi_def)

text \<open>
  \<open>utf8.DecodeRune\<close>, the rune and its width, and the runes that ranging over a string yields.
  An invalid encoding is the replacement rune with width 1.
\<close>

definition byte_in :: "nat \<Rightarrow> nat \<Rightarrow> string \<Rightarrow> nat \<Rightarrow> bool" where
  "byte_in lo hi s i \<longleftrightarrow> i < length s \<and> lo \<le> of_char (s ! i) \<and> of_char (s ! i) \<le> hi"

definition low6 :: "string \<Rightarrow> nat \<Rightarrow> nat" where
  "low6 s i = of_char (s ! i) mod 64"

definition DecodeRune :: "string \<Rightarrow> nat \<times> nat" where
  "DecodeRune s = (let b = of_char (s ! 0) in
     if b < 0x80 then (b, 1)
     else if 0xC2 \<le> b \<and> b \<le> 0xDF \<and> byte_in 0x80 0xBF s 1 then (b mod 32 * 64 + low6 s 1, 2)
     else if 0xE0 \<le> b \<and> b \<le> 0xEF \<and>
         byte_in (if b = 0xE0 then 0xA0 else 0x80) (if b = 0xED then 0x9F else 0xBF) s 1 \<and> byte_in 0x80 0xBF s 2
       then (b mod 16 * 4096 + low6 s 1 * 64 + low6 s 2, 3)
     else if 0xF0 \<le> b \<and> b \<le> 0xF4 \<and>
         byte_in (if b = 0xF0 then 0x90 else 0x80) (if b = 0xF4 then 0x8F else 0xBF) s 1 \<and>
         byte_in 0x80 0xBF s 2 \<and> byte_in 0x80 0xBF s 3
       then (b mod 8 * 262144 + low6 s 1 * 4096 + low6 s 2 * 64 + low6 s 3, 4)
     else (0xFFFD, 1))"

lemma DecodeRune_width: "1 \<le> snd (DecodeRune s)"
  by (simp add: DecodeRune_def Let_def)

function runes :: "string \<Rightarrow> nat list" where
  "runes s = (if s = [] then [] else (case DecodeRune s of (r, n) \<Rightarrow> r # runes (drop n s)))"
  by pat_completeness auto
termination
proof (relation "measure length")
  fix s :: string and r n
  assume "s \<noteq> []" "(r, n) = DecodeRune s"
  moreover from this have "1 \<le> n" using DecodeRune_width [of s] by (simp flip: \<open>(r, n) = _\<close>)
  ultimately show "(drop n s, s) \<in> measure length" by (cases s) auto
qed simp

declare runes.simps [simp del]

lemma runes_Nil [simp]: "runes [] = []"
  by (simp add: runes.simps)

lemma runes_ascii [simp]: "of_char c < (128 :: nat) \<Longrightarrow> runes (c # s) = of_char c # runes s"
  by (subst runes.simps) (simp add: DecodeRune_def)

end
