(* ===== verification/Protocols.thy ===== *)
theory Protocols
  imports GoStrings Lookups
begin

text \<open>
  The tunnel protocols of \<open>common/protocol/protocol.go\<close>: their names, their in-proxy variants,
  the predicates that classify them, the pruning of protocol lists and the check of a protocol
  that a client reports. A protocol is its name, as in the code.
\<close>

section \<open>Names\<close>

abbreviation (input) TUNNEL_PROTOCOL_SSH :: string where "TUNNEL_PROTOCOL_SSH \<equiv> ''SSH''"
abbreviation (input) TUNNEL_PROTOCOL_OBFUSCATED_SSH :: string where "TUNNEL_PROTOCOL_OBFUSCATED_SSH \<equiv> ''OSSH''"
abbreviation (input) TUNNEL_PROTOCOL_TLS_OBFUSCATED_SSH :: string where "TUNNEL_PROTOCOL_TLS_OBFUSCATED_SSH \<equiv> ''TLS-OSSH''"
abbreviation (input) TUNNEL_PROTOCOL_SHADOWSOCKS_OSSH :: string where "TUNNEL_PROTOCOL_SHADOWSOCKS_OSSH \<equiv> ''SHADOWSOCKS-OSSH''"
abbreviation (input) TUNNEL_PROTOCOL_UNFRONTED_MEEK :: string where "TUNNEL_PROTOCOL_UNFRONTED_MEEK \<equiv> ''UNFRONTED-MEEK-OSSH''"
abbreviation (input) TUNNEL_PROTOCOL_UNFRONTED_MEEK_HTTPS :: string where "TUNNEL_PROTOCOL_UNFRONTED_MEEK_HTTPS \<equiv> ''UNFRONTED-MEEK-HTTPS-OSSH''"
abbreviation (input) TUNNEL_PROTOCOL_UNFRONTED_MEEK_SESSION_TICKET :: string where "TUNNEL_PROTOCOL_UNFRONTED_MEEK_SESSION_TICKET \<equiv> ''UNFRONTED-MEEK-SESSION-TICKET-OSSH''"
abbreviation (input) TUNNEL_PROTOCOL_FRONTED_MEEK :: string where "TUNNEL_PROTOCOL_FRONTED_MEEK \<equiv> ''FRONTED-MEEK-OSSH''"
abbreviation (input) TUNNEL_PROTOCOL_FRONTED_MEEK_HTTP :: string where "TUNNEL_PROTOCOL_FRONTED_MEEK_HTTP \<equiv> ''FRONTED-MEEK-HTTP-OSSH''"
abbreviation (input) TUNNEL_PROTOCOL_QUIC_OBFUSCATED_SSH :: string where "TUNNEL_PROTOCOL_QUIC_OBFUSCATED_SSH \<equiv> ''QUIC-OSSH''"
abbreviation (input) TUNNEL_PROTOCOL_FRONTED_MEEK_QUIC_OBFUSCATED_SSH :: string where "TUNNEL_PROTOCOL_FRONTED_MEEK_QUIC_OBFUSCATED_SSH \<equiv> ''FRONTED-MEEK-QUIC-OSSH''"
abbreviation (input) TUNNEL_PROTOCOL_TAPDANCE_OBFUSCATED_SSH :: string where "TUNNEL_PROTOCOL_TAPDANCE_OBFUSCATED_SSH \<equiv> ''TAPDANCE-OSSH''"
abbreviation (input) TUNNEL_PROTOCOL_CONJURE_OBFUSCATED_SSH :: string where "TUNNEL_PROTOCOL_CONJURE_OBFUSCATED_SSH \<equiv> ''CONJURE-OSSH''"
abbreviation (input) INPROXY_PROTOCOL_WEBRTC :: string where "INPROXY_PROTOCOL_WEBRTC \<equiv> ''INPROXY-WEBRTC''"
abbreviation (input) FRONTING_TRANSPORT_HTTPS :: string where "FRONTING_TRANSPORT_HTTPS \<equiv> ''FRONTED-HTTPS''"
abbreviation (input) FRONTING_TRANSPORT_HTTP :: string where "FRONTING_TRANSPORT_HTTP \<equiv> ''FRONTED-HTTP''"
abbreviation (input) FRONTING_TRANSPORT_QUIC :: string where "FRONTING_TRANSPORT_QUIC \<equiv> ''FRONTED-QUIC''"

definition TunnelProtocolPlusInproxyWebRTC :: "string \<Rightarrow> string" where
  "TunnelProtocolPlusInproxyWebRTC protocol = INPROXY_PROTOCOL_WEBRTC @ ''-'' @ protocol"

definition TunnelProtocolMinusInproxy :: "string \<Rightarrow> string" where
  "TunnelProtocolMinusInproxy protocol = CutPrefix protocol (INPROXY_PROTOCOL_WEBRTC @ ''-'')"

definition TunnelProtocolUsesInproxy :: "string \<Rightarrow> bool" where
  "TunnelProtocolUsesInproxy protocol \<longleftrightarrow> prefix INPROXY_PROTOCOL_WEBRTC protocol"

section \<open>Classes of protocols\<close>

definition TunnelProtocolUsesTCP :: "string \<Rightarrow> bool" where
  "TunnelProtocolUsesTCP protocol \<longleftrightarrow> (let protocol = TunnelProtocolMinusInproxy protocol in
      protocol \<noteq> TUNNEL_PROTOCOL_QUIC_OBFUSCATED_SSH
      \<and> protocol \<noteq> TUNNEL_PROTOCOL_FRONTED_MEEK_QUIC_OBFUSCATED_SSH)"

definition TunnelProtocolIsObfuscatedSSH :: "string \<Rightarrow> bool" where
  "TunnelProtocolIsObfuscatedSSH protocol \<longleftrightarrow> (let protocol = TunnelProtocolMinusInproxy protocol in
      protocol = TUNNEL_PROTOCOL_OBFUSCATED_SSH)"

definition TunnelProtocolUsesObfuscatedSSH :: "string \<Rightarrow> bool" where
  "TunnelProtocolUsesObfuscatedSSH protocol \<longleftrightarrow> (let protocol = TunnelProtocolMinusInproxy protocol in
      protocol \<noteq> TUNNEL_PROTOCOL_SSH)"

definition TunnelProtocolUsesTLSOSSH :: "string \<Rightarrow> bool" where
  "TunnelProtocolUsesTLSOSSH protocol \<longleftrightarrow> (let protocol = TunnelProtocolMinusInproxy protocol in
      protocol = TUNNEL_PROTOCOL_TLS_OBFUSCATED_SSH)"

definition TunnelProtocolUsesFrontedMeek :: "string \<Rightarrow> bool" where
  "TunnelProtocolUsesFrontedMeek protocol \<longleftrightarrow> (let protocol = TunnelProtocolMinusInproxy protocol in
      protocol = TUNNEL_PROTOCOL_FRONTED_MEEK
      \<or> protocol = TUNNEL_PROTOCOL_FRONTED_MEEK_HTTP
      \<or> protocol = TUNNEL_PROTOCOL_FRONTED_MEEK_QUIC_OBFUSCATED_SSH)"

definition TunnelProtocolUsesMeekHTTP :: "string \<Rightarrow> bool" where
  "TunnelProtocolUsesMeekHTTP protocol \<longleftrightarrow> (let protocol = TunnelProtocolMinusInproxy protocol in
      protocol = TUNNEL_PROTOCOL_UNFRONTED_MEEK
      \<or> protocol = TUNNEL_PROTOCOL_FRONTED_MEEK_HTTP)"

definition TunnelProtocolUsesMeekHTTPNormalizer :: "string \<Rightarrow> bool" where
  "TunnelProtocolUsesMeekHTTPNormalizer protocol \<longleftrightarrow> (let protocol = TunnelProtocolMinusInproxy protocol in
      protocol = TUNNEL_PROTOCOL_UNFRONTED_MEEK)"

definition TunnelProtocolUsesMeekHTTPS :: "string \<Rightarrow> bool" where
  "TunnelProtocolUsesMeekHTTPS protocol \<longleftrightarrow> (let protocol = TunnelProtocolMinusInproxy protocol in
      protocol = TUNNEL_PROTOCOL_FRONTED_MEEK
      \<or> protocol = TUNNEL_PROTOCOL_UNFRONTED_MEEK_HTTPS
      \<or> protocol = TUNNEL_PROTOCOL_UNFRONTED_MEEK_SESSION_TICKET)"

definition TunnelProtocolUsesObfuscatedSessionTickets :: "string \<Rightarrow> bool" where
  "TunnelProtocolUsesObfuscatedSessionTickets protocol \<longleftrightarrow> (let protocol = TunnelProtocolMinusInproxy protocol in
      protocol = TUNNEL_PROTOCOL_UNFRONTED_MEEK_SESSION_TICKET)"

definition TunnelProtocolUsesQUIC :: "string \<Rightarrow> bool" where
  "TunnelProtocolUsesQUIC protocol \<longleftrightarrow> (let protocol = TunnelProtocolMinusInproxy protocol in
      protocol = TUNNEL_PROTOCOL_QUIC_OBFUSCATED_SSH
      \<or> protocol = TUNNEL_PROTOCOL_FRONTED_MEEK_QUIC_OBFUSCATED_SSH)"

definition TunnelProtocolUsesFrontedMeekQUIC :: "string \<Rightarrow> bool" where
  "TunnelProtocolUsesFrontedMeekQUIC protocol \<longleftrightarrow> (let protocol = TunnelProtocolMinusInproxy protocol in
      protocol = TUNNEL_PROTOCOL_FRONTED_MEEK_QUIC_OBFUSCATED_SSH)"

definition TunnelProtocolUsesMeek :: "string \<Rightarrow> bool" where
  "TunnelProtocolUsesMeek protocol \<longleftrightarrow> (let protocol = TunnelProtocolMinusInproxy protocol in
      TunnelProtocolUsesMeekHTTP protocol
      \<or> TunnelProtocolUsesMeekHTTPS protocol
      \<or> TunnelProtocolUsesFrontedMeekQUIC protocol)"

definition TunnelProtocolUsesFrontedMeekNonHTTPS :: "string \<Rightarrow> bool" where
  "TunnelProtocolUsesFrontedMeekNonHTTPS protocol \<longleftrightarrow> (let protocol = TunnelProtocolMinusInproxy protocol in
      protocol = TUNNEL_PROTOCOL_FRONTED_MEEK_HTTP
      \<or> protocol = TUNNEL_PROTOCOL_FRONTED_MEEK_QUIC_OBFUSCATED_SSH)"

definition TunnelProtocolUsesRefractionNetworking :: "string \<Rightarrow> bool" where
  "TunnelProtocolUsesRefractionNetworking protocol \<longleftrightarrow> (protocol = TUNNEL_PROTOCOL_TAPDANCE_OBFUSCATED_SSH
      \<or> protocol = TUNNEL_PROTOCOL_CONJURE_OBFUSCATED_SSH)"

definition TunnelProtocolUsesTapDance :: "string \<Rightarrow> bool" where
  "TunnelProtocolUsesTapDance protocol \<longleftrightarrow> (protocol = TUNNEL_PROTOCOL_TAPDANCE_OBFUSCATED_SSH)"

definition TunnelProtocolUsesConjure :: "string \<Rightarrow> bool" where
  "TunnelProtocolUsesConjure protocol \<longleftrightarrow> (protocol = TUNNEL_PROTOCOL_CONJURE_OBFUSCATED_SSH)"

definition TunnelProtocolUsesShadowsocks :: "string \<Rightarrow> bool" where
  "TunnelProtocolUsesShadowsocks protocol \<longleftrightarrow> (let protocol = TunnelProtocolMinusInproxy protocol in
      protocol = TUNNEL_PROTOCOL_SHADOWSOCKS_OSSH)"

definition TunnelProtocolIsResourceIntensive :: "string \<Rightarrow> bool" where
  "TunnelProtocolIsResourceIntensive protocol \<longleftrightarrow> (TunnelProtocolUsesMeek protocol
      \<or> TunnelProtocolUsesQUIC protocol
      \<or> TunnelProtocolUsesRefractionNetworking protocol
      \<or> TunnelProtocolUsesInproxy protocol)"

definition TunnelProtocolIsCompatibleWithFragmentor :: "string \<Rightarrow> bool" where
  "TunnelProtocolIsCompatibleWithFragmentor protocol \<longleftrightarrow> (let protocol = TunnelProtocolMinusInproxy protocol in
      protocol = TUNNEL_PROTOCOL_SSH
      \<or> protocol = TUNNEL_PROTOCOL_OBFUSCATED_SSH
      \<or> protocol = TUNNEL_PROTOCOL_TLS_OBFUSCATED_SSH
      \<or> protocol = TUNNEL_PROTOCOL_UNFRONTED_MEEK
      \<or> protocol = TUNNEL_PROTOCOL_UNFRONTED_MEEK_HTTPS
      \<or> protocol = TUNNEL_PROTOCOL_UNFRONTED_MEEK_SESSION_TICKET
      \<or> protocol = TUNNEL_PROTOCOL_FRONTED_MEEK
      \<or> protocol = TUNNEL_PROTOCOL_FRONTED_MEEK_HTTP
      \<or> protocol = TUNNEL_PROTOCOL_CONJURE_OBFUSCATED_SSH
      \<or> protocol = TUNNEL_PROTOCOL_SHADOWSOCKS_OSSH)"

definition TunnelProtocolIsDirect :: "string \<Rightarrow> bool" where
  "TunnelProtocolIsDirect protocol \<longleftrightarrow> (protocol = TUNNEL_PROTOCOL_SSH
      \<or> protocol = TUNNEL_PROTOCOL_OBFUSCATED_SSH
      \<or> protocol = TUNNEL_PROTOCOL_TLS_OBFUSCATED_SSH
      \<or> protocol = TUNNEL_PROTOCOL_UNFRONTED_MEEK
      \<or> protocol = TUNNEL_PROTOCOL_UNFRONTED_MEEK_HTTPS
      \<or> protocol = TUNNEL_PROTOCOL_UNFRONTED_MEEK_SESSION_TICKET
      \<or> protocol = TUNNEL_PROTOCOL_QUIC_OBFUSCATED_SSH
      \<or> protocol = TUNNEL_PROTOCOL_SHADOWSOCKS_OSSH)"

definition TunnelProtocolRequiresTLS12SessionTickets :: "string \<Rightarrow> bool" where
  "TunnelProtocolRequiresTLS12SessionTickets protocol \<longleftrightarrow> (let protocol = TunnelProtocolMinusInproxy protocol in
      protocol = TUNNEL_PROTOCOL_UNFRONTED_MEEK_SESSION_TICKET)"

definition TunnelProtocolRequiresTLS13Support :: "string \<Rightarrow> bool" where
  "TunnelProtocolRequiresTLS13Support protocol \<longleftrightarrow> (let protocol = TunnelProtocolMinusInproxy protocol in
      protocol = TUNNEL_PROTOCOL_TLS_OBFUSCATED_SSH)"

definition TunnelProtocolSupportsPassthrough :: "string \<Rightarrow> bool" where
  "TunnelProtocolSupportsPassthrough protocol \<longleftrightarrow> (let protocol = TunnelProtocolMinusInproxy protocol in
      protocol = TUNNEL_PROTOCOL_UNFRONTED_MEEK_HTTPS
      \<or> protocol = TUNNEL_PROTOCOL_UNFRONTED_MEEK_SESSION_TICKET
      \<or> protocol = TUNNEL_PROTOCOL_UNFRONTED_MEEK
      \<or> protocol = TUNNEL_PROTOCOL_TLS_OBFUSCATED_SSH)"

definition TunnelProtocolSupportsUpstreamProxy :: "string \<Rightarrow> bool" where
  "TunnelProtocolSupportsUpstreamProxy protocol \<longleftrightarrow> (\<not> TunnelProtocolUsesInproxy protocol
      \<and> \<not> TunnelProtocolUsesQUIC protocol
      \<and> \<not> TunnelProtocolUsesRefractionNetworking protocol)"

definition TunnelProtocolMayUseServerPacketManipulation :: "string \<Rightarrow> bool" where
  "TunnelProtocolMayUseServerPacketManipulation protocol \<longleftrightarrow> (let protocol = TunnelProtocolMinusInproxy protocol in
      protocol = TUNNEL_PROTOCOL_SSH
      \<or> protocol = TUNNEL_PROTOCOL_OBFUSCATED_SSH
      \<or> protocol = TUNNEL_PROTOCOL_TLS_OBFUSCATED_SSH
      \<or> protocol = TUNNEL_PROTOCOL_UNFRONTED_MEEK
      \<or> protocol = TUNNEL_PROTOCOL_UNFRONTED_MEEK_HTTPS
      \<or> protocol = TUNNEL_PROTOCOL_UNFRONTED_MEEK_SESSION_TICKET
      \<or> protocol = TUNNEL_PROTOCOL_SHADOWSOCKS_OSSH)"

definition TunnelProtocolIsCompatibleWithInproxy :: "string \<Rightarrow> bool" where
  "TunnelProtocolIsCompatibleWithInproxy protocol \<longleftrightarrow> (\<not> TunnelProtocolUsesRefractionNetworking protocol)"

definition TunnelProtocolSupportsTactics :: "string \<Rightarrow> bool" where
  "TunnelProtocolSupportsTactics protocol \<longleftrightarrow>
    (if TunnelProtocolUsesMeekHTTPNormalizer protocol then False else TunnelProtocolUsesMeek protocol)"

definition TunnelProtocolMayUseClientBPF :: "string \<Rightarrow> bool" where
  "TunnelProtocolMayUseClientBPF protocol \<longleftrightarrow>
    (if TunnelProtocolUsesInproxy protocol then False
     else protocol \<noteq> TUNNEL_PROTOCOL_QUIC_OBFUSCATED_SSH
      \<and> protocol \<noteq> TUNNEL_PROTOCOL_FRONTED_MEEK_QUIC_OBFUSCATED_SSH)"

section \<open>Lists of protocols\<close>

text \<open>The literal that \<open>init\<close> extends.\<close>

definition base_protocols :: "string list" where
  "base_protocols = [TUNNEL_PROTOCOL_SSH,
    TUNNEL_PROTOCOL_OBFUSCATED_SSH,
    TUNNEL_PROTOCOL_TLS_OBFUSCATED_SSH,
    TUNNEL_PROTOCOL_UNFRONTED_MEEK,
    TUNNEL_PROTOCOL_UNFRONTED_MEEK_HTTPS,
    TUNNEL_PROTOCOL_UNFRONTED_MEEK_SESSION_TICKET,
    TUNNEL_PROTOCOL_FRONTED_MEEK,
    TUNNEL_PROTOCOL_FRONTED_MEEK_HTTP,
    TUNNEL_PROTOCOL_QUIC_OBFUSCATED_SSH,
    TUNNEL_PROTOCOL_FRONTED_MEEK_QUIC_OBFUSCATED_SSH,
    TUNNEL_PROTOCOL_TAPDANCE_OBFUSCATED_SSH,
    TUNNEL_PROTOCOL_CONJURE_OBFUSCATED_SSH,
    TUNNEL_PROTOCOL_SHADOWSOCKS_OSSH]"

definition DisabledTunnelProtocols :: "string list" where
  "DisabledTunnelProtocols = [TUNNEL_PROTOCOL_TAPDANCE_OBFUSCATED_SSH]"

definition default_disabled_base :: "string list" where
  "default_disabled_base = [TUNNEL_PROTOCOL_FRONTED_MEEK_QUIC_OBFUSCATED_SSH,
    TUNNEL_PROTOCOL_TAPDANCE_OBFUSCATED_SSH,
    TUNNEL_PROTOCOL_CONJURE_OBFUSCATED_SSH]"

text \<open>What \<open>init\<close> makes of them.\<close>

definition InproxyTunnelProtocols :: "string list" where
  "InproxyTunnelProtocols =
    map TunnelProtocolPlusInproxyWebRTC (filter TunnelProtocolIsCompatibleWithInproxy base_protocols)"

definition SupportedTunnelProtocols :: "string list" where
  "SupportedTunnelProtocols = base_protocols @ InproxyTunnelProtocols"

definition DefaultDisabledTunnelProtocols :: "string list" where
  "DefaultDisabledTunnelProtocols = default_disabled_base @ InproxyTunnelProtocols"

fun protocols_Validate :: "string list \<Rightarrow> string + unit" where
  "protocols_Validate [] = Inr ()"
| "protocols_Validate (p # t) =
    (if \<not> Contains SupportedTunnelProtocols p \<or> Contains DisabledTunnelProtocols p then Inl p
     else protocols_Validate t)"

definition PruneInvalid :: "string list \<Rightarrow> string list" where
  "PruneInvalid t =
    filter (\<lambda>p. Contains SupportedTunnelProtocols p \<and> \<not> Contains DisabledTunnelProtocols p) t"

definition PruneNonInproxyTunnelProtocols :: "string list \<Rightarrow> string list" where
  "PruneNonInproxyTunnelProtocols t = filter TunnelProtocolUsesInproxy t"

definition PruneInproxyTunnelProtocols :: "string list \<Rightarrow> string list" where
  "PruneInproxyTunnelProtocols t = filter (\<lambda>p. \<not> TunnelProtocolUsesInproxy p) t"

definition IsOnlyInproxyTunnelProtocols :: "string list \<Rightarrow> bool" where
  "IsOnlyInproxyTunnelProtocols t \<longleftrightarrow> list_all TunnelProtocolUsesInproxy t"

definition HasInproxyTunnelProtocols :: "string list \<Rightarrow> bool" where
  "HasInproxyTunnelProtocols t \<longleftrightarrow> list_ex TunnelProtocolUsesInproxy t"

fun count_fronted :: "string list \<Rightarrow> nat \<Rightarrow> bool" where
  "count_fronted [] n = False"
| "count_fronted (p # ps) n =
    (if TunnelProtocolUsesFrontedMeek p then (if n + 1 > 1 then True else count_fronted ps (n + 1))
     else count_fronted ps n)"

definition IsValidClientTunnelProtocol :: "string \<Rightarrow> string \<Rightarrow> string list \<Rightarrow> bool" where
  "IsValidClientTunnelProtocol clientProtocol listenerProtocol serverProtocols =
    (if \<not> Contains serverProtocols clientProtocol then False
     else if clientProtocol = listenerProtocol then True
     else if \<not> TunnelProtocolUsesFrontedMeek clientProtocol then False
     else count_fronted serverProtocols 0)"

definition EquivilentTunnelProtocol :: "string \<Rightarrow> string option" where
  "EquivilentTunnelProtocol t =
    (if t = FRONTING_TRANSPORT_HTTPS then Some TUNNEL_PROTOCOL_FRONTED_MEEK
     else if t = FRONTING_TRANSPORT_HTTP then Some TUNNEL_PROTOCOL_FRONTED_MEEK_HTTP
     else if t = FRONTING_TRANSPORT_QUIC then Some TUNNEL_PROTOCOL_FRONTED_MEEK_QUIC_OBFUSCATED_SSH
     else None)"

fun transports_Validate :: "string list \<Rightarrow> string + unit" where
  "transports_Validate [] = Inr ()"
| "transports_Validate (t # ts) =
    (if t \<in> {FRONTING_TRANSPORT_HTTPS, FRONTING_TRANSPORT_HTTP, FRONTING_TRANSPORT_QUIC}
     then transports_Validate ts else Inl t)"

lemma count_fronted_iff:
  "count_fronted ps n \<longleftrightarrow> length (filter TunnelProtocolUsesFrontedMeek ps) + n > 1 \<and> filter TunnelProtocolUsesFrontedMeek ps \<noteq> []"
  by (induction ps arbitrary: n) auto

text \<open>
  A reported protocol is accepted exactly when the server runs it and it is the listener's, or
  it is fronted and the server runs at least two fronted protocols.
\<close>

lemma IsValidClientTunnelProtocol_iff:
  "IsValidClientTunnelProtocol client listener server \<longleftrightarrow> client \<in> set server \<and>
    (client = listener \<or>
     TunnelProtocolUsesFrontedMeek client \<and> 2 \<le> length (filter TunnelProtocolUsesFrontedMeek server))"
  by (auto simp: IsValidClientTunnelProtocol_def count_fronted_iff simp flip: length_greater_0_conv)

lemma Minus_Plus [simp]: "TunnelProtocolMinusInproxy (TunnelProtocolPlusInproxyWebRTC p) = p"
  using CutPrefix_append [of "''INPROXY-WEBRTC-''" p]
  by (simp add: TunnelProtocolMinusInproxy_def TunnelProtocolPlusInproxyWebRTC_def)

lemma Plus_uses_inproxy: "TunnelProtocolUsesInproxy (TunnelProtocolPlusInproxyWebRTC p)"
  by (simp add: TunnelProtocolUsesInproxy_def TunnelProtocolPlusInproxyWebRTC_def)

lemmas base_defs = base_protocols_def TunnelProtocolUsesInproxy_def TunnelProtocolMinusInproxy_def CutPrefix_def
  TunnelProtocolUsesRefractionNetworking_def TunnelProtocolIsCompatibleWithInproxy_def

lemma base_not_inproxy: "p \<in> set base_protocols \<Longrightarrow> \<not> TunnelProtocolUsesInproxy p"
  by (auto simp: base_defs)

lemma base_Minus: "p \<in> set base_protocols \<Longrightarrow> TunnelProtocolMinusInproxy p = p"
  by (auto simp: base_defs)

lemma base_distinct: "distinct base_protocols"
  by (simp add: base_protocols_def)

lemma Plus_inj: "TunnelProtocolPlusInproxyWebRTC p = TunnelProtocolPlusInproxyWebRTC q \<longleftrightarrow> p = q"
  by (metis Minus_Plus)

text \<open>
  The lists of protocols are consistent: names are distinct, the in-proxy variants are exactly
  the supported names that the in-proxy test recognises, taking the variant of a protocol and
  stripping it again gives the protocol back, and pruning a list leaves one that validates.
\<close>

lemma tunnel_protocols_consistent:
  "distinct SupportedTunnelProtocols \<and>
   (\<forall>p. p \<in> set SupportedTunnelProtocols \<and> TunnelProtocolUsesInproxy p \<longleftrightarrow> p \<in> set InproxyTunnelProtocols) \<and>
   (\<forall>p. TunnelProtocolMinusInproxy (TunnelProtocolPlusInproxyWebRTC p) = p) \<and>
   (\<forall>t. protocols_Validate (PruneInvalid t) = Inr ())"
proof (intro conjI allI)
  show "distinct SupportedTunnelProtocols"
    using base_distinct base_not_inproxy Plus_uses_inproxy
    by (auto simp: SupportedTunnelProtocols_def InproxyTunnelProtocols_def distinct_map inj_on_def Plus_inj)
  show "p \<in> set SupportedTunnelProtocols \<and> TunnelProtocolUsesInproxy p \<longleftrightarrow> p \<in> set InproxyTunnelProtocols" for p
    using base_not_inproxy Plus_uses_inproxy
    by (auto simp: SupportedTunnelProtocols_def InproxyTunnelProtocols_def)
  show "protocols_Validate (PruneInvalid t) = Inr ()" for t
    by (induction t) (auto simp: PruneInvalid_def)
qed simp

end
