(* ===== verification/Wildcard.thy ===== *)
theory Wildcard
  imports GoStrings
begin

text \<open>
  The wildcard matcher of \<open>common/wildcard/wildcard.go\<close>, which parses the pattern while it
  matches and takes the first occurrence of each literal part, and its equivalence with the
  meaning of a pattern: a star stands for any characters, everything else for itself.
\<close>

section \<open>The matcher\<close>

abbreviation star :: char where "star \<equiv> CHR ''*''"

text \<open>One iteration and the rest of the loop; \<open>first\<close> is \<open>n == 0\<close>.\<close>

function match_from :: "bool \<Rightarrow> string \<Rightarrow> string \<Rightarrow> bool" where
  "match_from first pattern target =
    (if pattern = [star] then True
     else (case strings_Index pattern [star] of
        None \<Rightarrow> if first then pattern = target else suffix pattern target
      | Some i \<Rightarrow>
         (if i = 0 then match_from False (drop (i + 1) pattern) target
          else if first then
            (if \<not> prefix (take i pattern) target then False
             else match_from False (drop (i + 1) pattern) (drop i target))
          else (case strings_Index target (take i pattern) of None \<Rightarrow> False
             | Some j \<Rightarrow> match_from False (drop (i + 1) pattern) (drop (j + i) target)))))"
  by pat_completeness auto
termination
proof (relation "measure (\<lambda>(_, p, _). length p)", goal_cases)
  case (2 first pattern target i)
  then show ?case by (cases pattern) auto
next
  case (3 first pattern target i)
  then show ?case by (cases pattern) auto
next
  case (4 first pattern target i j)
  then show ?case by (cases pattern) auto
qed simp

declare match_from.simps [simp del]

definition Match :: "string \<Rightarrow> string \<Rightarrow> bool" where
  "Match pattern target = match_from True pattern target"

text \<open>\<open>common.ContainsWildcard\<close>\<close>

fun ContainsWildcard :: "string list \<Rightarrow> string \<Rightarrow> bool" where
  "ContainsWildcard [] target = False"
| "ContainsWildcard (pattern # patterns) target =
    (if Match pattern target then True else ContainsWildcard patterns target)"

section \<open>The meaning of a pattern\<close>

inductive glob :: "string \<Rightarrow> string \<Rightarrow> bool" where
  end_both: "glob [] []"
| literal: "c \<noteq> star \<Longrightarrow> glob p t \<Longrightarrow> glob (c # p) (c # t)"
| star: "glob p t \<Longrightarrow> glob (star # p) (u @ t)"

inductive_simps glob_Nil [simp]: "glob [] t"
inductive_simps glob_Cons: "glob (c # p) t"

lemma glob_star: "glob (star # p) t \<longleftrightarrow> (\<exists>u v. t = u @ v \<and> glob p v)"
proof
  assume "glob (star # p) t"
  then show "\<exists>u v. t = u @ v \<and> glob p v" by (cases rule: glob.cases) auto
qed (auto intro: glob.star)

lemma glob_star_prepend: "glob (star # p) v \<Longrightarrow> glob (star # p) (u @ v)"
  by (metis append_assoc glob_star)

lemma glob_literals:
  "star \<notin> set a \<Longrightarrow> glob (a @ p) t \<longleftrightarrow> (\<exists>v. t = a @ v \<and> glob p v)"
  by (induction a arbitrary: t) (auto simp: glob_Cons)

lemma glob_star_star: "glob (star # star # p) t \<longleftrightarrow> glob (star # p) t"
proof
  assume "glob (star # star # p) t"
  then obtain u v where "t = u @ v" "glob (star # p) v" by (auto simp: glob_star [of "star # p"])
  then show "glob (star # p) t" by (simp add: glob_star_prepend)
qed (use glob.star [of "star # p" t "[]"] in simp)

lemma glob_star_end: "glob (star # [star]) t" "glob [star] t"
  using glob.star [of "[]" "[]" t] by (simp_all add: glob_star_star glob.intros(1))

text \<open>The first star of a pattern splits it into literals and the rest.\<close>

lemma split_at_star:
  "strings_Index p [star] = Some i \<Longrightarrow>
    p = take i p @ star # drop (i + 1) p \<and> star \<notin> set (take i p) \<and> length (take i p) = i"
proof (induction p arbitrary: i)
  case (Cons c p)
  show ?case
  proof (cases "c = star")
    case False
    then obtain k where "strings_Index p [star] = Some k" "i = Suc k" using Cons.prems by auto
    then show ?thesis using Cons.IH False by auto
  qed (use Cons.prems in auto)
qed simp

lemma no_star: "strings_Index p [star] = None \<Longrightarrow> star \<notin> set p"
  by (induction p) (auto split: if_splits)

text \<open>After a star, taking the first occurrence of the next literals loses no match.\<close>

lemma glob_first_occurrence:
  assumes "star \<notin> set a"
  shows "glob (star # a @ star # p) t \<longleftrightarrow>
    (case strings_Index t a of None \<Rightarrow> False | Some j \<Rightarrow> glob (star # p) (drop (j + length a) t))"
proof (cases "strings_Index t a")
  case None
  then show ?thesis using strings_Index_None [OF None] by (auto simp: glob_star [of "a @ _"] glob_literals assms)
next
  case (Some j)
  note j = strings_Index_Some [OF Some]
  have at: "t = take j t @ a @ drop (j + length a) t"
  proof -
    obtain r where "drop j t = a @ r" using j by (auto simp: prefix_def)
    moreover from this have "drop (j + length a) t = r" by (metis add.commute append_eq_conv_conj drop_drop)
    ultimately show ?thesis by (metis append_take_drop_id)
  qed
  show ?thesis
  proof
    assume "glob (star # a @ star # p) t"
    then obtain u v where uv: "t = u @ a @ v" "glob (star # p) v"
      by (auto simp: glob_star [of "a @ _"] glob_literals assms)
    have "\<not> length u < j" using j uv(1) by (auto simp: prefix_def)
    then have "drop (j + length a) t = drop (j + length a) (u @ a) @ v" using uv(1) by simp
    then have "suffix v (drop (j + length a) t)" by (simp only: suffix_def) blast
    then show "case strings_Index t a of None \<Rightarrow> False | Some j \<Rightarrow> glob (star # p) (drop (j + length a) t)"
      using uv(2) glob_star_prepend by (auto simp: Some suffix_def)
  next
    assume "case strings_Index t a of None \<Rightarrow> False | Some j \<Rightarrow> glob (star # p) (drop (j + length a) t)"
    then have "glob (a @ star # p) (a @ drop (j + length a) t)" by (simp add: Some glob_literals assms)
    then show "glob (star # a @ star # p) t" using at by (metis glob.star)
  qed
qed

lemma match_from_glob:
  "match_from first pattern target \<longleftrightarrow> glob (if first then pattern else star # pattern) target"
proof (induction first pattern target rule: match_from.induct)
  case (1 first pattern target)
  show ?case
  proof (cases "pattern = [star]")
    case True
    then show ?thesis by (simp add: match_from.simps glob_star_end)
  next
    case ns: False
    show ?thesis
    proof (cases "strings_Index pattern [star]")
      case None
      have "glob pattern v \<longleftrightarrow> v = pattern" for v
        using glob_literals [OF no_star [OF None], of "[]"] by auto
      then show ?thesis using None ns by (subst match_from.simps) (auto simp: glob_star suffix_def)
    next
      case (Some i)
      note sp = split_at_star [OF Some]
      show ?thesis
      proof (cases "i = 0")
        case True
        have p: "pattern = star # drop 1 pattern" using sp True by simp
        have "match_from first pattern target \<longleftrightarrow> glob (star # drop 1 pattern) target"
          using 1(1) [OF ns Some True] ns Some True by (subst match_from.simps) simp
        then show ?thesis using p glob_star_star [of "drop 1 pattern" target] by (metis (full_types))
      next
        case i: False
        show ?thesis
        proof (cases first)
          case True
          then show ?thesis
            using 1(2) [OF ns Some i True] ns Some i sp glob_literals [of "take i pattern" "star # drop (i + 1) pattern" target]
            by (subst match_from.simps) (auto simp: prefix_def)
        next
          case False
          show ?thesis
            using 1(3) [OF ns Some i False] ns Some i sp False
              glob_first_occurrence [of "take i pattern" "drop (i + 1) pattern" target]
            by (subst match_from.simps) (auto split: option.splits)
        qed
      qed
    qed
  qed
qed

text \<open>
  C15: the matcher decides exactly the patterns' meaning, for every number and position of stars,
  although it commits to the first occurrence of each literal part and never backtracks.
\<close>

theorem Match_iff_glob: "Match pattern target \<longleftrightarrow> glob pattern target"
  by (simp add: Match_def match_from_glob)

lemma ContainsWildcard_iff: "ContainsWildcard patterns target \<longleftrightarrow> (\<exists>p\<in>set patterns. glob p target)"
  by (induction patterns) (auto simp: Match_def match_from_glob)

end
