(* ===== verification/RequestParams.thy ===== *)
theory RequestParams
  imports Protocols Wildcard
begin

text \<open>
  The parameters of API requests, \<open>server/api.go\<close>: which parameters a request may have, how each
  is validated and how it is logged. The parsers of the standard library that only answer whether
  a string parses (addresses, base64, floating point numbers, times) are a parameter.
\<close>

section \<open>Values and validators\<close>

text \<open>Decoded JSON, and the string slices that code of the server stores itself. A missing or null
  parameter is \<open>None\<close> in the map.\<close>

datatype param_value = VString string | VStrings "string list" | VArray "param_value list"
  | VObject "(string \<times> param_value) list" | VOther nat

type_synonym api_params = "string \<rightharpoonup> param_value"

record go_std =
  ParseIP_ok :: "string \<Rightarrow> bool"
  SplitHostPort_host :: "string \<Rightarrow> string"
  ParseFloat :: "string \<Rightarrow> bool \<times> 64 word"
  ParseISO8601_ok :: "string \<Rightarrow> bool"
  StdBase64_ok :: "string \<Rightarrow> bool"
  RawStdBase64_ok :: "string \<Rightarrow> bool"
  ToLower :: "string \<Rightarrow> string"

abbreviation (input) SPONSOR_ID_LENGTH :: nat where "SPONSOR_ID_LENGTH \<equiv> 16"
abbreviation (input) PADDING_MAX_BYTES :: int where "PADDING_MAX_BYTES \<equiv> 16 * 1024"

definition in_range :: "char \<Rightarrow> char \<Rightarrow> nat \<Rightarrow> bool" where
  "in_range a b r \<longleftrightarrow> of_char a \<le> r \<and> r \<le> of_char b"

definition isAnyString :: "go_std \<Rightarrow> string \<Rightarrow> bool" where
  "isAnyString std v \<longleftrightarrow> True"

definition isHexDigits :: "go_std \<Rightarrow> string \<Rightarrow> bool" where
  "isHexDigits std v \<longleftrightarrow> list_all (\<lambda>r. in_range CHR ''0'' CHR ''9'' r \<or> in_range CHR ''a'' CHR ''f'' r
     \<or> in_range CHR ''A'' CHR ''F'' r) (runes v)"

definition isSponsorID :: "go_std \<Rightarrow> string \<Rightarrow> bool" where
  "isSponsorID std v \<longleftrightarrow> length v = SPONSOR_ID_LENGTH \<and> isHexDigits std v"

definition isBase64String :: "go_std \<Rightarrow> string \<Rightarrow> bool" where
  "isBase64String std v \<longleftrightarrow> StdBase64_ok std v"

definition isUnpaddedBase64String :: "go_std \<Rightarrow> string \<Rightarrow> bool" where
  "isUnpaddedBase64String std v \<longleftrightarrow> RawStdBase64_ok std v"

definition isDigits :: "go_std \<Rightarrow> string \<Rightarrow> bool" where
  "isDigits std v \<longleftrightarrow> list_all (in_range CHR ''0'' CHR ''9'') (runes v)"

definition isIntString :: "go_std \<Rightarrow> string \<Rightarrow> bool" where
  "isIntString std v \<longleftrightarrow> Atoi v \<noteq> None"

definition isFloatString :: "go_std \<Rightarrow> string \<Rightarrow> bool" where
  "isFloatString std v \<longleftrightarrow> fst (ParseFloat std v)"

text \<open>\<open>unicode.White_Space\<close>\<close>

definition white_space :: "nat \<Rightarrow> bool" where
  "white_space r \<longleftrightarrow> (0x9 \<le> r \<and> r \<le> 0xD) \<or> (0x2000 \<le> r \<and> r \<le> 0x200A) \<or>
     r \<in> {0x20, 0x85, 0xA0, 0x1680, 0x2028, 0x2029, 0x202F, 0x205F, 0x3000}"

definition isClientPlatform :: "go_std \<Rightarrow> string \<Rightarrow> bool" where
  "isClientPlatform std v \<longleftrightarrow> list_all (\<lambda>r. \<not> white_space r) (runes v)"

definition isRelayProtocol :: "go_std \<Rightarrow> string \<Rightarrow> bool" where
  "isRelayProtocol std v \<longleftrightarrow> Contains SupportedTunnelProtocols v"

definition isBooleanFlag :: "go_std \<Rightarrow> string \<Rightarrow> bool" where
  "isBooleanFlag std v \<longleftrightarrow> v = ''0'' \<or> v = ''1''"

definition isUpstreamProxyType :: "go_std \<Rightarrow> string \<Rightarrow> bool" where
  "isUpstreamProxyType std v \<longleftrightarrow> (let v = ToLower std v in v = ''http'' \<or> v = ''socks5'' \<or> v = ''socks4a'')"

definition isRegionCode :: "go_std \<Rightarrow> string \<Rightarrow> bool" where
  "isRegionCode std v \<longleftrightarrow> (if length v \<noteq> 2 then False else list_all (in_range CHR ''A'' CHR ''Z'') (runes v))"

definition isIPAddress :: "go_std \<Rightarrow> string \<Rightarrow> bool" where
  "isIPAddress std v \<longleftrightarrow> ParseIP_ok std v"

text \<open>
  The expression \<open>[a-zA-Z\d-]{1,63}$\<close>, which is anchored at the end only: it matches when some
  1 to 63 last bytes are of the class.
\<close>

definition domain_char :: "char \<Rightarrow> bool" where
  "domain_char c \<longleftrightarrow> in_range CHR ''a'' CHR ''z'' (of_char c) \<or> in_range CHR ''A'' CHR ''Z'' (of_char c)
     \<or> in_range CHR ''0'' CHR ''9'' (of_char c) \<or> c = CHR ''-''"

definition isDomainRegex :: "string \<Rightarrow> bool" where
  "isDomainRegex v \<longleftrightarrow> list_ex (\<lambda>n. n \<le> length v \<and> list_all domain_char (drop (length v - n) v)) [1..<64]"

fun domain_parts :: "string list \<Rightarrow> bool" where
  "domain_parts [] = True"
| "domain_parts (p # ps) =
    (if prefix ''-'' p \<or> suffix ''-'' p then False
     else if \<not> isDomainRegex p then False else domain_parts ps)"

definition isDomain :: "go_std \<Rightarrow> string \<Rightarrow> bool" where
  "isDomain std v \<longleftrightarrow> (if length v > 255 then False
     else domain_parts (strings_Split (TrimSuffix v ''.'') CHR ''.''))"

definition isDialAddress :: "go_std \<Rightarrow> string \<Rightarrow> bool" where
  "isDialAddress std v \<longleftrightarrow> (let parts = strings_Split v CHR '':'' in
     if length parts \<noteq> 2 then False
     else if \<not> isIPAddress std (parts ! 0) \<and> \<not> isDomain std (parts ! 0) then False
     else if \<not> isDigits std (parts ! 1) then False
     else Atoi (parts ! 1) \<noteq> None)"

definition isHostHeader :: "go_std \<Rightarrow> string \<Rightarrow> bool" where
  "isHostHeader std v \<longleftrightarrow> (if strings_Contains v '':'' then isDialAddress std v
     else isIPAddress std v \<or> isDomain std v)"

definition SupportedServerEntrySources :: "string list" where
  "SupportedServerEntrySources = [''EMBEDDED'', ''REMOTE'', ''DISCOVERY'', ''TARGET'', ''OBFUSCATED'',
     ''EXCHANGED'', ''DSL-*'', ''PUSH-*'']"

definition isServerEntrySource :: "go_std \<Rightarrow> string \<Rightarrow> bool" where
  "isServerEntrySource std v \<longleftrightarrow> ContainsWildcard SupportedServerEntrySources v"

definition isISO8601Date :: "go_std \<Rightarrow> string \<Rightarrow> bool" where
  "isISO8601Date std v \<longleftrightarrow> ParseISO8601_ok std v"

definition isLastConnected :: "go_std \<Rightarrow> string \<Rightarrow> bool" where
  "isLastConnected std v \<longleftrightarrow> v = ''None'' \<or> isISO8601Date std v"

definition geohashAlphabet :: string where
  "geohashAlphabet = ''0123456789bcdefghjkmnpqrstuvwxyz''"

definition isGeoHashString :: "go_std \<Rightarrow> string \<Rightarrow> bool" where
  "isGeoHashString std v \<longleftrightarrow> (if length v < 1 \<or> length v > 12 then False
     else list_all (\<lambda>r. r \<in> set (map of_char geohashAlphabet)) (runes v))"

section \<open>Parameter specifications\<close>

type_synonym param_spec = "string \<times> (go_std \<Rightarrow> string \<Rightarrow> bool) option \<times> 32 word"

abbreviation (input) requestParamOptional :: "32 word" where "requestParamOptional \<equiv> 1"
abbreviation (input) requestParamNotLogged :: "32 word" where "requestParamNotLogged \<equiv> 2"
abbreviation (input) requestParamArray :: "32 word" where "requestParamArray \<equiv> 4"
abbreviation (input) requestParamJSON :: "32 word" where "requestParamJSON \<equiv> 8"
abbreviation (input) requestParamLogStringAsInt :: "32 word" where "requestParamLogStringAsInt \<equiv> 16"
abbreviation (input) requestParamLogStringAsFloat :: "32 word" where "requestParamLogStringAsFloat \<equiv> 32"
abbreviation (input) requestParamLogStringLengthAsInt :: "32 word" where "requestParamLogStringLengthAsInt \<equiv> 64"
abbreviation (input) requestParamLogFlagAsBool :: "32 word" where "requestParamLogFlagAsBool \<equiv> 128"
abbreviation (input) requestParamLogOnlyForFrontedMeekOrConjure :: "32 word" where "requestParamLogOnlyForFrontedMeekOrConjure \<equiv> 256"
abbreviation (input) requestParamNotLoggedForUnfrontedMeekNonTransformedHeader :: "32 word" where "requestParamNotLoggedForUnfrontedMeekNonTransformedHeader \<equiv> 512"
abbreviation (input) requestParamLogOmittedFlagAsFalse :: "32 word" where "requestParamLogOmittedFlagAsFalse \<equiv> 1024"

definition baseParams :: "param_spec list" where
  "baseParams =
  [(''propagation_channel_id'', Some isHexDigits, 0),
   (''sponsor_id'', Some isSponsorID, 0),
   (''client_version'', Some isIntString, requestParamLogStringAsInt),
   (''client_platform'', Some isClientPlatform, 0),
   (''client_features'', Some isAnyString, requestParamOptional OR requestParamArray),
   (''client_build_rev'', Some isHexDigits, requestParamOptional),
   (''device_region'', Some isAnyString, requestParamOptional),
   (''device_location'', Some isGeoHashString, requestParamOptional),
   (''egress_region'', Some isRegionCode, requestParamOptional),
   (''network_type'', Some isAnyString, requestParamOptional),
   (''applied_tactics_tag'', Some isAnyString, requestParamOptional),
   (''compress_response'', Some isIntString, requestParamOptional OR requestParamNotLogged)]"

definition baseDialParams :: "param_spec list" where
  "baseDialParams =
  [(''relay_protocol'', Some isRelayProtocol, 0),
   (''ssh_client_version'', Some isAnyString, requestParamOptional),
   (''upstream_proxy_type'', Some isUpstreamProxyType, requestParamOptional),
   (''upstream_proxy_custom_header_names'', Some isAnyString, requestParamOptional OR requestParamArray),
   (''fronting_provider_id'', Some isAnyString, requestParamOptional),
   (''meek_dial_address'', Some isDialAddress, requestParamOptional OR requestParamLogOnlyForFrontedMeekOrConjure),
   (''meek_resolved_ip_address'', Some isIPAddress, requestParamOptional OR requestParamLogOnlyForFrontedMeekOrConjure),
   (''meek_sni_server_name'', Some isDomain, requestParamOptional),
   (''meek_host_header'', Some isHostHeader, requestParamOptional OR requestParamNotLoggedForUnfrontedMeekNonTransformedHeader),
   (''meek_transformed_host_name'', Some isBooleanFlag, requestParamOptional OR requestParamLogFlagAsBool),
   (''user_agent'', Some isAnyString, requestParamOptional),
   (''tls_profile'', Some isAnyString, requestParamOptional),
   (''tls_version'', Some isAnyString, requestParamOptional),
   (''server_entry_region'', Some isRegionCode, requestParamOptional),
   (''server_entry_source'', Some isServerEntrySource, requestParamOptional),
   (''server_entry_timestamp'', Some isISO8601Date, requestParamOptional),
   (''dial_port_number'', Some isIntString, requestParamOptional OR requestParamLogStringAsInt),
   (''quic_version'', Some isAnyString, requestParamOptional),
   (''quic_dial_sni_address'', Some isAnyString, requestParamOptional),
   (''quic_disable_client_path_mtu_discovery'', Some isBooleanFlag, requestParamOptional OR requestParamLogFlagAsBool),
   (''upstream_bytes_fragmented'', Some isIntString, requestParamOptional OR requestParamLogStringAsInt),
   (''upstream_min_bytes_written'', Some isIntString, requestParamOptional OR requestParamLogStringAsInt),
   (''upstream_max_bytes_written'', Some isIntString, requestParamOptional OR requestParamLogStringAsInt),
   (''upstream_min_delayed'', Some isIntString, requestParamOptional OR requestParamLogStringAsInt),
   (''upstream_max_delayed'', Some isIntString, requestParamOptional OR requestParamLogStringAsInt),
   (''padding'', Some isAnyString, requestParamOptional OR requestParamLogStringLengthAsInt),
   (''pad_response'', Some isIntString, requestParamOptional OR requestParamLogStringAsInt),
   (''is_replay'', Some isBooleanFlag, requestParamOptional OR requestParamLogFlagAsBool OR requestParamLogOmittedFlagAsFalse),
   (''replay_ignored_change'', Some isBooleanFlag, requestParamOptional OR requestParamLogFlagAsBool OR requestParamLogOmittedFlagAsFalse),
   (''dsl_prioritized'', Some isBooleanFlag, requestParamOptional OR requestParamLogFlagAsBool OR requestParamLogOmittedFlagAsFalse),
   (''dsl_prioritized_reason'', Some isAnyString, requestParamOptional),
   (''dsl_prioritized_tunnel_protocol'', Some isRelayProtocol, requestParamOptional),
   (''dial_duration'', Some isIntString, requestParamOptional OR requestParamLogStringAsInt),
   (''candidate_number'', Some isIntString, requestParamOptional OR requestParamLogStringAsInt),
   (''established_tunnels_count'', Some isIntString, requestParamOptional OR requestParamLogStringAsInt),
   (''upstream_ossh_padding'', Some isIntString, requestParamOptional OR requestParamLogStringAsInt),
   (''meek_cookie_size'', Some isIntString, requestParamOptional OR requestParamLogStringAsInt),
   (''meek_limit_request'', Some isIntString, requestParamOptional OR requestParamLogStringAsInt),
   (''meek_redial_probability'', Some isFloatString, requestParamOptional OR requestParamLogStringAsFloat),
   (''meek_tls_padding'', Some isIntString, requestParamOptional OR requestParamLogStringAsInt),
   (''network_latency_multiplier'', Some isFloatString, requestParamOptional OR requestParamLogStringAsFloat),
   (''client_bpf'', Some isAnyString, requestParamOptional),
   (''conjure_cached'', Some isBooleanFlag, requestParamOptional OR requestParamLogFlagAsBool),
   (''conjure_delay'', Some isIntString, requestParamOptional OR requestParamLogStringAsInt),
   (''conjure_transport'', Some isAnyString, requestParamOptional),
   (''conjure_prefix'', Some isAnyString, requestParamOptional),
   (''conjure_stun'', Some isAnyString, requestParamOptional),
   (''conjure_empty_packet'', Some isBooleanFlag, requestParamOptional OR requestParamLogFlagAsBool),
   (''conjure_network'', Some isAnyString, requestParamOptional),
   (''conjure_port_number'', Some isAnyString, requestParamOptional),
   (''split_tunnel'', Some isBooleanFlag, requestParamOptional OR requestParamLogFlagAsBool),
   (''split_tunnel_regions'', Some isRegionCode, requestParamOptional OR requestParamArray),
   (''dns_preresolved'', Some isAnyString, requestParamOptional),
   (''dns_preferred'', Some isAnyString, requestParamOptional),
   (''dns_transform'', Some isAnyString, requestParamOptional),
   (''dns_qname_random_casing'', Some isBooleanFlag, requestParamOptional OR requestParamLogFlagAsBool),
   (''dns_qname_must_match'', Some isBooleanFlag, requestParamOptional OR requestParamLogFlagAsBool),
   (''dns_qname_mismatches'', Some isIntString, requestParamOptional OR requestParamLogStringAsInt),
   (''dns_attempt'', Some isIntString, requestParamOptional OR requestParamLogStringAsInt),
   (''http_transform'', Some isAnyString, requestParamOptional),
   (''seed_transform'', Some isAnyString, requestParamOptional),
   (''ossh_prefix'', Some isAnyString, requestParamOptional),
   (''shadowsocks_prefix'', Some isAnyString, requestParamOptional),
   (''tls_fragmented'', Some isBooleanFlag, requestParamOptional OR requestParamLogFlagAsBool),
   (''tls_padding'', Some isIntString, requestParamOptional OR requestParamLogStringAsInt),
   (''tls_ossh_sni_server_name'', Some isDomain, requestParamOptional),
   (''tls_ossh_transformed_host_name'', Some isBooleanFlag, requestParamOptional OR requestParamLogFlagAsBool),
   (''steering_ip'', Some isIPAddress, requestParamOptional OR requestParamLogOnlyForFrontedMeekOrConjure),
   (''tls_sent_ticket'', Some isBooleanFlag, requestParamOptional OR requestParamLogFlagAsBool),
   (''tls_did_resume'', Some isBooleanFlag, requestParamOptional OR requestParamLogFlagAsBool),
   (''quic_sent_ticket'', Some isBooleanFlag, requestParamOptional OR requestParamLogFlagAsBool),
   (''quic_did_resume'', Some isBooleanFlag, requestParamOptional OR requestParamLogFlagAsBool),
   (''quic_dial_early'', Some isBooleanFlag, requestParamOptional OR requestParamLogFlagAsBool),
   (''quic_obfuscated_psk'', Some isBooleanFlag, requestParamOptional OR requestParamLogFlagAsBool),
   (''server_entry_count'', Some isIntString, requestParamOptional OR requestParamLogStringAsInt),
   (''unique_candidate_estimate'', Some isIntString, requestParamOptional OR requestParamLogStringAsInt),
   (''candidates_moved_to_front'', Some isIntString, requestParamOptional OR requestParamLogStringAsInt),
   (''first_fronted_meek_candidate'', Some isIntString, requestParamOptional OR requestParamLogStringAsInt),
   (''tunnel_personal_light_proxy_id'', Some isAnyString, requestParamOptional)]"

definition inproxyDialParams :: "param_spec list" where
  "inproxyDialParams =
  [(''inproxy_connection_id'', Some isUnpaddedBase64String, requestParamOptional OR requestParamNotLogged),
   (''inproxy_relay_packet'', Some isUnpaddedBase64String, requestParamOptional OR requestParamNotLogged),
   (''inproxy_broker_is_replay'', Some isBooleanFlag, requestParamOptional OR requestParamLogFlagAsBool),
   (''inproxy_broker_transport'', Some isAnyString, requestParamOptional),
   (''inproxy_broker_fronting_provider_id'', Some isAnyString, requestParamOptional),
   (''inproxy_broker_dial_address'', Some isAnyString, requestParamOptional),
   (''inproxy_broker_resolved_ip_address'', Some isAnyString, requestParamOptional),
   (''inproxy_broker_sni_server_name'', Some isAnyString, requestParamOptional),
   (''inproxy_broker_host_header'', Some isAnyString, requestParamOptional),
   (''inproxy_broker_transformed_host_name'', Some isBooleanFlag, requestParamOptional OR requestParamLogFlagAsBool),
   (''inproxy_broker_user_agent'', Some isAnyString, requestParamOptional),
   (''inproxy_broker_tls_profile'', Some isAnyString, requestParamOptional),
   (''inproxy_broker_tls_version'', Some isAnyString, requestParamOptional),
   (''inproxy_broker_tls_fragmented'', Some isBooleanFlag, requestParamOptional OR requestParamLogFlagAsBool),
   (''inproxy_broker_client_bpf'', Some isAnyString, requestParamOptional),
   (''inproxy_broker_upstream_bytes_fragmented'', Some isIntString, requestParamOptional OR requestParamLogStringAsInt),
   (''inproxy_broker_http_transform'', Some isAnyString, requestParamOptional),
   (''inproxy_broker_dns_preresolved'', Some isAnyString, requestParamOptional),
   (''inproxy_broker_dns_preferred'', Some isAnyString, requestParamOptional),
   (''inproxy_broker_dns_transform'', Some isAnyString, requestParamOptional),
   (''inproxy_broker_dns_qname_random_casing'', Some isBooleanFlag, requestParamOptional OR requestParamLogFlagAsBool),
   (''inproxy_broker_dns_qname_must_match'', Some isBooleanFlag, requestParamOptional OR requestParamLogFlagAsBool),
   (''inproxy_broker_dns_qname_mismatches'', Some isIntString, requestParamOptional OR requestParamLogStringAsInt),
   (''inproxy_broker_dns_attempt'', Some isIntString, requestParamOptional OR requestParamLogStringAsInt),
   (''inproxy_webrtc_dns_preresolved'', Some isAnyString, requestParamOptional),
   (''inproxy_webrtc_dns_preferred'', Some isAnyString, requestParamOptional),
   (''inproxy_webrtc_dns_transform'', Some isAnyString, requestParamOptional),
   (''inproxy_broker_dns_qname_random_casing'', Some isBooleanFlag, requestParamOptional OR requestParamLogFlagAsBool),
   (''inproxy_webrtc_dns_qname_must_match'', Some isBooleanFlag, requestParamOptional OR requestParamLogFlagAsBool),
   (''inproxy_webrtc_dns_qname_mismatches'', Some isIntString, requestParamOptional OR requestParamLogStringAsInt),
   (''inproxy_webrtc_dns_attempt'', Some isIntString, requestParamOptional OR requestParamLogStringAsInt),
   (''inproxy_webrtc_stun_server'', Some isAnyString, requestParamOptional),
   (''inproxy_webrtc_stun_server_resolved_ip_address'', Some isAnyString, requestParamOptional),
   (''inproxy_webrtc_stun_server_RFC5780'', Some isAnyString, requestParamOptional),
   (''inproxy_webrtc_stun_server_RFC5780_resolved_ip_address'', Some isAnyString, requestParamOptional),
   (''inproxy_webrtc_randomize_dtls'', Some isBooleanFlag, requestParamOptional OR requestParamLogFlagAsBool),
   (''inproxy_webrtc_dtls_fingerprint'', Some isAnyString, requestParamOptional),
   (''inproxy_proxy_webrtc_dtls_fingerprint'', Some isAnyString, requestParamOptional),
   (''inproxy_webrtc_padded_messages_sent'', Some isIntString, requestParamOptional OR requestParamLogStringAsInt),
   (''inproxy_webrtc_padded_messages_received'', Some isIntString, requestParamOptional OR requestParamLogStringAsInt),
   (''inproxy_webrtc_decoy_messages_sent'', Some isIntString, requestParamOptional OR requestParamLogStringAsInt),
   (''inproxy_webrtc_decoy_messages_received'', Some isIntString, requestParamOptional OR requestParamLogStringAsInt),
   (''inproxy_webrtc_local_ice_candidate_type'', Some isAnyString, requestParamOptional),
   (''inproxy_webrtc_local_ice_candidate_is_initiator'', Some isBooleanFlag, requestParamOptional OR requestParamLogFlagAsBool),
   (''inproxy_webrtc_local_ice_candidate_is_IPv6'', Some isBooleanFlag, requestParamOptional OR requestParamLogFlagAsBool),
   (''inproxy_webrtc_local_ice_candidate_port'', Some isIntString, requestParamOptional OR requestParamLogStringAsInt),
   (''inproxy_webrtc_remote_ice_candidate_type'', Some isAnyString, requestParamOptional),
   (''inproxy_webrtc_remote_ice_candidate_is_IPv6'', Some isBooleanFlag, requestParamOptional OR requestParamLogFlagAsBool),
   (''inproxy_webrtc_remote_ice_candidate_port'', Some isIntString, requestParamOptional OR requestParamLogStringAsInt),
   (''inproxy_dial_nat_discovery_duration'', Some isIntString, requestParamOptional OR requestParamLogStringAsInt),
   (''inproxy_dial_failed_attempts_duration'', Some isIntString, requestParamOptional OR requestParamLogStringAsInt),
   (''inproxy_dial_webrtc_ice_gathering_duration'', Some isIntString, requestParamOptional OR requestParamLogStringAsInt),
   (''inproxy_dial_broker_offer_duration'', Some isIntString, requestParamOptional OR requestParamLogStringAsInt),
   (''inproxy_dial_webrtc_connection_duration'', Some isIntString, requestParamOptional OR requestParamLogStringAsInt),
   (''inproxy_broker_is_reuse'', Some isBooleanFlag, requestParamOptional OR requestParamLogFlagAsBool),
   (''inproxy_webrtc_use_media_streams'', Some isBooleanFlag, requestParamOptional OR requestParamLogFlagAsBool)]"

definition tacticsParams :: "param_spec list" where
  "tacticsParams =
  [(''stored_tactics_tag'', Some isAnyString, requestParamOptional),
   (''speed_test_samples'', None, requestParamOptional OR requestParamJSON)]"

definition baseAndDialParams :: "param_spec list" where
  "baseAndDialParams = baseParams @ baseDialParams @ inproxyDialParams"

definition handshakeRequestParams :: "param_spec list" where
  "handshakeRequestParams =
  [(''missing_server_entry_signature'', Some isBase64String, requestParamOptional),
   (''missing_server_entry_provider_id'', Some isBase64String, requestParamOptional),
   (''enable_proxy_protocol_headers'', Some isBooleanFlag, requestParamOptional OR requestParamNotLogged)]
  @ baseAndDialParams @ tacticsParams"

definition tacticsRequestParams :: "param_spec list" where
  "tacticsRequestParams = [(''session_id'', Some isHexDigits, 0)] @ tacticsParams @ baseAndDialParams"

definition inproxyBrokerRequestParams :: "param_spec list" where
  "inproxyBrokerRequestParams = [(''session_id'', Some isHexDigits, 0),
   (''fronting_provider_id'', Some isAnyString, requestParamOptional)] @ tacticsParams @ baseParams"

definition dslRequestParams :: "param_spec list" where
  "dslRequestParams = [(''session_id'', Some isHexDigits, 0),
   (''fronting_provider_id'', Some isAnyString, requestParamOptional)] @ tacticsParams @ baseParams"

definition uniqueUserParams :: "param_spec list" where
  "uniqueUserParams =
  [(''last_connected'', Some isLastConnected, 0)] @ baseParams"

definition connectedRequestParams :: "param_spec list" where
  "connectedRequestParams =
  [(''establishment_duration'', Some isIntString, requestParamOptional OR requestParamLogStringAsInt),
   (''light_proxy_id'', Some isAnyString, requestParamOptional),
   (''light_proxy_entry_tracker'', Some isIntString, requestParamOptional OR requestParamLogStringAsInt),
   (''light_proxy_dial_IPv4'', Some isIntString, requestParamOptional OR requestParamLogStringAsInt),
   (''light_proxy_dial_IPv6'', Some isIntString, requestParamOptional OR requestParamLogStringAsInt),
   (''light_proxy_dial_failed'', Some isIntString, requestParamOptional OR requestParamLogStringAsInt),
   (''light_proxy_dial_canceled'', Some isIntString, requestParamOptional OR requestParamLogStringAsInt)] @ uniqueUserParams"

definition remoteServerListStatParams :: "param_spec list" where
  "remoteServerListStatParams =
  [(''session_id'', Some isHexDigits, requestParamOptional),
   (''client_download_timestamp'', Some isISO8601Date, 0),
   (''tunneled'', Some isBooleanFlag, requestParamOptional OR requestParamLogFlagAsBool),
   (''url'', Some isAnyString, 0),
   (''etag'', Some isAnyString, 0),
   (''bytes'', Some isIntString, requestParamOptional OR requestParamLogStringAsInt),
   (''duration'', Some isIntString, requestParamOptional OR requestParamLogStringAsInt),
   (''authenticated'', Some isBooleanFlag, requestParamOptional OR requestParamLogFlagAsBool),
   (''fronting_provider_id'', Some isAnyString, requestParamOptional),
   (''meek_dial_address'', Some isDialAddress, requestParamOptional),
   (''meek_resolved_ip_address'', Some isIPAddress, requestParamOptional),
   (''meek_sni_server_name'', Some isDomain, requestParamOptional),
   (''meek_host_header'', Some isHostHeader, requestParamOptional),
   (''meek_transformed_host_name'', Some isBooleanFlag, requestParamOptional OR requestParamLogFlagAsBool),
   (''user_agent'', Some isAnyString, requestParamOptional),
   (''tls_profile'', Some isAnyString, requestParamOptional),
   (''tls_version'', Some isAnyString, requestParamOptional),
   (''tls_fragmented'', Some isBooleanFlag, requestParamOptional OR requestParamLogFlagAsBool)] @ baseParams"

definition failedTunnelStatParams :: "param_spec list" where
  "failedTunnelStatParams =
  [(''server_entry_tag'', Some isAnyString, requestParamOptional),
   (''session_id'', Some isHexDigits, 0),
   (''last_connected'', Some isLastConnected, 0),
   (''client_failed_timestamp'', Some isISO8601Date, 0),
   (''record_probability'', Some isFloatString, requestParamOptional OR requestParamLogStringAsFloat),
   (''liveness_test_upstream_bytes'', Some isIntString, requestParamOptional OR requestParamLogStringAsInt),
   (''liveness_test_sent_upstream_bytes'', Some isIntString, requestParamOptional OR requestParamLogStringAsInt),
   (''liveness_test_downstream_bytes'', Some isIntString, requestParamOptional OR requestParamLogStringAsInt),
   (''liveness_test_received_downstream_bytes'', Some isIntString, requestParamOptional OR requestParamLogStringAsInt),
   (''bytes_up'', Some isIntString, requestParamOptional OR requestParamLogStringAsInt),
   (''bytes_down'', Some isIntString, requestParamOptional OR requestParamLogStringAsInt),
   (''tunnel_error'', Some isAnyString, 0)] @ baseAndDialParams"

section \<open>Validation\<close>

datatype param_error = MissingParam string | UnexpectedStringType string | UnexpectedArrayType string
  | InvalidParam string

text \<open>\<open>None\<close> is the panic of calling a nil validator.\<close>

definition validateStringRequestParam ::
    "go_std \<Rightarrow> param_spec \<Rightarrow> param_value \<Rightarrow> (param_error + unit) option" where
  "validateStringRequestParam std spec v = (case spec of (name, validator, flags) \<Rightarrow>
    (case v of VString strValue \<Rightarrow>
       (case validator of None \<Rightarrow> None
        | Some f \<Rightarrow> Some (if \<not> f std strValue then Inl (InvalidParam name) else Inr ()))
     | _ \<Rightarrow> Some (Inl (UnexpectedStringType name))))"

fun validate_elements :: "go_std \<Rightarrow> param_spec \<Rightarrow> param_value list \<Rightarrow> (param_error + unit) option" where
  "validate_elements std spec [] = Some (Inr ())"
| "validate_elements std spec (v # vs) =
    pbind (validateStringRequestParam std spec v) (\<lambda>_. validate_elements std spec vs)"

definition validateStringArrayRequestParam ::
    "go_std \<Rightarrow> param_spec \<Rightarrow> param_value \<Rightarrow> (param_error + unit) option" where
  "validateStringArrayRequestParam std spec v = (case v of VArray vs \<Rightarrow> validate_elements std spec vs
     | _ \<Rightarrow> Some (Inl (UnexpectedArrayType (fst spec))))"

definition flag_set :: "32 word \<Rightarrow> 32 word \<Rightarrow> bool" where
  "flag_set flags f \<longleftrightarrow> flags AND f \<noteq> 0"

fun validateRequestParams :: "go_std \<Rightarrow> api_params \<Rightarrow> param_spec list \<Rightarrow> (param_error + unit) option" where
  "validateRequestParams std params [] = Some (Inr ())"
| "validateRequestParams std params ((name, validator, flags) # specs) =
    (case params name of
       None \<Rightarrow> if flag_set flags requestParamOptional then validateRequestParams std params specs
          else Some (Inl (MissingParam name))
     | Some v \<Rightarrow> pbind
         (if flag_set flags requestParamArray then validateStringArrayRequestParam std (name, validator, flags) v
          else if flag_set flags requestParamJSON then Some (Inr ())
          else validateStringRequestParam std (name, validator, flags) v)
         (\<lambda>_. validateRequestParams std params specs))"

section \<open>Reading parameters\<close>

definition getStringRequestParam :: "api_params \<Rightarrow> string \<Rightarrow> param_error + string" where
  "getStringRequestParam params name = (case params name of None \<Rightarrow> Inl (MissingParam name)
     | Some (VString v) \<Rightarrow> Inr v | Some _ \<Rightarrow> Inl (InvalidParam name))"

definition getIntStringRequestParam :: "api_params \<Rightarrow> string \<Rightarrow> param_error + int" where
  "getIntStringRequestParam params name = ebind (getStringRequestParam params name)
     (\<lambda>valueStr. case Atoi valueStr of None \<Rightarrow> Inl (InvalidParam name) | Some v \<Rightarrow> Inr v)"

definition getOptionalStringRequestParam :: "api_params \<Rightarrow> string \<Rightarrow> string option" where
  "getOptionalStringRequestParam params name = (case params name of Some (VString v) \<Rightarrow> Some v | _ \<Rightarrow> None)"

definition getOptionalBoolStringRequestParam :: "api_params \<Rightarrow> string \<Rightarrow> bool option" where
  "getOptionalBoolStringRequestParam params name =
     (case params name of Some (VString v) \<Rightarrow> Some (v = ''1'') | _ \<Rightarrow> None)"

definition getBoolStringRequestParam :: "api_params \<Rightarrow> string \<Rightarrow> param_error + bool" where
  "getBoolStringRequestParam params name = ebind (getStringRequestParam params name) (\<lambda>v. Inr (v = ''1''))"

definition getPaddingSizeRequestParam :: "api_params \<Rightarrow> string \<Rightarrow> param_error + int" where
  "getPaddingSizeRequestParam params name = ebind (getIntStringRequestParam params name)
     (\<lambda>v. let v = (if v < 0 then 0 else v) in Inr (if v > PADDING_MAX_BYTES then PADDING_MAX_BYTES else v))"

fun strings_of :: "param_value list \<Rightarrow> string list option" where
  "strings_of [] = Some []"
| "strings_of (v # vs) = (case v of VString s \<Rightarrow> map_option ((#) s) (strings_of vs) | _ \<Rightarrow> None)"

definition getStringArrayRequestParam :: "api_params \<Rightarrow> string \<Rightarrow> param_error + string list" where
  "getStringArrayRequestParam params name = (case params name of None \<Rightarrow> Inl (MissingParam name)
     | Some (VStrings ss) \<Rightarrow> Inr ss
     | Some (VArray vs) \<Rightarrow> (case strings_of vs of None \<Rightarrow> Inl (InvalidParam name) | Some ss \<Rightarrow> Inr ss)
     | Some _ \<Rightarrow> Inl (InvalidParam name))"

fun copy_params :: "string list \<Rightarrow> api_params \<Rightarrow> api_params \<Rightarrow> api_params" where
  "copy_params [] params acc = acc"
| "copy_params (n # ns) params acc =
    copy_params ns params (case params n of None \<Rightarrow> acc | Some v \<Rightarrow> acc(n \<mapsto> v))"

definition copyBaseAndDialParams :: "api_params \<Rightarrow> api_params" where
  "copyBaseAndDialParams params = copy_params (map fst baseAndDialParams) params Map.empty"

definition normalizeClientPlatform :: "go_std \<Rightarrow> string \<Rightarrow> string" where
  "normalizeClientPlatform std p =
    (if strings_Contains (ToLower std p) (ToLower std ''Android'') then ''Android''
     else if prefix ''iOS'' p then ''iOS'' else if prefix ''Windows'' p then ''Windows'' else ''Other'')"

definition isMobileClientPlatform :: "go_std \<Rightarrow> string \<Rightarrow> bool" where
  "isMobileClientPlatform std p \<longleftrightarrow>
    normalizeClientPlatform std p = ''Android'' \<or> normalizeClientPlatform std p = ''iOS''"

section \<open>What validation guarantees\<close>

text \<open>The values a parameter may have.\<close>

fun element_ok :: "go_std \<Rightarrow> (go_std \<Rightarrow> string \<Rightarrow> bool) option \<Rightarrow> param_value \<Rightarrow> bool" where
  "element_ok std validator (VString s) = (case validator of None \<Rightarrow> False | Some f \<Rightarrow> f std s)"
| "element_ok std validator _ = False"

fun param_ok :: "go_std \<Rightarrow> api_params \<Rightarrow> param_spec \<Rightarrow> bool" where
  "param_ok std params (name, validator, flags) = (case params name of
     None \<Rightarrow> flag_set flags requestParamOptional
   | Some v \<Rightarrow>
      (if flag_set flags requestParamArray then (\<exists>vs. v = VArray vs \<and> list_all (element_ok std validator) vs)
       else flag_set flags requestParamJSON \<or> element_ok std validator v))"

definition validators_given :: "param_spec list \<Rightarrow> bool" where
  "validators_given specs \<longleftrightarrow> list_all (\<lambda>(name, validator, flags). validator \<noteq> None \<or>
     (flag_set flags requestParamJSON \<and> \<not> flag_set flags requestParamArray)) specs"

lemma validate_string_ok:
  "validateStringRequestParam std (name, validator, flags) v = Some (Inr ()) \<longleftrightarrow> element_ok std validator v"
  by (cases v) (auto simp: validateStringRequestParam_def split: option.splits)

lemma validate_elements_ok:
  "validate_elements std (name, validator, flags) vs = Some (Inr ()) \<longleftrightarrow> list_all (element_ok std validator) vs"
proof (induction vs)
  case (Cons v vs)
  then show ?case using validate_string_ok [of std name validator flags v]
    by (cases "validateStringRequestParam std (name, validator, flags) v")
      (auto simp: pbind_def split: sum.splits)
qed simp

lemma validate_returns:
  "validator \<noteq> None \<Longrightarrow> validateStringRequestParam std (name, validator, flags) v \<noteq> None"
  "validator \<noteq> None \<Longrightarrow> validate_elements std (name, validator, flags) vs \<noteq> None"
proof -
  show s: "validateStringRequestParam std (name, validator, flags) v \<noteq> None" if "validator \<noteq> None" for v
    using that by (auto simp: validateStringRequestParam_def split: param_value.splits)
  show "validate_elements std (name, validator, flags) vs \<noteq> None" if "validator \<noteq> None"
    using s [OF that] by (induction vs) (auto simp: pbind_None_conv)
qed

lemma pbind_unit_ok: "pbind r (\<lambda>_. k) = Some (Inr ()) \<longleftrightarrow> r = Some (Inr ()) \<and> k = Some (Inr ())"
  for r :: "('e + unit) option" and k :: "('e + unit) option"
  by (auto simp: pbind_def split: option.splits sum.splits)

text \<open>
  C16: with validators for all but the JSON parameters, as all lists of the server have, validation
  never panics; and it accepts exactly the requests in which every required parameter is present
  and every parameter present has its type and satisfies its validator.
\<close>

theorem validated_params_typed:
  assumes "validators_given specs"
  shows "validateRequestParams std params specs \<noteq> None \<and>
    (validateRequestParams std params specs = Some (Inr ()) \<longleftrightarrow> list_all (param_ok std params) specs)"
  using assms
proof (induction specs)
  case (Cons spec specs)
  obtain name validator flags where spec: "spec = (name, validator, flags)" by (cases spec)
  have IH: "validateRequestParams std params specs \<noteq> None"
    "validateRequestParams std params specs = Some (Inr ()) \<longleftrightarrow> list_all (param_ok std params) specs"
    using Cons by (auto simp: validators_given_def)
  have v: "validator \<noteq> None \<or> (flag_set flags requestParamJSON \<and> \<not> flag_set flags requestParamArray)"
    using Cons.prems by (simp add: validators_given_def spec)
  show ?case
  proof (cases "params name")
    case None
    then show ?thesis using IH by (simp add: spec)
  next
    case (Some x)
    have "validateStringArrayRequestParam std (name, validator, flags) x \<noteq> None" if "validator \<noteq> None"
      using validate_returns(2) [OF that] by (cases x) (auto simp: validateStringArrayRequestParam_def)
    moreover have "validateStringArrayRequestParam std (name, validator, flags) x = Some (Inr ()) \<longleftrightarrow>
      (\<exists>vs. x = VArray vs \<and> list_all (element_ok std validator) vs)"
      using validate_elements_ok by (cases x) (auto simp: validateStringArrayRequestParam_def)
    ultimately show ?thesis
      using IH v validate_returns(1) [of validator std name flags x] validate_string_ok [of std name validator flags x]
      by (auto simp: spec Some pbind_unit_ok pbind_None_conv simp del: not_None_eq)
  qed
qed simp

definition sample_params :: api_params where
  "sample_params = [''last_connected'' \<mapsto> VString ''None'', ''propagation_channel_id'' \<mapsto> VString ''0A'',
     ''sponsor_id'' \<mapsto> VString ''0123456789abcdef'', ''client_version'' \<mapsto> VString ''-7'',
     ''client_platform'' \<mapsto> VString ''Linux'', ''client_features'' \<mapsto> VArray [VString ''x'']]"

lemma sample_params_ok: "list_all (param_ok std sample_params) uniqueUserParams"
  by (simp add: uniqueUserParams_def baseParams_def sample_params_def flag_set_def isLastConnected_def isHexDigits_def
      isSponsorID_def isIntString_def isClientPlatform_def isAnyString_def in_range_def white_space_def Atoi_def
      is_digit_def Let_def)

theorem validated_params_typed_witness:
  "\<forall>std. validateRequestParams std sample_params uniqueUserParams = Some (Inr ())"
proof
  fix std
  have "validators_given uniqueUserParams"
    by (simp add: validators_given_def uniqueUserParams_def baseParams_def)
  from validated_params_typed [OF this, of std sample_params] sample_params_ok
  show "validateRequestParams std sample_params uniqueUserParams = Some (Inr ())" by blast
qed

section \<open>Logging\<close>

datatype log_value = LString string | LStrings "string list" | LInt int | LFloat "64 word" | LBool bool
  | LValue param_value

type_synonym log_fields = "string \<rightharpoonup> log_value"

record geo_ip_data =
  Country :: string
  City :: string
  ISP :: string
  ASN :: string
  ASO :: string

definition underscored :: "string \<Rightarrow> log_value" where
  "underscored v = LString (map (\<lambda>c. if c = CHR '' '' then CHR ''_'' else c) v)"

definition SetClientLogFields :: "geo_ip_data \<Rightarrow> log_fields \<Rightarrow> log_fields" where
  "SetClientLogFields g f = f(''client_region'' \<mapsto> underscored (Country g), ''client_city'' \<mapsto> underscored (City g),
     ''client_isp'' \<mapsto> underscored (ISP g), ''client_asn'' \<mapsto> underscored (ASN g), ''client_aso'' \<mapsto> underscored (ASO g))"

definition rename_sample_key :: "string \<Rightarrow> string" where
  "rename_sample_key k = (if k = ''s'' then ''timestamp'' else if k = ''r'' then ''server_region''
     else if k = ''p'' then ''relay_protocol'' else if k = ''t'' then ''round_trip_time_ms''
     else if k = ''u'' then ''bytes_up'' else if k = ''d'' then ''bytes_down'' else k)"

definition makeSpeedTestSamplesLogField :: "param_value list \<Rightarrow> param_value list" where
  "makeSpeedTestSamplesLogField samples = map (\<lambda>sample. case sample of
      VObject kvs \<Rightarrow> VObject (map (\<lambda>(k, v). (rename_sample_key k, v)) kvs) | _ \<Rightarrow> VObject []) samples"

text \<open>The string parameter of a name, or the empty string.\<close>

definition string_param :: "api_params \<Rightarrow> string \<Rightarrow> string" where
  "string_param params name = (case params name of Some (VString v) \<Rightarrow> v | _ \<Rightarrow> [])"

definition not_logged :: "api_params \<Rightarrow> 32 word \<Rightarrow> bool" where
  "not_logged params flags =
    (let tunnelProtocol = string_param params ''relay_protocol'' in
     if flag_set flags requestParamNotLogged then True
     else if flag_set flags requestParamLogOnlyForFrontedMeekOrConjure \<and>
         \<not> TunnelProtocolUsesFrontedMeek tunnelProtocol \<and> \<not> TunnelProtocolUsesConjure tunnelProtocol then True
     else if flag_set flags requestParamNotLoggedForUnfrontedMeekNonTransformedHeader \<and>
         TunnelProtocolUsesMeek tunnelProtocol \<and> \<not> TunnelProtocolUsesFrontedMeek tunnelProtocol
       then TunnelProtocolUsesMeekHTTPS tunnelProtocol \<or> string_param params ''meek_transformed_host_name'' \<noteq> ''1''
     else False)"

definition redact_tunnel_error :: "string \<Rightarrow> string" where
  "redact_tunnel_error v = (let target = ''upstreamproxy error: proxyURI url.Parse: parse '' in
     case strings_Index v target of None \<Rightarrow> v
     | Some index \<Rightarrow> take (index + length target) v @ ''<redacted>'')"

definition log_string :: "go_std \<Rightarrow> string \<Rightarrow> string \<Rightarrow> 32 word \<Rightarrow> string \<Rightarrow> log_fields \<Rightarrow> log_fields" where
  "log_string std logFieldPrefix name flags v lf =
    (if name = ''meek_dial_address'' then
       (let host = SplitHostPort_host std v in
        lf(logFieldPrefix @ (if isIPAddress std host then ''meek_dial_ip_address'' else ''meek_dial_domain'')
          \<mapsto> LString host))
     else if name = ''upstream_proxy_type'' then lf(logFieldPrefix @ name \<mapsto> LString (ToLower std v))
     else if name = ''speed_test_samples'' then lf
     else if name = ''tunnel_error'' then lf(logFieldPrefix @ name \<mapsto> LString (redact_tunnel_error v))
     else lf(logFieldPrefix @ name \<mapsto>
       (if flag_set flags requestParamLogStringAsInt then LInt (Atoi_value v)
        else if flag_set flags requestParamLogStringAsFloat then LFloat (snd (ParseFloat std v))
        else if flag_set flags requestParamLogStringLengthAsInt then LInt (int (length v))
        else if flag_set flags requestParamLogFlagAsBool then LBool (v = ''1'')
        else LString v)))"

fun log_params :: "go_std \<Rightarrow> string \<Rightarrow> api_params \<Rightarrow> param_spec list \<Rightarrow> log_fields \<Rightarrow> log_fields" where
  "log_params std logFieldPrefix params [] lf = lf"
| "log_params std logFieldPrefix params ((name, validator, flags) # specs) lf =
    log_params std logFieldPrefix params specs
     (if not_logged params flags then lf
      else (case (case params name of
            None \<Rightarrow> if flag_set flags requestParamLogFlagAsBool \<and> flag_set flags requestParamLogOmittedFlagAsFalse
              then Some (VString ''0'') else None
          | Some v \<Rightarrow> Some v) of
        None \<Rightarrow> lf
      | Some (VString v) \<Rightarrow> log_string std logFieldPrefix name flags v lf
      | Some (VArray vs) \<Rightarrow> lf(logFieldPrefix @ name \<mapsto> LValue (VArray
          (if name = ''speed_test_samples'' then makeSpeedTestSamplesLogField vs else vs)))
      | Some v \<Rightarrow> lf(logFieldPrefix @ name \<mapsto> LValue v)))"

definition getRequestLogFields :: "go_std \<Rightarrow> string \<Rightarrow> string \<Rightarrow> string \<Rightarrow> geo_ip_data \<Rightarrow> string list
    \<Rightarrow> api_params option \<Rightarrow> param_spec list \<Rightarrow> log_fields" where
  "getRequestLogFields std eventName logFieldPrefix sessionID geoIPData accessTypes params specs =
    (let f0 = (if sessionID \<noteq> [] then [''session_id'' \<mapsto> LString sessionID] else Map.empty);
         f1 = (if eventName \<noteq> [] then f0(''event_name'' \<mapsto> LString eventName) else f0);
         f2 = (if geoIPData \<noteq> \<lparr>Country = [], City = [], ISP = [], ASN = [], ASO = []\<rparr>
           then SetClientLogFields geoIPData f1 else f1);
         f3 = (if accessTypes \<noteq> [] then f2(''authorized_access_types'' \<mapsto> LStrings accessTypes) else f2)
     in case params of None \<Rightarrow> f3 | Some p \<Rightarrow> log_params std logFieldPrefix p specs f3)"

text \<open>The field in which a parameter is logged.\<close>

definition field_names :: "string \<Rightarrow> string set" where
  "field_names name = (if name = ''meek_dial_address'' then {''meek_dial_ip_address'', ''meek_dial_domain''} else {})
     \<union> {name}"

definition request_fields :: "string set" where
  "request_fields = {''session_id'', ''event_name'', ''client_region'', ''client_city'', ''client_isp'', ''client_asn'',
     ''client_aso'', ''authorized_access_types''}"

lemma log_params_fields:
  assumes "log_params std logFieldPrefix params specs lf k \<noteq> None" "lf k = None"
  shows "\<exists>name validator flags n. (name, validator, flags) \<in> set specs \<and> \<not> not_logged params flags \<and>
    n \<in> field_names name \<and> k = logFieldPrefix @ n"
  using assms
proof (induction specs arbitrary: lf)
  case (Cons spec specs)
  obtain name validator flags where spec: "spec = (name, validator, flags)" by (cases spec)
  let ?g = "log_params std logFieldPrefix params [spec] lf"
  have step: "log_params std logFieldPrefix params (spec # specs) lf = log_params std logFieldPrefix params specs ?g"
    by (simp add: spec)
  show ?case
  proof (cases "?g k = None")
    case True
    with Cons.IH [of ?g] Cons.prems show ?thesis unfolding step by fastforce
  next
    case False
    then have "\<not> not_logged params flags \<and> (\<exists>n \<in> field_names name. k = logFieldPrefix @ n)"
      using Cons.prems(2)
      by (auto simp: spec field_names_def log_string_def Let_def split: if_splits option.splits param_value.splits)
    then show ?thesis by (auto simp: spec)
  qed
qed simp

lemma request_log_fields:
  assumes "getRequestLogFields std e [] sid g acc (Some params) specs k \<noteq> None" "k \<notin> request_fields"
  shows "\<exists>name validator flags. (name, validator, flags) \<in> set specs \<and> \<not> not_logged params flags \<and> k \<in> field_names name"
proof -
  let ?f0 = "if sid \<noteq> [] then [''session_id'' \<mapsto> LString sid] else Map.empty"
  let ?f1 = "if e \<noteq> [] then ?f0(''event_name'' \<mapsto> LString e) else ?f0"
  let ?f2 = "if g \<noteq> \<lparr>Country = [], City = [], ISP = [], ASN = [], ASO = []\<rparr> then SetClientLogFields g ?f1 else ?f1"
  let ?f3 = "if acc \<noteq> [] then ?f2(''authorized_access_types'' \<mapsto> LStrings acc) else ?f2"
  have "?f3 k = None" using assms(2) by (simp add: request_fields_def SetClientLogFields_def)
  moreover have "getRequestLogFields std e [] sid g acc (Some params) specs = log_params std [] params specs ?f3"
    by (simp add: getRequestLogFields_def Let_def)
  ultimately show ?thesis using log_params_fields [of std "[]" params specs ?f3 k] assms(1) by fastforce
qed

text \<open>The flags that every parameter with one of the given names has in a list.\<close>

definition all_flagged :: "string set \<Rightarrow> 32 word \<Rightarrow> param_spec list \<Rightarrow> bool" where
  "all_flagged names f specs \<longleftrightarrow> list_all (\<lambda>(name, validator, flags). name \<in> names \<longrightarrow> flag_set flags f) specs"

lemma flagged_not_logged:
  assumes "all_flagged {name. k \<in> field_names name} f specs"
    and "\<And>flags. flag_set flags f \<Longrightarrow> not_logged params flags" "k \<notin> request_fields"
  shows "getRequestLogFields std e [] sid g acc (Some params) specs k = None"
proof (rule ccontr)
  assume "getRequestLogFields std e [] sid g acc (Some params) specs k \<noteq> None"
  from request_log_fields [OF this assms(3)] assms(1,2) show False
    by (fastforce simp: all_flagged_def list_all_iff)
qed

lemmas param_lists = handshakeRequestParams_def tacticsRequestParams_def failedTunnelStatParams_def baseAndDialParams_def
  baseParams_def baseDialParams_def inproxyDialParams_def tacticsParams_def

lemma private_params_flagged:
  "all_flagged {name. ''inproxy_relay_packet'' \<in> field_names name} requestParamNotLogged handshakeRequestParams"
  "all_flagged {name. ''inproxy_connection_id'' \<in> field_names name} requestParamNotLogged handshakeRequestParams"
  by (simp_all add: all_flagged_def field_names_def param_lists flag_set_def)

lemma fronted_params_flagged:
  "k \<in> {''meek_dial_ip_address'', ''meek_dial_domain'', ''meek_resolved_ip_address'', ''steering_ip''} \<Longrightarrow>
    all_flagged {name. k \<in> field_names name} requestParamLogOnlyForFrontedMeekOrConjure handshakeRequestParams"
  by (auto simp: all_flagged_def field_names_def param_lists flag_set_def)

lemma webrtc_casing_absent:
  "all_flagged {name. ''inproxy_webrtc_dns_qname_random_casing'' \<in> field_names name} 0 handshakeRequestParams"
  by (simp add: all_flagged_def field_names_def param_lists)

text \<open>
  What a handshake is logged with: never the in-proxy relay packet or connection ID, and the
  addresses that the client dialed only for fronted meek and Conjure, where they are not the
  server's own. The random casing flag of in-proxy WebRTC DNS, which the list leaves out because it
  names that of the broker twice, is never logged either.
\<close>

lemma handshake_log_private:
  assumes "\<not> TunnelProtocolUsesFrontedMeek (string_param params ''relay_protocol'')"
    and "\<not> TunnelProtocolUsesConjure (string_param params ''relay_protocol'')"
    and "k \<in> {''meek_dial_ip_address'', ''meek_dial_domain'', ''meek_resolved_ip_address'', ''steering_ip'',
      ''inproxy_relay_packet'', ''inproxy_connection_id'', ''inproxy_webrtc_dns_qname_random_casing''}"
  shows "getRequestLogFields std e [] sid g acc (Some params) handshakeRequestParams k = None"
proof -
  have k: "k \<notin> request_fields" using assms(3) by (auto simp: request_fields_def)
  consider (relay) "k \<in> {''inproxy_relay_packet'', ''inproxy_connection_id''}"
    | (fronted) "k \<in> {''meek_dial_ip_address'', ''meek_dial_domain'', ''meek_resolved_ip_address'', ''steering_ip''}"
    | (absent) "k = ''inproxy_webrtc_dns_qname_random_casing''"
    using assms(3) unfolding insert_iff empty_iff by argo
  then show ?thesis
  proof cases
    case relay
    have "all_flagged {name. k \<in> field_names name} requestParamNotLogged handshakeRequestParams"
      using relay unfolding insert_iff empty_iff by (elim disjE FalseE; simp only: private_params_flagged)
    then show ?thesis by (rule flagged_not_logged) (simp_all add: not_logged_def Let_def k)
  next
    case fronted
    from fronted_params_flagged [OF this] show ?thesis
      by (rule flagged_not_logged) (use assms(1,2) k in \<open>simp_all add: not_logged_def Let_def\<close>)
  next
    case absent
    from webrtc_casing_absent show ?thesis
      unfolding absent by (rule flagged_not_logged) (use k absent in \<open>simp_all add: flag_set_def\<close>)
  qed
qed

section \<open>Domain names\<close>

lemma isDomainRegex_iff: "isDomainRegex v \<longleftrightarrow> v \<noteq> [] \<and> domain_char (last v)"
proof
  assume "isDomainRegex v"
  then obtain n where n: "1 \<le> n" "n \<le> length v" "list_all domain_char (drop (length v - n) v)"
    by (auto simp: isDomainRegex_def list_ex_iff)
  then have "drop (length v - n) v \<noteq> []" "last (drop (length v - n) v) = last v" by auto
  with n show "v \<noteq> [] \<and> domain_char (last v)" by (metis last_in_set list_all_iff drop_Nil)
next
  assume v: "v \<noteq> [] \<and> domain_char (last v)"
  then have "drop (length v - 1) v = [last v]" by (cases v rule: rev_cases) auto
  with v show "isDomainRegex v"
    unfolding isDomainRegex_def list_ex_iff by (intro bexI [of _ 1]) (auto simp: Suc_le_eq)
qed

lemma domain_parts_iff: "domain_parts ps \<longleftrightarrow>
   list_all (\<lambda>p. p \<noteq> [] \<and> hd p \<noteq> CHR ''-'' \<and> last p \<noteq> CHR ''-'' \<and> domain_char (last p)) ps"
proof (induction ps)
  case (Cons p ps)
  have "prefix ''-'' p \<longleftrightarrow> p \<noteq> [] \<and> hd p = CHR ''-''" by (cases p) auto
  moreover have "suffix ''-'' p \<longleftrightarrow> p \<noteq> [] \<and> last p = CHR ''-''" by (cases p rule: rev_cases) auto
  ultimately show ?case using Cons.IH by (auto simp: isDomainRegex_iff)
qed simp

text \<open>
  Because the expression for the parts of a domain name is anchored only at its end, the check
  looks at the first and the last byte of a part and at nothing between: it accepts exactly the
  names of at most 255 bytes whose parts are not empty, do not begin or end with a hyphen and end
  in a letter or digit.
\<close>

lemma isDomain_iff:
  "isDomain std v \<longleftrightarrow> length v \<le> 255 \<and>
    list_all (\<lambda>p. p \<noteq> [] \<and> hd p \<noteq> CHR ''-'' \<and> last p \<noteq> CHR ''-'' \<and> domain_char (last p))
      (strings_Split (TrimSuffix v ''.'') CHR ''.'')"
  by (simp add: isDomain_def domain_parts_iff not_less)

lemma isDomain_accepts_junk: "isDomain std ''!? (x.c''" "isDomain std (replicate 200 CHR ''a'')"
proof -
  show "isDomain std ''!? (x.c''"
    by (simp add: isDomain_def TrimSuffix_def suffix_def domain_parts_iff domain_char_def in_range_def)
  have "strings_Split (replicate n CHR ''a'') CHR ''.'' = [replicate n CHR ''a'']" for n
    by (induction n) auto
  then show "isDomain std (replicate 200 CHR ''a'')"
    by (simp add: isDomain_def TrimSuffix_def suffix_def domain_parts_iff domain_char_def in_range_def)
qed

end
