(* ===== verification/TrafficRules.thy ===== *)
theory TrafficRules
  imports RequestParams
begin

text \<open>
  The traffic rules of the server, \<open>server/trafficRules.go\<close>: validation of a rules file, its
  loading, the choice and merging of the rules of a client, the filters, and the decision whether a
  port forward is allowed. A pointer or slice that may be nil is an option; \<open>ParseCIDR\<close> and the
  lookup of an address' ASN are parameters. The fields of the meek rate limiter are a record of
  their own here.
\<close>

section \<open>Rules\<close>

record rate_limits =
  ReadUnthrottledBytes :: "int option"
  ReadBytesPerSecond :: "int option"
  WriteUnthrottledBytes :: "int option"
  WriteBytesPerSecond :: "int option"
  CloseAfterExhausted :: "bool option"
  EstablishmentReadBytesPerSecond :: "int option"
  EstablishmentWriteBytesPerSecond :: "int option"
  UnthrottleFirstTunnelOnly :: "bool option"

record traffic_rules =
  RateLimits :: rate_limits
  DialTCPPortForwardTimeoutMilliseconds :: "int option"
  IdleTCPPortForwardTimeoutMilliseconds :: "int option"
  IdleUDPPortForwardTimeoutMilliseconds :: "int option"
  MaxTCPDialingPortForwardCount :: "int option"
  MaxTCPPortForwardCount :: "int option"
  MaxUDPPortForwardCount :: "int option"
  AllowTCPPorts :: "port_list option"
  AllowUDPPorts :: "port_list option"
  DisallowTCPPorts :: "port_list option"
  DisallowUDPPorts :: "port_list option"
  AllowSubnets :: "string list option"
  AllowASNs :: "string list option"
  DisallowSubnets :: "string list option"
  DisallowASNs :: "string list option"
  DisableDiscovery :: "bool option"

record filter_spec =
  TunnelProtocols :: "string list"
  Regions :: "string list"
  ISPs :: "string list"
  ASNs :: "string list"
  Cities :: "string list"
  APIProtocol :: string
  HandshakeParameters :: "(string \<times> string list) list option"
  AuthorizedAccessTypes :: "string list"
  ActiveAuthorizationIDs :: "string list"
  AuthorizationsRevoked :: bool
  ProviderIDs :: "string list"
  MinClientVersion :: "int option"
  MaxClientVersion :: "int option"
  regionLookup :: string_lookup
  ispLookup :: string_lookup
  asnLookup :: string_lookup
  cityLookup :: string_lookup
  activeAuthorizationIDLookup :: string_lookup
  providerIDLookup :: string_lookup

record filtered_rules =
  Filter :: filter_spec
  ExceptFilter :: "filter_spec option"
  Rules :: traffic_rules

record meek_rate_limiter =
  MeekRateLimiterHistorySize :: int
  MeekRateLimiterThresholdSeconds :: int
  MeekRateLimiterTunnelProtocols :: "string list"
  MeekRateLimiterRegions :: "string list"
  MeekRateLimiterISPs :: "string list"
  MeekRateLimiterASNs :: "string list"
  MeekRateLimiterCities :: "string list"
  MeekRateLimiterGarbageCollectionTriggerCount :: int
  MeekRateLimiterReapHistoryFrequencySeconds :: int
  MeekRateLimiterMaxEntries :: int

record traffic_rules_set =
  DefaultRules :: traffic_rules
  FilteredRules :: "filtered_rules list"
  MeekRateLimiter :: meek_rate_limiter

abbreviation (input) DEFAULT_IDLE_TCP_PORT_FORWARD_TIMEOUT_MILLISECONDS :: int where "DEFAULT_IDLE_TCP_PORT_FORWARD_TIMEOUT_MILLISECONDS \<equiv> 30000"
abbreviation (input) DEFAULT_IDLE_UDP_PORT_FORWARD_TIMEOUT_MILLISECONDS :: int where "DEFAULT_IDLE_UDP_PORT_FORWARD_TIMEOUT_MILLISECONDS \<equiv> 30000"
abbreviation (input) DEFAULT_DIAL_TCP_PORT_FORWARD_TIMEOUT_MILLISECONDS :: int where "DEFAULT_DIAL_TCP_PORT_FORWARD_TIMEOUT_MILLISECONDS \<equiv> 10000"
abbreviation (input) DEFAULT_MAX_TCP_DIALING_PORT_FORWARD_COUNT :: int where "DEFAULT_MAX_TCP_DIALING_PORT_FORWARD_COUNT \<equiv> 64"
abbreviation (input) DEFAULT_MAX_TCP_PORT_FORWARD_COUNT :: int where "DEFAULT_MAX_TCP_PORT_FORWARD_COUNT \<equiv> 512"
abbreviation (input) DEFAULT_MAX_UDP_PORT_FORWARD_COUNT :: int where "DEFAULT_MAX_UDP_PORT_FORWARD_COUNT \<equiv> 32"
abbreviation (input) DEFAULT_MEEK_RATE_LIMITER_GARBAGE_COLLECTOR_TRIGGER_COUNT :: int where "DEFAULT_MEEK_RATE_LIMITER_GARBAGE_COLLECTOR_TRIGGER_COUNT \<equiv> 5000"
abbreviation (input) DEFAULT_MEEK_RATE_LIMITER_REAP_HISTORY_FREQUENCY_SECONDS :: int where "DEFAULT_MEEK_RATE_LIMITER_REAP_HISTORY_FREQUENCY_SECONDS \<equiv> 300"
abbreviation (input) DEFAULT_MEEK_RATE_LIMITER_MAX_ENTRIES :: int where "DEFAULT_MEEK_RATE_LIMITER_MAX_ENTRIES \<equiv> 1000000"

text \<open>\<open>common.RateLimits\<close> and the conversion; \<open>None\<close> is the panic on a nil pointer.\<close>

record common_rate_limits =
  c_ReadUnthrottledBytes :: int
  c_ReadBytesPerSecond :: int
  c_WriteUnthrottledBytes :: int
  c_WriteBytesPerSecond :: int
  c_CloseAfterExhausted :: bool

definition CommonRateLimits :: "rate_limits \<Rightarrow> bool \<Rightarrow> common_rate_limits option" where
  "CommonRateLimits r handshaked =
    (case (ReadUnthrottledBytes r, ReadBytesPerSecond r, WriteUnthrottledBytes r, WriteBytesPerSecond r,
        CloseAfterExhausted r) of
       (Some ru, Some rb, Some wu, Some wb, Some ce) \<Rightarrow>
         (if handshaked then Some \<lparr>c_ReadUnthrottledBytes = ru, c_ReadBytesPerSecond = rb,
             c_WriteUnthrottledBytes = wu, c_WriteBytesPerSecond = wb, c_CloseAfterExhausted = ce\<rparr>
          else (case (EstablishmentReadBytesPerSecond r, EstablishmentWriteBytesPerSecond r) of
             (Some er, Some ew) \<Rightarrow> Some \<lparr>c_ReadUnthrottledBytes = ru, c_ReadBytesPerSecond = er,
               c_WriteUnthrottledBytes = wu, c_WriteBytesPerSecond = ew, c_CloseAfterExhausted = ce\<rparr>
           | _ \<Rightarrow> None))
     | _ \<Rightarrow> None)"

section \<open>Validation and loading\<close>

datatype rules_error = NegativeMeekValue | MissingMeekThreshold | NegativeValue | InvalidSubnet string
  | InvalidASN string | InvalidParamName string

definition negative :: "int option \<Rightarrow> bool" where
  "negative p = (case p of None \<Rightarrow> False | Some v \<Rightarrow> v < 0)"

fun check_subnets :: "(string \<Rightarrow> ip_net option) \<Rightarrow> string list \<Rightarrow> rules_error + unit" where
  "check_subnets ParseCIDR [] = Inr ()"
| "check_subnets ParseCIDR (s # ss) =
    (if ParseCIDR s = None then Inl (InvalidSubnet s) else check_subnets ParseCIDR ss)"

fun check_ASNs :: "string list \<Rightarrow> rules_error + unit" where
  "check_ASNs [] = Inr ()"
| "check_ASNs (a # as) = (if Atoi a = None then Inl (InvalidASN a) else check_ASNs as)"

definition slice :: "'a list option \<Rightarrow> 'a list" where
  "slice p = (case p of None \<Rightarrow> [] | Some xs \<Rightarrow> xs)"

definition validateTrafficRules :: "(string \<Rightarrow> ip_net option) \<Rightarrow> traffic_rules \<Rightarrow> rules_error + unit" where
  "validateTrafficRules ParseCIDR rules =
    (if negative (ReadUnthrottledBytes (RateLimits rules)) \<or>
        negative (ReadBytesPerSecond (RateLimits rules)) \<or>
        negative (WriteUnthrottledBytes (RateLimits rules)) \<or>
        negative (WriteBytesPerSecond (RateLimits rules)) \<or>
        negative (EstablishmentReadBytesPerSecond (RateLimits rules)) \<or>
        negative (EstablishmentWriteBytesPerSecond (RateLimits rules)) \<or>
        negative (DialTCPPortForwardTimeoutMilliseconds rules) \<or>
        negative (IdleTCPPortForwardTimeoutMilliseconds rules) \<or>
        negative (IdleUDPPortForwardTimeoutMilliseconds rules) \<or>
        negative (MaxTCPDialingPortForwardCount rules) \<or>
        negative (MaxTCPPortForwardCount rules) \<or>
        negative (MaxUDPPortForwardCount rules)
     then Inl NegativeValue
     else ebind (check_subnets ParseCIDR (slice (AllowSubnets rules))) (\<lambda>_.
       ebind (check_ASNs (slice (AllowASNs rules))) (\<lambda>_.
       ebind (check_subnets ParseCIDR (slice (DisallowSubnets rules))) (\<lambda>_.
       check_ASNs (slice (DisallowASNs rules))))))"

fun check_param_names :: "string list \<Rightarrow> rules_error + unit" where
  "check_param_names [] = Inr ()"
| "check_param_names (n # ns) =
    (if list_ex (\<lambda>paramSpec. fst paramSpec = n) handshakeRequestParams then check_param_names ns
     else Inl (InvalidParamName n))"

definition validateFilter :: "filter_spec \<Rightarrow> rules_error + unit" where
  "validateFilter f = check_param_names (map fst (slice (HandshakeParameters f)))"

fun validate_filtered :: "(string \<Rightarrow> ip_net option) \<Rightarrow> filtered_rules list \<Rightarrow> rules_error + unit" where
  "validate_filtered ParseCIDR [] = Inr ()"
| "validate_filtered ParseCIDR (r # rs) = ebind (validateFilter (Filter r)) (\<lambda>_.
     ebind (case ExceptFilter r of None \<Rightarrow> Inr () | Some f \<Rightarrow> validateFilter f) (\<lambda>_.
     ebind (validateTrafficRules ParseCIDR (Rules r)) (\<lambda>_. validate_filtered ParseCIDR rs)))"

definition Validate :: "(string \<Rightarrow> ip_net option) \<Rightarrow> traffic_rules_set \<Rightarrow> rules_error + unit" where
  "Validate ParseCIDR ruleSet = (let m = MeekRateLimiter ruleSet in
     if MeekRateLimiterHistorySize m < 0 \<or> MeekRateLimiterThresholdSeconds m < 0 \<or>
        MeekRateLimiterGarbageCollectionTriggerCount m < 0 \<or> MeekRateLimiterReapHistoryFrequencySeconds m < 0
     then Inl NegativeMeekValue
     else if MeekRateLimiterHistorySize m > 0 \<and> MeekRateLimiterThresholdSeconds m \<le> 0 then Inl MissingMeekThreshold
     else ebind (validateTrafficRules ParseCIDR (DefaultRules ruleSet)) (\<lambda>_.
       validate_filtered ParseCIDR (FilteredRules ruleSet)))"

definition initTrafficRulesLookups :: "traffic_rules \<Rightarrow> traffic_rules" where
  "initTrafficRulesLookups rules = rules\<lparr>AllowTCPPorts := OptimizeLookups (AllowTCPPorts rules),
     AllowUDPPorts := OptimizeLookups (AllowUDPPorts rules),
     DisallowTCPPorts := OptimizeLookups (DisallowTCPPorts rules),
     DisallowUDPPorts := OptimizeLookups (DisallowUDPPorts rules)\<rparr>"

definition initTrafficRulesFilterLookups :: "filter_spec \<Rightarrow> filter_spec" where
  "initTrafficRulesFilterLookups f = f\<lparr>regionLookup := NewStringLookup (Regions f),
     ispLookup := NewStringLookup (ISPs f), asnLookup := NewStringLookup (ASNs f),
     cityLookup := NewStringLookup (Cities f),
     activeAuthorizationIDLookup := NewStringLookup (ActiveAuthorizationIDs f),
     providerIDLookup := NewStringLookup (ProviderIDs f)\<rparr>"

definition initLookups :: "traffic_rules_set \<Rightarrow> traffic_rules_set" where
  "initLookups ruleSet = ruleSet\<lparr>DefaultRules := initTrafficRulesLookups (DefaultRules ruleSet),
     FilteredRules := map (\<lambda>r. r\<lparr>Filter := initTrafficRulesFilterLookups (Filter r),
       ExceptFilter := map_option initTrafficRulesFilterLookups (ExceptFilter r),
       Rules := initTrafficRulesLookups (Rules r)\<rparr>) (FilteredRules ruleSet)\<rparr>"

text \<open>
  The reload function of \<open>NewTrafficRulesSet\<close>, after JSON decoding: the new rules are validated
  and copied, field by field, into the set that is in use.
\<close>

definition reload_rules :: "(string \<Rightarrow> ip_net option) \<Rightarrow> traffic_rules_set \<Rightarrow> traffic_rules_set
    \<Rightarrow> rules_error + traffic_rules_set" where
  "reload_rules ParseCIDR ruleSet newSet = ebind (Validate ParseCIDR newSet) (\<lambda>_.
     let m = MeekRateLimiter ruleSet; n = MeekRateLimiter newSet
     in Inr (initLookups (ruleSet\<lparr>MeekRateLimiter := m\<lparr>
          MeekRateLimiterHistorySize := MeekRateLimiterHistorySize n,
          MeekRateLimiterThresholdSeconds := MeekRateLimiterThresholdSeconds n,
          MeekRateLimiterTunnelProtocols := MeekRateLimiterTunnelProtocols n,
          MeekRateLimiterRegions := MeekRateLimiterRegions n,
          MeekRateLimiterISPs := MeekRateLimiterISPs n,
          MeekRateLimiterASNs := MeekRateLimiterASNs n,
          MeekRateLimiterCities := MeekRateLimiterCities n,
          MeekRateLimiterGarbageCollectionTriggerCount := MeekRateLimiterGarbageCollectionTriggerCount n,
          MeekRateLimiterReapHistoryFrequencySeconds := MeekRateLimiterReapHistoryFrequencySeconds n\<rparr>,
        DefaultRules := DefaultRules newSet, FilteredRules := FilteredRules newSet\<rparr>)))"

definition no_limits :: rate_limits where
  "no_limits = \<lparr>ReadUnthrottledBytes = None, ReadBytesPerSecond = None, WriteUnthrottledBytes = None, WriteBytesPerSecond = None, CloseAfterExhausted = None, EstablishmentReadBytesPerSecond = None, EstablishmentWriteBytesPerSecond = None, UnthrottleFirstTunnelOnly = None\<rparr>"

definition no_rules :: traffic_rules where
  "no_rules = \<lparr>RateLimits = no_limits, DialTCPPortForwardTimeoutMilliseconds = None, IdleTCPPortForwardTimeoutMilliseconds = None, IdleUDPPortForwardTimeoutMilliseconds = None, MaxTCPDialingPortForwardCount = None, MaxTCPPortForwardCount = None, MaxUDPPortForwardCount = None, AllowTCPPorts = None, AllowUDPPorts = None, DisallowTCPPorts = None, DisallowUDPPorts = None, AllowSubnets = None, AllowASNs = None, DisallowSubnets = None, DisallowASNs = None, DisableDiscovery = None\<rparr>"

text \<open>The zero value of the set, before the first load.\<close>

definition empty_set :: traffic_rules_set where
  "empty_set = \<lparr>DefaultRules = no_rules, FilteredRules = [], MeekRateLimiter =
     \<lparr>MeekRateLimiterHistorySize = 0, MeekRateLimiterThresholdSeconds = 0, MeekRateLimiterTunnelProtocols = [],
      MeekRateLimiterRegions = [], MeekRateLimiterISPs = [], MeekRateLimiterASNs = [], MeekRateLimiterCities = [],
      MeekRateLimiterGarbageCollectionTriggerCount = 0, MeekRateLimiterReapHistoryFrequencySeconds = 0,
      MeekRateLimiterMaxEntries = 0\<rparr>\<rparr>"

definition NewTrafficRulesSet :: "(string \<Rightarrow> ip_net option) \<Rightarrow> traffic_rules_set \<Rightarrow> rules_error + traffic_rules_set" where
  "NewTrafficRulesSet ParseCIDR newSet = reload_rules ParseCIDR empty_set newSet"

definition GetMeekRateLimiterConfig :: "traffic_rules_set \<Rightarrow> meek_rate_limiter" where
  "GetMeekRateLimiterConfig ruleSet = (let m = MeekRateLimiter ruleSet in m\<lparr>
     MeekRateLimiterGarbageCollectionTriggerCount := (if MeekRateLimiterGarbageCollectionTriggerCount m \<le> 0
       then DEFAULT_MEEK_RATE_LIMITER_GARBAGE_COLLECTOR_TRIGGER_COUNT else MeekRateLimiterGarbageCollectionTriggerCount m),
     MeekRateLimiterReapHistoryFrequencySeconds := (if MeekRateLimiterReapHistoryFrequencySeconds m \<le> 0
       then DEFAULT_MEEK_RATE_LIMITER_REAP_HISTORY_FREQUENCY_SECONDS else MeekRateLimiterReapHistoryFrequencySeconds m),
     MeekRateLimiterMaxEntries := (if MeekRateLimiterMaxEntries m \<le> 0
       then DEFAULT_MEEK_RATE_LIMITER_MAX_ENTRIES else MeekRateLimiterMaxEntries m)\<rparr>)"

section \<open>The rules of a client\<close>

record handshake_state =
  completed :: bool
  apiProtocol :: string
  apiParams :: api_params
  activeAuthorizationIDs :: "string list"
  authorizedAccessTypes :: "string list"
  authorizationsRevoked :: bool

definition or_default :: "'a option \<Rightarrow> 'a \<Rightarrow> 'a option" where
  "or_default p d = (case p of None \<Rightarrow> Some d | Some _ \<Rightarrow> p)"

definition populate_limits :: "rate_limits \<Rightarrow> rate_limits" where
  "populate_limits r = \<lparr>ReadUnthrottledBytes = or_default (ReadUnthrottledBytes r) 0, ReadBytesPerSecond = or_default (ReadBytesPerSecond r) 0, WriteUnthrottledBytes = or_default (WriteUnthrottledBytes r) 0, WriteBytesPerSecond = or_default (WriteBytesPerSecond r) 0, CloseAfterExhausted = or_default (CloseAfterExhausted r) False, EstablishmentReadBytesPerSecond = or_default (EstablishmentReadBytesPerSecond r) 0, EstablishmentWriteBytesPerSecond = or_default (EstablishmentWriteBytesPerSecond r) 0, UnthrottleFirstTunnelOnly = or_default (UnthrottleFirstTunnelOnly r) False\<rparr>"

definition populate_defaults :: "traffic_rules \<Rightarrow> traffic_rules" where
  "populate_defaults r = r\<lparr>RateLimits := populate_limits (RateLimits r),
     DialTCPPortForwardTimeoutMilliseconds := or_default (DialTCPPortForwardTimeoutMilliseconds r) DEFAULT_DIAL_TCP_PORT_FORWARD_TIMEOUT_MILLISECONDS,
     IdleTCPPortForwardTimeoutMilliseconds := or_default (IdleTCPPortForwardTimeoutMilliseconds r) DEFAULT_IDLE_TCP_PORT_FORWARD_TIMEOUT_MILLISECONDS,
     IdleUDPPortForwardTimeoutMilliseconds := or_default (IdleUDPPortForwardTimeoutMilliseconds r) DEFAULT_IDLE_UDP_PORT_FORWARD_TIMEOUT_MILLISECONDS,
     MaxTCPDialingPortForwardCount := or_default (MaxTCPDialingPortForwardCount r) DEFAULT_MAX_TCP_DIALING_PORT_FORWARD_COUNT,
     MaxTCPPortForwardCount := or_default (MaxTCPPortForwardCount r) DEFAULT_MAX_TCP_PORT_FORWARD_COUNT,
     MaxUDPPortForwardCount := or_default (MaxUDPPortForwardCount r) DEFAULT_MAX_UDP_PORT_FORWARD_COUNT,
     AllowSubnets := or_default (AllowSubnets r) [],
     AllowASNs := or_default (AllowASNs r) [],
     DisallowSubnets := or_default (DisallowSubnets r) [],
     DisallowASNs := or_default (DisallowASNs r) [],
     DisableDiscovery := or_default (DisableDiscovery r) False\<rparr>"

definition override :: "'a option \<Rightarrow> 'a option \<Rightarrow> 'a option" where
  "override new old = (if new \<noteq> None then new else old)"

definition override_limits :: "rate_limits \<Rightarrow> rate_limits \<Rightarrow> rate_limits" where
  "override_limits n r = \<lparr>ReadUnthrottledBytes = override (ReadUnthrottledBytes n) (ReadUnthrottledBytes r),
     ReadBytesPerSecond = override (ReadBytesPerSecond n) (ReadBytesPerSecond r),
     WriteUnthrottledBytes = override (WriteUnthrottledBytes n) (WriteUnthrottledBytes r),
     WriteBytesPerSecond = override (WriteBytesPerSecond n) (WriteBytesPerSecond r),
     CloseAfterExhausted = override (CloseAfterExhausted n) (CloseAfterExhausted r),
     EstablishmentReadBytesPerSecond = override (EstablishmentReadBytesPerSecond n) (EstablishmentReadBytesPerSecond r),
     EstablishmentWriteBytesPerSecond = override (EstablishmentWriteBytesPerSecond n) (EstablishmentWriteBytesPerSecond r),
     UnthrottleFirstTunnelOnly = override (UnthrottleFirstTunnelOnly n) (UnthrottleFirstTunnelOnly r)\<rparr>"

definition override_rules :: "traffic_rules \<Rightarrow> traffic_rules \<Rightarrow> traffic_rules" where
  "override_rules n r = \<lparr>RateLimits = override_limits (RateLimits n) (RateLimits r),
     DialTCPPortForwardTimeoutMilliseconds = override (DialTCPPortForwardTimeoutMilliseconds n) (DialTCPPortForwardTimeoutMilliseconds r),
     IdleTCPPortForwardTimeoutMilliseconds = override (IdleTCPPortForwardTimeoutMilliseconds n) (IdleTCPPortForwardTimeoutMilliseconds r),
     IdleUDPPortForwardTimeoutMilliseconds = override (IdleUDPPortForwardTimeoutMilliseconds n) (IdleUDPPortForwardTimeoutMilliseconds r),
     MaxTCPDialingPortForwardCount = override (MaxTCPDialingPortForwardCount n) (MaxTCPDialingPortForwardCount r),
     MaxTCPPortForwardCount = override (MaxTCPPortForwardCount n) (MaxTCPPortForwardCount r),
     MaxUDPPortForwardCount = override (MaxUDPPortForwardCount n) (MaxUDPPortForwardCount r),
     AllowTCPPorts = override (AllowTCPPorts n) (AllowTCPPorts r),
     AllowUDPPorts = override (AllowUDPPorts n) (AllowUDPPorts r),
     DisallowTCPPorts = override (DisallowTCPPorts n) (DisallowTCPPorts r),
     DisallowUDPPorts = override (DisallowUDPPorts n) (DisallowUDPPorts r),
     AllowSubnets = override (AllowSubnets n) (AllowSubnets r),
     AllowASNs = override (AllowASNs n) (AllowASNs r),
     DisallowSubnets = override (DisallowSubnets n) (DisallowSubnets r),
     DisallowASNs = override (DisallowASNs n) (DisallowASNs r),
     DisableDiscovery = override (DisableDiscovery n) (DisableDiscovery r)\<rparr>"

text \<open>\<open>common.ContainsAny\<close>\<close>

fun ContainsAny :: "string list \<Rightarrow> string list \<Rightarrow> bool" where
  "ContainsAny xs [] = False"
| "ContainsAny xs (t # ts) = (if Contains xs t then True else ContainsAny xs ts)"

fun match_params :: "api_params \<Rightarrow> (string \<times> string list) list \<Rightarrow> bool" where
  "match_params params [] = True"
| "match_params params ((name, values) # ps) = (case getStringRequestParam params name of
     Inl _ \<Rightarrow> False
   | Inr clientValue \<Rightarrow> if \<not> ContainsWildcard values clientValue then False else match_params params ps)"

definition match_authorizations :: "filter_spec \<Rightarrow> handshake_state \<Rightarrow> bool" where
  "match_authorizations f st =
    (if AuthorizationsRevoked f then completed st \<and> authorizationsRevoked st
     else
      (if ActiveAuthorizationIDs f \<noteq> [] then
         completed st \<and> \<not> authorizationsRevoked st \<and>
         list_ex (StringLookup_Contains (activeAuthorizationIDLookup f)) (activeAuthorizationIDs st)
       else True) \<and>
      (if AuthorizedAccessTypes f \<noteq> [] then
         completed st \<and> \<not> authorizationsRevoked st \<and>
         ContainsAny (AuthorizedAccessTypes f) (authorizedAccessTypes st)
       else True))"

definition match_version :: "filter_spec \<Rightarrow> handshake_state \<Rightarrow> bool" where
  "match_version f st =
    (if MinClientVersion f \<noteq> None \<or> MaxClientVersion f \<noteq> None then
       (case getIntStringRequestParam (apiParams st) ''client_version'' of
          Inl _ \<Rightarrow> False
        | Inr clientVersion \<Rightarrow>
            (case MinClientVersion f of None \<Rightarrow> True | Some v \<Rightarrow> \<not> clientVersion < v) \<and>
            (case MaxClientVersion f of None \<Rightarrow> True | Some v \<Rightarrow> \<not> clientVersion > v))
     else True)"

definition matchFilter :: "string \<Rightarrow> string \<Rightarrow> geo_ip_data \<Rightarrow> handshake_state \<Rightarrow> filter_spec \<Rightarrow> bool" where
  "matchFilter serverProviderID tunnelProtocol geoIPData st f =
    (if TunnelProtocols f \<noteq> [] \<and> \<not> Contains (TunnelProtocols f) tunnelProtocol then False
     else if Regions f \<noteq> [] \<and> \<not> StringLookup_Contains (regionLookup f) (Country geoIPData) then False
     else if ISPs f \<noteq> [] \<and> \<not> StringLookup_Contains (ispLookup f) (ISP geoIPData) then False
     else if ASNs f \<noteq> [] \<and> \<not> StringLookup_Contains (asnLookup f) (ASN geoIPData) then False
     else if Cities f \<noteq> [] \<and> \<not> StringLookup_Contains (cityLookup f) (City geoIPData) then False
     else if APIProtocol f \<noteq> [] \<and> (\<not> completed st \<or> apiProtocol st \<noteq> APIProtocol f) then False
     else if (case HandshakeParameters f of None \<Rightarrow> False
        | Some ps \<Rightarrow> \<not> completed st \<or> \<not> match_params (apiParams st) ps) then False
     else if \<not> match_authorizations f st then False
     else if ProviderIDs f \<noteq> [] \<and> \<not> StringLookup_Contains (providerIDLookup f) serverProviderID then False
     else match_version f st)"

fun first_match :: "(filter_spec \<Rightarrow> bool) \<Rightarrow> filtered_rules list \<Rightarrow> traffic_rules option" where
  "first_match matches [] = None"
| "first_match matches (r # rs) =
    (if matches (Filter r) \<and> (case ExceptFilter r of None \<Rightarrow> True | Some e \<Rightarrow> \<not> matches e)
     then Some (Rules r) else first_match matches rs)"

text \<open>\<open>None\<close> is the panic on a nil pointer.\<close>

definition GetTrafficRules :: "traffic_rules_set \<Rightarrow> string \<Rightarrow> bool \<Rightarrow> string \<Rightarrow> geo_ip_data \<Rightarrow> handshake_state
    \<Rightarrow> traffic_rules option" where
  "GetTrafficRules ruleSet serverProviderID isFirstTunnelInSession tunnelProtocol geoIPData st =
    (let r0 = populate_defaults (DefaultRules ruleSet);
         r = (case first_match (matchFilter serverProviderID tunnelProtocol geoIPData st) (FilteredRules ruleSet) of
           None \<Rightarrow> r0 | Some n \<Rightarrow> override_rules n r0)
     in (case UnthrottleFirstTunnelOnly (RateLimits r) of
        None \<Rightarrow> None
      | Some only \<Rightarrow> Some (if only \<and> \<not> isFirstTunnelInSession
          then r\<lparr>RateLimits := (RateLimits r)\<lparr>ReadUnthrottledBytes := Some 0, WriteUnthrottledBytes := Some 0\<rparr>\<rparr>
          else r)))"

section \<open>Port forwards\<close>

text \<open>\<open>net.IPNet.Contains\<close>\<close>

definition networkNumberAndMask :: "ip_net \<Rightarrow> bytes \<times> bytes" where
  "networkNumberAndMask n =
    (let ip = (case To4 (net_IP n) of Some v4 \<Rightarrow> v4 | None \<Rightarrow> net_IP n); m = net_Mask n
     in if length ip \<noteq> 4 \<and> length ip \<noteq> 16 then ([], [])
        else if length m = 4 then (if length ip \<noteq> 4 then ([], []) else (ip, m))
        else if length m = 16 then (ip, if length ip = 4 then drop 12 m else m)
        else ([], []))"

definition IPNet_Contains :: "ip_net \<Rightarrow> bytes \<Rightarrow> bool" where
  "IPNet_Contains n ip = (case networkNumberAndMask n of (nn, m) \<Rightarrow>
     let x = (case To4 ip of Some v4 \<Rightarrow> v4 | None \<Rightarrow> ip)
     in if length x \<noteq> length nn then False else map2 (AND) nn m = map2 (AND) x m)"

text \<open>\<open>None\<close> is the panic of a subnet that does not parse.\<close>

fun ipInSubnets :: "(string \<Rightarrow> ip_net option) \<Rightarrow> bytes \<Rightarrow> string list \<Rightarrow> bool option" where
  "ipInSubnets ParseCIDR ip [] = Some False"
| "ipInSubnets ParseCIDR ip (s # ss) = (case ParseCIDR s of None \<Rightarrow> None
     | Some network \<Rightarrow> if IPNet_Contains network ip then Some True else ipInSubnets ParseCIDR ip ss)"

definition ASN_in :: "(bytes \<Rightarrow> string) option \<Rightarrow> bytes \<Rightarrow> string list \<Rightarrow> bool" where
  "ASN_in geoIPService ip asns = (case geoIPService of None \<Rightarrow> False
     | Some lookup \<Rightarrow> if asns = [] then False else Contains asns (lookup ip))"

definition AllowTCPPort :: "(string \<Rightarrow> ip_net option) \<Rightarrow> (bytes \<Rightarrow> string) option \<Rightarrow> traffic_rules \<Rightarrow> bytes \<Rightarrow> int
    \<Rightarrow> bool option" where
  "AllowTCPPort ParseCIDR geoIPService rules ip port =
    Option.bind (ipInSubnets ParseCIDR ip (slice (DisallowSubnets rules))) (\<lambda>d.
      if d \<or> ASN_in geoIPService ip (slice (DisallowASNs rules)) then Some False
      else if Lookup (DisallowTCPPorts rules) port then Some False
      else if IsEmpty (AllowTCPPorts rules) then Some True
      else if Lookup (AllowTCPPorts rules) port then Some True
      else Option.bind (ipInSubnets ParseCIDR ip (slice (AllowSubnets rules))) (\<lambda>a.
        Some (a \<or> ASN_in geoIPService ip (slice (AllowASNs rules)))))"

definition AllowUDPPort :: "(string \<Rightarrow> ip_net option) \<Rightarrow> (bytes \<Rightarrow> string) option \<Rightarrow> traffic_rules \<Rightarrow> bytes \<Rightarrow> int
    \<Rightarrow> bool option" where
  "AllowUDPPort ParseCIDR geoIPService rules ip port =
    Option.bind (ipInSubnets ParseCIDR ip (slice (DisallowSubnets rules))) (\<lambda>d.
      if d \<or> ASN_in geoIPService ip (slice (DisallowASNs rules)) then Some False
      else if Lookup (DisallowUDPPorts rules) port then Some False
      else if IsEmpty (AllowUDPPorts rules) then Some True
      else if Lookup (AllowUDPPorts rules) port then Some True
      else Option.bind (ipInSubnets ParseCIDR ip (slice (AllowSubnets rules))) (\<lambda>a.
        Some (a \<or> ASN_in geoIPService ip (slice (AllowASNs rules)))))"

end
