(* ===== verification/Blocklist.thy ===== *)
theory Blocklist
  imports TrafficRules
begin

text \<open>
  Destinations the server refuses: the blocklist of \<open>server/blocklist.go\<close>, which tags IP addresses
  and domains, \<open>normalizeHostAddress\<close> of \<open>server/api.go\<close>, and the bogon networks of
  \<open>common/net.go\<close>. The records of the CSV file are the list that the reader of the standard
  library delivers; \<open>net.ParseIP\<close>, \<open>net.IP.String\<close>, \<open>strings.ToLower\<close> and the third-party
  \<open>dns.IsDomainName\<close> are parameters. Interning of strings changes no value and is left out.
\<close>

section \<open>Bogons\<close>

definition mask_bits :: "nat \<Rightarrow> nat \<Rightarrow> bytes" where
  "mask_bits len ones = map (\<lambda>i. if 8 * (i + 1) \<le> ones then 255
     else if ones \<le> 8 * i then 0 else push_bit (8 * (i + 1) - ones) 255) [0..<len]"

definition net4 :: "byte \<Rightarrow> byte \<Rightarrow> byte \<Rightarrow> byte \<Rightarrow> nat \<Rightarrow> ip_net" where
  "net4 a b c d ones = \<lparr>net_IP = [a, b, c, d], net_Mask = mask_bits 4 ones\<rparr>"

definition net6 :: "bytes \<Rightarrow> bytes \<Rightarrow> nat \<Rightarrow> ip_net" where
  "net6 front rear ones =
    \<lparr>net_IP = front @ replicate (16 - length front - length rear) 0 @ rear, net_Mask = mask_bits 16 ones\<rparr>"

definition bogonNetworks :: "ip_net list" where
  "bogonNetworks =
    [net4 10 0 0 0 8, net4 172 16 0 0 12, net4 192 168 0 0 16, net4 127 0 0 0 8, net4 0 0 0 0 8,
     net4 169 254 0 0 16, net4 192 0 0 0 24, net4 192 0 2 0 24, net4 198 51 100 0 24,
     net4 203 0 113 0 24, net4 192 88 99 0 24, net4 198 18 0 0 15, net4 224 0 0 0 4,
     net4 240 0 0 0 4, net4 255 255 255 255 32, net4 100 64 0 0 10,
     net6 [] [] 128, net6 [] [1] 128, net6 [0x01, 0] [] 64, net6 [0x20, 0x01] [] 23,
     net6 [0x20, 0x01, 0, 0x02] [] 48, net6 [0x20, 0x01, 0x0d, 0xb8] [] 32, net6 [0x20, 0x01] [] 32,
     net6 [0xfc] [] 7, net6 [0xfe, 0x80] [] 10, net6 [0xff] [] 8, net6 [0x20, 0x02] [] 16]"

fun contained_in :: "ip_net list \<Rightarrow> bytes \<Rightarrow> bool" where
  "contained_in [] ip = False"
| "contained_in (network # ns) ip = (if IPNet_Contains network ip then True else contained_in ns ip)"

definition IsBogon :: "bytes \<Rightarrow> bool" where
  "IsBogon ip = contained_in bogonNetworks ip"

section \<open>The blocklist\<close>

record blocklist_tag =
  Source :: string
  Subject :: string

record blocklist_data =
  lookupIP :: "bytes \<Rightarrow> blocklist_tag list"
  lookupDomain :: "string \<Rightarrow> blocklist_tag list"

record blocklist_env =
  ParseIP :: "string \<Rightarrow> bytes option"
  IP_String :: "bytes \<Rightarrow> string"
  strings_ToLower :: "string \<Rightarrow> string"
  IsDomainName :: "string \<Rightarrow> bool"

definition To16 :: "bytes \<Rightarrow> bytes option" where
  "To16 ip = (if length ip = 4 then Some (v4InV6Prefix @ ip) else if length ip = 16 then Some ip else None)"

definition normalizeHostAddress :: "blocklist_env \<Rightarrow> string \<Rightarrow> string" where
  "normalizeHostAddress env target = (case ParseIP env target of
     Some ip \<Rightarrow> IP_String env ip
   | None \<Rightarrow> strings_ToLower env (TrimSuffix target ''.''))"

definition newBlocklistData :: blocklist_data where
  "newBlocklistData = \<lparr>lookupIP = (\<lambda>k. []), lookupDomain = (\<lambda>k. [])\<rparr>"

datatype load_failure = OpenFailed | CSVError | InvalidIPAddress string | InvalidDomainName string

text \<open>One line of the file: its three fields, or the error of the reader.\<close>

datatype csv_line = CSVRecord string string string | CSVBad

definition add_tag :: "blocklist_tag \<Rightarrow> blocklist_tag list \<Rightarrow> blocklist_tag list" where
  "add_tag tag tags = (if tag \<in> set tags then tags else tags @ [tag])"

definition load_record :: "blocklist_env \<Rightarrow> csv_line \<Rightarrow> blocklist_data \<Rightarrow> load_failure + blocklist_data" where
  "load_record env line data = (case line of CSVBad \<Rightarrow> Inl CSVError
   | CSVRecord address src subject \<Rightarrow>
       let tag = \<lparr>Source = src, Subject = subject\<rparr> in
       (case ParseIP env address of
          Some ip \<Rightarrow> (case To16 ip of None \<Rightarrow> Inl (InvalidIPAddress address)
            | Some key \<Rightarrow> Inr (data\<lparr>lookupIP := (lookupIP data)(key := add_tag tag (lookupIP data key))\<rparr>))
        | None \<Rightarrow> if \<not> IsDomainName env address then Inl (InvalidDomainName address)
            else let key = normalizeHostAddress env address
                 in Inr (data\<lparr>lookupDomain := (lookupDomain data)(key := add_tag tag (lookupDomain data key))\<rparr>)))"

fun load_lines :: "blocklist_env \<Rightarrow> csv_line list \<Rightarrow> blocklist_data \<Rightarrow> load_failure + blocklist_data" where
  "load_lines env [] data = Inr data"
| "load_lines env (l # ls) data = ebind (load_record env l data) (load_lines env ls)"

definition loadBlocklistFromFile :: "blocklist_env \<Rightarrow> csv_line list option \<Rightarrow> load_failure + blocklist_data" where
  "loadBlocklistFromFile env file = (case file of None \<Rightarrow> Inl OpenFailed | Some ls \<Rightarrow> load_lines env ls newBlocklistData)"

text \<open>The list in service: nothing before the first successful load. A reload that fails keeps it.\<close>

type_synonym blocklist = "blocklist_data option"

definition reload_blocklist :: "blocklist_env \<Rightarrow> csv_line list option \<Rightarrow> blocklist \<Rightarrow> blocklist" where
  "reload_blocklist env file b = (case loadBlocklistFromFile env file of Inl _ \<Rightarrow> b | Inr data \<Rightarrow> Some data)"

definition NewBlocklist :: "blocklist_env \<Rightarrow> csv_line list option \<Rightarrow> load_failure + blocklist" where
  "NewBlocklist env file = ebind (loadBlocklistFromFile env file) (\<lambda>data. Inr (Some data))"

definition LookupIP :: "blocklist \<Rightarrow> bytes \<Rightarrow> blocklist_tag list" where
  "LookupIP b ip = (case b of None \<Rightarrow> [] | Some data \<Rightarrow>
     (case To16 ip of None \<Rightarrow> [] | Some key \<Rightarrow> lookupIP data key))"

definition LookupDomain :: "blocklist_env \<Rightarrow> blocklist \<Rightarrow> string \<Rightarrow> blocklist_tag list" where
  "LookupDomain env b domain = (case b of None \<Rightarrow> [] | Some data \<Rightarrow>
     lookupDomain data (normalizeHostAddress env domain))"

section \<open>Facts\<close>

lemma contained_in_iff: "contained_in ns ip \<longleftrightarrow> (\<exists>n\<in>set ns. IPNet_Contains n ip)"
  by (induction ns) auto

text \<open>The partial bytes of the masks, as intervals.\<close>

lemma unat_high_bits: "unat (x AND NOT (mask n) :: byte) = unat x div 2 ^ n * 2 ^ n"
proof -
  have "x AND NOT (mask n) = push_bit n (drop_bit n x)"
    by (rule bit_eqI) (auto simp: bit_simps)
  also have "\<dots> = x - take_bit n x"
    using bits_ident [of n x] by (simp add: eq_diff_eq)
  finally have "x AND NOT (mask n) = x - take_bit n x" .
  moreover have "unat (x - take_bit n x) = unat x - unat (take_bit n x)"
    by (rule unat_sub) (simp add: word_le_nat_alt unsigned_take_bit_eq)
  ultimately show ?thesis
    by (simp add: unsigned_take_bit_eq take_bit_eq_mod [of n "unat x"] minus_mod_eq_div_mult)
qed

lemma unat_masked:
  "unat (x AND 240 :: byte) = unat x div 16 * 16"
  "unat (x AND 254 :: byte) = unat x div 2 * 2"
  "unat (x AND 192 :: byte) = unat x div 64 * 64"
proof -
  have "NOT (mask 4) = (240 :: byte)" "NOT (mask 1) = (254 :: byte)" "NOT (mask 6) = (192 :: byte)"
    by code_simp+
  then show "unat (x AND 240) = unat x div 16 * 16" "unat (x AND 254) = unat x div 2 * 2"
      "unat (x AND 192) = unat x div 64 * 64"
    using unat_high_bits [of x 4] unat_high_bits [of x 1] unat_high_bits [of x 6] by (simp_all del: mask_Suc_0)
qed

lemma masked_bytes:
  "(x :: byte) AND 240 = 16 \<longleftrightarrow> 16 \<le> x \<and> x < 32"
  "x AND 240 = 224 \<longleftrightarrow> 224 \<le> x \<and> x < 240"
  "x AND 240 = 240 \<longleftrightarrow> 240 \<le> x"
  "x AND 254 = 18 \<longleftrightarrow> 18 \<le> x \<and> x < 20"
  "x AND 192 = 64 \<longleftrightarrow> 64 \<le> x \<and> x < 128"
  using byte_unat_less [of x] by (auto simp: word_unat_eq_iff word_le_nat_alt word_less_nat_alt unat_masked)

lemma mask_bits_4 [simp]:
  "mask_bits 4 8 = [255, 0, 0, 0]" "mask_bits 4 12 = [255, 240, 0, 0]" "mask_bits 4 16 = [255, 255, 0, 0]"
  "mask_bits 4 24 = [255, 255, 255, 0]" "mask_bits 4 15 = [255, 254, 0, 0]" "mask_bits 4 4 = [240, 0, 0, 0]"
  "mask_bits 4 32 = [255, 255, 255, 255]" "mask_bits 4 10 = [255, 192, 0, 0]"
  by code_simp+

lemma and_255 [simp]: "(x :: byte) AND 255 = x"
proof -
  have "(255 :: byte) = - 1" by simp
  then show ?thesis by (simp only: and.right_neutral)
qed

lemma net4_contains:
  "IPNet_Contains (net4 a b c d ones) ip = (case To4 ip of None \<Rightarrow> False
     | Some v4 \<Rightarrow> map2 (AND) [a, b, c, d] (mask_bits 4 ones) = map2 (AND) v4 (mask_bits 4 ones))"
proof -
  have "length (mask_bits 4 ones) = 4" by (simp add: mask_bits_def)
  then show ?thesis
    by (cases "To4 ip")
      (auto simp: IPNet_Contains_def networkNumberAndMask_def net4_def To4_def Let_def split: if_splits)
qed

lemma v6_not_v4:
  assumes "To4 ip = Some v4" "To4 (net_IP n) = None" "length (net_IP n) = 16" "length (net_Mask n) = 16"
  shows "\<not> IPNet_Contains n ip"
  using assms by (auto simp: IPNet_Contains_def networkNumberAndMask_def To4_def split: if_splits)

lemma bogon_v6: "\<forall>n\<in>set (drop 16 bogonNetworks).
    To4 (net_IP n) = None \<and> length (net_IP n) = 16 \<and> length (net_Mask n) = 16"
  by code_simp

lemma bogon_v4: "take 16 bogonNetworks =
    [net4 10 0 0 0 8, net4 172 16 0 0 12, net4 192 168 0 0 16, net4 127 0 0 0 8, net4 0 0 0 0 8,
     net4 169 254 0 0 16, net4 192 0 0 0 24, net4 192 0 2 0 24, net4 198 51 100 0 24,
     net4 203 0 113 0 24, net4 192 88 99 0 24, net4 198 18 0 0 15, net4 224 0 0 0 4,
     net4 240 0 0 0 4, net4 255 255 255 255 32, net4 100 64 0 0 10]"
  unfolding bogonNetworks_def by simp

lemma net4_equal:
  assumes "To4 ip = Some [a, b, c, d]"
  shows
  "IPNet_Contains (net4 p q r s 8) ip \<longleftrightarrow> a = p" "IPNet_Contains (net4 p q r s 12) ip \<longleftrightarrow> a = p \<and> b AND 240 = q AND 240"
  "IPNet_Contains (net4 p q r s 16) ip \<longleftrightarrow> a = p \<and> b = q" "IPNet_Contains (net4 p q r s 24) ip \<longleftrightarrow> a = p \<and> b = q \<and> c = r"
  "IPNet_Contains (net4 p q r s 15) ip \<longleftrightarrow> a = p \<and> b AND 254 = q AND 254" "IPNet_Contains (net4 p q r s 4) ip \<longleftrightarrow> a AND 240 = p AND 240"
  "IPNet_Contains (net4 p q r s 32) ip \<longleftrightarrow> a = p \<and> b = q \<and> c = r \<and> d = s"
  "IPNet_Contains (net4 p q r s 10) ip \<longleftrightarrow> a = p \<and> b AND 192 = q AND 192"
  unfolding net4_contains assms option.case mask_bits_4 by auto

text \<open>An IPv4 address, in four or in sixteen bytes, is a bogon exactly in these ranges.\<close>

lemma IsBogon_v4:
  assumes "To4 ip = Some [a, b, c, d]"
  shows "IsBogon ip \<longleftrightarrow> a = 0 \<or> a = 10 \<or> a = 127 \<or> 224 \<le> a
    \<or> a = 172 \<and> 16 \<le> b \<and> b < 32 \<or> a = 192 \<and> b = 168 \<or> a = 169 \<and> b = 254 \<or> a = 198 \<and> 18 \<le> b \<and> b < 20
    \<or> a = 100 \<and> 64 \<le> b \<and> b < 128 \<or> a = 192 \<and> b = 0 \<and> (c = 0 \<or> c = 2) \<or> a = 198 \<and> b = 51 \<and> c = 100
    \<or> a = 203 \<and> b = 0 \<and> c = 113 \<or> a = 192 \<and> b = 88 \<and> c = 99"
proof -
  have "\<exists>n\<in>set bogonNetworks. IPNet_Contains n ip \<Longrightarrow> \<exists>n\<in>set (take 16 bogonNetworks). IPNet_Contains n ip"
    using bogon_v6 v6_not_v4 [OF assms] by (metis UnE append_take_drop_id set_append)
  then have v4: "IsBogon ip \<longleftrightarrow> (\<exists>n\<in>set (take 16 bogonNetworks). IPNet_Contains n ip)"
    unfolding IsBogon_def contained_in_iff by (auto dest: in_set_takeD)
  have "IsBogon ip \<longleftrightarrow> a = 10 \<or> (a = 172 \<and> b AND 240 = 16) \<or> (a = 192 \<and> b = 168) \<or> a = 127 \<or> a = 0
    \<or> (a = 169 \<and> b = 254) \<or> (a = 192 \<and> b = 0 \<and> c = 0) \<or> (a = 192 \<and> b = 0 \<and> c = 2)
    \<or> (a = 198 \<and> b = 51 \<and> c = 100) \<or> (a = 203 \<and> b = 0 \<and> c = 113) \<or> (a = 192 \<and> b = 88 \<and> c = 99)
    \<or> (a = 198 \<and> b AND 254 = 18) \<or> a AND 240 = 224 \<or> a AND 240 = 240
    \<or> (a = 255 \<and> b = 255 \<and> c = 255 \<and> d = 255) \<or> (a = 100 \<and> b AND 192 = 64)"
    unfolding v4 bogon_v4 by (simp add: net4_equal [OF assms])
  moreover have "224 \<le> a \<longleftrightarrow> (224 \<le> a \<and> a < 240) \<or> 240 \<le> a"
    by (auto simp: word_le_nat_alt word_less_nat_alt)
  moreover have "a = 255 \<Longrightarrow> 240 \<le> a" by simp
  ultimately show ?thesis unfolding masked_bytes by argo
qed

text \<open>What a line of the file puts on the list: the destination it is about and its tag.\<close>

definition ip_key :: "blocklist_env \<Rightarrow> string \<Rightarrow> bytes option" where
  "ip_key env address = Option.bind (ParseIP env address) To16"

definition ip_tags :: "blocklist_env \<Rightarrow> csv_line list \<Rightarrow> bytes \<Rightarrow> blocklist_tag set" where
  "ip_tags env ls key = {\<lparr>Source = src, Subject = subject\<rparr> |address src subject.
     CSVRecord address src subject \<in> set ls \<and> ip_key env address = Some key}"

definition domain_tags :: "blocklist_env \<Rightarrow> csv_line list \<Rightarrow> string \<Rightarrow> blocklist_tag set" where
  "domain_tags env ls key = {\<lparr>Source = src, Subject = subject\<rparr> |address src subject.
     CSVRecord address src subject \<in> set ls \<and> ParseIP env address = None \<and> normalizeHostAddress env address = key}"

lemma tags_Nil [simp]: "ip_tags env [] k = {}" "domain_tags env [] k' = {}"
  by (simp_all add: ip_tags_def domain_tags_def)

lemma tags_append:
  "ip_tags env (xs @ ys) k = ip_tags env xs k \<union> ip_tags env ys k"
  "domain_tags env (xs @ ys) k' = domain_tags env xs k' \<union> domain_tags env ys k'"
  by (auto simp: ip_tags_def domain_tags_def)

definition holds_tags :: "blocklist_env \<Rightarrow> csv_line list \<Rightarrow> blocklist_data \<Rightarrow> bool" where
  "holds_tags env ls data \<longleftrightarrow>
    (\<forall>k. set (lookupIP data k) = ip_tags env ls k \<and> distinct (lookupIP data k)) \<and>
    (\<forall>k. set (lookupDomain data k) = domain_tags env ls k \<and> distinct (lookupDomain data k))"

lemma add_tag_set [simp]: "set (add_tag t ts) = insert t (set ts)" "distinct ts \<Longrightarrow> distinct (add_tag t ts)"
  by (auto simp: add_tag_def)

lemma load_record_tags:
  assumes "holds_tags env ls data" "load_record env l data = Inr data'"
  shows "holds_tags env (ls @ [l]) data'"
proof -
  obtain address src subject where l: "l = CSVRecord address src subject"
    using assms(2) by (cases l) (auto simp: load_record_def)
  let ?tag = "\<lparr>Source = src, Subject = subject\<rparr>"
  show ?thesis
  proof (cases "ParseIP env address")
    case None
    let ?k = "normalizeHostAddress env address"
    have d: "data' = data\<lparr>lookupDomain := (lookupDomain data)(?k := add_tag ?tag (lookupDomain data ?k))\<rparr>"
      using assms(2) None by (simp add: load_record_def l Let_def split: if_splits)
    have "ip_tags env [l] k = {}" "domain_tags env [l] k' = (if k' = ?k then {?tag} else {})" for k k'
      using None by (auto simp: ip_tags_def domain_tags_def ip_key_def l)
    then show ?thesis using assms(1) by (simp add: holds_tags_def d tags_append)
  next
    case (Some ip)
    then obtain key where k: "To16 ip = Some key" using assms(2) by (auto simp: load_record_def l split: option.splits)
    have d: "data' = data\<lparr>lookupIP := (lookupIP data)(key := add_tag ?tag (lookupIP data key))\<rparr>"
      using assms(2) Some k by (simp add: load_record_def l)
    have "ip_tags env [l] k = (if k = key then {?tag} else {})" "domain_tags env [l] k' = {}" for k k'
      using Some k by (auto simp: ip_tags_def domain_tags_def ip_key_def l)
    then show ?thesis using assms(1) by (simp add: holds_tags_def d tags_append)
  qed
qed

lemma load_lines_tags:
  "holds_tags env ls data \<Longrightarrow> load_lines env ms data = Inr data' \<Longrightarrow> holds_tags env (ls @ ms) data'"
proof (induction env ms data arbitrary: ls rule: load_lines.induct)
  case (2 env l ms data)
  then obtain mid where "load_record env l data = Inr mid" "load_lines env ms mid = Inr data'" by auto
  then show ?case using 2(1) [OF load_record_tags [OF 2(2)]] by simp
qed simp

lemma blocklist_loaded:
  assumes "loadBlocklistFromFile env (Some ls) = Inr data"
  shows "holds_tags env ls data"
  using assms load_lines_tags [of env "[]" newBlocklistData ls data]
  by (simp add: loadBlocklistFromFile_def holds_tags_def newBlocklistData_def)

text \<open>An IPv4 address is found in either form.\<close>

lemma LookupIP_v4: "length ip = 4 \<Longrightarrow> LookupIP b (v4InV6Prefix @ ip) = LookupIP b ip"
  by (auto simp: LookupIP_def To16_def v4InV6Prefix_def split: option.split)

end
