(* ===== verification/PortForward.thy ===== *)
theory PortForward
  imports Blocklist
begin

text \<open>
  The port forwards of one client of the server, \<open>server/tunnelServer.go\<close>: the counters and limits
  of \<open>trafficState\<close>, the decision whether a destination is permitted, the choice of what to do with
  a new channel, the steps of \<open>handleTCPChannel\<close> up to the dial, the quality metrics, and the list
  of connections in the order of their activity, \<open>LRUConns\<close> of \<open>common/net.go\<close>. The goroutines
  that call these operations are in the theory PortForwardRun. A pointer in the traffic rules that
  is nil makes its reader panic, the result \<open>None\<close>; a cancel function is the number of its context,
  and calling it puts that number among the contexts that are done.
\<close>

section \<open>LRUConns\<close>

text \<open>The list has its freshest connection first; an entry is known by its connection.\<close>

type_synonym lru_conns = "nat list"

definition NewLRUConns :: lru_conns where
  "NewLRUConns = []"

definition LRU_Add :: "nat \<Rightarrow> lru_conns \<Rightarrow> lru_conns" where
  "LRU_Add conn l = conn # l"

text \<open>The second result is the connection that is closed.\<close>

definition LRU_CloseOldest :: "lru_conns \<Rightarrow> lru_conns \<times> nat option" where
  "LRU_CloseOldest l = (if l = [] then (l, None) else (butlast l, Some (last l)))"

definition LRU_CloseAll :: "lru_conns \<Rightarrow> lru_conns \<times> nat list" where
  "LRU_CloseAll l = ([], l)"

definition LRU_Remove :: "nat \<Rightarrow> lru_conns \<Rightarrow> lru_conns" where
  "LRU_Remove conn l = remove1 conn l"

definition LRU_Touch :: "nat \<Rightarrow> lru_conns \<Rightarrow> lru_conns" where
  "LRU_Touch conn l = (if conn \<in> set l then conn # remove1 conn l else l)"

section \<open>The state of a client\<close>

record traffic_state =
  bytesUp :: int
  bytesDown :: int
  concurrentDialingPortForwardCount :: int
  peakConcurrentDialingPortForwardCount :: int
  concurrentPortForwardCount :: int
  peakConcurrentPortForwardCount :: int
  totalPortForwardCount :: int
  totalDomainPortForwardCount :: int

record quality_metrics =
  TCPPortForwardDialedCount :: int
  TCPPortForwardDialedDuration :: int
  TCPPortForwardFailedCount :: int
  TCPPortForwardFailedDuration :: int
  TCPPortForwardRejectedDialingLimitCount :: int
  TCPPortForwardRejectedDisallowedCount :: int
  UDPPortForwardRejectedDisallowedCount :: int
  TCPIPv4PortForwardDialedCount :: int
  TCPIPv4PortForwardDialedDuration :: int
  TCPIPv4PortForwardFailedCount :: int
  TCPIPv4PortForwardFailedDuration :: int
  TCPIPv6PortForwardDialedCount :: int
  TCPIPv6PortForwardDialedDuration :: int
  TCPIPv6PortForwardFailedCount :: int
  TCPIPv6PortForwardFailedDuration :: int
  DNSCount :: "string \<Rightarrow> int"
  DNSDuration :: "string \<Rightarrow> int"
  DNSFailedCount :: "string \<Rightarrow> int"
  DNSFailedDuration :: "string \<Rightarrow> int"

record ssh_client =
  trafficRules :: traffic_rules
  handshaked :: bool
  tcpTrafficState :: traffic_state
  udpTrafficState :: traffic_state
  tcpPortForwardDialingAvailableSignal :: "nat option"
  done_contexts :: "nat set"
  qualityMetrics :: quality_metrics

datatype port_forward_type = PortForwardTCP | PortForwardUDP

definition traffic_of :: "port_forward_type \<Rightarrow> ssh_client \<Rightarrow> traffic_state" where
  "traffic_of t c = (if t = PortForwardTCP then tcpTrafficState c else udpTrafficState c)"

definition set_traffic :: "port_forward_type \<Rightarrow> traffic_state \<Rightarrow> ssh_client \<Rightarrow> ssh_client" where
  "set_traffic t st c = (if t = PortForwardTCP then c\<lparr>tcpTrafficState := st\<rparr> else c\<lparr>udpTrafficState := st\<rparr>)"

definition max_count :: "port_forward_type \<Rightarrow> traffic_rules \<Rightarrow> int option" where
  "max_count t r = (if t = PortForwardTCP then MaxTCPPortForwardCount r else MaxUDPPortForwardCount r)"

section \<open>Counters and limits\<close>

definition setTCPPortForwardDialingAvailableSignal :: "nat option \<Rightarrow> ssh_client \<Rightarrow> ssh_client" where
  "setTCPPortForwardDialingAvailableSignal signal c = c\<lparr>tcpPortForwardDialingAvailableSignal := signal\<rparr>"

definition isTCPDialingPortForwardLimitExceeded :: "ssh_client \<Rightarrow> bool option" where
  "isTCPDialingPortForwardLimitExceeded c =
    map_option (\<lambda>lim. lim > 0 \<and> concurrentDialingPortForwardCount (tcpTrafficState c) \<ge> lim)
      (MaxTCPDialingPortForwardCount (trafficRules c))"

definition getTCPPortForwardQueueSize :: "ssh_client \<Rightarrow> int option" where
  "getTCPPortForwardQueueSize c = Option.bind (MaxTCPPortForwardCount (trafficRules c))
    (\<lambda>a. map_option (\<lambda>b. a + b) (MaxTCPDialingPortForwardCount (trafficRules c)))"

definition getDialTCPPortForwardTimeoutMilliseconds :: "ssh_client \<Rightarrow> int option" where
  "getDialTCPPortForwardTimeoutMilliseconds c = DialTCPPortForwardTimeoutMilliseconds (trafficRules c)"

definition dialingTCPPortForward :: "ssh_client \<Rightarrow> ssh_client" where
  "dialingTCPPortForward c =
    (let st = tcpTrafficState c; n = concurrentDialingPortForwardCount st + 1
     in c\<lparr>tcpTrafficState := st\<lparr>concurrentDialingPortForwardCount := n,
       peakConcurrentDialingPortForwardCount := max n (peakConcurrentDialingPortForwardCount st)\<rparr>\<rparr>)"

definition abortedTCPPortForward :: "ssh_client \<Rightarrow> ssh_client" where
  "abortedTCPPortForward c =
    (let st = tcpTrafficState c
     in c\<lparr>tcpTrafficState := st\<lparr>concurrentDialingPortForwardCount := concurrentDialingPortForwardCount st - 1\<rparr>\<rparr>)"

text \<open>The part of \<open>allocatePortForward\<close> that releases the dialing slot of a TCP port forward.\<close>

definition release_dialing :: "ssh_client \<Rightarrow> ssh_client option" where
  "release_dialing c =
    (let c' = abortedTCPPortForward c
     in (case tcpPortForwardDialingAvailableSignal c' of None \<Rightarrow> Some c'
        | Some ctx \<Rightarrow> (case MaxTCPDialingPortForwardCount (trafficRules c') of None \<Rightarrow> None
            | Some lim \<Rightarrow>
                if lim \<le> 0 \<or> concurrentDialingPortForwardCount (tcpTrafficState c') < lim
                then Some (c'\<lparr>done_contexts := insert ctx (done_contexts c')\<rparr>) else Some c')))"

definition count_established :: "bool \<Rightarrow> traffic_state \<Rightarrow> traffic_state" where
  "count_established isDomainName st =
    (let n = concurrentPortForwardCount st + 1
     in st\<lparr>concurrentPortForwardCount := n,
           peakConcurrentPortForwardCount := max n (peakConcurrentPortForwardCount st),
           totalPortForwardCount := totalPortForwardCount st + 1,
           totalDomainPortForwardCount := totalDomainPortForwardCount st + (if isDomainName then 1 else 0)\<rparr>)"

definition allocatePortForward :: "port_forward_type \<Rightarrow> bool \<Rightarrow> ssh_client \<Rightarrow> (bool \<times> ssh_client) option" where
  "allocatePortForward t isDomainName c = (case max_count t (trafficRules c) of None \<Rightarrow> None
   | Some lim \<Rightarrow>
       if lim > 0 \<and> concurrentPortForwardCount (traffic_of t c) \<ge> lim then Some (False, c)
       else map_option (\<lambda>c'. (True, set_traffic t (count_established isDomainName (traffic_of t c')) c'))
         (if t = PortForwardTCP then release_dialing c else Some c))"

text \<open>The change of \<open>closedPortForward\<close> under the client's lock; the signal to a waiting goroutine
  comes after it, without that lock.\<close>

definition closedPortForward :: "port_forward_type \<Rightarrow> int \<Rightarrow> int \<Rightarrow> ssh_client \<Rightarrow> ssh_client" where
  "closedPortForward t up down c =
    (let st = traffic_of t c
     in set_traffic t (st\<lparr>concurrentPortForwardCount := concurrentPortForwardCount st - 1,
          bytesUp := bytesUp st + up, bytesDown := bytesDown st + down\<rparr>) c)"

section \<open>Quality metrics\<close>

definition updateQualityMetricsWithDialResult :: "bool \<Rightarrow> int \<Rightarrow> bytes option \<Rightarrow> quality_metrics \<Rightarrow> quality_metrics" where
  "updateQualityMetricsWithDialResult success d ip q =
    (let v4 = (case ip of None \<Rightarrow> False | Some x \<Rightarrow> To4 x \<noteq> None); v6 = (ip \<noteq> None \<and> \<not> v4)
     in if success then
       let q1 = q\<lparr>TCPPortForwardDialedCount := TCPPortForwardDialedCount q + 1,
                  TCPPortForwardDialedDuration := TCPPortForwardDialedDuration q + d\<rparr>
       in if v4 then q1\<lparr>TCPIPv4PortForwardDialedCount := TCPIPv4PortForwardDialedCount q1 + 1,
                        TCPIPv4PortForwardDialedDuration := TCPIPv4PortForwardDialedDuration q1 + d\<rparr>
          else if v6 then q1\<lparr>TCPIPv6PortForwardDialedCount := TCPIPv6PortForwardDialedCount q1 + 1,
                        TCPIPv6PortForwardDialedDuration := TCPIPv6PortForwardDialedDuration q1 + d\<rparr>
          else q1
     else
       let q1 = q\<lparr>TCPPortForwardFailedCount := TCPPortForwardFailedCount q + 1,
                  TCPPortForwardFailedDuration := TCPPortForwardFailedDuration q + d\<rparr>
       in if v4 then q1\<lparr>TCPIPv4PortForwardFailedCount := TCPIPv4PortForwardFailedCount q1 + 1,
                        TCPIPv4PortForwardFailedDuration := TCPIPv4PortForwardFailedDuration q1 + d\<rparr>
          else if v6 then q1\<lparr>TCPIPv6PortForwardFailedCount := TCPIPv6PortForwardFailedCount q1 + 1,
                        TCPIPv6PortForwardFailedDuration := TCPIPv6PortForwardFailedDuration q1 + d\<rparr>
          else q1)"

definition updateQualityMetricsWithRejectedDialingLimit :: "quality_metrics \<Rightarrow> quality_metrics" where
  "updateQualityMetricsWithRejectedDialingLimit q =
    q\<lparr>TCPPortForwardRejectedDialingLimitCount := TCPPortForwardRejectedDialingLimitCount q + 1\<rparr>"

definition updateQualityMetricsWithTCPRejectedDisallowed :: "quality_metrics \<Rightarrow> quality_metrics" where
  "updateQualityMetricsWithTCPRejectedDisallowed q =
    q\<lparr>TCPPortForwardRejectedDisallowedCount := TCPPortForwardRejectedDisallowedCount q + 1\<rparr>"

definition updateQualityMetricsWithUDPRejectedDisallowed :: "quality_metrics \<Rightarrow> quality_metrics" where
  "updateQualityMetricsWithUDPRejectedDisallowed q =
    q\<lparr>UDPPortForwardRejectedDisallowedCount := UDPPortForwardRejectedDisallowedCount q + 1\<rparr>"

definition bump :: "string \<Rightarrow> int \<Rightarrow> (string \<Rightarrow> int) \<Rightarrow> string \<Rightarrow> int" where
  "bump resolver d m = (let m1 = m(''ALL'' := m ''ALL'' + d)
     in if resolver \<noteq> '''' then m1(resolver := m1 resolver + d) else m1)"

definition updateQualityMetricsWithDNSResult :: "bool \<Rightarrow> int \<Rightarrow> string \<Rightarrow> quality_metrics \<Rightarrow> quality_metrics" where
  "updateQualityMetricsWithDNSResult success d resolver q =
    (if success then q\<lparr>DNSCount := bump resolver 1 (DNSCount q), DNSDuration := bump resolver d (DNSDuration q)\<rparr>
     else q\<lparr>DNSFailedCount := bump resolver 1 (DNSFailedCount q),
            DNSFailedDuration := bump resolver d (DNSFailedDuration q)\<rparr>)"

section \<open>Permission\<close>

text \<open>The server's configuration and services as the checks use them.\<close>

record server_support =
  AllowBogons :: bool
  BlocklistActive :: bool
  ServerBlocklist :: blocklist
  host_env :: blocklist_env
  CIDR_parser :: "string \<Rightarrow> ip_net option"
  ASN_lookup :: "(bytes \<Rightarrow> string) option"

text \<open>What a check logs, and the alerts it sends to the client.\<close>

datatype pf_event = BlocklistHits "bytes option" string "blocklist_tag list"
  | UnsafeTrafficAlerts "blocklist_tag list" | DisallowedTrafficAlert

definition isIPPermitted :: "server_support \<Rightarrow> bytes \<Rightarrow> bool \<times> pf_event list" where
  "isIPPermitted sv remoteIP =
    (let tags = LookupIP (ServerBlocklist sv) remoteIP
     in if tags = [] then (True, [])
        else if BlocklistActive sv then (False, [BlocklistHits (Some remoteIP) [] tags, UnsafeTrafficAlerts tags])
        else (True, [BlocklistHits (Some remoteIP) [] tags]))"

definition isDomainPermitted :: "server_support \<Rightarrow> string \<Rightarrow> string option \<times> pf_event list" where
  "isDomainPermitted sv domain =
    (if length domain > 255 then (Some ''invalid domain name'', [])
     else let domain = normalizeHostAddress (host_env sv) domain
     in if suffix ''.local'' domain then (Some ''port forward not permitted'', [])
        else let tags = LookupDomain (host_env sv) (ServerBlocklist sv) domain
        in if tags = [] then (None, [])
           else if BlocklistActive sv
             then (Some ''port forward not permitted'', [BlocklistHits None domain tags, UnsafeTrafficAlerts tags])
             else (None, [BlocklistHits None domain tags]))"

definition rules_allow :: "server_support \<Rightarrow> port_forward_type \<Rightarrow> bytes \<Rightarrow> int \<Rightarrow> ssh_client \<Rightarrow> bool option" where
  "rules_allow sv t remoteIP port c =
    (if \<not> handshaked c then Some False
     else if t = PortForwardTCP then AllowTCPPort (CIDR_parser sv) (ASN_lookup sv) (trafficRules c) remoteIP port
     else AllowUDPPort (CIDR_parser sv) (ASN_lookup sv) (trafficRules c) remoteIP port)"

definition isPortForwardPermitted :: "server_support \<Rightarrow> port_forward_type \<Rightarrow> bytes \<Rightarrow> int \<Rightarrow> ssh_client
    \<Rightarrow> (bool \<times> pf_event list \<times> ssh_client) option" where
  "isPortForwardPermitted sv t remoteIP port c =
    (if \<not> AllowBogons sv \<and> IsBogon remoteIP then Some (False, [], c)
     else case isIPPermitted sv remoteIP of (permitted, evs) \<Rightarrow>
       if \<not> permitted then Some (False, evs, c)
       else map_option (\<lambda>allowed.
         if allowed then (True, evs, c)
         else (False, evs @ [DisallowedTrafficAlert],
           c\<lparr>qualityMetrics := (if t = PortForwardTCP then updateQualityMetricsWithTCPRejectedDisallowed
              else updateQualityMetricsWithUDPRejectedDisallowed) (qualityMetrics c)\<rparr>))
         (rules_allow sv t remoteIP port c))"

section \<open>A new channel\<close>

text \<open>\<open>net.JoinHostPort\<close> with \<open>strconv.Itoa\<close> of a port\<close>

fun decimal_digits :: "nat \<Rightarrow> string" where
  "decimal_digits n = (if n < 10 then [char_of (48 + n)] else decimal_digits (n div 10) @ [char_of (48 + n mod 10)])"

declare decimal_digits.simps [simp del]

definition JoinHostPort :: "string \<Rightarrow> nat \<Rightarrow> string" where
  "JoinHostPort host port =
    (if CHR '':'' \<in> set host then ''['' @ host @ '']:'' @ decimal_digits port
     else host @ '':'' @ decimal_digits port)"

record tcp_request =
  HostToConnect :: string
  PortToConnect :: nat

datatype channel_action = RejectChannel string | DispatchUdpgw | EnqueueTCP bool

text \<open>\<open>queued\<close> is the number of requests in the queue and \<open>size\<close> its capacity; the request is
  \<open>None\<close> when its data do not parse.\<close>

definition handleNewTCPPortForwardChannel :: "string \<Rightarrow> string_lookup option \<Rightarrow> tcp_request option \<Rightarrow> bool
    \<Rightarrow> nat \<Rightarrow> nat \<Rightarrow> ssh_client \<Rightarrow> channel_action \<times> ssh_client" where
  "handleNewTCPPortForwardChannel udpgwAddress splitTunnelLookup request allowSplitTunnel queued capacity c =
    (case request of None \<Rightarrow> (RejectChannel ''invalid extra data'', c)
     | Some r \<Rightarrow>
       if udpgwAddress \<noteq> [] \<and> udpgwAddress = JoinHostPort (HostToConnect r) (PortToConnect r) then
         (if \<not> handshaked c then (RejectChannel ''port forward not permitted'', c) else (DispatchUdpgw, c))
       else if queued < capacity then (EnqueueTCP (splitTunnelLookup \<noteq> None \<and> allowSplitTunnel), c)
       else (RejectChannel ''TCP port forward dial queue full'',
             c\<lparr>qualityMetrics := updateQualityMetricsWithRejectedDialingLimit (qualityMetrics c)\<rparr>))"

text \<open>The capacity of the queue, in \<open>runTunnel\<close>.\<close>

definition queue_size :: "ssh_client \<Rightarrow> int option" where
  "queue_size c = map_option (\<lambda>n. if n = 0 then 1024 else n) (getTCPPortForwardQueueSize c)"

section \<open>Up to the dial\<close>

text \<open>The answer of the resolver: its addresses or an error, whether that error says that the name
  does not exist, and the time it took.\<close>

record dns_answer =
  answer_IPs :: "bytes list"
  answer_error :: "string option"
  answer_not_found :: bool
  answer_elapsed :: int

definition select_IP :: "bytes list \<Rightarrow> bytes option" where
  "select_IP ips = (case find (\<lambda>ip. To4 ip \<noteq> None) ips of Some ip \<Rightarrow> Some ip
     | None \<Rightarrow> if ips = [] then None else Some (hd ips))"

datatype tcp_target = RejectTarget string | SplitTunnelTarget | DialTarget bytes int

text \<open>The address to dial and the time that remains, or the reason of a rejection.\<close>

definition resolve_target :: "bytes list option \<Rightarrow> dns_answer \<Rightarrow> int \<Rightarrow> ssh_client
    \<Rightarrow> (string + bytes \<times> int) \<times> ssh_client" where
  "resolve_target cached answer remaining c =
    (case cached of
       Some (ip # ips) \<Rightarrow> (Inr (the (select_IP (ip # ips)), remaining), c)
     | _ \<Rightarrow>
       let q1 = updateQualityMetricsWithDNSResult (answer_error answer = None \<or> answer_not_found answer)
                  (answer_elapsed answer) [] (qualityMetrics c);
           ip = select_IP (answer_IPs answer)
       in if answer_error answer = None \<and> ip \<noteq> None
          then (Inr (the ip, remaining - answer_elapsed answer), c\<lparr>qualityMetrics := q1\<rparr>)
          else (Inl (''LookupIP failed: '' @ (case answer_error answer of Some e \<Rightarrow> e | None \<Rightarrow> ''no IP address'')),
                c\<lparr>qualityMetrics := updateQualityMetricsWithDialResult False (answer_elapsed answer) ip q1\<rparr>))"

record split_tunnel =
  destination_country :: "bytes \<Rightarrow> string"
  client_country :: string
  split_lookup :: string_lookup

definition tcp_target_of :: "server_support \<Rightarrow> split_tunnel option \<Rightarrow> bytes \<Rightarrow> int \<Rightarrow> int \<Rightarrow> ssh_client
    \<Rightarrow> (tcp_target \<times> pf_event list \<times> ssh_client) option" where
  "tcp_target_of sv doSplitTunnel ip port remaining c =
    (if remaining \<le> 0 then Some (RejectTarget ''TCP port forward timed out resolving'', [], c)
     else if (case doSplitTunnel of None \<Rightarrow> False | Some st \<Rightarrow> client_country st \<noteq> ''None'' \<and>
           StringLookup_Contains (split_lookup st) (destination_country st ip)) then
       (case isIPPermitted sv ip of (permitted, evs) \<Rightarrow>
          if \<not> permitted then Some (RejectTarget ''port forward not permitted'', evs, c)
          else Some (SplitTunnelTarget, evs, c))
     else map_option (\<lambda>(permitted, evs, c').
         if \<not> permitted then (RejectTarget ''port forward not permitted'', evs, c') else (DialTarget ip remaining, evs, c'))
       (isPortForwardPermitted sv PortForwardTCP ip port c))"

definition handleTCPChannel_target :: "server_support \<Rightarrow> split_tunnel option \<Rightarrow> bytes list option \<Rightarrow> dns_answer
    \<Rightarrow> string \<Rightarrow> int \<Rightarrow> int \<Rightarrow> ssh_client \<Rightarrow> (tcp_target \<times> pf_event list \<times> ssh_client) option" where
  "handleTCPChannel_target sv doSplitTunnel cached answer host port remaining c =
    (case ParseIP (host_env sv) host of
       Some ip \<Rightarrow> tcp_target_of sv doSplitTunnel ip port remaining c
     | None \<Rightarrow>
       (case isDomainPermitted sv host of (Some reason, evs) \<Rightarrow> Some (RejectTarget reason, evs, c)
        | (None, evs) \<Rightarrow>
          (case resolve_target cached answer remaining c of (Inl msg, c') \<Rightarrow> Some (RejectTarget msg, evs, c')
           | (Inr (ip, remaining'), c') \<Rightarrow>
               map_option (\<lambda>(t, evs', c''). (t, evs @ evs', c'')) (tcp_target_of sv doSplitTunnel ip port remaining' c'))))"

section \<open>The order of activity\<close>

text \<open>The promise of \<open>LRUConns\<close>: with a clock that ticks at each operation and the time of the last
  activity of each connection on the list, the connection closed is the one idle longest.\<close>

datatype lru_op = Add nat | Touch nat | Remove nat | CloseOldest

record activity =
  clock :: nat
  last_active :: "nat \<Rightarrow> nat option"

definition oldest :: "activity \<Rightarrow> nat option \<Rightarrow> bool" where
  "oldest a closed \<longleftrightarrow> (case closed of None \<Rightarrow> last_active a = Map.empty
     | Some c \<Rightarrow> (\<exists>t. last_active a c = Some t \<and> (\<forall>d u. last_active a d = Some u \<longrightarrow> t \<le> u)))"

fun spec_step :: "activity \<Rightarrow> lru_op \<Rightarrow> nat option \<Rightarrow> activity" where
  "spec_step a (Add c) closed = \<lparr>clock = clock a + 1, last_active = (last_active a)(c \<mapsto> clock a)\<rparr>"
| "spec_step a (Touch c) closed = \<lparr>clock = clock a + 1, last_active =
     (if last_active a c = None then last_active a else (last_active a)(c \<mapsto> clock a))\<rparr>"
| "spec_step a (Remove c) closed = \<lparr>clock = clock a + 1, last_active = (last_active a)(c := None)\<rparr>"
| "spec_step a CloseOldest closed = \<lparr>clock = clock a + 1, last_active =
     (case closed of None \<Rightarrow> last_active a | Some c \<Rightarrow> (last_active a)(c := None))\<rparr>"

fun lru_step :: "lru_conns \<Rightarrow> lru_op \<Rightarrow> lru_conns \<times> nat option" where
  "lru_step l (Add c) = (LRU_Add c l, None)"
| "lru_step l (Touch c) = (LRU_Touch c l, None)"
| "lru_step l (Remove c) = (LRU_Remove c l, None)"
| "lru_step l CloseOldest = LRU_CloseOldest l"

text \<open>A connection is added once.\<close>

fun fresh_op :: "lru_conns \<Rightarrow> lru_op \<Rightarrow> bool" where
  "fresh_op l (Add c) \<longleftrightarrow> c \<notin> set l"
| "fresh_op l _ \<longleftrightarrow> True"

definition lru_rel :: "lru_conns \<Rightarrow> activity \<Rightarrow> bool" where
  "lru_rel l a \<longleftrightarrow> distinct l \<and> dom (last_active a) = set l \<and> (\<forall>c\<in>set l. the (last_active a c) < clock a) \<and>
     sorted_wrt (\<lambda>c d. the (last_active a d) < the (last_active a c)) l"

definition start_activity :: activity where
  "start_activity = \<lparr>clock = 0, last_active = Map.empty\<rparr>"

lemma sorted_wrt_remove1: "sorted_wrt P l \<Longrightarrow> sorted_wrt P (remove1 x l)"
proof (induction l)
  case (Cons y l)
  then show ?case by (auto dest: notin_set_remove1 [rotated])
qed simp

lemma sorted_wrt_butlast: "sorted_wrt P l \<Longrightarrow> sorted_wrt P (butlast l)"
  by (metis append_butlast_last_id butlast.simps(1) sorted_wrt_append)

lemma sorted_wrt_upd:
  "c \<notin> set l \<Longrightarrow> sorted_wrt (\<lambda>x y. the ((m(c := v)) y) < the ((m(c := v)) x)) l
     = sorted_wrt (\<lambda>x y. the (m y) < the (m x :: nat option)) l"
  by (induction l) auto

lemma lru_rel_start: "lru_rel NewLRUConns start_activity"
  by (simp add: lru_rel_def NewLRUConns_def start_activity_def)

lemma lru_front:
  assumes "lru_rel l a" "c \<notin> set l'" "l' = remove1 c l"
  shows "lru_rel (c # l') \<lparr>clock = clock a + 1, last_active = (last_active a)(c \<mapsto> clock a)\<rparr>"
proof -
  have "sorted_wrt (\<lambda>c d. the (last_active a d) < the (last_active a c)) l'" "distinct l'" "set l' = set l - {c}"
    using assms by (auto simp: lru_rel_def sorted_wrt_remove1)
  moreover have "dom (last_active a) = set l" "\<forall>d\<in>set l. the (last_active a d) < clock a"
    using assms(1) by (simp_all add: lru_rel_def)
  ultimately show ?thesis using assms(2) sorted_wrt_upd [of c l' "last_active a" "Some (clock a)"]
    by (auto simp: lru_rel_def less_SucI)
qed

lemma lru_drop:
  assumes "lru_rel l a" "l' = remove1 c l"
  shows "lru_rel l' \<lparr>clock = clock a + 1, last_active = (last_active a)(c := None)\<rparr>"
proof -
  have "sorted_wrt (\<lambda>c d. the (last_active a d) < the (last_active a c)) l'" "distinct l'" "set l' = set l - {c}"
    using assms by (auto simp: lru_rel_def sorted_wrt_remove1)
  moreover have "dom (last_active a) = set l" "\<forall>d\<in>set l. the (last_active a d) < clock a"
    using assms(1) by (simp_all add: lru_rel_def)
  moreover have "c \<notin> set l'" using \<open>set l' = set l - {c}\<close> by simp
  ultimately show ?thesis using sorted_wrt_upd [of c l' "last_active a" None]
    by (auto simp: lru_rel_def less_SucI)
qed

lemma lru_oldest:
  assumes "lru_rel l a" "LRU_CloseOldest l = (l', closed)"
  shows "oldest a closed"
proof (cases "l = []")
  case False
  then obtain m c where l: "l = m @ [c]" by (metis append_butlast_last_id)
  then have c: "closed = Some c" using assms(2) by (simp add: LRU_CloseOldest_def)
  have d: "dom (last_active a) = set l" and "sorted_wrt (\<lambda>c d. the (last_active a d) < the (last_active a c)) (m @ [c])"
    using assms(1) l by (simp_all add: lru_rel_def)
  then have "\<forall>d\<in>set m. the (last_active a c) < the (last_active a d)" by (simp add: sorted_wrt_append)
  moreover obtain t where "last_active a c = Some t" using d l by fastforce
  moreover have "d \<in> set l" if "last_active a d = Some u" for d u using that d by blast
  ultimately show ?thesis unfolding oldest_def c option.case l by fastforce
qed (use assms in \<open>simp add: LRU_CloseOldest_def oldest_def lru_rel_def\<close>)

lemma remove1_last: "distinct l \<Longrightarrow> l \<noteq> [] \<Longrightarrow> remove1 (last l) l = butlast l"
  by (induction l) auto

lemma lru_step_rel:
  assumes "lru_rel l a" "fresh_op l op" "lru_step l op = (l', closed)"
  shows "lru_rel l' (spec_step a op closed) \<and> (op = CloseOldest \<longrightarrow> oldest a closed)"
proof -
  have dist: "distinct l" using assms(1) by (simp add: lru_rel_def)
  show ?thesis
  proof (cases op)
    case (Add c)
    then show ?thesis using assms dist lru_front [OF assms(1), of c "l"] by (simp add: LRU_Add_def remove1_idem)
  next
    case (Touch c)
    have "last_active a c = None \<longleftrightarrow> c \<notin> set l" using assms(1) by (auto simp: lru_rel_def)
    moreover have "lru_rel l \<lparr>clock = clock a + 1, last_active = last_active a\<rparr>"
      using assms(1) by (auto simp: lru_rel_def less_SucI)
    ultimately show ?thesis
      using Touch assms dist lru_front [OF assms(1), of c "remove1 c l"] by (auto simp: LRU_Touch_def)
  next
    case (Remove c)
    then show ?thesis using assms lru_drop [OF assms(1)] by (auto simp: LRU_Remove_def)
  next
    case CloseOldest
    have "lru_rel l \<lparr>clock = clock a + 1, last_active = last_active a\<rparr>"
      using assms(1) by (auto simp: lru_rel_def less_SucI)
    then show ?thesis
      using CloseOldest assms lru_oldest [OF assms(1)] lru_drop [OF assms(1), of "butlast l" "last l"] remove1_last [OF dist]
      by (auto simp: LRU_CloseOldest_def split: if_splits)
  qed
qed

fun closes_oldest :: "lru_conns \<Rightarrow> activity \<Rightarrow> lru_op list \<Rightarrow> bool" where
  "closes_oldest l a [] \<longleftrightarrow> True"
| "closes_oldest l a (op # ops) \<longleftrightarrow> (case lru_step l op of (l', closed) \<Rightarrow>
     (op = CloseOldest \<longrightarrow> oldest a closed) \<and> closes_oldest l' (spec_step a op closed) ops)"

fun adds_fresh :: "lru_conns \<Rightarrow> lru_op list \<Rightarrow> bool" where
  "adds_fresh l [] \<longleftrightarrow> True"
| "adds_fresh l (op # ops) \<longleftrightarrow> fresh_op l op \<and> adds_fresh (fst (lru_step l op)) ops"

lemma closes_oldest_rel: "lru_rel l a \<Longrightarrow> adds_fresh l ops \<Longrightarrow> closes_oldest l a ops"
proof (induction ops arbitrary: l a)
  case (Cons op ops)
  obtain l' closed where s: "lru_step l op = (l', closed)" by fastforce
  show ?case using lru_step_rel [OF Cons.prems(1) _ s] Cons s by simp
qed simp

text \<open>
  C21: \<open>LRUConns\<close> refines its promise: in any sequence of additions, touches, removals and closings
  of connections that are added once, each \<open>CloseOldest\<close> closes the connection on the list whose
  last addition or touch is the longest ago, and closes nothing only when the list is empty.
\<close>

theorem lru_closes_oldest:
  assumes "adds_fresh NewLRUConns ops"
  shows "closes_oldest NewLRUConns start_activity ops"
  by (rule closes_oldest_rel [OF lru_rel_start assms])

theorem lru_closes_oldest_witness:
  "closes_oldest NewLRUConns start_activity
    [Add 1, Add 2, Add 3, Touch 1, CloseOldest, Remove 3, CloseOldest, CloseOldest] \<and>
    snd (lru_step (LRU_Touch 1 (LRU_Add 3 (LRU_Add 2 (LRU_Add 1 NewLRUConns)))) CloseOldest) = Some 2"
proof
  show "closes_oldest NewLRUConns start_activity
    [Add 1, Add 2, Add 3, Touch 1, CloseOldest, Remove 3, CloseOldest, CloseOldest]"
    by (rule lru_closes_oldest) code_simp
  show "snd (lru_step (LRU_Touch 1 (LRU_Add 3 (LRU_Add 2 (LRU_Add 1 NewLRUConns)))) CloseOldest) = Some 2"
    by code_simp
qed

section \<open>What is dialed\<close>

text \<open>A destination is permitted when it is no bogon, is not on an active blocklist, and the rules of
  a client that completed its handshake allow it.\<close>

definition permitted_destination :: "server_support \<Rightarrow> port_forward_type \<Rightarrow> bytes \<Rightarrow> int \<Rightarrow> ssh_client \<Rightarrow> bool" where
  "permitted_destination sv t ip port c \<longleftrightarrow>
    (AllowBogons sv \<or> \<not> IsBogon ip) \<and> (BlocklistActive sv \<longrightarrow> LookupIP (ServerBlocklist sv) ip = []) \<and> handshaked c \<and>
    (if t = PortForwardTCP then AllowTCPPort else AllowUDPPort) (CIDR_parser sv) (ASN_lookup sv) (trafficRules c) ip port = Some True"

lemma permitted_iff:
  "(\<exists>evs c'. isPortForwardPermitted sv t ip port c = Some (True, evs, c')) \<longleftrightarrow> permitted_destination sv t ip port c"
  unfolding isPortForwardPermitted_def permitted_destination_def isIPPermitted_def rules_allow_def Let_def
  by (auto split: if_splits)

lemma permitted_unchanged: "isPortForwardPermitted sv t ip port c = Some (True, evs, c') \<Longrightarrow> c' = c"
  unfolding isPortForwardPermitted_def by (auto split: if_splits prod.splits)

definition split_tunneled :: "split_tunnel option \<Rightarrow> bytes \<Rightarrow> bool" where
  "split_tunneled doSplitTunnel ip \<longleftrightarrow> (\<exists>st. doSplitTunnel = Some st \<and> client_country st \<noteq> ''None'' \<and>
     StringLookup_Contains (split_lookup st) (destination_country st ip))"

text \<open>A host stands for an address: its own, or that of a permitted domain, an IPv4 one if there is one.\<close>

definition prefers_v4 :: "bytes list \<Rightarrow> bytes \<Rightarrow> bool" where
  "prefers_v4 ips ip \<longleftrightarrow> ip \<in> set ips \<and> (To4 ip = None \<longrightarrow> (\<forall>x\<in>set ips. To4 x = None))"

definition domain_permitted :: "server_support \<Rightarrow> string \<Rightarrow> bool" where
  "domain_permitted sv host \<longleftrightarrow> (let domain = normalizeHostAddress (host_env sv) host in length host \<le> 255 \<and>
     \<not> suffix ''.local'' domain \<and> (BlocklistActive sv \<longrightarrow> LookupDomain (host_env sv) (ServerBlocklist sv) domain = []))"

lemma isDomainPermitted_iff: "fst (isDomainPermitted sv host) = None \<longleftrightarrow> domain_permitted sv host"
  by (simp add: isDomainPermitted_def domain_permitted_def Let_def)

lemma select_IP_prefers: "select_IP ips = Some ip \<Longrightarrow> prefers_v4 ips ip"
  by (auto simp: select_IP_def prefers_v4_def find_Some_iff find_None_iff split: option.splits if_splits)

lemma select_IP_None: "select_IP ips = None \<longleftrightarrow> ips = []"
  by (auto simp: select_IP_def split: option.splits)

lemma tcp_target_dials:
  assumes "tcp_target_of sv split ip port remaining c = Some (DialTarget ip' r, evs, c')"
  shows "ip' = ip \<and> r = remaining \<and> 0 < r \<and> \<not> split_tunneled split ip \<and>
    permitted_destination sv PortForwardTCP ip port c \<and> c' = c"
proof -
  have r: "0 < remaining" using assms by (auto simp: tcp_target_of_def split: if_splits)
  have st: "(case split of None \<Rightarrow> False | Some st \<Rightarrow> client_country st \<noteq> ''None'' \<and>
      StringLookup_Contains (split_lookup st) (destination_country st x)) = split_tunneled split x" for x
    by (cases split) (simp_all add: split_tunneled_def)
  have s: "\<not> split_tunneled split ip"
    using assms r unfolding tcp_target_of_def st by (auto split: if_splits prod.splits)
  have m: "map_option (\<lambda>(permitted, evs, c'). if \<not> permitted then (RejectTarget ''port forward not permitted'', evs, c')
       else (DialTarget ip remaining, evs, c')) (isPortForwardPermitted sv PortForwardTCP ip port c)
     = Some (DialTarget ip' r, evs, c')"
    using assms r s unfolding tcp_target_of_def st by simp
  then obtain b e d where p: "isPortForwardPermitted sv PortForwardTCP ip port c = Some (b, e, d)" by fastforce
  have "b \<and> ip' = ip \<and> remaining = r \<and> e = evs \<and> d = c'"
    using m unfolding p by (cases b) simp_all
  then have q: "isPortForwardPermitted sv PortForwardTCP ip port c = Some (True, evs, c')" "ip' = ip" "remaining = r"
    using p by simp_all
  moreover have "permitted_destination sv PortForwardTCP ip port c" using q(1) permitted_iff by blast
  ultimately show ?thesis using r s permitted_unchanged by simp
qed

lemma resolve_target_dials:
  assumes "resolve_target cached answer remaining c = (Inr (ip, r), c')"
  shows "\<exists>ips. (cached = Some ips \<and> ips \<noteq> [] \<and> r = remaining \<or>
      (cached = None \<or> cached = Some []) \<and> ips = answer_IPs answer \<and> answer_error answer = None \<and>
        r = remaining - answer_elapsed answer) \<and> prefers_v4 ips ip
    \<and> trafficRules c' = trafficRules c \<and> handshaked c' = handshaked c"
proof (cases "cached = None \<or> cached = Some []")
  case True
  then have "answer_error answer = None \<and> select_IP (answer_IPs answer) = Some ip \<and> r = remaining - answer_elapsed answer
      \<and> trafficRules c' = trafficRules c \<and> handshaked c' = handshaked c"
    using assms by (auto simp: resolve_target_def Let_def split: if_splits)
  then show ?thesis using True select_IP_prefers by blast
next
  case False
  then obtain x xs where cached: "cached = Some (x # xs)" by (metis list.exhaust option.exhaust)
  obtain y where y: "select_IP (x # xs) = Some y" using select_IP_None [of "x # xs"] by auto
  then have "ip = y \<and> r = remaining \<and> c' = c" using assms cached by (simp add: resolve_target_def)
  then show ?thesis using cached select_IP_prefers [OF y] by (intro exI [of _ "x # xs"]) simp
qed

lemma target_dials:
  assumes "handleTCPChannel_target sv split cached answer host port remaining c = Some (DialTarget ip r, evs, c')"
  shows "permitted_destination sv PortForwardTCP ip port c \<and> \<not> split_tunneled split ip \<and> 0 < r \<and>
    (ParseIP (host_env sv) host = Some ip \<and> r = remaining \<or>
     ParseIP (host_env sv) host = None \<and> domain_permitted sv host \<and>
       (\<exists>ips. prefers_v4 ips ip \<and> (cached = Some ips \<and> ips \<noteq> [] \<and> r = remaining \<or>
         (cached = None \<or> cached = Some []) \<and> ips = answer_IPs answer \<and> answer_error answer = None \<and>
           r = remaining - answer_elapsed answer)))"
proof (cases "ParseIP (host_env sv) host")
  case (Some x)
  then have "tcp_target_of sv split x port remaining c = Some (DialTarget ip r, evs, c')"
    using assms by (simp add: handleTCPChannel_target_def)
  from tcp_target_dials [OF this] Some show ?thesis by simp
next
  case None
  obtain d e where d: "isDomainPermitted sv host = (d, e)" by fastforce
  have dN: "d = None" using assms None d by (cases d) (simp_all add: handleTCPChannel_target_def)
  obtain res c1 where res: "resolve_target cached answer remaining c = (res, c1)" by fastforce
  obtain x q where x: "res = Inr (x, q)"
    using assms None d dN res by (cases res) (auto simp: handleTCPChannel_target_def)
  have "map_option (\<lambda>(t, evs', c''). (t, e @ evs', c'')) (tcp_target_of sv split x port q c1) = Some (DialTarget ip r, evs, c')"
    using assms None d dN res x by (simp add: handleTCPChannel_target_def)
  then obtain e' where t: "tcp_target_of sv split x port q c1 = Some (DialTarget ip r, e', c')" by auto
  note T = tcp_target_dials [OF t]
  from res x have "resolve_target cached answer remaining c = (Inr (x, q), c1)" by simp
  note R = resolve_target_dials [OF this]
  have P: "permitted_destination sv PortForwardTCP ip port c"
    using T R by (auto simp: permitted_destination_def)
  show ?thesis using T R P None isDomainPermitted_iff [of sv host] d dN by auto
qed

text \<open>
  C20: The server dials a TCP port forward only to a permitted destination and in the time that is
  left: the address is the one the client gave, or one that a permitted domain name resolves to, an
  IPv4 address if there is any; it is no bogon, is not on the active blocklist and is allowed by the
  client's rules; and it is not in a country that the client reaches without the tunnel.
\<close>

theorem dialed_destination_permitted:
  assumes "handleTCPChannel_target sv split cached answer host port remaining c = Some (DialTarget ip r, evs, c')"
  shows "permitted_destination sv PortForwardTCP ip port c \<and> \<not> split_tunneled split ip \<and> 0 < r \<and>
    (ParseIP (host_env sv) host = Some ip \<and> r = remaining \<or>
     ParseIP (host_env sv) host = None \<and> domain_permitted sv host \<and>
       (\<exists>ips. prefers_v4 ips ip \<and> (cached = Some ips \<and> ips \<noteq> [] \<and> r = remaining \<or>
         (cached = None \<or> cached = Some []) \<and> ips = answer_IPs answer \<and> answer_error answer = None \<and>
           r = remaining - answer_elapsed answer)))"
  by (rule target_dials [OF assms])

definition idle_traffic :: traffic_state where
  "idle_traffic = \<lparr>bytesUp = 0, bytesDown = 0, concurrentDialingPortForwardCount = 0,
    peakConcurrentDialingPortForwardCount = 0, concurrentPortForwardCount = 0, peakConcurrentPortForwardCount = 0,
    totalPortForwardCount = 0, totalDomainPortForwardCount = 0\<rparr>"

definition newQualityMetrics :: quality_metrics where
  "newQualityMetrics = \<lparr>TCPPortForwardDialedCount = 0, TCPPortForwardDialedDuration = 0,
    TCPPortForwardFailedCount = 0, TCPPortForwardFailedDuration = 0, TCPPortForwardRejectedDialingLimitCount = 0,
    TCPPortForwardRejectedDisallowedCount = 0, UDPPortForwardRejectedDisallowedCount = 0,
    TCPIPv4PortForwardDialedCount = 0, TCPIPv4PortForwardDialedDuration = 0, TCPIPv4PortForwardFailedCount = 0,
    TCPIPv4PortForwardFailedDuration = 0, TCPIPv6PortForwardDialedCount = 0, TCPIPv6PortForwardDialedDuration = 0,
    TCPIPv6PortForwardFailedCount = 0, TCPIPv6PortForwardFailedDuration = 0, DNSCount = (\<lambda>r. 0),
    DNSDuration = (\<lambda>r. 0), DNSFailedCount = (\<lambda>r. 0), DNSFailedDuration = (\<lambda>r. 0)\<rparr>"

definition newSshClient :: "traffic_rules \<Rightarrow> ssh_client" where
  "newSshClient rules = \<lparr>trafficRules = rules, handshaked = False, tcpTrafficState = idle_traffic,
    udpTrafficState = idle_traffic, tcpPortForwardDialingAvailableSignal = None, done_contexts = {},
    qualityMetrics = newQualityMetrics\<rparr>"

definition sample_server :: server_support where
  "sample_server = \<lparr>AllowBogons = False, BlocklistActive = True, ServerBlocklist = None,
    host_env = \<lparr>ParseIP = (\<lambda>s. None), IP_String = (\<lambda>ip. ''x''), strings_ToLower = (\<lambda>s. s), IsDomainName = (\<lambda>s. True)\<rparr>,
    CIDR_parser = (\<lambda>s. None), ASN_lookup = None\<rparr>"

definition sample_answer :: dns_answer where
  "sample_answer = \<lparr>answer_IPs = [[0x26, 6, 0x47, 0, 0, 0, 0, 0, 0, 0, 0, 0, 0, 0, 0, 1], [8, 8, 8, 8]],
    answer_error = None, answer_not_found = False, answer_elapsed = 25\<rparr>"

theorem dialed_destination_permitted_witness:
  "permitted_destination sample_server PortForwardTCP [8, 8, 8, 8] 443 (newSshClient no_rules\<lparr>handshaked := True\<rparr>)"
proof -
  have "handleTCPChannel_target sample_server None None sample_answer ''a.example'' 443 1000
      (newSshClient no_rules\<lparr>handshaked := True\<rparr>)
    = Some (DialTarget [8, 8, 8, 8] 975, [], newSshClient no_rules\<lparr>handshaked := True,
        qualityMetrics := updateQualityMetricsWithDNSResult True 25 [] newQualityMetrics\<rparr>)"
  proof -
    have "\<not> IsBogon [8, 8, 8, 8]" by code_simp
    moreover have "select_IP (answer_IPs sample_answer) = Some [8, 8, 8, 8]" by code_simp
    moreover have "\<not> suffix ''.local'' ''a.example''" by code_simp
    ultimately show ?thesis
      by (simp add: handleTCPChannel_target_def sample_server_def isDomainPermitted_def Let_def TrimSuffix_def suffix_def
        normalizeHostAddress_def LookupDomain_def resolve_target_def sample_answer_def tcp_target_of_def
        isPortForwardPermitted_def isIPPermitted_def LookupIP_def rules_allow_def AllowTCPPort_def newSshClient_def
        no_rules_def slice_def ASN_in_def Lookup_def IsEmpty_def)
  qed
  from dialed_destination_permitted [OF this] show ?thesis
    by (simp add: permitted_destination_def)
qed

end
