(* ===== verification/PortForwardRun.thy ===== *)
theory PortForwardRun
  imports PortForward
begin

text \<open>
  The TCP port forwards of a client as they run: the manager goroutine (\<open>handleTCPPortForwards\<close>),
  which reserves dialing slots, and one handler goroutine per port forward (\<open>handleTCPChannel\<close> with
  \<open>establishedPortForward\<close>), interleaved with reloads of the rules, the clock and the stop of the
  client. A step is what a goroutine does under one lock. Times are milliseconds; the dial, the
  acceptance of the channel and the relay may end at any time. UDP port forwards have counters of
  their own and go through the same operations.
\<close>

section \<open>Goroutines\<close>

text \<open>The phases of a port forward. \<open>Dialing\<close> lasts until the first \<open>allocatePortForward\<close>; the phases
  from \<open>Evicting\<close> to \<open>Waiting\<close> are \<open>establishedPortForward\<close> at the limit; \<open>Holding\<close>, \<open>Refused\<close> and
  \<open>Allocated\<close> have the lock of the condition variable; \<open>Waiting\<close> is \<open>Wait\<close>, before its signal.\<close>

datatype pf_phase = Queued | Rejected | Dialing | Evicting | Locking | Holding | Refused | Waiting | Allocated
  | Established | Listed | Closing | Signalling | Over

text \<open>The manager: \<open>Checking i rem\<close> has reserved a slot for \<open>i\<close> with \<open>rem\<close> milliseconds left;
  \<open>Arming\<close>, \<open>Blocking\<close> and \<open>Disarming\<close> are its wait with the context of the given number since the
  given time; \<open>Deciding\<close> is the last check of the time.\<close>

datatype manager = Idle | Checking nat int | Arming nat int int nat | Blocking nat int int nat
  | Disarming nat int int | Deciding nat int

record pf_sys =
  client :: ssh_client
  now :: int
  queue :: "(nat \<times> int) list"
  queue_capacity :: nat
  manager :: manager
  phase :: "nat \<Rightarrow> pf_phase option"
  cond_lock :: "nat option"
  lru :: lru_conns
  closed_conns :: "nat set"
  next_forward :: nat
  next_ctx :: nat
  stopped :: bool

datatype label = Tick int | Reload traffic_rules | Enqueue | Dequeue | Check | Arm | Unblock | Disarm | Decide
  | Abort nat | Allocate nat bool | Evict nat | Lock nat | Retry nat bool | Wait nat | Unlock nat | Track nat
  | Activity nat | Finish nat | Close nat int int | Signal nat "nat option" | Stop

definition goto :: "nat \<Rightarrow> pf_phase \<Rightarrow> pf_sys \<Rightarrow> pf_sys" where
  "goto i p s = s\<lparr>phase := (phase s)(i \<mapsto> p)\<rparr>"

definition with_client :: "ssh_client \<Rightarrow> pf_sys \<Rightarrow> pf_sys" where
  "with_client c s = s\<lparr>client := c\<rparr>"

definition count_rejected :: "ssh_client \<Rightarrow> ssh_client" where
  "count_rejected c = c\<lparr>qualityMetrics := updateQualityMetricsWithRejectedDialingLimit (qualityMetrics c)\<rparr>"

definition dequeue_step :: "pf_sys \<Rightarrow> pf_sys option" where
  "dequeue_step s = (case (manager s, queue s) of
     (Idle, (i, t) # q) \<Rightarrow>
       (case getDialTCPPortForwardTimeoutMilliseconds (client s) of None \<Rightarrow> None
        | Some timeout \<Rightarrow>
           let rem = timeout - (now s - t)
           in if rem \<le> 0 then Some (goto i Rejected (with_client (count_rejected (client s)) (s\<lparr>queue := q\<rparr>)))
              else Some (with_client (dialingTCPPortForward (client s)) (s\<lparr>queue := q, manager := Checking i rem\<rparr>)))
   | _ \<Rightarrow> None)"

definition check_step :: "pf_sys \<Rightarrow> pf_sys option" where
  "check_step s = (case manager s of
     Checking i rem \<Rightarrow> map_option (\<lambda>exceeded.
       if exceeded then s\<lparr>manager := Arming i rem (now s) (next_ctx s), next_ctx := next_ctx s + 1\<rparr>
       else s\<lparr>manager := Deciding i rem\<rparr>) (isTCPDialingPortForwardLimitExceeded (client s))
   | _ \<Rightarrow> None)"

text \<open>The context is done when its cancel function was called, at its deadline, or with the client.\<close>

definition ctx_done :: "nat \<Rightarrow> int \<Rightarrow> int \<Rightarrow> pf_sys \<Rightarrow> bool" where
  "ctx_done ctx start rem s \<longleftrightarrow> ctx \<in> done_contexts (client s) \<or> now s - start \<ge> rem \<or> stopped s"

definition manager_wait_step :: "label \<Rightarrow> pf_sys \<Rightarrow> pf_sys option" where
  "manager_wait_step l s = (case (l, manager s) of
     (Arm, Arming i rem start ctx) \<Rightarrow>
       Some (with_client (setTCPPortForwardDialingAvailableSignal (Some ctx) (client s)) (s\<lparr>manager := Blocking i rem start ctx\<rparr>))
   | (Unblock, Blocking i rem start ctx) \<Rightarrow>
       (if ctx_done ctx start rem s then Some (s\<lparr>manager := Disarming i rem start\<rparr>) else None)
   | (Disarm, Disarming i rem start) \<Rightarrow>
       Some (with_client (setTCPPortForwardDialingAvailableSignal None (client s))
         (s\<lparr>manager := Deciding i (rem - (now s - start))\<rparr>))
   | _ \<Rightarrow> None)"

definition decide_step :: "pf_sys \<Rightarrow> pf_sys option" where
  "decide_step s = (case manager s of
     Deciding i rem \<Rightarrow>
       if rem \<le> 0
       then Some (goto i Rejected (with_client (count_rejected (abortedTCPPortForward (client s))) (s\<lparr>manager := Idle\<rparr>)))
       else Some (goto i Dialing (s\<lparr>manager := Idle\<rparr>))
   | _ \<Rightarrow> None)"

text \<open>\<open>handleTCPChannel\<close> gives up before the port forward is established: its deferred function.\<close>

definition abort_step :: "nat \<Rightarrow> pf_sys \<Rightarrow> pf_sys option" where
  "abort_step i s = (if phase s i = Some Dialing
     then Some (goto i Rejected (with_client (abortedTCPPortForward (client s)) s)) else None)"

definition allocate_step :: "nat \<Rightarrow> bool \<Rightarrow> pf_sys \<Rightarrow> pf_sys option" where
  "allocate_step i isDomainName s = (if phase s i = Some Dialing
     then map_option (\<lambda>(ok, c). goto i (if ok then Established else Evicting) (with_client c s))
       (allocatePortForward PortForwardTCP isDomainName (client s))
     else None)"

definition evict_step :: "nat \<Rightarrow> pf_sys \<Rightarrow> pf_sys option" where
  "evict_step i s = (if phase s i = Some Evicting
     then (case LRU_CloseOldest (lru s) of (l, closed) \<Rightarrow>
       Some (goto i Locking (s\<lparr>lru := l, closed_conns := set_option closed \<union> closed_conns s\<rparr>)))
     else None)"

definition cond_step :: "label \<Rightarrow> pf_sys \<Rightarrow> pf_sys option" where
  "cond_step l s = (case l of
     Lock i \<Rightarrow> if phase s i = Some Locking \<and> cond_lock s = None
       then Some (goto i Holding (s\<lparr>cond_lock := Some i\<rparr>)) else None
   | Retry i isDomainName \<Rightarrow> if phase s i = Some Holding
       then map_option (\<lambda>(ok, c). goto i (if ok then Allocated else Refused) (with_client c s))
         (allocatePortForward PortForwardTCP isDomainName (client s))
       else None
   | Wait i \<Rightarrow> if phase s i = Some Refused then Some (goto i Waiting (s\<lparr>cond_lock := None\<rparr>)) else None
   | Unlock i \<Rightarrow> if phase s i = Some Allocated then Some (goto i Established (s\<lparr>cond_lock := None\<rparr>)) else None
   | _ \<Rightarrow> None)"

definition relay_step :: "label \<Rightarrow> pf_sys \<Rightarrow> pf_sys option" where
  "relay_step l s = (case l of
     Track i \<Rightarrow> if phase s i = Some Established then Some (goto i Listed (s\<lparr>lru := LRU_Add i (lru s)\<rparr>)) else None
   | Activity i \<Rightarrow> if phase s i = Some Listed then Some (s\<lparr>lru := LRU_Touch i (lru s)\<rparr>) else None
   | Finish i \<Rightarrow> if phase s i = Some Listed then Some (goto i Closing (s\<lparr>lru := LRU_Remove i (lru s)\<rparr>)) else None
   | Close i up down \<Rightarrow> if phase s i = Some Closing
       then Some (goto i Signalling (with_client (closedPortForward PortForwardTCP up down (client s)) s)) else None
   | _ \<Rightarrow> None)"

text \<open>\<open>Signal\<close> wakes one waiting goroutine, if there is any.\<close>

definition signal_step :: "nat \<Rightarrow> nat option \<Rightarrow> pf_sys \<Rightarrow> pf_sys option" where
  "signal_step i woken s = (if phase s i \<noteq> Some Signalling then None
     else case woken of
       Some j \<Rightarrow> if phase s j = Some Waiting then Some (goto j Locking (goto i Over s)) else None
     | None \<Rightarrow> if list_ex (\<lambda>j. phase s j = Some Waiting) [0..<next_forward s] then None else Some (goto i Over s))"

fun do_step :: "label \<Rightarrow> pf_sys \<Rightarrow> pf_sys option" where
  "do_step (Tick d) s = (if 0 < d then Some (s\<lparr>now := now s + d\<rparr>) else None)"
| "do_step (Reload r) s = Some (with_client ((client s)\<lparr>trafficRules := r\<rparr>) s)"
| "do_step Enqueue s = (if \<not> stopped s \<and> length (queue s) < queue_capacity s
     then Some (goto (next_forward s) Queued (s\<lparr>queue := queue s @ [(next_forward s, now s)], next_forward := next_forward s + 1\<rparr>))
     else None)"
| "do_step Dequeue s = dequeue_step s"
| "do_step Check s = check_step s"
| "do_step Decide s = decide_step s"
| "do_step (Abort i) s = abort_step i s"
| "do_step (Allocate i isDomainName) s = allocate_step i isDomainName s"
| "do_step (Evict i) s = evict_step i s"
| "do_step (Signal i woken) s = signal_step i woken s"
| "do_step Stop s = (case LRU_CloseAll (lru s) of (l, closed) \<Rightarrow>
     Some (s\<lparr>stopped := True, lru := l, closed_conns := set closed \<union> closed_conns s\<rparr>))"
| "do_step l s = (case l of Arm \<Rightarrow> manager_wait_step l s | Unblock \<Rightarrow> manager_wait_step l s | Disarm \<Rightarrow> manager_wait_step l s
     | Lock _ \<Rightarrow> cond_step l s | Retry _ _ \<Rightarrow> cond_step l s | Wait _ \<Rightarrow> cond_step l s | Unlock _ \<Rightarrow> cond_step l s
     | _ \<Rightarrow> relay_step l s)"

definition start_sys :: "traffic_rules \<Rightarrow> pf_sys" where
  "start_sys rules = \<lparr>client = newSshClient rules, now = 0, queue = [], queue_capacity = nat (the (queue_size (newSshClient rules))),
     manager = Idle, phase = (\<lambda>i. None), cond_lock = None, lru = NewLRUConns, closed_conns = {}, next_forward = 0,
     next_ctx = 0, stopped = False\<rparr>"

text \<open>The rules in force, at the start and after a reload, are among those given.\<close>

fun admitted :: "(traffic_rules \<Rightarrow> bool) \<Rightarrow> label \<Rightarrow> bool" where
  "admitted ok (Reload r) = ok r"
| "admitted ok l = True"

inductive pf_reachable :: "(traffic_rules \<Rightarrow> bool) \<Rightarrow> pf_sys \<Rightarrow> bool" for ok where
  start: "ok rules \<Longrightarrow> pf_reachable ok (start_sys rules)"
| step: "pf_reachable ok s \<Longrightarrow> admitted ok l \<Longrightarrow> do_step l s = Some t \<Longrightarrow> pf_reachable ok t"

section \<open>The counters\<close>

text \<open>The phases that hold a dialing slot, an established slot, and those after an establishment.\<close>

definition dialing :: "pf_phase \<Rightarrow> bool" where
  "dialing p \<longleftrightarrow> p \<in> {Dialing, Evicting, Locking, Holding, Refused, Waiting}"

definition established :: "pf_phase \<Rightarrow> bool" where
  "established p \<longleftrightarrow> p \<in> {Allocated, Established, Listed, Closing}"

definition ever_established :: "pf_phase \<Rightarrow> bool" where
  "ever_established p \<longleftrightarrow> p \<in> {Allocated, Established, Listed, Closing, Signalling, Over}"

lemma phase_classes [simp]:
  "dialing Queued = False" "dialing Rejected = False" "dialing Dialing = True" "dialing Evicting = True" "dialing Locking = True"
  "dialing Holding = True" "dialing Refused = True" "dialing Waiting = True" "dialing Allocated = False"
  "dialing Established = False" "dialing Listed = False" "dialing Closing = False" "dialing Signalling = False"
  "dialing Over = False"
  "established Queued = False" "established Rejected = False" "established Dialing = False" "established Evicting = False"
  "established Locking = False" "established Holding = False" "established Refused = False" "established Waiting = False"
  "established Allocated = True" "established Established = True" "established Listed = True" "established Closing = True"
  "established Signalling = False" "established Over = False"
  "ever_established Queued = False" "ever_established Rejected = False" "ever_established Dialing = False"
  "ever_established Evicting = False" "ever_established Locking = False" "ever_established Holding = False"
  "ever_established Refused = False" "ever_established Waiting = False" "ever_established Allocated = True"
  "ever_established Established = True" "ever_established Listed = True" "ever_established Closing = True"
  "ever_established Signalling = True" "ever_established Over = True"
  by (simp_all add: dialing_def established_def ever_established_def)

definition how_many :: "(pf_phase \<Rightarrow> bool) \<Rightarrow> pf_sys \<Rightarrow> nat" where
  "how_many P s = card {i. \<exists>p. phase s i = Some p \<and> P p}"

fun pending :: "manager \<Rightarrow> nat list" where
  "pending Idle = []"
| "pending (Checking i _) = [i]"
| "pending (Arming i _ _ _) = [i]"
| "pending (Blocking i _ _ _) = [i]"
| "pending (Disarming i _ _) = [i]"
| "pending (Deciding i _) = [i]"

definition pf_inv :: "pf_sys \<Rightarrow> bool" where
  "pf_inv s \<longleftrightarrow> (\<forall>i \<ge> next_forward s. phase s i = None) \<and>
     concurrentDialingPortForwardCount (tcpTrafficState (client s)) = int (how_many dialing s) + int (length (pending (manager s))) \<and>
     concurrentPortForwardCount (tcpTrafficState (client s)) = int (how_many established s) \<and>
     totalPortForwardCount (tcpTrafficState (client s)) = int (how_many ever_established s) \<and>
     distinct (pending (manager s) @ map fst (queue s)) \<and>
     (\<forall>i\<in>set (pending (manager s) @ map fst (queue s)). phase s i = Some Queued)"

lemma goto_sel [simp]:
  "phase (goto i p s) j = (if j = i then Some p else phase s j)" "client (goto i p s) = client s" "now (goto i p s) = now s"
  "queue (goto i p s) = queue s" "manager (goto i p s) = manager s" "cond_lock (goto i p s) = cond_lock s"
  "lru (goto i p s) = lru s" "next_forward (goto i p s) = next_forward s" "next_ctx (goto i p s) = next_ctx s"
  "stopped (goto i p s) = stopped s"
  by (simp_all add: goto_def)

lemma with_client_sel [simp]:
  "phase (with_client c s) = phase s" "client (with_client c s) = c" "now (with_client c s) = now s"
  "queue (with_client c s) = queue s" "manager (with_client c s) = manager s" "cond_lock (with_client c s) = cond_lock s"
  "lru (with_client c s) = lru s" "next_forward (with_client c s) = next_forward s" "next_ctx (with_client c s) = next_ctx s"
  "stopped (with_client c s) = stopped s"
  by (simp_all add: with_client_def)

lemma how_many_cong: "phase s = phase t \<Longrightarrow> how_many P s = how_many P t"
  by (simp add: how_many_def)

definition inside :: "(pf_phase \<Rightarrow> bool) \<Rightarrow> pf_phase option \<Rightarrow> int" where
  "inside P p = (case p of None \<Rightarrow> 0 | Some q \<Rightarrow> of_bool (P q))"

lemma inside_simps [simp]: "inside P None = 0" "inside P (Some q) = of_bool (P q)"
  by (simp_all add: inside_def)

lemma how_many_goto:
  assumes "\<forall>j \<ge> n. phase s j = None"
  shows "int (how_many P (goto i p s)) = int (how_many P s) - inside P (phase s i) + of_bool (P p)"
proof -
  let ?A = "{j. \<exists>q. phase s j = Some q \<and> P q}"
  have "?A \<subseteq> {..<n}"
  proof
    fix j assume "j \<in> ?A"
    then have "phase s j \<noteq> None" by auto
    then show "j \<in> {..<n}" using assms by (meson lessThan_iff linorder_not_less)
  qed
  then have fin: "finite ?A" by (rule finite_subset) simp
  have eq: "{j. \<exists>q. phase (goto i p s) j = Some q \<and> P q} = (if P p then insert i (?A - {i}) else ?A - {i})" by auto
  have mem: "inside P (phase s i) = of_bool (i \<in> ?A)" by (cases "phase s i") auto
  have rest: "int (card (?A - {i})) = int (card ?A) - of_bool (i \<in> ?A)"
  proof (cases "i \<in> ?A")
    case True
    then have "card ?A = Suc (card (?A - {i}))" by (rule card.remove [OF fin])
    then show ?thesis using True by simp
  qed simp
  have "int (card (if P p then insert i (?A - {i}) else ?A - {i})) = int (card (?A - {i})) + of_bool (P p)"
    using card_insert_disjoint [of "?A - {i}" i] fin by auto
  then show ?thesis using rest unfolding how_many_def eq mem by simp
qed

text \<open>The operations on the client, by the counters they change.\<close>

definition dials :: "ssh_client \<Rightarrow> int" where "dials c = concurrentDialingPortForwardCount (tcpTrafficState c)"
definition conns :: "ssh_client \<Rightarrow> int" where "conns c = concurrentPortForwardCount (tcpTrafficState c)"
definition total :: "ssh_client \<Rightarrow> int" where "total c = totalPortForwardCount (tcpTrafficState c)"

lemmas counter_defs = dials_def conns_def total_def

lemma count_rejected_sel [simp]:
  "dials (count_rejected c) = dials c" "conns (count_rejected c) = conns c" "total (count_rejected c) = total c"
  "trafficRules (count_rejected c) = trafficRules c" "done_contexts (count_rejected c) = done_contexts c"
  "tcpPortForwardDialingAvailableSignal (count_rejected c) = tcpPortForwardDialingAvailableSignal c"
  by (simp_all add: counter_defs count_rejected_def)

lemma dialing_sel [simp]:
  "dials (dialingTCPPortForward c) = dials c + 1" "conns (dialingTCPPortForward c) = conns c"
  "total (dialingTCPPortForward c) = total c" "trafficRules (dialingTCPPortForward c) = trafficRules c"
  "done_contexts (dialingTCPPortForward c) = done_contexts c"
  "tcpPortForwardDialingAvailableSignal (dialingTCPPortForward c) = tcpPortForwardDialingAvailableSignal c"
  by (simp_all add: counter_defs dialingTCPPortForward_def Let_def)

lemma aborted_sel [simp]:
  "dials (abortedTCPPortForward c) = dials c - 1" "conns (abortedTCPPortForward c) = conns c"
  "total (abortedTCPPortForward c) = total c" "trafficRules (abortedTCPPortForward c) = trafficRules c"
  "done_contexts (abortedTCPPortForward c) = done_contexts c"
  "tcpPortForwardDialingAvailableSignal (abortedTCPPortForward c) = tcpPortForwardDialingAvailableSignal c"
  by (simp_all add: counter_defs abortedTCPPortForward_def Let_def)

lemma signal_sel [simp]:
  "dials (setTCPPortForwardDialingAvailableSignal x c) = dials c" "conns (setTCPPortForwardDialingAvailableSignal x c) = conns c"
  "total (setTCPPortForwardDialingAvailableSignal x c) = total c"
  "trafficRules (setTCPPortForwardDialingAvailableSignal x c) = trafficRules c"
  "done_contexts (setTCPPortForwardDialingAvailableSignal x c) = done_contexts c"
  "tcpPortForwardDialingAvailableSignal (setTCPPortForwardDialingAvailableSignal x c) = x"
  by (simp_all add: counter_defs setTCPPortForwardDialingAvailableSignal_def)

lemma closed_sel [simp]:
  "dials (closedPortForward PortForwardTCP u d c) = dials c" "conns (closedPortForward PortForwardTCP u d c) = conns c - 1"
  "total (closedPortForward PortForwardTCP u d c) = total c"
  "trafficRules (closedPortForward PortForwardTCP u d c) = trafficRules c"
  "done_contexts (closedPortForward PortForwardTCP u d c) = done_contexts c"
  "tcpPortForwardDialingAvailableSignal (closedPortForward PortForwardTCP u d c) = tcpPortForwardDialingAvailableSignal c"
  by (simp_all add: counter_defs closedPortForward_def set_traffic_def traffic_of_def Let_def)

lemma reload_sel [simp]:
  "dials (c\<lparr>trafficRules := r\<rparr>) = dials c" "conns (c\<lparr>trafficRules := r\<rparr>) = conns c" "total (c\<lparr>trafficRules := r\<rparr>) = total c"
  by (simp_all add: counter_defs)

lemma limit_exceeded_iff:
  "isTCPDialingPortForwardLimitExceeded c = Some b \<longleftrightarrow>
     (\<exists>lim. MaxTCPDialingPortForwardCount (trafficRules c) = Some lim \<and> b = (0 < lim \<and> lim \<le> dials c))"
  by (auto simp: isTCPDialingPortForwardLimitExceeded_def counter_defs)

lemma release_sel:
  assumes "release_dialing c = Some c'"
  shows "dials c' = dials c - 1" "conns c' = conns c" "total c' = total c" "trafficRules c' = trafficRules c"
    "tcpPortForwardDialingAvailableSignal c' = tcpPortForwardDialingAvailableSignal c"
    "done_contexts c' = done_contexts c \<or> (\<exists>x lim. tcpPortForwardDialingAvailableSignal c = Some x \<and>
       MaxTCPDialingPortForwardCount (trafficRules c) = Some lim \<and> (lim \<le> 0 \<or> dials c' < lim) \<and>
       done_contexts c' = insert x (done_contexts c))"
  using assms unfolding release_dialing_def Let_def
  by (auto simp: counter_defs abortedTCPPortForward_def Let_def split: option.splits if_splits)

lemma counted_sel [simp]:
  "dials (set_traffic PortForwardTCP (count_established b (traffic_of PortForwardTCP c)) c) = dials c"
  "conns (set_traffic PortForwardTCP (count_established b (traffic_of PortForwardTCP c)) c) = conns c + 1"
  "total (set_traffic PortForwardTCP (count_established b (traffic_of PortForwardTCP c)) c) = total c + 1"
  "trafficRules (set_traffic t st c) = trafficRules c" "done_contexts (set_traffic t st c) = done_contexts c"
  "tcpPortForwardDialingAvailableSignal (set_traffic t st c) = tcpPortForwardDialingAvailableSignal c"
  by (simp_all add: counter_defs set_traffic_def traffic_of_def count_established_def Let_def)

lemma allocate_refused: "allocatePortForward t b c = Some (False, c') \<Longrightarrow> c' = c"
  by (auto simp: allocatePortForward_def split: option.splits if_splits)

lemma allocate_granted:
  assumes "allocatePortForward PortForwardTCP b c = Some (True, c')"
  shows "dials c' = dials c - 1" "conns c' = conns c + 1" "total c' = total c + 1" "trafficRules c' = trafficRules c"
    "tcpPortForwardDialingAvailableSignal c' = tcpPortForwardDialingAvailableSignal c"
    "done_contexts c' = done_contexts c \<or> (\<exists>x lim. tcpPortForwardDialingAvailableSignal c = Some x \<and>
       MaxTCPDialingPortForwardCount (trafficRules c) = Some lim \<and> (lim \<le> 0 \<or> dials c' < lim) \<and>
       done_contexts c' = insert x (done_contexts c))"
    "\<exists>lim. MaxTCPPortForwardCount (trafficRules c) = Some lim \<and> (lim \<le> 0 \<or> conns c < lim)"
proof -
  obtain lim where lim: "MaxTCPPortForwardCount (trafficRules c) = Some lim" "\<not> (0 < lim \<and> lim \<le> conns c)"
    using assms by (auto simp: allocatePortForward_def max_count_def counter_defs traffic_of_def split: option.splits if_splits)
  then have no: "(0 < lim \<and> lim \<le> concurrentPortForwardCount (traffic_of PortForwardTCP c)) = False"
    by (simp add: counter_defs traffic_of_def)
  have "map_option (\<lambda>c'. (True, set_traffic PortForwardTCP (count_established b (traffic_of PortForwardTCP c')) c')) (release_dialing c)
      = Some (True, c')"
    using assms lim(1) unfolding allocatePortForward_def max_count_def by (simp add: no del: not_le)
  then obtain d where d: "release_dialing c = Some d"
      "c' = set_traffic PortForwardTCP (count_established b (traffic_of PortForwardTCP d)) d" by auto
  note R = release_sel [OF d(1)]
  show "dials c' = dials c - 1" "conns c' = conns c + 1" "total c' = total c + 1" "trafficRules c' = trafficRules c"
    "tcpPortForwardDialingAvailableSignal c' = tcpPortForwardDialingAvailableSignal c"
    "done_contexts c' = done_contexts c \<or> (\<exists>x lim. tcpPortForwardDialingAvailableSignal c = Some x \<and>
       MaxTCPDialingPortForwardCount (trafficRules c) = Some lim \<and> (lim \<le> 0 \<or> dials c' < lim) \<and>
       done_contexts c' = insert x (done_contexts c))"
    using R unfolding d(2) by simp_all
  show "\<exists>lim. MaxTCPPortForwardCount (trafficRules c) = Some lim \<and> (lim \<le> 0 \<or> conns c < lim)"
    using lim by auto
qed

section \<open>The invariant\<close>

text \<open>The parts of the invariant: the identifiers, and the counters of the client.\<close>

definition ids_ok :: "pf_sys \<Rightarrow> bool" where
  "ids_ok s \<longleftrightarrow> (\<forall>i \<ge> next_forward s. phase s i = None) \<and> distinct (pending (manager s) @ map fst (queue s)) \<and>
     (\<forall>i\<in>set (pending (manager s) @ map fst (queue s)). phase s i = Some Queued)"

definition counts_ok :: "pf_sys \<Rightarrow> bool" where
  "counts_ok s \<longleftrightarrow> dials (client s) = int (how_many dialing s) + int (length (pending (manager s))) \<and>
     conns (client s) = int (how_many established s) \<and> total (client s) = int (how_many ever_established s)"

lemma pf_inv_split: "pf_inv s \<longleftrightarrow> ids_ok s \<and> counts_ok s"
  by (auto simp: pf_inv_def ids_ok_def counts_ok_def counter_defs)

lemma known_forward: "ids_ok s \<Longrightarrow> phase s i = Some p \<Longrightarrow> i < next_forward s"
  by (metis ids_ok_def leI option.distinct(1))

lemma ids_goto:
  assumes "ids_ok s" "phase t = phase (goto i q s)" "set L \<subseteq> set (pending (manager s) @ map fst (queue s))" "distinct L"
    "i \<notin> set L" "i < next_forward s" "pending (manager t) @ map fst (queue t) = L" "next_forward t = next_forward s"
  shows "ids_ok t"
proof -
  have "\<forall>j\<in>set L. phase t j = Some Queued" using assms(1-3,5) by (auto simp: ids_ok_def simp del: set_append)
  moreover have "\<forall>j \<ge> next_forward t. phase t j = None" using assms(1,2,6,8) by (auto simp: ids_ok_def)
  ultimately show ?thesis using assms(4,7) by (simp only: ids_ok_def simp_thms)
qed

text \<open>A forward moves to another phase, and the client's counters follow.\<close>

lemma move_inv:
  assumes "pf_inv s" "phase s i = Some p" "p \<noteq> Queued" "phase t = phase (goto i q s)"
    "queue t = queue s" "pending (manager t) = pending (manager s)" "next_forward t = next_forward s"
    "dials (client t) = dials (client s) - of_bool (dialing p) + of_bool (dialing q)"
    "conns (client t) = conns (client s) - of_bool (established p) + of_bool (established q)"
    "total (client t) = total (client s) - of_bool (ever_established p) + of_bool (ever_established q)"
  shows "pf_inv t"
proof -
  have ids: "ids_ok s" and cnt: "counts_ok s" using assms(1) by (simp_all add: pf_inv_split)
  have none: "\<forall>j \<ge> next_forward s. phase s j = None" using ids by (simp add: ids_ok_def)
  have t: "int (how_many P t) = int (how_many P s) - of_bool (P p) + of_bool (P q)" for P
    using how_many_goto [OF none, of P i q] assms(2) how_many_cong [OF assms(4)] by simp
  have "i \<notin> set (pending (manager s) @ map fst (queue s))" using ids assms(2,3) unfolding ids_ok_def by fastforce
  then have "ids_ok t"
    using ids known_forward [OF ids assms(2)] assms(4-7)
    by (intro ids_goto [OF ids assms(4), of "pending (manager s) @ map fst (queue s)"]) (simp_all add: ids_ok_def)
  moreover have "counts_ok t" using cnt assms(6,8-10) t by (simp add: counts_ok_def)
  ultimately show ?thesis by (simp add: pf_inv_split)
qed

text \<open>A step that changes neither phases nor counters.\<close>

lemma still_inv:
  assumes "pf_inv s" "phase t = phase s" "queue t = queue s" "pending (manager t) = pending (manager s)"
    "next_forward t = next_forward s" "dials (client t) = dials (client s)" "conns (client t) = conns (client s)"
    "total (client t) = total (client s)"
  shows "pf_inv t"
  using assms how_many_cong [OF assms(2)] by (simp add: pf_inv_split ids_ok_def counts_ok_def)

lemma fun_eq_goto: "phase (goto i p s) = (phase s)(i \<mapsto> p)"
  by (simp add: goto_def)

lemma dequeue_inv:
  assumes "pf_inv s" "dequeue_step s = Some t"
  shows "pf_inv t"
proof -
  obtain i e q timeout where m: "manager s = Idle" "queue s = (i, e) # q"
    and timeout: "getDialTCPPortForwardTimeoutMilliseconds (client s) = Some timeout"
    using assms(2) by (auto simp: dequeue_step_def split: manager.splits list.splits option.splits prod.splits)
  have ids: "ids_ok s" and cnt: "counts_ok s" using assms(1) by (simp_all add: pf_inv_split)
  have none: "\<forall>j \<ge> next_forward s. phase s j = None" using ids by (simp add: ids_ok_def)
  have i: "phase s i = Some Queued" "i \<notin> fst ` set q" "distinct (map fst q)" using ids m by (simp_all add: ids_ok_def)
  have lt: "i < next_forward s" by (rule known_forward [OF ids i(1)])
  show ?thesis
  proof (cases "timeout - (now s - e) \<le> 0")
    case True
    then have t: "t = goto i Rejected (with_client (count_rejected (client s)) (s\<lparr>queue := q\<rparr>))"
      using assms(2) m timeout by (simp add: dequeue_step_def)
    have "phase t = phase (goto i Rejected s)" by (simp add: t goto_def with_client_def)
    then have h: "int (how_many P t) = int (how_many P s) - of_bool (P Queued) + of_bool (P Rejected)" for P
      using how_many_goto [OF none, of P i Rejected] i(1) how_many_cong [of t "goto i Rejected s" P] by simp
    have "ids_ok t"
      by (rule ids_goto [OF ids \<open>phase t = phase (goto i Rejected s)\<close>, of "map fst q"]) (use i lt m in \<open>auto simp: t\<close>)
    moreover have "counts_ok t" using cnt m h unfolding counts_ok_def by (simp add: t)
    ultimately show ?thesis by (simp add: pf_inv_split)
  next
    case False
    then have t: "t = with_client (dialingTCPPortForward (client s))
        (s\<lparr>queue := q, manager := Checking i (timeout - (now s - e))\<rparr>)"
      using assms(2) m timeout by (simp add: dequeue_step_def)
    have "how_many P t = how_many P s" for P by (rule how_many_cong) (simp add: t)
    then have "counts_ok t" using cnt m unfolding counts_ok_def by (simp add: t)
    moreover have "ids_ok t" using ids m unfolding ids_ok_def by (simp add: t)
    ultimately show ?thesis by (simp add: pf_inv_split)
  qed
qed

lemma decide_inv:
  assumes "pf_inv s" "decide_step s = Some t"
  shows "pf_inv t"
proof -
  obtain i rem where m: "manager s = Deciding i rem"
    using assms(2) by (auto simp: decide_step_def split: manager.splits)
  have ids: "ids_ok s" and cnt: "counts_ok s" using assms(1) by (simp_all add: pf_inv_split)
  have none: "\<forall>j \<ge> next_forward s. phase s j = None" using ids by (simp add: ids_ok_def)
  have i: "phase s i = Some Queued" "i \<notin> fst ` set (queue s)" using ids m by (simp_all add: ids_ok_def)
  have lt: "i < next_forward s" by (rule known_forward [OF ids i(1)])
  let ?p = "if rem \<le> 0 then Rejected else Dialing"
  have t: "phase t = phase (goto i ?p s)" "manager t = Idle" "queue t = queue s" "next_forward t = next_forward s"
    "dials (client t) = dials (client s) - of_bool (rem \<le> 0)" "conns (client t) = conns (client s)" "total (client t) = total (client s)"
    using assms(2) m by (auto simp: decide_step_def goto_def with_client_def split: if_splits)
  have h: "int (how_many P t) = int (how_many P s) - of_bool (P Queued) + of_bool (P ?p)" for P
    using how_many_goto [OF none, of P i ?p] i(1) how_many_cong [OF t(1)] by simp
  have "ids_ok t"
    by (rule ids_goto [OF ids t(1), of "map fst (queue s)"]) (use i lt m ids in \<open>auto simp: t ids_ok_def\<close>)
  moreover have "counts_ok t" using cnt m h unfolding counts_ok_def by (cases "rem \<le> 0") (simp_all add: t)
  ultimately show ?thesis by (simp add: pf_inv_split)
qed

lemma enqueue_inv: "pf_inv s \<Longrightarrow> do_step Enqueue s = Some t \<Longrightarrow> pf_inv t"
proof -
  assume inv: "pf_inv s" and "do_step Enqueue s = Some t"
  then have t: "t = goto (next_forward s) Queued (s\<lparr>queue := queue s @ [(next_forward s, now s)], next_forward := next_forward s + 1\<rparr>)"
    by (simp split: if_splits)
  have ids: "ids_ok s" and cnt: "counts_ok s" using inv by (simp_all add: pf_inv_split)
  have none: "\<forall>j \<ge> next_forward s. phase s j = None" using ids by (simp add: ids_ok_def)
  have "phase t = phase (goto (next_forward s) Queued s)" by (simp add: t goto_def)
  then have h: "int (how_many P t) = int (how_many P s) + of_bool (P Queued)" for P
    using how_many_goto [OF none, of P "next_forward s" Queued] none how_many_cong [of t "goto (next_forward s) Queued s" P] by simp
  have "next_forward s \<notin> set (pending (manager s) @ map fst (queue s))"
    using ids none unfolding ids_ok_def by (metis option.distinct(1) order_refl)
  then have "ids_ok t" using ids unfolding ids_ok_def by (simp add: t)
  moreover have "counts_ok t" using cnt h unfolding counts_ok_def by (simp add: t)
  ultimately show ?thesis by (simp add: pf_inv_split)
qed

lemma check_inv: "pf_inv s \<Longrightarrow> check_step s = Some t \<Longrightarrow> pf_inv t"
  by (rule still_inv [of s]) (auto simp: check_step_def split: manager.splits if_splits)

lemma manager_wait_inv: "pf_inv s \<Longrightarrow> manager_wait_step l s = Some t \<Longrightarrow> pf_inv t"
  by (rule still_inv [of s]) (auto simp: manager_wait_step_def split: manager.splits label.splits if_splits)

lemma abort_inv:
  assumes "pf_inv s" "abort_step i s = Some t"
  shows "pf_inv t"
proof -
  have "phase s i = Some Dialing" "t = goto i Rejected (with_client (abortedTCPPortForward (client s)) s)"
    using assms(2) by (auto simp: abort_step_def split: if_splits)
  then show ?thesis by (intro move_inv [OF assms(1), of i Dialing t Rejected]) (simp_all add: fun_eq_goto)
qed

text \<open>The two calls of \<open>allocatePortForward\<close>: of the phase before them, and of what follows.\<close>

lemma grant_inv:
  assumes "pf_inv s" "phase s i = Some p" "p = Dialing \<or> p = Holding" "allocatePortForward PortForwardTCP b (client s) = Some (ok, c)"
    "t = goto i q (with_client c s)" "ok = established q" "ever_established q = ok" "dialing q = (\<not> ok)"
  shows "pf_inv t"
proof (cases ok)
  case True
  then have "allocatePortForward PortForwardTCP b (client s) = Some (True, c)" using assms(4) by simp
  note g = allocate_granted [OF this]
  show ?thesis
    by (rule move_inv [OF assms(1,2), of t q]) (use assms(3,5-8) g(1-3) True in \<open>auto simp: fun_eq_goto\<close>)
next
  case False
  then have "c = client s" using allocate_refused assms(4) by simp
  then show ?thesis
    by (intro move_inv [OF assms(1,2), of t q]) (use assms(3,5-8) False in \<open>auto simp: fun_eq_goto\<close>)
qed

lemma allocate_inv:
  assumes "pf_inv s" "allocate_step i b s = Some t"
  shows "pf_inv t"
proof -
  obtain ok c where "phase s i = Some Dialing" "allocatePortForward PortForwardTCP b (client s) = Some (ok, c)"
      "t = goto i (if ok then Established else Evicting) (with_client c s)"
    using assms(2) by (auto simp: allocate_step_def split: if_splits)
  then show ?thesis by (intro grant_inv [OF assms(1)]) (auto split: if_splits)
qed

lemma cond_inv:
  assumes "pf_inv s" "cond_step l s = Some t"
  shows "pf_inv t"
proof (cases l)
  case (Lock i)
  then have "phase s i = Some Locking" "t = goto i Holding (s\<lparr>cond_lock := Some i\<rparr>)"
    using assms(2) by (auto simp: cond_step_def split: if_splits)
  then show ?thesis by (intro move_inv [OF assms(1), of i Locking t Holding]) (simp_all add: fun_eq_goto)
next
  case (Retry i b)
  then obtain ok c where "phase s i = Some Holding" "allocatePortForward PortForwardTCP b (client s) = Some (ok, c)"
      "t = goto i (if ok then Allocated else Refused) (with_client c s)"
    using assms(2) by (auto simp: cond_step_def split: if_splits)
  then show ?thesis by (intro grant_inv [OF assms(1)]) (auto split: if_splits)
next
  case (Wait i)
  then have "phase s i = Some Refused" "t = goto i Waiting (s\<lparr>cond_lock := None\<rparr>)"
    using assms(2) by (auto simp: cond_step_def split: if_splits)
  then show ?thesis by (intro move_inv [OF assms(1), of i Refused t Waiting]) (simp_all add: fun_eq_goto)
next
  case (Unlock i)
  then have "phase s i = Some Allocated" "t = goto i Established (s\<lparr>cond_lock := None\<rparr>)"
    using assms(2) by (auto simp: cond_step_def split: if_splits)
  then show ?thesis by (intro move_inv [OF assms(1), of i Allocated t Established]) (simp_all add: fun_eq_goto)
qed (use assms(2) in \<open>simp_all add: cond_step_def\<close>)

lemma evict_inv:
  assumes "pf_inv s" "evict_step i s = Some t"
  shows "pf_inv t"
proof -
  have "phase s i = Some Evicting" "\<exists>l cl. t = goto i Locking (s\<lparr>lru := l, closed_conns := cl\<rparr>)"
    using assms(2) by (auto simp: evict_step_def split: if_splits prod.splits)
  then show ?thesis by (intro move_inv [OF assms(1), of i Evicting t Locking]) (auto simp: fun_eq_goto)
qed

lemma relay_inv:
  assumes "pf_inv s" "relay_step l s = Some t"
  shows "pf_inv t"
proof (cases l)
  case (Track i)
  then have "phase s i = Some Established" "t = goto i Listed (s\<lparr>lru := LRU_Add i (lru s)\<rparr>)"
    using assms(2) by (auto simp: relay_step_def split: if_splits)
  then show ?thesis by (intro move_inv [OF assms(1), of i Established t Listed]) (simp_all add: fun_eq_goto)
next
  case (Activity i)
  then have "t = s\<lparr>lru := LRU_Touch i (lru s)\<rparr>" using assms(2) by (auto simp: relay_step_def split: if_splits)
  then show ?thesis by (intro still_inv [OF assms(1), of t]) simp_all
next
  case (Finish i)
  then have "phase s i = Some Listed" "t = goto i Closing (s\<lparr>lru := LRU_Remove i (lru s)\<rparr>)"
    using assms(2) by (auto simp: relay_step_def split: if_splits)
  then show ?thesis by (intro move_inv [OF assms(1), of i Listed t Closing]) (simp_all add: fun_eq_goto)
next
  case (Close i u d)
  then have "phase s i = Some Closing" "t = goto i Signalling (with_client (closedPortForward PortForwardTCP u d (client s)) s)"
    using assms(2) by (auto simp: relay_step_def split: if_splits)
  then show ?thesis by (intro move_inv [OF assms(1), of i Closing t Signalling]) (simp_all add: fun_eq_goto)
qed (use assms(2) in \<open>simp_all add: relay_step_def\<close>)

lemma signal_inv:
  assumes "pf_inv s" "signal_step i woken s = Some t"
  shows "pf_inv t"
proof -
  have i: "phase s i = Some Signalling" using assms(2) by (auto simp: signal_step_def split: if_splits)
  have over: "pf_inv (goto i Over s)" by (rule move_inv [OF assms(1) i, of _ Over]) (simp_all add: fun_eq_goto)
  show ?thesis
  proof (cases woken)
    case None
    then have "t = goto i Over s" using assms(2) i by (simp add: signal_step_def split: if_splits)
    then show ?thesis using over by simp
  next
    case (Some j)
    then have j: "phase s j = Some Waiting" "t = goto j Locking (goto i Over s)"
      using assms(2) i by (auto simp: signal_step_def split: if_splits)
    then have "phase (goto i Over s) j = Some Waiting" using i by auto
    then show ?thesis using j by (intro move_inv [OF over, of j Waiting t Locking]) (simp_all add: fun_eq_goto)
  qed
qed

lemma do_step_inv:
  assumes "pf_inv s" "do_step l s = Some t"
  shows "pf_inv t"
proof (cases l)
  case (Tick d)
  then show ?thesis using assms by (auto intro!: still_inv [OF assms(1)] split: if_splits)
next
  case (Reload r)
  then show ?thesis using assms by (auto intro!: still_inv [OF assms(1)])
next
  case Stop
  then show ?thesis using assms by (auto intro!: still_inv [OF assms(1)] split: prod.splits)
next
  case Enqueue
  then show ?thesis using enqueue_inv assms by simp
qed (use assms(2) in \<open>simp_all add: dequeue_inv [OF assms(1)] check_inv [OF assms(1)] decide_inv [OF assms(1)]
   abort_inv [OF assms(1)] allocate_inv [OF assms(1)] evict_inv [OF assms(1)] signal_inv [OF assms(1)]
   manager_wait_inv [OF assms(1)] cond_inv [OF assms(1)] relay_inv [OF assms(1)]\<close>)

lemma how_many_start: "how_many P (start_sys r) = 0"
  by (simp add: how_many_def start_sys_def)

lemma start_inv: "pf_inv (start_sys r)"
  unfolding pf_inv_def how_many_start by (simp add: start_sys_def newSshClient_def idle_traffic_def)

lemma pf_reachable_inv: "pf_reachable ok s \<Longrightarrow> pf_inv s"
  by (induction rule: pf_reachable.induct) (simp_all add: start_inv do_step_inv)

section \<open>The limits\<close>

text \<open>The rules in force are among those given; the established count stays under a bound that all of
  them respect.\<close>

lemma step_rules:
  assumes "do_step l s = Some t" "\<And>r. l \<noteq> Reload r"
  shows "trafficRules (client t) = trafficRules (client s)"
proof -
  have g: "trafficRules c = trafficRules (client s)" if "allocatePortForward PortForwardTCP b (client s) = Some (ok, c)" for b ok c
    using that allocate_granted(4) [of b "client s" c] allocate_refused [of PortForwardTCP b "client s" c] by (cases ok) simp_all
  show ?thesis using assms
    by (cases l) (auto simp: dequeue_step_def check_step_def manager_wait_step_def decide_step_def abort_step_def
      allocate_step_def evict_step_def cond_step_def relay_step_def signal_step_def Let_def g
      split: if_splits manager.splits list.splits prod.splits option.splits)
qed

lemma step_conns:
  assumes "do_step l s = Some t"
  shows "conns (client t) \<le> conns (client s) \<or>
    (\<exists>lim. MaxTCPPortForwardCount (trafficRules (client s)) = Some lim \<and> (lim \<le> 0 \<or> conns (client s) < lim) \<and>
      conns (client t) = conns (client s) + 1)"
proof -
  have g: "conns c \<le> conns (client s) \<or> (\<exists>lim. MaxTCPPortForwardCount (trafficRules (client s)) = Some lim \<and>
      (lim \<le> 0 \<or> conns (client s) < lim) \<and> conns c = conns (client s) + 1)"
    if "allocatePortForward PortForwardTCP b (client s) = Some (ok, c)" for b ok c
    using that allocate_granted(2,7) [of b "client s" c] allocate_refused [of PortForwardTCP b "client s" c] by (cases ok) auto
  show ?thesis
  proof (cases "\<exists>i b. l = Allocate i b \<or> l = Retry i b")
    case True
    then obtain i b ok c where "allocatePortForward PortForwardTCP b (client s) = Some (ok, c)" "client t = c"
      using assms by (auto simp: allocate_step_def cond_step_def split: if_splits)
    then show ?thesis using g by blast
  next
    case False
    then have "conns (client t) \<le> conns (client s)"
      using assms by (cases l) (auto simp: dequeue_step_def check_step_def manager_wait_step_def decide_step_def abort_step_def
        evict_step_def cond_step_def relay_step_def signal_step_def Let_def
        split: if_splits manager.splits list.splits prod.splits option.splits)
    then show ?thesis by simp
  qed
qed

text \<open>All rules have a positive limit of at most the given one.\<close>

definition limits_conns :: "int \<Rightarrow> (traffic_rules \<Rightarrow> bool) \<Rightarrow> bool" where
  "limits_conns m ok \<longleftrightarrow> (\<forall>r. ok r \<longrightarrow> (\<exists>lim. MaxTCPPortForwardCount r = Some lim \<and> 0 < lim \<and> lim \<le> m))"

definition limits_dials :: "int \<Rightarrow> (traffic_rules \<Rightarrow> bool) \<Rightarrow> bool" where
  "limits_dials m ok \<longleftrightarrow> (\<forall>r. ok r \<longrightarrow> (\<exists>lim. MaxTCPDialingPortForwardCount r = Some lim \<and> 0 < lim \<and> lim \<le> m))"

lemma reachable_rules: "pf_reachable ok s \<Longrightarrow> ok (trafficRules (client s))"
proof (induction rule: pf_reachable.induct)
  case (start rules)
  then show ?case by (simp add: start_sys_def newSshClient_def)
next
  case (step s l t)
  show ?case
  proof (cases "\<exists>r. l = Reload r")
    case True
    then show ?thesis using step by auto
  next
    case False
    then have "trafficRules (client t) = trafficRules (client s)" by (intro step_rules [OF step(3)]) blast
    then show ?thesis using step by simp
  qed
qed

lemma reachable_conns:
  assumes "pf_reachable ok s" "limits_conns m ok"
  shows "conns (client s) \<le> m"
  using assms(1)
proof (induction rule: pf_reachable.induct)
  case (start rules)
  then have "0 < m" using assms(2) by (fastforce simp: limits_conns_def)
  then show ?case by (simp add: start_sys_def newSshClient_def idle_traffic_def counter_defs)
next
  case (step s l t)
  obtain lim where "MaxTCPPortForwardCount (trafficRules (client s)) = Some lim" "0 < lim" "lim \<le> m"
    using reachable_rules [OF step(1)] assms(2) by (auto simp: limits_conns_def)
  then show ?case using step_conns [OF step(3)] step(4) by auto
qed

text \<open>The dials that were dispatched: those of the client but the one the manager holds.\<close>

definition dispatched :: "pf_sys \<Rightarrow> int" where
  "dispatched s = dials (client s) - int (length (pending (manager s)))"

fun waits_below :: "int \<Rightarrow> pf_sys \<Rightarrow> manager \<Rightarrow> bool" where
  "waits_below m s (Deciding i rem) \<longleftrightarrow> (0 < rem \<longrightarrow> dispatched s + 1 < m)"
| "waits_below m s (Disarming i rem start) \<longleftrightarrow> rem \<le> now s - start \<or> dispatched s + 1 < m"
| "waits_below m s (Blocking i rem start ctx) \<longleftrightarrow> (ctx \<in> done_contexts (client s) \<longrightarrow> dispatched s + 1 < m)"
| "waits_below m s (Arming i rem start ctx) \<longleftrightarrow> ctx \<notin> done_contexts (client s) \<and> ctx < next_ctx s"
| "waits_below m s _ \<longleftrightarrow> True"

fun signal_of :: "manager \<Rightarrow> nat option \<Rightarrow> bool" where
  "signal_of (Blocking i rem start ctx) x \<longleftrightarrow> x = Some ctx"
| "signal_of (Disarming i rem start) x \<longleftrightarrow> x \<noteq> None"
| "signal_of _ x \<longleftrightarrow> x = None"

definition dial_inv :: "int \<Rightarrow> pf_sys \<Rightarrow> bool" where
  "dial_inv m s \<longleftrightarrow> dispatched s < m \<and> waits_below m s (manager s) \<and>
     signal_of (manager s) (tcpPortForwardDialingAvailableSignal (client s)) \<and>
     set_option (tcpPortForwardDialingAvailableSignal (client s)) \<union> done_contexts (client s) \<subseteq> {..<next_ctx s}"

lemma dial_frame:
  assumes "dial_inv m s" "manager t = manager s" "dials (client t) \<le> dials (client s)" "now s \<le> now t" "next_ctx t = next_ctx s"
    "tcpPortForwardDialingAvailableSignal (client t) = tcpPortForwardDialingAvailableSignal (client s)"
    "done_contexts (client t) = done_contexts (client s)"
  shows "dial_inv m t"
  using assms by (cases "manager s") (auto simp: dial_inv_def dispatched_def)

lemma dequeue_dial:
  assumes "dial_inv m s" "dequeue_step s = Some t"
  shows "dial_inv m t"
proof -
  obtain i e q timeout where m: "manager s = Idle" "queue s = (i, e) # q"
    and timeout: "getDialTCPPortForwardTimeoutMilliseconds (client s) = Some timeout"
    using assms(2) by (auto simp: dequeue_step_def split: manager.splits list.splits option.splits prod.splits)
  show ?thesis
    using assms m timeout by (cases "timeout - (now s - e) \<le> 0") (auto simp: dequeue_step_def dial_inv_def dispatched_def)
qed

lemma check_dial:
  assumes "dial_inv m s" "check_step s = Some t"
    "MaxTCPDialingPortForwardCount (trafficRules (client s)) = Some lim" "0 < lim" "lim \<le> m"
  shows "dial_inv m t"
proof -
  obtain i rem where m: "manager s = Checking i rem"
    using assms(2) by (auto simp: check_step_def split: manager.splits)
  obtain b where b: "isTCPDialingPortForwardLimitExceeded (client s) = Some b" "b = (lim \<le> dials (client s))"
    using assms(3,4) by (simp add: limit_exceeded_iff)
  show ?thesis
  proof (cases b)
    case True
    then have "t = s\<lparr>manager := Arming i rem (now s) (next_ctx s), next_ctx := next_ctx s + 1\<rparr>"
      using assms(2) m b by (simp add: check_step_def)
    then show ?thesis using assms(1) m by (auto simp: dial_inv_def dispatched_def)
  next
    case False
    then have "t = s\<lparr>manager := Deciding i rem\<rparr>" using assms(2) m b by (simp add: check_step_def)
    then show ?thesis using assms(1,5) m b(2) False by (simp add: dial_inv_def dispatched_def)
  qed
qed

lemma manager_wait_dial:
  assumes "dial_inv m s" "manager_wait_step l s = Some t" "\<not> stopped s"
  shows "dial_inv m t"
proof (cases l)
  case Arm
  then obtain i rem start ctx where "manager s = Arming i rem start ctx"
      "t = with_client (setTCPPortForwardDialingAvailableSignal (Some ctx) (client s)) (s\<lparr>manager := Blocking i rem start ctx\<rparr>)"
    using assms(2) by (auto simp: manager_wait_step_def split: manager.splits)
  then show ?thesis using assms(1) by (simp add: dial_inv_def dispatched_def)
next
  case Unblock
  then obtain i rem start ctx where "manager s = Blocking i rem start ctx" "ctx_done ctx start rem s" "t = s\<lparr>manager := Disarming i rem start\<rparr>"
    using assms(2) by (auto simp: manager_wait_step_def split: manager.splits if_splits)
  then show ?thesis using assms(1,3) by (auto simp: dial_inv_def dispatched_def ctx_done_def)
next
  case Disarm
  then obtain i rem start where "manager s = Disarming i rem start"
      "t = with_client (setTCPPortForwardDialingAvailableSignal None (client s)) (s\<lparr>manager := Deciding i (rem - (now s - start))\<rparr>)"
    using assms(2) by (auto simp: manager_wait_step_def split: manager.splits)
  then show ?thesis using assms(1) by (auto simp: dial_inv_def dispatched_def)
qed (use assms(2) in \<open>simp_all add: manager_wait_step_def\<close>)

lemma decide_dial:
  assumes "dial_inv m s" "decide_step s = Some t"
  shows "dial_inv m t"
proof -
  obtain i rem where m: "manager s = Deciding i rem"
    using assms(2) by (auto simp: decide_step_def split: manager.splits)
  show ?thesis
    using assms m by (cases "rem \<le> 0") (auto simp: decide_step_def dial_inv_def dispatched_def)
qed

lemma granted_dial:
  assumes "dial_inv m s" "allocatePortForward PortForwardTCP b (client s) = Some (ok, c)"
    "MaxTCPDialingPortForwardCount (trafficRules (client s)) = Some lim" "0 < lim" "lim \<le> m"
    "client t = c" "manager t = manager s" "now t = now s" "next_ctx t = next_ctx s"
  shows "dial_inv m t"
proof (cases ok)
  case False
  then have "c = client s" using allocate_refused assms(2) by simp
  then show ?thesis using assms(6-9) by (intro dial_frame [OF assms(1)]) simp_all
next
  case True
  then have "allocatePortForward PortForwardTCP b (client s) = Some (True, c)" using assms(2) by simp
  note g = allocate_granted [OF this]
  show ?thesis
  proof (cases "done_contexts c = done_contexts (client s)")
    case True
    then show ?thesis using assms(6-9) g by (intro dial_frame [OF assms(1)]) simp_all
  next
    case False
    then obtain x where x: "tcpPortForwardDialingAvailableSignal (client s) = Some x" "dials c < lim"
        "done_contexts c = insert x (done_contexts (client s))" using g(6) assms(3,4) by auto
    then have sig: "signal_of (manager s) (Some x)" "x < next_ctx s" using assms(1) by (simp_all add: dial_inv_def)
    show ?thesis using sig(1)
    proof (cases "manager s")
      case (Blocking i rem start ctx)
      then show ?thesis using assms x g sig by (auto simp: dial_inv_def dispatched_def)
    next
      case (Disarming i rem start)
      then show ?thesis using assms x g sig by (auto simp: dial_inv_def dispatched_def)
    qed simp_all
  qed
qed

lemma dial_step:
  assumes "dial_inv m s" "do_step l s = Some t" "\<not> stopped t"
    "MaxTCPDialingPortForwardCount (trafficRules (client s)) = Some lim" "0 < lim" "lim \<le> m"
  shows "dial_inv m t"
proof (cases l)
  case Dequeue
  then show ?thesis using assms(2) dequeue_dial [OF assms(1)] by simp
next
  case Check
  then show ?thesis using assms(2) check_dial [OF assms(1) _ assms(4-6)] by simp
next
  case Arm
  then have "manager_wait_step l s = Some t" using assms(2) by simp
  moreover from this have "\<not> stopped s"
    using assms(3) Arm by (auto simp: manager_wait_step_def split: manager.splits)
  ultimately show ?thesis using manager_wait_dial [OF assms(1)] by simp
next
  case Unblock
  then have "manager_wait_step l s = Some t" using assms(2) by simp
  moreover from this have "\<not> stopped s"
    using assms(3) Unblock by (auto simp: manager_wait_step_def split: manager.splits if_splits)
  ultimately show ?thesis using manager_wait_dial [OF assms(1)] by simp
next
  case Disarm
  then have "manager_wait_step l s = Some t" using assms(2) by simp
  moreover from this have "\<not> stopped s"
    using assms(3) Disarm by (auto simp: manager_wait_step_def split: manager.splits)
  ultimately show ?thesis using manager_wait_dial [OF assms(1)] by simp
next
  case Decide
  then show ?thesis using assms(2) decide_dial [OF assms(1)] by simp
next
  case (Allocate i b)
  then obtain ok c where "allocatePortForward PortForwardTCP b (client s) = Some (ok, c)" "client t = c"
      "manager t = manager s" "now t = now s" "next_ctx t = next_ctx s"
    using assms(2) by (auto simp: allocate_step_def split: if_splits)
  then show ?thesis by (rule granted_dial [OF assms(1) _ assms(4-6)])
next
  case (Retry i b)
  then obtain ok c where "allocatePortForward PortForwardTCP b (client s) = Some (ok, c)" "client t = c"
      "manager t = manager s" "now t = now s" "next_ctx t = next_ctx s"
    using assms(2) by (auto simp: cond_step_def split: if_splits)
  then show ?thesis by (rule granted_dial [OF assms(1) _ assms(4-6)])
qed (use assms(2,3) in \<open>auto intro!: dial_frame [OF assms(1)] simp: abort_step_def evict_step_def cond_step_def relay_step_def
   signal_step_def split: if_splits prod.splits option.splits\<close>)

lemma reachable_dials:
  assumes "pf_reachable ok s" "limits_dials m ok"
  shows "stopped s \<or> dial_inv m s"
  using assms(1)
proof (induction rule: pf_reachable.induct)
  case (start rules)
  then have "0 < m" using assms(2) by (fastforce simp: limits_dials_def)
  then show ?case
    by (simp add: dial_inv_def dispatched_def start_sys_def newSshClient_def idle_traffic_def counter_defs)
next
  case (step s l t)
  obtain lim where "MaxTCPDialingPortForwardCount (trafficRules (client s)) = Some lim" "0 < lim" "lim \<le> m"
    using reachable_rules [OF step(1)] assms(2) by (auto simp: limits_dials_def)
  moreover have "stopped s \<Longrightarrow> stopped t"
    using step(3) by (cases l) (auto simp: dequeue_step_def check_step_def manager_wait_step_def decide_step_def abort_step_def
      allocate_step_def evict_step_def cond_step_def relay_step_def signal_step_def Let_def
      split: if_splits manager.splits list.splits prod.splits option.splits)
  ultimately show ?case using step(4) dial_step [OF _ step(3)] by blast
qed

section \<open>Runs\<close>

fun run :: "label list \<Rightarrow> pf_sys \<Rightarrow> pf_sys option" where
  "run [] s = Some s"
| "run (l # ls) s = Option.bind (do_step l s) (run ls)"

lemma pf_run_reachable:
  assumes "pf_reachable ok s" "list_all (admitted ok) ls" "run ls s = Some t"
  shows "pf_reachable ok t"
  using assms
proof (induction ls arbitrary: s)
  case (Cons l ls)
  then obtain u where "do_step l s = Some u" "run ls u = Some t" by (auto simp: bind_eq_Some_conv)
  then show ?case using Cons.IH [OF pf_reachable.step [OF Cons.prems(1), of l u]] Cons.prems(2) by simp
qed simp

lemma run_from_start:
  assumes "ok rules" "list_all (admitted ok) ls" "run ls (start_sys rules) = Some s"
  shows "pf_reachable ok s"
  using pf_run_reachable [OF pf_reachable.start [of ok, OF assms(1)] assms(2,3)] .

lemma run_stays:
  assumes "run ls s = Some t" "I s" "\<And>l s t. l \<in> set ls \<Longrightarrow> I s \<Longrightarrow> do_step l s = Some t \<Longrightarrow> I t"
  shows "I t"
  using assms
proof (induction ls arbitrary: s)
  case (Cons l ls)
  then obtain u where u: "do_step l s = Some u" "run ls u = Some t" by (auto simp: bind_eq_Some_conv)
  show ?case by (rule Cons.IH [OF u(2)]) (use Cons.prems u in auto)
qed simp

definition sample_rules :: "int \<Rightarrow> int \<Rightarrow> traffic_rules" where
  "sample_rules dial conn = no_rules\<lparr>DialTCPPortForwardTimeoutMilliseconds := Some 1000,
     MaxTCPDialingPortForwardCount := Some dial, MaxTCPPortForwardCount := Some conn\<rparr>"

text \<open>Two port forwards, the second of which replaces the first.\<close>

definition replacing :: "label list" where
  "replacing = [Enqueue, Dequeue, Check, Decide, Allocate 0 True, Track 0, Enqueue, Dequeue, Check, Decide,
     Allocate 1 False, Evict 1, Lock 1, Retry 1 False]"

text \<open>
  C22: The counters are exact in every state that concurrent port forwards, reloads and a stop can
  reach: the dialing count is the number of forwards between their dispatch and their establishment
  and of the one the manager holds, the established count is the number of forwards between their
  allocation and their closing, and the total counts each establishment once.
\<close>

theorem counters_exact:
  assumes "pf_reachable ok s"
  shows "dials (client s) = int (how_many dialing s) + int (length (pending (manager s)))
    \<and> conns (client s) = int (how_many established s) \<and> total (client s) = int (how_many ever_established s)"
  using pf_reachable_inv [OF assms] by (simp add: pf_inv_split counts_ok_def)

lemma replacing_runs:
  "map_option (\<lambda>s. (dials (client s), conns (client s), total (client s), phase s 0, phase s 1, manager s, stopped s))
     (run replacing (start_sys (sample_rules 3 1))) = Some (1, 1, 1, Some Listed, Some Refused, Idle, False)"
  by code_simp

theorem counters_exact_witness:
  "\<exists>s. run replacing (start_sys (sample_rules 3 1)) = Some s \<and> phase s 1 = Some Refused \<and>
    how_many dialing s = 1 \<and> how_many established s = 1 \<and> how_many ever_established s = 1"
proof -
  obtain s where s: "run replacing (start_sys (sample_rules 3 1)) = Some s"
    "dials (client s) = 1" "conns (client s) = 1" "total (client s) = 1" "manager s = Idle" "phase s 1 = Some Refused"
    using replacing_runs by auto
  have "pf_reachable (\<lambda>r. r = sample_rules 3 1) s"
    by (rule run_from_start [OF _ _ s(1)]) (simp_all add: replacing_def)
  from counters_exact [OF this] s show ?thesis by simp
qed

text \<open>
  C23: However many port forwards are established at the same time and however the rules are reloaded,
  the number of established ones never exceeds the limit, when all rules in force have a positive
  limit of at most \<open>m\<close>: a forward takes its slot in the same critical section that checks the limit.
\<close>

theorem established_within_limit:
  assumes "pf_reachable ok s" "limits_conns m ok"
  shows "int (how_many established s) \<le> m"
  using reachable_conns [OF assms] pf_reachable_inv [OF assms(1)] by (simp add: pf_inv_split counts_ok_def)

theorem established_within_limit_witness:
  "\<exists>s. run replacing (start_sys (sample_rules 3 1)) = Some s \<and> how_many established s \<le> 1 \<and> phase s 1 = Some Refused"
proof -
  obtain s where s: "run replacing (start_sys (sample_rules 3 1)) = Some s" "phase s 1 = Some Refused"
    using replacing_runs by auto
  have "pf_reachable (\<lambda>r. r = sample_rules 3 1) s"
    by (rule run_from_start [OF _ _ s(1)]) (simp_all add: replacing_def)
  moreover have "limits_conns 1 (\<lambda>r. r = sample_rules 3 1)" by (simp add: limits_conns_def sample_rules_def)
  ultimately have "int (how_many established s) \<le> 1" by (rule established_within_limit)
  then show ?thesis using s by auto
qed

text \<open>
  While the client runs, fewer forwards are dialing than the dialing limit allows: the manager
  counts the forward it holds before it compares the count with the limit, so that a limit of \<open>m\<close>
  lets \<open>m - 1\<close> forwards dial, and a limit of 1 lets none.
\<close>

lemma dials_below_limit:
  assumes "pf_reachable ok s" "limits_dials m ok" "\<not> stopped s"
  shows "int (how_many dialing s) < m"
  using reachable_dials [OF assms(1,2)] assms(3) pf_reachable_inv [OF assms(1)]
  by (simp add: pf_inv_split counts_ok_def dial_inv_def dispatched_def)

section \<open>Signals that are lost\<close>

text \<open>A goroutine that waits in every continuation without a new port forward, the stop of the client
  included.\<close>

definition waits_for_ever :: "pf_sys \<Rightarrow> nat \<Rightarrow> bool" where
  "waits_for_ever s i \<longleftrightarrow> (\<forall>ls t. Enqueue \<notin> set ls \<longrightarrow> run ls s = Some t \<longrightarrow> phase t i = Some Waiting)"

text \<open>A request of the manager that no continuation without a stop dispatches.\<close>

definition never_dispatched :: "pf_sys \<Rightarrow> nat \<Rightarrow> bool" where
  "never_dispatched s i \<longleftrightarrow> (\<forall>ls t. Stop \<notin> set ls \<longrightarrow> run ls s = Some t \<longrightarrow> phase t i \<in> {Some Queued, Some Rejected})"

definition only_waiting :: "nat \<Rightarrow> pf_sys \<Rightarrow> bool" where
  "only_waiting i s \<longleftrightarrow> manager s = Idle \<and> queue s = [] \<and> phase s i = Some Waiting \<and>
     (\<forall>j. j \<noteq> i \<longrightarrow> phase s j \<in> {None, Some Over, Some Rejected})"

lemma only_waiting_step:
  assumes "only_waiting i s" "do_step l s = Some t" "l \<noteq> Enqueue"
  shows "only_waiting i t"
proof -
  have p: "phase s j \<in> {None, Some Over, Some Rejected, Some Waiting}" for j
    using assms(1) by (cases "j = i") (auto simp: only_waiting_def)
  have "phase t = phase s \<and> manager t = manager s \<and> queue t = queue s"
  proof (cases l)
    case (Signal j w)
    then show ?thesis using assms(2) p [of j] by (auto simp: signal_step_def split: if_splits)
  next
    case (Allocate j b)
    then show ?thesis using assms(2) p [of j] by (auto simp: allocate_step_def split: if_splits)
  next
    case (Abort j)
    then show ?thesis using assms(2) p [of j] by (auto simp: abort_step_def split: if_splits)
  next
    case (Evict j)
    then show ?thesis using assms(2) p [of j] by (auto simp: evict_step_def split: if_splits)
  next
    case (Lock j)
    then show ?thesis using assms(2) p [of j] by (auto simp: cond_step_def split: if_splits)
  next
    case (Retry j b)
    then show ?thesis using assms(2) p [of j] by (auto simp: cond_step_def split: if_splits)
  next
    case (Wait j)
    then show ?thesis using assms(2) p [of j] by (auto simp: cond_step_def split: if_splits)
  next
    case (Unlock j)
    then show ?thesis using assms(2) p [of j] by (auto simp: cond_step_def split: if_splits)
  next
    case (Track j)
    then show ?thesis using assms(2) p [of j] by (auto simp: relay_step_def split: if_splits)
  next
    case (Activity j)
    then show ?thesis using assms(2) p [of j] by (auto simp: relay_step_def split: if_splits)
  next
    case (Finish j)
    then show ?thesis using assms(2) p [of j] by (auto simp: relay_step_def split: if_splits)
  next
    case (Close j u d)
    then show ?thesis using assms(2) p [of j] by (auto simp: relay_step_def split: if_splits)
  qed (use assms in \<open>auto simp: only_waiting_def dequeue_step_def check_step_def decide_step_def manager_wait_step_def
     split: if_splits prod.splits\<close>)
  then show ?thesis using assms(1) by (simp add: only_waiting_def)
qed

lemma only_waiting_for_ever: "only_waiting i s \<Longrightarrow> waits_for_ever s i"
  unfolding waits_for_ever_def
proof (intro allI impI)
  fix ls t assume "only_waiting i s" "Enqueue \<notin> set ls" "run ls s = Some t"
  then have "only_waiting i t" using run_stays [of ls s t "only_waiting i"] only_waiting_step by (metis (no_types, lifting))
  then show "phase t i = Some Waiting" by (simp add: only_waiting_def)
qed

text \<open>The first forward closes and signals after the second failed to allocate and before it waits.\<close>

definition losing :: "label list" where
  "losing = replacing @ [Finish 0, Close 0 10 20, Signal 0 None, Wait 1]"

lemma losing_runs:
  "map_option (\<lambda>s. (conns (client s), manager s, queue s, phase s 0, phase s 1, next_forward s,
       MaxTCPPortForwardCount (trafficRules (client s))))
     (run losing (start_sys (sample_rules 3 1))) = Some (0, Idle, [], Some Over, Some Waiting, 2, Some 1)"
  by code_simp


text \<open>Nothing dials, and the manager waits for a signal that only an allocation can give.\<close>

fun expires :: "nat \<Rightarrow> pf_sys \<Rightarrow> manager \<Rightarrow> bool" where
  "expires i s (Blocking j rem start ctx) \<longleftrightarrow> j = i \<and> ctx \<notin> done_contexts (client s)"
| "expires i s (Disarming j rem start) \<longleftrightarrow> j = i \<and> rem \<le> now s - start"
| "expires i s (Deciding j rem) \<longleftrightarrow> j = i \<and> rem \<le> 0"
| "expires i s _ \<longleftrightarrow> False"

definition quiet_phases :: "(nat \<Rightarrow> pf_phase option) \<Rightarrow> bool" where
  "quiet_phases f \<longleftrightarrow> (\<forall>j. f j \<in> {None, Some Queued, Some Rejected})"

lemma quiet_phases_upd [simp]: "quiet_phases f \<Longrightarrow> q = Queued \<or> q = Rejected \<Longrightarrow> quiet_phases (f(i \<mapsto> q))"
  by (auto simp: quiet_phases_def)

definition held_back :: "nat \<Rightarrow> pf_sys \<Rightarrow> bool" where
  "held_back i s \<longleftrightarrow> expires i s (manager s) \<and> \<not> stopped s \<and> phase s i = Some Queued \<and> i < next_forward s \<and>
     i \<notin> fst ` set (queue s) \<and> quiet_phases (phase s)"

definition turned_away :: "nat \<Rightarrow> pf_sys \<Rightarrow> bool" where
  "turned_away i s \<longleftrightarrow> phase s i = Some Rejected \<and> i < next_forward s \<and> i \<notin> fst ` set (queue s) \<and> i \<notin> set (pending (manager s))"

lemma held_back_step:
  assumes "held_back i s" "do_step l s = Some t" "l \<noteq> Stop"
  shows "held_back i t \<or> turned_away i t"
proof -
  have p: "phase s j \<in> {None, Some Queued, Some Rejected}" for j
    using assms(1) unfolding held_back_def quiet_phases_def by blast
  show ?thesis
  proof (cases l)
    case (Tick d)
    then show ?thesis using assms by (cases "manager s") (auto simp: held_back_def split: if_splits)
  next
    case (Reload r)
    then show ?thesis using assms by (cases "manager s") (auto simp: held_back_def)
  next
    case Enqueue
    then show ?thesis using assms by (cases "manager s") (auto simp: held_back_def fun_eq_goto split: if_splits)
  next
    case Unblock
    then show ?thesis using assms
      by (cases "manager s") (auto simp: held_back_def manager_wait_step_def ctx_done_def split: if_splits)
  next
    case Disarm
    then show ?thesis using assms by (cases "manager s") (auto simp: held_back_def manager_wait_step_def)
  next
    case Decide
    then show ?thesis using assms by (cases "manager s") (auto simp: held_back_def turned_away_def decide_step_def)
  next
    case (Signal j w)
    then show ?thesis using assms(2) p [of j] by (auto simp: signal_step_def split: if_splits)
  next
    case (Allocate j b)
    then show ?thesis using assms(2) p [of j] by (auto simp: allocate_step_def split: if_splits)
  next
    case (Abort j)
    then show ?thesis using assms(2) p [of j] by (auto simp: abort_step_def split: if_splits)
  next
    case (Evict j)
    then show ?thesis using assms(2) p [of j] by (auto simp: evict_step_def split: if_splits)
  next
    case (Lock j)
    then show ?thesis using assms(2) p [of j] by (auto simp: cond_step_def split: if_splits)
  next
    case (Retry j b)
    then show ?thesis using assms(2) p [of j] by (auto simp: cond_step_def split: if_splits)
  next
    case (Wait j)
    then show ?thesis using assms(2) p [of j] by (auto simp: cond_step_def split: if_splits)
  next
    case (Unlock j)
    then show ?thesis using assms(2) p [of j] by (auto simp: cond_step_def split: if_splits)
  next
    case (Track j)
    then show ?thesis using assms(2) p [of j] by (auto simp: relay_step_def split: if_splits)
  next
    case (Activity j)
    then show ?thesis using assms(2) p [of j] by (auto simp: relay_step_def split: if_splits)
  next
    case (Finish j)
    then show ?thesis using assms(2) p [of j] by (auto simp: relay_step_def split: if_splits)
  next
    case (Close j u d)
    then show ?thesis using assms(2) p [of j] by (auto simp: relay_step_def split: if_splits)
  next
    case Dequeue
    then show ?thesis using assms(1,2) by (cases "manager s") (simp_all add: held_back_def dequeue_step_def)
  next
    case Check
    then show ?thesis using assms(1,2) by (cases "manager s") (simp_all add: held_back_def check_step_def)
  next
    case Arm
    then show ?thesis using assms(1,2) by (cases "manager s") (simp_all add: held_back_def manager_wait_step_def)
  qed (use assms(3) in simp)
qed

lemma turned_away_step:
  assumes "turned_away i s" "do_step l s = Some t"
  shows "turned_away i t"
proof -
  have i: "phase s i = Some Rejected" "i < next_forward s" "i \<notin> fst ` set (queue s)" "i \<notin> set (pending (manager s))"
    using assms(1) by (simp_all add: turned_away_def)
  have "phase t i = Some Rejected \<and> next_forward s \<le> next_forward t \<and>
      set (pending (manager t)) \<union> fst ` set (queue t) \<subseteq> set (pending (manager s)) \<union> fst ` set (queue s) \<union> {next_forward s}"
    using assms(2) i
    by (cases l) (auto simp: dequeue_step_def check_step_def manager_wait_step_def decide_step_def abort_step_def
      allocate_step_def evict_step_def cond_step_def relay_step_def signal_step_def Let_def
      split: if_splits manager.splits list.splits prod.splits option.splits)
  then show ?thesis using i unfolding turned_away_def by auto
qed

lemma held_back_never_dispatched:
  assumes "held_back i s"
  shows "never_dispatched s i"
  unfolding never_dispatched_def
proof (intro allI impI)
  fix ls t assume ls: "Stop \<notin> set ls" "run ls s = Some t"
  have "held_back i t \<or> turned_away i t"
  proof (rule run_stays [OF ls(2), of "\<lambda>s. held_back i s \<or> turned_away i s"])
    show "held_back i s \<or> turned_away i s" using assms by simp
    fix l u v assume "l \<in> set ls" "held_back i u \<or> turned_away i u" "do_step l u = Some v"
    moreover have "l \<noteq> Stop" using \<open>l \<in> set ls\<close> ls(1) by blast
    ultimately show "held_back i v \<or> turned_away i v" using held_back_step turned_away_step by blast
  qed
  then show "phase t i \<in> {Some Queued, Some Rejected}" by (auto simp: held_back_def turned_away_def)
qed

text \<open>Two requests at a dialing limit of two, the first of which fails to dial.\<close>

definition failing :: "label list" where
  "failing = [Enqueue, Enqueue, Dequeue, Check, Decide, Dequeue, Check, Arm, Abort 0]"

lemma failing_runs:
  "map_option (\<lambda>s. (manager s, queue s, phase s 0, phase s 1, next_forward s, stopped s,
       isTCPDialingPortForwardLimitExceeded (client s), tcpPortForwardDialingAvailableSignal (client s)))
     (run failing (start_sys (sample_rules 2 1)))
   = Some (Blocking 1 1000 0 0, [], Some Rejected, Some Queued, 2, False, Some False, Some 0)"
  by code_simp

lemma failing_no_contexts:
  "map_option (\<lambda>s. 0 \<in> done_contexts (client s)) (run failing (start_sys (sample_rules 2 1))) = Some False"
  by code_simp

text \<open>
  A dial that fails frees its slot without the signal that the manager waits for: with no dial in
  progress and the count below the limit, the manager goes on waiting, and its request is never
  dispatched but rejected when its dial timeout has passed.
\<close>

lemma aborted_dial_not_signalled:
  "\<exists>s. pf_reachable (\<lambda>r. r = sample_rules 2 1) s \<and> manager s = Blocking 1 1000 0 0 \<and> how_many dialing s = 0 \<and>
     isTCPDialingPortForwardLimitExceeded (client s) = Some False \<and> never_dispatched s 1"
proof -
  obtain s where s: "run failing (start_sys (sample_rules 2 1)) = Some s" "manager s = Blocking 1 1000 0 0" "queue s = []"
      "phase s 0 = Some Rejected" "phase s 1 = Some Queued" "next_forward s = 2" "\<not> stopped s"
      "isTCPDialingPortForwardLimitExceeded (client s) = Some False"
    using failing_runs by auto
  have d: "0 \<notin> done_contexts (client s)" using failing_no_contexts s(1) by simp
  have r: "pf_reachable (\<lambda>r. r = sample_rules 2 1) s"
    by (rule run_from_start [OF _ _ s(1)]) (simp_all add: failing_def)
  have n: "phase s j = None" if "2 \<le> j" for j using pf_reachable_inv [OF r] s(6) that by (simp add: pf_inv_def)
  have p: "phase s j \<in> {None, Some Queued, Some Rejected}" for j
  proof -
    have "j = 0 \<or> j = 1 \<or> 2 \<le> j" by linarith
    then show ?thesis using n s(4,5) by auto
  qed
  have "\<not> (phase s j = Some q \<and> dialing q)" for j q using p [of j] by auto
  then have none: "{j. \<exists>q. phase s j = Some q \<and> dialing q} = {}" by blast
  have "how_many dialing s = 0" unfolding how_many_def none by simp
  moreover have "quiet_phases (phase s)" unfolding quiet_phases_def using p by blast
  then have "held_back 1 s" using s d by (simp add: held_back_def)
  ultimately show ?thesis using r s held_back_never_dispatched by blast
qed

end
