(* ===== verification/Bytes.thy ===== *)
theory Bytes
  imports Prelude
begin

text \<open>
  Byte buffers, as the network code uses them: slices of a buffer, \<open>copy\<close> into a buffer, and the
  16-bit integers of \<open>encoding/binary\<close> in both byte orders.
\<close>

definition slice_of :: "bytes \<Rightarrow> nat \<Rightarrow> nat \<Rightarrow> bytes" where
  "slice_of buffer a b = take (b - a) (drop a buffer)"

text \<open>\<open>binary.LittleEndian\<close> and \<open>binary.BigEndian\<close> of 16 bits, and \<open>copy\<close> into a buffer\<close>

definition le16 :: "16 word \<Rightarrow> bytes" where
  "le16 w = [ucast w, ucast (drop_bit 8 w)]"

definition be16 :: "16 word \<Rightarrow> bytes" where
  "be16 w = [ucast (drop_bit 8 w), ucast w]"

fun of_le16 :: "bytes \<Rightarrow> 16 word" where
  "of_le16 (a # b # _) = ucast a OR push_bit 8 (ucast b)"
| "of_le16 _ = 0"

fun of_be16 :: "bytes \<Rightarrow> 16 word" where
  "of_be16 (a # b # _) = push_bit 8 (ucast a) OR ucast b"
| "of_be16 _ = 0"

definition put :: "nat \<Rightarrow> bytes \<Rightarrow> bytes \<Rightarrow> bytes" where
  "put at xs buffer = take at buffer @ xs @ drop (at + length xs) buffer"

lemma le16_length [simp]: "length (le16 w) = 2" "length (be16 w) = 2"
  by (simp_all add: le16_def be16_def)

lemma word16_parts: "(ucast (ucast w :: byte) :: 16 word) OR push_bit 8 (ucast (ucast (drop_bit 8 w) :: byte)) = w"
  by (rule bit_word_eqI) (auto simp: bit_simps)

lemma of_le16_le16 [simp]: "of_le16 (le16 w @ xs) = w" "of_le16 (le16 w) = w"
  by (simp_all add: le16_def word16_parts)

lemma of_be16_be16 [simp]: "of_be16 (be16 w @ xs) = w" "of_be16 (be16 w) = w"
  by (simp_all add: be16_def word16_parts or.commute)

lemma slice_mid: "length xs = a \<Longrightarrow> a + length ys = b \<Longrightarrow> slice_of (xs @ ys @ zs) a b = ys"
  by (auto simp: slice_of_def)

lemma put_mid: "length a = at \<Longrightarrow> length xs = length b \<Longrightarrow> put at xs (a @ b @ c) = a @ xs @ c"
  by (simp add: put_def)

lemma put_length: "at + length xs \<le> length buffer \<Longrightarrow> length (put at xs buffer) = length buffer"
  by (simp add: put_def)

lemma be16_of_be16: "length xs = 2 \<Longrightarrow> be16 (of_be16 xs) = xs"
proof -
  assume "length xs = 2"
  then obtain a b where "xs = [a, b]" by (metis (no_types) length_0_conv length_Suc_conv numeral_2_eq_2)
  moreover have "ucast (drop_bit 8 (push_bit 8 (ucast a) OR ucast b :: 16 word)) = (a :: byte)"
    by (rule bit_word_eqI) (auto simp: bit_simps dest: bit_imp_le_length)
  moreover have "ucast (push_bit 8 (ucast a) OR ucast b :: 16 word) = (b :: byte)"
    by (rule bit_word_eqI) (auto simp: bit_simps)
  ultimately show ?thesis by (simp add: be16_def)
qed

end
