(* ===== verification/TrafficRulesFacts.thy ===== *)
theory TrafficRulesFacts
  imports TrafficRules
begin

text \<open>
  What holds of the traffic rules: loaded rules are complete and well formed, so that using them
  never panics; filters decide what their lists say, whatever the lookups; the first accepting
  filter decides; and the priorities of a port forward's decision.
\<close>

section \<open>Loaded rules are complete\<close>

definition given_nonneg :: "int option \<Rightarrow> bool" where
  "given_nonneg p \<longleftrightarrow> (\<exists>v. p = Some v \<and> 0 \<le> v)"

definition limits_complete :: "rate_limits \<Rightarrow> bool" where
  "limits_complete r \<longleftrightarrow> given_nonneg (ReadUnthrottledBytes r) \<and> given_nonneg (ReadBytesPerSecond r) \<and>
     given_nonneg (WriteUnthrottledBytes r) \<and> given_nonneg (WriteBytesPerSecond r) \<and> CloseAfterExhausted r \<noteq> None \<and>
     given_nonneg (EstablishmentReadBytesPerSecond r) \<and> given_nonneg (EstablishmentWriteBytesPerSecond r) \<and>
     UnthrottleFirstTunnelOnly r \<noteq> None"

definition parses :: "(string \<Rightarrow> ip_net option) \<Rightarrow> string list option \<Rightarrow> bool" where
  "parses ParseCIDR p \<longleftrightarrow> (\<forall>s\<in>set (slice p). ParseCIDR s \<noteq> None)"

definition rules_complete :: "(string \<Rightarrow> ip_net option) \<Rightarrow> traffic_rules \<Rightarrow> bool" where
  "rules_complete ParseCIDR r \<longleftrightarrow> limits_complete (RateLimits r) \<and>
     given_nonneg (DialTCPPortForwardTimeoutMilliseconds r) \<and> given_nonneg (IdleTCPPortForwardTimeoutMilliseconds r) \<and>
     given_nonneg (IdleUDPPortForwardTimeoutMilliseconds r) \<and> given_nonneg (MaxTCPDialingPortForwardCount r) \<and>
     given_nonneg (MaxTCPPortForwardCount r) \<and> given_nonneg (MaxUDPPortForwardCount r) \<and>
     AllowSubnets r \<noteq> None \<and> AllowASNs r \<noteq> None \<and> DisallowSubnets r \<noteq> None \<and> DisallowASNs r \<noteq> None \<and>
     DisableDiscovery r \<noteq> None \<and> parses ParseCIDR (AllowSubnets r) \<and> parses ParseCIDR (DisallowSubnets r)"

text \<open>What a rules file may leave out: a value that is given is not negative.\<close>

definition rules_valid :: "(string \<Rightarrow> ip_net option) \<Rightarrow> traffic_rules \<Rightarrow> bool" where
  "rules_valid ParseCIDR r \<longleftrightarrow> validateTrafficRules ParseCIDR r = Inr ()"

lemma check_subnets_ok: "check_subnets ParseCIDR ss = Inr () \<longleftrightarrow> (\<forall>s\<in>set ss. ParseCIDR s \<noteq> None)"
  by (induction ss) auto

lemma validate_filtered_ok:
  "validate_filtered ParseCIDR rs = Inr () \<Longrightarrow> r \<in> set rs \<Longrightarrow> rules_valid ParseCIDR (Rules r)"
  by (induction rs) (auto simp: rules_valid_def)

lemma Validate_ok:
  "Validate ParseCIDR ruleSet = Inr () \<Longrightarrow> rules_valid ParseCIDR (DefaultRules ruleSet) \<and>
    (\<forall>r\<in>set (FilteredRules ruleSet). rules_valid ParseCIDR (Rules r))"
  using validate_filtered_ok by (auto simp: Validate_def Let_def rules_valid_def split: if_splits)

lemma or_default_given: "\<not> negative p \<Longrightarrow> 0 \<le> d \<Longrightarrow> given_nonneg (or_default p d)"
  by (cases p) (auto simp: negative_def or_default_def given_nonneg_def)

lemma override_given: "\<not> negative n \<Longrightarrow> given_nonneg p \<Longrightarrow> given_nonneg (override n p)"
  by (cases n) (auto simp: negative_def override_def given_nonneg_def)

lemma or_default_not_None: "or_default p d \<noteq> None"
  by (cases p) (auto simp: or_default_def)

lemma override_not_None: "p \<noteq> None \<Longrightarrow> override n p \<noteq> None"
  by (simp add: override_def)

lemma override_parses: "parses ParseCIDR n \<Longrightarrow> parses ParseCIDR p \<Longrightarrow> parses ParseCIDR (override n p)"
  by (simp add: override_def)

lemma or_default_parses: "parses ParseCIDR p \<Longrightarrow> parses ParseCIDR (or_default p [])"
  by (cases p) (auto simp: or_default_def parses_def slice_def)

lemma rules_valid_parts:
  assumes "rules_valid ParseCIDR r"
  shows "\<not> negative (ReadUnthrottledBytes (RateLimits r))" "\<not> negative (ReadBytesPerSecond (RateLimits r))"
    "\<not> negative (WriteUnthrottledBytes (RateLimits r))" "\<not> negative (WriteBytesPerSecond (RateLimits r))"
    "\<not> negative (EstablishmentReadBytesPerSecond (RateLimits r))"
    "\<not> negative (EstablishmentWriteBytesPerSecond (RateLimits r))"
    "\<not> negative (DialTCPPortForwardTimeoutMilliseconds r)" "\<not> negative (IdleTCPPortForwardTimeoutMilliseconds r)"
    "\<not> negative (IdleUDPPortForwardTimeoutMilliseconds r)" "\<not> negative (MaxTCPDialingPortForwardCount r)"
    "\<not> negative (MaxTCPPortForwardCount r)" "\<not> negative (MaxUDPPortForwardCount r)"
    "parses ParseCIDR (AllowSubnets r)" "parses ParseCIDR (DisallowSubnets r)"
  using assms
  by (auto simp: rules_valid_def validateTrafficRules_def check_subnets_ok parses_def split: if_splits)

lemma init_valid [simp]: "rules_valid ParseCIDR (initTrafficRulesLookups r) = rules_valid ParseCIDR r"
  by (simp add: rules_valid_def validateTrafficRules_def initTrafficRulesLookups_def)

lemma populate_complete:
  assumes "rules_valid ParseCIDR r"
  shows "rules_complete ParseCIDR (populate_defaults r)"
proof -
  note v = rules_valid_parts [OF assms]
  show ?thesis unfolding rules_complete_def limits_complete_def populate_defaults_def populate_limits_def
    using v by (simp add: or_default_given or_default_not_None or_default_parses del: not_None_eq)
qed

lemma override_complete:
  assumes "rules_valid ParseCIDR n" "rules_complete ParseCIDR r"
  shows "rules_complete ParseCIDR (override_rules n r)"
proof -
  note v = rules_valid_parts [OF assms(1)]
  show ?thesis using assms(2) v
    unfolding rules_complete_def limits_complete_def override_rules_def override_limits_def
    by (simp add: override_given override_not_None override_parses del: not_None_eq)
qed

lemma first_match_in: "first_match m rs = Some n \<Longrightarrow> \<exists>r\<in>set rs. n = Rules r"
  by (induction rs) (auto split: if_splits)

definition set_valid :: "(string \<Rightarrow> ip_net option) \<Rightarrow> traffic_rules_set \<Rightarrow> bool" where
  "set_valid ParseCIDR ruleSet \<longleftrightarrow> rules_valid ParseCIDR (DefaultRules ruleSet) \<and>
     (\<forall>r\<in>set (FilteredRules ruleSet). rules_valid ParseCIDR (Rules r))"

lemma reload_valid: "reload_rules ParseCIDR old newSet = Inr ruleSet \<Longrightarrow> set_valid ParseCIDR ruleSet"
  using Validate_ok [of ParseCIDR newSet] by (auto simp: reload_rules_def set_valid_def initLookups_def Let_def)

lemma GetTrafficRules_complete:
  assumes "set_valid ParseCIDR ruleSet"
  shows "\<exists>r. GetTrafficRules ruleSet pid isFirst proto geo st = Some r \<and> rules_complete ParseCIDR r"
proof -
  let ?base = "populate_defaults (DefaultRules ruleSet)"
  let ?m = "first_match (matchFilter pid proto geo st) (FilteredRules ruleSet)"
  let ?r = "case ?m of None \<Rightarrow> ?base | Some n \<Rightarrow> override_rules n ?base"
  have c0: "rules_complete ParseCIDR ?base" using assms by (simp add: set_valid_def populate_complete)
  have c: "rules_complete ParseCIDR ?r"
  proof (cases ?m)
    case (Some n)
    then have "rules_valid ParseCIDR n" using first_match_in [OF Some] assms by (auto simp: set_valid_def)
    from override_complete [OF this c0] show ?thesis by (simp add: Some)
  next
    case None
    then show ?thesis using c0 by simp
  qed
  then obtain only where "UnthrottleFirstTunnelOnly (RateLimits ?r) = Some only"
    by (auto simp: rules_complete_def limits_complete_def)
  moreover have "rules_complete ParseCIDR
      (?r\<lparr>RateLimits := (RateLimits ?r)\<lparr>ReadUnthrottledBytes := Some 0, WriteUnthrottledBytes := Some 0\<rparr>\<rparr>)"
    using c unfolding rules_complete_def limits_complete_def by (simp add: given_nonneg_def del: not_None_eq)
  ultimately show ?thesis using c by (auto simp: GetTrafficRules_def Let_def)
qed

lemma ipInSubnets_returns: "\<forall>s\<in>set ss. ParseCIDR s \<noteq> None \<Longrightarrow> ipInSubnets ParseCIDR ip ss \<noteq> None"
  by (induction ss) auto

lemma ipInSubnets_iff:
  "ipInSubnets ParseCIDR ip ss = Some b \<Longrightarrow> b \<longleftrightarrow> (\<exists>s\<in>set ss. \<exists>n. ParseCIDR s = Some n \<and> IPNet_Contains n ip)"
  by (induction ss) (auto split: option.splits if_splits)

lemma Allow_returns:
  assumes "parses ParseCIDR (DisallowSubnets r)" "parses ParseCIDR (AllowSubnets r)"
  shows "AllowTCPPort ParseCIDR geoIP r ip port \<noteq> None" "AllowUDPPort ParseCIDR geoIP r ip port \<noteq> None"
proof -
  have "ipInSubnets ParseCIDR ip (slice (DisallowSubnets r)) \<noteq> None"
    "ipInSubnets ParseCIDR ip (slice (AllowSubnets r)) \<noteq> None"
    using assms by (simp_all add: parses_def ipInSubnets_returns del: not_None_eq)
  then show "AllowTCPPort ParseCIDR geoIP r ip port \<noteq> None" "AllowUDPPort ParseCIDR geoIP r ip port \<noteq> None"
    by (auto simp: AllowTCPPort_def AllowUDPPort_def)
qed

text \<open>
  C17: rules that were loaded, however often and whatever the file left out, are complete: every
  client gets rules in which every limit is present and not negative and every subnet parses, so
  that neither the rate limits nor any decision on a port forward ever panics.
\<close>

theorem loaded_rules_typed:
  assumes "reload_rules ParseCIDR old newSet = Inr ruleSet"
  shows "\<exists>r. GetTrafficRules ruleSet pid isFirst proto geo st = Some r \<and> rules_complete ParseCIDR r \<and>
    CommonRateLimits (RateLimits r) handshaked \<noteq> None \<and>
    AllowTCPPort ParseCIDR geoIP r ip port \<noteq> None \<and> AllowUDPPort ParseCIDR geoIP r ip port \<noteq> None"
proof -
  obtain r where r: "GetTrafficRules ruleSet pid isFirst proto geo st = Some r" "rules_complete ParseCIDR r"
    using GetTrafficRules_complete [OF reload_valid [OF assms]] by blast
  have "AllowTCPPort ParseCIDR geoIP r ip port \<noteq> None" "AllowUDPPort ParseCIDR geoIP r ip port \<noteq> None"
    using r(2) Allow_returns [of ParseCIDR r] unfolding rules_complete_def by blast+
  moreover have "CommonRateLimits (RateLimits r) handshaked \<noteq> None"
    using r(2) by (auto simp: rules_complete_def limits_complete_def given_nonneg_def CommonRateLimits_def)
  ultimately show ?thesis using r by blast
qed

text \<open>A file that gives nothing at all.\<close>

lemma empty_set_loads: "NewTrafficRulesSet ParseCIDR empty_set = Inr (initLookups empty_set)"
  by (simp add: NewTrafficRulesSet_def reload_rules_def Validate_def empty_set_def no_rules_def no_limits_def
      validateTrafficRules_def negative_def slice_def Let_def)

theorem loaded_rules_typed_witness:
  "\<forall>geo st. \<exists>r. GetTrafficRules (initLookups empty_set) [] True ''OSSH'' geo st = Some r \<and>
     rules_complete example_parse r"
  using loaded_rules_typed [OF empty_set_loads [unfolded NewTrafficRulesSet_def]] by blast

section \<open>Filters\<close>

text \<open>What a filter's lists say of a client, without the lookups that are built from them.\<close>

definition accepts_authorizations :: "filter_spec \<Rightarrow> handshake_state \<Rightarrow> bool" where
  "accepts_authorizations f st \<longleftrightarrow>
    (if AuthorizationsRevoked f then completed st \<and> authorizationsRevoked st
     else (ActiveAuthorizationIDs f = [] \<or> completed st \<and> \<not> authorizationsRevoked st \<and>
            set (ActiveAuthorizationIDs f) \<inter> set (activeAuthorizationIDs st) \<noteq> {}) \<and>
          (AuthorizedAccessTypes f = [] \<or> completed st \<and> \<not> authorizationsRevoked st \<and>
            set (AuthorizedAccessTypes f) \<inter> set (authorizedAccessTypes st) \<noteq> {}))"

definition accepts_version :: "filter_spec \<Rightarrow> handshake_state \<Rightarrow> bool" where
  "accepts_version f st \<longleftrightarrow> MinClientVersion f = None \<and> MaxClientVersion f = None \<or>
     (\<exists>s v. apiParams st ''client_version'' = Some (VString s) \<and> Atoi s = Some v \<and>
        (\<forall>lo. MinClientVersion f = Some lo \<longrightarrow> lo \<le> v) \<and> (\<forall>hi. MaxClientVersion f = Some hi \<longrightarrow> v \<le> hi))"

definition listed :: "string list \<Rightarrow> string \<Rightarrow> bool" where
  "listed xs v \<longleftrightarrow> xs = [] \<or> v \<in> set xs"

definition filter_accepts :: "string \<Rightarrow> string \<Rightarrow> geo_ip_data \<Rightarrow> handshake_state \<Rightarrow> filter_spec \<Rightarrow> bool" where
  "filter_accepts pid proto geo st f \<longleftrightarrow>
     listed (TunnelProtocols f) proto \<and> listed (Regions f) (Country geo) \<and> listed (ISPs f) (ISP geo) \<and>
     listed (ASNs f) (ASN geo) \<and> listed (Cities f) (City geo) \<and>
     (APIProtocol f = [] \<or> completed st \<and> apiProtocol st = APIProtocol f) \<and>
     (\<forall>ps. HandshakeParameters f = Some ps \<longrightarrow> completed st \<and>
        (\<forall>(name, values)\<in>set ps. \<exists>v. apiParams st name = Some (VString v) \<and> (\<exists>p\<in>set values. glob p v))) \<and>
     accepts_authorizations f st \<and> listed (ProviderIDs f) pid \<and> accepts_version f st"

lemma ContainsAny_iff: "ContainsAny xs ts \<longleftrightarrow> set xs \<inter> set ts \<noteq> {}"
  by (induction ts) auto

lemma match_params_iff:
  "match_params params ps \<longleftrightarrow>
    (\<forall>(name, values)\<in>set ps. \<exists>v. params name = Some (VString v) \<and> (\<exists>p\<in>set values. glob p v))"
  by (induction params ps rule: match_params.induct)
    (auto simp: getStringRequestParam_def ContainsWildcard_iff split: option.splits param_value.splits sum.splits)

lemma match_version_iff: "match_version f st \<longleftrightarrow> accepts_version f st"
  by (auto simp: match_version_def accepts_version_def getIntStringRequestParam_def getStringRequestParam_def
      split: option.splits param_value.splits)

lemma init_filter_sel:
  "TunnelProtocols (initTrafficRulesFilterLookups f) = TunnelProtocols f"
  "Regions (initTrafficRulesFilterLookups f) = Regions f" "ISPs (initTrafficRulesFilterLookups f) = ISPs f"
  "ASNs (initTrafficRulesFilterLookups f) = ASNs f" "Cities (initTrafficRulesFilterLookups f) = Cities f"
  "APIProtocol (initTrafficRulesFilterLookups f) = APIProtocol f"
  "HandshakeParameters (initTrafficRulesFilterLookups f) = HandshakeParameters f"
  "AuthorizationsRevoked (initTrafficRulesFilterLookups f) = AuthorizationsRevoked f"
  "ActiveAuthorizationIDs (initTrafficRulesFilterLookups f) = ActiveAuthorizationIDs f"
  "AuthorizedAccessTypes (initTrafficRulesFilterLookups f) = AuthorizedAccessTypes f"
  "ProviderIDs (initTrafficRulesFilterLookups f) = ProviderIDs f"
  "MinClientVersion (initTrafficRulesFilterLookups f) = MinClientVersion f"
  "MaxClientVersion (initTrafficRulesFilterLookups f) = MaxClientVersion f"
  "regionLookup (initTrafficRulesFilterLookups f) = NewStringLookup (Regions f)"
  "ispLookup (initTrafficRulesFilterLookups f) = NewStringLookup (ISPs f)"
  "asnLookup (initTrafficRulesFilterLookups f) = NewStringLookup (ASNs f)"
  "cityLookup (initTrafficRulesFilterLookups f) = NewStringLookup (Cities f)"
  "activeAuthorizationIDLookup (initTrafficRulesFilterLookups f) = NewStringLookup (ActiveAuthorizationIDs f)"
  "providerIDLookup (initTrafficRulesFilterLookups f) = NewStringLookup (ProviderIDs f)"
  by (simp_all add: initTrafficRulesFilterLookups_def)

lemma match_authorizations_iff:
  "match_authorizations (initTrafficRulesFilterLookups f) st \<longleftrightarrow> accepts_authorizations f st"
  unfolding match_authorizations_def accepts_authorizations_def init_filter_sel
  by (auto simp: Contains_NewStringLookup ContainsAny_iff list_ex_iff)

lemma matchFilter_accepts:
  "matchFilter pid proto geo st (initTrafficRulesFilterLookups f) \<longleftrightarrow> filter_accepts pid proto geo st f"
proof -
  have "match_version (initTrafficRulesFilterLookups f) st = match_version f st"
    by (cases "getIntStringRequestParam (apiParams st) ''client_version''")
      (simp_all add: match_version_def init_filter_sel)
  moreover have "(case HandshakeParameters f of None \<Rightarrow> False
      | Some ps \<Rightarrow> \<not> completed st \<or> \<not> match_params (apiParams st) ps) \<longleftrightarrow>
    \<not> (\<forall>ps. HandshakeParameters f = Some ps \<longrightarrow> completed st \<and>
        (\<forall>(name, values)\<in>set ps. \<exists>v. apiParams st name = Some (VString v) \<and> (\<exists>p\<in>set values. glob p v)))"
    by (cases "HandshakeParameters f") (simp_all add: match_params_iff)
  moreover have "xs \<noteq> [] \<and> v \<notin> set xs \<longleftrightarrow> \<not> listed xs v" for xs v by (simp add: listed_def)
  moreover have "APIProtocol f \<noteq> [] \<and> (\<not> completed st \<or> apiProtocol st \<noteq> APIProtocol f) \<longleftrightarrow>
    \<not> (APIProtocol f = [] \<or> completed st \<and> apiProtocol st = APIProtocol f)" by blast
  moreover have "(if \<not> P then False else Q) \<longleftrightarrow> P \<and> Q" for P Q by simp
  ultimately show ?thesis
    unfolding matchFilter_def filter_accepts_def init_filter_sel Contains_NewStringLookup Contains_iff
      match_authorizations_iff match_version_iff
    by (simp only:)
qed

text \<open>A rule applies when its filter accepts the client and its exception does not.\<close>

definition applies :: "string \<Rightarrow> string \<Rightarrow> geo_ip_data \<Rightarrow> handshake_state \<Rightarrow> filtered_rules \<Rightarrow> bool" where
  "applies pid proto geo st r \<longleftrightarrow> filter_accepts pid proto geo st (Filter r) \<and>
     (\<forall>e. ExceptFilter r = Some e \<longrightarrow> \<not> filter_accepts pid proto geo st e)"

definition init_filtered :: "filtered_rules \<Rightarrow> filtered_rules" where
  "init_filtered r = r\<lparr>Filter := initTrafficRulesFilterLookups (Filter r),
     ExceptFilter := map_option initTrafficRulesFilterLookups (ExceptFilter r),
     Rules := initTrafficRulesLookups (Rules r)\<rparr>"

lemma first_match_find:
  "first_match (matchFilter pid proto geo st) (map init_filtered rs) =
    map_option (\<lambda>r. initTrafficRulesLookups (Rules r)) (find (applies pid proto geo st) rs)"
  by (induction rs) (auto simp: init_filtered_def applies_def matchFilter_accepts split: option.splits)

text \<open>A field of the rules of a client: what the chosen rule gives, else the default rules, else \<open>d\<close>.\<close>

definition layered :: "(traffic_rules \<Rightarrow> 'a option) \<Rightarrow> traffic_rules option \<Rightarrow> traffic_rules \<Rightarrow> 'a option \<Rightarrow> 'a option" where
  "layered field chosen def d = (case Option.bind chosen field of Some v \<Rightarrow> Some v
     | None \<Rightarrow> (case field def of Some v \<Rightarrow> Some v | None \<Rightarrow> d))"

lemma init_sel [simp]:
  "MaxTCPPortForwardCount (initTrafficRulesLookups r) = MaxTCPPortForwardCount r"
  "MaxTCPDialingPortForwardCount (initTrafficRulesLookups r) = MaxTCPDialingPortForwardCount r"
  "MaxUDPPortForwardCount (initTrafficRulesLookups r) = MaxUDPPortForwardCount r"
  "DialTCPPortForwardTimeoutMilliseconds (initTrafficRulesLookups r) = DialTCPPortForwardTimeoutMilliseconds r"
  "DisallowSubnets (initTrafficRulesLookups r) = DisallowSubnets r"
  "RateLimits (initTrafficRulesLookups r) = RateLimits r"
  "AllowTCPPorts (initTrafficRulesLookups r) = OptimizeLookups (AllowTCPPorts r)"
  by (simp_all add: initTrafficRulesLookups_def)

lemma override_sel:
  "MaxTCPPortForwardCount (override_rules n r) = override (MaxTCPPortForwardCount n) (MaxTCPPortForwardCount r)"
  "MaxTCPDialingPortForwardCount (override_rules n r) =
    override (MaxTCPDialingPortForwardCount n) (MaxTCPDialingPortForwardCount r)"
  "MaxUDPPortForwardCount (override_rules n r) = override (MaxUDPPortForwardCount n) (MaxUDPPortForwardCount r)"
  "DialTCPPortForwardTimeoutMilliseconds (override_rules n r) =
    override (DialTCPPortForwardTimeoutMilliseconds n) (DialTCPPortForwardTimeoutMilliseconds r)"
  "AllowTCPPorts (override_rules n r) = override (AllowTCPPorts n) (AllowTCPPorts r)"
  "DisallowSubnets (override_rules n r) = override (DisallowSubnets n) (DisallowSubnets r)"
  "ReadUnthrottledBytes (RateLimits (override_rules n r)) =
    override (ReadUnthrottledBytes (RateLimits n)) (ReadUnthrottledBytes (RateLimits r))"
  "UnthrottleFirstTunnelOnly (RateLimits (override_rules n r)) =
    override (UnthrottleFirstTunnelOnly (RateLimits n)) (UnthrottleFirstTunnelOnly (RateLimits r))"
  by (simp_all add: override_rules_def override_limits_def)

lemma populate_sel:
  "MaxTCPPortForwardCount (populate_defaults r) = or_default (MaxTCPPortForwardCount r) 512"
  "MaxTCPDialingPortForwardCount (populate_defaults r) = or_default (MaxTCPDialingPortForwardCount r) 64"
  "MaxUDPPortForwardCount (populate_defaults r) = or_default (MaxUDPPortForwardCount r) 32"
  "DialTCPPortForwardTimeoutMilliseconds (populate_defaults r) =
    or_default (DialTCPPortForwardTimeoutMilliseconds r) 10000"
  "AllowTCPPorts (populate_defaults r) = AllowTCPPorts r"
  "DisallowSubnets (populate_defaults r) = or_default (DisallowSubnets r) []"
  "ReadUnthrottledBytes (RateLimits (populate_defaults r)) = or_default (ReadUnthrottledBytes (RateLimits r)) 0"
  "UnthrottleFirstTunnelOnly (RateLimits (populate_defaults r)) =
    or_default (UnthrottleFirstTunnelOnly (RateLimits r)) False"
  by (simp_all add: populate_defaults_def populate_limits_def)

lemma OptimizeLookups_None [simp]: "OptimizeLookups p = None \<longleftrightarrow> p = None"
  by (auto simp: OptimizeLookups_def split: option.splits)


text \<open>A rules file with one rule, for a region other than that of the exception.\<close>

definition no_filter :: filter_spec where
  "no_filter = \<lparr>TunnelProtocols = [], Regions = [], ISPs = [], ASNs = [], Cities = [], APIProtocol = [],
     HandshakeParameters = None, AuthorizedAccessTypes = [], ActiveAuthorizationIDs = [],
     AuthorizationsRevoked = False, ProviderIDs = [], MinClientVersion = None, MaxClientVersion = None,
     regionLookup = NewStringLookup [], ispLookup = NewStringLookup [], asnLookup = NewStringLookup [],
     cityLookup = NewStringLookup [], activeAuthorizationIDLookup = NewStringLookup [],
     providerIDLookup = NewStringLookup []\<rparr>"

definition sample_set :: traffic_rules_set where
  "sample_set = empty_set\<lparr>FilteredRules := [\<lparr>Filter = no_filter\<lparr>Regions := [''CA'', ''US'']\<rparr>,
     ExceptFilter = Some (no_filter\<lparr>Regions := [''US'']\<rparr>),
     Rules = no_rules\<lparr>MaxTCPPortForwardCount := Some 5\<rparr>\<rparr>]\<rparr>"

definition sample_client :: "string \<Rightarrow> geo_ip_data" where
  "sample_client country = \<lparr>Country = country, City = [], ISP = [], ASN = [], ASO = []\<rparr>"

definition no_handshake :: handshake_state where
  "no_handshake = \<lparr>completed = False, apiProtocol = [], apiParams = Map.empty, activeAuthorizationIDs = [],
     authorizedAccessTypes = [], authorizationsRevoked = False\<rparr>"

lemma sample_set_loads: "reload_rules ParseCIDR empty_set sample_set = Inr (initLookups sample_set)"
  by (simp add: reload_rules_def Validate_def sample_set_def empty_set_def no_rules_def no_limits_def no_filter_def
      validateTrafficRules_def validateFilter_def negative_def slice_def Let_def)


section \<open>Port forwards\<close>

definition in_subnets :: "(string \<Rightarrow> ip_net option) \<Rightarrow> string list option \<Rightarrow> bytes \<Rightarrow> bool" where
  "in_subnets ParseCIDR ss ip \<longleftrightarrow> (\<exists>s\<in>set (slice ss). \<exists>n. ParseCIDR s = Some n \<and> IPNet_Contains n ip)"

definition in_ASNs :: "(bytes \<Rightarrow> string) option \<Rightarrow> string list option \<Rightarrow> bytes \<Rightarrow> bool" where
  "in_ASNs geoIP as ip \<longleftrightarrow> (\<exists>lookup. geoIP = Some lookup \<and> lookup ip \<in> set (slice as))"

text \<open>The ports of a list as it is in the rules file.\<close>

definition ports_of :: "port_list option \<Rightarrow> int set" where
  "ports_of p = (case p of None \<Rightarrow> {} | Some l \<Rightarrow> port_set (portRanges l))"

definition unindexed :: "port_list option \<Rightarrow> bool" where
  "unindexed p \<longleftrightarrow> (\<forall>l. p = Some l \<longrightarrow> port_lookup l = None)"

lemma Lookup_ports_of: "unindexed p \<Longrightarrow> Lookup (OptimizeLookups p) port \<longleftrightarrow> port \<in> ports_of p"
  using Lookup_optimized [of "the p" port]
  by (cases p) (simp_all add: unindexed_def ports_of_def OptimizeLookups_def Lookup_def)

lemma IsEmpty_OptimizeLookups: "IsEmpty (OptimizeLookups p) = IsEmpty p"
  by (cases p) (auto simp: OptimizeLookups_def IsEmpty_def)

lemma ASN_in_iff: "ASN_in geoIP ip as \<longleftrightarrow> (\<exists>lookup. geoIP = Some lookup \<and> lookup ip \<in> set as)"
  by (cases geoIP) (auto simp: ASN_in_def)

lemma decision:
  assumes "Option.bind A (\<lambda>d. if d \<or> X then Some False else if Y then Some False else if E then Some True
      else if L then Some True else Option.bind B (\<lambda>a. Some (a \<or> Z))) = Some allowed"
    and "\<And>d. A = Some d \<Longrightarrow> d = D" "\<And>a. B = Some a \<Longrightarrow> a = W"
  shows "allowed \<longleftrightarrow> \<not> D \<and> \<not> X \<and> \<not> Y \<and> (E \<or> L \<or> W \<or> Z)"
  using assms by (cases A; cases B) (auto split: if_splits)

text \<open>
  C19: the decision on a port forward, over the lists of the rules file: what is disallowed, by
  subnet, by ASN or by port, is never allowed; the rest is allowed when there is no list of allowed
  ports, or by port, by subnet or by ASN. TCP and UDP decide alike, each on its own port lists.
\<close>

theorem port_forward_decision:
  assumes "unindexed (AllowTCPPorts rules)" "unindexed (DisallowTCPPorts rules)"
    and "unindexed (AllowUDPPorts rules)" "unindexed (DisallowUDPPorts rules)"
  shows "(AllowTCPPort ParseCIDR geoIP (initTrafficRulesLookups rules) ip port = Some allowed \<longrightarrow>
      (allowed \<longleftrightarrow> \<not> in_subnets ParseCIDR (DisallowSubnets rules) ip \<and> \<not> in_ASNs geoIP (DisallowASNs rules) ip \<and>
         port \<notin> ports_of (DisallowTCPPorts rules) \<and>
         (IsEmpty (AllowTCPPorts rules) \<or> port \<in> ports_of (AllowTCPPorts rules) \<or>
          in_subnets ParseCIDR (AllowSubnets rules) ip \<or> in_ASNs geoIP (AllowASNs rules) ip))) \<and>
    (AllowUDPPort ParseCIDR geoIP (initTrafficRulesLookups rules) ip port = Some allowed \<longrightarrow>
      (allowed \<longleftrightarrow> \<not> in_subnets ParseCIDR (DisallowSubnets rules) ip \<and> \<not> in_ASNs geoIP (DisallowASNs rules) ip \<and>
         port \<notin> ports_of (DisallowUDPPorts rules) \<and>
         (IsEmpty (AllowUDPPorts rules) \<or> port \<in> ports_of (AllowUDPPorts rules) \<or>
          in_subnets ParseCIDR (AllowSubnets rules) ip \<or> in_ASNs geoIP (AllowASNs rules) ip)))"
proof -
  have sub: "d = in_subnets ParseCIDR ss ip" if "ipInSubnets ParseCIDR ip (slice ss) = Some d" for ss d
    using ipInSubnets_iff [OF that] by (simp add: in_subnets_def)
  have sel: "DisallowSubnets (initTrafficRulesLookups rules) = DisallowSubnets rules"
    "AllowSubnets (initTrafficRulesLookups rules) = AllowSubnets rules"
    "DisallowASNs (initTrafficRulesLookups rules) = DisallowASNs rules"
    "AllowASNs (initTrafficRulesLookups rules) = AllowASNs rules"
    "AllowTCPPorts (initTrafficRulesLookups rules) = OptimizeLookups (AllowTCPPorts rules)"
    "DisallowTCPPorts (initTrafficRulesLookups rules) = OptimizeLookups (DisallowTCPPorts rules)"
    "AllowUDPPorts (initTrafficRulesLookups rules) = OptimizeLookups (AllowUDPPorts rules)"
    "DisallowUDPPorts (initTrafficRulesLookups rules) = OptimizeLookups (DisallowUDPPorts rules)"
    by (simp_all add: initTrafficRulesLookups_def)
  show ?thesis
    unfolding AllowTCPPort_def AllowUDPPort_def sel Lookup_ports_of [OF assms(1)] Lookup_ports_of [OF assms(2)]
      Lookup_ports_of [OF assms(3)] Lookup_ports_of [OF assms(4)] IsEmpty_OptimizeLookups ASN_in_iff
      in_ASNs_def [symmetric]
    by (intro conjI impI; erule decision; rule sub; assumption)
qed

theorem port_forward_decision_witness:
  "AllowTCPPort example_parse None (initTrafficRulesLookups (no_rules\<lparr>AllowTCPPorts := Some \<lparr>portRanges = [(80, 80)],
      port_lookup = None\<rparr>, DisallowSubnets := Some [''10.0.0.0/8'']\<rparr>)) [10, 1, 2, 3] 80 = Some False"
proof -
  let ?r = "no_rules\<lparr>AllowTCPPorts := Some \<lparr>portRanges = [(80, 80)], port_lookup = None\<rparr>,
      DisallowSubnets := Some [''10.0.0.0/8'']\<rparr>"
  have u: "unindexed (AllowTCPPorts ?r)" "unindexed (DisallowTCPPorts ?r)"
    "unindexed (AllowUDPPorts ?r)" "unindexed (DisallowUDPPorts ?r)"
    by (simp_all add: unindexed_def no_rules_def)
  have d: "in_subnets example_parse (DisallowSubnets ?r) [10, 1, 2, 3]"
    by (simp add: in_subnets_def slice_def example_parse_def IPNet_Contains_def networkNumberAndMask_def To4_def Let_def)
  have "parses example_parse (DisallowSubnets (initTrafficRulesLookups ?r))"
    "parses example_parse (AllowSubnets (initTrafficRulesLookups ?r))"
    by (simp_all add: parses_def slice_def initTrafficRulesLookups_def no_rules_def example_parse_def)
  from Allow_returns(1) [OF this] obtain b
    where b: "AllowTCPPort example_parse None (initTrafficRulesLookups ?r) [10, 1, 2, 3] 80 = Some b" by blast
  have "\<not> b" using port_forward_decision [OF u, of example_parse None "[10, 1, 2, 3]" 80 b] b d by blast
  with b show ?thesis by simp
qed

section \<open>The meek rate limiter\<close>

text \<open>Any number of loads, starting from the zero value.\<close>

fun load_all :: "(string \<Rightarrow> ip_net option) \<Rightarrow> traffic_rules_set list \<Rightarrow> traffic_rules_set \<Rightarrow> traffic_rules_set" where
  "load_all ParseCIDR [] ruleSet = ruleSet"
| "load_all ParseCIDR (newSet # sets) ruleSet = load_all ParseCIDR sets
     (case reload_rules ParseCIDR ruleSet newSet of Inl _ \<Rightarrow> ruleSet | Inr s \<Rightarrow> s)"

text \<open>
  The limit on the entries of the meek rate limiter is never taken from the rules: loading
  copies every other field of the rate limiter, and whatever files are loaded, the limit stays the
  built-in million.
\<close>

lemma meek_max_entries_ignored:
  "MeekRateLimiterMaxEntries (GetMeekRateLimiterConfig (load_all ParseCIDR sets empty_set)) = 1000000"
proof -
  have "MeekRateLimiterMaxEntries (MeekRateLimiter (load_all ParseCIDR sets s)) = 0"
    if "MeekRateLimiterMaxEntries (MeekRateLimiter s) = 0" for s
    using that
  proof (induction sets arbitrary: s)
    case (Cons newSet sets)
    show ?case
      by (simp, rule Cons.IH)
        (use Cons.prems in \<open>auto simp: reload_rules_def initLookups_def Let_def ebind_def split: sum.splits\<close>)
  qed simp
  then show ?thesis by (simp add: GetMeekRateLimiterConfig_def empty_set_def Let_def)
qed

end
