(* ===== verification/Udpgw.thy ===== *)
theory Udpgw
  imports Bytes PortForward TrafficRulesFacts "HOL-Library.AList"
begin

text \<open>
  UDP port forwards, \<open>server/udp.go\<close>: the messages of the udpgw protocol, their reader and the
  preamble that is written before a downstream packet, and the multiplexer that routes the messages
  of a channel to UDP port forwards. The channel is the list of the bytes that arrive before its end.
  The multiplexer is modelled between the messages of its read loop: the goroutine of a port forward
  whose connection was closed has ended before the next message is handled, for the loop waits for it
  when it reuses the connection ID and when it makes way for a new forward.
\<close>

section \<open>The protocol\<close>

abbreviation (input) udpgwProtocolMaxPreambleSize :: nat where "udpgwProtocolMaxPreambleSize \<equiv> 23"
abbreviation (input) udpgwProtocolMaxPayloadSize :: nat where "udpgwProtocolMaxPayloadSize \<equiv> 32768"
abbreviation (input) udpgwProtocolMaxMessageSize :: nat where "udpgwProtocolMaxMessageSize \<equiv> 32791"

definition udpgwProtocolFlagKeepalive :: byte where "udpgwProtocolFlagKeepalive = 1"
definition udpgwProtocolFlagRebind :: byte where "udpgwProtocolFlagRebind = 2"
definition udpgwProtocolFlagDNS :: byte where "udpgwProtocolFlagDNS = 4"
definition udpgwProtocolFlagIPv6 :: byte where "udpgwProtocolFlagIPv6 = 8"

definition has_flag :: "byte \<Rightarrow> byte \<Rightarrow> bool" where
  "has_flag flags f \<longleftrightarrow> flags AND f = f"

record udpgw_message =
  connID :: "16 word"
  preambleSize :: nat
  remoteIP :: bytes
  remotePort :: "16 word"
  discardExistingConn :: bool
  forwardDNS :: bool
  packet :: bytes

datatype udpgw_error = EOF | UnexpectedEOF | InvalidSize | InvalidPreamble

text \<open>\<open>io.ReadFull\<close> of some bytes, into the buffer at an offset\<close>

definition ReadFull :: "bytes \<Rightarrow> nat \<Rightarrow> nat \<Rightarrow> bytes \<Rightarrow> udpgw_error + bytes \<times> bytes" where
  "ReadFull stream at n buffer =
    (if n \<le> length stream then Inr (drop n stream, put at (take n stream) buffer)
     else if stream = [] then Inl EOF else Inl UnexpectedEOF)"

definition message_of :: "nat \<Rightarrow> bytes \<Rightarrow> udpgw_error + udpgw_message" where
  "message_of sz buffer =
    (let flags = buffer ! 2; conn = of_le16 (slice_of buffer 3 5);
         message = (\<lambda>start last ip port. \<lparr>connID = conn, preambleSize = start, remoteIP = ip, remotePort = port,
           discardExistingConn = has_flag flags udpgwProtocolFlagRebind, forwardDNS = has_flag flags udpgwProtocolFlagDNS,
           packet = slice_of buffer start last\<rparr>)
     in if has_flag flags udpgwProtocolFlagIPv6 then
          (if sz < 21 then Inl InvalidSize
           else Inr (message 23 (23 + sz - 21) (slice_of buffer 5 21) (of_be16 (slice_of buffer 21 23))))
        else
          (if sz < 9 then Inl InvalidSize
           else Inr (message 11 (11 + sz - 9) (slice_of buffer 5 9) (of_be16 (slice_of buffer 9 11)))))"

function readUdpgwMessage :: "bytes \<Rightarrow> bytes \<Rightarrow> udpgw_error + udpgw_message \<times> bytes \<times> bytes" where
  "readUdpgwMessage stream buffer =
    (case ReadFull stream 0 2 buffer of Inl e \<Rightarrow> Inl e | Inr (stream1, buffer1) \<Rightarrow>
       let sz = unat (of_le16 (slice_of buffer1 0 2))
       in if sz < 3 \<or> sz > length buffer1 - 2 then Inl InvalidSize
          else (case ReadFull stream1 2 sz buffer1 of Inl e \<Rightarrow> Inl e | Inr (stream2, buffer2) \<Rightarrow>
            if has_flag (buffer2 ! 2) udpgwProtocolFlagKeepalive then readUdpgwMessage stream2 buffer2
            else ebind (message_of sz buffer2) (\<lambda>m. Inr (m, stream2, buffer2))))"
  by pat_completeness auto
termination
  by (relation "measure (\<lambda>(stream, buffer). length stream)") (auto simp: ReadFull_def split: if_splits)

declare readUdpgwMessage.simps [simp del]

definition writeUdpgwPreamble :: "nat \<Rightarrow> byte \<Rightarrow> 16 word \<Rightarrow> bytes \<Rightarrow> 16 word \<Rightarrow> 16 word \<Rightarrow> bytes
    \<Rightarrow> udpgw_error + bytes" where
  "writeUdpgwPreamble preamble flags conn ip port packetSize buffer =
    (if preamble \<noteq> 7 + length ip then Inl InvalidPreamble
     else let sz = of_nat (preamble - 2) + packetSize
     in Inr (put (5 + length ip) (be16 port) (put 5 ip (put 3 (le16 conn) (put 2 [flags] (put 0 (le16 sz) buffer))))))"

text \<open>One turn of the loop of \<open>relayDownstream\<close>: a packet was read into the buffer after the preamble.\<close>

definition relay_message :: "nat \<Rightarrow> 16 word \<Rightarrow> bytes \<Rightarrow> 16 word \<Rightarrow> bytes \<Rightarrow> bytes \<Rightarrow> udpgw_error + bytes" where
  "relay_message preamble conn ip port payload buffer =
    (if length payload > udpgwProtocolMaxPayloadSize then Inl InvalidSize
     else ebind (writeUdpgwPreamble preamble 0 conn ip port (of_nat (length payload)) (put preamble payload buffer))
       (\<lambda>b. Inr (take (preamble + length payload) b)))"

section \<open>Framing\<close>

definition encode_message :: "byte \<Rightarrow> 16 word \<Rightarrow> bytes \<Rightarrow> 16 word \<Rightarrow> bytes \<Rightarrow> bytes" where
  "encode_message flags conn ip port payload =
    le16 (of_nat (5 + length ip + length payload)) @ [flags] @ le16 conn @ ip @ be16 port @ payload"

definition decoded :: "byte \<Rightarrow> 16 word \<Rightarrow> bytes \<Rightarrow> 16 word \<Rightarrow> bytes \<Rightarrow> udpgw_message" where
  "decoded flags conn ip port payload = \<lparr>connID = conn, preambleSize = 7 + length ip, remoteIP = ip, remotePort = port,
     discardExistingConn = has_flag flags udpgwProtocolFlagRebind, forwardDNS = has_flag flags udpgwProtocolFlagDNS,
     packet = payload\<rparr>"

lemma size16: "n < 65536 \<Longrightarrow> unat (of_nat n :: 16 word) = n"
  by (simp add: unsigned_of_nat take_bit_eq_mod)

lemma first_read:
  assumes "2 \<le> length buffer"
  shows "ReadFull (le16 sz @ rest) 0 2 buffer = Inr (rest, le16 sz @ drop 2 buffer)"
  by (simp add: ReadFull_def put_def numeral_2_eq_2)

lemma second_read:
  "ReadFull (body @ rest) 2 (length body) (le16 sz @ tail) = Inr (rest, le16 sz @ body @ drop (length body) tail)"
  by (simp add: ReadFull_def put_def)

text \<open>One turn of the reader's loop, for a message of some body.\<close>

lemma read_turn:
  assumes "length buffer = 32791" "3 \<le> length body" "length body \<le> 32789"
  shows "readUdpgwMessage (le16 (of_nat (length body)) @ body @ rest) buffer =
    (let buffer2 = le16 (of_nat (length body)) @ body @ drop (length body) (drop 2 buffer)
     in if has_flag (body ! 0) udpgwProtocolFlagKeepalive then readUdpgwMessage rest buffer2
        else ebind (message_of (length body) buffer2) (\<lambda>m. Inr (m, rest, buffer2)))"
proof -
  have u: "unat (of_le16 (slice_of (le16 (of_nat (length body)) @ drop 2 buffer) 0 2)) = length body"
    using assms(3) slice_mid [of "[]" 0 "le16 (of_nat (length body))" 2] by (simp add: size16)
  have "(le16 (of_nat (length body)) @ body @ xs) ! 2 = body ! 0" for xs
    using assms(2) by (cases body) (simp_all add: nth_append)
  then show ?thesis
    using assms u by (subst readUdpgwMessage.simps) (simp add: first_read second_read Let_def)
qed

lemma message_of_encoded:
  assumes "length ip = (if has_flag flags udpgwProtocolFlagIPv6 then 16 else 4)"
  shows "message_of (5 + length ip + length payload) (le16 sz @ ([flags] @ le16 conn @ ip @ be16 port @ payload) @ tail)
    = Inr (decoded flags conn ip port payload)"
proof -
  let ?b = "le16 sz @ ([flags] @ le16 conn @ ip @ be16 port @ payload) @ tail"
  have "?b ! 2 = flags" by (simp add: nth_append)
  moreover have "slice_of ?b 3 5 = le16 conn"
    using slice_mid [of "le16 sz @ [flags]" 3 "le16 conn" 5] by simp
  moreover have "slice_of ?b 5 (5 + length ip) = ip"
    using slice_mid [of "le16 sz @ [flags] @ le16 conn" 5 ip] by simp
  moreover have "slice_of ?b (5 + length ip) (7 + length ip) = be16 port"
    using slice_mid [of "le16 sz @ [flags] @ le16 conn @ ip" "5 + length ip" "be16 port"] by simp
  moreover have "slice_of ?b (7 + length ip) (7 + length ip + length payload) = payload"
    using slice_mid [of "le16 sz @ [flags] @ le16 conn @ ip @ be16 port" "7 + length ip" payload] by simp
  ultimately show ?thesis
    using assms by (auto simp: message_of_def decoded_def Let_def add.commute split: if_splits)
qed

definition fits :: "byte \<Rightarrow> bytes \<Rightarrow> bytes \<Rightarrow> bool" where
  "fits flags ip payload \<longleftrightarrow> length ip = (if has_flag flags udpgwProtocolFlagIPv6 then 16 else 4) \<and>
     \<not> has_flag flags udpgwProtocolFlagKeepalive \<and> 5 + length ip + length payload \<le> 32789"

lemma read_encoded:
  assumes "fits flags ip payload" "length buffer = 32791"
  shows "\<exists>b. readUdpgwMessage (encode_message flags conn ip port payload @ rest) buffer
    = Inr (decoded flags conn ip port payload, rest, b) \<and> length b = 32791"
proof -
  let ?body = "[flags] @ le16 conn @ ip @ be16 port @ payload"
  have len: "length ?body = 5 + length ip + length payload" by simp
  have "encode_message flags conn ip port payload @ rest = le16 (of_nat (length ?body)) @ ?body @ rest"
    by (simp add: encode_message_def ac_simps)
  then show ?thesis
    using read_turn [of buffer ?body rest] assms message_of_encoded [of ip flags payload]
    by (auto simp: fits_def len Let_def)
qed

lemma relay_encodes:
  assumes "length payload \<le> 32768" "length ip \<le> 16" "length buffer = 32791"
  shows "relay_message (7 + length ip) conn ip port payload buffer = Inr (encode_message 0 conn ip port payload)"
proof -
  let ?t = "drop (7 + length ip + length payload) buffer"
  obtain b0 b1 b2 b3 b4 where b: "take (7 + length ip) buffer = b0 @ b1 @ b2 @ b3 @ b4"
    "length b0 = 2" "length b1 = 1" "length b2 = 2" "length b3 = length ip" "length b4 = 2"
  proof
    show "take (7 + length ip) buffer = take 2 buffer @ take 1 (drop 2 buffer) @ take 2 (drop 3 buffer) @
        take (length ip) (drop 5 buffer) @ take 2 (drop (5 + length ip) buffer)"
      using take_add [of 2 "5 + length ip" buffer] take_add [of 1 "4 + length ip" "drop 2 buffer"]
        take_add [of 2 "2 + length ip" "drop 3 buffer"] take_add [of "length ip" 2 "drop 5 buffer"]
      by (simp only: drop_drop) (simp add: ac_simps eval_nat_numeral)
  qed (use assms in auto)
  have buf: "put (7 + length ip) payload buffer = b0 @ b1 @ b2 @ b3 @ b4 @ payload @ ?t"
    by (simp add: put_def b(1))
  let ?s = "le16 (of_nat (5 + length ip) + of_nat (length payload))"
  have p0: "put 0 ?s (b0 @ b1 @ b2 @ b3 @ b4 @ payload @ ?t) = ?s @ b1 @ b2 @ b3 @ b4 @ payload @ ?t"
    using put_mid [of "[]" 0 ?s b0] b(2) by simp
  have p2: "put 2 [0] (?s @ b1 @ b2 @ b3 @ b4 @ payload @ ?t) = ?s @ [0] @ b2 @ b3 @ b4 @ payload @ ?t"
    using put_mid [of ?s 2 "[0]" b1] b(3) by simp
  have p3: "put 3 (le16 conn) (?s @ [0] @ b2 @ b3 @ b4 @ payload @ ?t) = ?s @ [0] @ le16 conn @ b3 @ b4 @ payload @ ?t"
    using put_mid [of "?s @ [0]" 3 "le16 conn" b2] b(4) by simp
  have p5: "put 5 ip (?s @ [0] @ le16 conn @ b3 @ b4 @ payload @ ?t) = ?s @ [0] @ le16 conn @ ip @ b4 @ payload @ ?t"
    using put_mid [of "?s @ [0] @ le16 conn" 5 ip b3 "b4 @ payload @ ?t", OF _ b(5) [symmetric]] by simp
  have p7: "put (5 + length ip) (be16 port) (?s @ [0] @ le16 conn @ ip @ b4 @ payload @ ?t)
      = ?s @ [0] @ le16 conn @ ip @ be16 port @ payload @ ?t"
    using put_mid [of "?s @ [0] @ le16 conn @ ip" "5 + length ip" "be16 port" b4] b(6) by simp
  have w: "writeUdpgwPreamble (7 + length ip) 0 conn ip port (of_nat (length payload)) x = Inr (put (5 + length ip) (be16 port)
      (put 5 ip (put 3 (le16 conn) (put 2 [0] (put 0 ?s x)))))" for x
    by (simp add: writeUdpgwPreamble_def Let_def)
  have "writeUdpgwPreamble (7 + length ip) 0 conn ip port (of_nat (length payload)) (put (7 + length ip) payload buffer)
      = Inr (?s @ [0] @ le16 conn @ ip @ be16 port @ payload @ ?t)"
    unfolding w buf p0 p2 p3 p5 p7 by (rule refl)
  moreover have len: "length (?s @ [0] @ le16 conn @ ip @ be16 port @ payload) = 7 + length ip + length payload" by simp
  have "take (length m) (m @ ?t) = m" for m :: bytes by simp
  from this [of "?s @ [0] @ le16 conn @ ip @ be16 port @ payload"]
  have "take (7 + length ip + length payload) (?s @ [0] @ le16 conn @ ip @ be16 port @ payload @ ?t)
      = ?s @ [0] @ le16 conn @ ip @ be16 port @ payload" unfolding len append_assoc .
  moreover have "\<not> 32768 < length payload" using assms(1) by simp
  ultimately have "relay_message (7 + length ip) conn ip port payload buffer
      = Inr (?s @ [0] @ le16 conn @ ip @ be16 port @ payload)"
    unfolding relay_message_def by (simp only: if_False ebind_simps)
  then show ?thesis by (simp add: encode_message_def ac_simps)
qed

section \<open>A stream of messages\<close>

lemma read_shrinks: "readUdpgwMessage stream buffer = Inr (m, rest, b) \<Longrightarrow> length rest < length stream"
proof (induction stream buffer rule: readUdpgwMessage.induct)
  case (1 stream buffer)
  obtain s1 b1 where r1: "ReadFull stream 0 2 buffer = Inr (s1, b1)"
    using 1(2) by (subst (asm) readUdpgwMessage.simps) (auto split: sum.splits)
  let ?sz = "unat (of_le16 (slice_of b1 0 2))"
  have sz: "\<not> (?sz < 3 \<or> ?sz > length b1 - 2)"
    using 1(2) r1 by (subst (asm) readUdpgwMessage.simps) (auto simp: Let_def split: if_splits)
  obtain s2 b2 where r2: "ReadFull s1 2 ?sz b1 = Inr (s2, b2)"
    using 1(2) r1 sz by (subst (asm) readUdpgwMessage.simps) (auto simp: Let_def split: sum.splits)
  have len: "length s1 < length stream" "length s2 \<le> length s1"
    using r1 r2 by (auto simp: ReadFull_def split: if_splits)
  show ?case
  proof (cases "has_flag (b2 ! 2) udpgwProtocolFlagKeepalive")
    case True
    then have "readUdpgwMessage s2 b2 = Inr (m, rest, b)"
      using 1(2) r1 r2 sz by (subst (asm) readUdpgwMessage.simps) (simp add: Let_def)
    from 1(1) [OF r1 refl refl sz r2 refl True this] len show ?thesis by simp
  next
    case False
    then have "rest = s2" using 1(2) r1 r2 sz by (subst (asm) readUdpgwMessage.simps) (auto simp: Let_def)
    then show ?thesis using len by simp
  qed
qed

text \<open>The messages that the multiplexer's loop reads, and the error that ends it.\<close>

function read_messages :: "bytes \<Rightarrow> bytes \<Rightarrow> udpgw_message list \<times> udpgw_error" where
  "read_messages stream buffer = (case readUdpgwMessage stream buffer of
     Inl e \<Rightarrow> ([], e) | Inr (m, rest, b) \<Rightarrow> (case read_messages rest b of (ms, e) \<Rightarrow> (m # ms, e)))"
  by pat_completeness auto
termination
  by (relation "measure (\<lambda>(stream, buffer). length stream)") (auto simp: read_shrinks)

declare read_messages.simps [simp del]

datatype udpgw_frame = Datagram byte "16 word" bytes "16 word" bytes | Keepalive byte bytes

fun encode_frame :: "udpgw_frame \<Rightarrow> bytes" where
  "encode_frame (Datagram flags conn ip port payload) = encode_message flags conn ip port payload"
| "encode_frame (Keepalive flags body) = le16 (of_nat (1 + length body)) @ flags # body"

fun frame_ok :: "udpgw_frame \<Rightarrow> bool" where
  "frame_ok (Datagram flags conn ip port payload) \<longleftrightarrow> fits flags ip payload"
| "frame_ok (Keepalive flags body) \<longleftrightarrow> has_flag flags udpgwProtocolFlagKeepalive \<and> 2 \<le> length body \<and> length body < 32789"

fun frame_messages :: "udpgw_frame list \<Rightarrow> udpgw_message list" where
  "frame_messages [] = []"
| "frame_messages (Datagram flags conn ip port payload # fs) = decoded flags conn ip port payload # frame_messages fs"
| "frame_messages (Keepalive flags body # fs) = frame_messages fs"

lemma read_keepalive:
  assumes "frame_ok (Keepalive flags body)" "length buffer = 32791"
  shows "\<exists>b. readUdpgwMessage (encode_frame (Keepalive flags body) @ rest) buffer = readUdpgwMessage rest b \<and> length b = 32791"
  using read_turn [of buffer "flags # body" rest] assms by (auto simp: Let_def)

lemma read_end: "readUdpgwMessage [] buffer = Inl EOF"
  by (subst readUdpgwMessage.simps) (simp add: ReadFull_def)

lemma read_frames:
  "list_all frame_ok fs \<Longrightarrow> length buffer = 32791 \<Longrightarrow>
    read_messages (concat (map encode_frame fs)) buffer = (frame_messages fs, EOF)"
proof (induction fs arbitrary: buffer)
  case Nil
  then show ?case by (subst read_messages.simps) (simp add: read_end)
next
  case (Cons f fs)
  let ?rest = "concat (map encode_frame fs)"
  show ?case
  proof (cases f)
    case (Datagram flags conn ip port payload)
    then obtain b where "readUdpgwMessage (encode_frame f @ ?rest) buffer = Inr (decoded flags conn ip port payload, ?rest, b)"
        "length b = 32791"
      using read_encoded [of flags ip payload buffer conn port ?rest] Cons.prems by auto
    then show ?thesis using Cons Datagram by (subst read_messages.simps) simp
  next
    case (Keepalive flags body)
    then obtain b where b: "readUdpgwMessage (encode_frame f @ ?rest) buffer = readUdpgwMessage ?rest b" "length b = 32791"
      using read_keepalive [of flags body buffer ?rest] Cons.prems by auto
    have "read_messages (encode_frame f @ ?rest) buffer = read_messages ?rest b"
      by (subst (1 2) read_messages.simps) (simp add: b(1))
    then show ?thesis using Cons Keepalive b(2) by simp
  qed
qed

text \<open>
  C25: The reader of the udpgw protocol inverts the framing of any stream of messages: every datagram
  with an IPv4 or IPv6 address comes out with its connection ID, address, port, flags and packet,
  keep-alives are skipped, whatever an earlier message left in the buffer, and then the stream ends
  cleanly.
\<close>

theorem udpgw_stream_roundtrip:
  assumes "list_all frame_ok fs" "length buffer = udpgwProtocolMaxMessageSize"
  shows "read_messages (concat (map encode_frame fs)) buffer = (frame_messages fs, EOF)"
  by (rule read_frames [OF assms])

theorem udpgw_stream_roundtrip_witness:
  "read_messages (concat (map encode_frame [Datagram 4 258 [9, 9, 9, 9] 53 [1, 2, 3], Keepalive 1 [0, 0],
      Datagram 10 772 (replicate 16 7) 443 []])) (replicate 32791 0)
    = ([decoded 4 258 [9, 9, 9, 9] 53 [1, 2, 3], decoded 10 772 (replicate 16 7) 443 []], EOF)"
proof -
  have "has_flag 1 1" "\<not> has_flag 4 1" "\<not> has_flag 4 8" "has_flag 10 8" "\<not> has_flag 10 1" by code_simp+
  then have "list_all frame_ok [Datagram 4 258 [9, 9, 9, 9] 53 [1, 2, 3], Keepalive 1 [0, 0], Datagram 10 772 (replicate 16 7) 443 []]"
    by (simp add: fits_def udpgwProtocolFlagIPv6_def udpgwProtocolFlagKeepalive_def)
  from udpgw_stream_roundtrip [OF this, of "replicate 32791 0"] show ?thesis by (simp only: frame_messages.simps length_replicate simp_thms)
qed

text \<open>Downstream, the flags are always 0.\<close>

lemma no_flags: "\<not> has_flag 0 udpgwProtocolFlagIPv6" "\<not> has_flag 0 udpgwProtocolFlagKeepalive"
  by (simp_all add: has_flag_def udpgwProtocolFlagIPv6_def udpgwProtocolFlagKeepalive_def)

text \<open>
  What the server relays downstream on a port forward reads back with its address and packet when
  the address is IPv4. When it is IPv6 the preamble has no IPv6 flag, so the reader takes the first
  four bytes of the address as an IPv4 address, the next two as the port, and prepends the rest of
  the address and the port to the packet.
\<close>

lemma downstream_addresses:
  assumes "length payload \<le> udpgwProtocolMaxPayloadSize" "length buffer = udpgwProtocolMaxMessageSize"
  shows "(length ip = 4 \<longrightarrow> (\<exists>frame b. relay_message 11 conn ip port payload buffer = Inr frame \<and>
      readUdpgwMessage frame buffer = Inr (decoded 0 conn ip port payload, [], b))) \<and>
    (length ip = 16 \<longrightarrow> (\<exists>frame b. relay_message 23 conn ip port payload buffer = Inr frame \<and>
      readUdpgwMessage frame buffer =
        Inr (decoded 0 conn (take 4 ip) (of_be16 (take 2 (drop 4 ip))) (drop 6 ip @ be16 port @ payload), [], b)))"
proof (intro conjI impI)
  assume ip: "length ip = 4"
  have "relay_message 11 conn ip port payload buffer = Inr (encode_message 0 conn ip port payload)"
    using relay_encodes [of payload ip buffer conn port] assms ip by simp
  moreover have "\<exists>b. readUdpgwMessage (encode_message 0 conn ip port payload) buffer = Inr (decoded 0 conn ip port payload, [], b)"
    using read_encoded [of 0 ip payload buffer conn port "[]"] assms ip no_flags by (auto simp: fits_def)
  ultimately show "\<exists>frame b. relay_message 11 conn ip port payload buffer = Inr frame \<and>
      readUdpgwMessage frame buffer = Inr (decoded 0 conn ip port payload, [], b)" by blast
next
  assume ip: "length ip = 16"
  let ?p = "of_be16 (take 2 (drop 4 ip))" and ?rest = "drop 6 ip @ be16 port @ payload"
  have "ip = take 4 ip @ take 2 (drop 4 ip) @ drop 6 ip"
    using append_take_drop_id [of 4 ip] append_take_drop_id [of 2 "drop 4 ip"] by simp
  then have split: "ip = take 4 ip @ be16 ?p @ drop 6 ip" using ip by (simp add: be16_of_be16)
  have e: "encode_message 0 conn ip port payload = encode_message 0 conn (take 4 ip) ?p ?rest"
  proof -
    have "5 + length ip + length payload = 5 + length (take 4 ip) + length ?rest" using ip by simp
    moreover have "ip @ be16 port @ payload = take 4 ip @ be16 ?p @ ?rest" by (subst split) simp
    ultimately show ?thesis unfolding encode_message_def by (simp only:)
  qed
  have "relay_message 23 conn ip port payload buffer = Inr (encode_message 0 conn ip port payload)"
    using relay_encodes [of payload ip buffer conn port] assms ip by simp
  moreover have "\<exists>b. readUdpgwMessage (encode_message 0 conn (take 4 ip) ?p ?rest) buffer = Inr (decoded 0 conn (take 4 ip) ?p ?rest, [], b)"
    using read_encoded [of 0 "take 4 ip" ?rest buffer conn ?p "[]"] assms ip no_flags by (auto simp: fits_def)
  ultimately show "\<exists>frame b. relay_message 23 conn ip port payload buffer = Inr frame \<and>
      readUdpgwMessage frame buffer = Inr (decoded 0 conn (take 4 ip) ?p ?rest, [], b)" unfolding e by blast
qed

section \<open>The multiplexer\<close>

text \<open>\<open>dnsFirstWriteTime\<close> and \<open>dnsFirstReadTime\<close> are 0 when not set.\<close>

record udpgw_forward =
  uf_preambleSize :: nat
  uf_remoteIP :: bytes
  uf_remotePort :: "16 word"
  uf_dialIP :: bytes
  uf_dialPort :: int
  uf_conn :: nat
  uf_bytesUp :: int
  uf_bytesDown :: int
  dnsFirstWriteTime :: int
  dnsFirstReadTime :: int

record udpgw_mux =
  mux_client :: ssh_client
  portForwards :: "(16 word \<times> udpgw_forward) list"
  portForwardLRU :: lru_conns
  next_conn :: nat
  mux_now :: int
  mux_events :: "pf_event list"

text \<open>The network and the third-party DNS parser: \<open>None\<close> for an error, and the name of the first
  question, empty when there is none.\<close>

record udp_env =
  udp_server :: server_support
  ParseDNSQuestion :: "bytes \<Rightarrow> string option"
  DNSResolver :: bytes
  DialUDP :: "bytes \<Rightarrow> int \<Rightarrow> bool"
  WriteUDP :: "nat \<Rightarrow> bytes \<Rightarrow> bool"

datatype udp_action = Dropped | Relayed nat bytes

text \<open>The end of \<open>relayDownstream\<close>, after the connection of the forward was closed.\<close>

definition dns_metric :: "udp_env \<Rightarrow> udpgw_forward \<Rightarrow> int \<Rightarrow> ssh_client \<Rightarrow> ssh_client" where
  "dns_metric env fw time c = (if dnsFirstWriteTime fw > 0
     then c\<lparr>qualityMetrics := updateQualityMetricsWithDNSResult (dnsFirstReadTime fw \<noteq> 0)
       ((if dnsFirstReadTime fw = 0 then time else dnsFirstReadTime fw) - dnsFirstWriteTime fw)
       (IP_String (host_env (udp_server env)) (uf_dialIP fw)) (qualityMetrics c)\<rparr>
     else c)"

definition relay_ended :: "udp_env \<Rightarrow> 16 word \<Rightarrow> udpgw_forward \<Rightarrow> udpgw_mux \<Rightarrow> udpgw_mux" where
  "relay_ended env conn fw mux = mux\<lparr>portForwards := AList.delete conn (portForwards mux),
     portForwardLRU := LRU_Remove (uf_conn fw) (portForwardLRU mux),
     mux_client := dns_metric env fw (mux_now mux)
       (closedPortForward PortForwardUDP (uf_bytesUp fw) (uf_bytesDown fw) (mux_client mux))\<rparr>"

text \<open>\<open>establishedPortForward\<close>: at the limit, the oldest forward is closed and its goroutine ends. With
  nothing to close it waits for ever.\<close>

definition udp_established :: "udp_env \<Rightarrow> udpgw_mux \<Rightarrow> udpgw_mux option" where
  "udp_established env mux = (case allocatePortForward PortForwardUDP False (mux_client mux) of
     None \<Rightarrow> None
   | Some (True, c) \<Rightarrow> Some (mux\<lparr>mux_client := c\<rparr>)
   | Some (False, _) \<Rightarrow> (case LRU_CloseOldest (portForwardLRU mux) of
       (_, None) \<Rightarrow> None
     | (lru, Some conn) \<Rightarrow> (case find (\<lambda>(k, fw). uf_conn fw = conn) (portForwards mux) of
         None \<Rightarrow> None
       | Some (k, fw) \<Rightarrow>
           let mux1 = relay_ended env k fw (mux\<lparr>portForwardLRU := lru\<rparr>)
           in (case allocatePortForward PortForwardUDP False (mux_client mux1) of
                 Some (True, c) \<Rightarrow> Some (mux1\<lparr>mux_client := c\<rparr>) | _ \<Rightarrow> None))))"

definition same_target :: "udpgw_forward \<Rightarrow> udpgw_message \<Rightarrow> bool" where
  "same_target fw m \<longleftrightarrow> \<not> (discardExistingConn m \<or> uf_remoteIP fw \<noteq> remoteIP m \<or> uf_remotePort fw \<noteq> remotePort m)"

text \<open>The domain check of a new forward: whether the packet is dropped, and the events.\<close>

definition dns_dropped :: "udp_env \<Rightarrow> udpgw_message \<Rightarrow> bool \<times> pf_event list" where
  "dns_dropped env m =
    (if forwardDNS m \<or> remotePort m = 53 then
       (case ParseDNSQuestion env (packet m) of None \<Rightarrow> (True, [])
        | Some domain \<Rightarrow>
            if domain \<noteq> [] then (case isDomainPermitted (udp_server env) domain of (reason, evs) \<Rightarrow> (reason \<noteq> None, evs))
            else (False, []))
     else (False, []))"

text \<open>The address to dial: the resolver's for transparent DNS, else the one of the message if it is
  permitted.\<close>

definition udp_target :: "udp_env \<Rightarrow> udpgw_message \<Rightarrow> udpgw_mux \<Rightarrow> ((bytes \<times> int) option \<times> udpgw_mux) option" where
  "udp_target env m mux =
    (if forwardDNS m then Some (Some (DNSResolver env, 53), mux)
     else map_option (\<lambda>(permitted, evs, c).
         (if permitted then Some (remoteIP m, uint (remotePort m)) else None,
          mux\<lparr>mux_client := c, mux_events := mux_events mux @ evs\<rparr>))
       (isPortForwardPermitted (udp_server env) PortForwardUDP (remoteIP m) (uint (remotePort m)) (mux_client mux)))"

definition add_forward :: "udpgw_message \<Rightarrow> bytes \<Rightarrow> int \<Rightarrow> udpgw_mux \<Rightarrow> udpgw_forward \<times> udpgw_mux" where
  "add_forward m dialIP dialPort mux =
    (let conn = next_conn mux;
         fw = \<lparr>uf_preambleSize = preambleSize m, uf_remoteIP = remoteIP m, uf_remotePort = remotePort m,
           uf_dialIP = dialIP, uf_dialPort = dialPort, uf_conn = conn, uf_bytesUp = 0, uf_bytesDown = 0,
           dnsFirstWriteTime = (if forwardDNS m then mux_now mux else 0), dnsFirstReadTime = 0\<rparr>
     in (fw, mux\<lparr>next_conn := conn + 1, portForwardLRU := LRU_Add conn (portForwardLRU mux),
               portForwards := AList.update (connID m) fw (portForwards mux)\<rparr>))"

text \<open>The new forward of a message, or none when the message is dropped.\<close>

definition new_forward :: "udp_env \<Rightarrow> udpgw_message \<Rightarrow> udpgw_mux \<Rightarrow> (udpgw_forward option \<times> udpgw_mux) option" where
  "new_forward env m mux = (case dns_dropped env m of (dropped, evs) \<Rightarrow>
     let mux1 = mux\<lparr>mux_events := mux_events mux @ evs\<rparr>
     in if dropped then Some (None, mux1)
        else (case udp_target env m mux1 of None \<Rightarrow> None
          | Some (None, mux2) \<Rightarrow> Some (None, mux2)
          | Some (Some (dialIP, dialPort), mux2) \<Rightarrow>
              (case udp_established env mux2 of None \<Rightarrow> None
               | Some mux3 \<Rightarrow>
                   if \<not> DialUDP env dialIP dialPort
                   then Some (None, mux3\<lparr>mux_client := closedPortForward PortForwardUDP 0 0 (mux_client mux3)\<rparr>)
                   else (case add_forward m dialIP dialPort mux3 of (fw, mux4) \<Rightarrow> Some (Some fw, mux4)))))"

text \<open>The write upstream; when it fails the forward is closed, and its goroutine ends.\<close>

definition relay_upstream :: "udp_env \<Rightarrow> udpgw_message \<Rightarrow> udpgw_forward \<Rightarrow> udpgw_mux \<Rightarrow> udpgw_mux" where
  "relay_upstream env m fw mux =
    (let fw' = fw\<lparr>uf_bytesUp := uf_bytesUp fw + int (length (packet m))\<rparr>;
         mux' = mux\<lparr>portForwards := AList.update (connID m) fw' (portForwards mux),
                   portForwardLRU := LRU_Touch (uf_conn fw) (portForwardLRU mux)\<rparr>
     in if WriteUDP env (uf_conn fw) (packet m) then mux' else relay_ended env (connID m) fw' mux')"

definition existing_forward :: "udp_env \<Rightarrow> udpgw_message \<Rightarrow> udpgw_mux \<Rightarrow> udpgw_forward option \<times> udpgw_mux" where
  "existing_forward env m mux = (case map_of (portForwards mux) (connID m) of
     None \<Rightarrow> (None, mux)
   | Some fw \<Rightarrow> if same_target fw m then (Some fw, mux) else (None, relay_ended env (connID m) fw mux))"

definition handle_message :: "udp_env \<Rightarrow> udpgw_message \<Rightarrow> udpgw_mux \<Rightarrow> (udp_action \<times> udpgw_mux) option" where
  "handle_message env m mux = (case existing_forward env m mux of
     (Some fw, mux1) \<Rightarrow> Some (Relayed (uf_conn fw) (packet m), relay_upstream env m fw mux1)
   | (None, mux1) \<Rightarrow> (case new_forward env m mux1 of None \<Rightarrow> None
       | Some (None, mux2) \<Rightarrow> Some (Dropped, mux2)
       | Some (Some fw, mux2) \<Rightarrow> Some (Relayed (uf_conn fw) (packet m), relay_upstream env m fw mux2)))"

text \<open>A downstream packet of a forward, which gives the message to send; and the end of a forward that
  was idle or whose connection failed.\<close>

definition relay_packet :: "16 word \<Rightarrow> bytes \<Rightarrow> bytes \<Rightarrow> udpgw_mux \<Rightarrow> (bytes \<times> udpgw_mux) option" where
  "relay_packet conn payload buffer mux = (case map_of (portForwards mux) conn of None \<Rightarrow> None
   | Some fw \<Rightarrow> (case relay_message (uf_preambleSize fw) conn (uf_remoteIP fw) (uf_remotePort fw) payload buffer of
       Inl e \<Rightarrow> None
     | Inr frame \<Rightarrow>
         let fw' = fw\<lparr>uf_bytesDown := uf_bytesDown fw + int (length payload),
               dnsFirstReadTime := (if dnsFirstWriteTime fw > 0 \<and> dnsFirstReadTime fw = 0 then mux_now mux else dnsFirstReadTime fw)\<rparr>
         in Some (frame, mux\<lparr>portForwards := AList.update conn fw' (portForwards mux),
              portForwardLRU := LRU_Touch (uf_conn fw) (portForwardLRU mux)\<rparr>)))"

definition forward_ends :: "udp_env \<Rightarrow> 16 word \<Rightarrow> udpgw_mux \<Rightarrow> udpgw_mux" where
  "forward_ends env conn mux = (case map_of (portForwards mux) conn of None \<Rightarrow> mux | Some fw \<Rightarrow> relay_ended env conn fw mux)"

section \<open>Invariant of the multiplexer\<close>

definition uconns :: "ssh_client \<Rightarrow> int" where
  "uconns c = concurrentPortForwardCount (udpTrafficState c)"

lemma udp_closed [simp]:
  "uconns (closedPortForward PortForwardUDP u d c) = uconns c - 1"
  "trafficRules (closedPortForward PortForwardUDP u d c) = trafficRules c"
  by (simp_all add: uconns_def closedPortForward_def set_traffic_def traffic_of_def Let_def)

lemma dns_metric_sel [simp]:
  "uconns (dns_metric env fw time c) = uconns c" "trafficRules (dns_metric env fw time c) = trafficRules c"
  by (simp_all add: dns_metric_def uconns_def)

lemma udp_granted:
  assumes "allocatePortForward PortForwardUDP b c = Some (True, c')"
  shows "uconns c' = uconns c + 1 \<and> trafficRules c' = trafficRules c \<and>
    (\<exists>lim. MaxUDPPortForwardCount (trafficRules c) = Some lim \<and> (lim \<le> 0 \<or> uconns c < lim))"
  using assms by (auto simp: allocatePortForward_def max_count_def uconns_def traffic_of_def set_traffic_def
    count_established_def Let_def split: option.splits if_splits)

lemma udp_refused:
  assumes "allocatePortForward PortForwardUDP b c = Some (False, c')"
  shows "c' = c \<and> (\<exists>lim. MaxUDPPortForwardCount (trafficRules c) = Some lim \<and> 0 < lim \<and> lim \<le> uconns c)"
  using assms by (auto simp: allocatePortForward_def max_count_def uconns_def traffic_of_def split: option.splits if_splits)

lemma udp_allocates:
  "MaxUDPPortForwardCount (trafficRules c) = Some lim \<Longrightarrow> \<exists>ok c'. allocatePortForward PortForwardUDP b c = Some (ok, c')
    \<and> (ok \<longleftrightarrow> lim \<le> 0 \<or> uconns c < lim)"
  by (auto simp: allocatePortForward_def max_count_def uconns_def traffic_of_def)

lemma permitted_client:
  "isPortForwardPermitted sv t ip port c = Some (b, evs, c') \<Longrightarrow> uconns c' = uconns c \<and> trafficRules c' = trafficRules c"
  by (auto simp: isPortForwardPermitted_def uconns_def split: if_splits prod.splits)

definition forward_conns :: "(16 word \<times> udpgw_forward) list \<Rightarrow> nat list" where
  "forward_conns fs = map (\<lambda>(k, fw). uf_conn fw) fs"

text \<open>Slots that are taken and have no forward yet are the first argument.\<close>

definition slots_inv :: "int \<Rightarrow> udpgw_mux \<Rightarrow> bool" where
  "slots_inv e mux \<longleftrightarrow> distinct (map fst (portForwards mux)) \<and> distinct (forward_conns (portForwards mux)) \<and>
     distinct (portForwardLRU mux) \<and> set (portForwardLRU mux) = set (forward_conns (portForwards mux)) \<and>
     (\<forall>c\<in>set (forward_conns (portForwards mux)). c < next_conn mux) \<and>
     (\<forall>(k, fw)\<in>set (portForwards mux). uf_preambleSize fw = 7 + length (uf_remoteIP fw)) \<and>
     uconns (mux_client mux) = int (length (portForwards mux)) + e"

lemma delete_at:
  assumes "distinct (map fst fs)" "map_of fs k = Some v"
  shows "\<exists>xs ys. fs = xs @ (k, v) # ys \<and> AList.delete k fs = xs @ ys \<and> k \<notin> fst ` set (xs @ ys)"
proof -
  have "(k, v) \<in> set fs" using assms(2) by (rule map_of_SomeD)
  then obtain xs ys where fs: "fs = xs @ (k, v) # ys" by (metis split_list)
  then have k: "k \<notin> fst ` set (xs @ ys)" using assms(1) by auto
  then have "AList.delete k xs = xs" "AList.delete k ys = ys" by (force simp: AList.delete_eq filter_id_conv)+
  then show ?thesis using fs k by (intro exI [of _ xs] exI [of _ ys]) (simp add: AList.delete_eq)
qed

lemma update_at:
  assumes "distinct (map fst fs)" "map_of fs k = Some v"
  shows "\<exists>xs ys. fs = xs @ (k, v) # ys \<and> AList.update k w fs = xs @ (k, w) # ys"
proof -
  have "(k, v) \<in> set fs" using assms(2) by (rule map_of_SomeD)
  then obtain xs ys where fs: "fs = xs @ (k, v) # ys" by (metis split_list)
  then have "k \<notin> fst ` set xs" using assms(1) by auto
  then have "AList.update k w (xs @ (k, v) # ys) = xs @ (k, w) # ys" by (induction xs) auto
  then show ?thesis using fs by blast
qed

lemma update_new: "k \<notin> fst ` set fs \<Longrightarrow> AList.update k w fs = fs @ [(k, w)]"
  by (induction fs) auto

text \<open>The end of a forward, also when its connection was taken off the list before.\<close>

lemma relay_ended_inv:
  assumes "slots_inv e mux" "map_of (portForwards mux) k = Some fw"
    "lru = portForwardLRU mux \<or> lru = remove1 (uf_conn fw) (portForwardLRU mux)"
  shows "slots_inv e (relay_ended env k fw (mux\<lparr>portForwardLRU := lru\<rparr>))"
proof -
  have "distinct (map fst (portForwards mux))" using assms(1) by (simp add: slots_inv_def)
  then obtain xs ys where f: "portForwards mux = xs @ (k, fw) # ys" "AList.delete k (portForwards mux) = xs @ ys"
    using delete_at [OF _ assms(2)] by blast
  have d: "distinct (portForwardLRU mux)" using assms(1) by (simp add: slots_inv_def)
  have "remove1 c (remove1 c l) = remove1 c l" if "distinct l" for c :: nat and l
    using that by (intro remove1_idem) simp
  then have r: "remove1 (uf_conn fw) lru = remove1 (uf_conn fw) (portForwardLRU mux)"
    using assms(3) d by metis
  have n: "uf_conn fw \<notin> set (forward_conns (xs @ ys))"
    using assms(1) f(1) by (auto simp: slots_inv_def forward_conns_def)
  have "set (remove1 (uf_conn fw) (portForwardLRU mux)) = set (forward_conns (xs @ ys))"
    using assms(1) n f(1) d by (auto simp: slots_inv_def forward_conns_def)
  moreover let ?t = "relay_ended env k fw (mux\<lparr>portForwardLRU := lru\<rparr>)"
  have "portForwards ?t = xs @ ys" "portForwardLRU ?t = remove1 (uf_conn fw) (portForwardLRU mux)"
    "uconns (mux_client ?t) = uconns (mux_client mux) - 1" "next_conn ?t = next_conn mux"
    using f(2) r by (simp_all add: relay_ended_def LRU_Remove_def)
  moreover have "distinct (map fst (xs @ ys))" "distinct (forward_conns (xs @ ys))"
    "\<forall>c\<in>set (forward_conns (xs @ ys)). c < next_conn mux"
    "\<forall>(k, fw)\<in>set (xs @ ys). uf_preambleSize fw = 7 + length (uf_remoteIP fw)"
    "uconns (mux_client mux) - 1 = int (length (xs @ ys)) + e"
    using assms(1) f(1) by (simp_all add: slots_inv_def forward_conns_def)
  ultimately show ?thesis using d by (simp only: slots_inv_def distinct_remove1)
qed

lemma relay_ended_inv':
  "slots_inv e mux \<Longrightarrow> map_of (portForwards mux) k = Some fw \<Longrightarrow> slots_inv e (relay_ended env k fw mux)"
  using relay_ended_inv [of e mux k fw "portForwardLRU mux" env] by simp

lemma relay_ended_length:
  assumes "slots_inv e mux" "map_of (portForwards mux) k = Some fw"
  shows "uconns (mux_client (relay_ended env k fw mux)) = uconns (mux_client mux) - 1"
    "trafficRules (mux_client (relay_ended env k fw mux)) = trafficRules (mux_client mux)"
    "k \<notin> fst ` set (portForwards (relay_ended env k fw mux))"
    "fst ` set (portForwards (relay_ended env k fw mux)) \<subseteq> fst ` set (portForwards mux)"
  using delete_at [OF _ assms(2)] assms(1) by (auto simp: relay_ended_def slots_inv_def)

lemma established_inv:
  assumes "slots_inv 0 mux" "udp_established env mux = Some t"
  shows "slots_inv 1 t \<and> fst ` set (portForwards t) \<subseteq> fst ` set (portForwards mux) \<and>
    trafficRules (mux_client t) = trafficRules (mux_client mux) \<and>
    (\<exists>lim. MaxUDPPortForwardCount (trafficRules (mux_client mux)) = Some lim \<and> (lim \<le> 0 \<or> uconns (mux_client t) \<le> lim))"
proof -
  obtain ok c where a: "allocatePortForward PortForwardUDP False (mux_client mux) = Some (ok, c)"
    using assms(2) by (auto simp: udp_established_def split: option.splits)
  show ?thesis
  proof (cases ok)
    case True
    then have t: "t = mux\<lparr>mux_client := c\<rparr>" using assms(2) a by (simp add: udp_established_def)
    show ?thesis using udp_granted [of False "mux_client mux" c] a True assms(1) by (auto simp: t slots_inv_def)
  next
    case False
    obtain lru conn where o: "LRU_CloseOldest (portForwardLRU mux) = (lru, Some conn)"
      using assms(2) a False by (auto simp: udp_established_def split: prod.splits option.splits)
    then have ne: "portForwardLRU mux \<noteq> []" "lru = butlast (portForwardLRU mux)" "conn = last (portForwardLRU mux)"
      by (auto simp: LRU_CloseOldest_def split: if_splits)
    obtain k fw where k: "find (\<lambda>(k, fw). uf_conn fw = conn) (portForwards mux) = Some (k, fw)"
      using assms(2) a False o by (auto simp: udp_established_def split: option.splits)
    let ?m = "relay_ended env k fw (mux\<lparr>portForwardLRU := lru\<rparr>)"
    obtain c' where c': "allocatePortForward PortForwardUDP False (mux_client ?m) = Some (True, c')" "t = ?m\<lparr>mux_client := c'\<rparr>"
      using assms(2) a False o k by (auto simp: udp_established_def Let_def split: option.splits prod.splits bool.splits)
    have fw: "uf_conn fw = conn" "(k, fw) \<in> set (portForwards mux)" using k by (auto simp: find_Some_iff in_set_conv_nth)
    have "distinct (map fst (portForwards mux))" using assms(1) by (simp add: slots_inv_def)
    then have m: "map_of (portForwards mux) k = Some fw" using fw(2) by simp
    have "lru = remove1 (uf_conn fw) (portForwardLRU mux)"
      using ne fw remove1_last [of "portForwardLRU mux"] assms(1) by (simp add: slots_inv_def)
    then have inv: "slots_inv 0 ?m" using relay_ended_inv [OF assms(1) m, of lru] by simp
    have s: "fst ` set (portForwards ?m) \<subseteq> fst ` set (portForwards mux)"
      "trafficRules (mux_client ?m) = trafficRules (mux_client mux)"
      using delete_at [OF \<open>distinct (map fst (portForwards mux))\<close> m] by (auto simp: relay_ended_def)
    show ?thesis using udp_granted [OF c'(1)] inv s by (auto simp: c'(2) slots_inv_def)
  qed
qed

lemma add_forward_inv:
  assumes "slots_inv 1 mux" "connID m \<notin> fst ` set (portForwards mux)" "preambleSize m = 7 + length (remoteIP m)"
    "add_forward m ip port mux = (fw, t)"
  shows "slots_inv 0 t \<and> map_of (portForwards t) (connID m) = Some fw \<and> mux_client t = mux_client mux"
proof -
  have fw: "uf_conn fw = next_conn mux" "uf_preambleSize fw = 7 + length (uf_remoteIP fw)"
    and t: "t = mux\<lparr>next_conn := next_conn mux + 1, portForwardLRU := next_conn mux # portForwardLRU mux,
       portForwards := portForwards mux @ [(connID m, fw)]\<rparr>"
    using assms(3,4) update_new [OF assms(2)] by (auto simp: add_forward_def Let_def LRU_Add_def)
  have "\<forall>c\<in>set (forward_conns (portForwards mux)). c < next_conn mux" using assms(1) by (simp add: slots_inv_def)
  then have "next_conn mux \<notin> set (forward_conns (portForwards mux))"
    "\<forall>c\<in>set (forward_conns (portForwards mux)). c < Suc (next_conn mux)" by (auto simp: less_SucI)
  moreover have "map_of (portForwards mux) (connID m) = None" using assms(2) by (simp add: map_of_eq_None_iff)
  ultimately show ?thesis
    using assms(1,2) fw unfolding t slots_inv_def by (simp add: forward_conns_def map_add_def)
qed

lemma touch_update_inv:
  assumes "slots_inv e mux" "map_of (portForwards mux) k = Some fw" "uf_conn fw' = uf_conn fw"
    "uf_preambleSize fw' = uf_preambleSize fw" "uf_remoteIP fw' = uf_remoteIP fw"
  shows "slots_inv e (mux\<lparr>portForwards := AList.update k fw' (portForwards mux),
      portForwardLRU := LRU_Touch (uf_conn fw) (portForwardLRU mux)\<rparr>) \<and>
    map_of (AList.update k fw' (portForwards mux)) k = Some fw' \<and>
    length (AList.update k fw' (portForwards mux)) = length (portForwards mux)"
proof -
  have dk: "distinct (map fst (portForwards mux))" and dl: "distinct (portForwardLRU mux)"
    using assms(1) by (simp_all add: slots_inv_def)
  obtain xs ys where f: "portForwards mux = xs @ (k, fw) # ys" "AList.update k fw' (portForwards mux) = xs @ (k, fw') # ys"
    using update_at [OF dk assms(2)] by blast
  have c: "forward_conns (xs @ (k, fw') # ys) = forward_conns (portForwards mux)"
    by (simp add: forward_conns_def f(1) assms(3))
  have touch: "set (LRU_Touch c (portForwardLRU mux)) = set (portForwardLRU mux)" "distinct (LRU_Touch c (portForwardLRU mux))" for c
    using dl by (auto simp: LRU_Touch_def)
  have u: "\<forall>(k, fw)\<in>set (xs @ (k, fw') # ys). uf_preambleSize fw = 7 + length (uf_remoteIP fw)"
    "distinct (map fst (xs @ (k, fw') # ys))" "length (xs @ (k, fw') # ys) = length (portForwards mux)"
    using assms(1,4,5) f(1) by (auto simp: slots_inv_def)
  have "map_of (AList.update k fw' (portForwards mux)) k = Some fw'" by (simp add: AList.update_conv')
  then show ?thesis
    using assms(1) u touch unfolding f(2) slots_inv_def by (simp add: c)
qed

lemma relay_upstream_inv:
  assumes "slots_inv 0 mux" "map_of (portForwards mux) (connID m) = Some fw"
  shows "slots_inv 0 (relay_upstream env m fw mux) \<and>
    trafficRules (mux_client (relay_upstream env m fw mux)) = trafficRules (mux_client mux) \<and>
    uconns (mux_client (relay_upstream env m fw mux)) \<le> uconns (mux_client mux)"
proof -
  let ?fw = "fw\<lparr>uf_bytesUp := uf_bytesUp fw + int (length (packet m))\<rparr>"
  let ?mux = "mux\<lparr>portForwards := AList.update (connID m) ?fw (portForwards mux),
      portForwardLRU := LRU_Touch (uf_conn fw) (portForwardLRU mux)\<rparr>"
  have t: "slots_inv 0 ?mux" "map_of (portForwards ?mux) (connID m) = Some ?fw"
    using touch_update_inv [OF assms, of ?fw] by simp_all
  show ?thesis
  proof (cases "WriteUDP env (uf_conn fw) (packet m)")
    case True
    then show ?thesis using t(1) by (simp add: relay_upstream_def Let_def)
  next
    case False
    then have r: "relay_upstream env m fw mux = relay_ended env (connID m) ?fw ?mux" by (simp add: relay_upstream_def Let_def)
    show ?thesis using relay_ended_inv' [OF t, of env] relay_ended_length(1,2) [OF t, of env] unfolding r by simp
  qed
qed

text \<open>All messages of the reader have the size of their preamble.\<close>

lemma message_of_preamble: "message_of sz b = Inr m \<Longrightarrow> length b = 32791 \<Longrightarrow> preambleSize m = 7 + length (remoteIP m)"
  by (auto simp: message_of_def Let_def slice_of_def split: if_splits)

definition bounded :: "int \<Rightarrow> ssh_client \<Rightarrow> bool" where
  "bounded b c \<longleftrightarrow> (\<exists>lim. MaxUDPPortForwardCount (trafficRules c) = Some lim \<and> 0 < lim \<and> lim \<le> b) \<and> uconns c \<le> b"

lemma existing_forward_inv:
  assumes "slots_inv 0 mux" "existing_forward env m mux = (r, t)"
  shows "slots_inv 0 t \<and> (case r of Some fw \<Rightarrow> map_of (portForwards t) (connID m) = Some fw
      | None \<Rightarrow> connID m \<notin> fst ` set (portForwards t))
    \<and> trafficRules (mux_client t) = trafficRules (mux_client mux) \<and> uconns (mux_client t) \<le> uconns (mux_client mux)"
proof (cases "map_of (portForwards mux) (connID m)")
  case None
  then have "r = None" "t = mux" using assms(2) by (simp_all add: existing_forward_def)
  then show ?thesis using assms(1) None by (simp add: map_of_eq_None_iff)
next
  case (Some fw)
  show ?thesis
  proof (cases "same_target fw m")
    case True
    then have "r = Some fw" "t = mux" using assms(2) Some by (simp_all add: existing_forward_def)
    then show ?thesis using assms(1) Some by simp
  next
    case False
    then have "r = None" "t = relay_ended env (connID m) fw mux" using assms(2) Some by (auto simp: existing_forward_def)
    then show ?thesis using relay_ended_inv' [OF assms(1) Some] relay_ended_length [OF assms(1) Some] by simp
  qed
qed

lemma udp_target_client:
  assumes "udp_target env m mux = Some (target, t)"
  shows "\<exists>c evs. t = mux\<lparr>mux_client := c, mux_events := mux_events mux @ evs\<rparr> \<and> uconns c = uconns (mux_client mux) \<and>
    trafficRules c = trafficRules (mux_client mux)"
proof (cases "forwardDNS m")
  case True
  then show ?thesis using assms by (intro exI [of _ "mux_client mux"] exI [of _ "[]"]) (simp add: udp_target_def)
next
  case False
  then obtain b evs c where "isPortForwardPermitted (udp_server env) PortForwardUDP (remoteIP m) (uint (remotePort m)) (mux_client mux)
      = Some (b, evs, c)" "t = mux\<lparr>mux_client := c, mux_events := mux_events mux @ evs\<rparr>"
    using assms by (auto simp: udp_target_def)
  then show ?thesis using permitted_client by blast
qed

lemma frame_slots:
  "slots_inv e (mux\<lparr>mux_client := c, mux_events := evs\<rparr>) = slots_inv (e + uconns (mux_client mux) - uconns c) mux"
  "slots_inv e (mux\<lparr>mux_events := evs\<rparr>) = slots_inv e mux"
  "slots_inv e (mux\<lparr>mux_client := c\<rparr>) = slots_inv (e + uconns (mux_client mux) - uconns c) mux"
  by (auto simp: slots_inv_def)

lemma new_forward_inv:
  assumes "slots_inv 0 mux" "connID m \<notin> fst ` set (portForwards mux)" "preambleSize m = 7 + length (remoteIP m)"
    "new_forward env m mux = Some (r, t)"
  shows "slots_inv 0 t \<and> (\<forall>fw. r = Some fw \<longrightarrow> map_of (portForwards t) (connID m) = Some fw)
    \<and> trafficRules (mux_client t) = trafficRules (mux_client mux) \<and> (bounded b (mux_client mux) \<longrightarrow> uconns (mux_client t) \<le> b)"
proof -
  obtain dropped evs where d: "dns_dropped env m = (dropped, evs)" by fastforce
  let ?m1 = "mux\<lparr>mux_events := mux_events mux @ evs\<rparr>"
  show ?thesis
  proof (cases "dropped")
    case True
    then have "r = None" "t = ?m1" using assms(4) d by (simp_all add: new_forward_def)
    then show ?thesis using assms(1) by (simp add: frame_slots bounded_def)
  next
    case False
    obtain target m2 where t2: "udp_target env m ?m1 = Some (target, m2)"
      using assms(4) d False by (auto simp: new_forward_def split: option.splits)
    obtain c evs2 where m2: "m2 = ?m1\<lparr>mux_client := c, mux_events := mux_events ?m1 @ evs2\<rparr>" "uconns c = uconns (mux_client mux)"
        "trafficRules c = trafficRules (mux_client mux)"
      using udp_target_client [OF t2] by auto
    have inv2: "slots_inv 0 m2" using assms(1) m2 by (simp add: frame_slots)
    have keys2: "connID m \<notin> fst ` set (portForwards m2)" using assms(2) m2 by simp
    show ?thesis
    proof (cases target)
      case None
      then have "r = None" "t = m2" using assms(4) d False t2 by (simp_all add: new_forward_def)
      then show ?thesis using inv2 m2 by (simp add: bounded_def)
    next
      case (Some a)
      then obtain ip port where a: "target = Some (ip, port)" by (cases a) simp
      obtain m3 where m3: "udp_established env m2 = Some m3"
        using assms(4) d False t2 a by (auto simp: new_forward_def split: option.splits)
      note E = established_inv [OF inv2 m3]
      have keys3: "connID m \<notin> fst ` set (portForwards m3)" using E keys2 by blast
      have b: "bounded b (mux_client mux) \<longrightarrow> uconns (mux_client m3) \<le> b"
        using E m2 by (auto simp: bounded_def)
      show ?thesis
      proof (cases "DialUDP env ip port")
        case True
        obtain fw m4 where m4: "add_forward m ip port m3 = (fw, m4)" by fastforce
        then have "r = Some fw" "t = m4" using assms(4) d False t2 a m3 True by (simp_all add: new_forward_def)
        then show ?thesis using add_forward_inv [OF conjunct1 [OF E] keys3 assms(3) m4] E m2 b by simp
      next
        case False
        then have "r = None" "t = m3\<lparr>mux_client := closedPortForward PortForwardUDP 0 0 (mux_client m3)\<rparr>"
          using assms(4) d \<open>\<not> dropped\<close> t2 a m3 by (simp_all add: new_forward_def)
        then show ?thesis using E m2 b by (auto simp: frame_slots)
      qed
    qed
  qed
qed

lemma handle_message_inv:
  assumes "slots_inv 0 mux" "preambleSize m = 7 + length (remoteIP m)" "handle_message env m mux = Some (a, t)"
  shows "slots_inv 0 t \<and> trafficRules (mux_client t) = trafficRules (mux_client mux) \<and>
    (bounded b (mux_client mux) \<longrightarrow> uconns (mux_client t) \<le> b)"
proof -
  obtain r m1 where e: "existing_forward env m mux = (r, m1)" by fastforce
  note E = existing_forward_inv [OF assms(1) e]
  show ?thesis
  proof (cases r)
    case (Some fw)
    then have "t = relay_upstream env m fw m1" using assms(3) e by (simp add: handle_message_def)
    then show ?thesis using relay_upstream_inv [of m1 m fw env] E Some by (auto simp: bounded_def)
  next
    case None
    then obtain r2 m2 where n: "new_forward env m m1 = Some (r2, m2)"
      using assms(3) e by (auto simp: handle_message_def split: option.splits)
    have "bounded b (mux_client mux) \<Longrightarrow> bounded b (mux_client m1)" using E by (auto simp: bounded_def)
    then have N: "slots_inv 0 m2" "\<forall>fw. r2 = Some fw \<longrightarrow> map_of (portForwards m2) (connID m) = Some fw"
      "trafficRules (mux_client m2) = trafficRules (mux_client mux)" "bounded b (mux_client mux) \<longrightarrow> uconns (mux_client m2) \<le> b"
      using new_forward_inv [OF _ _ assms(2) n, of b] E None by auto
    show ?thesis
    proof (cases r2)
      case None
      then show ?thesis using assms(3) e \<open>r = None\<close> n N by (simp add: handle_message_def)
    next
      case (Some fw)
      then have "t = relay_upstream env m fw m2" using assms(3) e \<open>r = None\<close> n by (simp add: handle_message_def)
      then show ?thesis using relay_upstream_inv [of m2 m fw env] N Some by auto
    qed
  qed
qed

section \<open>Runs of the multiplexer\<close>

definition newUdpgwMultiplexer :: "ssh_client \<Rightarrow> udpgw_mux" where
  "newUdpgwMultiplexer c = \<lparr>mux_client = c, portForwards = [], portForwardLRU = NewLRUConns, next_conn = 0,
     mux_now = 1, mux_events = []\<rparr>"

text \<open>Messages and packets, ends of forwards, the clock, and changes of the client that leave its UDP
  counters alone: a reload of the rules, the handshake, TCP port forwards.\<close>

inductive mux_step :: "udp_env \<Rightarrow> (traffic_rules \<Rightarrow> bool) \<Rightarrow> udpgw_mux \<Rightarrow> udpgw_mux \<Rightarrow> bool" for env ok where
  Message: "preambleSize m = 7 + length (remoteIP m) \<Longrightarrow> handle_message env m mux = Some (a, t) \<Longrightarrow> mux_step env ok mux t"
| Downstream: "relay_packet conn payload buffer mux = Some (frame, t) \<Longrightarrow> mux_step env ok mux t"
| Ends: "mux_step env ok mux (forward_ends env conn mux)"
| Clock: "0 \<le> d \<Longrightarrow> mux_step env ok mux (mux\<lparr>mux_now := mux_now mux + d\<rparr>)"
| Client: "udpTrafficState c = udpTrafficState (mux_client mux) \<Longrightarrow> ok (trafficRules c) \<Longrightarrow>
    mux_step env ok mux (mux\<lparr>mux_client := c\<rparr>)"

text \<open>A channel starts with no forwards of its predecessor, which \<open>setUdpgwChannelHandler\<close> stopped.\<close>

inductive mux_reachable :: "udp_env \<Rightarrow> (traffic_rules \<Rightarrow> bool) \<Rightarrow> udpgw_mux \<Rightarrow> bool" for env ok where
  start: "uconns c = 0 \<Longrightarrow> ok (trafficRules c) \<Longrightarrow> mux_reachable env ok (newUdpgwMultiplexer c)"
| step: "mux_reachable env ok mux \<Longrightarrow> mux_step env ok mux t \<Longrightarrow> mux_reachable env ok t"

definition limits_udp :: "int \<Rightarrow> (traffic_rules \<Rightarrow> bool) \<Rightarrow> bool" where
  "limits_udp b ok \<longleftrightarrow> (\<forall>r. ok r \<longrightarrow> (\<exists>lim. MaxUDPPortForwardCount r = Some lim \<and> 0 < lim \<and> lim \<le> b))"

lemma relay_packet_inv:
  assumes "slots_inv 0 mux" "relay_packet conn payload buffer mux = Some (frame, t)"
  shows "slots_inv 0 t \<and> mux_client t = mux_client mux"
proof -
  obtain fw where fw: "map_of (portForwards mux) conn = Some fw"
    using assms(2) by (auto simp: relay_packet_def split: option.splits)
  obtain f where f: "relay_message (uf_preambleSize fw) conn (uf_remoteIP fw) (uf_remotePort fw) payload buffer = Inr f"
    using assms(2) fw by (auto simp: relay_packet_def split: sum.splits)
  let ?fw = "fw\<lparr>uf_bytesDown := uf_bytesDown fw + int (length payload),
    dnsFirstReadTime := (if dnsFirstWriteTime fw > 0 \<and> dnsFirstReadTime fw = 0 then mux_now mux else dnsFirstReadTime fw)\<rparr>"
  have "t = mux\<lparr>portForwards := AList.update conn ?fw (portForwards mux),
      portForwardLRU := LRU_Touch (uf_conn fw) (portForwardLRU mux)\<rparr>"
    using assms(2) fw f by (simp add: relay_packet_def Let_def)
  then show ?thesis using touch_update_inv [OF assms(1) fw, of ?fw] by simp
qed

lemma forward_ends_inv:
  assumes "slots_inv 0 mux"
  shows "slots_inv 0 (forward_ends env conn mux) \<and>
    trafficRules (mux_client (forward_ends env conn mux)) = trafficRules (mux_client mux) \<and>
    uconns (mux_client (forward_ends env conn mux)) \<le> uconns (mux_client mux)"
proof (cases "map_of (portForwards mux) conn")
  case (Some fw)
  then show ?thesis using relay_ended_inv' [OF assms Some] relay_ended_length [OF assms Some] by (simp add: forward_ends_def)
qed (use assms in \<open>simp add: forward_ends_def\<close>)

lemma mux_step_inv:
  assumes "mux_step env ok mux t" "slots_inv 0 mux" "ok (trafficRules (mux_client mux))"
  shows "slots_inv 0 t \<and> ok (trafficRules (mux_client t)) \<and> (bounded b (mux_client mux) \<longrightarrow> uconns (mux_client t) \<le> b)"
  using assms(1)
proof cases
  case (Message m a)
  then show ?thesis using handle_message_inv [OF assms(2) Message(1,2), of b] assms(3) by simp
next
  case (Downstream conn payload buffer frame)
  then show ?thesis using relay_packet_inv [OF assms(2) Downstream] assms(3) by (simp add: bounded_def)
next
  case (Ends conn)
  then show ?thesis using forward_ends_inv [OF assms(2), of env conn] assms(3) by (simp add: bounded_def)
next
  case (Clock d)
  then show ?thesis using assms(2,3) by (simp add: bounded_def slots_inv_def)
next
  case (Client c)
  then have "uconns c = uconns (mux_client mux)" by (simp add: uconns_def)
  then show ?thesis using Client assms(2) by (simp add: frame_slots bounded_def)
qed

lemma mux_reachable_inv: "mux_reachable env ok mux \<Longrightarrow> slots_inv 0 mux \<and> ok (trafficRules (mux_client mux))"
proof (induction rule: mux_reachable.induct)
  case (start c)
  then show ?case by (simp add: newUdpgwMultiplexer_def slots_inv_def NewLRUConns_def forward_conns_def)
next
  case (step mux t)
  then show ?case using mux_step_inv by blast
qed

lemma mux_reachable_bounded:
  assumes "mux_reachable env ok mux" "limits_udp b ok"
  shows "bounded b (mux_client mux)"
  using assms(1)
proof (induction rule: mux_reachable.induct)
  case (start c)
  then have "\<exists>lim. MaxUDPPortForwardCount (trafficRules c) = Some lim \<and> 0 < lim \<and> lim \<le> b"
    using assms(2) by (simp add: limits_udp_def)
  then show ?case using start(1) by (auto simp: bounded_def newUdpgwMultiplexer_def)
next
  case (step mux t)
  note M = mux_reachable_inv [OF step(1)]
  have "slots_inv 0 t \<and> ok (trafficRules (mux_client t)) \<and> (bounded b (mux_client mux) \<longrightarrow> uconns (mux_client t) \<le> b)"
    using mux_step_inv [OF step(2)] M by blast
  then show ?case using step(3) assms(2) by (auto simp: bounded_def limits_udp_def)
qed


text \<open>A new forward at the limit: with rules of one limit, the loop goes on.\<close>

lemma udp_established_returns:
  assumes "slots_inv 0 mux" "MaxUDPPortForwardCount (trafficRules (mux_client mux)) = Some b" "0 < b" "uconns (mux_client mux) \<le> b"
  shows "udp_established env mux \<noteq> None"
proof (cases "uconns (mux_client mux) < b")
  case True
  then obtain c where "allocatePortForward PortForwardUDP False (mux_client mux) = Some (True, c)"
    using udp_allocates [OF assms(2)] by fastforce
  then show ?thesis by (simp add: udp_established_def)
next
  case False
  then obtain c where a: "allocatePortForward PortForwardUDP False (mux_client mux) = Some (False, c)"
    using udp_allocates [OF assms(2)] assms(3) by fastforce
  have s: "set (portForwardLRU mux) = set (forward_conns (portForwards mux))" "distinct (map fst (portForwards mux))"
    "distinct (portForwardLRU mux)" "portForwards mux \<noteq> []"
    using assms False by (auto simp: slots_inv_def)
  then have ne: "portForwardLRU mux \<noteq> []" by (cases "portForwards mux") (auto simp: forward_conns_def)
  let ?conn = "last (portForwardLRU mux)" and ?P = "\<lambda>(k :: 16 word, fw). uf_conn fw = last (portForwardLRU mux)"
  have "?conn \<in> set (forward_conns (portForwards mux))" using ne s(1) by (metis last_in_set)
  then have "\<exists>x\<in>set (portForwards mux). ?P x" unfolding forward_conns_def by force
  then have "find ?P (portForwards mux) \<noteq> None" unfolding find_None_iff by blast
  then obtain k fw where k: "find ?P (portForwards mux) = Some (k, fw)" by auto
  then have fw: "uf_conn fw = ?conn" "(k, fw) \<in> set (portForwards mux)" by (auto simp: find_Some_iff in_set_conv_nth)
  then have m: "map_of (portForwards mux) k = Some fw" using s(2) by simp
  let ?m = "relay_ended env k fw (mux\<lparr>portForwardLRU := butlast (portForwardLRU mux)\<rparr>)"
  have "butlast (portForwardLRU mux) = remove1 (uf_conn fw) (portForwardLRU mux)"
    using ne fw(1) remove1_last [OF s(3)] by simp
  have "uconns (mux_client ?m) = uconns (mux_client mux) - 1" "trafficRules (mux_client ?m) = trafficRules (mux_client mux)"
    by (simp_all add: relay_ended_def)
  then obtain c' where "allocatePortForward PortForwardUDP False (mux_client ?m) = Some (True, c')"
    using udp_allocates [of "mux_client ?m" b] assms(2,4) by fastforce
  then show ?thesis using a ne k by (simp add: udp_established_def LRU_CloseOldest_def Let_def)
qed

lemma permitted_returns:
  assumes "rules_complete (CIDR_parser sv) (trafficRules c)"
  shows "isPortForwardPermitted sv t ip port c \<noteq> None"
proof -
  have "rules_allow sv t ip port c \<noteq> None"
    using assms Allow_returns [of "CIDR_parser sv" "trafficRules c" "ASN_lookup sv" ip port]
    by (auto simp: rules_allow_def rules_complete_def simp del: not_None_eq)
  then obtain b where b: "rules_allow sv t ip port c = Some b" by auto
  obtain permitted evs where "isIPPermitted sv ip = (permitted, evs)" by fastforce
  then show ?thesis unfolding isPortForwardPermitted_def b by auto
qed

lemma new_forward_returns:
  assumes "slots_inv 0 mux" "rules_complete (CIDR_parser (udp_server env)) (trafficRules (mux_client mux))"
    "MaxUDPPortForwardCount (trafficRules (mux_client mux)) = Some b" "0 < b" "uconns (mux_client mux) \<le> b"
  shows "new_forward env m mux \<noteq> None"
proof -
  obtain dropped evs where d: "dns_dropped env m = (dropped, evs)" by fastforce
  let ?m1 = "mux\<lparr>mux_events := mux_events mux @ evs\<rparr>"
  have "udp_target env m ?m1 \<noteq> None"
    using permitted_returns [of "udp_server env" "mux_client mux"] assms(2) by (auto simp: udp_target_def simp del: not_None_eq)
  then obtain target m2 where t2: "udp_target env m ?m1 = Some (target, m2)" by auto
  then obtain c evs2 where m2: "m2 = ?m1\<lparr>mux_client := c, mux_events := mux_events ?m1 @ evs2\<rparr>" "uconns c = uconns (mux_client mux)"
      "trafficRules c = trafficRules (mux_client mux)"
    using udp_target_client by fastforce
  have "slots_inv 0 m2" using assms(1) m2 by (simp add: frame_slots)
  then have "udp_established env m2 \<noteq> None" by (rule udp_established_returns) (use assms m2 in simp_all)
  then obtain m3 where "udp_established env m2 = Some m3" by auto
  then show ?thesis using d t2
    by (cases target) (auto simp: new_forward_def Let_def split: prod.split)
qed


text \<open>What may open a forward: transparent DNS and port 53 need a DNS packet for a permitted domain, and
  everything but transparent DNS a permitted destination.\<close>

definition may_open :: "udp_env \<Rightarrow> udpgw_message \<Rightarrow> ssh_client \<Rightarrow> bool" where
  "may_open env m c \<longleftrightarrow>
    (forwardDNS m \<or> remotePort m = 53 \<longrightarrow> (\<exists>domain. ParseDNSQuestion env (packet m) = Some domain \<and>
       (domain = [] \<or> domain_permitted (udp_server env) domain))) \<and>
    (\<not> forwardDNS m \<longrightarrow> permitted_destination (udp_server env) PortForwardUDP (remoteIP m) (uint (remotePort m)) c)"

definition continues_forward :: "udpgw_mux \<Rightarrow> udpgw_message \<Rightarrow> nat \<Rightarrow> bool" where
  "continues_forward mux m conn \<longleftrightarrow>
    (\<exists>fw. map_of (portForwards mux) (connID m) = Some fw \<and> same_target fw m \<and> conn = uf_conn fw)"

lemma dns_dropped_iff: "\<not> fst (dns_dropped env m) \<longleftrightarrow> (forwardDNS m \<or> remotePort m = 53 \<longrightarrow>
    (\<exists>domain. ParseDNSQuestion env (packet m) = Some domain \<and> (domain = [] \<or> domain_permitted (udp_server env) domain)))"
  unfolding dns_dropped_def
  by (auto simp: isDomainPermitted_iff [symmetric] split: option.split prod.split)

lemma opened_forward:
  assumes "new_forward env m mux = Some (Some fw, t)" "handshaked (mux_client mux) = handshaked c"
    "trafficRules (mux_client mux) = trafficRules c"
  shows "may_open env m c"
proof -
  obtain dropped evs where d: "dns_dropped env m = (dropped, evs)" by fastforce
  have nd: "\<not> dropped" using assms(1) d by (auto simp: new_forward_def)
  let ?m1 = "mux\<lparr>mux_events := mux_events mux @ evs\<rparr>"
  obtain target m2 where t2: "udp_target env m ?m1 = Some (Some target, m2)"
    using assms(1) d nd by (auto simp: new_forward_def split: option.splits)
  have "permitted_destination (udp_server env) PortForwardUDP (remoteIP m) (uint (remotePort m)) c" if "\<not> forwardDNS m"
  proof -
    have "\<exists>evs c'. isPortForwardPermitted (udp_server env) PortForwardUDP (remoteIP m) (uint (remotePort m)) (mux_client mux)
        = Some (True, evs, c')"
      using t2 that by (auto simp: udp_target_def split: if_splits)
    then show ?thesis using assms(2,3) unfolding permitted_iff by (simp add: permitted_destination_def)
  qed
  then show ?thesis using nd d dns_dropped_iff [of env m] by (simp add: may_open_def)
qed

lemma existing_unchanged:
  "existing_forward env m mux = (r, t) \<Longrightarrow>
    handshaked (mux_client t) = handshaked (mux_client mux) \<and> trafficRules (mux_client t) = trafficRules (mux_client mux)"
  by (auto simp: existing_forward_def relay_ended_def dns_metric_def closedPortForward_def set_traffic_def Let_def
    split: option.splits if_splits)

lemma relayed_by:
  assumes "handle_message env m mux = Some (Relayed conn pkt, t)"
  shows "pkt = packet m \<and> (continues_forward mux m conn \<or> may_open env m (mux_client mux))"
proof -
  obtain r m1 where e: "existing_forward env m mux = (r, m1)" by fastforce
  show ?thesis
  proof (cases r)
    case (Some fw)
    then have "continues_forward mux m (uf_conn fw)"
      using e by (auto simp: existing_forward_def continues_forward_def split: option.splits if_splits)
    then show ?thesis using assms e Some by (auto simp: handle_message_def)
  next
    case None
    then obtain fw m2 where n: "new_forward env m m1 = Some (Some fw, m2)" "pkt = packet m"
      using assms e by (auto simp: handle_message_def split: option.splits)
    then show ?thesis using opened_forward [OF n(1)] existing_unchanged [OF e] by simp
  qed
qed

lemma continues_unchecked:
  assumes "continues_forward mux m conn"
  shows "\<exists>t. handle_message env m mux = Some (Relayed conn (packet m), t) \<and> mux_events t = mux_events mux"
  using assms by (auto simp: continues_forward_def handle_message_def existing_forward_def relay_upstream_def relay_ended_def Let_def)

text \<open>
  A packet is relayed upstream only on the open forward of its connection ID when the message has
  the same address and port and does not discard it, or on a new forward that the message may open.
  On an open forward nothing is checked: the domain of a DNS packet is looked up on the blocklist only
  for the first packet of its forward.
\<close>

lemma udp_relayed:
  "(handle_message env m mux = Some (Relayed conn pkt, t) \<longrightarrow>
      pkt = packet m \<and> (continues_forward mux m conn \<or> may_open env m (mux_client mux))) \<and>
    (continues_forward mux m conn \<longrightarrow>
      (\<exists>t. handle_message env m mux = Some (Relayed conn (packet m), t) \<and> mux_events t = mux_events mux))"
  using relayed_by [of env m mux conn pkt t] continues_unchecked [of mux m conn env] by simp

section \<open>Examples\<close>

definition sample_udp :: udp_env where
  "sample_udp = \<lparr>udp_server = sample_server, ParseDNSQuestion = (\<lambda>p. if p = [1] then Some ''a.example'' else Some ''b.local''),
    DNSResolver = [1, 1, 1, 1], DialUDP = (\<lambda>ip port. True), WriteUDP = (\<lambda>c p. True)\<rparr>"

definition udp_client :: "int \<Rightarrow> ssh_client" where
  "udp_client lim = newSshClient (populate_defaults no_rules\<lparr>MaxUDPPortForwardCount := Some lim\<rparr>)\<lparr>handshaked := True\<rparr>"

text \<open>A DNS message with the flags for DNS, and the packet of a domain that is permitted or not.\<close>

definition dns_message :: "16 word \<Rightarrow> bytes \<Rightarrow> udpgw_message" where
  "dns_message conn p = \<lparr>connID = conn, preambleSize = 11, remoteIP = [8, 8, 8, 8], remotePort = 53,
    discardExistingConn = False, forwardDNS = True, packet = p\<rparr>"

definition udp_rules :: "int \<Rightarrow> traffic_rules \<Rightarrow> bool" where
  "udp_rules lim r \<longleftrightarrow> r = populate_defaults no_rules\<lparr>MaxUDPPortForwardCount := Some lim\<rparr>"

lemma sample_first:
  "map_option fst (handle_message sample_udp (dns_message 7 [1]) (newUdpgwMultiplexer (udp_client 1))) = Some (Relayed 0 [1])"
  "map_option fst (handle_message sample_udp (dns_message 7 [2]) (newUdpgwMultiplexer (udp_client 1))) = Some Dropped"
  by code_simp+

lemma sample_start: "mux_reachable sample_udp (udp_rules lim) (newUdpgwMultiplexer (udp_client lim))"
  by (rule mux_reachable.start) (simp_all add: udp_client_def udp_rules_def newSshClient_def uconns_def idle_traffic_def)

lemma no_rules_valid: "rules_valid ParseCIDR no_rules"
  by (simp add: rules_valid_def validateTrafficRules_def no_rules_def no_limits_def negative_def slice_def Let_def)

lemma sample_complete:
  "0 < lim \<Longrightarrow> \<forall>r. udp_rules lim r \<longrightarrow> rules_complete (CIDR_parser (udp_server sample_udp)) r \<and> MaxUDPPortForwardCount r = Some lim"
  using populate_complete [OF no_rules_valid, of "CIDR_parser (udp_server sample_udp)"]
  by (simp add: udp_rules_def rules_complete_def given_nonneg_def)

definition two_messages :: "(udp_action \<times> udpgw_mux) option" where
  "two_messages = Option.bind (handle_message sample_udp (dns_message 7 [1]) (newUdpgwMultiplexer (udp_client 1)))
     (\<lambda>(a, t). handle_message sample_udp (dns_message 8 [1]) t)"

lemma two_messages_relayed: "map_option (\<lambda>(a, t). (a, map fst (portForwards t))) two_messages = Some (Relayed 1 [1], [8])"
  by code_simp

lemma two_messages_reachable: "two_messages = Some (a, t) \<Longrightarrow> mux_reachable sample_udp (udp_rules 1) t"
proof -
  assume "two_messages = Some (a, t)"
  then obtain a1 t1 where s: "handle_message sample_udp (dns_message 7 [1]) (newUdpgwMultiplexer (udp_client 1)) = Some (a1, t1)"
      "handle_message sample_udp (dns_message 8 [1]) t1 = Some (a, t)"
    by (auto simp: two_messages_def bind_eq_Some_conv)
  have "mux_reachable sample_udp (udp_rules 1) t1"
    by (rule mux_reachable.step [OF sample_start mux_step.Message [OF _ s(1)]]) (simp add: dns_message_def)
  then show ?thesis
    by (rule mux_reachable.step [OF _ mux_step.Message [OF _ s(2)]]) (simp add: dns_message_def)
qed



text \<open>The first packet on a connection ID may not ask for a blocked domain, and the second may.\<close>

end
