(* ===== verification/OslDelivery.thy ===== *)
theory OslDelivery
  imports OslSeed
begin

text \<open>
  The delivery of SLOKs from the server to the client's datastore: the server goroutine
  \<open>runOSLSender\<close> with \<open>sendOSLRequest\<close>, \<open>setOSLConfig\<close> and the session cache that keeps the seed
  state of a client between tunnels (\<open>server/tunnelServer.go\<close>), the client's handler
  \<open>HandleOSLRequest\<close> (\<open>serverApi.go\<close>), and the client's SLOK bucket (\<open>dataStore.go\<close>) with the
  lookup that the OSL download uses (\<open>remoteServerList.go\<close>).

  The bucket is a map from SLOK IDs to keys; a transaction that fails leaves it as it was. The
  sender, the port forwards that count traffic, the handshake, hot reloads of the OSL config and
  the end of a tunnel are labels of an executable step function; each step holds the client's
  mutex. The SSH request is one label with its outcome: it may be lost, and the client may
  handle it while its reply is lost. The channel \<open>signalIssueSLOKs\<close> of the connected client is the
  one in its seed state. JSON carries the requests unchanged; the notices are not modelled.
\<close>

section \<open>The client's SLOK bucket and its handler\<close>

type_synonym slok_store = "bytes \<rightharpoonup> bytes"

definition DeleteSLOKs :: "bool \<Rightarrow> slok_store \<Rightarrow> slok_store" where
  "DeleteSLOKs committed store = (if committed then Map.empty else store)"

text \<open>The result is \<open>duplicate\<close>, or \<open>None\<close> for an error of the transaction.\<close>

definition SetSLOK :: "bool \<Rightarrow> bytes \<Rightarrow> bytes \<Rightarrow> slok_store \<Rightarrow> bool option \<times> slok_store" where
  "SetSLOK committed slokID key store =
    (if committed then (Some (store slokID \<noteq> None), store(slokID \<mapsto> key)) else (None, store))"

definition GetSLOK :: "bool \<Rightarrow> bytes \<Rightarrow> slok_store \<Rightarrow> unit + bytes option" where
  "GetSLOK committed slokID store = (if committed then Inr (store slokID) else Inl ())"

text \<open>The lookup given to the OSL reader: an error, reported once, reads as an unknown SLOK.\<close>

definition lookupSLOKs :: "bool \<Rightarrow> bytes \<Rightarrow> slok_store \<Rightarrow> bool \<Rightarrow> bytes option \<times> bool" where
  "lookupSLOKs committed slokID store emittedAlert = (case GetSLOK committed slokID store of
     Inl _ \<Rightarrow> (None, True) | Inr key \<Rightarrow> (key, emittedAlert))"

record osl_request =
  ClearLocalSLOKs :: bool
  SeedPayload :: "slok list option"

fun set_sloks :: "(nat \<Rightarrow> bool) \<Rightarrow> nat \<Rightarrow> slok list \<Rightarrow> slok_store \<Rightarrow> bool \<times> slok_store" where
  "set_sloks committed i [] store = (False, store)"
| "set_sloks committed i (s # sloks) store =
    (let (duplicate, store1) = SetSLOK (committed i) (slok_ID s) (slok_Key s) store;
         (seededNew, store2) = set_sloks committed (i + 1) sloks store1
     in (duplicate = Some False \<or> seededNew, store2))"

text \<open>
  The handler's answer, whether it calls \<open>SignalSeededNewSLOK\<close>, and the bucket; \<open>None\<close> is the
  panic on a request without a seed payload. The request is \<open>None\<close> when it does not unmarshal.
\<close>

definition HandleOSLRequest :: "bool \<Rightarrow> (nat \<Rightarrow> bool) \<Rightarrow> osl_request option \<Rightarrow> slok_store
    \<Rightarrow> (bool \<times> bool \<times> slok_store) option" where
  "HandleOSLRequest deleted committed request store = (case request of
     None \<Rightarrow> Some (False, False, store)
   | Some oslRequest \<Rightarrow>
       let store1 = (if ClearLocalSLOKs oslRequest then DeleteSLOKs deleted store else store)
       in case SeedPayload oslRequest of None \<Rightarrow> None
        | Some sloks \<Rightarrow> let (seededNewSLOK, store2) = set_sloks committed 0 sloks store1
                        in Some (True, seededNewSLOK, store2))"

section \<open>The server's sender\<close>

definition SSH_SEND_OSL_INITIAL_RETRY_DELAY :: "64 word" where
  "SSH_SEND_OSL_INITIAL_RETRY_DELAY = 30 * 1000000000"

definition SSH_SEND_OSL_RETRY_FACTOR :: "64 word" where
  "SSH_SEND_OSL_RETRY_FACTOR = 2"

text \<open>
  Where \<open>runOSLSender\<close> stands: waiting for a signal, about to call \<open>getOSLSeedPayload\<close>, in the SSH
  request, after a positive reply and before \<open>clearOSLSeedPayload\<close>, or waiting to retry.
\<close>

datatype osl_sender = Offline | Awaiting | Fetching "64 word" | Sending "slok list" "64 word"
  | Acknowledged | RetryWait "64 word"

record osl_sys =
  OSLConfig :: "osl_scheme list"
  oslClientSeedState :: "seed_state option"
  oslSessionCache :: "seed_state option"
  sender :: osl_sender
  client_store :: slok_store
  fetch_signals :: nat

text \<open>The signals waiting in \<open>sshClient.signalIssueSLOKs\<close>, whose capacity is 1\<close>

definition waiting_signals :: "osl_sys \<Rightarrow> nat" where
  "waiting_signals s = (case oslClientSeedState s of None \<Rightarrow> 0
    | Some st \<Rightarrow> (case signalIssueSLOKs st of None \<Rightarrow> 0 | Some (_, n) \<Rightarrow> n))"

definition with_seed :: "(seed_state \<Rightarrow> seed_state) \<Rightarrow> osl_sys \<Rightarrow> osl_sys" where
  "with_seed f s = s\<lparr>oslClientSeedState := map_option f (oslClientSeedState s)\<rparr>"

definition setOSLConfig :: "(nat \<Rightarrow> int \<times> int) \<Rightarrow> string \<Rightarrow> string option \<Rightarrow> osl_sys \<Rightarrow> osl_sys" where
  "setOSLConfig clock country propagationChannel s = (case propagationChannel of None \<Rightarrow> s
    | Some channel \<Rightarrow>
      let signal = Some (1, waiting_signals s)
      in case oslSessionCache s of
         Some st \<Rightarrow> s\<lparr>oslSessionCache := None, oslClientSeedState := Some (Resume signal st)\<rparr>
       | None \<Rightarrow> s\<lparr>oslClientSeedState := Some (NewClientSeedState (OSLConfig s) clock country channel signal)\<rparr>)"

text \<open>A hot reload, as it affects this client: the cache is flushed, and a client past the handshake starts anew.\<close>

definition resetAllClientOSLConfigs :: "(nat \<Rightarrow> int \<times> int) \<Rightarrow> string \<Rightarrow> string option \<Rightarrow> osl_sys \<Rightarrow> osl_sys" where
  "resetAllClientOSLConfigs clock country propagationChannel s =
    (let s' = s\<lparr>oslSessionCache := None\<rparr>
     in if oslClientSeedState s = None then s' else setOSLConfig clock country propagationChannel s')"

definition client_newPortForward :: "bytes \<Rightarrow> (bytes \<Rightarrow> string) \<Rightarrow> osl_sys \<Rightarrow> progress_reference list option" where
  "client_newPortForward ip lookupASN s = (case oslClientSeedState s of None \<Rightarrow> None
    | Some st \<Rightarrow> NewClientSeedPortForward st ip (Some lookupASN))"

definition getOSLSeedPayload :: "(bytes \<Rightarrow> bytes \<Rightarrow> bytes) \<Rightarrow> (nat \<Rightarrow> int) \<Rightarrow> osl_sys \<Rightarrow> slok list \<times> osl_sys" where
  "getOSLSeedPayload hmac clock s = (case oslClientSeedState s of None \<Rightarrow> ([], s)
    | Some st \<Rightarrow> (case GetSeedPayload hmac clock st of (sloks, st') \<Rightarrow>
        (sloks, s\<lparr>oslClientSeedState := Some st'\<rparr>)))"

definition clearOSLSeedPayload :: "osl_sys \<Rightarrow> osl_sys option" where
  "clearOSLSeedPayload s = (case oslClientSeedState s of None \<Rightarrow> None
    | Some st \<Rightarrow> Some (s\<lparr>oslClientSeedState := Some (ClearSeedPayload st)\<rparr>))"

text \<open>The end of a tunnel: the seed state goes to the session cache.\<close>

definition transferOSLSeedState :: "osl_sys \<Rightarrow> osl_sys" where
  "transferOSLSeedState s = (case oslClientSeedState s of None \<Rightarrow> s
    | Some st \<Rightarrow> s\<lparr>oslSessionCache := Some (Hibernate st), oslClientSeedState := None\<rparr>)"

datatype osl_label = Connect | Handshake "nat \<Rightarrow> int \<times> int" string "string option"
  | ReloadOSLConfig "osl_scheme list" "nat \<Rightarrow> int \<times> int" string "string option"
  | Progress bytes "bytes \<Rightarrow> string" "nat \<Rightarrow> nat \<Rightarrow> int" int int int | StaleSignal
  | TakeSignal | FetchPayload "nat \<Rightarrow> int" | LoseRequest | Deliver "nat \<Rightarrow> bool" bool | ClearPayload | RetryTimer
  | Disconnect | ExpireCache

text \<open>A signal is taken by the sender, in its outer or in its retry \<open>select\<close>.\<close>

definition take_signal :: "osl_sys \<Rightarrow> osl_sys option" where
  "take_signal s = (if waiting_signals s = 0 then None
    else let s' = with_seed (Resume (Some (1, waiting_signals s - 1))) s
    in case sender s of
       Awaiting \<Rightarrow> Some (s'\<lparr>sender := Fetching SSH_SEND_OSL_INITIAL_RETRY_DELAY\<rparr>)
     | RetryWait delay \<Rightarrow> Some (s'\<lparr>sender := Fetching (delay * SSH_SEND_OSL_RETRY_FACTOR)\<rparr>)
     | _ \<Rightarrow> None)"

definition fetch_payload :: "(bytes \<Rightarrow> bytes \<Rightarrow> bytes) \<Rightarrow> (nat \<Rightarrow> int) \<Rightarrow> osl_sys \<Rightarrow> osl_sys option" where
  "fetch_payload hmac clock s = (case sender s of
     Fetching delay \<Rightarrow> (case getOSLSeedPayload hmac clock s of (sloks, s') \<Rightarrow>
       Some (if length sloks = 0 then s'\<lparr>sender := Awaiting\<rparr> else s'\<lparr>sender := Sending sloks delay\<rparr>))
   | _ \<Rightarrow> None)"

text \<open>\<open>replied\<close>: the client's answer reaches the server.\<close>

definition deliver :: "(nat \<Rightarrow> bool) \<Rightarrow> bool \<Rightarrow> osl_sys \<Rightarrow> osl_sys option" where
  "deliver committed replied s = (case sender s of
     Sending sloks delay \<Rightarrow>
       (case HandleOSLRequest True committed (Some \<lparr>ClearLocalSLOKs = False, SeedPayload = Some sloks\<rparr>) (client_store s) of
          None \<Rightarrow> None
        | Some (accepted, seededNewSLOK, store) \<Rightarrow>
            Some (s\<lparr>client_store := store, fetch_signals := fetch_signals s + (if seededNewSLOK then 1 else 0),
              sender := (if accepted \<and> replied then Acknowledged else RetryWait delay)\<rparr>))
   | _ \<Rightarrow> None)"

definition clear_payload :: "osl_sys \<Rightarrow> osl_sys option" where
  "clear_payload s = (case sender s of
     Acknowledged \<Rightarrow> map_option (\<lambda>s'. s'\<lparr>sender := Awaiting\<rparr>) (clearOSLSeedPayload s) | _ \<Rightarrow> None)"

definition retry_timer :: "osl_sys \<Rightarrow> osl_sys option" where
  "retry_timer s = (case sender s of
     RetryWait delay \<Rightarrow> Some (s\<lparr>sender := Fetching (delay * SSH_SEND_OSL_RETRY_FACTOR)\<rparr>) | _ \<Rightarrow> None)"

definition disconnect :: "osl_sys \<Rightarrow> osl_sys option" where
  "disconnect s = (case sender s of
     Awaiting \<Rightarrow> Some ((transferOSLSeedState s)\<lparr>sender := Offline\<rparr>)
   | RetryWait delay \<Rightarrow> Some ((transferOSLSeedState s)\<lparr>sender := Offline\<rparr>)
   | _ \<Rightarrow> None)"

definition progress_step :: "(bytes \<Rightarrow> bytes \<Rightarrow> bytes) \<Rightarrow> bytes \<Rightarrow> (bytes \<Rightarrow> string) \<Rightarrow> (nat \<Rightarrow> nat \<Rightarrow> int)
    \<Rightarrow> int \<Rightarrow> int \<Rightarrow> int \<Rightarrow> osl_sys \<Rightarrow> osl_sys option" where
  "progress_step hmac ip lookupASN clock r w d s = map_option
    (\<lambda>refs. with_seed (UpdateProgress hmac clock r w d refs) s) (client_newPortForward ip lookupASN s)"

fun osl_step :: "(bytes \<Rightarrow> bytes \<Rightarrow> bytes) \<Rightarrow> osl_label \<Rightarrow> osl_sys \<Rightarrow> osl_sys option" where
  "osl_step hmac Connect s = (if sender s = Offline then Some (s\<lparr>sender := Awaiting\<rparr>) else None)"
| "osl_step hmac (Handshake clock country channel) s =
    (if sender s \<noteq> Offline \<and> oslClientSeedState s = None then Some (setOSLConfig clock country channel s) else None)"
| "osl_step hmac (ReloadOSLConfig schemes clock country channel) s =
    Some (resetAllClientOSLConfigs clock country channel (s\<lparr>OSLConfig := schemes\<rparr>))"
| "osl_step hmac (Progress ip lookupASN clock r w d) s = progress_step hmac ip lookupASN clock r w d s"
| "osl_step hmac StaleSignal s = Some (with_seed sendIssueSLOKsSignal s)"
| "osl_step hmac TakeSignal s = take_signal s"
| "osl_step hmac (FetchPayload clock) s = fetch_payload hmac clock s"
| "osl_step hmac LoseRequest s = (case sender s of
     Sending sloks delay \<Rightarrow> Some (s\<lparr>sender := RetryWait delay\<rparr>) | _ \<Rightarrow> None)"
| "osl_step hmac (Deliver committed replied) s = deliver committed replied s"
| "osl_step hmac ClearPayload s = clear_payload s"
| "osl_step hmac RetryTimer s = retry_timer s"
| "osl_step hmac Disconnect s = disconnect s"
| "osl_step hmac ExpireCache s = Some (s\<lparr>oslSessionCache := None\<rparr>)"

fun osl_run :: "(bytes \<Rightarrow> bytes \<Rightarrow> bytes) \<Rightarrow> osl_label list \<Rightarrow> osl_sys \<Rightarrow> osl_sys option" where
  "osl_run hmac [] s = Some s"
| "osl_run hmac (l # ls) s = Option.bind (osl_step hmac l s) (osl_run hmac ls)"

definition start_osl :: "osl_scheme list \<Rightarrow> slok_store \<Rightarrow> osl_sys" where
  "start_osl schemes store = \<lparr>OSLConfig = schemes, oslClientSeedState = None, oslSessionCache = None,
    sender = Offline, client_store = store, fetch_signals = 0\<rparr>"

section \<open>What the seed state's operations issue\<close>

lemma signal_SLOKs_sel [simp]:
  "issuedSLOKs (sendIssueSLOKsSignal st) = issuedSLOKs st" "payloadSLOKs (sendIssueSLOKsSignal st) = payloadSLOKs st"
  "propagationChannelID (sendIssueSLOKsSignal st) = propagationChannelID st"
  by (simp_all add: sendIssueSLOKsSignal_def split: option.split)

lemma add_progress_sel [simp]:
  "issuedSLOKs (add_progress ref r w d st) = issuedSLOKs st" "payloadSLOKs (add_progress ref r w d st) = payloadSLOKs st"
  by (simp_all add: add_progress_def Let_def)

lemma update_one_issues:
  assumes "seed_inv hmac channel schemes st"
  shows "issues_more (issuedSLOKs st, payloadSLOKs st)
    (issuedSLOKs (update_one hmac clock r w d ref st), payloadSLOKs (update_one hmac clock r w d ref st))"
  using issueSLOKs_step(2) [of st hmac "\<lambda>i. clock (Suc i)"] assms
  by (auto simp: update_one_def Let_def seed_inv_def)

lemma update_issues:
  "seed_inv hmac channel schemes st \<Longrightarrow> \<forall>ref\<in>set refs. valid_ref schemes ref \<Longrightarrow>
    issues_more (issuedSLOKs st, payloadSLOKs st)
      (issuedSLOKs (UpdateProgress hmac clock r w d refs st), payloadSLOKs (UpdateProgress hmac clock r w d refs st))"
proof (induction hmac clock r w d refs st rule: UpdateProgress.induct)
  case (2 hmac clock r w d ref refs st)
  then have "seed_inv hmac channel schemes (update_one hmac (clock 0) r w d ref st)"
    by (auto intro: inv_intros)
  with 2 show ?case using issues_more_trans [OF update_one_issues [OF 2(2)]] by simp
qed simp

text \<open>No seed period has ended since the progress was last recorded.\<close>

definition same_period :: "(nat \<Rightarrow> nat \<Rightarrow> int) \<Rightarrow> seed_state \<Rightarrow> bool" where
  "same_period clock st \<longleftrightarrow> (\<forall>p\<in>set (seedProgress st). \<forall>i k.
    getSLOKTime (clock i k) (SeedPeriodNanoseconds (progress_scheme p)) = progressSLOKTime p)"

lemma same_period_add:
  assumes "same_period clock st" "seedProgressIndex ref < length (seedProgress st)"
  shows "same_period clock (add_progress ref r w d st)"
  using assms by (auto simp: same_period_def add_progress_seedProgress Let_def dest!: set_update_subset_insert [THEN subsetD])

lemma update_in_period:
  "\<forall>ref\<in>set refs. seedProgressIndex ref < length (seedProgress st) \<Longrightarrow> same_period clock st \<Longrightarrow>
    issuedSLOKs (UpdateProgress hmac clock r w d refs st) = issuedSLOKs st \<and>
    payloadSLOKs (UpdateProgress hmac clock r w d refs st) = payloadSLOKs st"
proof (induction hmac clock r w d refs st rule: UpdateProgress.induct)
  case (2 hmac clock r w d ref refs st)
  have "update_one hmac (clock 0) r w d ref st = add_progress ref r w d st"
    using 2(2,3) by (simp add: update_one_def Let_def same_period_def)
  moreover have "same_period (\<lambda>i. clock (Suc i)) (add_progress ref r w d st)"
    using same_period_add [OF 2(3), of ref r w d] 2(2) unfolding same_period_def by (auto simp only: list.set insert_iff ball_simps)
  moreover have "length (seedProgress (add_progress ref r w d st)) = length (seedProgress st)"
    by (simp add: add_progress_seedProgress Let_def)
  ultimately show ?case using 2 by simp
qed simp

lemma payload_issues:
  assumes "seed_inv hmac channel schemes st" "GetSeedPayload hmac clock st = (sloks, st')"
  shows "issues_more (issuedSLOKs st, payloadSLOKs st) (issuedSLOKs st', payloadSLOKs st') \<and> sloks = payloadSLOKs st'"
proof (cases "seedProgress st = []")
  case True
  then have "schemes = []" using assms(1) by (auto simp: seed_inv_def schemes_of_def)
  then have "scheme_sloks hmac channel schemes = {}" by (simp add: scheme_sloks_def)
  then have "payloadSLOKs st = []"
    using assms(1) by (cases "payloadSLOKs st") (force simp: seed_inv_def payload_ok_def)+
  then show ?thesis using assms(2) True by (auto simp: GetSeedPayload_def)
next
  case False
  then show ?thesis using assms issueSLOKs_step(2) [of st hmac clock]
    by (auto simp: GetSeedPayload_def Let_def seed_inv_def)
qed

section \<open>Reachable states\<close>

text \<open>Every key in the bucket is that of a SLOK of the client's channel and the server's schemes.\<close>

definition genuine_store :: "(bytes \<Rightarrow> bytes \<Rightarrow> bytes) \<Rightarrow> string \<Rightarrow> osl_scheme list \<Rightarrow> slok_store \<Rightarrow> bool" where
  "genuine_store hmac channel schemes store \<longleftrightarrow> (\<forall>slokID key. store slokID = Some key \<longrightarrow>
    (\<exists>s\<in>scheme_sloks hmac channel schemes. slok_ID s = slokID \<and> slok_Key s = key))"

definition in_exchange :: "osl_sender \<Rightarrow> bool" where
  "in_exchange p = (case p of Sending _ _ \<Rightarrow> True | Acknowledged \<Rightarrow> True | _ \<Rightarrow> False)"

text \<open>
  A client that keeps its channel, writes its bucket without errors, and whose server does not
  reload its OSL config; and no seed period ends between the fetch of a payload and its clearing.
\<close>

fun undisturbed :: "string \<Rightarrow> osl_label \<Rightarrow> osl_sys \<Rightarrow> bool" where
  "undisturbed channel (Handshake clock country c) s \<longleftrightarrow> c = None \<or> c = Some channel"
| "undisturbed channel (ReloadOSLConfig schemes clock country c) s \<longleftrightarrow> False"
| "undisturbed channel (Progress ip lookupASN clock r w d) s \<longleftrightarrow> (in_exchange (sender s) \<longrightarrow>
    (case oslClientSeedState s of None \<Rightarrow> True | Some st \<Rightarrow> same_period clock st))"
| "undisturbed channel (Deliver committed replied) s \<longleftrightarrow> (\<forall>i. committed i)"
| "undisturbed channel l s \<longleftrightarrow> True"

inductive osl_reachable :: "(bytes \<Rightarrow> bytes \<Rightarrow> bytes) \<Rightarrow> string \<Rightarrow> osl_scheme list \<Rightarrow> osl_sys \<Rightarrow> bool"
  for hmac channel schemes where
  start: "genuine_store hmac channel schemes store \<Longrightarrow> osl_reachable hmac channel schemes (start_osl schemes store)"
| step: "osl_reachable hmac channel schemes s \<Longrightarrow> undisturbed channel l s \<Longrightarrow> osl_step hmac l s = Some t \<Longrightarrow>
    osl_reachable hmac channel schemes t"

text \<open>Every issued SLOK is known to the client or waits in the payload.\<close>

definition accounted :: "slok_store \<Rightarrow> seed_state \<Rightarrow> bool" where
  "accounted store st \<longleftrightarrow> (\<forall>slokID s. issuedSLOKs st slokID = Some s \<longrightarrow>
    store slokID \<noteq> None \<or> s \<in> set (payloadSLOKs st))"

definition exchange_ok :: "osl_sys \<Rightarrow> bool" where
  "exchange_ok s \<longleftrightarrow> (case sender s of
     Sending sloks _ \<Rightarrow> \<exists>st. oslClientSeedState s = Some st \<and> sloks = payloadSLOKs st
   | Acknowledged \<Rightarrow> \<exists>st. oslClientSeedState s = Some st \<and>
       (\<forall>k\<in>set (payloadSLOKs st). client_store s (slok_ID k) \<noteq> None)
   | _ \<Rightarrow> True)"

text \<open>The seed state, of the connected client or in the cache, is a reachable one of this client.\<close>

definition own_seed :: "(bytes \<Rightarrow> bytes \<Rightarrow> bytes) \<Rightarrow> string \<Rightarrow> osl_scheme list \<Rightarrow> slok_store \<Rightarrow> seed_state \<Rightarrow> bool" where
  "own_seed hmac channel schemes store st \<longleftrightarrow>
    seed_reachable hmac schemes st \<and> propagationChannelID st = channel \<and> accounted store st"

definition osl_inv :: "(bytes \<Rightarrow> bytes \<Rightarrow> bytes) \<Rightarrow> string \<Rightarrow> osl_scheme list \<Rightarrow> osl_sys \<Rightarrow> bool" where
  "osl_inv hmac channel schemes s \<longleftrightarrow> OSLConfig s = schemes \<and>
    pred_option (own_seed hmac channel schemes (client_store s)) (oslClientSeedState s) \<and>
    pred_option (own_seed hmac channel schemes (client_store s)) (oslSessionCache s) \<and>
    genuine_store hmac channel schemes (client_store s) \<and> exchange_ok s"

lemma own_seedD:
  assumes "own_seed hmac channel schemes store st" "loaded_schemes schemes"
  shows "seed_inv hmac channel (schemes_of st) st" "set (schemes_of st) \<subseteq> set schemes"
  using seed_reachable_inv [of hmac schemes st] assms by (auto simp: own_seed_def)

lemma issues_more_new:
  assumes "issues_more (i, p) (i', p')" "i slokID = None" "i' slokID \<noteq> None"
  shows "\<exists>s\<in>set p'. slok_ID s = slokID"
proof -
  obtain new where "p' = p @ new" "\<exists>s\<in>set new. slok_ID s = slokID"
    using assms by (simp add: issues_more_def) blast
  then show ?thesis by auto
qed

lemma accounted_more:
  assumes "accounted store st" "seed_inv hmac channel schemes st'"
    "issues_more (issuedSLOKs st, payloadSLOKs st) (issuedSLOKs st', payloadSLOKs st')"
  shows "accounted store st'"
  unfolding accounted_def
proof (intro allI impI)
  fix slokID s assume s: "issuedSLOKs st' slokID = Some s"
  have ok: "\<And>k. k \<in> set (payloadSLOKs st') \<Longrightarrow> issuedSLOKs st' (slok_ID k) = Some k"
    using assms(2) by (simp add: seed_inv_def payload_ok_def)
  show "store slokID \<noteq> None \<or> s \<in> set (payloadSLOKs st')"
  proof (cases "issuedSLOKs st slokID")
    case None
    then obtain k where "k \<in> set (payloadSLOKs st')" "slok_ID k = slokID"
      using issues_more_new [OF assms(3)] s by blast
    then show ?thesis using ok [of k] s by simp
  next
    case (Some k)
    then have "issuedSLOKs st' slokID = Some k" using assms(3) by (auto simp: issues_more_def map_le_def dom_def)
    then have "issuedSLOKs st slokID = Some s" using s Some by simp
    then have "store slokID \<noteq> None \<or> s \<in> set (payloadSLOKs st)" using assms(1) unfolding accounted_def by blast
    moreover have "set (payloadSLOKs st) \<subseteq> set (payloadSLOKs st')" using assms(3) by (auto simp: issues_more_def)
    ultimately show ?thesis by blast
  qed
qed

lemma own_seed_signal:
  assumes "own_seed hmac channel schemes store st"
  shows "own_seed hmac channel schemes store (Resume signal st)" "own_seed hmac channel schemes store (Hibernate st)"
    "own_seed hmac channel schemes store (sendIssueSLOKsSignal st)"
proof -
  show r: "own_seed hmac channel schemes store (Resume signal st)" for signal
    using assms by (auto simp: own_seed_def accounted_def Resume_def intro: seed_reachable.resume [unfolded Resume_def])
  show "own_seed hmac channel schemes store (Hibernate st)"
    using r [of None] by (simp add: Resume_def Hibernate_def)
  show "own_seed hmac channel schemes store (sendIssueSLOKsSignal st)"
    using assms r by (auto simp: sendIssueSLOKsSignal_def Resume_def split: option.split)
qed

lemma own_seed_update:
  assumes "own_seed hmac channel schemes store st" "loaded_schemes schemes"
    "NewClientSeedPortForward st ip lookupASN = Some refs"
  shows "own_seed hmac channel schemes store (UpdateProgress hmac clock r w d refs st)"
proof -
  note st = own_seedD [OF assms(1,2)]
  have refs: "\<forall>ref\<in>set refs. valid_ref (schemes_of st) ref"
    using port_forward_refs [OF assms(2) st(2) assms(3)] by blast
  have inv: "seed_inv hmac channel (schemes_of st) (UpdateProgress hmac clock r w d refs st)"
    using seed_inv_update [OF st(1) refs] .
  then show ?thesis
    using assms(1,3) accounted_more [OF _ inv update_issues [OF st(1) refs]]
    by (auto simp: own_seed_def seed_inv_def intro: seed_reachable.update)
qed

lemma own_seed_payload:
  assumes "own_seed hmac channel schemes store st" "loaded_schemes schemes"
    "GetSeedPayload hmac clock st = (sloks, st')"
  shows "own_seed hmac channel schemes store st' \<and> sloks = payloadSLOKs st'"
proof -
  note st = own_seedD [OF assms(1,2)]
  have inv: "seed_inv hmac channel (schemes_of st) st'" using seed_inv_payload [OF st(1), of clock] assms(3) by simp
  then show ?thesis
    using assms(1,3) payload_issues [OF st(1) assms(3)] accounted_more [OF _ inv]
    by (auto simp: own_seed_def seed_inv_def intro: seed_reachable.payload)
qed

lemma own_seed_clear:
  assumes "own_seed hmac channel schemes store st" "loaded_schemes schemes"
    "\<forall>k\<in>set (payloadSLOKs st). store (slok_ID k) \<noteq> None"
  shows "own_seed hmac channel schemes store (ClearSeedPayload st)"
proof -
  have "slok_ID k = slokID" if "issuedSLOKs st slokID = Some k" for slokID k
    using own_seedD(1) [OF assms(1,2)] that by (simp add: seed_inv_def payload_ok_def)
  then show ?thesis using assms(1,3) seed_reachable.clear [of hmac schemes st]
    by (fastforce simp: own_seed_def accounted_def ClearSeedPayload_def)
qed

lemma own_seed_mono:
  "own_seed hmac channel schemes store st \<Longrightarrow> dom store \<subseteq> dom store' \<Longrightarrow> own_seed hmac channel schemes store' st"
  by (fastforce simp: own_seed_def accounted_def subset_iff dom_def)

lemma store_grows: "set_sloks committed i sloks store = (new, store') \<Longrightarrow> dom store \<subseteq> dom store'"
  by (induction committed i sloks store arbitrary: new store' rule: set_sloks.induct)
    (force simp: SetSLOK_def split: prod.splits if_splits)+

lemma set_sloks_store:
  assumes "set_sloks committed i sloks store = (new, store')"
  shows "dom store \<subseteq> dom store'"
    "store' slokID = Some key \<Longrightarrow> store slokID = Some key \<or> (\<exists>s\<in>set sloks. slok_ID s = slokID \<and> slok_Key s = key)"
    "\<forall>i. committed i \<Longrightarrow> \<forall>s\<in>set sloks. store' (slok_ID s) \<noteq> None"
    "\<forall>i. committed i \<Longrightarrow> new \<longleftrightarrow> (\<exists>s\<in>set sloks. store (slok_ID s) = None)"
proof -
  show "dom store \<subseteq> dom store'" by (rule store_grows [OF assms])
  show "store' slokID = Some key \<Longrightarrow> store slokID = Some key \<or> (\<exists>s\<in>set sloks. slok_ID s = slokID \<and> slok_Key s = key)"
    using assms by (induction committed i sloks store arbitrary: new store' rule: set_sloks.induct)
      (fastforce simp: SetSLOK_def split: prod.splits if_splits)+
  show "new \<longleftrightarrow> (\<exists>s\<in>set sloks. store (slok_ID s) = None)" if "\<forall>i. committed i"
    using assms that
  proof (induction committed i sloks store arbitrary: new store' rule: set_sloks.induct)
    case (2 committed i s sloks store)
    let ?store = "store(slok_ID s \<mapsto> slok_Key s)"
    have stored: "(Some (store (slok_ID s) \<noteq> None), ?store) = SetSLOK (committed i) (slok_ID s) (slok_Key s) store"
      using 2(3) by (simp add: SetSLOK_def)
    obtain n where n: "set_sloks committed (i + 1) sloks ?store = (n, store')" "new \<longleftrightarrow> store (slok_ID s) = None \<or> n"
      using 2(2) spec [OF 2(3), of i] by (auto simp: SetSLOK_def split: prod.splits)
    have "n \<longleftrightarrow> (\<exists>s\<in>set sloks. ?store (slok_ID s) = None)"
      by (rule 2(1) [OF refl stored n(1) 2(3)])
    then show ?case using n(2) by (auto split: if_splits) (metis option.distinct(1))
  qed simp
  show "\<forall>s\<in>set sloks. store' (slok_ID s) \<noteq> None" if "\<forall>i. committed i"
    using assms that
  proof (induction committed i sloks store arbitrary: new store' rule: set_sloks.induct)
    case (2 committed i s sloks store)
    let ?store = "store(slok_ID s \<mapsto> slok_Key s)"
    have stored: "(Some (store (slok_ID s) \<noteq> None), ?store) = SetSLOK (committed i) (slok_ID s) (slok_Key s) store"
      using 2(3) by (simp add: SetSLOK_def)
    obtain n where n: "set_sloks committed (i + 1) sloks ?store = (n, store')"
      using 2(2) spec [OF 2(3), of i] by (auto simp: SetSLOK_def split: prod.splits)
    have "\<forall>s\<in>set sloks. store' (slok_ID s) \<noteq> None"
      by (rule 2(1) [OF refl stored n 2(3)])
    moreover have "dom ?store \<subseteq> dom store'" by (rule store_grows [OF n])
    ultimately show ?case by auto
  qed simp
qed

section \<open>The invariant\<close>

lemma osl_inv_start: "genuine_store hmac channel schemes store \<Longrightarrow> osl_inv hmac channel schemes (start_osl schemes store)"
  by (simp add: osl_inv_def start_osl_def exchange_ok_def)

lemma osl_inv_deliver:
  assumes "osl_inv hmac channel schemes s" "loaded_schemes schemes" "\<forall>i. committed i" "deliver committed replied s = Some t"
  shows "osl_inv hmac channel schemes t"
proof -
  obtain sloks delay where p: "sender s = Sending sloks delay"
    using assms(4) by (cases "sender s") (simp_all add: deliver_def)
  obtain new store where n: "set_sloks committed 0 sloks (client_store s) = (new, store)" by fastforce
  note store = set_sloks_store [OF n]
  obtain st where st: "oslClientSeedState s = Some st" "sloks = payloadSLOKs st" "own_seed hmac channel schemes (client_store s) st"
    using assms(1) p by (auto simp: osl_inv_def exchange_ok_def)
  note own = own_seedD [OF st(3) assms(2)]
  have "k \<in> scheme_sloks hmac channel schemes" if "k \<in> set sloks" for k
  proof -
    have "k \<in> scheme_sloks hmac channel (schemes_of st)"
      using own(1) that st(2) unfolding seed_inv_def payload_ok_def by metis
    then show ?thesis using own(2) by (auto simp: scheme_sloks_def)
  qed
  then have gen: "genuine_store hmac channel schemes store"
    using assms(1) store(2) unfolding genuine_store_def osl_inv_def by metis
  have t: "t = s\<lparr>client_store := store, fetch_signals := fetch_signals s + (if new then 1 else 0),
      sender := (if replied then Acknowledged else RetryWait delay)\<rparr>"
    using assms(4) p n by (simp add: deliver_def HandleOSLRequest_def)
  have "pred_option (own_seed hmac channel schemes store) x" if "pred_option (own_seed hmac channel schemes (client_store s)) x" for x
    using that own_seed_mono [OF _ store(1)] by (cases x) auto
  moreover have "exchange_ok t" using st store(3) [OF assms(3)] by (simp add: exchange_ok_def t)
  ultimately show ?thesis using assms(1) gen by (simp add: osl_inv_def t)
qed

lemma osl_inv_progress:
  assumes "osl_inv hmac channel schemes s" "loaded_schemes schemes"
    "undisturbed channel (Progress ip lookupASN clock r w d) s" "progress_step hmac ip lookupASN clock r w d s = Some t"
  shows "osl_inv hmac channel schemes t"
proof -
  obtain st refs where st: "oslClientSeedState s = Some st" and refs: "NewClientSeedPortForward st ip (Some lookupASN) = Some refs"
    and t: "t = s\<lparr>oslClientSeedState := Some (UpdateProgress hmac clock r w d refs st)\<rparr>"
    using assms(4) by (auto simp: progress_step_def client_newPortForward_def with_seed_def split: option.splits)
  have own: "own_seed hmac channel schemes (client_store s) st" using assms(1) st by (simp add: osl_inv_def)
  have valid: "\<forall>ref\<in>set refs. seedProgressIndex ref < length (seedProgress st)"
    using port_forward_refs [OF assms(2) own_seedD(2) [OF own assms(2)] refs]
    by (auto simp: valid_ref_def schemes_of_def)
  have "payloadSLOKs (UpdateProgress hmac clock r w d refs st) = payloadSLOKs st" if "in_exchange (sender s)"
    using update_in_period [OF valid] assms(3) st that by simp
  then have "exchange_ok t"
    using assms(1) st by (auto simp: osl_inv_def exchange_ok_def t in_exchange_def split: osl_sender.splits)
  then show ?thesis using assms(1) own_seed_update [OF own assms(2) refs] by (simp add: osl_inv_def t)
qed

lemma osl_inv_fetch:
  assumes "osl_inv hmac channel schemes s" "loaded_schemes schemes" "fetch_payload hmac clock s = Some t"
  shows "osl_inv hmac channel schemes t"
proof -
  obtain delay where p: "sender s = Fetching delay"
    using assms(3) by (cases "sender s") (simp_all add: fetch_payload_def)
  show ?thesis
  proof (cases "oslClientSeedState s")
    case None
    then show ?thesis using assms(1,3) p
      by (auto simp: fetch_payload_def getOSLSeedPayload_def osl_inv_def exchange_ok_def)
  next
    case (Some st)
    obtain sloks st' where g: "GetSeedPayload hmac clock st = (sloks, st')" by fastforce
    have "own_seed hmac channel schemes (client_store s) st" using assms(1) Some by (simp add: osl_inv_def)
    from own_seed_payload [OF this assms(2) g] show ?thesis
      using assms(1,3) p Some g by (auto simp: fetch_payload_def getOSLSeedPayload_def osl_inv_def exchange_ok_def)
  qed
qed

lemma osl_inv_clear:
  assumes "osl_inv hmac channel schemes s" "loaded_schemes schemes" "clear_payload s = Some t"
  shows "osl_inv hmac channel schemes t"
proof -
  have p: "sender s = Acknowledged"
    using assms(3) by (cases "sender s") (simp_all add: clear_payload_def)
  then obtain st where st: "oslClientSeedState s = Some st" "own_seed hmac channel schemes (client_store s) st"
    "\<forall>k\<in>set (payloadSLOKs st). client_store s (slok_ID k) \<noteq> None"
    using assms(1) by (auto simp: osl_inv_def exchange_ok_def)
  then show ?thesis using assms(1,3) p own_seed_clear [OF st(2) assms(2) st(3)]
    by (auto simp: clear_payload_def clearOSLSeedPayload_def osl_inv_def exchange_ok_def)
qed

lemma exchange_idle: "\<not> in_exchange (sender s) \<Longrightarrow> exchange_ok s"
  by (auto simp: exchange_ok_def in_exchange_def split: osl_sender.splits)

lemma exchange_seed: "exchange_ok s \<Longrightarrow> in_exchange (sender s) \<Longrightarrow> oslClientSeedState s \<noteq> None"
  by (auto simp: exchange_ok_def in_exchange_def split: osl_sender.splits)

text \<open>Steps that touch nothing but the signal of the seed state, and leave the exchange as it is or end it\<close>

lemma osl_inv_signal:
  assumes "osl_inv hmac channel schemes s"
    "oslClientSeedState t = map_option f (oslClientSeedState s)" "oslSessionCache t = oslSessionCache s \<or> oslSessionCache t = None"
    "OSLConfig t = OSLConfig s" "client_store t = client_store s" "sender t = sender s \<or> \<not> in_exchange (sender t)"
    "f = sendIssueSLOKsSignal \<or> f = Resume signal \<or> f = (\<lambda>st. st)"
  shows "osl_inv hmac channel schemes t"
proof -
  have f: "own_seed hmac channel schemes (client_store s) st \<Longrightarrow> own_seed hmac channel schemes (client_store s) (f st)" for st
    using assms(7) own_seed_signal by auto
  have p: "payloadSLOKs (f st) = payloadSLOKs st" for st using assms(7) by (auto simp: Resume_def)
  have "exchange_ok t"
  proof (cases "in_exchange (sender t)")
    case True
    then have "sender t = sender s" using assms(6) by simp
    then show ?thesis using assms(1,2,5) p by (auto simp: osl_inv_def exchange_ok_def split: osl_sender.splits)
  qed (rule exchange_idle)
  then show ?thesis using assms(1-5) f by (cases "oslClientSeedState s") (auto simp: osl_inv_def)
qed

lemma osl_inv_handshake:
  assumes "osl_inv hmac channel schemes s" "oslClientSeedState s = None" "c = None \<or> c = Some channel"
  shows "osl_inv hmac channel schemes (setOSLConfig clock country c s)"
proof -
  have ok: "exchange_ok (setOSLConfig clock country c s)"
    using assms(1,2) exchange_seed [of s]
    by (intro exchange_idle) (auto simp: setOSLConfig_def Let_def osl_inv_def split: option.splits)
  have "own_seed hmac channel schemes store (NewClientSeedState schemes clock country channel signal)" for store signal
    using seed_reachable.new by (simp add: own_seed_def accounted_def NewClientSeedState_def)
  then show ?thesis using assms ok own_seed_signal(1)
    by (auto simp: setOSLConfig_def Let_def osl_inv_def split: option.splits)
qed

lemma osl_inv_disconnect:
  assumes "osl_inv hmac channel schemes s" "disconnect s = Some t"
  shows "osl_inv hmac channel schemes t"
proof -
  have t: "t = (transferOSLSeedState s)\<lparr>sender := Offline\<rparr>"
    using assms(2) by (cases "sender s") (auto simp: disconnect_def)
  then have "exchange_ok t" by (intro exchange_idle) (simp add: in_exchange_def)
  then show ?thesis using assms(1) own_seed_signal(2)
    by (auto simp: t transferOSLSeedState_def osl_inv_def split: option.splits)
qed

lemma osl_inv_step:
  assumes "osl_inv hmac channel schemes s" "loaded_schemes schemes" "undisturbed channel l s" "osl_step hmac l s = Some t"
  shows "osl_inv hmac channel schemes t"
proof (cases l)
  case Connect
  then show ?thesis using assms
    by (intro osl_inv_signal [of hmac channel schemes s t "\<lambda>st. st"]) (auto simp: in_exchange_def option.map_ident split: if_splits)
next
  case (Handshake clock country c)
  then show ?thesis using assms osl_inv_handshake by (auto split: if_splits)
next
  case StaleSignal
  then show ?thesis using assms
    by (intro osl_inv_signal [of hmac channel schemes s t sendIssueSLOKsSignal]) (auto simp: with_seed_def)
next
  case TakeSignal
  then show ?thesis using assms
    by (intro osl_inv_signal [of hmac channel schemes s t "Resume (Some (1, waiting_signals s - 1))"])
      (auto simp: take_signal_def with_seed_def Let_def in_exchange_def split: if_splits osl_sender.splits)
next
  case LoseRequest
  then show ?thesis using assms
    by (intro osl_inv_signal [of hmac channel schemes s t "\<lambda>st. st"])
      (auto simp: in_exchange_def option.map_ident split: osl_sender.splits)
next
  case RetryTimer
  then show ?thesis using assms
    by (intro osl_inv_signal [of hmac channel schemes s t "\<lambda>st. st"])
      (auto simp: retry_timer_def in_exchange_def option.map_ident split: osl_sender.splits)
next
  case ExpireCache
  then show ?thesis using assms
    by (intro osl_inv_signal [of hmac channel schemes s t "\<lambda>st. st"]) (auto simp: option.map_ident)
next
  case (Progress ip lookupASN clock r w d)
  with assms(3,4) show ?thesis
    by (intro osl_inv_progress [OF assms(1,2), of ip lookupASN clock r w d t]) simp_all
next
  case (FetchPayload clock)
  with assms(4) show ?thesis by (intro osl_inv_fetch [OF assms(1,2), of clock t]) simp
next
  case (Deliver committed replied)
  with assms(3,4) show ?thesis by (intro osl_inv_deliver [OF assms(1,2), of committed replied t]) simp_all
next
  case ClearPayload
  with assms(4) show ?thesis by (intro osl_inv_clear [OF assms(1,2), of t]) simp
next
  case Disconnect
  with assms(4) show ?thesis by (intro osl_inv_disconnect [OF assms(1), of t]) simp
next
  case (ReloadOSLConfig schemes' clock country c)
  with assms(3) show ?thesis by simp
qed

lemma osl_reachable_inv:
  assumes "osl_reachable hmac channel schemes s" "loaded_schemes schemes"
  shows "osl_inv hmac channel schemes s"
  using assms by induction (auto intro: osl_inv_start osl_inv_step)

lemma osl_run_reachable:
  "osl_run hmac ls s = Some t \<Longrightarrow> osl_reachable hmac channel schemes s \<Longrightarrow> \<forall>l\<in>set ls. All (undisturbed channel l) \<Longrightarrow>
    osl_reachable hmac channel schemes t"
proof (induction ls arbitrary: s)
  case (Cons l ls)
  then obtain s' where s': "osl_step hmac l s = Some s'" "osl_run hmac ls s' = Some t"
    by (auto simp: bind_eq_Some_conv)
  have "osl_reachable hmac channel schemes s'" using osl_reachable.step [OF Cons.prems(2) _ s'(1)] Cons.prems(3) by simp
  then show ?case using Cons.IH [OF s'(2)] Cons.prems(3) by simp
qed simp

section \<open>An example\<close>

text \<open>A derivation that depends on the period, unlike \<^const>\<open>example_hmac\<close>\<close>

definition rev_hmac :: "bytes \<Rightarrow> bytes \<Rightarrow> bytes" where
  "rev_hmac k m = take KEY_LENGTH_BYTES (rev m @ replicate KEY_LENGTH_BYTES 0)"

lemma length_rev_hmac: "length (rev_hmac k m) = KEY_LENGTH_BYTES"
  by (simp add: rev_hmac_def)

lemma rev_hmac_slok:
  "\<exists>k. slok_Key (spec_slok rev_hmac scheme channel specID t) = 1 # k \<and> length k = 31 \<and>
    slok_ID (spec_slok rev_hmac scheme channel specID t) = 1 # rev k"
proof -
  obtain k where k: "slok_Key (spec_slok rev_hmac scheme channel specID t) = 1 # k" "length k = 31"
    by (simp add: spec_slok_def deriveSLOK_def Let_def deriveKeyHKDF_def rev_hmac_def KEY_LENGTH_BYTES_def)
  moreover have "slok_ID (spec_slok rev_hmac scheme channel specID t) = rev_hmac (MasterKey scheme) (slok_Key (spec_slok rev_hmac scheme channel specID t) @ [1])"
    by (simp add: spec_slok_def deriveSLOK_def Let_def deriveKeyHKDF_def)
  ultimately show ?thesis by (simp add: rev_hmac_def KEY_LENGTH_BYTES_def)
qed

lemma rev_hmac_inj: "inj_on slok_ID (scheme_sloks rev_hmac channel schemes)"
proof (rule inj_onI)
  have form: "\<exists>k. slok_Key x = 1 # k \<and> slok_ID x = 1 # rev k" if "x \<in> scheme_sloks rev_hmac channel schemes" for x
    using that rev_hmac_slok unfolding scheme_sloks_def by fast
  fix x y assume "x \<in> scheme_sloks rev_hmac channel schemes" "y \<in> scheme_sloks rev_hmac channel schemes" "slok_ID x = slok_ID y"
  then show "x = y" using form [of x] form [of y] by auto
qed

text \<open>A client meets the targets of both seed specs in the period at 10, and is sent the SLOKs.\<close>

definition served_labels :: "osl_label list" where
  "served_labels = [Connect, Handshake (\<lambda>_. (11, 12)) ''US'' (Some ''P''),
    Progress [1, 2, 3, 4] (\<lambda>_. ''64496'') (\<lambda>_ _. 13) 100 0 0, TakeSignal, FetchPayload (\<lambda>_. 14), Deliver (\<lambda>_. True) True]"

definition lossy_labels :: "osl_label list" where
  "lossy_labels = served_labels @ [Progress [1, 2, 3, 4] (\<lambda>_. ''64496'') (\<lambda>_ _. 16) 100 0 0,
    Progress [1, 2, 3, 4] (\<lambda>_. ''64496'') (\<lambda>_ _. 21) 100 0 0, ClearPayload]"

text \<open>The example scheme with one period to an OSL\<close>

definition single_period :: osl_scheme where
  "single_period = (loaded_example 5)\<lparr>SeedPeriodKeySplits := [\<lparr>Total = 1, Threshold = 1\<rparr>]\<rparr>"

lemma loaded_single: "loaded_schemes [single_period]"
proof -
  have "loaded_scheme (\<lambda>_. Some []) single_period"
    using loaded_example_scheme
    by (simp add: loaded_scheme_def single_period_def valid_splits_def isValidShamirSplit_def SeedSpecIDs_def)
  then show ?thesis by (auto simp: loaded_schemes_def)
qed

lemma lossy_result:
  "map_option (\<lambda>s. (sender s, map_option (\<lambda>st. (payloadSLOKs st, issuedSLOKs st slokID \<noteq> None)) (oslClientSeedState s), client_store s slokID))
      (osl_run rev_hmac lossy_labels (start_osl [loaded_example 5] Map.empty))
    = Some (Awaiting, Some ([], True), None)"
  if "slokID = slok_ID (spec_slok rev_hmac (loaded_example 5) ''P'' (replicate 32 1) 15)"
  unfolding that by code_simp

lemma served_result:
  "map_option (\<lambda>s. (sender s, map_option (\<lambda>st. (payloadSLOKs st, issuedSLOKs st slokID \<noteq> None)) (oslClientSeedState s), client_store s slokID \<noteq> None))
      (osl_run rev_hmac (served_labels @ [ClearPayload]) (start_osl [single_period] Map.empty))
    = Some (Awaiting, Some ([], True), True)"
  if "slokID = slok_ID (spec_slok rev_hmac single_period ''P'' specID 10)" "specID = replicate 32 1 \<or> specID = replicate 32 2"
  using that(2) unfolding that(1) by (elim disjE; simp only:; code_simp)

lemma served_reachable:
  assumes "osl_run rev_hmac (served_labels @ [ClearPayload]) (start_osl schemes Map.empty) = Some s"
  shows "osl_reachable rev_hmac ''P'' schemes s"
proof -
  let ?s0 = "start_osl schemes Map.empty"
  let ?s1 = "setOSLConfig (\<lambda>_. (11, 12)) ''US'' (Some ''P'') (?s0\<lparr>sender := Awaiting\<rparr>)"
  let ?traffic = "Progress [1, 2, 3, 4] (\<lambda>_. ''64496'') (\<lambda>_ _. 13) 100 0 0"
  let ?rest = "[TakeSignal, FetchPayload (\<lambda>_. 14), Deliver (\<lambda>_. True) True, ClearPayload]"
  have "osl_reachable rev_hmac ''P'' schemes ?s0" by (rule osl_reachable.start) (simp add: genuine_store_def)
  then have r1: "osl_reachable rev_hmac ''P'' schemes ?s1"
    by (rule osl_run_reachable [of rev_hmac "[Connect, Handshake (\<lambda>_. (11, 12)) ''US'' (Some ''P'')]", rotated])
      (auto simp: start_osl_def)
  obtain s2 where s2: "osl_step rev_hmac ?traffic ?s1 = Some s2" "osl_run rev_hmac ?rest s2 = Some s"
    using assms by (auto simp: served_labels_def start_osl_def bind_eq_Some_conv)
  have "undisturbed ''P'' ?traffic ?s1" by (simp add: setOSLConfig_def start_osl_def in_exchange_def)
  then have "osl_reachable rev_hmac ''P'' schemes s2" by (rule osl_reachable.step [OF r1 _ s2(1)])
  then show ?thesis by (rule osl_run_reachable [OF s2(2)]) auto
qed

text \<open>Issuing depends on the state only through what was issued: a SLOK issued before never comes back.\<close>

lemma issued_not_repeated:
  assumes inv: "seed_inv hmac channel schemes st"
    and "issuedSLOKs st slokID = Some k" "k \<notin> set (payloadSLOKs st)"
  shows "k \<notin> set (fst (GetSeedPayload hmac clock st))"
proof -
  obtain sloks st' where g: "GetSeedPayload hmac clock st = (sloks, st')" by fastforce
  have "slok_ID k = slokID" using inv assms(2) by (simp add: seed_inv_def payload_ok_def)
  then show ?thesis using payload_issues [OF inv g] assms(2,3) g by (auto simp: issues_more_def)
qed

text \<open>In every run without a reload the seed state is one that the server's operations reach.\<close>

definition seeds_reachable :: "(bytes \<Rightarrow> bytes \<Rightarrow> bytes) \<Rightarrow> osl_sys \<Rightarrow> bool" where
  "seeds_reachable hmac s \<longleftrightarrow> pred_option (seed_reachable hmac (OSLConfig s)) (oslClientSeedState s) \<and>
    pred_option (seed_reachable hmac (OSLConfig s)) (oslSessionCache s)"

fun is_reload :: "osl_label \<Rightarrow> bool" where
  "is_reload (ReloadOSLConfig _ _ _ _) = True"
| "is_reload _ = False"

lemma seeds_reachable_signal: "seed_reachable hmac schemes st \<Longrightarrow> seed_reachable hmac schemes (sendIssueSLOKsSignal st)"
  using seed_reachable.resume [of hmac schemes st] by (auto simp: sendIssueSLOKsSignal_def Resume_def split: option.split)

lemma seeds_reachable_step:
  assumes "seeds_reachable hmac s" "osl_step hmac l s = Some t" "\<not> is_reload l"
  shows "seeds_reachable hmac t"
proof (cases l)
  case (Progress ip lookupASN clock r w d)
  then show ?thesis using assms seed_reachable.update
    by (auto simp: seeds_reachable_def progress_step_def client_newPortForward_def with_seed_def split: option.splits)
next
  case (FetchPayload clock)
  then show ?thesis using assms seed_reachable.payload
    by (auto simp: seeds_reachable_def fetch_payload_def getOSLSeedPayload_def split: osl_sender.splits option.splits prod.splits)
next
  case TakeSignal
  then show ?thesis using assms seed_reachable.resume
    by (auto simp: seeds_reachable_def take_signal_def with_seed_def Let_def option.pred_map comp_def
        elim!: option.pred_mono_strong split: if_splits osl_sender.splits)
next
  case StaleSignal
  then show ?thesis using assms seeds_reachable_signal
    by (auto simp: seeds_reachable_def with_seed_def option.pred_map comp_def elim!: option.pred_mono_strong)
next
  case (Handshake clock country c)
  then show ?thesis using assms seed_reachable.resume seed_reachable.new
    by (auto simp: seeds_reachable_def setOSLConfig_def Let_def split: if_splits option.splits)
next
  case (Deliver committed replied)
  then show ?thesis using assms
    by (auto simp: seeds_reachable_def deliver_def split: osl_sender.splits option.splits prod.splits)
next
  case Disconnect
  then show ?thesis using assms seed_reachable.hibernate
    by (auto simp: seeds_reachable_def disconnect_def transferOSLSeedState_def split: osl_sender.splits option.splits)
next
  case ClearPayload
  then show ?thesis using assms seed_reachable.clear
    by (auto simp: seeds_reachable_def clear_payload_def clearOSLSeedPayload_def split: osl_sender.splits option.splits)
qed (use assms in \<open>auto simp: seeds_reachable_def retry_timer_def split: if_splits osl_sender.splits\<close>)

lemma seeds_reachable_run:
  "osl_run hmac ls s = Some t \<Longrightarrow> seeds_reachable hmac s \<Longrightarrow> \<forall>l\<in>set ls. \<not> is_reload l \<Longrightarrow> seeds_reachable hmac t"
  by (induction ls arbitrary: s) (auto simp: bind_eq_Some_conv dest: seeds_reachable_step)

lemma config_kept: "osl_step hmac l s = Some t \<Longrightarrow> \<not> is_reload l \<Longrightarrow> OSLConfig t = OSLConfig s"
  by (cases l) (auto simp: progress_step_def with_seed_def setOSLConfig_def Let_def take_signal_def fetch_payload_def
      getOSLSeedPayload_def deliver_def clear_payload_def clearOSLSeedPayload_def retry_timer_def disconnect_def
      transferOSLSeedState_def split: if_splits option.splits osl_sender.splits prod.splits)

lemma config_kept_run: "osl_run hmac ls s = Some t \<Longrightarrow> \<forall>l\<in>set ls. \<not> is_reload l \<Longrightarrow> OSLConfig t = OSLConfig s"
  by (induction ls arbitrary: s) (auto simp: bind_eq_Some_conv dest: config_kept)

section \<open>Properties\<close>



text \<open>
  C29: a client that has been sent what it was issued opens an OSL exactly as the server made it: the
  key it reassembles from its bucket is the file key, and it has the key when the issued
  SLOKs reach the thresholds of the scheme.
\<close>

theorem issued_sloks_unlock:
  assumes "osl_reachable hmac channel schemes s" "loaded_schemes schemes" "oslClientSeedState s = Some st" "payloadSLOKs st = []"
    and "inj_on slok_ID (scheme_sloks hmac channel schemes)" "scheme \<in> set schemes"
    and "makeOSLFileSpec hmac seal keystream scheme channel t = Some (Inr (fileKey, fileSpec))"
    and "\<And>k m. length (hmac k m) = KEY_LENGTH_BYTES" "unseals seal unseal" "valid_orders ord"
  shows "\<exists>ok. ReassembleOSLKey unseal ord (\<lambda>slokID. fst (lookupSLOKs True slokID (client_store s) alerted)) fileSpec
      = Inr (ok, if ok then fileKey else []) \<and>
    (level_seeded (slok_seeded hmac scheme channel (\<lambda>slokID. map_option slok_Key (issuedSLOKs st slokID))) scheme
      (rev (SeedPeriodKeySplits scheme)) t \<longrightarrow> ok)"
proof -
  have lookup: "(\<lambda>slokID. fst (lookupSLOKs True slokID (client_store s) alerted)) = client_store s"
    by (simp add: lookupSLOKs_def GetSLOK_def)
  have inv: "osl_inv hmac channel schemes s" by (rule osl_reachable_inv [OF assms(1,2)])
  have mine: "spec_slok hmac scheme channel specID t' \<in> scheme_sloks hmac channel schemes"
    if "specID \<in> set (SeedSpecIDs scheme)" for specID t'
    using that assms(6) by (auto simp: scheme_sloks_def SeedSpecIDs_def)
  have gen: "genuine_lookup hmac scheme channel (client_store s)"
    unfolding genuine_lookup_def
  proof (intro allI impI)
    fix specID t' k assume "specID \<in> set (SeedSpecIDs scheme)"
      and k: "client_store s (slok_ID (spec_slok hmac scheme channel specID t')) = Some k"
    note slok = mine [OF this(1)]
    obtain s' where "s' \<in> scheme_sloks hmac channel schemes" "slok_Key s' = k"
      "slok_ID s' = slok_ID (spec_slok hmac scheme channel specID t')"
      using inv k unfolding osl_inv_def genuine_store_def by blast
    then show "k = slok_Key (spec_slok hmac scheme channel specID t')"
      using inj_onD [OF assms(5)] slok by metis
  qed
  have "slok_seeded hmac scheme channel (client_store s) t' specID"
    if "slok_seeded hmac scheme channel (\<lambda>slokID. map_option slok_Key (issuedSLOKs st slokID)) t' specID" for t' specID
    using that inv assms(3,4) by (auto simp: slok_seeded_def osl_inv_def own_seed_def accounted_def)
  note mono = level_seeded_mono [OF _ this]
  show ?thesis
    unfolding lookup using reassembly_exact [OF assms(7-10) gen] mono by auto
qed

theorem issued_sloks_unlock_witness:
  "\<exists>s fileKey fileSpec. osl_run rev_hmac (served_labels @ [ClearPayload]) (start_osl [single_period] Map.empty) = Some s \<and>
    makeOSLFileSpec rev_hmac (\<lambda>k p. p) (\<lambda>_. replicate 96 1) single_period ''P'' 10 = Some (Inr (fileKey, fileSpec)) \<and>
    ReassembleOSLKey (\<lambda>k b. Some b) (\<lambda>m _. ascending m) (\<lambda>slokID. fst (lookupSLOKs True slokID (client_store s) False)) fileSpec
      = Inr (True, fileKey)"
proof -
  obtain s st where s: "osl_run rev_hmac (served_labels @ [ClearPayload]) (start_osl [single_period] Map.empty) = Some s"
    "oslClientSeedState s = Some st" "payloadSLOKs st = []"
    using served_result [OF refl, of "replicate 32 1"] by fastforce
  have issued: "issuedSLOKs st (slok_ID (spec_slok rev_hmac single_period ''P'' specID 10)) \<noteq> None"
    if "specID = replicate 32 1 \<or> specID = replicate 32 2" for specID
    using served_result [OF refl that] s by simp
  have splits: "valid_splits single_period" using loaded_single by (auto simp: loaded_schemes_def loaded_scheme_def)
  have need: "level_need single_period (rev (SeedPeriodKeySplits single_period)) \<le> 96"
    by (simp add: single_period_def split_need_def KEY_LENGTH_BYTES_def loaded_example_def example_scheme_def SeedSpecIDs_def)
  obtain fileKey fileSpec where f: "makeOSLFileSpec rev_hmac (\<lambda>k p. p) (\<lambda>_. replicate 96 1) single_period ''P'' 10 = Some (Inr (fileKey, fileSpec))"
    using file_spec_succeeds [OF splits length_rev_hmac, of "\<lambda>_. replicate 96 1"] need by force
  have "level_seeded (slok_seeded rev_hmac single_period ''P'' (\<lambda>slokID. map_option slok_Key (issuedSLOKs st slokID))) single_period
      (rev (SeedPeriodKeySplits single_period)) 10"
    using issued [of "replicate 32 1"] issued [of "replicate 32 2"]
    by (simp add: slok_seeded_def single_period_def loaded_example_def example_scheme_def SeedSpecIDs_def)
  then show ?thesis
    using issued_sloks_unlock [OF served_reachable [OF s(1)] loaded_single s(2,3) rev_hmac_inj _ f length_rev_hmac
        example_unseals orders_ascending, of False] s(1) f by auto
qed

text \<open>
  A SLOK is lost when a seed period ends while a payload is in flight: traffic at the start of the
  next period issues it into the payload after the payload was fetched, and the
  acknowledgement of the fetched payload clears it. The client never had it, and it is not in
  any later payload.
\<close>

lemma cleared_unsent_slok:
  "\<exists>s st slokID k. osl_run rev_hmac lossy_labels (start_osl [loaded_example 5] Map.empty) = Some s \<and>
    oslClientSeedState s = Some st \<and> issuedSLOKs st slokID = Some k \<and> client_store s slokID = None \<and>
    payloadSLOKs st = [] \<and> (\<forall>clock. k \<notin> set (fst (GetSeedPayload rev_hmac clock st)))"
proof -
  let ?id = "slok_ID (spec_slok rev_hmac (loaded_example 5) ''P'' (replicate 32 1) 15)"
  obtain s st k where s: "osl_run rev_hmac lossy_labels (start_osl [loaded_example 5] Map.empty) = Some s"
    "oslClientSeedState s = Some st" "issuedSLOKs st ?id = Some k" "payloadSLOKs st = []" "client_store s ?id = None"
    using lossy_result [OF refl] by fastforce
  have labels: "\<forall>l\<in>set lossy_labels. \<not> is_reload l" by (simp add: lossy_labels_def served_labels_def)
  have "seeds_reachable rev_hmac s" "OSLConfig s = [loaded_example 5]"
    using seeds_reachable_run [OF s(1) _ labels] config_kept_run [OF s(1) labels]
    by (simp_all add: start_osl_def seeds_reachable_def)
  then have "seed_reachable rev_hmac [loaded_example 5] st" using s(2) by (simp add: seeds_reachable_def)
  then have "seed_inv rev_hmac (propagationChannelID st) (schemes_of st) st"
    using seed_reachable_inv [OF _ loaded_example_schemes] by blast
  from issued_not_repeated [OF this s(3)] s show ?thesis by auto
qed

text \<open>
  The handler reports new SLOKs exactly when it stored one whose ID was not in the bucket, and a
  request that only asks to clear the bucket, which its JSON fields allow, makes it panic.
\<close>

lemma handler_reports_new:
  assumes "HandleOSLRequest deleted (\<lambda>_. True) (Some \<lparr>ClearLocalSLOKs = False, SeedPayload = Some sloks\<rparr>) store
    = Some (accepted, seededNew, store')"
  shows "accepted \<and> (seededNew \<longleftrightarrow> (\<exists>s\<in>set sloks. store (slok_ID s) = None)) \<and> (\<forall>s\<in>set sloks. store' (slok_ID s) \<noteq> None)"
proof -
  obtain new store2 where n: "set_sloks (\<lambda>_. True) 0 sloks store = (new, store2)" by fastforce
  then show ?thesis using assms set_sloks_store(3,4) [OF n] by (simp add: HandleOSLRequest_def)
qed

lemma clear_only_request_panics:
  "HandleOSLRequest deleted committed (Some \<lparr>ClearLocalSLOKs = True, SeedPayload = None\<rparr>) store = None"
  by (simp add: HandleOSLRequest_def)

text \<open>The delay before a retry doubles on timers and on signals; as a 64-bit integer it is 0 after 54 retries.\<close>

lemma retry_delay_wraps: "SSH_SEND_OSL_INITIAL_RETRY_DELAY * SSH_SEND_OSL_RETRY_FACTOR ^ 54 = 0"
  by (simp add: SSH_SEND_OSL_INITIAL_RETRY_DELAY_def SSH_SEND_OSL_RETRY_FACTOR_def)

end
