(* ===== verification/TunPacket.thy ===== *)
theory TunPacket
  imports Bytes Blocklist "HOL-Library.AList"
begin

text \<open>
  The packet tunnel's packet processing, \<open>processPacket\<close> of \<open>common/tun/tun.go\<close>: the parsing of IPv4
  and IPv6 packets, transparent DNS, the address rewriting with its incremental checksums, the
  tracking of flows, the traffic rules, and the packet metrics.

  A packet is the list of its bytes, and slices of it are offsets into it. The session has its callbacks as
  optional functions; a call of a nil callback and an index out of range are a panic, \<open>None\<close>. The
  sync.Map of flows is an association list, in the order its \<open>Range\<close> visits it. Each reading of the
  clock is an argument. What is reported to flow updaters and to the DNS quality reporter
  is a list of events. A server call has a nil \<open>clientTransparentDNS\<close> and a client call a nil session, which are
  not read then. \<open>common.ParseDNSQuestion\<close>, which wraps a DNS library, and the random choice are parameters.
\<close>

section \<open>Metrics\<close>

datatype packet_direction = ServerUpstream | ServerDownstream | ClientUpstream | ClientDownstream

definition is_upstream :: "packet_direction \<Rightarrow> bool" where
  "is_upstream direction \<longleftrightarrow> direction = ServerUpstream \<or> direction = ClientUpstream"

definition is_server :: "packet_direction \<Rightarrow> bool" where
  "is_server direction \<longleftrightarrow> direction = ServerUpstream \<or> direction = ServerDownstream"

datatype reject_reason = RejectNoSession | RejectDestinationAddress | RejectLength | RejectVersion | RejectOptions
  | RejectProtocol | RejectTCPProtocolLength | RejectUDPProtocolLength | RejectTCPPort | RejectUDPPort
  | RejectNoOriginalAddress | RejectNoDNSResolvers | RejectInvalidDNSMessage | RejectDisallowedDomain | RejectNoClient

definition internetProtocolTCP :: byte where "internetProtocolTCP = 6"
definition internetProtocolUDP :: byte where "internetProtocolUDP = 17"
definition portNumberDNS :: "16 word" where "portNumberDNS = 53"

record relayed_metrics =
  packetsUp :: int
  packetsDown :: int
  bytesUp :: int
  bytesDown :: int
  applicationBytesUp :: int
  applicationBytesDown :: int

record packet_metrics =
  upstreamRejectReasons :: "reject_reason \<Rightarrow> int"
  downstreamRejectReasons :: "reject_reason \<Rightarrow> int"
  TCPIPv4 :: relayed_metrics
  TCPIPv6 :: relayed_metrics
  UDPIPv4 :: relayed_metrics
  UDPIPv6 :: relayed_metrics

definition rejectedPacket :: "packet_direction \<Rightarrow> reject_reason \<Rightarrow> packet_metrics \<Rightarrow> packet_metrics" where
  "rejectedPacket direction reason m =
    (if is_upstream direction
     then m\<lparr>upstreamRejectReasons := (upstreamRejectReasons m)(reason := upstreamRejectReasons m reason + 1)\<rparr>
     else m\<lparr>downstreamRejectReasons := (downstreamRejectReasons m)(reason := downstreamRejectReasons m reason + 1)\<rparr>)"

definition count_relayed :: "bool \<Rightarrow> int \<Rightarrow> int \<Rightarrow> relayed_metrics \<Rightarrow> relayed_metrics" where
  "count_relayed up n app r =
    (if up then r\<lparr>packetsUp := packetsUp r + 1, bytesUp := bytesUp r + n, applicationBytesUp := applicationBytesUp r + app\<rparr>
     else r\<lparr>packetsDown := packetsDown r + 1, bytesDown := bytesDown r + n, applicationBytesDown := applicationBytesDown r + app\<rparr>)"

definition relayedPacket :: "packet_direction \<Rightarrow> nat \<Rightarrow> byte \<Rightarrow> nat \<Rightarrow> nat \<Rightarrow> packet_metrics \<Rightarrow> packet_metrics" where
  "relayedPacket direction version protocol packetLength applicationDataLength m =
    (let count = count_relayed (is_upstream direction) (int packetLength) (int applicationDataLength)
     in if version = 4 then
          (if protocol = internetProtocolTCP then m\<lparr>TCPIPv4 := count (TCPIPv4 m)\<rparr> else m\<lparr>UDPIPv4 := count (UDPIPv4 m)\<rparr>)
        else
          (if protocol = internetProtocolTCP then m\<lparr>TCPIPv6 := count (TCPIPv6 m)\<rparr> else m\<lparr>UDPIPv6 := count (UDPIPv6 m)\<rparr>))"

definition no_relayed :: relayed_metrics where
  "no_relayed = \<lparr>packetsUp = 0, packetsDown = 0, bytesUp = 0, bytesDown = 0, applicationBytesUp = 0, applicationBytesDown = 0\<rparr>"

text \<open>
  A checkpoint: what it passes to the metrics updater (TCP down, TCP up, UDP down, UDP up), and the
  counters after it. The log record is not modelled.
\<close>

definition checkpoint :: "bool \<Rightarrow> bool \<Rightarrow> packet_metrics \<Rightarrow> (int \<times> int \<times> int \<times> int) option \<times> packet_metrics" where
  "checkpoint rejected relayed m =
    (let m1 = (if rejected then m\<lparr>upstreamRejectReasons := (\<lambda>_. 0), downstreamRejectReasons := (\<lambda>_. 0)\<rparr> else m)
     in if relayed then
          (Some (applicationBytesDown (TCPIPv4 m) + applicationBytesDown (TCPIPv6 m),
             applicationBytesUp (TCPIPv4 m) + applicationBytesUp (TCPIPv6 m),
             applicationBytesDown (UDPIPv4 m) + applicationBytesDown (UDPIPv6 m),
             applicationBytesUp (UDPIPv4 m) + applicationBytesUp (UDPIPv6 m)),
           m1\<lparr>TCPIPv4 := no_relayed, TCPIPv6 := no_relayed, UDPIPv4 := no_relayed, UDPIPv6 := no_relayed\<rparr>)
        else (None, m1))"

section \<open>Parsing\<close>

text \<open>Where the fields of a packet are: the offsets of its addresses, ports, transport checksum and data.\<close>

record parsed_packet =
  version :: nat
  protocol :: byte
  source_at :: nat
  destination_at :: nat
  address_length :: nat
  ports_at :: nat
  checksum_at :: nat
  data_at :: nat

text \<open>The transport header that starts at \<open>base\<close>\<close>

definition parse_transport :: "bytes \<Rightarrow> nat \<Rightarrow> byte \<Rightarrow> nat \<Rightarrow> nat \<Rightarrow> nat \<Rightarrow> reject_reason + parsed_packet" where
  "parse_transport packet vers proto src len base =
    (let parsed = (\<lambda>checksum dataOffset. \<lparr>version = vers, protocol = proto, source_at = src, destination_at = src + len,
           address_length = len, ports_at = base, checksum_at = checksum, data_at = dataOffset\<rparr>)
     in if proto = internetProtocolTCP then
          (if length packet < base + 18 then Inl RejectTCPProtocolLength
           else let dataOffset = base + 4 * unat (drop_bit 4 (packet ! (base + 12)))
           in if length packet < dataOffset then Inl RejectTCPProtocolLength else Inr (parsed (base + 16) dataOffset))
        else if proto = internetProtocolUDP then
          (let dataOffset = base + 8
           in if length packet < dataOffset then Inl RejectUDPProtocolLength else Inr (parsed (base + 6) dataOffset))
        else Inl RejectProtocol)"

definition parse_packet :: "bytes \<Rightarrow> reject_reason + parsed_packet" where
  "parse_packet packet =
    (if length packet < 1 then Inl RejectLength
     else let vers = unat (drop_bit 4 (packet ! 0))
     in if vers \<noteq> 4 \<and> vers \<noteq> 6 then Inl RejectVersion
        else if vers = 4 then
          (if packet ! 0 AND 0x0F \<noteq> 5 then Inl RejectOptions
           else if length packet < 20 then Inl RejectLength
           else parse_transport packet 4 (packet ! 9) 12 4 20)
        else
          (if length packet < 40 then Inl RejectLength
           else parse_transport packet 6 (packet ! 6) 8 16 40))"

definition sourceIPAddress :: "parsed_packet \<Rightarrow> bytes \<Rightarrow> bytes" where
  "sourceIPAddress k packet = slice_of packet (source_at k) (source_at k + address_length k)"

definition destinationIPAddress :: "parsed_packet \<Rightarrow> bytes \<Rightarrow> bytes" where
  "destinationIPAddress k packet = slice_of packet (destination_at k) (destination_at k + address_length k)"

definition sourcePort :: "parsed_packet \<Rightarrow> bytes \<Rightarrow> 16 word" where
  "sourcePort k packet = of_be16 (slice_of packet (ports_at k) (ports_at k + 2))"

definition destinationPort :: "parsed_packet \<Rightarrow> bytes \<Rightarrow> 16 word" where
  "destinationPort k packet = of_be16 (slice_of packet (ports_at k + 2) (ports_at k + 4))"

definition applicationData :: "parsed_packet \<Rightarrow> bytes \<Rightarrow> bytes" where
  "applicationData k packet = drop (data_at k) packet"

text \<open>The server's routing of a packet from the tun device needs only its destination.\<close>

definition getPacketDestinationIPAddress :: "bytes \<Rightarrow> reject_reason + bytes" where
  "getPacketDestinationIPAddress packet =
    (if length packet < 1 then Inl RejectLength
     else let vers = unat (drop_bit 4 (packet ! 0))
     in if vers \<noteq> 4 \<and> vers \<noteq> 6 then Inl RejectVersion
        else if vers = 4 then (if length packet < 20 then Inl RejectLength else Inr (slice_of packet 16 20))
        else (if length packet < 40 then Inl RejectLength else Inr (slice_of packet 24 40)))"

section \<open>Sessions and flows\<close>

record flow_id =
  downstreamIPAddress :: bytes
  downstreamPort :: "16 word"
  upstreamIPAddress :: bytes
  upstreamPort :: "16 word"
  flow_protocol :: byte

definition to_16 :: "bytes \<Rightarrow> bytes" where
  "to_16 ip = (if length ip = 4 then v4InV6Prefix @ ip else take 16 (ip @ replicate 16 0))"

definition flowID_set :: "bytes \<Rightarrow> 16 word \<Rightarrow> bytes \<Rightarrow> 16 word \<Rightarrow> byte \<Rightarrow> flow_id" where
  "flowID_set downIP downPort upIP upPort proto = \<lparr>downstreamIPAddress = to_16 downIP, downstreamPort = downPort,
    upstreamIPAddress = to_16 upIP, upstreamPort = upPort, flow_protocol = proto\<rparr>"

record flow_state =
  firstUpstreamPacketTime :: int
  lastUpstreamPacketTime :: int
  firstDownstreamPacketTime :: int
  lastDownstreamPacketTime :: int
  isDNS :: bool
  flow_dnsQualityReporter :: bool
  activityUpdaters :: "nat list"

datatype tun_event = FlowProgress nat int int int | DNSQuality bool int bytes

record tun_session =
  allowBogons :: bool
  enableDNSFlowTracking :: bool
  DNSResolverIPv4Addresses :: "bytes list"
  TCPDNSResolverIPv4Index :: nat
  assignedIPv4Address :: bytes
  originalIPv4Address :: "bytes option"
  DNSResolverIPv6Addresses :: "bytes list"
  TCPDNSResolverIPv6Index :: nat
  assignedIPv6Address :: bytes
  originalIPv6Address :: "bytes option"
  checkAllowedTCPPortFunc :: "(bytes \<Rightarrow> int \<Rightarrow> bool) option"
  checkAllowedUDPPortFunc :: "(bytes \<Rightarrow> int \<Rightarrow> bool) option"
  checkAllowedDomainFunc :: "(string \<Rightarrow> bool) option"
  flowActivityUpdaterMaker :: "(bool \<Rightarrow> string \<Rightarrow> bytes \<Rightarrow> nat list) option"
  dnsQualityReporter :: bool
  lastFlowReapIndex :: int
  flows :: "(flow_id \<times> flow_state) list"

definition FLOW_IDLE_EXPIRY :: int where
  "FLOW_IDLE_EXPIRY = 60 * 1000000000"

definition flow_expired :: "int \<Rightarrow> int \<Rightarrow> flow_state \<Rightarrow> bool" where
  "flow_expired now idleExpiry f \<longleftrightarrow>
    now - lastUpstreamPacketTime f > idleExpiry \<and> now - lastDownstreamPacketTime f > idleExpiry"

definition deleteFlow :: "int \<Rightarrow> flow_id \<Rightarrow> flow_state \<Rightarrow> tun_session \<Rightarrow> tun_session \<times> tun_event list" where
  "deleteFlow now fid f s =
    (let events =
       (if isDNS f \<and> firstUpstreamPacketTime f > 0 then
          (let dnsSuccess = (firstDownstreamPacketTime f \<noteq> 0);
               dnsEndTime = (if dnsSuccess then firstDownstreamPacketTime f else now)
           in if flow_dnsQualityReporter f
              then [DNSQuality dnsSuccess (dnsEndTime - firstUpstreamPacketTime f) (upstreamIPAddress fid)] else [])
        else [])
     in (s\<lparr>flows := AList.delete fid (flows s)\<rparr>, events))"

definition isTrackingFlow :: "int \<Rightarrow> flow_id \<Rightarrow> tun_session \<Rightarrow> bool \<times> tun_session \<times> tun_event list" where
  "isTrackingFlow now fid s = (case map_of (flows s) fid of
     None \<Rightarrow> (False, s, [])
   | Some f \<Rightarrow> if flow_expired now FLOW_IDLE_EXPIRY f then (False, deleteFlow now fid f s) else (True, s, []))"

fun reap_loop :: "int \<Rightarrow> (flow_id \<times> flow_state) list \<Rightarrow> tun_session \<Rightarrow> tun_session \<times> tun_event list" where
  "reap_loop now [] s = (s, [])"
| "reap_loop now ((fid, f) # fs) s =
    (let (s1, e1) = (if flow_expired now FLOW_IDLE_EXPIRY f then deleteFlow now fid f s else (s, []));
         (s2, e2) = reap_loop now fs s1
     in (s2, e1 @ e2))"

definition reapFlows :: "int \<Rightarrow> tun_session \<Rightarrow> tun_session \<times> tun_event list" where
  "reapFlows now s = reap_loop now (flows s) s"

fun delete_loop :: "int \<Rightarrow> (flow_id \<times> flow_state) list \<Rightarrow> tun_session \<Rightarrow> tun_session \<times> tun_event list" where
  "delete_loop now [] s = (s, [])"
| "delete_loop now ((fid, f) # fs) s =
    (let (s1, e1) = deleteFlow now fid f s; (s2, e2) = delete_loop now fs s1 in (s2, e1 @ e2))"

definition deleteFlows :: "int \<Rightarrow> tun_session \<Rightarrow> tun_session \<times> tun_event list" where
  "deleteFlows now s = delete_loop now (flows s) s"

definition updateFlow :: "int \<Rightarrow> flow_id \<Rightarrow> packet_direction \<Rightarrow> bytes \<Rightarrow> tun_session \<Rightarrow> tun_session \<times> tun_event list" where
  "updateFlow now fid direction appData s = (case map_of (flows s) fid of
     None \<Rightarrow> (s, [])
   | Some f \<Rightarrow>
      if direction = ServerUpstream then
        (let f' = f\<lparr>firstUpstreamPacketTime := (if firstUpstreamPacketTime f = 0 then now else firstUpstreamPacketTime f),
               lastUpstreamPacketTime := now\<rparr>
         in (s\<lparr>flows := AList.update fid f' (flows s)\<rparr>,
             map (\<lambda>u. FlowProgress u 0 (int (length appData)) 0) (activityUpdaters f)))
      else
        (let f' = f\<lparr>firstDownstreamPacketTime := (if firstDownstreamPacketTime f = 0 then now else firstDownstreamPacketTime f),
               lastDownstreamPacketTime := now\<rparr>
         in (s\<lparr>flows := AList.update fid f' (flows s)\<rparr>,
             map (\<lambda>u. FlowProgress u (int (length appData)) 0 (now - lastDownstreamPacketTime f)) (activityUpdaters f))))"

text \<open>The readings of the clock: when the flow starts, and in \<open>reapFlows\<close> and \<open>updateFlow\<close>.\<close>

definition startTrackingFlow :: "int \<Rightarrow> int \<Rightarrow> int \<Rightarrow> flow_id \<Rightarrow> packet_direction \<Rightarrow> bytes \<Rightarrow> bool \<Rightarrow> tun_session
    \<Rightarrow> tun_session \<times> tun_event list" where
  "startTrackingFlow now reapNow updateNow fid direction appData dns s =
    (let reapIndex = now div (FLOW_IDLE_EXPIRY div 2);
         (s1, e1) = (if reapIndex \<noteq> lastFlowReapIndex s then reapFlows reapNow (s\<lparr>lastFlowReapIndex := reapIndex\<rparr>) else (s, []));
         updaters = (if dns then [] else case flowActivityUpdaterMaker s of None \<Rightarrow> []
           | Some mk \<Rightarrow> mk (flow_protocol fid = internetProtocolTCP) [] (upstreamIPAddress fid));
         f = \<lparr>firstUpstreamPacketTime = (if direction = ServerUpstream then now else 0),
              lastUpstreamPacketTime = (if direction = ServerUpstream then now else 0),
              firstDownstreamPacketTime = (if direction = ServerUpstream then 0 else now),
              lastDownstreamPacketTime = (if direction = ServerUpstream then 0 else now),
              isDNS = dns, flow_dnsQualityReporter = dnsQualityReporter s, activityUpdaters = updaters\<rparr>;
         s2 = (if map_of (flows s1) fid = None then s1\<lparr>flows := flows s1 @ [(fid, f)]\<rparr> else s1);
         (s3, e3) = updateFlow updateNow fid direction appData s2
     in (s3, e1 @ e3))"

section \<open>Checksums\<close>

text \<open>Signed 32-bit arithmetic, written out\<close>

definition int32 :: "int \<Rightarrow> int" where
  "int32 x = signed_take_bit 31 x"

text \<open>\<open>None\<close> is the panic on data whose length is not a multiple of four.\<close>

fun checksumAccumulate :: "bytes \<Rightarrow> bool \<Rightarrow> int \<Rightarrow> int option" where
  "checksumAccumulate [] newData acc = Some acc"
| "checksumAccumulate (a # b # c # d # rest) newData acc =
    (let w = uint a * 2 ^ 24 + uint b * 2 ^ 16 + uint c * 2 ^ 8 + uint d;
         low = w mod 0x10000; high = w div 0x10000
     in checksumAccumulate rest newData
          (if newData then int32 (int32 (acc - low) - high) else int32 (int32 (acc + low) + high)))"
| "checksumAccumulate _ newData acc = None"

text \<open>The two folds of the accumulator, whose high half is an arithmetic shift\<close>

definition fold_accumulator :: "int \<Rightarrow> int" where
  "fold_accumulator acc = (let a = int32 (acc div 0x10000 + acc mod 0x10000) in int32 (a + a div 0x10000))"

definition checksumAdjust :: "bytes \<Rightarrow> int \<Rightarrow> bytes" where
  "checksumAdjust checksumData accumulator =
    (let checksum = uint (of_be16 checksumData);
         acc = int32 (accumulator + checksum);
         checksum' = (if acc < 0 then word_of_int (- fold_accumulator (int32 (- acc)) - 1)
                      else word_of_int (fold_accumulator acc)) :: 16 word
     in be16 checksum')"

section \<open>Processing\<close>

definition transparentDNSResolverIPv4Address :: bytes where
  "transparentDNSResolverIPv4Address = [10, 0, 0, 2]"

definition privateSubnetIPv4 :: ip_net where
  "privateSubnetIPv4 = net4 10 0 0 0 8"

definition transparentDNSResolverIPv6Address :: bytes where
  "transparentDNSResolverIPv6Address = [0xfd, 0x19, 0xca, 0x83, 0xe6, 0xd5, 0x1c, 0x44, 0, 0, 0, 0, 0, 0, 0, 2]"

definition privateSubnetIPv6 :: ip_net where
  "privateSubnetIPv6 = net6 [0xfd, 0x19, 0xca, 0x83, 0xe6, 0xd5, 0x1c, 0x44] [] 64"

record client_dns =
  client_IPv4Address :: bytes
  client_IPv6Address :: bytes

record tun_env =
  ParseDNSQuestion :: "bytes \<Rightarrow> string option"
  rand_Intn :: "nat \<Rightarrow> nat"

text \<open>\<open>net.IP.IsGlobalUnicast\<close>\<close>

definition IPv6loopback :: bytes where
  "IPv6loopback = replicate 15 0 @ [1]"

definition IsUnspecified :: "bytes \<Rightarrow> bool" where
  "IsUnspecified ip \<longleftrightarrow> IP_Equal ip (v4InV6Prefix @ [0, 0, 0, 0]) \<or> IP_Equal ip (replicate 16 0)"

definition IsLoopback :: "bytes \<Rightarrow> bool" where
  "IsLoopback ip \<longleftrightarrow> (case To4 ip of Some v4 \<Rightarrow> v4 ! 0 = 127 | None \<Rightarrow> IP_Equal ip IPv6loopback)"

definition IsMulticast :: "bytes \<Rightarrow> bool" where
  "IsMulticast ip \<longleftrightarrow> (case To4 ip of Some v4 \<Rightarrow> v4 ! 0 AND 0xf0 = 0xe0 | None \<Rightarrow> length ip = 16 \<and> ip ! 0 = 0xff)"

definition IsLinkLocalUnicast :: "bytes \<Rightarrow> bool" where
  "IsLinkLocalUnicast ip \<longleftrightarrow> (case To4 ip of Some v4 \<Rightarrow> v4 ! 0 = 169 \<and> v4 ! 1 = 254
    | None \<Rightarrow> length ip = 16 \<and> ip ! 0 = 0xfe \<and> ip ! 1 AND 0xc0 = 0x80)"

definition IsGlobalUnicast :: "bytes \<Rightarrow> bool" where
  "IsGlobalUnicast ip \<longleftrightarrow> (length ip = 4 \<or> length ip = 16) \<and> \<not> IP_Equal ip (v4InV6Prefix @ [255, 255, 255, 255]) \<and>
    \<not> IsUnspecified ip \<and> \<not> IsLoopback ip \<and> \<not> IsMulticast ip \<and> \<not> IsLinkLocalUnicast ip"

text \<open>Whether a packet qualifies for transparent DNS, or why it is rejected\<close>

definition upstream_dns :: "tun_env \<Rightarrow> tun_session \<Rightarrow> parsed_packet \<Rightarrow> bytes \<Rightarrow> (reject_reason + bool) option" where
  "upstream_dns env s k packet =
    (if destinationPort k packet \<noteq> portNumberDNS then Some (Inr False)
     else
       let dst = destinationIPAddress k packet;
           resolvers = (if version k = 4 then DNSResolverIPv4Addresses s else DNSResolverIPv6Addresses s)
       in if (version k = 4 \<and> IP_Equal dst transparentDNSResolverIPv4Address) \<or>
             (version k = 6 \<and> IP_Equal dst transparentDNSResolverIPv6Address) then
            (if length resolvers > 0 then
               (if protocol k = internetProtocolUDP then
                  (case ParseDNSQuestion env (applicationData k packet) of
                     None \<Rightarrow> Some (Inl RejectInvalidDNSMessage)
                   | Some domain \<Rightarrow>
                       if domain \<noteq> [] then
                         (case checkAllowedDomainFunc s of None \<Rightarrow> None
                          | Some f \<Rightarrow> if f domain then Some (Inr True) else Some (Inl RejectDisallowedDomain))
                       else Some (Inr True))
                else Some (Inr True))
             else Some (Inl RejectNoDNSResolvers))
          else Some (Inr False))"

definition transparent_dns :: "tun_env \<Rightarrow> tun_session \<Rightarrow> client_dns \<Rightarrow> packet_direction \<Rightarrow> parsed_packet \<Rightarrow> bytes
    \<Rightarrow> (reject_reason + bool) option" where
  "transparent_dns env s c direction k packet =
    (case direction of
       ServerUpstream \<Rightarrow> upstream_dns env s k packet
     | ServerDownstream \<Rightarrow> Some (Inr (sourcePort k packet = portNumberDNS \<and>
         list_ex (IP_Equal (sourceIPAddress k packet))
           (if version k = 4 then DNSResolverIPv4Addresses s else DNSResolverIPv6Addresses s)))
     | ClientUpstream \<Rightarrow> Some (Inr (destinationPort k packet = portNumberDNS \<and>
         ((version k = 4 \<and> IP_Equal (destinationIPAddress k packet) (client_IPv4Address c)) \<or>
          (version k = 6 \<and> IP_Equal (destinationIPAddress k packet) (client_IPv6Address c)))))
     | ClientDownstream \<Rightarrow> Some (Inr (sourcePort k packet = portNumberDNS \<and>
         ((version k = 4 \<and> IP_Equal (sourceIPAddress k packet) transparentDNSResolverIPv4Address) \<or>
          (version k = 6 \<and> IP_Equal (sourceIPAddress k packet) transparentDNSResolverIPv6Address)))))"

text \<open>The resolver a DNS packet is sent to: one for all TCP packets of the session, a random one for a UDP packet\<close>

definition pick_resolver :: "tun_env \<Rightarrow> byte \<Rightarrow> nat \<Rightarrow> bytes list \<Rightarrow> bytes option" where
  "pick_resolver env proto tcpIndex resolvers =
    (let index = (if proto = internetProtocolUDP then rand_Intn env (length resolvers) else tcpIndex)
     in if index < length resolvers then Some (resolvers ! index) else None)"

text \<open>A nil address: nothing is rewritten.\<close>

definition non_nil :: "bytes \<Rightarrow> bytes option" where
  "non_nil ip = (if ip = [] then None else Some ip)"

definition setOriginalAddressIfNotSet :: "nat \<Rightarrow> bytes \<Rightarrow> tun_session \<Rightarrow> tun_session" where
  "setOriginalAddressIfNotSet vers ip s =
    (if vers = 4 then (if originalIPv4Address s = None then s\<lparr>originalIPv4Address := Some ip\<rparr> else s)
     else (if originalIPv6Address s = None then s\<lparr>originalIPv6Address := Some ip\<rparr> else s))"

text \<open>The rewritten source and destination, and the session that now has its original address\<close>

definition address_rewrites :: "tun_env \<Rightarrow> client_dns \<Rightarrow> packet_direction \<Rightarrow> parsed_packet \<Rightarrow> bytes \<Rightarrow> bool \<Rightarrow> tun_session
    \<Rightarrow> ((reject_reason + bytes option \<times> bytes option) \<times> tun_session) option" where
  "address_rewrites env c direction k packet dns s =
    (case direction of
       ServerUpstream \<Rightarrow>
         (let s' = setOriginalAddressIfNotSet (version k) (sourceIPAddress k packet) s;
              src = non_nil (if version k = 4 then assignedIPv4Address s else assignedIPv6Address s);
              resolver = (if version k = 4 then pick_resolver env (protocol k) (TCPDNSResolverIPv4Index s) (DNSResolverIPv4Addresses s)
                          else pick_resolver env (protocol k) (TCPDNSResolverIPv6Index s) (DNSResolverIPv6Addresses s))
          in if dns then map_option (\<lambda>ip. (Inr (src, non_nil ip), s')) resolver else Some (Inr (src, None), s'))
     | ServerDownstream \<Rightarrow>
         Some (case (if version k = 4 then originalIPv4Address s else originalIPv6Address s) of
            None \<Rightarrow> (Inl RejectNoOriginalAddress, s)
          | Some ip \<Rightarrow> (Inr (if dns then Some (if version k = 4 then transparentDNSResolverIPv4Address
                                           else transparentDNSResolverIPv6Address) else None, Some ip), s))
     | ClientUpstream \<Rightarrow>
         Some (Inr (None, if dns then Some (if version k = 4 then transparentDNSResolverIPv4Address
                                       else transparentDNSResolverIPv6Address) else None), s)
     | ClientDownstream \<Rightarrow>
         Some (Inr (if dns then non_nil (if version k = 4 then client_IPv4Address c else client_IPv6Address c) else None, None), s))"

text \<open>All flow IDs are in the upstream space: rewritten upstream, as they arrive downstream.\<close>

definition flow_of :: "packet_direction \<Rightarrow> parsed_packet \<Rightarrow> bytes \<Rightarrow> bytes option \<Rightarrow> bytes option \<Rightarrow> flow_id" where
  "flow_of direction k packet src dst =
    (let from = sourceIPAddress k packet; dest = destinationIPAddress k packet
     in if direction = ServerUpstream then
          flowID_set (case src of None \<Rightarrow> from | Some ip \<Rightarrow> ip) (sourcePort k packet)
            (case dst of None \<Rightarrow> dest | Some ip \<Rightarrow> ip) (destinationPort k packet) (protocol k)
        else flowID_set dest (destinationPort k packet) from (sourcePort k packet) (protocol k))"

definition port_allowed :: "(bytes \<Rightarrow> int \<Rightarrow> bool) option \<Rightarrow> packet_direction \<Rightarrow> flow_id \<Rightarrow> int \<Rightarrow> bool" where
  "port_allowed check direction fid port \<longleftrightarrow> port \<noteq> 0 \<and>
    (is_server direction \<longrightarrow> (case check of None \<Rightarrow> False | Some f \<Rightarrow> f (upstreamIPAddress fid) port))"

definition destination_allowed :: "tun_session \<Rightarrow> packet_direction \<Rightarrow> nat \<Rightarrow> bytes \<Rightarrow> bool" where
  "destination_allowed s direction vers dst \<longleftrightarrow> IsGlobalUnicast dst \<and>
    \<not> (direction = ServerUpstream \<and> \<not> allowBogons s \<and> IsBogon dst) \<and>
    \<not> (direction = ServerUpstream \<and>
       ((vers = 4 \<and> \<not> IP_Equal dst transparentDNSResolverIPv4Address \<and> IPNet_Contains privateSubnetIPv4 dst) \<or>
        (vers = 6 \<and> \<not> IP_Equal dst transparentDNSResolverIPv6Address \<and> IPNet_Contains privateSubnetIPv6 dst)))"

definition permission :: "tun_session \<Rightarrow> packet_direction \<Rightarrow> parsed_packet \<Rightarrow> bytes \<Rightarrow> flow_id \<Rightarrow> reject_reason option" where
  "permission s direction k packet fid =
    (let checkPort = uint (if is_upstream direction then destinationPort k packet else sourcePort k packet)
     in if protocol k = internetProtocolTCP \<and> \<not> port_allowed (checkAllowedTCPPortFunc s) direction fid checkPort
        then Some RejectTCPPort
        else if protocol k = internetProtocolUDP \<and> \<not> port_allowed (checkAllowedUDPPortFunc s) direction fid checkPort
        then Some RejectUDPPort
        else if \<not> destination_allowed s direction (version k) (destinationIPAddress k packet)
        then Some RejectDestinationAddress else None)"

definition rewrite_address :: "nat \<Rightarrow> nat \<Rightarrow> bytes option \<Rightarrow> bytes \<times> int \<Rightarrow> (bytes \<times> int) option" where
  "rewrite_address at len ip = (\<lambda>(packet, acc). case ip of None \<Rightarrow> Some (packet, acc)
    | Some new \<Rightarrow>
        (let packet' = put at (take len new) packet
         in Option.bind (checksumAccumulate (slice_of packet at (at + len)) False acc) (\<lambda>acc1.
            map_option (Pair packet') (checksumAccumulate (slice_of packet' at (at + len)) True acc1))))"

definition adjust_at :: "nat \<Rightarrow> int \<Rightarrow> bytes \<Rightarrow> bytes" where
  "adjust_at at acc packet = put at (checksumAdjust (slice_of packet at (at + 2)) acc) packet"

definition rewrite_packet :: "parsed_packet \<Rightarrow> bytes option \<Rightarrow> bytes option \<Rightarrow> bytes \<Rightarrow> bytes option" where
  "rewrite_packet k src dst packet =
    Option.bind (rewrite_address (source_at k) (address_length k) src (packet, 0)) (\<lambda>x.
    map_option (\<lambda>(packet', acc).
        if src = None \<and> dst = None then packet'
        else adjust_at (checksum_at k) acc (if version k = 4 then adjust_at 10 acc packet' else packet'))
      (rewrite_address (destination_at k) (address_length k) dst x))"

text \<open>The readings of the clock: in \<open>isTrackingFlow\<close>, and the three of \<open>startTrackingFlow\<close>, or the one of \<open>updateFlow\<close>.\<close>

record tun_result =
  relayed :: bool
  out_packet :: bytes
  out_session :: tun_session
  out_metrics :: packet_metrics
  out_events :: "tun_event list"

definition rejected :: "packet_direction \<Rightarrow> reject_reason \<Rightarrow> bytes \<Rightarrow> tun_session \<Rightarrow> packet_metrics \<Rightarrow> tun_event list \<Rightarrow> tun_result" where
  "rejected direction reason packet s m events = \<lparr>relayed = False, out_packet = packet, out_session = s,
    out_metrics = rejectedPacket direction reason m, out_events = events\<rparr>"

definition finish_packet :: "(nat \<Rightarrow> int) \<Rightarrow> packet_direction \<Rightarrow> parsed_packet \<Rightarrow> bytes \<Rightarrow> bool \<Rightarrow> bool \<Rightarrow> bool \<Rightarrow> flow_id
    \<Rightarrow> bytes option \<Rightarrow> bytes option \<Rightarrow> tun_session \<Rightarrow> packet_metrics \<Rightarrow> tun_event list \<Rightarrow> tun_result option" where
  "finish_packet clock direction k packet dns tracking_on tracked fid src dst s m events =
    (case (if dns \<or> tracked then None else permission s direction k packet fid) of
       Some reason \<Rightarrow> Some (rejected direction reason packet s m events)
     | None \<Rightarrow>
         map_option (\<lambda>packet'.
             let appData = applicationData k packet';
                 (s', e) = (if \<not> tracking_on then (s, [])
                   else if \<not> tracked then startTrackingFlow (clock 1) (clock 2) (clock 3) fid direction appData dns s
                   else updateFlow (clock 1) fid direction appData s)
             in \<lparr>relayed = True, out_packet = packet', out_session = s',
                  out_metrics = relayedPacket direction (version k) (protocol k) (length packet') (length appData) m,
                  out_events = events @ e\<rparr>)
           (rewrite_packet k src dst packet))"

definition processPacket :: "tun_env \<Rightarrow> (nat \<Rightarrow> int) \<Rightarrow> client_dns \<Rightarrow> packet_direction \<Rightarrow> bytes \<Rightarrow> tun_session \<Rightarrow> packet_metrics
    \<Rightarrow> tun_result option" where
  "processPacket env clock c direction packet s m =
    (case parse_packet packet of
       Inl reason \<Rightarrow> Some (rejected direction reason packet s m [])
     | Inr k \<Rightarrow>
        (case transparent_dns env s c direction k packet of
           None \<Rightarrow> None
         | Some (Inl reason) \<Rightarrow> Some (rejected direction reason packet s m [])
         | Some (Inr dns) \<Rightarrow>
            (case address_rewrites env c direction k packet dns s of
               None \<Rightarrow> None
             | Some (Inl reason, s1) \<Rightarrow> Some (rejected direction reason packet s1 m [])
             | Some (Inr (src, dst), s1) \<Rightarrow>
                (let tracking_on = is_server direction \<and> (\<not> dns \<or> enableDNSFlowTracking s1);
                     fid = flow_of direction k packet src dst;
                     (tracked, s2, e) = (if tracking_on then isTrackingFlow (clock 0) fid s1 else (False, s1, []))
                 in finish_packet clock direction k packet dns tracking_on tracked fid src dst s2 m e))))"

end
