(* ===== verification/TunPacketFacts.thy ===== *)
theory TunPacketFacts
  imports TunPacket
begin

text \<open>
  What holds of packet processing: a parsed packet is long enough for every field, so that processing does not
  panic; the incremental checksums change the one's complement sums by nothing, modulo 65535;
  what is relayed was permitted, directly or when its flow began; and the address
  translation of a reply undoes that of the packet it answers.
\<close>

section \<open>The layout of a parsed packet\<close>

definition layout :: "parsed_packet \<Rightarrow> bytes \<Rightarrow> bool" where
  "layout k packet \<longleftrightarrow>
    (version k = 4 \<and> source_at k = 12 \<and> destination_at k = 16 \<and> address_length k = 4 \<and> ports_at k = 20 \<or>
     version k = 6 \<and> source_at k = 8 \<and> destination_at k = 24 \<and> address_length k = 16 \<and> ports_at k = 40) \<and>
    (protocol k = internetProtocolTCP \<and> checksum_at k = ports_at k + 16 \<or>
     protocol k = internetProtocolUDP \<and> checksum_at k = ports_at k + 6) \<and>
    checksum_at k + 2 \<le> length packet \<and> data_at k \<le> length packet"

lemma protocols_distinct [simp]: "internetProtocolTCP \<noteq> internetProtocolUDP" "internetProtocolUDP \<noteq> internetProtocolTCP"
  by (simp_all add: internetProtocolTCP_def internetProtocolUDP_def)

lemma parse_layout: "parse_packet packet = Inr k \<Longrightarrow> layout k packet"
  by (auto simp: parse_packet_def parse_transport_def layout_def Let_def split: if_splits)

lemma layout_length: "layout k packet \<Longrightarrow> length packet = length packet' \<Longrightarrow> layout k packet'"
  by (simp add: layout_def)

lemma length_slice: "b \<le> length buffer \<Longrightarrow> length (slice_of buffer a b) = b - a"
  by (simp add: slice_of_def)

lemma layout_addresses:
  assumes "layout k packet"
  shows "length (sourceIPAddress k packet) = address_length k" "length (destinationIPAddress k packet) = address_length k"
    "destination_at k = source_at k + address_length k" "ports_at k = destination_at k + address_length k"
  using assms by (auto simp: layout_def sourceIPAddress_def destinationIPAddress_def length_slice)

section \<open>Checksums\<close>

text \<open>The sum of the 16-bit words of some bytes, an odd last byte padded\<close>

fun sum16 :: "bytes \<Rightarrow> int" where
  "sum16 [] = 0"
| "sum16 [a] = uint a * 256"
| "sum16 (a # b # xs) = uint a * 256 + uint b + sum16 xs"

lemma sum16_append: "even (length xs) \<Longrightarrow> sum16 (xs @ ys) = sum16 xs + sum16 ys"
  by (induction xs rule: sum16.induct) auto

lemma byte_bounds: "0 \<le> uint (a :: byte)" "uint (a :: byte) < 256"
  using uint_lt2p [of a] by auto

lemma sum16_bounds: "0 \<le> sum16 xs \<and> sum16 xs \<le> 65535 * int ((length xs + 1) div 2)"
proof (induction xs rule: sum16.induct)
  case (2 a)
  then show ?case using byte_bounds [of a] by simp
next
  case (3 a b xs)
  then show ?case using byte_bounds [of a] byte_bounds [of b] by simp
qed simp

lemma int32_small: "- 2147483648 \<le> x \<Longrightarrow> x < 2147483648 \<Longrightarrow> int32 x = x"
  unfolding int32_def by (rule signed_take_bit_int_eq_self) simp_all

lemma word_halves:
  assumes "0 \<le> c" "c < 256" "0 \<le> d" "d < (256 :: int)"
  shows "(a * 2 ^ 24 + b * 2 ^ 16 + c * 2 ^ 8 + d) mod 0x10000 = c * 256 + d"
    "(a * 2 ^ 24 + b * 2 ^ 16 + c * 2 ^ 8 + d) div 0x10000 = a * 256 + b"
proof -
  have e: "a * 2 ^ 24 + b * 2 ^ 16 + c * 2 ^ 8 + d = (c * 256 + d) + 0x10000 * (a * 256 + b)" by simp
  have "0 \<le> c * 256 + d" "c * 256 + d < 0x10000" using assms by auto
  then show "(a * 2 ^ 24 + b * 2 ^ 16 + c * 2 ^ 8 + d) mod 0x10000 = c * 256 + d"
    "(a * 2 ^ 24 + b * 2 ^ 16 + c * 2 ^ 8 + d) div 0x10000 = a * 256 + b"
    unfolding e by (simp_all only: mod_mult_self2 mod_pos_pos_trivial) (simp add: div_pos_pos_trivial)
qed

lemma accumulate_step:
  fixes a b c d :: byte
  defines "low \<equiv> uint c * 256 + uint d" and "high \<equiv> uint a * 256 + uint b"
  assumes "\<bar>acc\<bar> + 131070 < 2147483648"
  shows "checksumAccumulate (a # b # c # d # rest) newData acc =
      checksumAccumulate rest newData (if newData then acc - (low + high) else acc + (low + high))"
    "\<bar>if newData then acc - (low + high) else acc + (low + high)\<bar> \<le> \<bar>acc\<bar> + 131070"
    "sum16 (a # b # c # d # rest) = low + high + sum16 rest"
proof -
  have bounds: "0 \<le> low" "low \<le> 65535" "0 \<le> high" "high \<le> 65535"
    using byte_bounds [of a] byte_bounds [of b] byte_bounds [of c] byte_bounds [of d] by (auto simp: low_def high_def)
  have i: "int32 (acc - low) = acc - low" "int32 (acc - low - high) = acc - low - high"
    "int32 (acc + low) = acc + low" "int32 (acc + low + high) = acc + low + high"
    by (rule int32_small; use bounds assms(3) in linarith)+
  show "checksumAccumulate (a # b # c # d # rest) newData acc =
      checksumAccumulate rest newData (if newData then acc - (low + high) else acc + (low + high))"
    unfolding checksumAccumulate.simps Let_def word_halves [OF byte_bounds byte_bounds] low_def [symmetric] high_def [symmetric] i
    by (simp add: algebra_simps)
  show "\<bar>if newData then acc - (low + high) else acc + (low + high)\<bar> \<le> \<bar>acc\<bar> + 131070"
    using bounds by auto
  show "sum16 (a # b # c # d # rest) = low + high + sum16 rest" by (simp add: low_def high_def)
qed

lemma accumulate_sum:
  assumes "length data = 4 * n" "\<bar>acc\<bar> + 131070 * int n < 2147483648"
  shows "checksumAccumulate data newData acc = Some (if newData then acc - sum16 data else acc + sum16 data)"
  using assms
proof (induction n arbitrary: data acc)
  case (Suc n)
  have "length data = Suc (Suc (Suc (Suc (4 * n))))" using Suc.prems(1) by simp
  then obtain a b c d rest where data: "data = a # b # c # d # rest" "length rest = 4 * n"
    by (auto simp: length_Suc_conv)
  let ?x = "uint c * 256 + uint d + (uint a * 256 + uint b)"
  let ?acc = "if newData then acc - ?x else acc + ?x"
  have small: "\<bar>acc\<bar> + 131070 < 2147483648" using Suc.prems(2) by simp
  note step = accumulate_step [OF small, where a = a and b = b and c = c and d = d]
  have "\<bar>?acc\<bar> + 131070 * int n < 2147483648"
  proof -
    have "\<bar>?acc\<bar> + 131070 * int n \<le> \<bar>acc\<bar> + 131070 + 131070 * int n" using step(2) by (rule add_right_mono)
    also have "\<dots> = \<bar>acc\<bar> + 131070 * int (Suc n)" by simp
    also have "\<dots> < 2147483648" by (rule Suc.prems(2))
    finally show ?thesis .
  qed
  from Suc.IH [OF data(2) this] show ?case
    unfolding data(1) step(1,3) by (simp add: algebra_simps)
qed simp

text \<open>The folds and the complement keep the residue modulo 65535.\<close>

lemma fold_residue:
  assumes "0 \<le> a" "a < 2147483648"
  shows "fold_accumulator a mod 65536 mod 65535 = a mod 65535" "0 \<le> fold_accumulator a" "fold_accumulator a < 2 * 65536"
proof -
  let ?q = "a div 65536" and ?r = "a mod 65536"
  have r: "0 \<le> ?r" "?r < 65536" "a = 65536 * ?q + ?r" by simp_all
  then have q: "0 \<le> ?q" "?q < 32768" "0 \<le> ?r" "?r < 65536" "a = 65536 * ?q + ?r"
    using assms by linarith+
  have one: "int32 (?q + ?r) = ?q + ?r" by (rule int32_small; use q in linarith)
  have qr: "(?q + ?r) div 65536 = (if ?q + ?r < 65536 then 0 else 1)" using q by auto
  have carry: "0 \<le> (?q + ?r) div 65536" "(?q + ?r) div 65536 \<le> 1" using qr by simp_all
  have two: "fold_accumulator a = ?q + ?r + (?q + ?r) div 65536"
    unfolding fold_accumulator_def Let_def one by (rule int32_small; use q(1-4) carry in linarith)
  have res: "a mod 65535 = (?q + ?r) mod 65535"
  proof -
    have "a = ?q + ?r + 65535 * ?q" using q(5) by simp
    then show ?thesis by (metis mod_mult_self2)
  qed
  show "0 \<le> fold_accumulator a" "fold_accumulator a < 2 * 65536" using two q(1-4) carry by linarith+
  show "fold_accumulator a mod 65536 mod 65535 = a mod 65535"
  proof (cases "?q + ?r < 65536")
    case True
    then show ?thesis using two qr q res by simp
  next
    case False
    then have "fold_accumulator a = ?q + ?r - 65535 + 65536" "0 \<le> ?q + ?r - 65535" "?q + ?r - 65535 < 65536"
      using False two qr q(1-4) by (simp, linarith, linarith)
    then have "fold_accumulator a mod 65536 = ?q + ?r - 65535" by (metis mod_add_self2 mod_pos_pos_trivial)
    then show ?thesis unfolding res by (metis mod_diff_right_eq mod_self diff_zero)
  qed
qed

lemma uint_be16: "uint (of_be16 [a, b]) = uint a * 256 + uint b"
proof -
  have "push_bit 8 (ucast a) OR ucast b = (push_bit 8 (ucast a) + ucast b :: 16 word)"
    by (rule disjunctive_add [symmetric]) (auto simp: bit_simps dest: bit_imp_le_length)
  also have "\<dots> = word_of_int (uint a * 256 + uint b)" by (simp add: push_bit_eq_mult)
  finally have e: "of_be16 [a, b] = word_of_int (uint a * 256 + uint b)" by simp
  show ?thesis unfolding e uint_word_of_int
    by (rule trans [OF _ mod_pos_pos_trivial [of _ 65536]]) (use byte_bounds [of a] byte_bounds [of b] in \<open>simp; linarith\<close>)+
qed

lemma sum16_pair: "length xs = 2 \<Longrightarrow> sum16 xs = uint (of_be16 xs)"
  by (auto simp: length_Suc_conv numeral_2_eq_2 uint_be16 simp del: of_be16.simps)

lemma adjust_residue:
  assumes "length data = 2" "\<bar>acc\<bar> < 2000000000"
  shows "length (checksumAdjust data acc) = 2" "sum16 (checksumAdjust data acc) mod 65535 = (acc + sum16 data) mod 65535"
proof -
  show "length (checksumAdjust data acc) = 2" by (simp add: checksumAdjust_def Let_def)
  let ?c = "uint (of_be16 data)"
  have c: "0 \<le> ?c" "?c < 65536" using uint_lt2p [of "of_be16 data"] by auto
  have i: "int32 (acc + ?c) = acc + ?c" by (rule int32_small) (use c assms(2) in linarith)+
  show "sum16 (checksumAdjust data acc) mod 65535 = (acc + sum16 data) mod 65535"
  proof (cases "acc + ?c < 0")
    case False
    then have "fold_accumulator (acc + ?c) mod 65536 mod 65535 = (acc + ?c) mod 65535"
      by (intro fold_residue) (use c assms(2) in linarith)+
    then show ?thesis using False i assms(1)
      by (simp add: sum16_pair checksumAdjust_def Let_def uint_word_of_int)
  next
    case True
    let ?b = "- (acc + ?c)"
    let ?f = "fold_accumulator ?b"
    have b: "0 \<le> ?b" "?b < 2147483648" using True c assms(2) by linarith+
    note f = fold_residue [OF b]
    have ib: "int32 ?b = ?b" by (rule int32_small) (use b in linarith)+
    have "(- ?f - 1) mod 65536 = (- ?f - 1 + 65536) mod 65536" by (rule mod_add_self2 [symmetric])
    also have "\<dots> = (65535 - ?f mod 65536) mod 65536" unfolding mod_diff_right_eq by (simp add: algebra_simps)
    also have "\<dots> = 65535 - ?f mod 65536"
      by (rule mod_pos_pos_trivial) (use pos_mod_bound [of 65536 ?f] pos_mod_sign [of 65536 ?f] in linarith)+
    finally have "(- ?f - 1) mod 65536 mod 65535 = (65535 - ?f mod 65536) mod 65535" by simp
    also have "\<dots> = (- (?f mod 65536)) mod 65535"
      using mod_diff_left_eq [of 65535 65535 "?f mod 65536", symmetric] by simp
    also have "\<dots> = (- (?f mod 65536 mod 65535)) mod 65535" by (rule mod_minus_eq [symmetric])
    also have "\<dots> = (acc + ?c) mod 65535" unfolding f(1) mod_minus_eq by (simp add: add.commute)
    finally have r: "(- ?f - 1) mod 65536 mod 65535 = (acc + ?c) mod 65535" .
    have e: "checksumAdjust data acc = be16 (word_of_int (- ?f - 1))"
      unfolding checksumAdjust_def Let_def i ib if_P [OF True] ..
    have "uint (word_of_int (- ?f - 1) :: 16 word) = (- ?f - 1) mod 65536" unfolding uint_word_of_int by simp
    then have "sum16 (checksumAdjust data acc) = (- ?f - 1) mod 65536"
      unfolding e sum16_pair [OF le16_length(2)] of_be16_be16(2) .
    then show ?thesis using r sum16_pair [OF assms(1)] by (simp only:)
  qed
qed

section \<open>Rewriting\<close>

lemma put_parts: "at + length xs \<le> length p \<Longrightarrow> put at xs p = take at p @ xs @ drop (at + length xs) p"
  by (simp add: put_def)

lemma split_at: "at + n \<le> length p \<Longrightarrow> p = take at p @ slice_of p at (at + n) @ drop (at + n) p"
  by (simp add: slice_of_def) (metis append_take_drop_id drop_drop add.commute)

text \<open>Two buffers that differ only in a region of even offset and length\<close>

definition same_outside :: "nat \<Rightarrow> nat \<Rightarrow> bytes \<Rightarrow> bytes \<Rightarrow> bool" where
  "same_outside at n p p' \<longleftrightarrow> length p' = length p \<and> at + n \<le> length p \<and>
    take at p' = take at p \<and> drop (at + n) p' = drop (at + n) p"

lemma same_outside_put: "length xs \<le> n \<Longrightarrow> at + n \<le> length p \<Longrightarrow> same_outside at n p (put at xs p)"
  by (simp add: same_outside_def put_def add.commute)

lemma sum16_region:
  assumes "same_outside at n p p'" "even at" "even n"
  shows "sum16 p' = sum16 p - sum16 (slice_of p at (at + n)) + sum16 (slice_of p' at (at + n))"
proof -
  have len: "at + n \<le> length p" "at + n \<le> length p'" using assms(1) by (simp_all add: same_outside_def)
  have s: "sum16 q = sum16 (take at q) + sum16 (slice_of q at (at + n)) + sum16 (drop (at + n) q)" if "at + n \<le> length q" for q
  proof -
    have "even (length (take at q))" "even (length (slice_of q at (at + n)))"
      using assms(2,3) that by (simp_all add: length_slice)
    then have "sum16 (take at q @ slice_of q at (at + n) @ drop (at + n) q)
        = sum16 (take at q) + sum16 (slice_of q at (at + n)) + sum16 (drop (at + n) q)" by (simp add: sum16_append)
    then show ?thesis using split_at [OF that] by simp
  qed
  show ?thesis using s [OF len(1)] s [OF len(2)] assms(1) by (simp add: same_outside_def)
qed

lemma slice_put_same: "at + length xs \<le> length p \<Longrightarrow> slice_of (put at xs p) at (at + length xs) = xs"
  by (simp add: put_def slice_of_def)

lemma slice_of_take: "slice_of p a b = drop a (take b p)"
  by (simp add: slice_of_def drop_take)

lemma slice_put_other:
  assumes "at + length xs \<le> length p" "b \<le> at \<or> at + length xs \<le> a"
  shows "slice_of (put at xs p) a b = slice_of p a b"
proof (cases "b \<le> at")
  case True
  then have "take b (put at xs p) = take b p" using assms(1) by (simp add: put_def)
  then show ?thesis by (simp add: slice_of_take)
next
  case False
  then have a: "at + length xs \<le> a" using assms(2) by simp
  then have "drop a (put at xs p) = drop (a - (at + length xs)) (drop (at + length xs) p)"
    using assms(1) by (simp add: put_def)
  then show ?thesis using a by (simp add: slice_of_def)
qed

text \<open>Restricting such buffers to a front or a rear that has the region, or that does not touch it\<close>

lemma same_outside_take:
  assumes "same_outside at n p p'"
  shows "at + n \<le> m \<Longrightarrow> m \<le> length p \<Longrightarrow> same_outside at n (take m p) (take m p')"
    and "m \<le> at \<Longrightarrow> take m p' = take m p"
proof -
  show "same_outside at n (take m p) (take m p')" if "at + n \<le> m" "m \<le> length p"
  proof -
    have "drop (at + n) (take m q) = take (m - (at + n)) (drop (at + n) q)" for q :: bytes by (simp add: drop_take)
    then show ?thesis using assms that by (simp add: same_outside_def min_def)
  qed
  show "take m p' = take m p" if "m \<le> at"
  proof -
    have "take m (take at p') = take m (take at p)" using assms by (simp add: same_outside_def)
    then show ?thesis using that by (simp add: min_def)
  qed
qed

lemma same_outside_drop:
  assumes "same_outside at n p p'"
  shows "m \<le> at \<Longrightarrow> same_outside (at - m) n (drop m p) (drop m p')"
    and "at + n \<le> m \<Longrightarrow> drop m p' = drop m p"
proof -
  show "same_outside (at - m) n (drop m p) (drop m p')" if "m \<le> at"
  proof -
    have "take (at - m) (drop m q) = drop m (take at q)" for q :: bytes by (simp add: drop_take)
    then show ?thesis using assms that by (auto simp: same_outside_def)
  qed
  show "drop m p' = drop m p" if "at + n \<le> m"
  proof -
    have "drop (m - (at + n)) (drop (at + n) p') = drop (m - (at + n)) (drop (at + n) p)"
      using assms by (simp add: same_outside_def)
    then show ?thesis using that by simp
  qed
qed

lemma same_outside_slice:
  "same_outside at n p p' \<Longrightarrow> b \<le> at \<or> at + n \<le> a \<Longrightarrow> slice_of p' a b = slice_of p a b"
  using same_outside_take(2) [of at n p p' b] same_outside_drop(2) [of at n p p' a]
  by (auto simp: slice_of_take) (simp flip: slice_of_take add: slice_of_def)

lemma slice_take: "b \<le> m \<Longrightarrow> slice_of (take m p) a b = slice_of p a b"
  by (simp add: slice_of_take min_def)

lemma slice_drop: "m \<le> a \<Longrightarrow> slice_of (drop m p) (a - m) (b - m) = slice_of p a b"
  by (simp add: slice_of_def diff_diff_right)

lemma rewrite_address_effect:
  assumes "at + len \<le> length p" "len = 4 * n" "n \<le> 4" "\<bar>acc\<bar> \<le> 600000"
  obtains p' where "rewrite_address at len ip (p, acc) =
      Some (p', acc + sum16 (slice_of p at (at + len)) - sum16 (slice_of p' at (at + len)))"
    "same_outside at len p p'" "ip = None \<Longrightarrow> p' = p"
    "\<And>new. ip = Some new \<Longrightarrow> length new = len \<Longrightarrow> slice_of p' at (at + len) = new"
proof (cases ip)
  case None
  then show ?thesis using that [of p] assms(1) by (simp add: rewrite_address_def same_outside_def)
next
  case (Some new)
  let ?p = "put at (take len new) p"
  have out: "same_outside at len p ?p" by (rule same_outside_put) (use assms(1) in simp_all)
  then have l: "length (slice_of p at (at + len)) = 4 * n" "length (slice_of ?p at (at + len)) = 4 * n"
    using assms(1,2) by (simp_all add: length_slice same_outside_def)
  have b: "0 \<le> sum16 (slice_of p at (at + len))" "sum16 (slice_of p at (at + len)) \<le> 65535 * int ((4 * n + 1) div 2)"
    using sum16_bounds [of "slice_of p at (at + len)"] l by auto
  have small: "\<bar>acc\<bar> + 131070 * int n < 2147483648"
    "\<bar>acc + sum16 (slice_of p at (at + len))\<bar> + 131070 * int n < 2147483648"
    using assms(3,4) b by auto
  have "rewrite_address at len (Some new) (p, acc) =
      Some (?p, acc + sum16 (slice_of p at (at + len)) - sum16 (slice_of ?p at (at + len)))"
    using accumulate_sum [OF l(1) small(1), of False] accumulate_sum [OF l(2) small(2), of True]
    by (simp add: rewrite_address_def Let_def)
  moreover have "slice_of ?p at (at + len) = x" if "length x = len" "Some new = Some x" for x
    using that slice_put_same [of at "take len new" p] assms(1) by simp
  ultimately show ?thesis using that [of ?p] out Some by auto
qed

lemma same_outside_nth:
  assumes "same_outside at n p p'" "i < at \<or> at + n \<le> i"
  shows "p' ! i = p ! i"
proof (cases "i < at")
  case True
  then have "take at p' ! i = take at p ! i" using assms(1) by (simp add: same_outside_def)
  then show ?thesis using True by simp
next
  case False
  then have i: "at + n \<le> i" using assms(2) by simp
  have d: "q ! i = drop (at + n) q ! (i - (at + n))" if "at + n \<le> length q" for q :: bytes using i that by simp
  have "p' ! i = drop (at + n) p' ! (i - (at + n))" by (rule d) (use assms(1) in \<open>simp add: same_outside_def\<close>)
  also have "\<dots> = drop (at + n) p ! (i - (at + n))" using assms(1) by (simp add: same_outside_def)
  also have "\<dots> = p ! i" by (rule d [symmetric]) (use assms(1) in \<open>simp add: same_outside_def\<close>)
  finally show ?thesis .
qed

lemma adjust_effect:
  assumes "at + 2 \<le> length p" "\<bar>acc\<bar> < 2000000000"
  shows "same_outside at 2 p (adjust_at at acc p)"
    "sum16 (slice_of (adjust_at at acc p) at (at + 2)) mod 65535 = (acc + sum16 (slice_of p at (at + 2))) mod 65535"
proof -
  have l: "length (slice_of p at (at + 2)) = 2" using assms(1) by (simp add: length_slice)
  note adj = adjust_residue [OF l assms(2)]
  show "same_outside at 2 p (adjust_at at acc p)"
    unfolding adjust_at_def by (rule same_outside_put) (use adj(1) assms(1) in simp_all)
  have "slice_of (adjust_at at acc p) at (at + 2) = checksumAdjust (slice_of p at (at + 2)) acc"
    using slice_put_same [of at "checksumAdjust (slice_of p at (at + 2)) acc" p] adj(1) assms(1) by (simp add: adjust_at_def)
  then show "sum16 (slice_of (adjust_at at acc p) at (at + 2)) mod 65535 = (acc + sum16 (slice_of p at (at + 2))) mod 65535"
    using adj(2) by simp
qed

text \<open>The sums that a receiver checks: over the IPv4 header, and over the pseudo header and the transport segment\<close>

definition header_sum :: "bytes \<Rightarrow> int" where
  "header_sum packet = sum16 (take 20 packet)"

definition transport_sum :: "parsed_packet \<Rightarrow> bytes \<Rightarrow> int" where
  "transport_sum k packet = sum16 (sourceIPAddress k packet) + sum16 (destinationIPAddress k packet) + uint (protocol k) +
    int (length packet - ports_at k) + sum16 (drop (ports_at k) packet)"

text \<open>The bytes that parsing reads\<close>

definition same_header :: "parsed_packet \<Rightarrow> bytes \<Rightarrow> bytes \<Rightarrow> bool" where
  "same_header k p p' \<longleftrightarrow> length p' = length p \<and> p' ! 0 = p ! 0 \<and>
    (\<forall>i. i < source_at k \<and> (version k = 4 \<longrightarrow> i < 10) \<longrightarrow> p' ! i = p ! i) \<and>
    p' ! (ports_at k + 12) = p ! (ports_at k + 12) \<and>
    slice_of p' (ports_at k) (ports_at k + 4) = slice_of p (ports_at k) (ports_at k + 4)"

lemma same_header_parse:
  assumes "parse_packet p = Inr k" "same_header k p p'"
  shows "parse_packet p' = Inr k"
proof -
  have l: "length p' = length p" "p' ! 0 = p ! 0" "p' ! (ports_at k + 12) = p ! (ports_at k + 12)"
    using assms(2) by (simp_all add: same_header_def)
  have t: "vers = version k \<and> base = ports_at k \<and> parse_transport p' vers proto src len base = Inr k"
    if "parse_transport p vers proto src len base = Inr k" for vers proto src len base
  proof -
    from that have "vers = version k" "base = ports_at k"
      by (auto simp: parse_transport_def Let_def split: if_splits)
    then show ?thesis using that l by (simp add: parse_transport_def Let_def split: if_splits)
  qed
  consider (v4) "parse_transport p 4 (p ! 9) 12 4 20 = Inr k" "unat (drop_bit 4 (p ! 0)) = 4"
    | (v6) "parse_transport p 6 (p ! 6) 8 16 40 = Inr k" "unat (drop_bit 4 (p ! 0)) = 6"
    using assms(1) by (auto simp: parse_packet_def Let_def split: if_splits)
  then show ?thesis
  proof cases
    case v4
    then have "source_at k = 12" "version k = 4" by (auto simp: parse_transport_def Let_def split: if_splits)
    then have "p' ! 9 = p ! 9" using assms(2) by (simp add: same_header_def)
    then show ?thesis using assms(1) l t [OF v4(1)] v4 by (auto simp: parse_packet_def Let_def split: if_splits)
  next
    case v6
    then have "source_at k = 8" "version k = 6" by (auto simp: parse_transport_def Let_def split: if_splits)
    then have "p' ! 6 = p ! 6" using assms(2) by (simp add: same_header_def)
    then show ?thesis using assms(1) l t [OF v6(1)] v6 by (auto simp: parse_packet_def Let_def split: if_splits)
  qed
qed

lemma same_outside_layout:
  assumes "same_outside at n p p'" "layout k p"
  shows "layout k p'"
  using layout_length [OF assms(2), of p'] assms(1) by (simp add: same_outside_def)

lemma same_header_trans: "same_header k p q \<Longrightarrow> same_header k q r \<Longrightarrow> same_header k p r"
  unfolding same_header_def by (metis (no_types, lifting))

text \<open>What overwriting one of the four regions changes\<close>

lemma region_effects:
  assumes "layout k p" "same_outside at n p p'"
    and "at = source_at k \<and> n = address_length k \<or> at = destination_at k \<and> n = address_length k \<or>
      at = checksum_at k \<and> n = 2 \<or> version k = 4 \<and> at = 10 \<and> n = 2"
  shows "same_header k p p'"
    "at \<noteq> source_at k \<Longrightarrow> sourceIPAddress k p' = sourceIPAddress k p"
    "at \<noteq> destination_at k \<Longrightarrow> destinationIPAddress k p' = destinationIPAddress k p"
    "header_sum p' = header_sum p - (if version k = 4 \<and> at \<noteq> checksum_at k
       then sum16 (slice_of p at (at + n)) - sum16 (slice_of p' at (at + n)) else 0) \<or> version k = 6"
    "sum16 (drop (ports_at k) p') = sum16 (drop (ports_at k) p) - (if at = checksum_at k
       then sum16 (slice_of p at (at + n)) - sum16 (slice_of p' at (at + n)) else 0)"
proof -
  note out = assms(2)
  have lay: "version k = 4 \<and> source_at k = 12 \<and> destination_at k = 16 \<and> address_length k = 4 \<and> ports_at k = 20 \<or>
     version k = 6 \<and> source_at k = 8 \<and> destination_at k = 24 \<and> address_length k = 16 \<and> ports_at k = 40"
    "checksum_at k = ports_at k + 16 \<or> checksum_at k = ports_at k + 6" "checksum_at k + 2 \<le> length p"
    using assms(1) by (auto simp: layout_def)
  have even: "even at" "even n" using lay assms(3) by auto
  have nth: "\<And>i. i < at \<or> at + n \<le> i \<Longrightarrow> p' ! i = p ! i" using same_outside_nth [OF out] .
  note slice = same_outside_slice [OF out]
  show "same_header k p p'"
    using lay assms(3) nth slice [of "ports_at k + 4" "ports_at k"] out
    by (auto simp: same_header_def same_outside_def)
  show "at \<noteq> source_at k \<Longrightarrow> sourceIPAddress k p' = sourceIPAddress k p"
    unfolding sourceIPAddress_def by (rule slice) (use lay assms(3) in auto)
  show "at \<noteq> destination_at k \<Longrightarrow> destinationIPAddress k p' = destinationIPAddress k p"
    unfolding destinationIPAddress_def by (rule slice) (use lay assms(3) in auto)
  show "sum16 (drop (ports_at k) p') = sum16 (drop (ports_at k) p) - (if at = checksum_at k
       then sum16 (slice_of p at (at + n)) - sum16 (slice_of p' at (at + n)) else 0)"
  proof (cases "at = checksum_at k")
    case True
    then have m: "ports_at k \<le> at" "even (at - ports_at k)" "n = 2" using lay assms(3) by auto
    have "slice_of (drop (ports_at k) q) (at - ports_at k) (at - ports_at k + n) = slice_of q at (at + n)" for q
      using slice_drop [OF m(1), of q "at + n"] m(1) by (simp add: add.commute)
    then show ?thesis using sum16_region [OF same_outside_drop(1) [OF out m(1)] m(2)] True m(3) by simp
  next
    case False
    then have "at + n \<le> ports_at k" using lay assms(3) by auto
    then show ?thesis using same_outside_drop(2) [OF out] False by simp
  qed
  show "header_sum p' = header_sum p - (if version k = 4 \<and> at \<noteq> checksum_at k
       then sum16 (slice_of p at (at + n)) - sum16 (slice_of p' at (at + n)) else 0) \<or> version k = 6"
  proof (cases "version k = 4")
    case v4: True
    show ?thesis
    proof (cases "at = checksum_at k")
      case True
      then show ?thesis using same_outside_take(2) [OF out, of 20] lay v4 by (auto simp: header_sum_def)
    next
      case False
      then have m: "at + n \<le> 20" "20 \<le> length p" using lay assms(3) v4 by auto
      then show ?thesis
        using sum16_region [OF same_outside_take(1) [OF out m] even] slice_take [OF m(1)] False v4
        by (simp add: header_sum_def)
    qed
  qed (use lay in auto)
qed

definition rewritten :: "parsed_packet \<Rightarrow> bytes option \<Rightarrow> bytes option \<Rightarrow> bytes \<Rightarrow> bytes \<Rightarrow> bool" where
  "rewritten k src dst p p' \<longleftrightarrow> same_header k p p' \<and>
    (src = None \<longrightarrow> sourceIPAddress k p' = sourceIPAddress k p) \<and>
    (dst = None \<longrightarrow> destinationIPAddress k p' = destinationIPAddress k p) \<and>
    (\<forall>ip. src = Some ip \<and> length ip = address_length k \<longrightarrow> sourceIPAddress k p' = ip) \<and>
    (\<forall>ip. dst = Some ip \<and> length ip = address_length k \<longrightarrow> destinationIPAddress k p' = ip) \<and>
    (version k = 4 \<longrightarrow> header_sum p' mod 65535 = header_sum p mod 65535) \<and>
    transport_sum k p' mod 65535 = transport_sum k p mod 65535"

lemma layout_even:
  assumes "layout k p"
  obtains n where "address_length k = 4 * n" "n \<le> 4"
  using assms that [of 1] that [of 4] by (auto simp: layout_def)

lemma address_sums:
  assumes "layout k p"
  shows "0 \<le> sum16 (sourceIPAddress k p)" "sum16 (sourceIPAddress k p) \<le> 524280"
    "0 \<le> sum16 (destinationIPAddress k p)" "sum16 (destinationIPAddress k p) \<le> 524280"
proof -
  have b: "0 \<le> sum16 q \<and> sum16 q \<le> 524280" if "length q \<le> 16" for q
  proof -
    have "(length q + 1) div 2 \<le> 8" using that by linarith
    then have "65535 * int ((length q + 1) div 2) \<le> 65535 * 8" by (intro mult_left_mono) linarith+
    then show ?thesis using sum16_bounds [of q] by linarith
  qed
  have "length (sourceIPAddress k p) \<le> 16" "length (destinationIPAddress k p) \<le> 16"
    using layout_addresses(1,2) [OF assms] assms by (auto simp: layout_def)
  then show "0 \<le> sum16 (sourceIPAddress k p)" "sum16 (sourceIPAddress k p) \<le> 524280"
    "0 \<le> sum16 (destinationIPAddress k p)" "sum16 (destinationIPAddress k p) \<le> 524280" using b by auto
qed

lemma rewrite_addresses_effect:
  assumes lay: "layout k p"
  obtains p2 acc where
    "Option.bind (rewrite_address (source_at k) (address_length k) src (p, 0)) (rewrite_address (destination_at k) (address_length k) dst)
      = Some (p2, acc)" "\<bar>acc\<bar> < 2000000000" "layout k p2" "same_header k p p2" "src = None \<Longrightarrow> dst = None \<Longrightarrow> p2 = p"
    "src = None \<Longrightarrow> sourceIPAddress k p2 = sourceIPAddress k p" "dst = None \<Longrightarrow> destinationIPAddress k p2 = destinationIPAddress k p"
    "\<And>ip. src = Some ip \<Longrightarrow> length ip = address_length k \<Longrightarrow> sourceIPAddress k p2 = ip"
    "\<And>ip. dst = Some ip \<Longrightarrow> length ip = address_length k \<Longrightarrow> destinationIPAddress k p2 = ip"
    "version k = 4 \<Longrightarrow> header_sum p2 + acc = header_sum p"
    "sum16 (sourceIPAddress k p2) + sum16 (destinationIPAddress k p2) + acc = sum16 (sourceIPAddress k p) + sum16 (destinationIPAddress k p)"
    "sum16 (drop (ports_at k) p2) = sum16 (drop (ports_at k) p)"
proof -
  let ?len = "address_length k" and ?S = "\<lambda>q. sum16 (sourceIPAddress k q)" and ?D = "\<lambda>q. sum16 (destinationIPAddress k q)"
  have at: "source_at k \<noteq> checksum_at k" "destination_at k \<noteq> checksum_at k" "source_at k \<noteq> destination_at k" "version k = 4 \<or> version k = 6"
    "destination_at k + ?len \<le> length p" "source_at k + ?len \<le> length p" using lay by (auto simp: layout_def)
  obtain n where n: "?len = 4 * n" "n \<le> 4" by (rule layout_even [OF lay])
  obtain p1 where p1: "rewrite_address (source_at k) ?len src (p, 0) = Some (p1, ?S p - ?S p1)"
    "same_outside (source_at k) ?len p p1" "src = None \<Longrightarrow> p1 = p"
    "\<And>new. src = Some new \<Longrightarrow> length new = ?len \<Longrightarrow> sourceIPAddress k p1 = new"
    using rewrite_address_effect [OF at(6) n, of 0 src] by (auto simp: sourceIPAddress_def)
  note lay1 = same_outside_layout [OF p1(2) lay]
  have fit: "destination_at k + ?len \<le> length p1" using p1(2) at(5) by (simp add: same_outside_def)
  have acc1: "\<bar>?S p - ?S p1\<bar> \<le> 600000" using address_sums [OF lay] address_sums [OF lay1] by linarith
  obtain p2 where p2: "rewrite_address (destination_at k) ?len dst (p1, ?S p - ?S p1) = Some (p2, ?S p - ?S p1 + ?D p1 - ?D p2)"
    "same_outside (destination_at k) ?len p1 p2" "dst = None \<Longrightarrow> p2 = p1"
    "\<And>new. dst = Some new \<Longrightarrow> length new = ?len \<Longrightarrow> destinationIPAddress k p2 = new"
    using rewrite_address_effect [OF fit n acc1, of dst] by (auto simp: destinationIPAddress_def)
  note lay2 = same_outside_layout [OF p2(2) lay1]
  have acc: "\<bar>?S p - ?S p1 + ?D p1 - ?D p2\<bar> < 2000000000"
    using address_sums [OF lay] address_sums [OF lay1] address_sums [OF lay2] by linarith
  have e1: "same_header k p p1" "destinationIPAddress k p1 = destinationIPAddress k p"
    "version k = 4 \<Longrightarrow> header_sum p1 = header_sum p - (?S p - ?S p1)" "sum16 (drop (ports_at k) p1) = sum16 (drop (ports_at k) p)"
    using region_effects [OF lay p1(2)] at by (auto simp: sourceIPAddress_def)
  have e2: "same_header k p1 p2" "sourceIPAddress k p2 = sourceIPAddress k p1"
    "version k = 4 \<Longrightarrow> header_sum p2 = header_sum p1 - (?D p1 - ?D p2)" "sum16 (drop (ports_at k) p2) = sum16 (drop (ports_at k) p1)"
    using region_effects [OF lay1 p2(2)] at by (auto simp: destinationIPAddress_def)
  show ?thesis
    by (rule that [of p2 "?S p - ?S p1 + ?D p1 - ?D p2"])
      (use p1 p2 lay2 acc e1 e2 same_header_trans [OF e1(1) e2(1)] in simp_all)
qed

lemma residue_step: "(x :: int) = y - (a - b) \<Longrightarrow> b mod m = (acc + a) mod m \<Longrightarrow> x mod m = (y + acc) mod m"
  by (metis (no_types, opaque_lifting) add.commute add_diff_cancel_right' diff_diff_eq2 mod_add_right_eq add_diff_eq)

text \<open>The adjustment of the checksums\<close>

lemma adjust_checksums_effect:
  assumes lay: "layout k p" and acc: "\<bar>acc\<bar> < 2000000000"
  defines "p3 \<equiv> if version k = 4 then adjust_at 10 acc p else p"
  defines "p4 \<equiv> adjust_at (checksum_at k) acc p3"
  shows "same_header k p p4" "sourceIPAddress k p4 = sourceIPAddress k p" "destinationIPAddress k p4 = destinationIPAddress k p"
    "version k = 4 \<Longrightarrow> header_sum p4 mod 65535 = (header_sum p + acc) mod 65535"
    "sum16 (drop (ports_at k) p4) mod 65535 = (sum16 (drop (ports_at k) p) + acc) mod 65535"
proof -
  have l: "source_at k \<noteq> 10" "destination_at k \<noteq> 10" "checksum_at k \<noteq> 10" "checksum_at k \<noteq> source_at k" "checksum_at k \<noteq> destination_at k"
    "checksum_at k + 2 \<le> length p" "10 + 2 \<le> length p" using lay by (auto simp: layout_def)
  have p3: "layout k p3 \<and> length p3 = length p \<and> same_header k p p3 \<and> sourceIPAddress k p3 = sourceIPAddress k p \<and>
    destinationIPAddress k p3 = destinationIPAddress k p \<and> (version k = 4 \<longrightarrow> header_sum p3 mod 65535 = (header_sum p + acc) mod 65535) \<and>
    sum16 (drop (ports_at k) p3) = sum16 (drop (ports_at k) p)"
  proof (cases "version k = 4")
    case True
    note adj = adjust_effect [OF l(7) acc]
    note r = region_effects [OF lay adj(1)]
    have eq: "p3 = adjust_at 10 acc p" using True by (simp add: p3_def)
    have "header_sum p3 = header_sum p - (sum16 (slice_of p 10 (10 + 2)) - sum16 (slice_of p3 10 (10 + 2)))"
      using r(4) True l by (auto simp: eq)
    then have "header_sum p3 mod 65535 = (header_sum p + acc) mod 65535" using residue_step adj(2) by (metis eq)
    then show ?thesis using r True l same_outside_layout [OF adj(1) lay] adj(1) by (auto simp: eq same_outside_def)
  qed (use lay in \<open>simp add: p3_def same_header_def\<close>)
  have fits: "checksum_at k + 2 \<le> length p3" using l p3 by simp
  have lay3: "layout k p3" using p3 by simp
  note adj = adjust_effect [OF fits acc, folded p4_def]
  note r = region_effects [OF lay3 adj(1)]
  show "same_header k p p4" using p3 r(1) same_header_trans by (metis l)
  show "sourceIPAddress k p4 = sourceIPAddress k p" "destinationIPAddress k p4 = destinationIPAddress k p"
    using r(2,3) l p3 by simp_all
  show "version k = 4 \<Longrightarrow> header_sum p4 mod 65535 = (header_sum p + acc) mod 65535" using r(4) p3 by simp
  have "sum16 (drop (ports_at k) p4) = sum16 (drop (ports_at k) p3) -
        (sum16 (slice_of p3 (checksum_at k) (checksum_at k + 2)) - sum16 (slice_of p4 (checksum_at k) (checksum_at k + 2)))"
    using r(5) by simp
  from residue_step [OF this adj(2)] show "sum16 (drop (ports_at k) p4) mod 65535 = (sum16 (drop (ports_at k) p) + acc) mod 65535"
    using p3 by simp
qed

lemma rewrite_packet_effect:
  assumes lay: "layout k p"
  shows "\<exists>p'. rewrite_packet k src dst p = Some p' \<and> rewritten k src dst p p'"
proof (rule rewrite_addresses_effect [OF lay, of src dst])
  fix p2 acc
  assume b: "Option.bind (rewrite_address (source_at k) (address_length k) src (p, 0)) (rewrite_address (destination_at k) (address_length k) dst)
      = Some (p2, acc)" and acc: "\<bar>acc\<bar> < 2000000000" and lay2: "layout k p2" and h2: "same_header k p p2"
    and same: "src = None \<Longrightarrow> dst = None \<Longrightarrow> p2 = p"
    and addr: "src = None \<Longrightarrow> sourceIPAddress k p2 = sourceIPAddress k p" "dst = None \<Longrightarrow> destinationIPAddress k p2 = destinationIPAddress k p"
      "\<And>ip. src = Some ip \<Longrightarrow> length ip = address_length k \<Longrightarrow> sourceIPAddress k p2 = ip"
      "\<And>ip. dst = Some ip \<Longrightarrow> length ip = address_length k \<Longrightarrow> destinationIPAddress k p2 = ip"
    and hs: "version k = 4 \<Longrightarrow> header_sum p2 + acc = header_sum p"
    and ts: "sum16 (sourceIPAddress k p2) + sum16 (destinationIPAddress k p2) + acc = sum16 (sourceIPAddress k p) + sum16 (destinationIPAddress k p)"
      "sum16 (drop (ports_at k) p2) = sum16 (drop (ports_at k) p)"
  let ?p4 = "adjust_at (checksum_at k) acc (if version k = 4 then adjust_at 10 acc p2 else p2)"
  obtain x where x: "rewrite_address (source_at k) (address_length k) src (p, 0) = Some x"
    "rewrite_address (destination_at k) (address_length k) dst x = Some (p2, acc)" using b by (auto simp: bind_eq_Some_conv)
  then have r: "rewrite_packet k src dst p = Some (if src = None \<and> dst = None then p2 else ?p4)" by (simp add: rewrite_packet_def)
  show ?thesis
  proof (cases "src = None \<and> dst = None")
    case True
    then show ?thesis using r same by (auto simp: rewritten_def same_header_def)
  next
    case False
    note adj = adjust_checksums_effect [OF lay2 acc]
    have "transport_sum k ?p4 mod 65535 = (sum16 (sourceIPAddress k p2) + sum16 (destinationIPAddress k p2) + uint (protocol k) +
        int (length p - ports_at k) + (sum16 (drop (ports_at k) p2) + acc)) mod 65535"
    proof -
      have len: "length ?p4 = length p" using adj(1) h2 by (simp add: same_header_def)
      show ?thesis unfolding transport_sum_def adj(2,3) len by (rule mod_add_cong [OF refl adj(5)])
    qed
    also have "sum16 (sourceIPAddress k p2) + sum16 (destinationIPAddress k p2) + uint (protocol k) +
        int (length p - ports_at k) + (sum16 (drop (ports_at k) p2) + acc) = transport_sum k p"
      using ts by (simp add: transport_sum_def)
    finally have t: "transport_sum k ?p4 mod 65535 = transport_sum k p mod 65535" .
    have "version k = 4 \<Longrightarrow> header_sum ?p4 mod 65535 = header_sum p mod 65535" using adj(4) hs by simp
    then have "rewritten k src dst p ?p4"
      unfolding rewritten_def adj(2,3) using t addr same_header_trans [OF h2 adj(1)] by (intro conjI impI allI) simp_all
    then show ?thesis unfolding r if_not_P [OF False] by blast
  qed
qed

section \<open>Flows\<close>

text \<open>The rules of a session: what no packet changes\<close>

definition same_rules :: "tun_session \<Rightarrow> tun_session \<Rightarrow> bool" where
  "same_rules s s' \<longleftrightarrow> checkAllowedTCPPortFunc s' = checkAllowedTCPPortFunc s \<and> checkAllowedUDPPortFunc s' = checkAllowedUDPPortFunc s \<and>
    checkAllowedDomainFunc s' = checkAllowedDomainFunc s \<and> allowBogons s' = allowBogons s \<and>
    enableDNSFlowTracking s' = enableDNSFlowTracking s \<and> DNSResolverIPv4Addresses s' = DNSResolverIPv4Addresses s \<and>
    DNSResolverIPv6Addresses s' = DNSResolverIPv6Addresses s \<and> assignedIPv4Address s' = assignedIPv4Address s \<and>
    assignedIPv6Address s' = assignedIPv6Address s \<and> TCPDNSResolverIPv4Index s' = TCPDNSResolverIPv4Index s \<and>
    TCPDNSResolverIPv6Index s' = TCPDNSResolverIPv6Index s"

lemma same_rules_refl [simp]: "same_rules s s"
  by (simp add: same_rules_def)

lemma same_rules_trans [trans]: "same_rules s t \<Longrightarrow> same_rules t u \<Longrightarrow> same_rules s u"
  by (simp add: same_rules_def)

text \<open>The original addresses, and flows that can only go\<close>

definition fewer_flows :: "tun_session \<Rightarrow> tun_session \<Rightarrow> bool" where
  "fewer_flows s s' \<longleftrightarrow> same_rules s s' \<and> originalIPv4Address s' = originalIPv4Address s \<and>
    originalIPv6Address s' = originalIPv6Address s \<and> map_of (flows s') \<subseteq>\<^sub>m map_of (flows s)"

lemma fewer_flows_refl [simp]: "fewer_flows s s"
  by (simp add: fewer_flows_def)

lemma fewer_flows_trans: "fewer_flows s t \<Longrightarrow> fewer_flows t u \<Longrightarrow> fewer_flows s u"
  unfolding fewer_flows_def by (metis map_le_trans same_rules_trans)

lemma deleteFlow_session: "fst (deleteFlow now fid f s) = s\<lparr>flows := AList.delete fid (flows s)\<rparr>"
  by (simp add: deleteFlow_def Let_def)

lemma deleteFlow_fewer: "deleteFlow now fid f s = (s', e) \<Longrightarrow> fewer_flows s s'"
  using deleteFlow_session [of now fid f s]
  by (auto simp: fewer_flows_def same_rules_def AList.delete_conv' map_le_def)

lemma reap_loop_fewer: "reap_loop now fs s = (s', e) \<Longrightarrow> fewer_flows s s'"
proof (induction now fs s arbitrary: s' e rule: reap_loop.induct)
  case (2 now fid f fs s)
  obtain s1 e1 where s1: "(if flow_expired now FLOW_IDLE_EXPIRY f then deleteFlow now fid f s else (s, [])) = (s1, e1)" by fastforce
  obtain s2 e2 where s2: "reap_loop now fs s1 = (s2, e2)" by fastforce
  have "fewer_flows s s1" using s1 deleteFlow_fewer by (auto split: if_splits)
  moreover have "fewer_flows s1 s2" by (rule 2(1) [OF s1 [symmetric] refl s2])
  moreover have "s' = s2" using 2(2) by (simp add: s1 s2)
  ultimately show ?case using fewer_flows_trans by blast
qed simp

lemma isTrackingFlow_cases:
  assumes "isTrackingFlow now fid s = (tracked, s', e)"
  shows "fewer_flows s s'" "tracked \<longleftrightarrow> (\<exists>f. map_of (flows s) fid = Some f \<and> \<not> flow_expired now FLOW_IDLE_EXPIRY f)" "tracked \<Longrightarrow> s' = s"
  using assms deleteFlow_fewer by (auto simp: isTrackingFlow_def split: option.splits if_splits prod.splits)

text \<open>The flow that a packet starts or continues, and all others as they were or gone\<close>

definition touched :: "flow_id \<Rightarrow> packet_direction \<Rightarrow> int \<Rightarrow> flow_state \<Rightarrow> tun_session \<Rightarrow> tun_session \<Rightarrow> bool" where
  "touched fid direction now f s s' \<longleftrightarrow> same_rules s s' \<and> originalIPv4Address s' = originalIPv4Address s \<and>
    originalIPv6Address s' = originalIPv6Address s \<and>
    (\<exists>f'. map_of (flows s') fid = Some f' \<and> isDNS f' = isDNS f \<and>
      (direction = ServerUpstream \<longrightarrow> lastUpstreamPacketTime f' = now)) \<and>
    (\<forall>fid'. fid' \<noteq> fid \<longrightarrow> map_of (flows s') fid' = None \<or> map_of (flows s') fid' = map_of (flows s) fid')"

lemma updateFlow_touched:
  assumes "map_of (flows s) fid = Some f" "updateFlow now fid direction appData s = (s', e)"
  shows "touched fid direction now f s s'"
  using assms by (auto simp: updateFlow_def Let_def touched_def same_rules_def AList.update_conv' split: if_splits)

lemma startTrackingFlow_touched:
  assumes "startTrackingFlow now reapNow updateNow fid direction appData dns s = (s', e)"
  shows "\<exists>f. touched fid direction updateNow f s s' \<and> (isDNS f = dns \<or> map_of (flows s) fid = Some f)"
proof -
  let ?i = "now div (FLOW_IDLE_EXPIRY div 2)"
  obtain s1 e1 where s1: "(if ?i \<noteq> lastFlowReapIndex s then reapFlows reapNow (s\<lparr>lastFlowReapIndex := ?i\<rparr>) else (s, [])) = (s1, e1)" by fastforce
  have few: "fewer_flows s s1"
  proof (cases "?i \<noteq> lastFlowReapIndex s")
    case True
    then have "fewer_flows (s\<lparr>lastFlowReapIndex := ?i\<rparr>) s1" using s1 reap_loop_fewer by (simp add: reapFlows_def)
    then show ?thesis by (simp add: fewer_flows_def same_rules_def)
  qed (use s1 in simp)
  define f where "f = \<lparr>firstUpstreamPacketTime = (if direction = ServerUpstream then now else 0),
              lastUpstreamPacketTime = (if direction = ServerUpstream then now else 0),
              firstDownstreamPacketTime = (if direction = ServerUpstream then 0 else now),
              lastDownstreamPacketTime = (if direction = ServerUpstream then 0 else now),
              isDNS = dns, flow_dnsQualityReporter = dnsQualityReporter s,
              activityUpdaters = (if dns then [] else case flowActivityUpdaterMaker s of None \<Rightarrow> []
                | Some mk \<Rightarrow> mk (flow_protocol fid = internetProtocolTCP) [] (upstreamIPAddress fid))\<rparr>"
  have f: "isDNS f = dns" by (simp add: f_def)
  let ?s2 = "if map_of (flows s1) fid = None then s1\<lparr>flows := flows s1 @ [(fid, f)]\<rparr> else s1"
  obtain e3 where upd: "updateFlow updateNow fid direction appData ?s2 = (s', e3)"
    using assms unfolding startTrackingFlow_def Let_def f_def [symmetric] s1 by (auto split: prod.splits)
  obtain g where g: "map_of (flows ?s2) fid = Some g" "g = f \<or> map_of (flows s1) fid = Some g"
    by (cases "map_of (flows s1) fid") (auto simp: map_add_def)
  have t: "touched fid direction updateNow g ?s2 s'" by (rule updateFlow_touched [OF g(1) upd])
  have old: "map_of (flows s1) x = None \<or> map_of (flows s1) x = map_of (flows s) x" for x
    using few by (auto simp: fewer_flows_def map_le_def dom_def)
  have rest: "map_of (flows ?s2) x = map_of (flows s1) x" if "x \<noteq> fid" for x using that by (auto simp: map_add_def split: option.splits)
  have same: "same_rules s ?s2" "originalIPv4Address ?s2 = originalIPv4Address s" "originalIPv6Address ?s2 = originalIPv6Address s"
    using few by (auto simp: fewer_flows_def same_rules_def)
  have others: "map_of (flows s') x = None \<or> map_of (flows s') x = map_of (flows s) x" if "x \<noteq> fid" for x
  proof -
    have "map_of (flows s') x = None \<or> map_of (flows s') x = map_of (flows s1) x"
      using t rest [OF that] that by (auto simp: touched_def simp del: map_of_append)
    then show ?thesis using old [of x] by auto
  qed
  have "same_rules s s'" using t same(1) same_rules_trans by (auto simp: touched_def)
  then have "touched fid direction updateNow g s s'"
    using t same(2,3) others by (auto simp: touched_def)
  moreover have "isDNS g = dns \<or> map_of (flows s) fid = Some g" using g(2) f old [of fid] by auto
  ultimately show ?thesis by blast
qed

end
