(* ===== verification/TunPacketClaims.thy ===== *)
theory TunPacketClaims
  imports TunPacketFacts
begin

text \<open>
  The properties of packet processing: no packet makes it panic, what it relays keeps its
  checksums and was permitted, and replies are translated back.
\<close>

section \<open>How a packet is relayed\<close>

definition tun_ready :: "tun_session \<Rightarrow> bool" where
  "tun_ready s \<longleftrightarrow> checkAllowedDomainFunc s \<noteq> None \<and>
    (DNSResolverIPv4Addresses s = [] \<or> TCPDNSResolverIPv4Index s < length (DNSResolverIPv4Addresses s)) \<and>
    (DNSResolverIPv6Addresses s = [] \<or> TCPDNSResolverIPv6Index s < length (DNSResolverIPv6Addresses s))"

definition tracking_on :: "packet_direction \<Rightarrow> bool \<Rightarrow> tun_session \<Rightarrow> bool" where
  "tracking_on direction dns s \<longleftrightarrow> is_server direction \<and> (\<not> dns \<or> enableDNSFlowTracking s)"

definition tracked_flow :: "(nat \<Rightarrow> int) \<Rightarrow> packet_direction \<Rightarrow> bool \<Rightarrow> flow_id \<Rightarrow> tun_session \<Rightarrow> bool \<times> tun_session \<times> tun_event list" where
  "tracked_flow clock direction dns fid s = (if tracking_on direction dns s then isTrackingFlow (clock 0) fid s else (False, s, []))"

lemma processPacket_parsed:
  assumes "parse_packet p = Inr k" "transparent_dns env s c d k p = Some (Inr dns)"
    "address_rewrites env c d k p dns s = Some (Inr (src, dst), s1)"
    "tracked_flow clock d dns (flow_of d k p src dst) s1 = (tracked, s2, e)"
  shows "processPacket env clock c d p s m =
    finish_packet clock d k p dns (tracking_on d dns s1) tracked (flow_of d k p src dst) src dst s2 m e"
  using assms by (simp add: processPacket_def tracked_flow_def tracking_on_def Let_def)

lemma finish_packet_cases:
  assumes "layout k p"
  shows "\<exists>p'. rewrite_packet k src dst p = Some p' \<and> rewritten k src dst p p' \<and>
    finish_packet clock d k p dns on tracked fid src dst s m e =
      (case (if dns \<or> tracked then None else permission s d k p fid) of
         Some reason \<Rightarrow> Some (rejected d reason p s m e)
       | None \<Rightarrow>
          (let appData = applicationData k p';
               (s', e') = (if \<not> on then (s, [])
                 else if \<not> tracked then startTrackingFlow (clock 1) (clock 2) (clock 3) fid d appData dns s
                 else updateFlow (clock 1) fid d appData s)
           in Some \<lparr>relayed = True, out_packet = p', out_session = s',
                out_metrics = relayedPacket d (version k) (protocol k) (length p') (length appData) m,
                out_events = e @ e'\<rparr>))"
proof -
  obtain p' where "rewrite_packet k src dst p = Some p'" "rewritten k src dst p p'" using rewrite_packet_effect [OF assms] by blast
  then show ?thesis by (intro exI [of _ p']) (simp add: finish_packet_def Let_def split: option.splits prod.splits)
qed

lemma processPacket_relayed:
  assumes "processPacket env clock c d p s m = Some r" "relayed r"
  obtains k dns src dst s1 tracked s2 e e' where
    "parse_packet p = Inr k" "transparent_dns env s c d k p = Some (Inr dns)"
    "address_rewrites env c d k p dns s = Some (Inr (src, dst), s1)"
    "tracked_flow clock d dns (flow_of d k p src dst) s1 = (tracked, s2, e)"
    "dns \<or> tracked \<or> permission s2 d k p (flow_of d k p src dst) = None"
    "rewritten k src dst p (out_packet r)"
    "(if \<not> tracking_on d dns s1 then (s2, [])
      else if \<not> tracked then startTrackingFlow (clock 1) (clock 2) (clock 3) (flow_of d k p src dst) d
        (applicationData k (out_packet r)) dns s2
      else updateFlow (clock 1) (flow_of d k p src dst) d (applicationData k (out_packet r)) s2) = (out_session r, e')"
    "out_metrics r = relayedPacket d (version k) (protocol k) (length p) (length p - data_at k) m"
proof -
  obtain k where k: "parse_packet p = Inr k" using assms by (cases "parse_packet p") (auto simp: processPacket_def rejected_def)
  obtain dns where dns: "transparent_dns env s c d k p = Some (Inr dns)" using assms k
    by (auto simp: processPacket_def rejected_def split: option.splits sum.splits)
  obtain src dst s1 where rw: "address_rewrites env c d k p dns s = Some (Inr (src, dst), s1)" using assms k dns
    by (auto simp: processPacket_def rejected_def split: option.splits sum.splits)
  obtain tracked s2 e where tf: "tracked_flow clock d dns (flow_of d k p src dst) s1 = (tracked, s2, e)"
    by (metis prod_cases3)
  let ?fid = "flow_of d k p src dst"
  note run = processPacket_parsed [OF k dns rw tf, of m, unfolded assms(1)]
  obtain p' where p': "rewritten k src dst p p'" and fin: "Some r =
      (case (if dns \<or> tracked then None else permission s2 d k p ?fid) of
         Some reason \<Rightarrow> Some (rejected d reason p s2 m e)
       | None \<Rightarrow>
          (let appData = applicationData k p';
               (s', e') = (if \<not> tracking_on d dns s1 then (s2, [])
                 else if \<not> tracked then startTrackingFlow (clock 1) (clock 2) (clock 3) ?fid d appData dns s2
                 else updateFlow (clock 1) ?fid d appData s2)
           in Some \<lparr>relayed = True, out_packet = p', out_session = s',
                out_metrics = relayedPacket d (version k) (protocol k) (length p') (length appData) m,
                out_events = e @ e'\<rparr>))"
    using finish_packet_cases [OF parse_layout [OF k], of src dst clock d dns "tracking_on d dns s1" tracked ?fid s2 m e] run by metis
  have perm: "(if dns \<or> tracked then None else permission s2 d k p ?fid) = None"
    using fin assms(2) by (auto simp: rejected_def split: option.splits)
  obtain s' e' where se: "(if \<not> tracking_on d dns s1 then (s2, [])
      else if \<not> tracked then startTrackingFlow (clock 1) (clock 2) (clock 3) ?fid d (applicationData k p') dns s2
      else updateFlow (clock 1) ?fid d (applicationData k p') s2) = (s', e')" by fastforce
  from fin have r: "r = \<lparr>relayed = True, out_packet = p', out_session = s',
      out_metrics = relayedPacket d (version k) (protocol k) (length p') (length (applicationData k p')) m, out_events = e @ e'\<rparr>"
    unfolding perm option.case Let_def se prod.case by simp
  have len: "length p' = length p" using p' by (simp add: rewritten_def same_header_def)
  show ?thesis
    by (rule that [OF k dns rw tf]) (use perm p' se len in \<open>auto simp: r applicationData_def split: if_splits\<close>)
qed

lemma address_rewrites_session:
  assumes "address_rewrites env c d k p dns s = Some (x, s1)"
  shows "same_rules s s1" "flows s1 = flows s"
  using assms by (auto simp: address_rewrites_def Let_def setOriginalAddressIfNotSet_def same_rules_def
      split: packet_direction.splits if_splits option.splits)

lemma tracked_flow_cases:
  assumes "tracked_flow clock d dns fid s1 = (tracked, s2, e)"
  shows "fewer_flows s1 s2" "tracked \<Longrightarrow> s2 = s1 \<and> (\<exists>f. map_of (flows s1) fid = Some f)"
  using assms isTrackingFlow_cases by (fastforce simp: tracked_flow_def split: if_splits)+

lemma slice_of_part: "b \<le> b' \<Longrightarrow> a \<le> a' \<Longrightarrow> slice_of x a b' = slice_of y a b' \<Longrightarrow> slice_of x a' b = slice_of y a' b"
proof -
  assume b: "b \<le> b'" and a: "a \<le> a'" and e: "slice_of x a b' = slice_of y a b'"
  have "slice_of z a' b = drop (a' - a) (take (b - a) (slice_of z a b'))" for z
  proof -
    have "min (b - a) (b' - a) = b - a" "b - a - (a' - a) = b - a'" "a' - a + a = a'" using a b by linarith+
    then show ?thesis by (simp only: slice_of_def take_take drop_take drop_drop)
  qed
  then show ?thesis using e by simp
qed

lemma same_header_ports:
  assumes "same_header k p p'"
  shows "sourcePort k p' = sourcePort k p" "destinationPort k p' = destinationPort k p"
proof -
  have e: "slice_of p' (ports_at k) (ports_at k + 4) = slice_of p (ports_at k) (ports_at k + 4)" using assms by (simp add: same_header_def)
  show "sourcePort k p' = sourcePort k p" "destinationPort k p' = destinationPort k p"
    using slice_of_part [OF _ _ e, of "ports_at k + 2" "ports_at k"] slice_of_part [OF _ _ e, of "ports_at k + 4" "ports_at k + 2"]
    by (simp_all add: sourcePort_def destinationPort_def)
qed

section \<open>Every packet is processed\<close>

lemma transparent_dns_some:
  assumes "tun_ready s"
  shows "transparent_dns env s c d k p \<noteq> None"
  using assms by (auto simp: transparent_dns_def upstream_dns_def Let_def tun_ready_def split: packet_direction.splits option.splits)

lemma finish_packet_result:
  assumes "layout k p"
  shows "\<exists>r. finish_packet clock d k p dns on tracked fid src dst s m e = Some r \<and>
    (\<not> relayed r \<longrightarrow> out_packet r = p \<and> (\<exists>reason. out_metrics r = rejectedPacket d reason m))"
proof (cases "if dns \<or> tracked then None else permission s d k p fid")
  case None
  obtain p' where "rewrite_packet k src dst p = Some p'" using rewrite_packet_effect [OF assms] by blast
  then show ?thesis by (simp add: finish_packet_def None Let_def split: prod.splits)
next
  case (Some reason)
  then show ?thesis by (auto simp: finish_packet_def rejected_def)
qed

lemma upstream_dns_resolvers:
  "upstream_dns env s k p = Some (Inr True) \<Longrightarrow> 
    (if version k = 4 then DNSResolverIPv4Addresses s else DNSResolverIPv6Addresses s) \<noteq> []"
  by (auto simp: upstream_dns_def Let_def split: if_splits)

lemma address_rewrites_some:
  assumes "tun_ready s" "\<And>n. 0 < n \<Longrightarrow> rand_Intn env n < n" "transparent_dns env s c d k p = Some (Inr dns)"
  shows "address_rewrites env c d k p dns s \<noteq> None"
proof (cases "d = ServerUpstream \<and> dns")
  case True
  then have "(if version k = 4 then DNSResolverIPv4Addresses s else DNSResolverIPv6Addresses s) \<noteq> []"
    using assms(3) upstream_dns_resolvers by (simp add: transparent_dns_def)
  then show ?thesis using True assms(1,2)
    by (auto simp: address_rewrites_def Let_def pick_resolver_def tun_ready_def split: if_splits)
qed (auto simp: address_rewrites_def Let_def split: packet_direction.splits)



text \<open>A session of a client assigned 10.0.0.5, which may use port 443\<close>

definition web_only :: tun_session where
  "web_only = \<lparr>allowBogons = False, enableDNSFlowTracking = False, DNSResolverIPv4Addresses = [[8, 8, 8, 8]], TCPDNSResolverIPv4Index = 0,
    assignedIPv4Address = [10, 0, 0, 5], originalIPv4Address = None, DNSResolverIPv6Addresses = [], TCPDNSResolverIPv6Index = 0,
    assignedIPv6Address = replicate 15 1 @ [5], originalIPv6Address = None, checkAllowedTCPPortFunc = Some (\<lambda>ip port. port = 443),
    checkAllowedUDPPortFunc = Some (\<lambda>ip port. port = 443), checkAllowedDomainFunc = Some (\<lambda>domain. True),
    flowActivityUpdaterMaker = Some (\<lambda>tcp host ip. [7]), dnsQualityReporter = True, lastFlowReapIndex = 0, flows = []\<rparr>"

definition no_packets :: packet_metrics where
  "no_packets = \<lparr>upstreamRejectReasons = (\<lambda>_. 0), downstreamRejectReasons = (\<lambda>_. 0),
    TCPIPv4 = no_relayed, TCPIPv6 = no_relayed, UDPIPv4 = no_relayed, UDPIPv6 = no_relayed\<rparr>"

definition first_choice :: tun_env where
  "first_choice = \<lparr>ParseDNSQuestion = (\<lambda>data. Some ''a''), rand_Intn = (\<lambda>n. 0)\<rparr>"

definition no_client_dns :: client_dns where
  "no_client_dns = \<lparr>client_IPv4Address = [], client_IPv6Address = []\<rparr>"

text \<open>A UDP packet over IPv4 of one byte of data\<close>

definition udp4 :: "bytes \<Rightarrow> 16 word \<Rightarrow> bytes \<Rightarrow> 16 word \<Rightarrow> bytes \<Rightarrow> bytes \<Rightarrow> bytes" where
  "udp4 src sport dst dport hsum usum = [0x45, 0, 0, 29, 0, 0, 0, 0, 64, 17] @ hsum @ src @ dst @ be16 sport @ be16 dport @ [0, 9] @ usum @ [42]"

lemmas sample_defs = web_only_def no_packets_def first_choice_def no_client_dns_def udp4_def


section \<open>The checksums of what is relayed\<close>

text \<open>
  C32: a relayed packet keeps its length, its version and protocol, its ports and, modulo 65535, the sums
  that its receiver checks: the one over the IPv4 header and the one over the pseudo header with the
  rewritten addresses and the transport segment. So a checksum that was right before the 32-bit
  incremental update is right after it, and a wrong one stays wrong.
\<close>

theorem packet_sums_kept:
  assumes "processPacket env clock c d p s m = Some r" "relayed r"
  shows "\<exists>k. parse_packet p = Inr k \<and> parse_packet (out_packet r) = Inr k \<and> length (out_packet r) = length p \<and>
    sourcePort k (out_packet r) = sourcePort k p \<and> destinationPort k (out_packet r) = destinationPort k p \<and>
    (version k = 4 \<longrightarrow> header_sum (out_packet r) mod 65535 = header_sum p mod 65535) \<and>
    transport_sum k (out_packet r) mod 65535 = transport_sum k p mod 65535"
proof (rule processPacket_relayed [OF assms])
  fix k src dst
  assume k: "parse_packet p = Inr k" and rw: "rewritten k src dst p (out_packet r)"
  then have h: "same_header k p (out_packet r)" by (simp add: rewritten_def)
  then show ?thesis using same_header_parse [OF k h] same_header_ports [OF h] k rw
    by (auto simp: rewritten_def same_header_def)
qed


definition web_request :: bytes where
  "web_request = udp4 [192, 168, 1, 2] 5000 [1, 1, 1, 1] 443 [0xB7, 0x24] [0xFC, 0xEC]"

lemma web_request_relayed:
  "map_option (\<lambda>r. (relayed r, out_packet r, originalIPv4Address (out_session r), length (flows (out_session r))))
     (processPacket first_choice (\<lambda>i. 5) no_client_dns ServerUpstream web_request web_only no_packets) =
   Some (True, udp4 [10, 0, 0, 5] 5000 [1, 1, 1, 1] 443 [0x6e, 0xca] [0xb4, 0x92], Some [192, 168, 1, 2], 1)"
  by code_simp

lemma web_request_parsed:
  "parse_packet web_request = Inr \<lparr>version = 4, protocol = 17, source_at = 12, destination_at = 16, address_length = 4,
     ports_at = 20, checksum_at = 26, data_at = 28\<rparr>"
  by code_simp

lemma packet_sums_kept_witness:
  "header_sum web_request mod 65535 = 0 \<and>
   header_sum (udp4 [10, 0, 0, 5] 5000 [1, 1, 1, 1] 443 [0x6e, 0xca] [0xb4, 0x92]) mod 65535 = 0"
proof
  show h: "header_sum web_request mod 65535 = 0" by code_simp
  obtain r where r: "processPacket first_choice (\<lambda>i. 5) no_client_dns ServerUpstream web_request web_only no_packets = Some r"
    "relayed r" "out_packet r = udp4 [10, 0, 0, 5] 5000 [1, 1, 1, 1] 443 [0x6e, 0xca] [0xb4, 0x92]"
    using web_request_relayed by (auto simp: map_option_eq_Some)
  show "header_sum (udp4 [10, 0, 0, 5] 5000 [1, 1, 1, 1] 443 [0x6e, 0xca] [0xb4, 0x92]) mod 65535 = 0"
    using packet_sums_kept [OF r(1,2)] web_request_parsed h by (auto simp: r(3))
qed

text \<open>A UDP checksum of zero stands for none; it is adjusted like any other, and the receiver drops the packet.\<close>

lemma absent_checksum_adjusted:
  "map_option (\<lambda>r. (relayed r, slice_of (out_packet r) 26 28))
     (processPacket first_choice (\<lambda>i. 5) no_client_dns ServerUpstream
       (udp4 [192, 168, 1, 2] 5000 [1, 1, 1, 1] 443 [0xB7, 0x24] [0, 0]) web_only no_packets) =
   Some (True, [0xb7, 0xa5])"
  by code_simp

section \<open>What is relayed was permitted\<close>

definition rule_allows :: "tun_session \<Rightarrow> byte \<Rightarrow> bytes \<Rightarrow> 16 word \<Rightarrow> bool" where
  "rule_allows s proto ip port \<longleftrightarrow> port \<noteq> 0 \<and>
    (case (if proto = internetProtocolTCP then checkAllowedTCPPortFunc s else checkAllowedUDPPortFunc s) of
       None \<Rightarrow> False | Some allowed \<Rightarrow> allowed ip (uint port))"

definition flows_ok :: "tun_session \<Rightarrow> bool" where
  "flows_ok s \<longleftrightarrow> (\<forall>fid f. map_of (flows s) fid = Some f \<longrightarrow> rule_allows s (flow_protocol fid) (upstreamIPAddress fid) (upstreamPort fid))"

lemma flows_okD: "flows_ok s \<Longrightarrow> map_of (flows s) fid = Some f \<Longrightarrow> rule_allows s (flow_protocol fid) (upstreamIPAddress fid) (upstreamPort fid)"
  by (simp add: flows_ok_def)

lemma rule_allows_same: "same_rules s s' \<Longrightarrow> rule_allows s' proto ip port = rule_allows s proto ip port"
  by (simp add: same_rules_def rule_allows_def)

lemma flows_ok_mono:
  assumes "flows_ok s" "same_rules s s'" "map_of (flows s') \<subseteq>\<^sub>m map_of (flows s)"
  shows "flows_ok s'"
  unfolding flows_ok_def
proof (intro allI impI)
  fix fid f assume "map_of (flows s') fid = Some f"
  then have "map_of (flows s) fid = Some f" using assms(3) by (metis domI map_le_def)
  then show "rule_allows s' (flow_protocol fid) (upstreamIPAddress fid) (upstreamPort fid)"
    using flows_okD [OF assms(1)] rule_allows_same [OF assms(2)] by blast
qed

lemma flows_ok_touched:
  assumes "flows_ok s" "touched fid d now f s s'" "rule_allows s (flow_protocol fid) (upstreamIPAddress fid) (upstreamPort fid)"
  shows "flows_ok s'"
  unfolding flows_ok_def
proof (intro allI impI)
  fix fid' f' assume f': "map_of (flows s') fid' = Some f'"
  have same: "same_rules s s'" using assms(2) by (simp add: touched_def)
  have "fid' = fid \<or> map_of (flows s) fid' = Some f'" using assms(2) f' by (auto simp: touched_def)
  then show "rule_allows s' (flow_protocol fid') (upstreamIPAddress fid') (upstreamPort fid')"
    using flows_okD [OF assms(1)] assms(3) rule_allows_same [OF same] by blast
qed

text \<open>The end of a server's packet on the side of the Internet\<close>

definition upstream_end :: "packet_direction \<Rightarrow> parsed_packet \<Rightarrow> bytes \<Rightarrow> bytes \<times> 16 word" where
  "upstream_end d k p = (if d = ServerUpstream then (destinationIPAddress k p, destinationPort k p)
    else (sourceIPAddress k p, sourcePort k p))"

definition end_allowed :: "tun_session \<Rightarrow> packet_direction \<Rightarrow> parsed_packet \<Rightarrow> bytes \<Rightarrow> bool" where
  "end_allowed s d k p \<longleftrightarrow> rule_allows s (protocol k) (to_16 (fst (upstream_end d k p))) (snd (upstream_end d k p))"

lemma not_dns_rewrites:
  assumes "address_rewrites env c d k p False s = Some (Inr (src, dst), s1)" "d = ServerUpstream"
  shows "dst = None"
  using assms by (auto simp: address_rewrites_def Let_def)

lemma flow_of_end:
  assumes "is_server d" "address_rewrites env c d k p False s = Some (Inr (src, dst), s1)"
  shows "rule_allows s (flow_protocol (flow_of d k p src dst)) (upstreamIPAddress (flow_of d k p src dst)) (upstreamPort (flow_of d k p src dst))
    \<longleftrightarrow> end_allowed s d k p"
  using assms not_dns_rewrites [OF assms(2)]
  by (auto simp: is_server_def flow_of_def flowID_set_def Let_def end_allowed_def upstream_end_def)

lemma permission_end:
  assumes "permission s d k p (flow_of d k p src dst) = None" "is_server d" "layout k p"
  shows "rule_allows s (flow_protocol (flow_of d k p src dst)) (upstreamIPAddress (flow_of d k p src dst)) (upstreamPort (flow_of d k p src dst))"
  using assms by (auto simp: permission_def Let_def port_allowed_def is_server_def is_upstream_def rule_allows_def flow_of_def flowID_set_def
      layout_def split: if_splits option.splits)


lemma finish_packet_session:
  assumes "finish_packet clock d k p dns on tracked fid src dst s m e = Some r" "\<not> relayed r"
  shows "out_session r = s"
  using assms by (auto simp: finish_packet_def rejected_def Let_def split: if_splits option.splits prod.splits)

lemma processPacket_rejected:
  assumes "processPacket env clock c d p s m = Some r" "\<not> relayed r"
  shows "same_rules s (out_session r) \<and> map_of (flows (out_session r)) \<subseteq>\<^sub>m map_of (flows s)"
proof (cases "parse_packet p")
  case (Inr k)
  obtain x where x: "transparent_dns env s c d k p = Some x" using assms Inr by (auto simp: processPacket_def split: option.splits)
  show ?thesis
  proof (cases x)
    case dns: (Inr dns)
    obtain y s1 where y: "address_rewrites env c d k p dns s = Some (y, s1)"
      using assms Inr x dns by (auto simp: processPacket_def split: option.splits)
    note s1 = address_rewrites_session [OF y]
    show ?thesis
    proof (cases y)
      case (Inl reason)
      then show ?thesis using assms(1) \<open>parse_packet p = Inr k\<close> x dns y s1 by (auto simp: processPacket_def rejected_def)
    next
      case sd: (Inr sd)
      obtain src dst where sd': "sd = (src, dst)" by fastforce
      obtain tracked s2 e where tf: "tracked_flow clock d dns (flow_of d k p src dst) s1 = (tracked, s2, e)" by (metis prod_cases3)
      note run = processPacket_parsed [OF Inr x [unfolded dns] y [unfolded sd sd'] tf]
      have "out_session r = s2" using finish_packet_session assms run by metis
      then show ?thesis using tracked_flow_cases(1) [OF tf] s1 same_rules_trans by (auto simp: fewer_flows_def)
    qed
  qed (use assms Inr x in \<open>auto simp: processPacket_def rejected_def\<close>)
qed (use assms in \<open>auto simp: processPacket_def rejected_def\<close>)

lemma processPacket_flows_ok:
  assumes ok: "flows_ok s" and off: "\<not> enableDNSFlowTracking s" and run: "processPacket env clock c d p s m = Some r"
  shows "flows_ok (out_session r)" "same_rules s (out_session r)"
    "relayed r \<Longrightarrow> is_server d \<Longrightarrow> \<exists>k. parse_packet p = Inr k \<and> (transparent_dns env s c d k p = Some (Inr True) \<or> end_allowed s d k p)"
proof -
  have "flows_ok (out_session r) \<and> same_rules s (out_session r) \<and>
    (relayed r \<longrightarrow> is_server d \<longrightarrow> (\<exists>k. parse_packet p = Inr k \<and> (transparent_dns env s c d k p = Some (Inr True) \<or> end_allowed s d k p)))"
  proof (cases "relayed r")
    case True
    show ?thesis
    proof (rule processPacket_relayed [OF run True])
      fix k dns src dst s1 tracked s2 e e'
      assume k: "parse_packet p = Inr k" and dns: "transparent_dns env s c d k p = Some (Inr dns)"
        and rw: "address_rewrites env c d k p dns s = Some (Inr (src, dst), s1)"
        and tf: "tracked_flow clock d dns (flow_of d k p src dst) s1 = (tracked, s2, e)"
        and perm: "dns \<or> tracked \<or> permission s2 d k p (flow_of d k p src dst) = None"
        and fin: "(if \<not> tracking_on d dns s1 then (s2, [])
            else if \<not> tracked then startTrackingFlow (clock 1) (clock 2) (clock 3) (flow_of d k p src dst) d
              (applicationData k (out_packet r)) dns s2
            else updateFlow (clock 1) (flow_of d k p src dst) d (applicationData k (out_packet r)) s2) = (out_session r, e')"
      let ?fid = "flow_of d k p src dst"
      let ?R = "\<lambda>s. rule_allows s (flow_protocol ?fid) (upstreamIPAddress ?fid) (upstreamPort ?fid)"
      note s1 = address_rewrites_session [OF rw]
      have s2: "fewer_flows s1 s2" "tracked \<Longrightarrow> s2 = s1" "tracked \<Longrightarrow> \<exists>f. map_of (flows s1) ?fid = Some f"
        using tracked_flow_cases [OF tf] by blast+
      have same2: "same_rules s s2" using s1(1) s2(1) same_rules_trans by (auto simp: fewer_flows_def)
      have ok1: "flows_ok s1" using flows_ok_mono [OF ok s1(1)] by (simp add: s1(2))
      have ok2: "flows_ok s2" by (rule flows_ok_mono [OF ok1]) (use s2(1) in \<open>auto simp: fewer_flows_def\<close>)
      show ?thesis
      proof (cases "tracking_on d dns s1")
        case off': False
        then have r: "out_session r = s2" using fin by simp
        have "dns \<or> \<not> is_server d" using off' by (auto simp: tracking_on_def)
        then show ?thesis using ok2 same2 k dns by (auto simp: r)
      next
        case on: True
        then have nd: "\<not> dns" "is_server d" using off s1(1) by (auto simp: tracking_on_def same_rules_def)
        have R: "?R s2"
        proof (cases tracked)
          case True
          then show ?thesis using s2(2,3) flows_okD [OF ok1] by blast
        next
          case False
          then show ?thesis using permission_end [OF _ nd(2) parse_layout [OF k]] perm nd by blast
        qed
        have allowed: "end_allowed s d k p"
          using flow_of_end [OF nd(2), of env c k p s src dst s1] rw nd R rule_allows_same [OF same2] by simp
        obtain now f where t: "touched ?fid d now f s2 (out_session r)"
        proof (cases tracked)
          case True
          then obtain f where "map_of (flows s2) ?fid = Some f" using s2(2,3) by blast
          then show ?thesis using that updateFlow_touched fin on True by metis
        next
          case False
          then show ?thesis using that startTrackingFlow_touched fin on by metis
        qed
        have "flows_ok (out_session r)" by (rule flows_ok_touched [OF ok2 t R])
        moreover have "same_rules s (out_session r)" using t same2 same_rules_trans by (auto simp: touched_def)
        ultimately show ?thesis using k allowed by blast
      qed
    qed
  next
    case False
    from processPacket_rejected [OF run False] show ?thesis using flows_ok_mono [OF ok] False by blast
  qed
  then show "flows_ok (out_session r)" "same_rules s (out_session r)"
    "relayed r \<Longrightarrow> is_server d \<Longrightarrow> \<exists>k. parse_packet p = Inr k \<and> (transparent_dns env s c d k p = Some (Inr True) \<or> end_allowed s d k p)"
    by blast+
qed

text \<open>The sessions that packets and the closing of flows lead to\<close>

inductive tun_reached :: "tun_env \<Rightarrow> client_dns \<Rightarrow> tun_session \<Rightarrow> tun_session \<Rightarrow> bool" for env c s0 where
  tun_start: "tun_reached env c s0 s0"
| tun_packet: "tun_reached env c s0 s \<Longrightarrow> processPacket env clock c d p s m = Some r \<Longrightarrow> tun_reached env c s0 (out_session r)"
| tun_close: "tun_reached env c s0 s \<Longrightarrow> deleteFlows now s = (s', e) \<Longrightarrow> tun_reached env c s0 s'"

lemma delete_loop_fewer: "delete_loop now fs s = (s', e) \<Longrightarrow> fewer_flows s s'"
proof (induction now fs s arbitrary: s' e rule: delete_loop.induct)
  case (2 now fid f fs s)
  obtain s1 e1 where s1: "deleteFlow now fid f s = (s1, e1)" by fastforce
  obtain s2 e2 where s2: "delete_loop now fs s1 = (s2, e2)" by fastforce
  have "fewer_flows s s1" by (rule deleteFlow_fewer [OF s1])
  moreover have "fewer_flows s1 s2" by (rule 2(1) [OF s1 [symmetric] refl s2])
  moreover have "s' = s2" using 2(2) by (simp add: s1 s2)
  ultimately show ?case using fewer_flows_trans by blast
qed simp

lemma tun_reached_ok:
  assumes "tun_reached env c s0 s" "flows s0 = []" "\<not> enableDNSFlowTracking s0"
  shows "flows_ok s \<and> same_rules s0 s"
  using assms(1)
proof (induction rule: tun_reached.induct)
  case tun_start
  then show ?case by (simp add: flows_ok_def assms(2))
next
  case (tun_packet s clock d p m r)
  then have off: "\<not> enableDNSFlowTracking s" using assms(3) by (simp add: same_rules_def)
  from tun_packet have ih: "flows_ok s" "same_rules s0 s" by simp_all
  note step = processPacket_flows_ok [OF ih(1) off tun_packet(2)]
  show ?case using step(1) same_rules_trans [OF ih(2) step(2)] by blast
next
  case (tun_close s now s' e)
  then have "fewer_flows s s'" using delete_loop_fewer by (simp add: deleteFlows_def)
  then show ?case using tun_close flows_ok_mono same_rules_trans by (auto simp: fewer_flows_def)
qed

lemma end_allowed_same: "same_rules s s' \<Longrightarrow> end_allowed s' d k p = end_allowed s d k p"
  by (simp add: end_allowed_def rule_allows_same)




text \<open>With DNS flows tracked, a packet sent directly to the resolver passes under the flow of a transparent DNS packet.\<close>

definition dns_tracking :: tun_session where
  "dns_tracking = web_only\<lparr>enableDNSFlowTracking := True\<rparr>"

lemma dns_flow_skips_port_check:
  "(case processPacket first_choice (\<lambda>i. 5) no_client_dns ServerUpstream
        (udp4 [192, 168, 1, 2] 5000 [10, 0, 0, 2] 53 [0, 0] [0, 1]) dns_tracking no_packets of
      None \<Rightarrow> None
    | Some r \<Rightarrow> map_option relayed (processPacket first_choice (\<lambda>i. 6) no_client_dns ServerUpstream
        (udp4 [192, 168, 1, 2] 5000 [8, 8, 8, 8] 53 [0, 0] [0, 1]) (out_session r) no_packets)) = Some True"
  "map_option relayed (processPacket first_choice (\<lambda>i. 6) no_client_dns ServerUpstream
     (udp4 [192, 168, 1, 2] 5000 [8, 8, 8, 8] 53 [0, 0] [0, 1]) dns_tracking no_packets) = Some False"
  by code_simp+

section \<open>Replies\<close>

definition reply_to :: "parsed_packet \<Rightarrow> bytes \<Rightarrow> parsed_packet \<Rightarrow> bytes \<Rightarrow> bool" where
  "reply_to k p k' q \<longleftrightarrow> version k' = version k \<and> protocol k' = protocol k \<and>
    sourceIPAddress k' q = destinationIPAddress k p \<and> destinationIPAddress k' q = sourceIPAddress k p \<and>
    sourcePort k' q = destinationPort k p \<and> destinationPort k' q = sourcePort k p"

definition originalAddress :: "nat \<Rightarrow> tun_session \<Rightarrow> bytes option" where
  "originalAddress vers s = (if vers = 4 then originalIPv4Address s else originalIPv6Address s)"

definition assignedAddress :: "nat \<Rightarrow> tun_session \<Rightarrow> bytes" where
  "assignedAddress vers s = (if vers = 4 then assignedIPv4Address s else assignedIPv6Address s)"

lemma transparent_dns_same:
  "same_rules s s' \<Longrightarrow> transparent_dns env s' c ServerDownstream k p = transparent_dns env s c ServerDownstream k p"
  by (simp add: transparent_dns_def same_rules_def)

text \<open>What a relayed packet that is not transparent DNS leaves for its reply\<close>

lemma upstream_leaves_flow:
  assumes run: "processPacket env clock c ServerUpstream p s m = Some r" "relayed r" "parse_packet p = Inr k"
    and dns: "transparent_dns env s c ServerUpstream k p = Some (Inr False)"
    and orig: "originalAddress (version k) s \<in> {None, Some (sourceIPAddress k p)}"
    and len: "length (assignedAddress (version k) s) = address_length k"
  shows "same_rules s (out_session r)" "originalAddress (version k) (out_session r) = Some (sourceIPAddress k p)"
    "rewritten k (Some (assignedAddress (version k) s)) None p (out_packet r)"
    "\<exists>f. map_of (flows (out_session r)) (flowID_set (assignedAddress (version k) s) (sourcePort k p) (destinationIPAddress k p)
        (destinationPort k p) (protocol k)) = Some f \<and> lastUpstreamPacketTime f \<in> {clock 1, clock 3}"
proof -
  have lay: "layout k p" by (rule parse_layout [OF run(3)])
  have pos: "assignedAddress (version k) s \<noteq> []" using len lay by (auto simp: layout_def)
  have "same_rules s (out_session r) \<and> originalAddress (version k) (out_session r) = Some (sourceIPAddress k p) \<and>
    rewritten k (Some (assignedAddress (version k) s)) None p (out_packet r) \<and>
    (\<exists>f. map_of (flows (out_session r)) (flowID_set (assignedAddress (version k) s) (sourcePort k p) (destinationIPAddress k p)
        (destinationPort k p) (protocol k)) = Some f \<and> lastUpstreamPacketTime f \<in> {clock 1, clock 3})"
  proof (rule processPacket_relayed [OF run(1,2)])
    fix k' dns' src dst s1 tracked s2 e e'
    assume k: "parse_packet p = Inr k'" and dns': "transparent_dns env s c ServerUpstream k' p = Some (Inr dns')"
      and rw: "address_rewrites env c ServerUpstream k' p dns' s = Some (Inr (src, dst), s1)"
      and tf: "tracked_flow clock ServerUpstream dns' (flow_of ServerUpstream k' p src dst) s1 = (tracked, s2, e)"
      and p': "rewritten k' src dst p (out_packet r)"
      and fin: "(if \<not> tracking_on ServerUpstream dns' s1 then (s2, [])
          else if \<not> tracked then startTrackingFlow (clock 1) (clock 2) (clock 3) (flow_of ServerUpstream k' p src dst) ServerUpstream
            (applicationData k' (out_packet r)) dns' s2
          else updateFlow (clock 1) (flow_of ServerUpstream k' p src dst) ServerUpstream (applicationData k' (out_packet r)) s2) = (out_session r, e')"
    have eq: "k' = k" "\<not> dns'" using k dns' run(3) dns by auto
    have r: "src = Some (assignedAddress (version k) s)" "dst = None" "originalAddress (version k) s1 = Some (sourceIPAddress k p)"
      using rw pos orig by (auto simp: eq address_rewrites_def Let_def non_nil_def assignedAddress_def originalAddress_def
          setOriginalAddressIfNotSet_def split: if_splits)
    have fid: "flow_of ServerUpstream k p src dst = flowID_set (assignedAddress (version k) s) (sourcePort k p) (destinationIPAddress k p)
        (destinationPort k p) (protocol k)" (is "_ = ?fid") by (simp add: flow_of_def Let_def r)
    have on: "tracking_on ServerUpstream dns' s1" by (simp add: tracking_on_def eq is_server_def)
    obtain now f where t: "touched ?fid ServerUpstream now f s2 (out_session r)" "now \<in> {clock 1, clock 3}"
    proof (cases tracked)
      case True
      then obtain f where "map_of (flows s2) ?fid = Some f" using tracked_flow_cases(2) [OF tf] fid eq by auto
      then show ?thesis using that updateFlow_touched fin on True fid eq by (metis insertI1)
    next
      case False
      then show ?thesis using that startTrackingFlow_touched fin on fid eq by (metis insertI1 insertI2)
    qed
    have s2: "fewer_flows s1 s2" by (rule tracked_flow_cases(1) [OF tf])
    have "same_rules s s2" using address_rewrites_session(1) [OF rw] s2 same_rules_trans by (auto simp: fewer_flows_def)
    then have "same_rules s (out_session r)" using t same_rules_trans by (auto simp: touched_def)
    moreover have "originalAddress (version k) (out_session r) = Some (sourceIPAddress k p)"
      using t s2 r(3) by (simp add: touched_def fewer_flows_def originalAddress_def split: if_splits)
    ultimately show ?thesis using p' t by (auto simp: touched_def r eq)
  qed
  then show "same_rules s (out_session r)" "originalAddress (version k) (out_session r) = Some (sourceIPAddress k p)"
    "rewritten k (Some (assignedAddress (version k) s)) None p (out_packet r)"
    "\<exists>f. map_of (flows (out_session r)) (flowID_set (assignedAddress (version k) s) (sourcePort k p) (destinationIPAddress k p)
        (destinationPort k p) (protocol k)) = Some f \<and> lastUpstreamPacketTime f \<in> {clock 1, clock 3}"
    by blast+
qed

lemma downstream_of_flow:
  assumes q: "parse_packet q = Inr k" and dns: "transparent_dns env s c ServerDownstream k q = Some (Inr False)"
    and orig: "originalAddress (version k) s = Some ip" "length ip = address_length k"
    and flow: "map_of (flows s) (flowID_set (destinationIPAddress k q) (destinationPort k q) (sourceIPAddress k q) (sourcePort k q) (protocol k)) = Some f"
    and now: "clock 0 - lastUpstreamPacketTime f \<le> FLOW_IDLE_EXPIRY"
  shows "\<exists>r. processPacket env clock c ServerDownstream q s m = Some r \<and> relayed r \<and> rewritten k None (Some ip) q (out_packet r)"
proof -
  have rw: "address_rewrites env c ServerDownstream k q False s = Some (Inr (None, Some ip), s)"
    using orig by (auto simp: address_rewrites_def originalAddress_def)
  have fid: "flow_of ServerDownstream k q None (Some ip) =
    flowID_set (destinationIPAddress k q) (destinationPort k q) (sourceIPAddress k q) (sourcePort k q) (protocol k)"
    by (simp add: flow_of_def Let_def)
  have tf: "tracked_flow clock ServerDownstream False (flow_of ServerDownstream k q None (Some ip)) s = (True, s, [])"
    using flow now by (simp add: tracked_flow_def tracking_on_def is_server_def isTrackingFlow_def fid flow_expired_def)
  note run = processPacket_parsed [OF q dns rw tf, of m]
  from rewrite_packet_effect [OF parse_layout [OF q], of None "Some ip"]
  obtain p' where "rewrite_packet k None (Some ip) q = Some p'" "rewritten k None (Some ip) q p'" by blast
  then show ?thesis unfolding run by (simp add: finish_packet_def Let_def split: prod.splits)
qed

text \<open>
  Address translation round trip. When the server relays a packet from the client that is not transparent DNS, then a reply to the packet as
  it was sent, from its destination to its source as rewritten, is relayed back if it arrives within the idle
  expiry, with no further check of the traffic rules: the reply then comes from the address and port that the client's packet went to
  and goes to the address and port that it came from. The client has one address of that version, and the assigned one has its length.
\<close>

lemma nat_roundtrip:
  assumes "processPacket env clock c ServerUpstream p s m = Some r" "relayed r" "parse_packet p = Inr k"
    "transparent_dns env s c ServerUpstream k p = Some (Inr False)"
    "originalAddress (version k) s \<in> {None, Some (sourceIPAddress k p)}"
    "length (assignedAddress (version k) s) = address_length k"
    "parse_packet q = Inr k'" "reply_to k (out_packet r) k' q"
    "transparent_dns env s c ServerDownstream k' q = Some (Inr False)"
    "clock' 0 \<le> min (clock 1) (clock 3) + FLOW_IDLE_EXPIRY"
  shows "\<exists>r'. processPacket env clock' c ServerDownstream q (out_session r) m' = Some r' \<and> relayed r' \<and>
    parse_packet (out_packet r') = Inr k' \<and> reply_to k p k' (out_packet r')"
proof -
  note up = upstream_leaves_flow [OF assms(1-6)]
  have out: "same_header k p (out_packet r)" "sourceIPAddress k (out_packet r) = assignedAddress (version k) s"
    "destinationIPAddress k (out_packet r) = destinationIPAddress k p" using up(3) assms(6) by (auto simp: rewritten_def)
  have rep: "version k' = version k" "protocol k' = protocol k" "sourceIPAddress k' q = destinationIPAddress k p"
    "destinationIPAddress k' q = assignedAddress (version k) s" "sourcePort k' q = destinationPort k p" "destinationPort k' q = sourcePort k p"
    using assms(8) out same_header_ports [OF out(1)] by (auto simp: reply_to_def)
  obtain f where f: "map_of (flows (out_session r)) (flowID_set (destinationIPAddress k' q) (destinationPort k' q)
      (sourceIPAddress k' q) (sourcePort k' q) (protocol k')) = Some f" "lastUpstreamPacketTime f \<in> {clock 1, clock 3}"
    using up(4) by (auto simp: rep)
  have lay: "layout k p" "layout k' q" using assms(3,7) parse_layout by blast+
  have len: "length (sourceIPAddress k p) = address_length k'" using lay rep(1) layout_addresses(1) [OF lay(1)] by (auto simp: layout_def)
  have dns: "transparent_dns env (out_session r) c ServerDownstream k' q = Some (Inr False)"
    using assms(9) transparent_dns_same [OF up(1)] by simp
  have now: "clock' 0 - lastUpstreamPacketTime f \<le> FLOW_IDLE_EXPIRY" using f(2) assms(10) by auto
  obtain r' where r': "processPacket env clock' c ServerDownstream q (out_session r) m' = Some r'" "relayed r'"
    "rewritten k' None (Some (sourceIPAddress k p)) q (out_packet r')"
    using downstream_of_flow [OF assms(7) dns _ len f(1), of clock' m'] up(2) rep(1) now by auto
  then have h: "same_header k' q (out_packet r')" by (simp add: rewritten_def)
  then have "reply_to k p k' (out_packet r')"
    using r'(3) rep same_header_ports [OF h] len by (auto simp: reply_to_def rewritten_def)
  then show ?thesis using r' same_header_parse [OF assms(7) h] by blast
qed


definition web_reply :: bytes where
  "web_reply = udp4 [1, 1, 1, 1] 443 [10, 0, 0, 5] 5000 [0x6e, 0xca] [0, 0]"

definition udp4_layout :: parsed_packet where
  "udp4_layout = \<lparr>version = 4, protocol = 17, source_at = 12, destination_at = 16, address_length = 4,
     ports_at = 20, checksum_at = 26, data_at = 28\<rparr>"

lemma web_reply_parsed: "parse_packet web_reply = Inr udp4_layout"
  by code_simp

lemma web_exchange:
  "transparent_dns first_choice web_only no_client_dns ServerUpstream udp4_layout web_request = Some (Inr False)"
  "transparent_dns first_choice web_only no_client_dns ServerDownstream udp4_layout web_reply = Some (Inr False)"
  "reply_to udp4_layout (udp4 [10, 0, 0, 5] 5000 [1, 1, 1, 1] 443 [0x6e, 0xca] [0xb4, 0x92]) udp4_layout web_reply"
  "sourceIPAddress udp4_layout web_request = [192, 168, 1, 2]"
  by code_simp+

lemma nat_roundtrip_example:
  "\<exists>r r'. processPacket first_choice (\<lambda>i. 5) no_client_dns ServerUpstream web_request web_only no_packets = Some r \<and>
     processPacket first_choice (\<lambda>i. 60000000000) no_client_dns ServerDownstream web_reply (out_session r) no_packets = Some r' \<and>
     relayed r' \<and> destinationIPAddress udp4_layout (out_packet r') = [192, 168, 1, 2]"
proof -
  obtain r where r: "processPacket first_choice (\<lambda>i. 5) no_client_dns ServerUpstream web_request web_only no_packets = Some r"
    "relayed r" "out_packet r = udp4 [10, 0, 0, 5] 5000 [1, 1, 1, 1] 443 [0x6e, 0xca] [0xb4, 0x92]"
    using web_request_relayed by (auto simp: map_option_eq_Some)
  have k: "parse_packet web_request = Inr udp4_layout" using web_request_parsed by (simp add: udp4_layout_def)
  have v: "version udp4_layout = 4" "address_length udp4_layout = 4" by (simp_all add: udp4_layout_def)
  have "originalAddress (version udp4_layout) web_only \<in> {None, Some (sourceIPAddress udp4_layout web_request)}"
    "length (assignedAddress (version udp4_layout) web_only) = address_length udp4_layout"
    by (simp_all add: v originalAddress_def assignedAddress_def web_only_def)
  from nat_roundtrip [OF r(1,2) k web_exchange(1) this web_reply_parsed, unfolded r(3), OF web_exchange(3,2), of "\<lambda>i. 60000000000" no_packets] r(1)
  show ?thesis by (auto simp: FLOW_IDLE_EXPIRY_def reply_to_def web_exchange(4))
qed

end
