(* ===== verification/TunServer.thy ===== *)
theory TunServer
  imports TunPacketClaims
begin

text \<open>
  The packet tunnel server of \<open>common/tun/tun.go\<close>: the sessions of clients, the allocation of their indices and
  so of their addresses, and the loops that take packets from clients and from the tun device.

  Sessions are objects that several maps and goroutines share: a session is a number, and the
  server has a store of them. The two \<open>sync.Map\<close>s are maps. A new session is filled in when
  it is stored in the index map. Readings of the clock, and the random start of the search, are
  arguments. A session has a channel when it has a queue of downstream packets. Events of deleted
  flows, logs, and what a checkpoint reports are not recorded here.
\<close>

section \<open>Indices and addresses\<close>

definition byte_of :: "int \<Rightarrow> byte" where
  "byte_of i = word_of_int i"

text \<open>\<open>net.ParseIP\<close> of the filled address templates\<close>

definition convertIndexToIPv4Address :: "int \<Rightarrow> bytes" where
  "convertIndexToIPv4Address index = v4InV6Prefix @ [10, byte_of (index div 65536), byte_of (index div 256), byte_of index]"

definition convertIndexToIPv6Address :: "int \<Rightarrow> bytes" where
  "convertIndexToIPv6Address index = [0xfd, 0x19, 0xca, 0x83, 0xe6, 0xd5, 0x1c, 0x44, 0x8c, 0x57, 0x44, 0x34, 0xee,
     byte_of (index div 65536), byte_of (index div 256), byte_of index]"

definition convertIPAddressToIndex :: "bytes \<Rightarrow> int" where
  "convertIPAddressToIndex ip = (let size = length ip
     in uint (ip ! (size - 3)) * 65536 + uint (ip ! (size - 2)) * 256 + uint (ip ! (size - 1)))"

section \<open>Sessions\<close>

record server_session =
  sessionID :: string
  index :: int
  lastActivity :: int
  has_downstreamPackets :: bool
  session_metrics :: packet_metrics
  session :: tun_session

record tun_server =
  sessionIDToIndex :: "string \<rightharpoonup> int"
  indexToSession :: "int \<rightharpoonup> nat"
  store :: "nat \<Rightarrow> server_session"
  next_session :: nat
  orphanMetrics :: packet_metrics

record server_config =
  SessionIdleExpirySeconds :: int
  AllowBogons :: bool
  EnableDNSFlowTracking :: bool
  GetDNSResolverIPv4Addresses :: "bytes list"
  GetDNSResolverIPv6Addresses :: "bytes list"

record client_callbacks =
  allowed_tcp :: "bytes \<Rightarrow> int \<Rightarrow> bool"
  allowed_udp :: "bytes \<Rightarrow> int \<Rightarrow> bool"
  allowed_domain :: "string \<Rightarrow> bool"
  updater_maker :: "bool \<Rightarrow> string \<Rightarrow> bytes \<Rightarrow> nat list"

definition server_init :: "(nat \<Rightarrow> server_session) \<Rightarrow> packet_metrics \<Rightarrow> tun_server" where
  "server_init junk m = \<lparr>sessionIDToIndex = Map.empty, indexToSession = Map.empty, store = junk, next_session = 0, orphanMetrics = m\<rparr>"

definition update_session :: "nat \<Rightarrow> (server_session \<Rightarrow> server_session) \<Rightarrow> tun_server \<Rightarrow> tun_server" where
  "update_session r f srv = srv\<lparr>store := (store srv)(r := f (store srv r))\<rparr>"

definition sessionIdleExpiry :: "server_config \<Rightarrow> int" where
  "sessionIdleExpiry cfg = (if SessionIdleExpirySeconds cfg > 2 then SessionIdleExpirySeconds cfg else 300) * 1000000000"

definition session_expired :: "int \<Rightarrow> int \<Rightarrow> server_session \<Rightarrow> bool" where
  "session_expired now idleExpiry e \<longleftrightarrow> now - lastActivity e > idleExpiry"

definition touch :: "int \<Rightarrow> nat \<Rightarrow> tun_server \<Rightarrow> tun_server" where
  "touch now r = update_session r (\<lambda>e. e\<lparr>lastActivity := now\<rparr>)"

definition getSession :: "string \<Rightarrow> tun_server \<Rightarrow> nat option" where
  "getSession i srv = Option.bind (sessionIDToIndex srv i) (indexToSession srv)"

definition interruptSession :: "nat \<Rightarrow> tun_server \<Rightarrow> tun_server" where
  "interruptSession r = update_session r (\<lambda>e. e\<lparr>has_downstreamPackets := False,
    session_metrics := (if has_downstreamPackets e then snd (checkpoint True True (session_metrics e)) else session_metrics e),
    session := (session e)\<lparr>checkAllowedTCPPortFunc := None, checkAllowedUDPPortFunc := None, checkAllowedDomainFunc := None,
      flowActivityUpdaterMaker := None, dnsQualityReporter := False\<rparr>\<rparr>)"

definition resumeSession :: "int \<Rightarrow> client_callbacks \<Rightarrow> nat \<Rightarrow> tun_server \<Rightarrow> tun_server" where
  "resumeSession now cb r srv = touch now r (update_session r (\<lambda>e. e\<lparr>has_downstreamPackets := True,
    session := (session e)\<lparr>checkAllowedTCPPortFunc := Some (allowed_tcp cb), checkAllowedUDPPortFunc := Some (allowed_udp cb),
      checkAllowedDomainFunc := Some (allowed_domain cb), flowActivityUpdaterMaker := Some (updater_maker cb), dnsQualityReporter := True\<rparr>\<rparr>) srv)"

text \<open>The two deletions, the interruption and the deletion of flows, each of them a step on its own\<close>

definition remove_id :: "nat \<Rightarrow> tun_server \<Rightarrow> tun_server" where
  "remove_id r srv = srv\<lparr>sessionIDToIndex := (sessionIDToIndex srv)(sessionID (store srv r) := None)\<rparr>"

definition remove_index :: "nat \<Rightarrow> tun_server \<Rightarrow> tun_server" where
  "remove_index r srv = srv\<lparr>indexToSession := (indexToSession srv)(index (store srv r) := None)\<rparr>"

definition delete_session_flows :: "int \<Rightarrow> nat \<Rightarrow> tun_server \<Rightarrow> tun_server" where
  "delete_session_flows now r = update_session r (\<lambda>e. e\<lparr>session := fst (deleteFlows now (session e))\<rparr>)"

definition removeSession :: "int \<Rightarrow> nat \<Rightarrow> tun_server \<Rightarrow> tun_server" where
  "removeSession now r srv = delete_session_flows now r (interruptSession r (remove_index r (remove_id r srv)))"

section \<open>Allocation\<close>

text \<open>A free index: the new session is stored and gets its addresses.\<close>

definition acquire_index :: "nat \<Rightarrow> int \<Rightarrow> tun_server \<Rightarrow> tun_server" where
  "acquire_index new i srv =
    (let srv1 = srv\<lparr>indexToSession := (indexToSession srv)(i \<mapsto> new)\<rparr>;
         srv2 = update_session new (\<lambda>e. e\<lparr>index := i, session := (session e)\<lparr>
             assignedIPv4Address := the (To4 (convertIndexToIPv4Address i)), assignedIPv6Address := convertIndexToIPv6Address i\<rparr>\<rparr>) srv1
     in srv2\<lparr>sessionIDToIndex := (sessionIDToIndex srv2)(sessionID (store srv2 new) \<mapsto> i)\<rparr>)"

text \<open>The first argument is the number of tries left, which also numbers the readings of the clock.\<close>

fun allocate_loop :: "nat \<Rightarrow> (nat \<Rightarrow> int) \<Rightarrow> int \<Rightarrow> nat \<Rightarrow> int \<Rightarrow> tun_server \<Rightarrow> bool \<times> tun_server" where
  "allocate_loop 0 clock idleExpiry new i srv = (False, srv)"
| "allocate_loop (Suc tries) clock idleExpiry new i srv =
    (if i \<le> 2 then allocate_loop tries clock idleExpiry new (i + 1) srv
     else if i = 0x00FFFFFF then allocate_loop tries clock idleExpiry new 1 srv
     else case indexToSession srv i of
         None \<Rightarrow> (True, acquire_index new i srv)
       | Some existing \<Rightarrow>
          if session_expired (clock tries) idleExpiry (store srv existing)
          then allocate_loop tries clock idleExpiry new i (removeSession (clock tries) existing srv)
          else allocate_loop tries clock idleExpiry new (i + 1) srv)"

definition allocateIndex :: "(nat \<Rightarrow> int) \<Rightarrow> int \<Rightarrow> int \<Rightarrow> nat \<Rightarrow> tun_server \<Rightarrow> bool \<times> tun_server" where
  "allocateIndex clock randomInt idleExpiry new srv = allocate_loop 100000 clock idleExpiry new randomInt srv"

text \<open>The new session of a client; the random choices of resolvers are arguments. \<open>To4\<close> of each resolver is assumed to be non-nil.\<close>

definition new_session :: "server_config \<Rightarrow> string \<Rightarrow> int \<Rightarrow> nat \<Rightarrow> nat \<Rightarrow> server_session" where
  "new_session cfg i now pick4 pick6 = \<lparr>sessionID = i, index = 0, lastActivity = now, has_downstreamPackets = False, session_metrics = no_packets,
    session = \<lparr>allowBogons = AllowBogons cfg, enableDNSFlowTracking = EnableDNSFlowTracking cfg,
      DNSResolverIPv4Addresses = map (\<lambda>ip. case To4 ip of Some v4 \<Rightarrow> v4 | None \<Rightarrow> []) (GetDNSResolverIPv4Addresses cfg),
      TCPDNSResolverIPv4Index = (if GetDNSResolverIPv4Addresses cfg \<noteq> [] then pick4 else 0),
      assignedIPv4Address = [], originalIPv4Address = None,
      DNSResolverIPv6Addresses = GetDNSResolverIPv6Addresses cfg,
      TCPDNSResolverIPv6Index = (if GetDNSResolverIPv6Addresses cfg \<noteq> [] then pick6 else 0),
      assignedIPv6Address = [], originalIPv6Address = None, checkAllowedTCPPortFunc = None, checkAllowedUDPPortFunc = None,
      checkAllowedDomainFunc = None, flowActivityUpdaterMaker = None, dnsQualityReporter = False, lastFlowReapIndex = 0, flows = []\<rparr>\<rparr>"

record connect_choices =
  start_index :: int
  resolver4 :: nat
  resolver6 :: nat

definition ClientConnected :: "server_config \<Rightarrow> (nat \<Rightarrow> int) \<Rightarrow> connect_choices \<Rightarrow> string \<Rightarrow> client_callbacks \<Rightarrow> tun_server \<Rightarrow> bool \<times> tun_server" where
  "ClientConnected cfg clock ch i cb srv =
    (case getSession i srv of
       Some r \<Rightarrow> (True, resumeSession (clock 0) cb r (interruptSession r srv))
     | None \<Rightarrow>
        (let r = next_session srv;
             srv1 = srv\<lparr>store := (store srv)(r := new_session cfg i (clock 0) (resolver4 ch) (resolver6 ch)), next_session := r + 1\<rparr>
         in case allocateIndex clock (start_index ch) (sessionIdleExpiry cfg) r srv1 of
              (False, srv2) \<Rightarrow> (False, srv2)
            | (True, srv2) \<Rightarrow> (True, resumeSession (clock 0) cb r srv2)))"

definition ClientDisconnected :: "string \<Rightarrow> tun_server \<Rightarrow> tun_server" where
  "ClientDisconnected i srv = (case getSession i srv of Some r \<Rightarrow> interruptSession r srv | None \<Rightarrow> srv)"

text \<open>One session that the reaper's \<open>Range\<close> visits\<close>

definition reap_session :: "server_config \<Rightarrow> int \<Rightarrow> nat \<Rightarrow> tun_server \<Rightarrow> tun_server" where
  "reap_session cfg now r srv = (if session_expired now (sessionIdleExpiry cfg) (store srv r) then removeSession now r srv else srv)"

section \<open>Packets\<close>

text \<open>
  A packet that a client sent: what is written to the tun device, if anything. \<open>None\<close> is a panic. The
  reading of the clock for \<open>touch\<close> is apart from those of the processing.
\<close>

definition store_result :: "nat \<Rightarrow> tun_result \<Rightarrow> tun_server \<Rightarrow> tun_server" where
  "store_result r res = update_session r (\<lambda>e. e\<lparr>session_metrics := out_metrics res, session := out_session res\<rparr>)"

definition runClientUpstream :: "tun_env \<Rightarrow> int \<Rightarrow> (nat \<Rightarrow> int) \<Rightarrow> nat \<Rightarrow> bytes \<Rightarrow> tun_server \<Rightarrow> (bytes option \<times> tun_server) option" where
  "runClientUpstream env now clock r readPacket srv =
    (let srv1 = touch now r srv
     in map_option (\<lambda>res. (if relayed res then Some (out_packet res) else None, store_result r res srv1))
          (processPacket env clock no_client_dns ServerUpstream readPacket (session (store srv1 r)) (session_metrics (store srv1 r))))"

text \<open>A packet from the tun device: the session that it is enqueued for, and the packet.\<close>

definition count_orphan :: "reject_reason \<Rightarrow> tun_server \<Rightarrow> tun_server" where
  "count_orphan reason srv = srv\<lparr>orphanMetrics := rejectedPacket ServerDownstream reason (orphanMetrics srv)\<rparr>"

definition runDeviceDownstream :: "tun_env \<Rightarrow> (nat \<Rightarrow> int) \<Rightarrow> bytes \<Rightarrow> tun_server \<Rightarrow> ((nat \<times> bytes) option \<times> tun_server) option" where
  "runDeviceDownstream env clock readPacket srv =
    (case getPacketDestinationIPAddress readPacket of
       Inl reason \<Rightarrow> Some (None, count_orphan reason srv)
     | Inr ip \<Rightarrow>
        (case indexToSession srv (convertIPAddressToIndex ip) of
           None \<Rightarrow> Some (None, count_orphan RejectNoSession srv)
         | Some r \<Rightarrow>
             if \<not> has_downstreamPackets (store srv r) then Some (None, count_orphan RejectNoClient srv)
             else map_option (\<lambda>res. (if relayed res then Some (r, out_packet res) else None, store_result r res srv))
               (processPacket env clock no_client_dns ServerDownstream readPacket (session (store srv r)) (session_metrics (store srv r)))))"

end
