(* ===== verification/TunServerFacts.thy ===== *)
theory TunServerFacts
  imports TunServer
begin

text \<open>
  What holds of the packet tunnel server: every session in use is found by its client's ID and by its
  own addresses, an index is found as long as few enough are in use, and a reply reaches the client that asked.
\<close>

section \<open>Indices and addresses\<close>

lemma To4_prefixed: "length x = 4 \<Longrightarrow> To4 (v4InV6Prefix @ x) = Some x"
  by (simp add: To4_def v4InV6Prefix_def)

definition assigned_v4 :: "int \<Rightarrow> bytes" where
  "assigned_v4 i = [10, byte_of (i div 65536), byte_of (i div 256), byte_of i]"

lemma assigned_v4: "the (To4 (convertIndexToIPv4Address i)) = assigned_v4 i"
  by (simp add: convertIndexToIPv4Address_def To4_prefixed assigned_v4_def)

lemma uint_byte_of: "uint (byte_of i) = i mod 256"
  by (simp add: byte_of_def uint_word_of_int)

lemma base_256: "256 * a + x = (i :: int) \<Longrightarrow> 256 * b + y = a \<Longrightarrow> b * 65536 + y * 256 + x = i"
  by simp

lemma div_65536_less: "i < 16777216 \<Longrightarrow> (i :: int) div 65536 < 256"
  by presburger

lemma three_bytes:
  assumes "0 \<le> (i :: int)" "i < 16777216"
  shows "(i div 65536) mod 256 * 65536 + (i div 256) mod 256 * 256 + i mod 256 = i"
proof -
  have a: "i div 65536 = i div 256 div 256" by (simp add: zdiv_zmult2_eq [symmetric])
  have "0 \<le> i div 65536" "i div 65536 < 256" using assms by (simp_all add: pos_imp_zdiv_nonneg_iff div_65536_less)
  then have b: "i div 65536 mod 256 = i div 256 div 256" unfolding a [symmetric] by (rule mod_pos_pos_trivial)
  show ?thesis unfolding b by (rule base_256 [OF mult_div_mod_eq mult_div_mod_eq])
qed

lemma index_round_trip:
  assumes "0 \<le> i" "i < 16777216"
  shows "convertIPAddressToIndex (assigned_v4 i) = i" "convertIPAddressToIndex (convertIndexToIPv6Address i) = i"
proof -
  have "convertIPAddressToIndex (assigned_v4 i) = uint (byte_of (i div 65536)) * 65536 + uint (byte_of (i div 256)) * 256 + uint (byte_of i)"
    "convertIPAddressToIndex (convertIndexToIPv6Address i) = uint (byte_of (i div 65536)) * 65536 + uint (byte_of (i div 256)) * 256 + uint (byte_of i)"
    by (simp_all add: convertIPAddressToIndex_def assigned_v4_def convertIndexToIPv6Address_def Let_def)
  then show "convertIPAddressToIndex (assigned_v4 i) = i" "convertIPAddressToIndex (convertIndexToIPv6Address i) = i"
    unfolding uint_byte_of three_bytes [OF assms] by simp_all
qed

section \<open>Sessions in use\<close>

definition entry_ok :: "tun_server \<Rightarrow> int \<Rightarrow> nat \<Rightarrow> bool" where
  "entry_ok srv i r \<longleftrightarrow> r < next_session srv \<and> index (store srv r) = i \<and> 2 < i \<and> i < 0x00FFFFFF \<and>
    sessionIDToIndex srv (sessionID (store srv r)) = Some i \<and>
    assignedIPv4Address (session (store srv r)) = assigned_v4 i \<and>
    assignedIPv6Address (session (store srv r)) = convertIndexToIPv6Address i"

definition server_ok :: "tun_server \<Rightarrow> bool" where
  "server_ok srv \<longleftrightarrow> (\<forall>i r. indexToSession srv i = Some r \<longrightarrow> entry_ok srv i r) \<and>
    (\<forall>x i. sessionIDToIndex srv x = Some i \<longrightarrow> (\<exists>r. indexToSession srv i = Some r \<and> sessionID (store srv r) = x))"

lemma server_okD:
  "server_ok srv \<Longrightarrow> indexToSession srv i = Some r \<Longrightarrow> entry_ok srv i r"
  "server_ok srv \<Longrightarrow> sessionIDToIndex srv x = Some i \<Longrightarrow> \<exists>r. indexToSession srv i = Some r \<and> sessionID (store srv r) = x"
  by (auto simp: server_ok_def)

lemma server_init_ok: "server_ok (server_init junk m)"
  by (simp add: server_ok_def server_init_def)

text \<open>Operations on a session that keep its identity and its addresses\<close>

definition keeps_identity :: "(server_session \<Rightarrow> server_session) \<Rightarrow> bool" where
  "keeps_identity f \<longleftrightarrow> (\<forall>e. sessionID (f e) = sessionID e \<and> index (f e) = index e \<and>
    assignedIPv4Address (session (f e)) = assignedIPv4Address (session e) \<and>
    assignedIPv6Address (session (f e)) = assignedIPv6Address (session e))"

lemma update_session_fields [simp]:
  "sessionIDToIndex (update_session r f srv) = sessionIDToIndex srv" "indexToSession (update_session r f srv) = indexToSession srv"
  "next_session (update_session r f srv) = next_session srv" "orphanMetrics (update_session r f srv) = orphanMetrics srv"
  "store (update_session r f srv) r' = (if r' = r then f (store srv r) else store srv r')"
  by (simp_all add: update_session_def)

lemma update_session_same_identity:
  assumes "keeps_identity f \<or> (sessionID (f (store srv r)) = sessionID (store srv r) \<and> index (f (store srv r)) = index (store srv r) \<and>
      assignedIPv4Address (session (f (store srv r))) = assignedIPv4Address (session (store srv r)) \<and>
      assignedIPv6Address (session (f (store srv r))) = assignedIPv6Address (session (store srv r)))"
  shows "server_ok (update_session r f srv) = server_ok srv"
proof -
  have "entry_ok (update_session r f srv) i r' = entry_ok srv i r'" for i r'
    using assms by (auto simp: entry_ok_def keeps_identity_def)
  moreover have "sessionID (store (update_session r f srv) r') = sessionID (store srv r')" for r'
    using assms by (auto simp: keeps_identity_def)
  ultimately show ?thesis by (simp add: server_ok_def)
qed

lemma interruptSession_ok [simp]: "server_ok (interruptSession r srv) = server_ok srv"
  unfolding interruptSession_def by (rule update_session_same_identity) (simp add: keeps_identity_def)

lemma touch_ok [simp]: "server_ok (touch now r srv) = server_ok srv"
  unfolding touch_def by (rule update_session_same_identity) (simp add: keeps_identity_def)

lemma resumeSession_ok [simp]: "server_ok (resumeSession now cb r srv) = server_ok srv"
  unfolding resumeSession_def touch_ok by (rule update_session_same_identity) (simp add: keeps_identity_def)

lemma deleteFlows_rules: "same_rules s (fst (deleteFlows now s))"
  using delete_loop_fewer [of now "flows s" s] by (cases "delete_loop now (flows s) s") (auto simp: deleteFlows_def fewer_flows_def)

lemma delete_session_flows_ok [simp]: "server_ok (delete_session_flows now r srv) = server_ok srv"
  unfolding delete_session_flows_def
  by (rule update_session_same_identity) (use deleteFlows_rules in \<open>auto simp: keeps_identity_def same_rules_def\<close>)

lemma removeSession_fields [simp]:
  "sessionIDToIndex (removeSession now r srv) = (sessionIDToIndex srv)(sessionID (store srv r) := None)"
  "indexToSession (removeSession now r srv) = (indexToSession srv)(index (store srv r) := None)"
  "next_session (removeSession now r srv) = next_session srv"
  "r' \<noteq> r \<Longrightarrow> store (removeSession now r srv) r' = store srv r'"
  "sessionID (store (removeSession now r srv) r') = sessionID (store srv r')"
  by (simp_all add: removeSession_def delete_session_flows_def interruptSession_def remove_index_def remove_id_def)

lemma removeSession_ok:
  assumes ok: "server_ok srv" and r: "indexToSession srv i = Some r"
  shows "server_ok (removeSession now r srv)"
proof -
  note e = server_okD(1) [OF ok r, unfolded entry_ok_def]
  have "server_ok (remove_index r (remove_id r srv))"
    unfolding server_ok_def
  proof (intro conjI allI impI)
    fix j r' assume j: "indexToSession (remove_index r (remove_id r srv)) j = Some r'"
    then have j': "j \<noteq> i" "indexToSession srv j = Some r'" using e by (auto simp: remove_index_def remove_id_def split: if_splits)
    note e' = server_okD(1) [OF ok j'(2)]
    have "sessionID (store srv r') \<noteq> sessionID (store srv r)" using e' e j'(1) by (auto simp: entry_ok_def)
    then show "entry_ok (remove_index r (remove_id r srv)) j r'" using e' by (simp add: entry_ok_def remove_index_def remove_id_def)
  next
    fix x j assume "sessionIDToIndex (remove_index r (remove_id r srv)) x = Some j"
    then have x: "x \<noteq> sessionID (store srv r)" "sessionIDToIndex srv x = Some j" by (auto simp: remove_index_def remove_id_def split: if_splits)
    obtain r' where r': "indexToSession srv j = Some r'" "sessionID (store srv r') = x" using server_okD(2) [OF ok x(2)] by blast
    have "j \<noteq> i" using r' r x(1) by auto
    then show "\<exists>r'. indexToSession (remove_index r (remove_id r srv)) j = Some r' \<and> sessionID (store (remove_index r (remove_id r srv)) r') = x"
      using r' e by (auto simp: remove_index_def remove_id_def)
  qed
  then show ?thesis by (simp add: removeSession_def)
qed


section \<open>Allocation\<close>

text \<open>A session that is not in use yet\<close>

definition fresh :: "nat \<Rightarrow> tun_server \<Rightarrow> bool" where
  "fresh new srv \<longleftrightarrow> new < next_session srv \<and> (\<forall>i. indexToSession srv i \<noteq> Some new) \<and>
    sessionIDToIndex srv (sessionID (store srv new)) = None"

lemma removeSession_fresh: "fresh new srv \<Longrightarrow> fresh new (removeSession now r srv)"
  by (simp add: fresh_def)

lemma acquire_index_fields:
  "sessionIDToIndex (acquire_index new i srv) = (sessionIDToIndex srv)(sessionID (store srv new) \<mapsto> i)"
  "indexToSession (acquire_index new i srv) = (indexToSession srv)(i \<mapsto> new)"
  "next_session (acquire_index new i srv) = next_session srv"
  "r \<noteq> new \<Longrightarrow> store (acquire_index new i srv) r = store srv r"
  "sessionID (store (acquire_index new i srv) r) = sessionID (store srv r)"
  "index (store (acquire_index new i srv) new) = i"
  "assignedIPv4Address (session (store (acquire_index new i srv) new)) = assigned_v4 i"
  "assignedIPv6Address (session (store (acquire_index new i srv) new)) = convertIndexToIPv6Address i"
  by (simp_all add: acquire_index_def update_session_def assigned_v4 Let_def)

lemma acquire_index_ok:
  assumes ok: "server_ok srv" and new: "fresh new srv" and i: "2 < i" "i < 0x00FFFFFF" "indexToSession srv i = None"
  shows "server_ok (acquire_index new i srv)"
  unfolding server_ok_def
proof (intro conjI allI impI)
  fix j r assume j: "indexToSession (acquire_index new i srv) j = Some r"
  show "entry_ok (acquire_index new i srv) j r"
  proof (cases "j = i")
    case True
    then show ?thesis using j new i by (simp add: entry_ok_def acquire_index_fields fresh_def)
  next
    case False
    then have j': "indexToSession srv j = Some r" using j by (simp add: acquire_index_fields)
    note e = server_okD(1) [OF ok j']
    have "r \<noteq> new" using new j' by (auto simp: fresh_def)
    moreover have "sessionID (store srv r) \<noteq> sessionID (store srv new)" using e new by (auto simp: entry_ok_def fresh_def)
    ultimately show ?thesis using e by (simp add: entry_ok_def acquire_index_fields)
  qed
next
  fix x j assume x: "sessionIDToIndex (acquire_index new i srv) x = Some j"
  show "\<exists>r. indexToSession (acquire_index new i srv) j = Some r \<and> sessionID (store (acquire_index new i srv) r) = x"
  proof (cases "x = sessionID (store srv new)")
    case True
    then show ?thesis using x by (simp add: acquire_index_fields)
  next
    case False
    then have "sessionIDToIndex srv x = Some j" using x by (simp add: acquire_index_fields)
    then obtain r where "indexToSession srv j = Some r" "sessionID (store srv r) = x" using server_okD(2) [OF ok] by blast
    then show ?thesis using i(3) by (auto simp: acquire_index_fields)
  qed
qed

lemma allocate_loop_ok:
  assumes "server_ok srv" "fresh new srv" "i \<le> 0x00FFFFFF" "allocate_loop tries clock idleExpiry new i srv = (found, srv')"
  shows "server_ok srv' \<and> next_session srv' = next_session srv \<and> sessionID (store srv' new) = sessionID (store srv new) \<and>
    (found \<longrightarrow> (\<exists>j. indexToSession srv' j = Some new))"
  using assms
proof (induction tries clock idleExpiry new i srv rule: allocate_loop.induct)
  case (2 tries clock idleExpiry new i srv)
  note prem = 2(5-8)
  show ?case
  proof (cases "i \<le> 2 \<or> i = 0x00FFFFFF")
    case True
    then show ?thesis using 2 by (auto split: if_splits)
  next
    case False
    then have i: "2 < i" "i < 0x00FFFFFF" using prem(3) by auto
    show ?thesis
    proof (cases "indexToSession srv i")
      case None
      then show ?thesis using prem i acquire_index_ok [OF prem(1,2) i None] by (auto simp: acquire_index_fields)
    next
      case (Some existing)
      note kept = removeSession_ok [OF prem(1) Some, of "clock tries"] removeSession_fresh [OF prem(2)]
      show ?thesis using 2 i Some kept by (auto split: if_splits)
    qed
  qed
qed simp

text \<open>The indices that the search visits\<close>

definition next_index :: "int \<Rightarrow> int" where
  "next_index i = (if i = 0x00FFFFFF then 1 else i + 1)"

definition reserved :: "int \<Rightarrow> bool" where
  "reserved i \<longleftrightarrow> i \<in> {0, 1, 2, 0x00FFFFFF}"

lemma next_index_range: "0 \<le> i \<Longrightarrow> i \<le> 0x00FFFFFF \<Longrightarrow> 0 \<le> next_index i \<and> next_index i \<le> 0x00FFFFFF"
  by (simp add: next_index_def)

lemma allocate_loop_fails:
  assumes "allocate_loop tries clock idleExpiry new i srv = (False, srv')" "0 \<le> i" "i \<le> 0x00FFFFFF"
    "\<And>i r. indexToSession srv i = Some r \<Longrightarrow> index (store srv r) = i"
  shows "\<forall>k < tries. reserved ((next_index ^^ k) i) \<or> (next_index ^^ k) i \<in> dom (indexToSession srv)"
  using assms
proof (induction tries arbitrary: i)
  case (Suc tries)
  have here: "reserved i \<or> i \<in> dom (indexToSession srv)" using Suc.prems by (auto simp: reserved_def split: if_splits option.splits)
  have rest: "\<forall>k < tries. reserved ((next_index ^^ k) (next_index i)) \<or> (next_index ^^ k) (next_index i) \<in> dom (indexToSession srv)"
  proof (cases "i \<le> 2 \<or> i = 0x00FFFFFF")
    case True
    then have "allocate_loop tries clock idleExpiry new (next_index i) srv = (False, srv')" using Suc.prems(1) by (auto simp: next_index_def)
    then show ?thesis using Suc.IH next_index_range Suc.prems by blast
  next
    case False
    then obtain r where r: "indexToSession srv i = Some r" using here by (auto simp: reserved_def)
    show ?thesis
    proof (cases "session_expired (clock tries) idleExpiry (store srv r)")
      case True
      then have "allocate_loop tries clock idleExpiry new i (removeSession (clock tries) r srv) = (False, srv')"
        using Suc.prems(1) False r by simp
      moreover have "indexToSession (removeSession (clock tries) r srv) i = None" using Suc.prems(4) [OF r] by simp
      ultimately have "tries = 0" using False by (cases tries) auto
      then show ?thesis by simp
    next
      case live: False
      then have "allocate_loop tries clock idleExpiry new (next_index i) srv = (False, srv')" using Suc.prems(1) False r by (auto simp: next_index_def)
      then show ?thesis using Suc.IH next_index_range Suc.prems by blast
    qed
  qed
  show ?case
  proof (intro allI impI)
    fix k assume "k < Suc tries"
    then show "reserved ((next_index ^^ k) i) \<or> (next_index ^^ k) i \<in> dom (indexToSession srv)"
      using here rest by (cases k) (auto simp: funpow_swap1)
  qed
qed simp

lemma orbit_cycle: "1 \<le> i \<Longrightarrow> i \<le> 0x00FFFFFF \<Longrightarrow> (next_index ^^ k) i = (i - 1 + int k) mod 0x00FFFFFF + 1"
proof (induction k)
  case 0
  then show ?case by (simp add: mod_pos_pos_trivial)
next
  case (Suc k)
  let ?v = "(i - 1 + int k) mod 0x00FFFFFF"
  have v: "0 \<le> ?v" "?v < 0x00FFFFFF" by simp_all
  have "(i - 1 + int (Suc k)) mod 0x00FFFFFF = (?v + 1) mod 0x00FFFFFF"     using mod_add_left_eq [of "i - 1 + int k" "0x00FFFFFF" 1] by (simp add: algebra_simps)
  also have "\<dots> = (if ?v + 1 = 0x00FFFFFF then 0 else ?v + 1)" using v by (auto intro: mod_pos_pos_trivial)
  finally show ?case using Suc by (simp add: next_index_def)
qed

lemma orbit_distinct:
  assumes "1 \<le> i" "i \<le> 0x00FFFFFF" "n \<le> 0x00FFFFFF"
  shows "inj_on (\<lambda>k. (next_index ^^ k) i) {..<n}"
proof (rule inj_onI)
  fix a b assume ab: "a \<in> {..<n}" "b \<in> {..<n}" and "(next_index ^^ a) i = (next_index ^^ b) i"
  then have "(i - 1 + int a) mod 0x00FFFFFF = (i - 1 + int b) mod 0x00FFFFFF" using orbit_cycle [OF assms(1,2)] by simp
  then have "int 0x00FFFFFF dvd (int a - int b)" by (simp add: mod_eq_dvd_iff)
  moreover have "\<bar>int a - int b\<bar> < int 0x00FFFFFF" using ab assms(3) by auto
  ultimately show "a = b" using zdvd_imp_le [of "int 0x00FFFFFF" "\<bar>int a - int b\<bar>"] by (cases "a = b") auto
qed

lemma orbit_card:
  assumes "0 \<le> i" "i \<le> 0x00FFFFFF" "n \<le> 0x00FFFFFF"
  shows "card ((\<lambda>k. (next_index ^^ k) i) ` {..<n}) = n"
proof (cases "i = 0")
  case True
  show ?thesis
  proof (cases n)
    case (Suc m)
    have "(\<lambda>k. (next_index ^^ k) i) ` {..<n} = insert 0 ((\<lambda>k. (next_index ^^ k) 1) ` {..<m})"
      unfolding Suc lessThan_Suc_eq_insert_0 image_insert image_image by (simp add: True funpow_swap1 next_index_def)
    moreover have "0 \<notin> (\<lambda>k. (next_index ^^ k) 1) ` {..<m}" by (auto simp: orbit_cycle)
    moreover have "card ((\<lambda>k. (next_index ^^ k) 1) ` {..<m}) = m"
      using card_image [OF orbit_distinct [of 1 m]] assms(3) Suc by simp
    ultimately show ?thesis using Suc by simp
  qed simp
qed (use card_image [OF orbit_distinct [of i n]] assms in simp)

lemma allocate_loop_succeeds:
  assumes "finite (dom (indexToSession srv))" "card (dom (indexToSession srv)) + 4 < tries" "tries \<le> 0x00FFFFFF" "0 \<le> i" "i \<le> 0x00FFFFFF"
    "\<And>i r. indexToSession srv i = Some r \<Longrightarrow> index (store srv r) = i"
  shows "fst (allocate_loop tries clock idleExpiry new i srv)"
proof (rule ccontr)
  assume "\<not> fst (allocate_loop tries clock idleExpiry new i srv)"
  then obtain srv' where "allocate_loop tries clock idleExpiry new i srv = (False, srv')" by (metis prod.collapse)
  from allocate_loop_fails [OF this assms(4,5,6)]
  have sub: "(\<lambda>k. (next_index ^^ k) i) ` {..<tries} \<subseteq> {0, 1, 2, 0x00FFFFFF} \<union> dom (indexToSession srv)" by (auto simp: reserved_def)
  then have "tries \<le> card ({0, 1, 2, 0x00FFFFFF} \<union> dom (indexToSession srv))"
    using card_mono [OF _ sub] orbit_card [OF assms(4,5,3)] assms(1) by simp
  also have "\<dots> \<le> card {0 :: int, 1, 2, 0x00FFFFFF} + card (dom (indexToSession srv))" by (rule card_Un_le)
  also have "\<dots> = 4 + card (dom (indexToSession srv))" by simp
  finally show False using assms(2) by simp
qed

end
