(* ===== verification/TunServerClaims.thy ===== *)
theory TunServerClaims
  imports TunServerFacts
begin

text \<open>
  The properties of the packet tunnel server over all sequences of connections, disconnections, reaping and packets.
\<close>

section \<open>Operations\<close>

lemma processPacket_same_rules:
  assumes "processPacket env clock c d p s m = Some r"
  shows "same_rules s (out_session r)"
proof (cases "relayed r")
  case True
  show ?thesis
  proof (rule processPacket_relayed [OF assms True])
    fix k dns src dst s1 tracked s2 e e'
    assume rw: "address_rewrites env c d k p dns s = Some (Inr (src, dst), s1)"
      and tf: "tracked_flow clock d dns (flow_of d k p src dst) s1 = (tracked, s2, e)"
      and fin: "(if \<not> tracking_on d dns s1 then (s2, [])
          else if \<not> tracked then startTrackingFlow (clock 1) (clock 2) (clock 3) (flow_of d k p src dst) d
            (applicationData k (out_packet r)) dns s2
          else updateFlow (clock 1) (flow_of d k p src dst) d (applicationData k (out_packet r)) s2) = (out_session r, e')"
    have s2: "same_rules s s2"
      using address_rewrites_session(1) [OF rw] tracked_flow_cases(1) [OF tf] same_rules_trans by (auto simp: fewer_flows_def)
    consider (off) "out_session r = s2" | (on) now f where "touched (flow_of d k p src dst) d now f s2 (out_session r)"
    proof (cases "tracking_on d dns s1")
      case on': True
      show ?thesis
      proof (cases tracked)
        case True
        then obtain f where "map_of (flows s2) (flow_of d k p src dst) = Some f" using tracked_flow_cases(2) [OF tf] by auto
        then show ?thesis using that(2) updateFlow_touched fin on' True by metis
      next
        case False
        then show ?thesis using that(2) startTrackingFlow_touched fin on' by metis
      qed
    qed (use that(1) fin in simp)
    then show ?thesis using s2 same_rules_trans by cases (auto simp: touched_def)
  qed
qed (use processPacket_rejected [OF assms] in simp)

lemma store_result_ok:
  assumes "same_rules (session (store srv r)) (out_session res)"
  shows "server_ok (store_result r res srv) = server_ok srv"
  unfolding store_result_def
  by (rule update_session_same_identity) (use assms in \<open>auto simp: same_rules_def\<close>)

lemma runClientUpstream_ok:
  assumes "server_ok srv" "runClientUpstream env now clock r p srv = Some (out, srv')"
  shows "server_ok srv' \<and> indexToSession srv' = indexToSession srv"
proof -
  obtain res where res: "processPacket env clock no_client_dns ServerUpstream p (session (store (touch now r srv) r))
      (session_metrics (store (touch now r srv) r)) = Some res" "srv' = store_result r res (touch now r srv)"
    using assms(2) by (auto simp: runClientUpstream_def Let_def)
  show ?thesis using store_result_ok [OF processPacket_same_rules [OF res(1)]] assms(1)
    by (simp add: res(2)) (simp add: store_result_def touch_def)
qed

lemma runDeviceDownstream_ok:
  assumes ok: "server_ok srv" and run: "runDeviceDownstream env clock p srv = Some (out, srv')"
  shows "server_ok srv' \<and> indexToSession srv' = indexToSession srv"
proof -
  have orphan: "server_ok (count_orphan reason srv) \<and> indexToSession (count_orphan reason srv) = indexToSession srv" for reason
    using ok by (simp add: count_orphan_def server_ok_def entry_ok_def)
  show ?thesis
  proof (cases "getPacketDestinationIPAddress p")
    case (Inl reason)
    then show ?thesis using run orphan by (auto simp: runDeviceDownstream_def)
  next
    case (Inr ip)
    show ?thesis
    proof (cases "indexToSession srv (convertIPAddressToIndex ip)")
      case None
      then show ?thesis using run orphan Inr by (auto simp: runDeviceDownstream_def)
    next
      case (Some r)
      show ?thesis
      proof (cases "has_downstreamPackets (store srv r)")
        case False
        then show ?thesis using run orphan Inr Some by (auto simp: runDeviceDownstream_def)
      next
        case True
        then obtain res where res: "processPacket env clock no_client_dns ServerDownstream p (session (store srv r)) (session_metrics (store srv r)) = Some res"
          "srv' = store_result r res srv" using run Inr Some by (auto simp: runDeviceDownstream_def)
        show ?thesis using store_result_ok [OF processPacket_same_rules [OF res(1)]] ok
          by (simp add: res(2)) (simp add: store_result_def)
      qed
    qed
  qed
qed

text \<open>The server with the object of a new session, not in any map yet\<close>

definition with_new :: "server_config \<Rightarrow> (nat \<Rightarrow> int) \<Rightarrow> connect_choices \<Rightarrow> string \<Rightarrow> tun_server \<Rightarrow> tun_server" where
  "with_new cfg clock ch x srv = srv\<lparr>store := (store srv)(next_session srv := new_session cfg x (clock 0) (resolver4 ch) (resolver6 ch)),
     next_session := next_session srv + 1\<rparr>"

lemma with_new_ok:
  assumes ok: "server_ok srv" and none: "getSession x srv = None"
  shows "server_ok (with_new cfg clock ch x srv)" "fresh (next_session srv) (with_new cfg clock ch x srv)"
proof -
  have old: "r < next_session srv" if "indexToSession srv i = Some r" for i r using server_okD(1) [OF ok that] by (simp add: entry_ok_def)
  have no_id: "sessionIDToIndex srv x = None"
    using none server_okD(2) [OF ok, of x] by (cases "sessionIDToIndex srv x") (auto simp: getSession_def)
  show "server_ok (with_new cfg clock ch x srv)"
    unfolding server_ok_def
  proof (intro conjI allI impI)
    fix i r assume "indexToSession (with_new cfg clock ch x srv) i = Some r"
    then have i: "indexToSession srv i = Some r" by (simp add: with_new_def)
    then show "entry_ok (with_new cfg clock ch x srv) i r" using server_okD(1) [OF ok i] by (simp add: entry_ok_def with_new_def)
  next
    fix y i assume "sessionIDToIndex (with_new cfg clock ch x srv) y = Some i"
    then have "sessionIDToIndex srv y = Some i" by (simp add: with_new_def)
    then obtain r where "indexToSession srv i = Some r" "sessionID (store srv r) = y" using server_okD(2) [OF ok] by blast
    then show "\<exists>r. indexToSession (with_new cfg clock ch x srv) i = Some r \<and> sessionID (store (with_new cfg clock ch x srv) r) = y"
      using old by (auto simp: with_new_def)
  qed
  show "fresh (next_session srv) (with_new cfg clock ch x srv)" using old no_id by (auto simp: fresh_def with_new_def new_session_def)
qed

lemma resumeSession_maps [simp]:
  "indexToSession (resumeSession now cb r srv) = indexToSession srv" "sessionIDToIndex (resumeSession now cb r srv) = sessionIDToIndex srv"
  "sessionID (store (resumeSession now cb r srv) r') = sessionID (store srv r')"
  "has_downstreamPackets (store (resumeSession now cb r srv) r)"
  "checkAllowedTCPPortFunc (session (store (resumeSession now cb r srv) r)) = Some (allowed_tcp cb)"
  "checkAllowedUDPPortFunc (session (store (resumeSession now cb r srv) r)) = Some (allowed_udp cb)"
  by (simp_all add: resumeSession_def touch_def)

lemma interruptSession_maps [simp]:
  "indexToSession (interruptSession r srv) = indexToSession srv" "sessionIDToIndex (interruptSession r srv) = sessionIDToIndex srv"
  "sessionID (store (interruptSession r srv) r') = sessionID (store srv r')"
  by (simp_all add: interruptSession_def)

lemma allocate_loop_dom:
  "finite (dom (indexToSession srv)) \<Longrightarrow> finite (dom (indexToSession (snd (allocate_loop tries clock idleExpiry new i srv))))"
  by (induction tries clock idleExpiry new i srv rule: allocate_loop.induct)
     (auto simp: acquire_index_fields split: option.splits)

lemma ClientConnected_ok:
  assumes ok: "server_ok srv" and start: "0 \<le> start_index ch" "start_index ch \<le> 0x00FFFFFF"
  shows "server_ok (snd (ClientConnected cfg clock ch x cb srv))"
    "fst (ClientConnected cfg clock ch x cb srv) \<Longrightarrow> \<exists>r. getSession x (snd (ClientConnected cfg clock ch x cb srv)) = Some r \<and>
       has_downstreamPackets (store (snd (ClientConnected cfg clock ch x cb srv)) r) \<and>
       checkAllowedTCPPortFunc (session (store (snd (ClientConnected cfg clock ch x cb srv)) r)) = Some (allowed_tcp cb) \<and>
       checkAllowedUDPPortFunc (session (store (snd (ClientConnected cfg clock ch x cb srv)) r)) = Some (allowed_udp cb)"
proof -
  have "server_ok (snd (ClientConnected cfg clock ch x cb srv)) \<and>
    (fst (ClientConnected cfg clock ch x cb srv) \<longrightarrow> (\<exists>r. getSession x (snd (ClientConnected cfg clock ch x cb srv)) = Some r \<and>
       has_downstreamPackets (store (snd (ClientConnected cfg clock ch x cb srv)) r) \<and>
       checkAllowedTCPPortFunc (session (store (snd (ClientConnected cfg clock ch x cb srv)) r)) = Some (allowed_tcp cb) \<and>
       checkAllowedUDPPortFunc (session (store (snd (ClientConnected cfg clock ch x cb srv)) r)) = Some (allowed_udp cb)))"
  proof (cases "getSession x srv")
    case (Some r)
    then show ?thesis using ok by (auto simp: ClientConnected_def getSession_def)
  next
    case None
    note new = with_new_ok [OF ok None, of cfg clock ch]
    obtain found srv2 where al: "allocateIndex clock (start_index ch) (sessionIdleExpiry cfg) (next_session srv) (with_new cfg clock ch x srv) = (found, srv2)"
      by fastforce
    note al' = allocate_loop_ok [OF new start(2) al [unfolded allocateIndex_def]]
    have run: "ClientConnected cfg clock ch x cb srv = (if found then (True, resumeSession (clock 0) cb (next_session srv) srv2) else (False, srv2))"
      using None al by (simp add: ClientConnected_def with_new_def Let_def)
    have "getSession x srv2 = Some (next_session srv)" if found
    proof -
      obtain j where j: "indexToSession srv2 j = Some (next_session srv)" using al' \<open>found\<close> by blast
      have "sessionID (store srv2 (next_session srv)) = x" using al' by (simp add: with_new_def new_session_def)
      then have "sessionIDToIndex srv2 x = Some j" using server_okD(1) [OF _ j] al' by (simp add: entry_ok_def)
      then show ?thesis using j by (simp add: getSession_def)
    qed
    then show ?thesis using al' by (auto simp: run getSession_def)
  qed
  then show "server_ok (snd (ClientConnected cfg clock ch x cb srv))"
    "fst (ClientConnected cfg clock ch x cb srv) \<Longrightarrow> \<exists>r. getSession x (snd (ClientConnected cfg clock ch x cb srv)) = Some r \<and>
       has_downstreamPackets (store (snd (ClientConnected cfg clock ch x cb srv)) r) \<and>
       checkAllowedTCPPortFunc (session (store (snd (ClientConnected cfg clock ch x cb srv)) r)) = Some (allowed_tcp cb) \<and>
       checkAllowedUDPPortFunc (session (store (snd (ClientConnected cfg clock ch x cb srv)) r)) = Some (allowed_udp cb)" by blast+
qed


section \<open>Reachable servers\<close>

inductive server_reached :: "tun_env \<Rightarrow> server_config \<Rightarrow> tun_server \<Rightarrow> bool" for env cfg where
  server_start: "server_reached env cfg (server_init junk m)"
| client_connects: "server_reached env cfg srv \<Longrightarrow> 0 \<le> start_index ch \<Longrightarrow> start_index ch \<le> 0x00FFFFFF \<Longrightarrow>
    ClientConnected cfg clock ch x cb srv = (found, srv') \<Longrightarrow> server_reached env cfg srv'"
| client_disconnects: "server_reached env cfg srv \<Longrightarrow> server_reached env cfg (ClientDisconnected x srv)"
| session_reaped: "server_reached env cfg srv \<Longrightarrow> indexToSession srv i = Some r \<Longrightarrow> server_reached env cfg (reap_session cfg now r srv)"
| packet_up: "server_reached env cfg srv \<Longrightarrow> indexToSession srv i = Some r \<Longrightarrow> runClientUpstream env now clock r p srv = Some (out, srv') \<Longrightarrow>
    server_reached env cfg srv'"
| packet_down: "server_reached env cfg srv \<Longrightarrow> runDeviceDownstream env clock p srv = Some (res, srv') \<Longrightarrow> server_reached env cfg srv'"

lemma ClientConnected_dom:
  assumes "finite (dom (indexToSession srv))"
  shows "finite (dom (indexToSession (snd (ClientConnected cfg clock ch x cb srv))))"
proof (cases "getSession x srv")
  case (Some r)
  then show ?thesis using assms by (simp add: ClientConnected_def)
next
  case None
  let ?srv1 = "with_new cfg clock ch x srv"
  have "finite (dom (indexToSession ?srv1))" using assms by (simp add: with_new_def)
  from allocate_loop_dom [OF this, of 100000 clock "sessionIdleExpiry cfg" "next_session srv" "start_index ch"]
  show ?thesis using None by (auto simp: ClientConnected_def allocateIndex_def with_new_def Let_def split: bool.splits prod.splits)
qed

lemma server_reached_ok: "server_reached env cfg srv \<Longrightarrow> server_ok srv \<and> finite (dom (indexToSession srv))"
proof (induction rule: server_reached.induct)
  case (server_start junk m)
  then show ?case by (simp add: server_init_ok) (simp add: server_init_def)
next
  case (client_connects srv ch clock x cb found srv')
  then show ?case using ClientConnected_ok(1) [of srv ch cfg clock x cb] ClientConnected_dom [of srv cfg clock ch x cb] by simp
next
  case (client_disconnects srv x)
  then show ?case by (auto simp: ClientDisconnected_def split: option.splits)
next
  case (session_reaped srv i r now)
  moreover have "finite (dom (indexToSession (removeSession now r srv)))"
    using session_reaped.IH by (simp only: removeSession_fields(2) dom_fun_upd) simp
  ultimately show ?case using removeSession_ok by (simp add: reap_session_def)
next
  case (packet_up srv i r now clock p out srv')
  then show ?case using runClientUpstream_ok by metis
next
  case (packet_down srv clock p res srv')
  then show ?case using runDeviceDownstream_ok by metis
qed

lemma entry_addresses:
  assumes "entry_ok srv i r"
  shows "convertIPAddressToIndex (assignedIPv4Address (session (store srv r))) = i"
    "convertIPAddressToIndex (assignedIPv6Address (session (store srv r))) = i"
    "length (assignedIPv4Address (session (store srv r))) = 4" "length (assignedIPv6Address (session (store srv r))) = 16"
  using assms index_round_trip [of i] by (auto simp: entry_ok_def assigned_v4_def convertIndexToIPv6Address_def)


lemma ClientConnected_succeeds:
  assumes "server_reached env cfg srv" "card (dom (indexToSession srv)) \<le> 99995" "0 \<le> start_index ch" "start_index ch \<le> 0x00FFFFFF"
  shows "\<exists>srv' r. ClientConnected cfg clock ch x cb srv = (True, srv') \<and> getSession x srv' = Some r \<and>
    has_downstreamPackets (store srv' r) \<and> checkAllowedTCPPortFunc (session (store srv' r)) = Some (allowed_tcp cb) \<and>
    checkAllowedUDPPortFunc (session (store srv' r)) = Some (allowed_udp cb)"
proof -
  have ok: "server_ok srv" "finite (dom (indexToSession srv))" using server_reached_ok [OF assms(1)] by auto
  have found: "fst (ClientConnected cfg clock ch x cb srv)"
  proof (cases "getSession x srv")
    case None
    let ?srv1 = "with_new cfg clock ch x srv"
    have "fst (allocate_loop 100000 clock (sessionIdleExpiry cfg) (next_session srv) (start_index ch) ?srv1)"
    proof (rule allocate_loop_succeeds)
      show "finite (dom (indexToSession ?srv1))" "card (dom (indexToSession ?srv1)) + 4 < 100000" using ok assms(2) by (simp_all add: with_new_def)
      fix i r assume "indexToSession ?srv1 i = Some r"
      then show "index (store ?srv1 r) = i" using server_okD(1) [OF with_new_ok(1) [OF ok(1) None]] by (simp add: entry_ok_def)
    qed (use assms in simp_all)
    then obtain srv2 where "allocate_loop 100000 clock (sessionIdleExpiry cfg) (next_session srv) (start_index ch) ?srv1 = (True, srv2)"
      by (metis prod.collapse)
    then show ?thesis using None by (simp add: ClientConnected_def allocateIndex_def with_new_def Let_def)
  qed (simp add: ClientConnected_def)
  from ClientConnected_ok(2) [OF ok(1) assms(3,4) found] found show ?thesis by (metis prod.collapse)
qed

text \<open>
  C37: a client that connects gets a session, with its own callbacks and a queue for its packets, whenever the server has at most
  99,995 sessions, expired ones included, wherever the search for an index begins: the bound of 100,000 tries is only exhausted
  when all the indices tried are in use, but for the four reserved ones.
\<close>

theorem client_gets_session:
  assumes "server_reached env cfg srv" "card (dom (indexToSession srv)) \<le> 99995" "0 \<le> start_index ch" "start_index ch \<le> 0x00FFFFFF"
  shows "\<exists>srv' r. ClientConnected cfg clock ch x cb srv = (True, srv') \<and> getSession x srv' = Some r \<and>
    has_downstreamPackets (store srv' r) \<and> checkAllowedTCPPortFunc (session (store srv' r)) = Some (allowed_tcp cb) \<and>
    checkAllowedUDPPortFunc (session (store srv' r)) = Some (allowed_udp cb)"
  using ClientConnected_succeeds [OF assms] .


lemma client_gets_session_witness:
  "\<exists>srv' r. ClientConnected \<lparr>SessionIdleExpirySeconds = 0, AllowBogons = False, EnableDNSFlowTracking = False,
       GetDNSResolverIPv4Addresses = [], GetDNSResolverIPv6Addresses = []\<rparr> (\<lambda>n. 0) \<lparr>start_index = 0, resolver4 = 0, resolver6 = 0\<rparr> ''a''
       \<lparr>allowed_tcp = \<lambda>ip port. True, allowed_udp = \<lambda>ip port. True, allowed_domain = \<lambda>d. True, updater_maker = \<lambda>b h ip. []\<rparr>
       (server_init (\<lambda>n. undefined) no_packets) = (True, srv') \<and> getSession ''a'' srv' = Some r"
  using client_gets_session [OF server_start, of "\<lambda>n. undefined" no_packets "\<lparr>start_index = 0, resolver4 = 0, resolver6 = 0\<rparr>"]
  by (fastforce simp: server_init_def)

section \<open>Replies\<close>

lemma destination_of_parsed:
  assumes "parse_packet q = Inr k"
  shows "getPacketDestinationIPAddress q = Inr (destinationIPAddress k q)"
  using assms by (auto simp: parse_packet_def parse_transport_def getPacketDestinationIPAddress_def destinationIPAddress_def Let_def split: if_splits)


section \<open>Concurrent removals\<close>

text \<open>
  C39: two removals of an expired session can lose another session. When the reaper has deleted the ID of an expired session and, before it
  deletes the index, a connecting client's search removes that session and takes the index for a new one, then the reaper's deletion of the
  index takes out the new session: its ID leads to no session any more, and packets to its addresses are rejected.
\<close>

theorem stale_removal_drops_session:
  assumes "server_reached env cfg srv" "indexToSession srv i = Some old" "getSession x srv = None"
  shows "\<exists>new srv'. remove_index old (acquire_index new i (removeSession now old (remove_id old (with_new cfg clock ch x srv)))) = srv' \<and>
    sessionID (store srv' new) = x \<and> index (store srv' new) = i \<and> sessionIDToIndex srv' x = Some i \<and> getSession x srv' = None \<and>
    runDeviceDownstream env clock' q srv' =
      (case getPacketDestinationIPAddress q of Inl reason \<Rightarrow> Some (None, count_orphan reason srv')
       | Inr ip \<Rightarrow> if convertIPAddressToIndex ip = i then Some (None, count_orphan RejectNoSession srv') else runDeviceDownstream env clock' q srv')"
proof -
  have e: "entry_ok srv i old" using server_reached_ok [OF assms(1)] server_okD(1) assms(2) by blast
  let ?new = "next_session srv"
  let ?srv' = "remove_index old (acquire_index ?new i (removeSession now old (remove_id old (with_new cfg clock ch x srv))))"
  have old: "old \<noteq> ?new" "index (store srv old) = i" using e by (auto simp: entry_ok_def)
  have id: "sessionID (store (removeSession now old (remove_id old (with_new cfg clock ch x srv))) ?new) = x"
    by (simp add: remove_id_def with_new_def new_session_def)
  have idx: "index (store (acquire_index ?new i (removeSession now old (remove_id old (with_new cfg clock ch x srv)))) old) = i"
    using old by (simp add: acquire_index_fields removeSession_def delete_session_flows_def interruptSession_def remove_id_def remove_index_def with_new_def)
  have gone: "indexToSession ?srv' i = None" using idx by (simp add: remove_index_def)
  have "sessionID (store ?srv' ?new) = x" "index (store ?srv' ?new) = i" "sessionIDToIndex ?srv' x = Some i"
    using id by (simp_all add: remove_index_def acquire_index_fields)
  moreover from this gone have "getSession x ?srv' = None" by (simp add: getSession_def)
  ultimately show ?thesis using gone by (intro exI [of _ ?new] exI [of _ ?srv']) (simp add: runDeviceDownstream_def split: sum.splits)
qed


section \<open>A server with one client\<close>

definition web_config :: server_config where
  "web_config = \<lparr>SessionIdleExpirySeconds = 0, AllowBogons = False, EnableDNSFlowTracking = False,
     GetDNSResolverIPv4Addresses = [[8, 8, 8, 8]], GetDNSResolverIPv6Addresses = []\<rparr>"

definition web_callbacks :: client_callbacks where
  "web_callbacks = \<lparr>allowed_tcp = \<lambda>ip port. port = 443, allowed_udp = \<lambda>ip port. port = 443, allowed_domain = \<lambda>domain. True,
     updater_maker = \<lambda>tcp host ip. [7]\<rparr>"

definition no_clients :: tun_server where
  "no_clients = server_init (\<lambda>n. new_session web_config [] 0 0 0) no_packets"

definition one_client :: tun_server where
  "one_client = snd (ClientConnected web_config (\<lambda>n. 0) \<lparr>start_index = 5, resolver4 = 0, resolver6 = 0\<rparr> ''a'' web_callbacks no_clients)"

lemma allocate_free:
  "0 < tries \<Longrightarrow> 2 < i \<Longrightarrow> i \<noteq> 0x00FFFFFF \<Longrightarrow> indexToSession srv i = None \<Longrightarrow>
    allocate_loop tries clock idleExpiry new i srv = (True, acquire_index new i srv)"
  by (cases tries) auto

lemma To4_resolver: "To4 [8, 8, 8, 8] = Some [8, 8, 8, 8]"
  by (simp add: To4_def)

lemma one_client_session:
  "indexToSession one_client 5 = Some 0" "sessionID (store one_client 0) = ''a''" "has_downstreamPackets (store one_client 0)"
  "session (store one_client 0) = web_only\<lparr>assignedIPv6Address := convertIndexToIPv6Address 5\<rparr>"
  "session_metrics (store one_client 0) = no_packets" "lastActivity (store one_client 0) = 0"
  by (simp_all add: one_client_def no_clients_def server_init_def ClientConnected_def getSession_def allocateIndex_def allocate_free
      acquire_index_def resumeSession_def touch_def new_session_def web_config_def web_callbacks_def web_only_def Let_def
      assigned_v4 assigned_v4_def byte_of_def To4_resolver)

lemma one_client_reached: "server_reached first_choice web_config one_client"
  unfolding one_client_def no_clients_def
  by (rule client_connects [OF server_start, of "\<lparr>start_index = 5, resolver4 = 0, resolver6 = 0\<rparr>"]) (simp_all add: prod_eq_iff)


lemma one_client_request:
  "map_option (\<lambda>r. (relayed r, out_packet r)) (processPacket first_choice (\<lambda>i. 5) no_client_dns ServerUpstream web_request
     (web_only\<lparr>assignedIPv6Address := convertIndexToIPv6Address 5\<rparr>) no_packets) =
   Some (True, udp4 [10, 0, 0, 5] 5000 [1, 1, 1, 1] 443 [0x6e, 0xca] [0xb4, 0x92])"
  by code_simp

lemma one_client_exchange:
  "transparent_dns first_choice (web_only\<lparr>assignedIPv6Address := convertIndexToIPv6Address 5\<rparr>) no_client_dns ServerUpstream udp4_layout web_request = Some (Inr False)"
  "transparent_dns first_choice (web_only\<lparr>assignedIPv6Address := convertIndexToIPv6Address 5\<rparr>) no_client_dns ServerDownstream udp4_layout web_reply = Some (Inr False)"
  by code_simp+


lemma stale_removal_drops_session_witness:
  "\<exists>new srv'. remove_index 0 (acquire_index new 5 (removeSession 0 0 (remove_id 0 (with_new web_config (\<lambda>n. 0)
       \<lparr>start_index = 5, resolver4 = 0, resolver6 = 0\<rparr> ''b'' one_client)))) = srv' \<and>
     sessionIDToIndex srv' ''b'' = Some 5 \<and> getSession ''b'' srv' = None"
proof -
  have "getSession ''b'' one_client = None"
  proof (rule ccontr)
    assume "getSession ''b'' one_client \<noteq> None"
    then obtain i r where ir: "sessionIDToIndex one_client ''b'' = Some i" "indexToSession one_client i = Some r"
      by (auto simp: getSession_def bind_eq_Some_conv)
    then show False
      by (simp add: one_client_def no_clients_def server_init_def ClientConnected_def getSession_def allocateIndex_def allocate_free
          acquire_index_def new_session_def Let_def)
  qed
  from stale_removal_drops_session [OF one_client_reached one_client_session(1) this,
      where clock = "\<lambda>n. 0" and ch = "\<lparr>start_index = 5, resolver4 = 0, resolver6 = 0\<rparr>" and now = 0]
  show ?thesis by blast
qed

end
