(* ===== verification/TunChannel.thy ===== *)
theory TunChannel
  imports Bytes GoChan "HOL-Library.Sublist"
begin

text \<open>
  The packet tunnel's transport, \<open>PacketQueue\<close> and \<open>Channel\<close> of \<open>common/tun/tun.go\<close>: packets are framed
  with a 16-bit length into one of two buffers while the other is written to the transport.

  \<open>Enqueue\<close> and the dequeuing goroutine run concurrently. A state holds the channels of
  the queue and what each of the two goroutines holds, and a step is one channel operation or one write of a buffer; a write
  that fails delivers nothing. The stream is what the transport delivers.
\<close>

section \<open>Channels\<close>

definition channelHeaderSize :: nat where
  "channelHeaderSize = 2"

datatype channel_error = ChannelEOF | ChannelUnexpectedEOF | PacketExceedsMTU nat

record channel =
  inboundBuffer :: bytes
  outboundBuffer :: bytes

definition NewChannel :: "nat \<Rightarrow> channel" where
  "NewChannel MTU = \<lparr>inboundBuffer = replicate (channelHeaderSize + MTU) 0, outboundBuffer = replicate (channelHeaderSize + MTU) 0\<rparr>"

text \<open>\<open>io.ReadFull\<close> into the buffer at an offset: its error, the rest of the stream, and the buffer\<close>

definition read_full :: "bytes \<Rightarrow> nat \<Rightarrow> nat \<Rightarrow> bytes \<Rightarrow> channel_error option \<times> bytes \<times> bytes" where
  "read_full strm at n buffer =
    (if n \<le> length strm then (None, drop n strm, put at (take n strm) buffer)
     else (Some (if strm = [] then ChannelEOF else ChannelUnexpectedEOF), [], put at strm buffer))"

definition ReadPacket :: "bytes \<Rightarrow> channel \<Rightarrow> (channel_error + bytes) \<times> bytes \<times> channel" where
  "ReadPacket strm ch =
    (case read_full strm 0 channelHeaderSize (inboundBuffer ch) of
       (Some e, rest, buffer) \<Rightarrow> (Inl e, rest, ch\<lparr>inboundBuffer := buffer\<rparr>)
     | (None, rest, buffer) \<Rightarrow>
        (let size = unat (of_be16 (slice_of buffer 0 channelHeaderSize))
         in if size > length buffer - channelHeaderSize then (Inl (PacketExceedsMTU size), rest, ch\<lparr>inboundBuffer := buffer\<rparr>)
            else (case read_full rest channelHeaderSize size buffer of
                (Some e, rest', buffer') \<Rightarrow> (Inl e, rest', ch\<lparr>inboundBuffer := buffer'\<rparr>)
              | (None, rest', buffer') \<Rightarrow>
                  (Inr (slice_of buffer' channelHeaderSize (channelHeaderSize + size)), rest', ch\<lparr>inboundBuffer := buffer'\<rparr>))))"

text \<open>What is written to the transport; \<open>None\<close> is the panic on a packet longer than the buffer.\<close>

definition WritePacket :: "bytes \<Rightarrow> channel \<Rightarrow> (bytes \<times> channel) option" where
  "WritePacket pkt ch =
    (let size = length pkt;
         buffer = put 0 (be16 (of_nat size)) (outboundBuffer ch);
         buffer' = put channelHeaderSize (take (length buffer - channelHeaderSize) pkt) buffer
     in if channelHeaderSize + size \<le> length buffer'
        then Some (take (channelHeaderSize + size) buffer', ch\<lparr>outboundBuffer := buffer'\<rparr>) else None)"

lemma ReadPacket_shorter: "ReadPacket strm ch = (Inr p, rest, ch') \<Longrightarrow> length rest < length strm"
  by (auto simp: ReadPacket_def read_full_def channelHeaderSize_def Let_def split: if_splits)

text \<open>The loop of a reader, up to the first error\<close>

function read_packets :: "bytes \<Rightarrow> channel \<Rightarrow> bytes list \<times> channel_error" where
  "read_packets strm ch = (case ReadPacket strm ch of
     (Inl e, _, _) \<Rightarrow> ([], e)
   | (Inr p, rest, ch') \<Rightarrow> (let (ps, e) = read_packets rest ch' in (p # ps, e)))"
  by pat_completeness auto

termination
  by (relation "measure (\<lambda>(strm, ch). length strm)") (auto dest!: ReadPacket_shorter [OF sym])

declare read_packets.simps [simp del]

section \<open>The packet queue\<close>

record packet_queue =
  maxSize :: int
  emptyBuffers :: "bytes chan"
  activeBuffer :: "bytes chan"

definition NewPacketQueue :: "int \<Rightarrow> packet_queue" where
  "NewPacketQueue limit = \<lparr>maxSize = limit, emptyBuffers = snd (try_send [] (snd (try_send [] (make_chan 2)))), activeBuffer = make_chan 1\<rparr>"

text \<open>The parts of \<open>Enqueue\<close>: the select, the wait of its default case, and the append. \<open>None\<close> is blocked.\<close>

definition take_active :: "packet_queue \<Rightarrow> bytes option \<times> packet_queue" where
  "take_active q = (case try_recv (activeBuffer q) of (b, c) \<Rightarrow> (b, q\<lparr>activeBuffer := c\<rparr>))"

definition take_empty :: "packet_queue \<Rightarrow> (bytes \<times> packet_queue) option" where
  "take_empty q = (case try_recv (emptyBuffers q) of (Some b, c) \<Rightarrow> Some (b, q\<lparr>emptyBuffers := c\<rparr>) | (None, _) \<Rightarrow> None)"

definition has_room :: "packet_queue \<Rightarrow> bytes \<Rightarrow> bytes \<Rightarrow> bool" where
  "has_room q pkt buffer \<longleftrightarrow> maxSize q - int (length buffer) \<ge> int (channelHeaderSize + length pkt)"

definition append_framed :: "packet_queue \<Rightarrow> bytes \<Rightarrow> bytes \<Rightarrow> bytes" where
  "append_framed q pkt buffer = (if has_room q pkt buffer then buffer @ be16 (of_nat (length pkt)) @ pkt else buffer)"

definition put_active :: "bytes \<Rightarrow> packet_queue \<Rightarrow> packet_queue option" where
  "put_active buffer q = map_option (\<lambda>c. q\<lparr>activeBuffer := c\<rparr>) (send buffer (activeBuffer q))"

definition DequeueFramedPackets :: "packet_queue \<Rightarrow> (bytes \<times> packet_queue) option" where
  "DequeueFramedPackets q = (case try_recv (activeBuffer q) of (Some b, c) \<Rightarrow> Some (b, q\<lparr>activeBuffer := c\<rparr>) | (None, _) \<Rightarrow> None)"

definition Replace :: "bytes \<Rightarrow> packet_queue \<Rightarrow> packet_queue option" where
  "Replace buffer q = map_option (\<lambda>c. q\<lparr>emptyBuffers := c\<rparr>) (send [] (emptyBuffers q))"

section \<open>The queue at work\<close>

datatype enqueuer = EnqIdle | EnqWaiting bytes | EnqHolding bytes bytes
datatype dequeuer = DeqIdle | DeqHolding bytes | DeqReplacing bytes

text \<open>The last three fields are the history: the packets that were enqueued, whether any was dropped, and the stream.\<close>

record queue_sys =
  queue :: packet_queue
  enq :: enqueuer
  deq :: dequeuer
  offered :: "bytes list"
  dropped :: bool
  delivered :: bytes

datatype queue_action = EnqueueStart bytes | EnqueueWait | EnqueueEnd | Dequeue | WriteBuffer | LoseBuffer | ReplaceBuffer

definition queue_init :: "int \<Rightarrow> queue_sys" where
  "queue_init limit = \<lparr>queue = NewPacketQueue limit, enq = EnqIdle, deq = DeqIdle, offered = [], dropped = False, delivered = []\<rparr>"

text \<open>A buffer is lost when its write fails and when the client is dropping traffic.\<close>

fun queue_step :: "queue_action \<Rightarrow> queue_sys \<Rightarrow> queue_sys option" where
  "queue_step (EnqueueStart p) s = (case enq s of
     EnqIdle \<Rightarrow> (case take_active (queue s) of
         (Some b, q) \<Rightarrow> Some (s\<lparr>queue := q, enq := EnqHolding p b, offered := offered s @ [p]\<rparr>)
       | (None, q) \<Rightarrow> Some (s\<lparr>queue := q, enq := EnqWaiting p, offered := offered s @ [p]\<rparr>))
   | _ \<Rightarrow> None)"
| "queue_step EnqueueWait s = (case enq s of
     EnqWaiting p \<Rightarrow> map_option (\<lambda>(b, q). s\<lparr>queue := q, enq := EnqHolding p b\<rparr>) (take_empty (queue s))
   | _ \<Rightarrow> None)"
| "queue_step EnqueueEnd s = (case enq s of
     EnqHolding p b \<Rightarrow> map_option (\<lambda>q. s\<lparr>queue := q, enq := EnqIdle, dropped := dropped s \<or> \<not> has_room (queue s) p b\<rparr>)
       (put_active (append_framed (queue s) p b) (queue s))
   | _ \<Rightarrow> None)"
| "queue_step Dequeue s = (case deq s of
     DeqIdle \<Rightarrow> map_option (\<lambda>(b, q). s\<lparr>queue := q, deq := DeqHolding b\<rparr>) (DequeueFramedPackets (queue s))
   | _ \<Rightarrow> None)"
| "queue_step WriteBuffer s = (case deq s of
     DeqHolding b \<Rightarrow> Some (s\<lparr>deq := DeqReplacing b, delivered := delivered s @ b\<rparr>) | _ \<Rightarrow> None)"
| "queue_step LoseBuffer s = (case deq s of
     DeqHolding b \<Rightarrow> Some (s\<lparr>deq := DeqReplacing b, dropped := True\<rparr>) | _ \<Rightarrow> None)"
| "queue_step ReplaceBuffer s = (case deq s of
     DeqReplacing b \<Rightarrow> map_option (\<lambda>q. s\<lparr>queue := q, deq := DeqIdle\<rparr>) (Replace b (queue s))
   | _ \<Rightarrow> None)"

inductive queue_reached :: "int \<Rightarrow> queue_sys \<Rightarrow> bool" for limit where
  queue_start: "queue_reached limit (queue_init limit)"
| queue_next: "queue_reached limit s \<Longrightarrow> queue_step a s = Some s' \<Longrightarrow> queue_reached limit s'"


section \<open>The two buffers\<close>

definition queue_inv :: "int \<Rightarrow> queue_sys \<Rightarrow> bool" where
  "queue_inv limit s \<longleftrightarrow> maxSize (queue s) = limit \<and>
    chan_cap (emptyBuffers (queue s)) = 2 \<and> chan_cap (activeBuffer (queue s)) = 1 \<and>
    length (chan_queue (emptyBuffers (queue s))) + length (chan_queue (activeBuffer (queue s))) +
      (case enq s of EnqHolding _ _ \<Rightarrow> 1 | _ \<Rightarrow> 0) + (case deq s of DeqIdle \<Rightarrow> 0 | _ \<Rightarrow> 1) = 2 \<and>
    length (chan_queue (activeBuffer (queue s))) \<le> 1 \<and>
    (enq s \<noteq> EnqIdle \<longrightarrow> chan_queue (activeBuffer (queue s)) = []) \<and>
    set (chan_queue (emptyBuffers (queue s))) \<subseteq> {[]} \<and>
    (\<forall>b \<in> set (chan_queue (activeBuffer (queue s))) \<union> (case enq s of EnqHolding _ b \<Rightarrow> {b} | _ \<Rightarrow> {}) \<union>
        (case deq s of DeqIdle \<Rightarrow> {} | DeqHolding b \<Rightarrow> {b} | DeqReplacing b \<Rightarrow> {b}). b = [] \<or> int (length b) \<le> limit)"

lemmas queue_op_defs = take_active_def take_empty_def put_active_def DequeueFramedPackets_def Replace_def try_recv_def send_def try_send_def

lemma queue_inv_init: "queue_inv limit (queue_init limit)"
  by (simp add: queue_inv_def queue_init_def NewPacketQueue_def try_send_def make_chan_def)

lemma append_framed_bound:
  "b = [] \<or> int (length b) \<le> maxSize q \<Longrightarrow> append_framed q p b = [] \<or> int (length (append_framed q p b)) \<le> maxSize q"
  by (auto simp: append_framed_def has_room_def channelHeaderSize_def)

text \<open>What each step needs and does\<close>

definition set_active :: "bytes list \<Rightarrow> packet_queue \<Rightarrow> packet_queue" where
  "set_active bs q = q\<lparr>activeBuffer := (activeBuffer q)\<lparr>chan_queue := bs\<rparr>\<rparr>"

definition set_empty :: "bytes list \<Rightarrow> packet_queue \<Rightarrow> packet_queue" where
  "set_empty bs q = q\<lparr>emptyBuffers := (emptyBuffers q)\<lparr>chan_queue := bs\<rparr>\<rparr>"

lemma set_active_simps [simp]:
  "maxSize (set_active bs q) = maxSize q" "emptyBuffers (set_active bs q) = emptyBuffers q"
  "chan_queue (activeBuffer (set_active bs q)) = bs" "chan_cap (activeBuffer (set_active bs q)) = chan_cap (activeBuffer q)"
  "maxSize (set_empty bs q) = maxSize q" "activeBuffer (set_empty bs q) = activeBuffer q"
  "chan_queue (emptyBuffers (set_empty bs q)) = bs" "chan_cap (emptyBuffers (set_empty bs q)) = chan_cap (emptyBuffers q)"
  by (simp_all add: set_active_def set_empty_def)

lemma queue_step_cases [consumes 1, case_names StartActive StartEmpty Wait End Dequeue Write Lose Replace]:
  assumes "queue_step a s = Some s'"
  obtains (StartActive) p b bs where "enq s = EnqIdle" "chan_queue (activeBuffer (queue s)) = b # bs"
      "s' = s\<lparr>queue := set_active bs (queue s), enq := EnqHolding p b, offered := offered s @ [p]\<rparr>"
  | (StartEmpty) p where "enq s = EnqIdle" "chan_queue (activeBuffer (queue s)) = []"
      "s' = s\<lparr>enq := EnqWaiting p, offered := offered s @ [p]\<rparr>"
  | (Wait) p b bs where "enq s = EnqWaiting p" "chan_queue (emptyBuffers (queue s)) = b # bs"
      "s' = s\<lparr>queue := set_empty bs (queue s), enq := EnqHolding p b\<rparr>"
  | (End) p b where "enq s = EnqHolding p b" "length (chan_queue (activeBuffer (queue s))) < chan_cap (activeBuffer (queue s))"
      "s' = s\<lparr>queue := set_active (chan_queue (activeBuffer (queue s)) @ [append_framed (queue s) p b]) (queue s), enq := EnqIdle,
         dropped := dropped s \<or> \<not> has_room (queue s) p b\<rparr>"
  | (Dequeue) b bs where "deq s = DeqIdle" "chan_queue (activeBuffer (queue s)) = b # bs"
      "s' = s\<lparr>queue := set_active bs (queue s), deq := DeqHolding b\<rparr>"
  | (Write) b where "deq s = DeqHolding b" "s' = s\<lparr>deq := DeqReplacing b, delivered := delivered s @ b\<rparr>"
  | (Lose) b where "deq s = DeqHolding b" "s' = s\<lparr>deq := DeqReplacing b, dropped := True\<rparr>"
  | (Replace) b where "deq s = DeqReplacing b" "length (chan_queue (emptyBuffers (queue s))) < chan_cap (emptyBuffers (queue s))"
      "s' = s\<lparr>queue := set_empty (chan_queue (emptyBuffers (queue s)) @ [[]]) (queue s), deq := DeqIdle\<rparr>"
proof (cases a)
  case (EnqueueStart p)
  then have "enq s = EnqIdle" using assms by (auto split: enqueuer.splits)
  then show ?thesis using that(1,2) assms EnqueueStart
    by (cases "chan_queue (activeBuffer (queue s))") (auto simp: take_active_def try_recv_def set_active_def)
next
  case EnqueueWait
  then obtain p where "enq s = EnqWaiting p" using assms by (auto split: enqueuer.splits)
  then show ?thesis using that(3) assms EnqueueWait
    by (cases "chan_queue (emptyBuffers (queue s))") (auto simp: take_empty_def try_recv_def set_empty_def)
next
  case EnqueueEnd
  then obtain p b where "enq s = EnqHolding p b" using assms by (auto split: enqueuer.splits)
  then show ?thesis using that(4) assms EnqueueEnd by (auto simp: put_active_def send_def try_send_def set_active_def split: if_splits)
next
  case Dequeue
  then have "deq s = DeqIdle" using assms by (auto split: dequeuer.splits)
  then show ?thesis using that(5) assms Dequeue
    by (cases "chan_queue (activeBuffer (queue s))") (auto simp: DequeueFramedPackets_def try_recv_def set_active_def)
next
  case WriteBuffer
  then show ?thesis using that(6) assms by (auto split: dequeuer.splits)
next
  case LoseBuffer
  then show ?thesis using that(7) assms by (auto split: dequeuer.splits)
next
  case ReplaceBuffer
  then obtain b where "deq s = DeqReplacing b" using assms by (auto split: dequeuer.splits)
  then show ?thesis using that(8) assms ReplaceBuffer by (auto simp: Replace_def send_def try_send_def set_empty_def split: if_splits)
qed

lemma queue_inv_step:
  assumes inv: "queue_inv limit s" and step: "queue_step a s = Some s'"
  shows "queue_inv limit s'"
  using step
proof (cases rule: queue_step_cases)
  case (End p b)
  have "append_framed (queue s) p b = [] \<or> int (length (append_framed (queue s) p b)) \<le> limit"
    using append_framed_bound [of b "queue s" p] inv End by (simp add: queue_inv_def)
  then show ?thesis using inv End by (auto simp: queue_inv_def)
qed (use inv in \<open>auto simp: queue_inv_def split: dequeuer.splits enqueuer.splits\<close>)

lemma queue_reached_inv: "queue_reached limit s \<Longrightarrow> queue_inv limit s"
  by (induction rule: queue_reached.induct) (use queue_inv_init queue_inv_step in blast)+

text \<open>
  C34: in every state that a packet queue reaches, with packets being enqueued while others are being dequeued and written,
  neither the wait of \<open>Enqueue\<close> for an empty buffer nor its final send nor \<open>Replace\<close> blocks, so that the loop that
  reads the tun device never waits for a client; there are two buffers in all, in the queue and in the hands of
  the two goroutines, and none grows beyond the maximum size.
\<close>

theorem enqueue_never_blocks:
  assumes "queue_reached limit s"
  shows "(case enq s of EnqIdle \<Rightarrow> True | EnqWaiting p \<Rightarrow> queue_step EnqueueWait s \<noteq> None | EnqHolding p b \<Rightarrow> queue_step EnqueueEnd s \<noteq> None) \<and>
    (case deq s of DeqReplacing b \<Rightarrow> queue_step ReplaceBuffer s \<noteq> None | _ \<Rightarrow> True) \<and>
    length (chan_queue (emptyBuffers (queue s)) @ chan_queue (activeBuffer (queue s))) +
      (case enq s of EnqHolding _ _ \<Rightarrow> 1 | _ \<Rightarrow> 0) + (case deq s of DeqIdle \<Rightarrow> 0 | _ \<Rightarrow> 1) = 2 \<and>
    (\<forall>b. b \<in> set (chan_queue (activeBuffer (queue s))) \<or> deq s = DeqHolding b \<longrightarrow> b = [] \<or> int (length b) \<le> limit)"
  using queue_reached_inv [OF assms]
  by (auto simp: queue_inv_def queue_op_defs split: enqueuer.splits dequeuer.splits list.splits)

section \<open>The stream\<close>

definition framed :: "bytes list \<Rightarrow> bytes" where
  "framed ps = concat (map (\<lambda>p. be16 (of_nat (length p)) @ p) ps)"

lemma framed_simps [simp]: "framed [] = []" "framed (p # ps) = be16 (of_nat (length p)) @ p @ framed ps"
  "framed (xs @ ys) = framed xs @ framed ys"
  by (simp_all add: framed_def)

lemma framed_empty: "framed ps = [] \<longleftrightarrow> ps = []"
  by (cases ps) (simp_all add: be16_def)

text \<open>What is delivered, about to be written, and still in the queue\<close>

definition stream_inv :: "queue_sys \<Rightarrow> bool" where
  "stream_inv s \<longleftrightarrow> (\<exists>ws ds qs old.
    offered s = old @ (case enq s of EnqIdle \<Rightarrow> [] | EnqWaiting p \<Rightarrow> [p] | EnqHolding p b \<Rightarrow> [p]) \<and>
    delivered s = framed ws \<and> (case deq s of DeqHolding b \<Rightarrow> b | _ \<Rightarrow> []) = framed ds \<and>
    concat (chan_queue (activeBuffer (queue s))) @ (case enq s of EnqHolding p b \<Rightarrow> b | _ \<Rightarrow> []) = framed qs \<and>
    subseq (ws @ ds @ qs) old \<and> (\<not> dropped s \<longrightarrow> ws @ ds @ qs = old))"


lemma framed_append: "has_room q p b \<Longrightarrow> b = framed qs \<Longrightarrow> append_framed q p b = framed (qs @ [p])"
  by (simp add: append_framed_def)

lemma stream_invI:
  assumes "offered s = old @ (case enq s of EnqIdle \<Rightarrow> [] | EnqWaiting p \<Rightarrow> [p] | EnqHolding p b \<Rightarrow> [p])"
    "delivered s = framed ws" "(case deq s of DeqHolding b \<Rightarrow> b | _ \<Rightarrow> []) = framed ds"
    "concat (chan_queue (activeBuffer (queue s))) @ (case enq s of EnqHolding p b \<Rightarrow> b | _ \<Rightarrow> []) = framed qs"
    "subseq (ws @ ds @ qs) old" "\<not> dropped s \<longrightarrow> ws @ ds @ qs = old"
  shows "stream_inv s"
  using assms unfolding stream_inv_def by blast

lemma stream_inv_step:
  assumes inv: "queue_inv limit s" and str: "stream_inv s" and step: "queue_step a s = Some s'"
  shows "stream_inv s'"
proof -
  obtain ws ds qs old where s:
    "offered s = old @ (case enq s of EnqIdle \<Rightarrow> [] | EnqWaiting p \<Rightarrow> [p] | EnqHolding p b \<Rightarrow> [p])"
    "delivered s = framed ws" "(case deq s of DeqHolding b \<Rightarrow> b | _ \<Rightarrow> []) = framed ds"
    "concat (chan_queue (activeBuffer (queue s))) @ (case enq s of EnqHolding p b \<Rightarrow> b | _ \<Rightarrow> []) = framed qs"
    "subseq (ws @ ds @ qs) old" "\<not> dropped s \<longrightarrow> ws @ ds @ qs = old"
    using str unfolding stream_inv_def by blast
  have act: "length (chan_queue (activeBuffer (queue s))) \<le> 1" "enq s \<noteq> EnqIdle \<longrightarrow> chan_queue (activeBuffer (queue s)) = []"
    "set (chan_queue (emptyBuffers (queue s))) \<subseteq> {[]}" using inv by (auto simp: queue_inv_def)
  show ?thesis using step
  proof (cases rule: queue_step_cases)
    case (StartActive p b bs)
    have "bs = []" using StartActive(2) act(1) by simp
    then show ?thesis using s(2-6) s(1,4) [unfolded StartActive(1,2)] unfolding StartActive(3)
      by (intro stream_invI [of _ old ws ds qs]) simp_all
  next
    case (StartEmpty p)
    then show ?thesis using s(2-6) s(1,4) [unfolded StartEmpty(1,2)] unfolding StartEmpty(3)
      by (intro stream_invI [of _ old ws ds qs]) simp_all
  next
    case (Wait p b bs)
    have "b = []" using Wait(2) act(3) by simp
    then show ?thesis using s(2,3,5,6) s(1,4) [unfolded Wait(1)] unfolding Wait(3)
      by (intro stream_invI [of _ old ws ds qs]) simp_all
  next
    case (End p b)
    have q: "chan_queue (activeBuffer (queue s)) = []" "b = framed qs" using End(1) act(2) s(4) by auto
    have old: "offered s = old @ [p]" using s(1) End(1) by simp
    show ?thesis
    proof (cases "has_room (queue s) p b")
      case True
      have "subseq ((ws @ ds @ qs) @ [p]) (old @ [p])" using s(5) subseq_append by blast
      then have "subseq (ws @ ds @ qs @ [p]) (old @ [p])" by simp
      moreover have "append_framed (queue s) p b = framed (qs @ [p])" by (rule framed_append [OF True q(2)])
      ultimately show ?thesis using s(2,3,6) q(1) old True unfolding End(3)
        by (intro stream_invI [of _ "old @ [p]" ws ds "qs @ [p]"]) auto
    next
      case False
      have "subseq (ws @ ds @ qs) (old @ [p])" using s(5) subseq_rev_drop_many by blast
      moreover have "append_framed (queue s) p b = framed qs" using False q(2) by (simp add: append_framed_def)
      ultimately show ?thesis using s(2,3) q(1) old False unfolding End(3)
        by (intro stream_invI [of _ "old @ [p]" ws ds qs]) simp_all
    qed
  next
    case (Dequeue b bs)
    have e: "bs = []" "enq s = EnqIdle" using Dequeue(2) act(1,2) by auto
    have c: "concat (chan_queue (activeBuffer (queue s))) = b" using Dequeue(2) e by simp
    have ds: "ds = []" using s(3) Dequeue(1) framed_empty [of ds] by simp
    have "b = framed qs" using s(4) e(2) c by simp
    then show ?thesis using s(1,2,5,6) e ds unfolding Dequeue(3)
      by (intro stream_invI [of _ old ws qs "[]"]) simp_all
  next
    case (Write b)
    have "b = framed ds" using s(3) Write(1) by simp
    then show ?thesis using s(1,2,4-6) unfolding Write(2)
      by (intro stream_invI [of _ old "ws @ ds" "[]" qs]) simp_all
  next
    case (Lose b)
    have "subseq (ws @ qs) (ws @ ds @ qs)" by (simp add: subseq_append' subseq_drop_many)
    then have "subseq (ws @ qs) old" using s(5) subseq_order.trans by blast
    then show ?thesis using s(1,2,4) unfolding Lose(2)
      by (intro stream_invI [of _ old ws "[]" qs]) simp_all
  next
    case (Replace b)
    then show ?thesis using s(1,2,4-6) s(3) [unfolded Replace(1)] unfolding Replace(3)
      by (intro stream_invI [of _ old ws ds qs]) simp_all
  qed
qed

lemma stream_inv_init: "stream_inv (queue_init limit)"
  unfolding stream_inv_def queue_init_def NewPacketQueue_def make_chan_def
  by (intro exI [of _ "[]"]) simp

lemma queue_reached_stream: "queue_reached limit s \<Longrightarrow> stream_inv s"
  by (induction rule: queue_reached.induct) (use stream_inv_init stream_inv_step queue_reached_inv in blast)+

lemma be16_size: "n \<le> 65535 \<Longrightarrow> unat (of_nat n :: 16 word) = n"
  by (simp add: unat_of_nat take_bit_nat_eq_self)

lemma ReadPacket_frame:
  assumes "length p \<le> 65535" "channelHeaderSize + length p \<le> length (inboundBuffer ch)"
  shows "\<exists>ch'. ReadPacket (be16 (of_nat (length p)) @ p @ rest) ch = (Inr p, rest, ch') \<and> length (inboundBuffer ch') = length (inboundBuffer ch)"
proof -
  have first: "read_full (be16 (of_nat (length p)) @ p @ rest) 0 2 (inboundBuffer ch) =
      (None, p @ rest, be16 (of_nat (length p)) @ drop 2 (inboundBuffer ch))"
    by (simp add: read_full_def put_def numeral_2_eq_2)
  have size: "unat (of_be16 (slice_of (be16 (of_nat (length p)) @ drop 2 (inboundBuffer ch)) 0 2)) = length p"
    using be16_size [OF assms(1)] by (simp add: slice_of_def)
  have snd: "read_full (p @ rest) 2 (length p) (be16 (of_nat (length p)) @ drop 2 (inboundBuffer ch)) =
      (None, rest, be16 (of_nat (length p)) @ p @ drop (length p) (drop 2 (inboundBuffer ch)))"
    by (simp add: read_full_def put_def)
  show ?thesis using assms(2) unfolding ReadPacket_def channelHeaderSize_def first
    by (auto simp: size snd slice_mid Let_def)
qed

lemma read_packets_framed:
  assumes "\<forall>p \<in> set ps. length p \<le> 65535 \<and> channelHeaderSize + length p \<le> length (inboundBuffer ch)"
  shows "read_packets (framed ps) ch = (ps, ChannelEOF)"
  using assms
proof (induction ps arbitrary: ch)
  case Nil
  then show ?case by (simp add: read_packets.simps ReadPacket_def read_full_def channelHeaderSize_def)
next
  case (Cons p ps)
  have "length p \<le> 65535" "channelHeaderSize + length p \<le> length (inboundBuffer ch)" using Cons.prems by simp_all
  from ReadPacket_frame [OF this, of "framed ps"] obtain ch' where
    r: "ReadPacket (framed (p # ps)) ch = (Inr p, framed ps, ch')" "length (inboundBuffer ch') = length (inboundBuffer ch)" by auto
  have "read_packets (framed ps) ch' = (ps, ChannelEOF)" by (rule Cons.IH) (use Cons.prems r(2) in simp)
  then show ?case by (subst read_packets.simps) (simp add: r(1) del: framed_simps)
qed

lemma subseq_elements: "subseq xs ys \<Longrightarrow> x \<in> set xs \<Longrightarrow> x \<in> set ys"
  by (auto dest: list_emb_set)

text \<open>
  C35: whatever the interleaving, the reader of the stream that a packet queue's buffers are written to reads whole packets only, some
  of those that were enqueued and in their order, and then the end of the stream; when no packet was dropped for lack of
  room, no write failed and the queue is drained, it reads them all. Packets are at most as long as the MTU, which is
  less than 64K.
\<close>

theorem queue_stream_roundtrip:
  assumes "queue_reached limit s" "\<forall>p \<in> set (offered s). length p \<le> MTU" "MTU \<le> 65535"
  shows "\<exists>ps. read_packets (delivered s) (NewChannel MTU) = (ps, ChannelEOF) \<and> subseq ps (offered s) \<and>
    (\<not> dropped s \<and> enq s = EnqIdle \<and> deq s = DeqIdle \<and> chan_queue (activeBuffer (queue s)) = [] \<longrightarrow> ps = offered s)"
proof -
  obtain ws ds qs old where s:
    "offered s = old @ (case enq s of EnqIdle \<Rightarrow> [] | EnqWaiting p \<Rightarrow> [p] | EnqHolding p b \<Rightarrow> [p])"
    "delivered s = framed ws" "(case deq s of DeqHolding b \<Rightarrow> b | _ \<Rightarrow> []) = framed ds"
    "concat (chan_queue (activeBuffer (queue s))) @ (case enq s of EnqHolding p b \<Rightarrow> b | _ \<Rightarrow> []) = framed qs"
    "subseq (ws @ ds @ qs) old" "\<not> dropped s \<longrightarrow> ws @ ds @ qs = old"
    using queue_reached_stream [OF assms(1)] unfolding stream_inv_def by blast
  have "subseq ws (ws @ ds @ qs)" "subseq old (offered s)" by (auto simp: s(1) intro: subseq_rev_drop_many)
  then have sub: "subseq ws (offered s)" using s(5) subseq_order.trans by blast
  have "read_packets (framed ws) (NewChannel MTU) = (ws, ChannelEOF)"
    by (rule read_packets_framed) (use assms(2,3) subseq_elements [OF sub] in \<open>force simp: NewChannel_def channelHeaderSize_def\<close>)
  moreover have "ws = offered s" if "\<not> dropped s" "enq s = EnqIdle" "deq s = DeqIdle" "chan_queue (activeBuffer (queue s)) = []"
    using s that framed_empty [of ds] framed_empty [of qs] by auto
  ultimately show ?thesis using sub s(2) by auto
qed

text \<open>The channel's own \<open>WritePacket\<close> frames alike.\<close>

lemma WritePacket_frame:
  assumes "length p \<le> MTU"
  shows "\<exists>ch. WritePacket p (NewChannel MTU) = Some (be16 (of_nat (length p)) @ p, ch)"
  using assms by (auto simp: WritePacket_def NewChannel_def channelHeaderSize_def Let_def put_def)


fun queue_run :: "queue_action list \<Rightarrow> queue_sys \<Rightarrow> queue_sys option" where
  "queue_run [] s = Some s"
| "queue_run (a # as) s = Option.bind (queue_step a s) (queue_run as)"

lemma queue_run_reached: "queue_reached limit s \<Longrightarrow> queue_run as s = Some s' \<Longrightarrow> queue_reached limit s'"
  by (induction as arbitrary: s) (auto simp: bind_eq_Some_conv dest: queue_next)

definition two_packets :: "queue_action list" where
  "two_packets = [EnqueueStart [1, 2], EnqueueWait, EnqueueEnd, EnqueueStart [3], EnqueueEnd, Dequeue, EnqueueStart [4],
     WriteBuffer, ReplaceBuffer]"

lemma two_packets_run:
  "map_option (\<lambda>s. (offered s, delivered s, enq s, queue_step EnqueueWait s = None)) (queue_run two_packets (queue_init 10)) =
     Some ([[1, 2], [3], [4]], [0, 2, 1, 2, 0, 1, 3], EnqWaiting [4], False)"
  by code_simp

lemma enqueue_never_blocks_witness:
  "\<exists>s. queue_run two_packets (queue_init 10) = Some s \<and> enq s = EnqWaiting [4] \<and> queue_step EnqueueWait s \<noteq> None"
proof -
  obtain s where s: "queue_run two_packets (queue_init 10) = Some s" "enq s = EnqWaiting [4]"
    using two_packets_run by (auto simp: map_option_eq_Some)
  from enqueue_never_blocks [OF queue_run_reached [OF queue_start s(1)]] s show ?thesis by (intro exI [of _ s]) (simp del: queue_step.simps)
qed

lemma queue_stream_roundtrip_witness:
  "fst (read_packets [0, 2, 1, 2, 0, 1, 3] (NewChannel 2)) \<in> set (subseqs [[1, 2], [3], [4]])"
proof -
  obtain s where s: "queue_run two_packets (queue_init 10) = Some s" "offered s = [[1, 2], [3], [4]]" "delivered s = [0, 2, 1, 2, 0, 1, 3]"
    using two_packets_run by (auto simp: map_option_eq_Some)
  have "\<forall>p \<in> set (offered s). length p \<le> 2" "(2 :: nat) \<le> 65535" by (simp_all add: s(2))
  from queue_stream_roundtrip [OF queue_run_reached [OF queue_start s(1)] this] show ?thesis
    by (auto simp: s simp del: subseqs.simps)
qed

text \<open>After a frame that exceeds the MTU, a reader that goes on, as the client does, reads from within it.\<close>

lemma oversized_frame_desynchronizes:
  "(case ReadPacket (be16 3 @ [0, 1, 7]) (NewChannel 2) of (r, rest, ch) \<Rightarrow> (r, fst (ReadPacket rest ch))) =
     (Inl (PacketExceedsMTU 3), Inr [7])"
  by code_simp

end
