(* ===== verification/ProtocolSelection.thy ===== *)
theory ProtocolSelection
  imports Protocols
begin

text \<open>
  Which tunnel protocol a client dials a server with: the capabilities and dial ports of a server entry,
  \<open>common/protocol/serverEntry.go\<close>, and the constraints of a run of tunnel establishment, \<open>controller.go\<close>.

  An error is \<open>None\<close>. The compiled-in components, the supported QUIC versions, what the
  broker lookups answer, and the random numbers are arguments, and so is the rate limiter of a library: its state and
  its two operations.
\<close>

section \<open>Server entries\<close>

text \<open>The fields that the modelled code reads\<close>

record server_entry =
  IpAddress :: string
  SshPort :: int
  SshObfuscatedPort :: int
  SshObfuscatedQUICPort :: int
  LimitQUICVersions :: "string list"
  SshObfuscatedTapDancePort :: int
  SshObfuscatedConjurePort :: int
  SshShadowsocksPort :: int
  Capabilities :: "string list"
  TlsOSSHPort :: int
  MeekServerPort :: int
  MeekFrontingAddresses :: "string list"
  MeekFrontingAddressesRegex :: string
  InproxySSHPort :: int
  InproxyOSSHPort :: int
  InproxyQUICPort :: int
  InproxyMeekPort :: int
  InproxyTlsOSSHPort :: int
  InproxyShadowsocksPort :: int

definition GetCapability :: "string \<Rightarrow> string" where
  "GetCapability protocol = (if TunnelProtocolUsesInproxy protocol then protocol else TrimSuffix protocol ''-OSSH'')"

definition GetTacticsCapability :: "string \<Rightarrow> string" where
  "GetTacticsCapability protocol = GetCapability protocol @ ''-TACTICS''"

definition IsTacticsCapability :: "string \<Rightarrow> bool" where
  "IsTacticsCapability protocol \<longleftrightarrow> suffix ''-TACTICS'' protocol"

text \<open>\<open>strings.ReplaceAll\<close> of a substring that is not empty by nothing\<close>

function remove_all :: "string \<Rightarrow> string \<Rightarrow> string" where
  "remove_all sub s = (if sub = [] \<or> s = [] then s
     else if prefix sub s then remove_all sub (drop (length sub) s)
     else hd s # remove_all sub (tl s))"
  by pat_completeness auto
termination
  by (relation "measure (\<lambda>(sub, s). length s)") auto

declare remove_all.simps [simp del]

definition capabilitySupportsTLSOSSH :: "string \<Rightarrow> bool" where
  "capabilitySupportsTLSOSSH capability \<longleftrightarrow>
    list_ex (\<lambda>tlsCapability. capability = tlsCapability @ ''-PASSTHROUGH-v2'')
      [GetCapability TUNNEL_PROTOCOL_UNFRONTED_MEEK_HTTPS, GetCapability TUNNEL_PROTOCOL_UNFRONTED_MEEK_SESSION_TICKET]"

definition masked_capability :: "string \<Rightarrow> string" where
  "masked_capability capability =
    (let c = remove_all ''-PASSTHROUGH'' (remove_all ''-PASSTHROUGH-v2'' capability);
         quic = GetCapability TUNNEL_PROTOCOL_QUIC_OBFUSCATED_SSH
     in if c = quic @ ''v1'' then quic else c)"

fun hasCapability_loop :: "string list \<Rightarrow> string \<Rightarrow> bool" where
  "hasCapability_loop [] required = False"
| "hasCapability_loop (capability # cs) required =
    (if masked_capability capability = required then True
     else if required = GetCapability TUNNEL_PROTOCOL_TLS_OBFUSCATED_SSH \<and> capabilitySupportsTLSOSSH capability then True
     else hasCapability_loop cs required)"

definition hasCapability :: "server_entry \<Rightarrow> string \<Rightarrow> bool" where
  "hasCapability e required = hasCapability_loop (Capabilities e) required"

definition SupportsProtocol :: "server_entry \<Rightarrow> string \<Rightarrow> bool" where
  "SupportsProtocol e protocol = hasCapability e (GetCapability protocol)"

definition ProtocolUsesLegacyPassthrough :: "server_entry \<Rightarrow> string \<Rightarrow> bool" where
  "ProtocolUsesLegacyPassthrough e protocol \<longleftrightarrow> list_ex (\<lambda>c. c = GetCapability protocol @ ''-PASSTHROUGH'') (Capabilities e)"

definition SupportsOnlyQUICv1 :: "server_entry \<Rightarrow> bool" where
  "SupportsOnlyQUICv1 e \<longleftrightarrow>
    (let quic = GetCapability TUNNEL_PROTOCOL_QUIC_OBFUSCATED_SSH
     in Contains (Capabilities e) (quic @ ''v1'') \<and> \<not> Contains (Capabilities e) quic)"

text \<open>The first argument is the port of fronted meek, a variable of the package.\<close>

definition direct_port :: "int \<Rightarrow> server_entry \<Rightarrow> string \<Rightarrow> int option" where
  "direct_port frontedPort e p =
    (if p = TUNNEL_PROTOCOL_TLS_OBFUSCATED_SSH then Some (if TlsOSSHPort e = 0 then MeekServerPort e else TlsOSSHPort e)
     else if p = TUNNEL_PROTOCOL_SSH then Some (SshPort e)
     else if p = TUNNEL_PROTOCOL_OBFUSCATED_SSH then Some (SshObfuscatedPort e)
     else if p = TUNNEL_PROTOCOL_TAPDANCE_OBFUSCATED_SSH then Some (SshObfuscatedTapDancePort e)
     else if p = TUNNEL_PROTOCOL_CONJURE_OBFUSCATED_SSH then Some (SshObfuscatedConjurePort e)
     else if p = TUNNEL_PROTOCOL_QUIC_OBFUSCATED_SSH then Some (SshObfuscatedQUICPort e)
     else if p = TUNNEL_PROTOCOL_FRONTED_MEEK \<or> p = TUNNEL_PROTOCOL_FRONTED_MEEK_QUIC_OBFUSCATED_SSH then Some frontedPort
     else if p = TUNNEL_PROTOCOL_FRONTED_MEEK_HTTP then Some 80
     else if p = TUNNEL_PROTOCOL_UNFRONTED_MEEK_HTTPS \<or> p = TUNNEL_PROTOCOL_UNFRONTED_MEEK_SESSION_TICKET \<or>
             p = TUNNEL_PROTOCOL_UNFRONTED_MEEK then Some (MeekServerPort e)
     else if p = TUNNEL_PROTOCOL_SHADOWSOCKS_OSSH then Some (SshShadowsocksPort e)
     else None)"

definition inproxy_port :: "int \<Rightarrow> server_entry \<Rightarrow> string \<Rightarrow> int option" where
  "inproxy_port frontedPort e p =
    (if p = TUNNEL_PROTOCOL_TLS_OBFUSCATED_SSH then Some (if InproxyTlsOSSHPort e = 0 then InproxyMeekPort e else InproxyTlsOSSHPort e)
     else if p = TUNNEL_PROTOCOL_SSH then Some (InproxySSHPort e)
     else if p = TUNNEL_PROTOCOL_OBFUSCATED_SSH then Some (InproxyOSSHPort e)
     else if p = TUNNEL_PROTOCOL_QUIC_OBFUSCATED_SSH then Some (InproxyQUICPort e)
     else if p = TUNNEL_PROTOCOL_FRONTED_MEEK \<or> p = TUNNEL_PROTOCOL_FRONTED_MEEK_QUIC_OBFUSCATED_SSH then Some frontedPort
     else if p = TUNNEL_PROTOCOL_FRONTED_MEEK_HTTP then Some 80
     else if p = TUNNEL_PROTOCOL_UNFRONTED_MEEK_HTTPS \<or> p = TUNNEL_PROTOCOL_UNFRONTED_MEEK_SESSION_TICKET \<or>
             p = TUNNEL_PROTOCOL_UNFRONTED_MEEK then Some (InproxyMeekPort e)
     else if p = TUNNEL_PROTOCOL_SHADOWSOCKS_OSSH then Some (InproxyShadowsocksPort e)
     else None)"

definition GetDialPortNumber :: "int \<Rightarrow> server_entry \<Rightarrow> string \<Rightarrow> int option" where
  "GetDialPortNumber frontedPort e tunnelProtocol =
    (if \<not> SupportsProtocol e tunnelProtocol then None
     else if \<not> TunnelProtocolUsesInproxy tunnelProtocol then direct_port frontedPort e tunnelProtocol
     else inproxy_port frontedPort e (TunnelProtocolMinusInproxy tunnelProtocol))"

section \<open>Supported protocols\<close>

definition TUNNEL_PROTOCOLS_ALL :: string where
  "TUNNEL_PROTOCOLS_ALL = ''All''"

definition ContainsAny :: "string list \<Rightarrow> string list \<Rightarrow> bool" where
  "ContainsAny xs targets \<longleftrightarrow> list_ex (Contains xs) targets"

record protocol_env =
  QUICEnabled :: bool
  RefractionNetworkingEnabled :: bool
  InproxyEnabled :: bool
  SupportedQUICVersions :: "string list"
  frontedMeekHTTPSDialPortNumber :: int

record protocol_limits =
  useUpstreamProxy :: bool
  limitTunnelDialPortNumbers :: "string \<rightharpoonup> port_list"
  limitQUICVersions :: "string list"

definition port_permitted :: "(string \<rightharpoonup> port_list) \<Rightarrow> string \<Rightarrow> int \<Rightarrow> bool" where
  "port_permitted ports p port =
    (case ports p of Some l \<Rightarrow> Lookup (Some l) port
     | None \<Rightarrow> (case ports TUNNEL_PROTOCOLS_ALL of Some l \<Rightarrow> Lookup (Some l) port | None \<Rightarrow> True))"

definition quic_permitted :: "protocol_env \<Rightarrow> protocol_limits \<Rightarrow> server_entry \<Rightarrow> string \<Rightarrow> bool" where
  "quic_permitted env lim e p \<longleftrightarrow>
    \<not> (TunnelProtocolUsesQUIC p \<and> LimitQUICVersions e \<noteq> [] \<and>
       (\<not> ContainsAny (LimitQUICVersions e) (SupportedQUICVersions env) \<or>
        (limitQUICVersions lim \<noteq> [] \<and> \<not> ContainsAny (LimitQUICVersions e) (limitQUICVersions lim))))"

definition component_missing :: "protocol_env \<Rightarrow> string \<Rightarrow> bool" where
  "component_missing env p \<longleftrightarrow>
    (TunnelProtocolUsesQUIC p \<and> \<not> QUICEnabled env) \<or>
    (TunnelProtocolUsesRefractionNetworking p \<and> \<not> RefractionNetworkingEnabled env) \<or>
    (TunnelProtocolUsesInproxy p \<and> \<not> InproxyEnabled env)"

text \<open>One protocol of the loop: whether it is appended\<close>

definition protocol_supported :: "protocol_env \<Rightarrow> protocol_limits \<Rightarrow> string list \<Rightarrow> bool \<Rightarrow> server_entry \<Rightarrow> string \<Rightarrow> bool" where
  "protocol_supported env lim limitTunnelProtocols excludeIntensive e p =
    (if useUpstreamProxy lim \<and> \<not> TunnelProtocolSupportsUpstreamProxy p then False
     else if Contains DisabledTunnelProtocols p then False
     else if (if limitTunnelProtocols \<noteq> [] then \<not> Contains limitTunnelProtocols p else Contains DefaultDisabledTunnelProtocols p) then False
     else if excludeIntensive \<and> TunnelProtocolIsResourceIntensive p then False
     else if component_missing env p then False
     else if \<not> SupportsProtocol e p then False
     else if \<not> quic_permitted env lim e p then False
     else (case GetDialPortNumber (frontedMeekHTTPSDialPortNumber env) e p of
         None \<Rightarrow> False
       | Some port \<Rightarrow> port_permitted (limitTunnelDialPortNumbers lim) p port))"

definition GetSupportedProtocols :: "protocol_env \<Rightarrow> protocol_limits \<Rightarrow> string list \<Rightarrow> bool \<Rightarrow> server_entry \<Rightarrow> string list" where
  "GetSupportedProtocols env lim limitTunnelProtocols excludeIntensive e =
    filter (protocol_supported env lim limitTunnelProtocols excludeIntensive e) SupportedTunnelProtocols"

definition GetSupportedTacticsProtocols :: "server_entry \<Rightarrow> string list" where
  "GetSupportedTacticsProtocols e =
    filter (\<lambda>p. TunnelProtocolUsesMeek p \<and> hasCapability e (GetTacticsCapability p)) SupportedTunnelProtocols"

text \<open>\<open>full_match\<close> is the longest match of a regular expression that compiles, which must be the host.\<close>

definition valid_dial_for :: "(string \<Rightarrow> string \<Rightarrow> bool) \<Rightarrow> int \<Rightarrow> server_entry \<Rightarrow> string \<Rightarrow> string \<Rightarrow> int \<Rightarrow> string \<Rightarrow> bool" where
  "valid_dial_for full_match frontedPort e networkProtocol dialHost dialPortNumber p =
    (if \<not> TunnelProtocolUsesInproxy p then False
     else if \<not> SupportsProtocol e p then False
     else if (TunnelProtocolUsesTCP p \<and> networkProtocol \<noteq> ''tcp'') \<or> (\<not> TunnelProtocolUsesTCP p \<and> networkProtocol \<noteq> ''udp'') then False
     else if GetDialPortNumber frontedPort e p \<noteq> Some dialPortNumber then False
     else if \<not> TunnelProtocolUsesFrontedMeek p then IpAddress e = dialHost
     else if length (MeekFrontingAddressesRegex e) > 0 then dialHost \<noteq> [] \<and> full_match (MeekFrontingAddressesRegex e) dialHost
     else Contains (MeekFrontingAddresses e) dialHost)"

definition IsValidInproxyDialAddress :: "(string \<Rightarrow> string \<Rightarrow> bool) \<Rightarrow> int \<Rightarrow> server_entry \<Rightarrow> string \<Rightarrow> string \<Rightarrow> int \<Rightarrow> bool" where
  "IsValidInproxyDialAddress full_match frontedPort e networkProtocol dialHost dialPortNumber =
    list_ex (valid_dial_for full_match frontedPort e networkProtocol dialHost dialPortNumber) SupportedTunnelProtocols"

section \<open>The constraints of an establishment\<close>

record constraints =
  sel_limits :: protocol_limits
  personalPairing :: bool
  initialLimitTunnelProtocols :: "string list"
  initialLimitTunnelProtocolsCandidateCount :: int
  limitTunnelProtocols :: "string list"
  replayCandidateCount :: int

text \<open>What personal pairing mode makes of the limits\<close>

definition adjust_for_pairing :: "constraints \<Rightarrow> constraints" where
  "adjust_for_pairing c =
    (if personalPairing c then
       (let c1 = (if initialLimitTunnelProtocols c \<noteq> []
                  then c\<lparr>initialLimitTunnelProtocols := PruneNonInproxyTunnelProtocols (initialLimitTunnelProtocols c)\<rparr> else c);
            c2 = (if limitTunnelProtocols c1 \<noteq> []
                  then c1\<lparr>limitTunnelProtocols := PruneNonInproxyTunnelProtocols (limitTunnelProtocols c1)\<rparr> else c1)
        in if limitTunnelProtocols c2 = [] then c2\<lparr>limitTunnelProtocols := InproxyTunnelProtocols\<rparr> else c2)
     else c)"

definition hasInitialProtocols :: "constraints \<Rightarrow> bool" where
  "hasInitialProtocols c \<longleftrightarrow> initialLimitTunnelProtocols c \<noteq> [] \<and> initialLimitTunnelProtocolsCandidateCount c > 0"

definition isInitialCandidate :: "protocol_env \<Rightarrow> constraints \<Rightarrow> bool \<Rightarrow> server_entry \<Rightarrow> bool" where
  "isInitialCandidate env c excludeIntensive e \<longleftrightarrow> hasInitialProtocols c \<and>
    GetSupportedProtocols env (sel_limits c) (initialLimitTunnelProtocols c) excludeIntensive e \<noteq> []"

definition isCandidate :: "protocol_env \<Rightarrow> constraints \<Rightarrow> bool \<Rightarrow> server_entry \<Rightarrow> bool" where
  "isCandidate env c excludeIntensive e \<longleftrightarrow>
    GetSupportedProtocols env (sel_limits c) (limitTunnelProtocols c) excludeIntensive e \<noteq> []"

definition getLimitTunnelProtocols :: "constraints \<Rightarrow> int \<Rightarrow> string list" where
  "getLimitTunnelProtocols c connectTunnelCount =
    (if initialLimitTunnelProtocols c \<noteq> [] \<and> initialLimitTunnelProtocolsCandidateCount c > connectTunnelCount
     then initialLimitTunnelProtocols c else limitTunnelProtocols c)"

definition supportedProtocols :: "protocol_env \<Rightarrow> constraints \<Rightarrow> int \<Rightarrow> bool \<Rightarrow> server_entry \<Rightarrow> string list" where
  "supportedProtocols env c connectTunnelCount excludeIntensive e =
    GetSupportedProtocols env (sel_limits c) (getLimitTunnelProtocols c connectTunnelCount) excludeIntensive e"

definition canReplay :: "protocol_env \<Rightarrow> constraints \<Rightarrow> int \<Rightarrow> bool \<Rightarrow> server_entry \<Rightarrow> string \<Rightarrow> bool" where
  "canReplay env c connectTunnelCount excludeIntensive e replayProtocol =
    (if replayCandidateCount c \<noteq> -1 \<and> connectTunnelCount > replayCandidateCount c then False
     else Contains (supportedProtocols env c connectTunnelCount excludeIntensive e) replayProtocol)"

text \<open>The rate limiter of a library: \<open>Reserve\<close> gives a delay, or \<open>None\<close> for a burst that is too large.\<close>

record 'l limiter =
  Reserve :: "'l \<Rightarrow> int option \<times> 'l"
  Allow :: "'l \<Rightarrow> bool \<times> 'l"

record broker_state =
  haveInproxyClientBrokerSpecs :: bool
  haveInproxyCommonCompartmentIDs :: bool

definition chosen_protocol :: "(nat \<Rightarrow> nat) \<Rightarrow> string \<Rightarrow> string list \<Rightarrow> string" where
  "chosen_protocol Intn prioritize candidates =
    (if prioritize \<noteq> [] \<and> Contains candidates prioritize then prioritize else candidates ! Intn (length candidates))"

text \<open>
  A selection: the protocol and the delay of its dial, or none, and the limiter after it. The two draws
  of a random index are two arguments; the limiter may be nil.
\<close>

definition rate_limited :: "'l limiter \<Rightarrow> 'l \<Rightarrow> broker_state \<Rightarrow> (nat \<Rightarrow> nat) \<Rightarrow> constraints \<Rightarrow> int \<Rightarrow> bool \<Rightarrow> string list \<Rightarrow> string
    \<Rightarrow> (string \<times> int) option \<times> 'l" where
  "rate_limited ops l b Intn2 c connectTunnelCount preferInproxy candidates selected =
    (if preferInproxy \<or> personalPairing c \<or> IsOnlyInproxyTunnelProtocols (getLimitTunnelProtocols c connectTunnelCount) then
       (if \<not> haveInproxyClientBrokerSpecs b then (None, l)
        else if \<not> personalPairing c \<and> \<not> haveInproxyCommonCompartmentIDs b then (None, l)
        else (case Reserve ops l of (None, l') \<Rightarrow> (None, l') | (Some delay, l') \<Rightarrow> (Some (selected, delay), l')))
     else
       (let (skip, l') = (if \<not> haveInproxyClientBrokerSpecs b then (True, l)
                          else if \<not> haveInproxyCommonCompartmentIDs b then (True, l)
                          else (case Allow ops l of (ok, l') \<Rightarrow> (\<not> ok, l')))
        in if skip then
             (let others = PruneInproxyTunnelProtocols candidates
              in (if others = [] then None else Some (others ! Intn2 (length others), 0), l'))
           else (Some (selected, 0), l')))"

definition selectProtocol :: "protocol_env \<Rightarrow> 'l limiter option \<Rightarrow> 'l \<Rightarrow> broker_state \<Rightarrow> (nat \<Rightarrow> nat) \<Rightarrow> (nat \<Rightarrow> nat) \<Rightarrow> constraints
    \<Rightarrow> int \<Rightarrow> bool \<Rightarrow> bool \<Rightarrow> string \<Rightarrow> server_entry \<Rightarrow> (string \<times> int) option \<times> 'l" where
  "selectProtocol env lm l b Intn Intn2 c connectTunnelCount excludeIntensive preferInproxy prioritize e =
    (let all = supportedProtocols env c connectTunnelCount excludeIntensive e;
         candidates = (if preferInproxy \<and> HasInproxyTunnelProtocols all then PruneNonInproxyTunnelProtocols all else all)
     in if candidates = [] then (None, l)
        else let selected = chosen_protocol Intn prioritize candidates
             in case lm of
                 None \<Rightarrow> (Some (selected, 0), l)
               | Some ops \<Rightarrow>
                  if \<not> TunnelProtocolUsesInproxy selected then (Some (selected, 0), l)
                  else rate_limited ops l b Intn2 c connectTunnelCount preferInproxy candidates selected)"

section \<open>Forced selection\<close>

text \<open>The decision of an establishment worker for one candidate, and the count of forced selections left\<close>

definition force_inproxy :: "protocol_env \<Rightarrow> constraints \<Rightarrow> int \<Rightarrow> bool \<Rightarrow> server_entry \<Rightarrow> int \<Rightarrow> bool \<times> int" where
  "force_inproxy env c connectTunnelCount excludeIntensive e forceCount =
    (if \<not> excludeIntensive \<and> forceCount > 0 \<and>
        HasInproxyTunnelProtocols (supportedProtocols env c connectTunnelCount excludeIntensive e)
     then (True, forceCount - 1) else (False, forceCount))"

definition worker_canReplay :: "protocol_env \<Rightarrow> constraints \<Rightarrow> int \<Rightarrow> bool \<Rightarrow> bool \<Rightarrow> server_entry \<Rightarrow> string \<Rightarrow> bool" where
  "worker_canReplay env c connectTunnelCount excludeIntensive inproxyForceSelection e replayProtocol =
    (if inproxyForceSelection then TunnelProtocolUsesInproxy replayProtocol
     else canReplay env c connectTunnelCount excludeIntensive e replayProtocol)"

definition worker_excludeIntensive :: "int \<Rightarrow> int \<Rightarrow> bool" where
  "worker_excludeIntensive limitIntensiveConnectionWorkers concurrentIntensiveEstablishTunnels \<longleftrightarrow>
    limitIntensiveConnectionWorkers > 0 \<and> concurrentIntensiveEstablishTunnels \<ge> limitIntensiveConnectionWorkers"

definition worker_selectProtocol :: "protocol_env \<Rightarrow> 'l limiter option \<Rightarrow> 'l \<Rightarrow> broker_state \<Rightarrow> (nat \<Rightarrow> nat) \<Rightarrow> (nat \<Rightarrow> nat) \<Rightarrow> bool
    \<Rightarrow> constraints \<Rightarrow> int \<Rightarrow> bool \<Rightarrow> bool \<Rightarrow> string \<Rightarrow> server_entry \<Rightarrow> (string \<times> int) option \<times> 'l" where
  "worker_selectProtocol env lm l b Intn Intn2 coin c connectTunnelCount excludeIntensive inproxyForceSelection prioritize e =
    selectProtocol env lm l b Intn Intn2 c connectTunnelCount excludeIntensive (inproxyForceSelection \<or> coin) prioritize e"


section \<open>Dial ports\<close>

lemma base_ports:
  "p \<in> set base_protocols \<Longrightarrow> \<exists>port. direct_port frontedPort e p = Some port"
  "p \<in> set base_protocols \<Longrightarrow> TunnelProtocolIsCompatibleWithInproxy p \<Longrightarrow> \<exists>port. inproxy_port frontedPort e p = Some port"
  by (auto simp: base_protocols_def direct_port_def inproxy_port_def TunnelProtocolIsCompatibleWithInproxy_def TunnelProtocolUsesRefractionNetworking_def)

lemma dial_port_total:
  assumes "p \<in> set SupportedTunnelProtocols"
  shows "GetDialPortNumber frontedPort e p = None \<longleftrightarrow> \<not> SupportsProtocol e p"
proof -
  consider "p \<in> set base_protocols" | q where "q \<in> set base_protocols" "TunnelProtocolIsCompatibleWithInproxy q" "p = TunnelProtocolPlusInproxyWebRTC q"
    using assms by (auto simp: SupportedTunnelProtocols_def InproxyTunnelProtocols_def)
  then show ?thesis
  proof cases
    case 1
    then show ?thesis using base_ports(1) [OF 1, of frontedPort e] base_not_inproxy by (auto simp: GetDialPortNumber_def)
  next
    case 2
    then show ?thesis using base_ports(2) [OF 2(1,2), of frontedPort e] Plus_uses_inproxy by (auto simp: GetDialPortNumber_def)
  qed
qed

section \<open>Selection\<close>

text \<open>What the code asks of a protocol to dial\<close>

definition dial_permitted :: "protocol_env \<Rightarrow> protocol_limits \<Rightarrow> string list \<Rightarrow> bool \<Rightarrow> server_entry \<Rightarrow> string \<Rightarrow> bool" where
  "dial_permitted env lim limit excludeIntensive e p \<longleftrightarrow>
    p \<in> set SupportedTunnelProtocols \<and> p \<noteq> TUNNEL_PROTOCOL_TAPDANCE_OBFUSCATED_SSH \<and> SupportsProtocol e p \<and>
    (if limit = [] then p \<notin> set DefaultDisabledTunnelProtocols else p \<in> set limit) \<and>
    \<not> (excludeIntensive \<and> TunnelProtocolIsResourceIntensive p) \<and>
    \<not> (useUpstreamProxy lim \<and> \<not> TunnelProtocolSupportsUpstreamProxy p) \<and>
    \<not> component_missing env p \<and> quic_permitted env lim e p \<and>
    (\<exists>port. GetDialPortNumber (frontedMeekHTTPSDialPortNumber env) e p = Some port \<and> port_permitted (limitTunnelDialPortNumbers lim) p port)"

lemma GetSupportedProtocols_iff:
  "p \<in> set (GetSupportedProtocols env lim limit excludeIntensive e) \<longleftrightarrow> dial_permitted env lim limit excludeIntensive e p"
  by (auto simp: GetSupportedProtocols_def protocol_supported_def dial_permitted_def Contains_iff DisabledTunnelProtocols_def split: option.splits)

lemma chosen_protocol_in:
  assumes "candidates \<noteq> []" "\<And>n. 0 < n \<Longrightarrow> Intn n < n"
  shows "chosen_protocol Intn prioritize candidates \<in> set candidates"
  using assms by (simp add: chosen_protocol_def Contains_iff)

definition candidates_of :: "bool \<Rightarrow> string list \<Rightarrow> string list" where
  "candidates_of preferInproxy ps =
    (if preferInproxy \<and> HasInproxyTunnelProtocols ps then PruneNonInproxyTunnelProtocols ps else ps)"

lemma candidates_of_subset: "set (candidates_of pref ps) \<subseteq> set ps" "candidates_of pref ps = [] \<longleftrightarrow> ps = []"
  by (auto simp: candidates_of_def PruneNonInproxyTunnelProtocols_def HasInproxyTunnelProtocols_def filter_empty_conv list_ex_iff)

text \<open>The ways in which a protocol is selected\<close>

lemma selectProtocol_cases:
  assumes sel: "selectProtocol env lm l b Intn Intn2 c n ex pref prio e = (Some (p, delay), l')"
    and rnd: "\<And>n. 0 < n \<Longrightarrow> Intn n < n" "\<And>n. 0 < n \<Longrightarrow> Intn2 n < n"
  obtains (free) "p \<in> set (candidates_of pref (supportedProtocols env c n ex e))" "lm = None \<or> \<not> TunnelProtocolUsesInproxy p" "delay = 0" "l' = l"
  | (reserved) ops where "p \<in> set (candidates_of pref (supportedProtocols env c n ex e))" "lm = Some ops" "TunnelProtocolUsesInproxy p"
      "haveInproxyClientBrokerSpecs b" "Reserve ops l = (Some delay, l')"
  | (allowed) ops where "p \<in> set (candidates_of pref (supportedProtocols env c n ex e))" "lm = Some ops" "TunnelProtocolUsesInproxy p" "\<not> pref"
      "\<not> personalPairing c" "haveInproxyClientBrokerSpecs b" "Allow ops l = (True, l')" "delay = 0"
  | (skipped) ops where "p \<in> set (candidates_of pref (supportedProtocols env c n ex e))" "lm = Some ops" "\<not> TunnelProtocolUsesInproxy p" "\<not> pref"
      "\<not> personalPairing c" "delay = 0" "l' = l \<or> Allow ops l = (False, l')"
proof -
  let ?cs = "candidates_of pref (supportedProtocols env c n ex e)"
  define sel' where "sel' = chosen_protocol Intn prio ?cs"
  have ne: "?cs \<noteq> []" using sel by (auto simp: selectProtocol_def candidates_of_def Let_def split: if_splits)
  have mem: "sel' \<in> set ?cs" unfolding sel'_def by (rule chosen_protocol_in [OF ne rnd(1)])
  have run: "selectProtocol env lm l b Intn Intn2 c n ex pref prio e = (case lm of None \<Rightarrow> (Some (sel', 0), l)
      | Some ops \<Rightarrow> if \<not> TunnelProtocolUsesInproxy sel' then (Some (sel', 0), l) else rate_limited ops l b Intn2 c n pref ?cs sel')"
    using ne unfolding selectProtocol_def Let_def candidates_of_def [symmetric] sel'_def by simp
  show ?thesis
  proof (cases lm)
    case None
    then show ?thesis using sel run mem free by simp
  next
    case (Some ops)
    show ?thesis
    proof (cases "TunnelProtocolUsesInproxy sel'")
      case False
      then show ?thesis using sel run mem free Some by simp
    next
      case inp: True
      then have rl: "rate_limited ops l b Intn2 c n pref ?cs sel' = (Some (p, delay), l')" using sel run Some by simp
      show ?thesis
      proof (cases "pref \<or> personalPairing c \<or> IsOnlyInproxyTunnelProtocols (getLimitTunnelProtocols c n)")
        case True
        then have "haveInproxyClientBrokerSpecs b" "Reserve ops l = (Some delay, l')" "p = sel'"
          using rl by (auto simp: rate_limited_def split: if_splits prod.splits option.splits)
        then show ?thesis using reserved [of ops] mem Some inp by blast
      next
        case False
        let ?others = "PruneInproxyTunnelProtocols ?cs"
        have np: "\<not> pref" "\<not> personalPairing c" using False by auto
        have skip: ?thesis if "?others \<noteq> []" "p = ?others ! Intn2 (length ?others)" "delay = 0" "l' = l \<or> Allow ops l = (False, l')"
        proof -
          have "p \<in> set ?others" using that(1,2) rnd(2) by simp
          then show ?thesis using skipped [of ops] Some np that(3,4) by (auto simp: PruneInproxyTunnelProtocols_def)
        qed
        consider (no) "\<not> haveInproxyClientBrokerSpecs b \<or> \<not> haveInproxyCommonCompartmentIDs b"
          | (ask) ok l1 where "haveInproxyClientBrokerSpecs b" "haveInproxyCommonCompartmentIDs b" "Allow ops l = (ok, l1)" by (cases "Allow ops l") blast
        then show ?thesis
        proof cases
          case no
          then have "rate_limited ops l b Intn2 c n pref ?cs sel' = (if ?others = [] then None else Some (?others ! Intn2 (length ?others), 0), l)"
            using False by (auto simp: rate_limited_def Let_def)
          then show ?thesis using rl skip by (auto split: if_splits)
        next
          case (ask ok l1)
          then have "rate_limited ops l b Intn2 c n pref ?cs sel' =
              (if ok then (Some (sel', 0), l1) else (if ?others = [] then None else Some (?others ! Intn2 (length ?others), 0), l1))"
            using False by (auto simp: rate_limited_def Let_def)
          then show ?thesis using rl skip allowed [of ops] mem Some inp np ask by (cases ok) (auto split: if_splits)
        qed
      qed
    qed
  qed
qed

lemma selected_in_candidates:
  assumes "selectProtocol env lm l b Intn Intn2 c n ex pref prio e = (Some (p, delay), l')"
    "\<And>n. 0 < n \<Longrightarrow> Intn n < n" "\<And>n. 0 < n \<Longrightarrow> Intn2 n < n"
  shows "p \<in> set (candidates_of pref (supportedProtocols env c n ex e))"
  by (rule selectProtocol_cases [OF assms]) simp_all


section \<open>Properties\<close>

lemma pairing_limits_inproxy:
  assumes "personalPairing c" "p \<in> set (getLimitTunnelProtocols (adjust_for_pairing c) n)"
  shows "TunnelProtocolUsesInproxy p"
  using assms Plus_uses_inproxy
  by (auto simp: adjust_for_pairing_def getLimitTunnelProtocols_def PruneNonInproxyTunnelProtocols_def InproxyTunnelProtocols_def Let_def split: if_splits)

lemma pairing_limits_nonempty:
  assumes "personalPairing c"
  shows "getLimitTunnelProtocols (adjust_for_pairing c) n \<noteq> []"
proof -
  have "InproxyTunnelProtocols \<noteq> []"
    by (simp add: InproxyTunnelProtocols_def base_protocols_def TunnelProtocolIsCompatibleWithInproxy_def TunnelProtocolUsesRefractionNetworking_def)
  then show ?thesis using assms by (auto simp: adjust_for_pairing_def getLimitTunnelProtocols_def Let_def split: if_splits)
qed

lemma adjust_limits [simp]: "sel_limits (adjust_for_pairing c) = sel_limits c" "personalPairing (adjust_for_pairing c) = personalPairing c"
  by (simp_all add: adjust_for_pairing_def Let_def)

lemma candidates_prefer:
  assumes "p \<in> set (candidates_of True ps)" "HasInproxyTunnelProtocols ps"
  shows "TunnelProtocolUsesInproxy p"
  using assms by (simp add: candidates_of_def PruneNonInproxyTunnelProtocols_def)

text \<open>
  C40: whatever the random choices, the preferences and a prioritized protocol, the protocol that a client selects for a server
  is one that the server entry has the capability and a permitted port for, that is compiled in, not disabled, within the limit
  in force, and allowed behind an upstream proxy and beside other intensive dials. In personal pairing mode it is
  an in-proxy protocol, and also when those are preferred and there is one. With a rate limiter an in-proxy protocol is only selected with
  one token of it and a known broker, and the delay is the one it reserved.
\<close>

theorem selected_protocol_permitted:
  assumes "\<forall>n > 0. Intn n < n" "\<forall>n > 0. Intn2 n < n"
    "selectProtocol env lm l b Intn Intn2 (adjust_for_pairing c) n ex pref prio e = (Some (p, delay), l')"
  shows "dial_permitted env (sel_limits c) (getLimitTunnelProtocols (adjust_for_pairing c) n) ex e p \<and>
    (personalPairing c \<longrightarrow> TunnelProtocolUsesInproxy p) \<and>
    (pref \<and> HasInproxyTunnelProtocols (supportedProtocols env (adjust_for_pairing c) n ex e) \<longrightarrow> TunnelProtocolUsesInproxy p) \<and>
    (case lm of None \<Rightarrow> delay = 0 \<and> l' = l
     | Some ops \<Rightarrow> if TunnelProtocolUsesInproxy p
         then haveInproxyClientBrokerSpecs b \<and> (Reserve ops l = (Some delay, l') \<or> (Allow ops l = (True, l') \<and> delay = 0))
         else delay = 0)"
proof -
  have rnd: "\<And>n. 0 < n \<Longrightarrow> Intn n < n" "\<And>n. 0 < n \<Longrightarrow> Intn2 n < n" using assms(1,2) by blast+
  note mem = selected_in_candidates [OF assms(3) rnd]
  then have "p \<in> set (supportedProtocols env (adjust_for_pairing c) n ex e)" using candidates_of_subset(1) by blast
  then have perm: "dial_permitted env (sel_limits c) (getLimitTunnelProtocols (adjust_for_pairing c) n) ex e p"
    by (simp add: supportedProtocols_def GetSupportedProtocols_iff)
  have pair: "TunnelProtocolUsesInproxy p" if "personalPairing c"
    using perm pairing_limits_inproxy [OF that] pairing_limits_nonempty [OF that] by (auto simp: dial_permitted_def)
  have meter: "case lm of None \<Rightarrow> delay = 0 \<and> l' = l
     | Some ops \<Rightarrow> if TunnelProtocolUsesInproxy p
         then haveInproxyClientBrokerSpecs b \<and> (Reserve ops l = (Some delay, l') \<or> (Allow ops l = (True, l') \<and> delay = 0))
         else delay = 0"
    by (rule selectProtocol_cases [OF assms(3) rnd]) (auto split: option.splits)
  show ?thesis using perm pair meter candidates_prefer mem by auto
qed

text \<open>A server that runs OSSH, also behind in-proxies, and a client that is limited to two protocols\<close>

definition ossh_entry :: server_entry where
  "ossh_entry = \<lparr>IpAddress = ''192.0.2.1'', SshPort = 22, SshObfuscatedPort = 53, SshObfuscatedQUICPort = 0, LimitQUICVersions = [],
     SshObfuscatedTapDancePort = 0, SshObfuscatedConjurePort = 0, SshShadowsocksPort = 0,
     Capabilities = [''OSSH'', ''INPROXY-WEBRTC-OSSH''], TlsOSSHPort = 0, MeekServerPort = 0, MeekFrontingAddresses = [],
     MeekFrontingAddressesRegex = [], InproxySSHPort = 0, InproxyOSSHPort = 554, InproxyQUICPort = 0, InproxyMeekPort = 0,
     InproxyTlsOSSHPort = 0, InproxyShadowsocksPort = 0\<rparr>"

definition sample_env :: protocol_env where
  "sample_env = \<lparr>QUICEnabled = True, RefractionNetworkingEnabled = False, InproxyEnabled = True,
     SupportedQUICVersions = [''QUICv1''], frontedMeekHTTPSDialPortNumber = 443\<rparr>"

definition ossh_only :: constraints where
  "ossh_only = \<lparr>sel_limits = \<lparr>useUpstreamProxy = False, limitTunnelDialPortNumbers = Map.empty, limitQUICVersions = []\<rparr>,
     personalPairing = False, initialLimitTunnelProtocols = [], initialLimitTunnelProtocolsCandidateCount = 0,
     limitTunnelProtocols = [''OSSH'', ''INPROXY-WEBRTC-OSSH''], replayCandidateCount = 0\<rparr>"

lemma ossh_selected:
  "fst (selectProtocol sample_env (Some \<lparr>Reserve = \<lambda>n. (Some 3, n - 1), Allow = \<lambda>n. (True, n - 1)\<rparr>) (9 :: int)
      \<lparr>haveInproxyClientBrokerSpecs = True, haveInproxyCommonCompartmentIDs = True\<rparr> (\<lambda>n. 0) (\<lambda>n. 0) (adjust_for_pairing ossh_only) 0 False True [] ossh_entry) =
   Some (''INPROXY-WEBRTC-OSSH'', 3)"
  by code_simp

lemma selected_protocol_permitted_witness:
  "dial_permitted sample_env (sel_limits ossh_only) (getLimitTunnelProtocols (adjust_for_pairing ossh_only) 0) False ossh_entry ''INPROXY-WEBRTC-OSSH''"
proof -
  obtain l' where "selectProtocol sample_env (Some \<lparr>Reserve = \<lambda>n. (Some 3, n - 1), Allow = \<lambda>n. (True, n - 1)\<rparr>) (9 :: int)
      \<lparr>haveInproxyClientBrokerSpecs = True, haveInproxyCommonCompartmentIDs = True\<rparr> (\<lambda>n. 0) (\<lambda>n. 0) (adjust_for_pairing ossh_only) 0 False True [] ossh_entry =
      (Some (''INPROXY-WEBRTC-OSSH'', 3), l')" using ossh_selected by (metis prod.collapse)
  from selected_protocol_permitted [OF _ _ this] show ?thesis by simp
qed

text \<open>
  Forced in-proxy selection replays any in-proxy protocol: also one that the limits exclude and the server does not run.
\<close>

lemma forced_replay_ignores_limits:
  "fst (force_inproxy sample_env ossh_only 5 False ossh_entry 1)"
  "worker_canReplay sample_env ossh_only 5 False True ossh_entry ''INPROXY-WEBRTC-QUIC-OSSH''"
  "\<not> canReplay sample_env ossh_only 5 False ossh_entry ''INPROXY-WEBRTC-QUIC-OSSH''"
  "\<not> Contains (supportedProtocols sample_env ossh_only 5 False ossh_entry) ''INPROXY-WEBRTC-QUIC-OSSH''"
  by code_simp+

text \<open>What the broker checks accepts what a client dials: the server's own address, for the protocols that are not fronted.\<close>

lemma selected_dial_valid:
  assumes "dial_permitted env lim limit ex e p" "TunnelProtocolUsesInproxy p" "\<not> TunnelProtocolUsesFrontedMeek p"
    "GetDialPortNumber (frontedMeekHTTPSDialPortNumber env) e p = Some port"
  shows "IsValidInproxyDialAddress full_match (frontedMeekHTTPSDialPortNumber env) e
    (if TunnelProtocolUsesTCP p then ''tcp'' else ''udp'') (IpAddress e) port"
proof -
  have "p \<in> set SupportedTunnelProtocols" "SupportsProtocol e p" using assms(1) by (auto simp: dial_permitted_def)
  then show ?thesis using assms(2-4) by (auto simp: IsValidInproxyDialAddress_def list_ex_iff valid_dial_for_def intro!: bexI [of _ p])
qed

end
