(* ===== verification/Spec2Isabelle.thy ===== *)
theory Spec2Isabelle
  imports Sss OslSeed MeekBuffer MatcherClaims BridgeRun PortForwardRun Udpgw OslDelivery TunServerClaims TunChannel ProtocolSelection
begin

text \<open>
  Verification of the core logic of the Psiphon tunnel core, the Go program under
  \<open>src/psiphon-core/psiphon\<close> (file names below are relative to that directory), and of the bridge
  \<open>src/psiphon-core/RustBridge\<close> that runs it under a terminal interface.

  \<^bold>\<open>The program.\<close> A client tunnels the traffic of its host through a Psiphon server over one of many
  obfuscated transports. The server applies traffic rules and a blocklist to what its clients
  ask for: TCP port forwards, each a channel of the tunnel; UDP port forwards, multiplexed in one udpgw channel; and, in
  the VPN mode, whole IP packets of the packet tunnel. A client behind censorship gets the addresses of
  further servers from obfuscated server lists (OSL): a server issues a client
  seeds (SLOKs) for its port forward activity, and the client reassembles the key of an OSL from its SLOKs. Volunteers run in-proxies, which a
  broker matches with clients. The terminal interface starts, stops and polls the client through a small C interface.

  \<^bold>\<open>The theories.\<close> \<open>Prelude\<close> has the shared vocabulary, \<open>Bytes\<close> byte buffers, \<open>GoChan\<close> Go's buffered
  channels (with their contract as a locale) and \<open>GoStrings\<close> Go's string functions. The other interfaces are the locales of
  lookup structures (\<open>Lookups\<close>), expiring maps (\<open>LruCache\<close>) and threshold sharing (\<open>Osl\<close>), each interpreted on the code's model. Errors are the left of a sum; \<open>None\<close> is a panic, a call that
  does not return, or a step that is blocked, as each theory says. Third-party code, host services, clocks and random
  choices are arguments, or fields of a record called an environment.

  \<^item> \<open>Gf256\<close>, \<open>Lagrange\<close>, \<open>Sss\<close>: Shamir secret sharing, \<open>common/sss\<close>. The table-driven field operations are those of
    GF(256), and interpolation, which the code does pointwise, inverts the split.
  \<^item> \<open>Osl\<close>, \<open>OslConfig\<close>, \<open>OslSeed\<close>: \<open>common/osl/osl.go\<close>, the tree of key shares of an OSL and its reassembly, the loading of
    the configuration, and the counting of a client's traffic that issues SLOKs. \<open>OslDelivery\<close>: the loop of
    \<open>server/tunnelServer.go\<close> that sends payloads of SLOKs, the handler of \<open>serverApi.go\<close> and the
    SLOK bucket of \<open>dataStore.go\<close>, as one step system; it composes delivery with reassembly.
  \<^item> \<open>Lookups\<close>: \<open>common/portlist.go\<close>, \<open>lookup.go\<close> and \<open>subnet.go\<close>, each proved equivalent with its unoptimized list, as
    interpretations of one locale of lookup structures. \<open>Wildcard\<close>: \<open>common/wildcard\<close>, against the meaning of a pattern.
  \<^item> \<open>MeekBuffer\<close>: \<open>server/meekBuffer.go\<close>, the ring of buffers that resumes interrupted responses, refining a window of the written bytes.
  \<^item> \<open>NatTraversal\<close>, \<open>LruCache\<close>, \<open>MultiQueue\<close>, \<open>MatchIterator\<close>, \<open>Matcher\<close>, \<open>MatchSearch\<close>, \<open>MatcherSystem\<close>, \<open>MatcherRun\<close>,
    \<open>MatcherClaims\<close>: the broker's matcher, \<open>common/inproxy/matcher.go\<close> with \<open>nat.go\<close> and the cache it keeps answers in. First the
    operations, then what a search selects, then the calls and the matching pass as a step relation whose invariants
    are exact counters and channels that never block.
  \<^item> \<open>Bridge\<close>, \<open>BridgeRun\<close>: \<open>RustBridge/bridge.go\<close> with the notice writer of \<open>notice.go\<close>, one call after another and interleaved.
  \<^item> \<open>Protocols\<close>, \<open>ProtocolSelection\<close>: the tunnel protocols of \<open>common/protocol/protocol.go\<close>, the capabilities and ports of server entries
    in \<open>serverEntry.go\<close>, and the protocol that an establishment worker of \<open>controller.go\<close> selects for a server under the limits in force.
  \<^item> \<open>RequestParams\<close>: the parameter validation of \<open>server/api.go\<close>.
  \<^item> \<open>TrafficRules\<close>, \<open>TrafficRulesFacts\<close>, \<open>Blocklist\<close>: \<open>server/trafficRules.go\<close>, \<open>server/blocklist.go\<close> and the bogon networks of \<open>common/net.go\<close>.
  \<^item> \<open>PortForward\<close>, \<open>PortForwardRun\<close>, \<open>Udpgw\<close>: the port forwards of \<open>server/tunnelServer.go\<close> and \<open>server/udp.go\<close>: the checks and counters of
    one client, the goroutines of its TCP port forwards as a step system, the udpgw messages and multiplexer.
  \<^item> \<open>TunPacket\<close>, \<open>TunPacketFacts\<close>, \<open>TunPacketClaims\<close>: \<open>processPacket\<close> of \<open>common/tun/tun.go\<close> with the flows of a session. \<open>TunChannel\<close>: its
    packet queue, as a step system, and the framing of packets. \<open>TunServer\<close>, \<open>TunServerFacts\<close>, \<open>TunServerClaims\<close>: its sessions, the
    allocation of their addresses and the packet loops of the server.
  \<^item> This theory: the rules, the blocklist and the port forwards of a server composed, from the files that an operator
    writes to what is dialed.

  \<^bold>\<open>What the lemmas show.\<close> The state that several goroutines share is a step relation or a step function, one step for
  what a lock or an atomic operation protects, and its theorems hold for every reachable state, by
  rule induction: the counters of the matcher and of port forwards are exact, at most one tunnel is up, SLOKs are
  issued or pending, sessions have addresses of their own, queues do not block. Functions that parse or check have their
  behaviour stated on all inputs, errors and panics included: shares, server lists,
  udpgw messages and framed packets come back as they were sent; rules, parameters and packets never panic; lookups, wildcards, iteration
  and checksums agree with a simple reference. Where the code does not do what it means to, a theorem or a concrete
  lemma shows the execution.

  \<^bold>\<open>Bounds and fuel.\<close> No theorem depends on fuel. Loops are structural or have a measure, or are partial functions whose
  \<open>None\<close> is a loop that does not end (the share loop of \<open>Sss\<close>, the loops over buffers of \<open>MeekBuffer\<close>, those over time of \<open>OslConfig\<close>), with the
  inputs on which they end stated. The bounds of the code are kept: 100,000 tries of \<open>allocateIndex\<close>, proved enough for 99,995
  sessions; the byte counters of \<open>Sss\<close> wrap; ports are 16 bits, and the checksum accumulator 32 bits, with
  wrap-around written out. Times, sizes and event counters, 64 bits in the code, are integers.

  \<^bold>\<open>Assumptions.\<close> A step is atomic where the code holds a lock or uses an atomic operation, channel or
  \<open>sync.Map\<close>; \<open>Udpgw\<close> is the state between the messages of the one goroutine that reads them, with relays as steps in between; \<open>TunServer\<close>
  takes the calls of the server one after another, but for the two removals of its last theorem; the traffic rules of a packet tunnel session are
  those of one connection of its client. Hash and key derivation functions, encryption, regular expressions, JSON and CIDR parsers, DNS parsing and
  dialing are parameters, with documented properties of them as hypotheses.

  \<^bold>\<open>Not modelled.\<close> The rest of the establishment of tunnels (\<open>controller.go\<close>, \<open>tunnel.go\<close>, \<open>dialParameters.go\<close>), configuration
  (\<open>config.go\<close>, \<open>common/parameters\<close>, \<open>common/tactics\<close>) and the rest of \<open>server/tunnelServer.go\<close>, because they mostly dispatch to I/O, to SSH and
  to many options, and their decisions rest on random draws and stored replay data; the transports (\<open>meekConn.go\<close>, \<open>server/meek.go\<close>, \<open>common/quic\<close>,
  \<open>common/obfuscator\<close>, \<open>common/fragmentor\<close>, \<open>common/tlsdialer\<close>, \<open>common/refraction\<close>, \<open>common/packetman\<close>), which wrap network connections and cryptographic protocols; the WebRTC
  sessions, clients and proxies of \<open>common/inproxy\<close>; the data store engines; \<open>common/resolver\<close>, \<open>common/dsl\<close>, \<open>common/push\<close>, \<open>server/discovery\<close> and \<open>server/psinet\<close>,
  which are left for later; the start, stop, devices and routing commands of the packet tunnel; logs, notices and metrics records;
  the platform libraries, generated code and vendored packages. The manifest lists each with its reason.
\<close>

section \<open>The server's rules, blocklist and port forwards together\<close>

text \<open>What the file of the blocklist says of an address.\<close>

definition listed_address :: "blocklist_env \<Rightarrow> csv_line list \<Rightarrow> bytes \<Rightarrow> bool" where
  "listed_address env ls ip \<longleftrightarrow> (\<exists>key. To16 ip = Some key \<and> ip_tags env ls key \<noteq> {})"

lemma LookupIP_listed:
  assumes "loadBlocklistFromFile env (Some ls) = Inr data"
  shows "LookupIP (Some data) ip = [] \<longleftrightarrow> \<not> listed_address env ls ip"
proof -
  have "set (lookupIP data key) = ip_tags env ls key" for key
    using blocklist_loaded [OF assms] by (simp add: holds_tags_def)
  then show ?thesis by (cases "To16 ip") (auto simp: LookupIP_def listed_address_def set_empty [symmetric] simp del: set_empty)
qed

lemma LookupDomain_listed:
  assumes "loadBlocklistFromFile env (Some ls) = Inr data"
  shows "LookupDomain env (Some data) domain = [] \<longleftrightarrow> domain_tags env ls (normalizeHostAddress env domain) = {}"
proof -
  have "set (lookupDomain data key) = domain_tags env ls key" for key
    using blocklist_loaded [OF assms] by (simp add: holds_tags_def)
  then show ?thesis by (auto simp: LookupDomain_def set_empty [symmetric] simp del: set_empty)
qed

lemma target_returns:
  assumes "rules_complete (CIDR_parser sv) (trafficRules c)"
  shows "handleTCPChannel_target sv splitTunnel cached answer host port remaining c \<noteq> None"
proof -
  have t: "tcp_target_of sv splitTunnel ip port q d \<noteq> None" if "trafficRules d = trafficRules c" for ip q d
  proof -
    have "isPortForwardPermitted sv PortForwardTCP ip port d \<noteq> None"
      using permitted_returns [of sv d] assms that by simp
    then obtain p e d' where "isPortForwardPermitted sv PortForwardTCP ip port d = Some (p, e, d')" by fastforce
    then show ?thesis by (auto simp: tcp_target_of_def split: prod.split option.split)
  qed
  obtain res c1 where r: "resolve_target cached answer remaining c = (res, c1)" by fastforce
  then have "trafficRules c1 = trafficRules c"
    by (auto simp: resolve_target_def Let_def split: option.splits list.splits if_splits)
  then obtain x where x: "\<And>ip q. \<exists>y. tcp_target_of sv splitTunnel ip port q c1 = Some y" using t by fastforce
  show ?thesis
  proof (cases "ParseIP (host_env sv) host")
    case (Some ip)
    then show ?thesis using t [of c ip remaining] by (simp add: handleTCPChannel_target_def)
  next
    case None
    obtain d e where d: "isDomainPermitted sv host = (d, e)" by fastforce
    show ?thesis
    proof (cases res)
      case (Inr a)
      obtain ip q where a: "a = (ip, q)" by fastforce
      obtain y where "tcp_target_of sv splitTunnel ip port q c1 = Some y" using x by blast
      then show ?thesis using None d r Inr a by (cases d) (auto simp: handleTCPChannel_target_def)
    qed (use None d r in \<open>cases d; simp add: handleTCPChannel_target_def\<close>)
  qed
qed


definition listing_env :: blocklist_env where
  "listing_env = \<lparr>ParseIP = (\<lambda>s. if s = ''6.6.6.6'' then Some [6, 6, 6, 6] else None), IP_String = (\<lambda>ip. ''6.6.6.6''),
    strings_ToLower = (\<lambda>s. s), IsDomainName = (\<lambda>s. True)\<rparr>"

definition listing :: "csv_line list" where
  "listing = [CSVRecord ''6.6.6.6'' ''feed'' ''botnet'', CSVRecord ''bad.example.'' ''feed'' ''phishing'']"

definition listing_server :: "blocklist_data \<Rightarrow> server_support" where
  "listing_server data = sample_server\<lparr>ServerBlocklist := Some data, host_env := listing_env\<rparr>"

lemma listing_loads: "\<exists>data. loadBlocklistFromFile listing_env (Some listing) = Inr data"
  by (simp add: loadBlocklistFromFile_def listing_def load_record_def listing_env_def To16_def Let_def)


end
